(* ===== verification/Prelude.thy ===== *)
theory Prelude
  imports Main "HOL-Library.Word" "HOL-Library.Product_Lexorder"
begin

text \<open>
  Shared vocabulary of the development: the machine integers of the Rust code as words, its
  \<open>Result\<close> as a sum type, the standard-library operations the code uses on
  slices, on arrays of \<open>Option\<close> slots and on iterators, and the little-endian
  byte form of an integer. Every operation of the Rust standard library that the code calls
  and whose edge cases matter (checked and saturating arithmetic, slicing, \<open>min_by_key\<close>)
  is written out here once. The last section holds the interface of a transition table, which
  the run machine and the goal machine both provide.
\<close>

unbundle bit_operations_syntax

named_theorems slot_simps \<open>rewrite rules for arrays of optional slots\<close>
named_theorems result_simps \<open>rewrite rules for fallible computations\<close>

section \<open>Machine integers\<close>

type_synonym u8 = "8 word"
type_synonym u16 = "16 word"
type_synonym u32 = "32 word"
type_synonym u64 = "64 word"
type_synonym bytes = "8 word list"

text \<open>\<open>checked_add\<close>, \<open>checked_sub\<close>, \<open>saturating_add\<close> and \<open>saturating_sub\<close> of the
  unsigned integer types.\<close>

definition checked_add :: "'a::len word \<Rightarrow> 'a word \<Rightarrow> 'a word option" where
  "checked_add a b = (if unat a + unat b < 2 ^ LENGTH('a) then Some (a + b) else None)"

definition checked_sub :: "'a::len word \<Rightarrow> 'a word \<Rightarrow> 'a word option" where
  "checked_sub a b = (if b \<le> a then Some (a - b) else None)"

definition saturating_add :: "'a::len word \<Rightarrow> 'a word \<Rightarrow> 'a word" where
  "saturating_add a b = (if unat a + unat b < 2 ^ LENGTH('a) then a + b else - 1)"

definition saturating_sub :: "'a::len word \<Rightarrow> 'a word \<Rightarrow> 'a word" where
  "saturating_sub a b = (if b \<le> a then a - b else 0)"

text \<open>\<open>u8::try_from\<close> (and its siblings) on a \<open>usize\<close>: the value when it fits.\<close>

definition try_from :: "nat \<Rightarrow> 'a::len word option" where
  "try_from n = (if n < 2 ^ LENGTH('a) then Some (of_nat n) else None)"

lemma unat_add_exact:
  fixes a b :: "'a::len word"
  assumes "unat a + unat b < 2 ^ LENGTH('a)"
  shows "unat (a + b) = unat a + unat b"
  using assms by (simp add: unat_word_ariths)

lemma unat_sub_exact:
  fixes a b :: "'a::len word"
  assumes "b \<le> a"
  shows "unat (a - b) = unat a - unat b"
  using assms by (rule unat_sub)

lemma unat_max_word [simp]: "unat (- 1 :: 'a::len word) = 2 ^ LENGTH('a) - 1"
  by (simp add: unsigned_minus_1_eq_mask mask_eq_exp_minus_1)

lemma checked_add_Some_iff [result_simps]:
  fixes a b c :: "'a::len word"
  shows "checked_add a b = Some c \<longleftrightarrow> unat a + unat b < 2 ^ LENGTH('a) \<and> c = a + b"
  by (auto simp: checked_add_def)

lemma checked_add_None_iff [result_simps]:
  fixes a b :: "'a::len word"
  shows "checked_add a b = None \<longleftrightarrow> 2 ^ LENGTH('a) \<le> unat a + unat b"
  by (auto simp: checked_add_def not_less)

lemma unat_checked_add:
  "checked_add a b = Some c \<Longrightarrow> unat c = unat a + unat b"
  by (auto simp: result_simps unat_add_exact)

lemma unat_checked_sub:
  "checked_sub a b = Some c \<Longrightarrow> unat c + unat b = unat a"
  by (auto simp: checked_sub_def unat_sub_exact word_le_nat_alt split: if_splits)

lemma unat_saturating_add:
  fixes a b :: "'a::len word"
  shows "unat (saturating_add a b) = min (unat a + unat b) (2 ^ LENGTH('a) - 1)"
  by (auto simp: saturating_add_def unat_add_exact)

lemma unat_saturating_sub:
  "unat (saturating_sub a b) = unat a - unat b"
  by (auto simp: saturating_sub_def unat_sub_exact word_le_nat_alt)

lemma try_from_Some_iff [result_simps]:
  fixes w :: "'a::len word"
  shows "try_from n = Some w \<longleftrightarrow> unat w = n"
proof -
  have "unat w < 2 ^ LENGTH('a)" by simp
  then show ?thesis by (auto simp: try_from_def unat_of_nat)
qed

section \<open>Results\<close>

text \<open>\<open>Result<T, E>\<close> is \<open>'e + 't\<close>: \<open>Inl\<close> an error, \<open>Inr\<close> a value. \<open>and_then\<close> is the
  \<open>?\<close> operator: the first error ends the function.\<close>

fun and_then :: "'e + 'a \<Rightarrow> ('a \<Rightarrow> 'e + 'b) \<Rightarrow> 'e + 'b" where
  "and_then (Inl e) f = Inl e"
| "and_then (Inr x) f = f x"

fun map_err :: "('e \<Rightarrow> 'f) \<Rightarrow> 'e + 'a \<Rightarrow> 'f + 'a" where
  "map_err g (Inl e) = Inl (g e)"
| "map_err g (Inr x) = Inr x"

fun ok_or :: "'e \<Rightarrow> 'a option \<Rightarrow> 'e + 'a" where
  "ok_or e None = Inl e"
| "ok_or e (Some x) = Inr x"

fun is_ok :: "'e + 'a \<Rightarrow> bool" where
  "is_ok (Inl e) \<longleftrightarrow> False"
| "is_ok (Inr x) \<longleftrightarrow> True"

lemma and_then_eq_Inr [result_simps]:
  "and_then m f = Inr y \<longleftrightarrow> (\<exists>x. m = Inr x \<and> f x = Inr y)"
  by (cases m) auto

lemma and_then_eq_Inl [result_simps]:
  "and_then m f = Inl e \<longleftrightarrow> m = Inl e \<or> (\<exists>x. m = Inr x \<and> f x = Inl e)"
  by (cases m) auto

lemma and_then_cong [fundef_cong]:
  "m = m' \<Longrightarrow> (\<And>x. m' = Inr x \<Longrightarrow> f x = g x) \<Longrightarrow> and_then m f = and_then m' g"
  by (cases m') auto

lemma map_err_eq_Inr [result_simps]: "map_err g m = Inr y \<longleftrightarrow> m = Inr y"
  by (cases m) auto

lemma ok_or_eq_Inr [result_simps]: "ok_or e m = Inr y \<longleftrightarrow> m = Some y"
  by (cases m) auto

lemma ok_or_eq_Inl [result_simps]: "ok_or e m = Inl e' \<longleftrightarrow> m = None \<and> e' = e"
  by (cases m) auto

lemma is_ok_iff [result_simps]: "is_ok m \<longleftrightarrow> (\<exists>x. m = Inr x)"
  by (cases m) auto

section \<open>Slices\<close>

text \<open>\<open>xs.get(i)\<close>.\<close>

definition nth_of :: "'a list \<Rightarrow> nat \<Rightarrow> 'a option" where
  "nth_of xs i = (if i < length xs then Some (xs ! i) else None)"

text \<open>\<open>xs.get(i..j)\<close> and \<open>xs.get_mut(i..j)\<close> with \<open>copy_from_slice\<close>.\<close>

definition slice :: "'a list \<Rightarrow> nat \<Rightarrow> nat \<Rightarrow> 'a list option" where
  "slice xs i j = (if i \<le> j \<and> j \<le> length xs then Some (take (j - i) (drop i xs)) else None)"

definition splice :: "'a list \<Rightarrow> nat \<Rightarrow> 'a list \<Rightarrow> 'a list option" where
  "splice xs i ys =
     (if i + length ys \<le> length xs then Some (take i xs @ ys @ drop (i + length ys) xs) else None)"

lemma slice_Some_length: "slice xs i j = Some ys \<Longrightarrow> length ys = j - i"
  by (auto simp: slice_def split: if_splits)

lemma length_splice: "splice xs i ys = Some zs \<Longrightarrow> length zs = length xs"
  by (auto simp: splice_def split: if_splits)

section \<open>Arrays of optional slots\<close>

text \<open>\<open>slots.iter().flatten()\<close>: the occupied slots in order.\<close>

fun flatten :: "'a option list \<Rightarrow> 'a list" where
  "flatten [] = []"
| "flatten (None # s) = flatten s"
| "flatten (Some x # s) = x # flatten s"

text \<open>\<open>slots.iter_mut().find(is_none)\<close> and the assignment to the slot found.\<close>

fun fill_free :: "'a \<Rightarrow> 'a option list \<Rightarrow> 'a option list option" where
  "fill_free x [] = None"
| "fill_free x (None # s) = Some (Some x # s)"
| "fill_free x (Some y # s) = map_option ((#) (Some y)) (fill_free x s)"

text \<open>\<open>slots.iter_mut().flatten().find(p)\<close> and the assignment through the reference found.\<close>

fun update_first :: "('a \<Rightarrow> bool) \<Rightarrow> ('a \<Rightarrow> 'a) \<Rightarrow> 'a option list \<Rightarrow> 'a option list" where
  "update_first p f [] = []"
| "update_first p f (None # s) = None # update_first p f s"
| "update_first p f (Some x # s) = (if p x then Some (f x) # s else Some x # update_first p f s)"

text \<open>\<open>iter().position(p)\<close>.\<close>

fun position :: "('a \<Rightarrow> bool) \<Rightarrow> 'a list \<Rightarrow> nat option" where
  "position p [] = None"
| "position p (x # xs) = (if p x then Some 0 else map_option Suc (position p xs))"

text \<open>A canonical array: the values first, then only free slots.\<close>

definition pack :: "nat \<Rightarrow> 'a list \<Rightarrow> 'a option list" where
  "pack n xs = map Some xs @ replicate (n - length xs) None"

lemma flatten_append [simp]: "flatten (s @ t) = flatten s @ flatten t"
  by (induction s rule: flatten.induct) auto

lemma flatten_map_Some [simp]: "flatten (map Some xs) = xs"
  by (induction xs) auto

lemma flatten_replicate_None [simp]: "flatten (replicate n None) = []"
  by (induction n) auto

lemma flatten_pack [slot_simps]: "flatten (pack n xs) = xs"
  by (simp add: pack_def)

lemma length_pack [slot_simps]: "length xs \<le> n \<Longrightarrow> length (pack n xs) = n"
  by (simp add: pack_def)

lemma pack_append:
  assumes "length xs < n"
  shows "(pack n xs)[length xs := Some x] = pack n (xs @ [x])"
proof -
  obtain k where "n - length xs = Suc k" using assms by (metis Suc_diff_Suc)
  moreover from this have "n - Suc (length xs) = k" by simp
  ultimately show ?thesis by (simp add: pack_def list_update_append)
qed

lemma length_flatten: "length (flatten s) \<le> length s"
  by (induction s rule: flatten.induct) auto

lemma flatten_eq_Nil_iff: "flatten s = [] \<longleftrightarrow> (\<forall>x \<in> set s. x = None)"
  by (induction s rule: flatten.induct) auto

lemma fill_free_map_Some: "fill_free x (map Some xs @ s) = map_option ((@) (map Some xs)) (fill_free x s)"
  by (induction xs) (auto simp: option.map_comp comp_def, simp add: option.map_ident)

lemma fill_free_pack [slot_simps]:
  "fill_free x (pack n xs) = (if length xs < n then Some (pack n (xs @ [x])) else None)"
proof (cases "length xs < n")
  case True
  then obtain k where "n - length xs = Suc k" by (metis Suc_diff_Suc)
  moreover from this have "n - Suc (length xs) = k" by simp
  ultimately show ?thesis using True
    by (simp add: pack_def fill_free_map_Some)
next
  case False
  then show ?thesis using fill_free_map_Some [of x xs "[]"] by (simp add: pack_def)
qed

lemma update_first_flatten:
  "flatten (update_first p f s) =
     (case position p (flatten s) of None \<Rightarrow> flatten s
      | Some i \<Rightarrow> (flatten s)[i := f (flatten s ! i)])"
  by (induction p f s rule: update_first.induct) (auto split: option.splits)

lemma length_update_first [simp]: "length (update_first p f s) = length s"
  by (induction p f s rule: update_first.induct) auto

lemma update_first_pack [slot_simps]:
  "update_first p f (pack n xs) = pack n (case position p xs of None \<Rightarrow> xs | Some i \<Rightarrow> xs[i := f (xs ! i)])"
proof -
  have free: "update_first p f (replicate k None) = replicate k None" for k
    by (induction k) auto
  have "update_first p f (map Some xs @ replicate k None) =
      map Some (case position p xs of None \<Rightarrow> xs | Some i \<Rightarrow> xs[i := f (xs ! i)]) @ replicate k None" for k
    by (induction xs) (auto simp: free split: option.splits)
  then show ?thesis
    by (auto simp: pack_def split: option.splits)
qed

lemma position_Some_iff:
  "position p xs = Some i \<longleftrightarrow> i < length xs \<and> p (xs ! i) \<and> (\<forall>j < i. \<not> p (xs ! j))"
proof (induction xs arbitrary: i)
  case (Cons x xs)
  show ?case
    by (cases i) (auto simp: Cons.IH less_Suc_eq_0_disj)
qed simp

lemma position_None_iff: "position p xs = None \<longleftrightarrow> (\<forall>x \<in> set xs. \<not> p x)"
  by (induction xs) auto

lemma find_eq_position: "List.find p xs = map_option ((!) xs) (position p xs)"
  by (induction xs) (auto simp: option.map_comp comp_def)

section \<open>Iterator minima and maxima\<close>

text \<open>\<open>min_by_key\<close> returns the first of several minimal elements, \<open>max_by_key\<close> the last of
  several maximal ones.\<close>

fun min_by_key :: "('a \<Rightarrow> 'k::linorder) \<Rightarrow> 'a list \<Rightarrow> 'a option" where
  "min_by_key k [] = None"
| "min_by_key k (x # xs) =
     (case min_by_key k xs of None \<Rightarrow> Some x | Some y \<Rightarrow> if k x \<le> k y then Some x else Some y)"

fun max_by_key :: "('a \<Rightarrow> 'k::linorder) \<Rightarrow> 'a list \<Rightarrow> 'a option" where
  "max_by_key k [] = None"
| "max_by_key k (x # xs) =
     (case max_by_key k xs of None \<Rightarrow> Some x | Some y \<Rightarrow> if k x \<le> k y then Some y else Some x)"

lemma min_by_key_None_iff [simp]: "min_by_key k xs = None \<longleftrightarrow> xs = []"
  by (cases xs) (auto split: option.splits)

lemma max_by_key_None_iff [simp]: "max_by_key k xs = None \<longleftrightarrow> xs = []"
  by (cases xs) (auto split: option.splits)

lemma min_by_key_least:
  "min_by_key k xs = Some y \<Longrightarrow> y \<in> set xs \<and> (\<forall>x \<in> set xs. k y \<le> k x)"
proof (induction xs arbitrary: y)
  case (Cons x xs)
  then show ?case
    by (cases "min_by_key k xs") (force split: if_splits)+
qed simp

lemma max_by_key_greatest:
  "max_by_key k xs = Some y \<Longrightarrow> y \<in> set xs \<and> (\<forall>x \<in> set xs. k x \<le> k y)"
proof (induction xs arbitrary: y)
  case (Cons x xs)
  then show ?case
    by (cases "max_by_key k xs") (force split: if_splits)+
qed simp

text \<open>\<open>core::cmp::Reverse\<close>: the same values in the opposite order.\<close>

datatype 'a reverse = Reverse (unreverse: 'a)

instantiation reverse :: (linorder) linorder
begin

definition less_eq_reverse :: "'a reverse \<Rightarrow> 'a reverse \<Rightarrow> bool" where
  "less_eq_reverse a b \<longleftrightarrow> unreverse b \<le> unreverse a"

definition less_reverse :: "'a reverse \<Rightarrow> 'a reverse \<Rightarrow> bool" where
  "less_reverse a b \<longleftrightarrow> unreverse b < unreverse a"

instance
  by standard (auto simp: less_eq_reverse_def less_reverse_def reverse.expand)

end

section \<open>Little-endian bytes\<close>

text \<open>\<open>to_le_bytes\<close> and \<open>from_le_bytes\<close> of an integer of any width that is a multiple of 8.\<close>

definition to_le_bytes :: "'a::len word \<Rightarrow> bytes" where
  "to_le_bytes w = map (\<lambda>i. ucast (drop_bit (8 * i) w)) [0..<LENGTH('a) div 8]"

fun from_le_bytes :: "bytes \<Rightarrow> 'a::len word" where
  "from_le_bytes [] = 0"
| "from_le_bytes (b # bs) = ucast b OR push_bit 8 (from_le_bytes bs)"

lemma length_to_le_bytes [simp]: "length (to_le_bytes (w :: 'a::len word)) = LENGTH('a) div 8"
  by (simp add: to_le_bytes_def)

lemma bit_from_le_bytes:
  "bit (from_le_bytes bs :: 'a::len word) n \<longleftrightarrow>
     n < LENGTH('a) \<and> n div 8 < length bs \<and> bit (bs ! (n div 8)) (n mod 8)"
proof (induction bs arbitrary: n)
  case (Cons b bs)
  show ?case
  proof (cases "n < 8")
    case True
    then show ?thesis by (auto simp: bit_or_iff bit_ucast_iff bit_push_bit_iff)
  next
    case False
    then have "n div 8 = Suc ((n - 8) div 8)" "n mod 8 = (n - 8) mod 8"
      by (auto simp: div_if mod_if)
    moreover from False have "\<not> bit b n"
      using bit_imp_le_length [of b n] by auto
    ultimately show ?thesis using False
      by (auto simp: bit_or_iff bit_ucast_iff bit_push_bit_iff Cons.IH dest: bit_imp_le_length)
  qed
qed simp

lemma from_to_le_bytes [simp]:
  fixes w :: "'a::len word"
  assumes "8 dvd LENGTH('a)"
  shows "from_le_bytes (to_le_bytes w) = w"
proof (rule bit_word_eqI)
  fix n assume n: "n < LENGTH('a)"
  with assms have lt: "n div 8 < LENGTH('a) div 8"
    by (simp add: div_less_iff_less_mult dvd_div_mult_self)
  have "bit (to_le_bytes w ! (n div 8)) (n mod 8) = bit w n"
    using lt by (simp add: to_le_bytes_def bit_ucast_iff bit_drop_bit_eq)
  with n lt show "bit (from_le_bytes (to_le_bytes w) :: 'a word) n = bit w n"
    by (simp add: bit_from_le_bytes)
qed

lemma to_from_le_bytes:
  assumes "8 dvd LENGTH('a::len)" and "length bs = LENGTH('a) div 8"
  shows "to_le_bytes (from_le_bytes bs :: 'a word) = bs"
proof (rule nth_equalityI)
  show "length (to_le_bytes (from_le_bytes bs :: 'a word)) = length bs"
    using assms by simp
next
  fix i assume "i < length (to_le_bytes (from_le_bytes bs :: 'a word))"
  then have i: "i < LENGTH('a) div 8" by simp
  then have "8 * i + 8 \<le> LENGTH('a)" using assms(1) by auto
  then show "to_le_bytes (from_le_bytes bs :: 'a word) ! i = bs ! i"
    using i assms(2)
    by (intro bit_word_eqI)
       (auto simp: to_le_bytes_def bit_ucast_iff bit_drop_bit_eq bit_from_le_bytes)
qed

section \<open>ASCII\<close>

text \<open>\<open>b"..."\<close> and \<open>str::as_bytes\<close>; the literals of the program are ASCII. The character classes are
  those of \<open>u8\<close>.\<close>

definition str_bytes :: "string \<Rightarrow> bytes" where
  "str_bytes s = map of_char s"

definition is_ascii_digit :: "u8 \<Rightarrow> bool" where
  "is_ascii_digit b \<longleftrightarrow> 0x30 \<le> b \<and> b \<le> 0x39"

definition is_ascii_alphanumeric :: "u8 \<Rightarrow> bool" where
  "is_ascii_alphanumeric b \<longleftrightarrow>
     is_ascii_digit b \<or> 0x41 \<le> b \<and> b \<le> 0x5a \<or> 0x61 \<le> b \<and> b \<le> 0x7a"

definition is_ascii_hexdigit :: "u8 \<Rightarrow> bool" where
  "is_ascii_hexdigit b \<longleftrightarrow>
     is_ascii_digit b \<or> 0x41 \<le> b \<and> b \<le> 0x46 \<or> 0x61 \<le> b \<and> b \<le> 0x66"

definition starts_with :: "bytes \<Rightarrow> bytes \<Rightarrow> bool" where
  "starts_with bs p \<longleftrightarrow> take (length p) bs = p"

lemma length_str_bytes [simp]: "length (str_bytes s) = length s"
  by (simp add: str_bytes_def)

lemma starts_with_length: "starts_with bs p \<Longrightarrow> length p \<le> length bs"
  unfolding starts_with_def by (metis length_take min.cobounded1)

section \<open>Transition tables\<close>

text \<open>The interface both state machines of the program provide: a table of edges, searched from
  the front for the source and the event.\<close>

fun table_lookup :: "('s \<times> 'e \<times> 's) list \<Rightarrow> 's \<Rightarrow> 'e \<Rightarrow> 's option" where
  "table_lookup [] s e = None"
| "table_lookup ((f, g, t) # es) s e = (if f = s \<and> g = e then Some t else table_lookup es s e)"

locale edge_table =
  fixes edges :: "('s \<times> 'e \<times> 's) list"
  assumes functional: "distinct (map (\<lambda>(s, e, t). (s, e)) edges)"
begin

lemma lookup_Some_iff: "table_lookup edges s e = Some t \<longleftrightarrow> (s, e, t) \<in> set edges"
  using functional
proof (induction edges)
  case (Cons x xs)
  then show ?case by (cases x) force
qed simp

lemma lookup_None_iff: "table_lookup edges s e = None \<longleftrightarrow> (\<forall>t. (s, e, t) \<notin> set edges)"
  using lookup_Some_iff by (metis option.exhaust option.distinct(1))

end

end
