(* ===== verification/Ids.thy ===== *)
theory Ids
  imports Prelude
begin

text \<open>
  The identifier newtypes of \<open>esper-core/src/ids.rs\<close> and the FNV-1a-64 hash the program uses as
  its digest everywhere: for argument digests, checkpoint and snapshot integrity, seeds and
  fingerprints. The lemmas show that one hash step is injective in the running hash and in
  the byte, so two byte strings that differ in exactly one byte never collide.
\<close>

unbundle bit_operations_syntax

section \<open>Identifiers\<close>

datatype run_id = RunId (run_id_get: u64)
datatype effect_seq = EffectSeq (effect_seq_get: u32)
datatype tool_id = ToolId (tool_id_get: u8)
text \<open>The number of a \<open>Pin\<close> is private in the source and checked to be below \<open>pin_count\<close>; where that matters,
  the statements restrict to such pins (\<open>pins_real\<close> of \<open>Registry\<close>).\<close>

datatype pin = Pin (pin_get: u8)
datatype digest = Digest (digest_get: u64)

record effect_id =
  eff_run :: run_id
  eff_seq :: effect_seq

definition pin_count :: u8 where
  "pin_count = 8"

definition sensor_count :: u8 where
  "sensor_count = 4"

definition effect_seq_next :: "effect_seq \<Rightarrow> effect_seq option" where
  "effect_seq_next s = map_option EffectSeq (checked_add (effect_seq_get s) 1)"

text \<open>The sequence number strictly grows or the space is spent: an id is never minted twice.\<close>

lemma effect_seq_next_unat:
  "effect_seq_next s = Some t \<Longrightarrow> unat (effect_seq_get t) = Suc (unat (effect_seq_get s))"
  by (auto simp: effect_seq_next_def dest!: unat_checked_add)

section \<open>FNV-1a-64\<close>

definition fnv_offset :: u64 where
  "fnv_offset = 0xcbf29ce484222325"

definition fnv_prime :: u64 where
  "fnv_prime = 0x100000001b3"

text \<open>One step: mix the byte in, then multiply, wrapping at 64 bits.\<close>

definition fnv_step :: "u64 \<Rightarrow> u8 \<Rightarrow> u64" where
  "fnv_step h b = (h XOR ucast b) * fnv_prime"

text \<open>\<open>fnv_update\<close> of \<open>checkpoint.rs\<close> and \<open>fnv_mix\<close> of \<open>mask.rs\<close> are the same loop; \<open>of_bytes\<close> starts
  it from the offset basis.\<close>

fun fnv_update :: "u64 \<Rightarrow> bytes \<Rightarrow> u64" where
  "fnv_update h [] = h"
| "fnv_update h (b # bs) = fnv_update (fnv_step h b) bs"

fun fnv_mix :: "u64 \<Rightarrow> bytes \<Rightarrow> u64" where
  "fnv_mix h [] = h"
| "fnv_mix h (b # bs) = fnv_mix (fnv_step h b) bs"

definition digest_of_bytes :: "bytes \<Rightarrow> digest" where
  "digest_of_bytes bs = Digest (foldl fnv_step fnv_offset bs)"

definition fnv1a64 :: "bytes \<Rightarrow> u64" where
  "fnv1a64 bs = digest_get (digest_of_bytes bs)"

lemma fnv_update_foldl: "fnv_update h bs = foldl fnv_step h bs"
  by (induction bs arbitrary: h) auto

lemma fnv_mix_eq_update: "fnv_mix h bs = fnv_update h bs"
  by (induction bs arbitrary: h) auto

lemma fnv_update_append [simp]: "fnv_update h (as @ bs) = fnv_update (fnv_update h as) bs"
  by (simp add: fnv_update_foldl)

lemma fnv1a64_eq_update: "fnv1a64 bs = fnv_update fnv_offset bs"
  by (simp add: fnv1a64_def digest_of_bytes_def fnv_update_foldl)

section \<open>Injectivity of the hash step\<close>

lemma fnv_prime_invertible: "fnv_prime * 0xce965057aff6957b = 1"
  by (simp add: fnv_prime_def)

lemma fnv_prime_cancel: "a * fnv_prime = b * fnv_prime \<longleftrightarrow> a = b"
proof
  assume "a * fnv_prime = b * fnv_prime"
  then have "a * fnv_prime * 0xce965057aff6957b = b * fnv_prime * 0xce965057aff6957b" by simp
  then show "a = b" by (simp only: mult.assoc fnv_prime_invertible mult_1_right)
qed simp

lemma xor_right_cancel:
  fixes a b c :: "'a::len word"
  shows "a XOR c = b XOR c \<longleftrightarrow> a = b"
  by (metis bit.xor_self xor.assoc xor.right_neutral)

lemma xor_left_cancel:
  fixes a b c :: "'a::len word"
  shows "c XOR a = c XOR b \<longleftrightarrow> a = b"
  by (metis xor.commute xor_right_cancel)

lemma fnv_step_hash_inj: "fnv_step h b = fnv_step h' b \<longleftrightarrow> h = h'"
  by (simp add: fnv_step_def fnv_prime_cancel xor_right_cancel)

lemma ucast_byte_inj: "(ucast a :: u64) = ucast (b :: u8) \<longleftrightarrow> a = b"
proof
  have down: "(ucast (ucast c :: u64) :: u8) = c" for c :: u8
    by (rule bit_word_eqI) (simp add: bit_ucast_iff)
  assume "(ucast a :: u64) = ucast b"
  then have "(ucast (ucast a :: u64) :: u8) = ucast (ucast b :: u64)" by simp
  then show "a = b" by (simp only: down)
qed simp

lemma fnv_step_byte_inj: "fnv_step h a = fnv_step h b \<longleftrightarrow> a = b"
  by (simp add: fnv_step_def fnv_prime_cancel xor_left_cancel ucast_byte_inj)

lemma fnv_update_hash_inj: "fnv_update h bs = fnv_update h' bs \<longleftrightarrow> h = h'"
  by (induction bs arbitrary: h h') (auto simp: fnv_step_hash_inj)

text \<open>A change of exactly one byte always changes the digest.\<close>

lemma fnv1a64_one_byte:
  "fnv1a64 (as @ x # bs) = fnv1a64 (as @ y # bs) \<longleftrightarrow> x = y"
  by (simp add: fnv1a64_eq_update fnv_update_hash_inj fnv_step_byte_inj)

end
