(* ===== verification/Vocabulary.thy ===== *)
theory Vocabulary
  imports Ids
begin

text \<open>
  The closed vocabularies of the program, each with the stable numeric code and the name the
  code gives it, and the operational error type of \<open>esper-core/src/error.rs\<close> with the bounded
  repair hint derived from it. The enums of \<open>state.rs\<close>, \<open>goal.rs\<close>, \<open>budget.rs\<close>, \<open>records.rs\<close>
  and \<open>json.rs\<close> stand here because the error type mentions them; their operations are in the
  theories of their own components. Constructors carry a prefix per type, because the Rust
  enums share names (\<open>BudgetExhausted\<close> is an event, a status and an error).
\<close>

section \<open>Error codes (error.rs)\<close>

datatype error_code =
    C_Ok
  | C_InvalidArgs
  | C_Denied
  | C_ApprovalRequired
  | C_Transient
  | C_Permanent
  | C_VerificationFailed
  | C_OutputExhausted
  | C_ModelMalformed
  | C_BudgetExceeded
  | C_StorageFault

fun error_code_name :: "error_code \<Rightarrow> string" where
  "error_code_name C_Ok = ''ok''"
| "error_code_name C_InvalidArgs = ''invalid_args''"
| "error_code_name C_Denied = ''denied''"
| "error_code_name C_ApprovalRequired = ''approval_required''"
| "error_code_name C_Transient = ''transient''"
| "error_code_name C_Permanent = ''permanent''"
| "error_code_name C_VerificationFailed = ''verification_failed''"
| "error_code_name C_OutputExhausted = ''output_exhausted''"
| "error_code_name C_ModelMalformed = ''model_malformed''"
| "error_code_name C_BudgetExceeded = ''budget_exceeded''"
| "error_code_name C_StorageFault = ''storage_fault''"

fun error_code_code :: "error_code \<Rightarrow> u8" where
  "error_code_code C_Ok = 0"
| "error_code_code C_InvalidArgs = 1"
| "error_code_code C_Denied = 2"
| "error_code_code C_ApprovalRequired = 3"
| "error_code_code C_Transient = 4"
| "error_code_code C_Permanent = 5"
| "error_code_code C_VerificationFailed = 6"
| "error_code_code C_OutputExhausted = 7"
| "error_code_code C_ModelMalformed = 8"
| "error_code_code C_BudgetExceeded = 9"
| "error_code_code C_StorageFault = 10"

definition error_code_from_code :: "u8 \<Rightarrow> error_code option" where
  "error_code_from_code c =
     (if c = 0 then Some C_Ok
      else if c = 1 then Some C_InvalidArgs
      else if c = 2 then Some C_Denied
      else if c = 3 then Some C_ApprovalRequired
      else if c = 4 then Some C_Transient
      else if c = 5 then Some C_Permanent
      else if c = 6 then Some C_VerificationFailed
      else if c = 7 then Some C_OutputExhausted
      else if c = 8 then Some C_ModelMalformed
      else if c = 9 then Some C_BudgetExceeded
      else if c = 10 then Some C_StorageFault
      else None)"

text \<open>Only a transient failure may be retried.\<close>

fun error_code_retryable :: "error_code \<Rightarrow> bool" where
  "error_code_retryable C_Transient = True"
| "error_code_retryable _ = False"

datatype field =
    F_Prompt
  | F_Schema
  | F_Status
  | F_Summary
  | F_Pin
  | F_Level
  | F_Sensor
  | F_Ms
  | F_Detail

fun field_name :: "field \<Rightarrow> string" where
  "field_name F_Prompt = ''prompt''"
| "field_name F_Schema = ''schema''"
| "field_name F_Status = ''status''"
| "field_name F_Summary = ''summary''"
| "field_name F_Pin = ''pin''"
| "field_name F_Level = ''level''"
| "field_name F_Sensor = ''sensor''"
| "field_name F_Ms = ''ms''"
| "field_name F_Detail = ''detail''"

datatype repair_variant =
    RV_Malformed
  | RV_InvalidArgs

fun repair_variant_name :: "repair_variant \<Rightarrow> string" where
  "repair_variant_name RV_Malformed = ''malformed''"
| "repair_variant_name RV_InvalidArgs = ''invalid_args''"

section \<open>JSON strictness violations (json.rs)\<close>

datatype json_error =
    J_UnexpectedByte
  | J_UnexpectedEnd
  | J_BadEscape
  | J_UnterminatedString
  | J_BadNumber
  | J_TrailingBytes
  | J_DepthExceeded
  | J_DuplicateKey
  | J_TooManyKeys

section \<open>Budget units (budget.rs)\<close>

datatype budget_unit =
    U_ModelTurns
  | U_InputTokens
  | U_OutputTokens
  | U_ElapsedMs
  | U_RadioBytes
  | U_Mutations

fun budget_unit_name :: "budget_unit \<Rightarrow> string" where
  "budget_unit_name U_ModelTurns = ''model_turns''"
| "budget_unit_name U_InputTokens = ''input_tokens''"
| "budget_unit_name U_OutputTokens = ''output_tokens''"
| "budget_unit_name U_ElapsedMs = ''elapsed_ms''"
| "budget_unit_name U_RadioBytes = ''radio_bytes''"
| "budget_unit_name U_Mutations = ''mutations''"

section \<open>The run machine (state.rs)\<close>

datatype run_state =
    S_Recover
  | S_Gather
  | S_Infer
  | S_Repair
  | S_Authorize
  | S_AwaitInput
  | S_Observe
  | S_Verify
  | S_Account
  | S_Finalize
  | S_Degraded
  | S_SafeStop
  | S_End

fun run_state_name :: "run_state \<Rightarrow> string" where
  "run_state_name S_Recover = ''Recover''"
| "run_state_name S_Gather = ''Gather''"
| "run_state_name S_Infer = ''Infer''"
| "run_state_name S_Repair = ''Repair''"
| "run_state_name S_Authorize = ''Authorize''"
| "run_state_name S_AwaitInput = ''AwaitInput''"
| "run_state_name S_Observe = ''Observe''"
| "run_state_name S_Verify = ''Verify''"
| "run_state_name S_Account = ''Account''"
| "run_state_name S_Finalize = ''Finalize''"
| "run_state_name S_Degraded = ''Degraded''"
| "run_state_name S_SafeStop = ''SafeStop''"
| "run_state_name S_End = ''End''"

fun run_state_is_terminal :: "run_state \<Rightarrow> bool" where
  "run_state_is_terminal S_End = True"
| "run_state_is_terminal _ = False"

fun run_state_is_pre_terminal :: "run_state \<Rightarrow> bool" where
  "run_state_is_pre_terminal S_Finalize = True"
| "run_state_is_pre_terminal S_Degraded = True"
| "run_state_is_pre_terminal S_SafeStop = True"
| "run_state_is_pre_terminal _ = False"

datatype run_event =
    Ev_JournalValid
  | Ev_JournalCorrupt
  | Ev_BudgetsClear
  | Ev_BudgetExhausted
  | Ev_IncompatibleVersion
  | Ev_DecodeCall
  | Ev_DecodeAsk
  | Ev_DecodeFinish
  | Ev_DecodeMalformed
  | Ev_RepairAvailable
  | Ev_RepairExhausted
  | Ev_Authorized
  | Ev_Denied
  | Ev_InputArrived
  | Ev_ObserveOkMutating
  | Ev_ObserveDone
  | Ev_TransientRetry
  | Ev_TransientExhausted
  | Ev_VerifyPass
  | Ev_VerifyFail
  | Ev_GuardsClear
  | Ev_GuardFired
  | Ev_FinalizeCommitted
  | Ev_DegradedCommitted
  | Ev_SafeStopCommitted

fun run_event_name :: "run_event \<Rightarrow> string" where
  "run_event_name Ev_JournalValid = ''JournalValid''"
| "run_event_name Ev_JournalCorrupt = ''JournalCorrupt''"
| "run_event_name Ev_BudgetsClear = ''BudgetsClear''"
| "run_event_name Ev_BudgetExhausted = ''BudgetExhausted''"
| "run_event_name Ev_IncompatibleVersion = ''IncompatibleVersion''"
| "run_event_name Ev_DecodeCall = ''DecodeCall''"
| "run_event_name Ev_DecodeAsk = ''DecodeAsk''"
| "run_event_name Ev_DecodeFinish = ''DecodeFinish''"
| "run_event_name Ev_DecodeMalformed = ''DecodeMalformed''"
| "run_event_name Ev_RepairAvailable = ''RepairAvailable''"
| "run_event_name Ev_RepairExhausted = ''RepairExhausted''"
| "run_event_name Ev_Authorized = ''Authorized''"
| "run_event_name Ev_Denied = ''Denied''"
| "run_event_name Ev_InputArrived = ''InputArrived''"
| "run_event_name Ev_ObserveOkMutating = ''ObserveOkMutating''"
| "run_event_name Ev_ObserveDone = ''ObserveDone''"
| "run_event_name Ev_TransientRetry = ''TransientRetry''"
| "run_event_name Ev_TransientExhausted = ''TransientExhausted''"
| "run_event_name Ev_VerifyPass = ''VerifyPass''"
| "run_event_name Ev_VerifyFail = ''VerifyFail''"
| "run_event_name Ev_GuardsClear = ''GuardsClear''"
| "run_event_name Ev_GuardFired = ''GuardFired''"
| "run_event_name Ev_FinalizeCommitted = ''FinalizeCommitted''"
| "run_event_name Ev_DegradedCommitted = ''DegradedCommitted''"
| "run_event_name Ev_SafeStopCommitted = ''SafeStopCommitted''"

datatype terminal_status =
    T_Completed
  | T_NeedsInput
  | T_Denied
  | T_BudgetExhausted
  | T_Stuck
  | T_ToolUnavailable
  | T_ModelInvalid
  | T_StorageFault
  | T_Incompatible

fun terminal_status_name :: "terminal_status \<Rightarrow> string" where
  "terminal_status_name T_Completed = ''completed''"
| "terminal_status_name T_NeedsInput = ''needs_input''"
| "terminal_status_name T_Denied = ''denied''"
| "terminal_status_name T_BudgetExhausted = ''budget_exhausted''"
| "terminal_status_name T_Stuck = ''stuck''"
| "terminal_status_name T_ToolUnavailable = ''tool_unavailable''"
| "terminal_status_name T_ModelInvalid = ''model_invalid''"
| "terminal_status_name T_StorageFault = ''storage_fault''"
| "terminal_status_name T_Incompatible = ''incompatible''"

fun terminal_status_code :: "terminal_status \<Rightarrow> u8" where
  "terminal_status_code T_Completed = 0"
| "terminal_status_code T_NeedsInput = 1"
| "terminal_status_code T_Denied = 2"
| "terminal_status_code T_BudgetExhausted = 3"
| "terminal_status_code T_Stuck = 4"
| "terminal_status_code T_ToolUnavailable = 5"
| "terminal_status_code T_ModelInvalid = 6"
| "terminal_status_code T_StorageFault = 7"
| "terminal_status_code T_Incompatible = 8"

fun terminal_status_is_success :: "terminal_status \<Rightarrow> bool" where
  "terminal_status_is_success T_Completed = True"
| "terminal_status_is_success _ = False"

section \<open>The goal machine (goal.rs)\<close>

datatype goal_status =
    G_Active
  | G_Running
  | G_Waiting
  | G_Paused
  | G_Satisfied
  | G_Failed
  | G_Exhausted
  | G_Retired

fun goal_status_name :: "goal_status \<Rightarrow> string" where
  "goal_status_name G_Active = ''active''"
| "goal_status_name G_Running = ''running''"
| "goal_status_name G_Waiting = ''waiting''"
| "goal_status_name G_Paused = ''paused''"
| "goal_status_name G_Satisfied = ''satisfied''"
| "goal_status_name G_Failed = ''failed''"
| "goal_status_name G_Exhausted = ''exhausted''"
| "goal_status_name G_Retired = ''retired''"

fun goal_status_code :: "goal_status \<Rightarrow> u8" where
  "goal_status_code G_Active = 0"
| "goal_status_code G_Running = 1"
| "goal_status_code G_Waiting = 2"
| "goal_status_code G_Paused = 3"
| "goal_status_code G_Satisfied = 4"
| "goal_status_code G_Failed = 5"
| "goal_status_code G_Exhausted = 6"
| "goal_status_code G_Retired = 7"

definition goal_status_from_code :: "u8 \<Rightarrow> goal_status option" where
  "goal_status_from_code c =
     (if c = 0 then Some G_Active
      else if c = 1 then Some G_Running
      else if c = 2 then Some G_Waiting
      else if c = 3 then Some G_Paused
      else if c = 4 then Some G_Satisfied
      else if c = 5 then Some G_Failed
      else if c = 6 then Some G_Exhausted
      else if c = 7 then Some G_Retired
      else None)"

fun goal_status_is_terminal :: "goal_status \<Rightarrow> bool" where
  "goal_status_is_terminal G_Satisfied = True"
| "goal_status_is_terminal G_Failed = True"
| "goal_status_is_terminal G_Exhausted = True"
| "goal_status_is_terminal G_Retired = True"
| "goal_status_is_terminal _ = False"

fun goal_status_is_busy :: "goal_status \<Rightarrow> bool" where
  "goal_status_is_busy G_Running = True"
| "goal_status_is_busy G_Waiting = True"
| "goal_status_is_busy _ = False"

datatype goal_event =
    GE_Spawn
  | GE_Park
  | GE_Resume
  | GE_Recur
  | GE_Satisfy
  | GE_Fail
  | GE_Exhaust
  | GE_Pause
  | GE_Unpause
  | GE_Retire

fun goal_event_name :: "goal_event \<Rightarrow> string" where
  "goal_event_name GE_Spawn = ''spawn''"
| "goal_event_name GE_Park = ''park''"
| "goal_event_name GE_Resume = ''resume''"
| "goal_event_name GE_Recur = ''recur''"
| "goal_event_name GE_Satisfy = ''satisfy''"
| "goal_event_name GE_Fail = ''fail''"
| "goal_event_name GE_Exhaust = ''exhaust''"
| "goal_event_name GE_Pause = ''pause''"
| "goal_event_name GE_Unpause = ''unpause''"
| "goal_event_name GE_Retire = ''retire''"

fun goal_event_code :: "goal_event \<Rightarrow> u8" where
  "goal_event_code GE_Spawn = 0"
| "goal_event_code GE_Park = 1"
| "goal_event_code GE_Resume = 2"
| "goal_event_code GE_Recur = 3"
| "goal_event_code GE_Satisfy = 4"
| "goal_event_code GE_Fail = 5"
| "goal_event_code GE_Exhaust = 6"
| "goal_event_code GE_Pause = 7"
| "goal_event_code GE_Unpause = 8"
| "goal_event_code GE_Retire = 9"

definition goal_event_from_code :: "u8 \<Rightarrow> goal_event option" where
  "goal_event_from_code c =
     (if c = 0 then Some GE_Spawn
      else if c = 1 then Some GE_Park
      else if c = 2 then Some GE_Resume
      else if c = 3 then Some GE_Recur
      else if c = 4 then Some GE_Satisfy
      else if c = 5 then Some GE_Fail
      else if c = 6 then Some GE_Exhaust
      else if c = 7 then Some GE_Pause
      else if c = 8 then Some GE_Unpause
      else if c = 9 then Some GE_Retire
      else None)"

fun goal_event_is_operator :: "goal_event \<Rightarrow> bool" where
  "goal_event_is_operator GE_Pause = True"
| "goal_event_is_operator GE_Unpause = True"
| "goal_event_is_operator GE_Retire = True"
| "goal_event_is_operator _ = False"

section \<open>Logical record kinds (records.rs)\<close>

datatype record_kind =
    K_RunSeed
  | K_ModelRequest
  | K_ModelDecision
  | K_ToolRequest
  | K_ToolObservation
  | K_VerificationRequest
  | K_VerificationResult
  | K_ApprovalRequest
  | K_ApprovalDecision
  | K_TerminalResult

fun record_kind_name :: "record_kind \<Rightarrow> string" where
  "record_kind_name K_RunSeed = ''RunSeed''"
| "record_kind_name K_ModelRequest = ''ModelRequest''"
| "record_kind_name K_ModelDecision = ''ModelDecision''"
| "record_kind_name K_ToolRequest = ''ToolRequest''"
| "record_kind_name K_ToolObservation = ''ToolObservation''"
| "record_kind_name K_VerificationRequest = ''VerificationRequest''"
| "record_kind_name K_VerificationResult = ''VerificationResult''"
| "record_kind_name K_ApprovalRequest = ''ApprovalRequest''"
| "record_kind_name K_ApprovalDecision = ''ApprovalDecision''"
| "record_kind_name K_TerminalResult = ''TerminalResult''"

fun record_kind_code :: "record_kind \<Rightarrow> u8" where
  "record_kind_code K_RunSeed = 1"
| "record_kind_code K_ModelRequest = 2"
| "record_kind_code K_ModelDecision = 3"
| "record_kind_code K_ToolRequest = 4"
| "record_kind_code K_ToolObservation = 5"
| "record_kind_code K_VerificationRequest = 6"
| "record_kind_code K_VerificationResult = 7"
| "record_kind_code K_ApprovalRequest = 8"
| "record_kind_code K_ApprovalDecision = 9"
| "record_kind_code K_TerminalResult = 10"

fun record_kind_max_len :: "record_kind \<Rightarrow> u16" where
  "record_kind_max_len K_RunSeed = 512"
| "record_kind_max_len K_ModelDecision = 512"
| "record_kind_max_len K_ToolObservation = 512"
| "record_kind_max_len K_TerminalResult = 512"
| "record_kind_max_len K_ModelRequest = 256"
| "record_kind_max_len K_ToolRequest = 256"
| "record_kind_max_len K_VerificationRequest = 128"
| "record_kind_max_len K_VerificationResult = 128"
| "record_kind_max_len K_ApprovalRequest = 320"
| "record_kind_max_len K_ApprovalDecision = 320"

section \<open>Errors (error.rs)\<close>

datatype error =
    E_IllegalTransition run_state run_event
  | E_EmptyLine
  | E_UnknownVerb
  | E_BadSpacing
  | E_MissingToolName
  | E_MissingArgs
  | E_UnknownToolName
  | E_ArgsTooLong
  | E_JsonTooLong
  | E_LineTooLong
  | E_Json json_error
  | E_TrailingBytes
  | E_ArgsNotObject
  | E_MissingField field
  | E_UnexpectedField
  | E_BadFieldType field string
  | E_BadFieldValue field
  | E_FieldTooLong field nat
  | E_BudgetExhausted budget_unit
  | E_BudgetWidened budget_unit
  | E_PinOutOfRange u8
  | E_PermissionDenied tool_id u8
  | E_TerminalFieldTooLong
  | E_TerminalFieldNotUtf8
  | E_UnknownRecordKind u8
  | E_UnknownStatusCode u8
  | E_MaskOutputTooSmall
  | E_CompactFieldTooLong
  | E_CompactStateFull
  | E_SnapshotBufferTooSmall
  | E_SnapshotTruncated
  | E_SnapshotChecksumMismatch
  | E_SnapshotVersionMismatch u8
  | E_SnapshotCorrupt
  | E_BeatOverflow
  | E_GoalLedgerFull
  | E_GoalIdsExhausted
  | E_GoalUnknown u16
  | E_GoalIllegalTransition goal_status goal_event
  | E_GoalBusy
  | E_GoalSpecInvalid string
  | E_GoalOutOfOrder
  | E_RefundExceedsReservation
  | E_EnvelopeWidened
  | E_MemoryFull
  | E_MemoryInputTooLong
  | E_MemoryStampsExhausted
  | E_BriefInvalid

definition terminal_status_from_code :: "u8 \<Rightarrow> error + terminal_status" where
  "terminal_status_from_code c =
     (if c = 0 then Inr T_Completed
      else if c = 1 then Inr T_NeedsInput
      else if c = 2 then Inr T_Denied
      else if c = 3 then Inr T_BudgetExhausted
      else if c = 4 then Inr T_Stuck
      else if c = 5 then Inr T_ToolUnavailable
      else if c = 6 then Inr T_ModelInvalid
      else if c = 7 then Inr T_StorageFault
      else if c = 8 then Inr T_Incompatible
      else Inl (E_UnknownStatusCode c))"

definition record_kind_from_code :: "u8 \<Rightarrow> error + record_kind" where
  "record_kind_from_code c =
     (if c = 1 then Inr K_RunSeed
      else if c = 2 then Inr K_ModelRequest
      else if c = 3 then Inr K_ModelDecision
      else if c = 4 then Inr K_ToolRequest
      else if c = 5 then Inr K_ToolObservation
      else if c = 6 then Inr K_VerificationRequest
      else if c = 7 then Inr K_VerificationResult
      else if c = 8 then Inr K_ApprovalRequest
      else if c = 9 then Inr K_ApprovalDecision
      else if c = 10 then Inr K_TerminalResult
      else Inl (E_UnknownRecordKind c))"

definition pin_new :: "u8 \<Rightarrow> error + pin" where
  "pin_new p = (if p < pin_count then Inr (Pin p) else Inl (E_PinOutOfRange p))"

section \<open>Repair hints (error.rs)\<close>

record repair_hint =
  hint_variant :: repair_variant
  hint_field :: string
  hint_expected :: string
  hint_received :: string

fun error_repair_variant :: "error \<Rightarrow> repair_variant option" where
  "error_repair_variant E_EmptyLine = Some RV_Malformed"
| "error_repair_variant E_UnknownVerb = Some RV_Malformed"
| "error_repair_variant E_BadSpacing = Some RV_Malformed"
| "error_repair_variant E_MissingToolName = Some RV_Malformed"
| "error_repair_variant E_MissingArgs = Some RV_Malformed"
| "error_repair_variant E_UnknownToolName = Some RV_Malformed"
| "error_repair_variant E_ArgsTooLong = Some RV_Malformed"
| "error_repair_variant E_JsonTooLong = Some RV_Malformed"
| "error_repair_variant E_LineTooLong = Some RV_Malformed"
| "error_repair_variant (E_Json _) = Some RV_Malformed"
| "error_repair_variant E_TrailingBytes = Some RV_Malformed"
| "error_repair_variant E_ArgsNotObject = Some RV_Malformed"
| "error_repair_variant (E_MissingField _) = Some RV_InvalidArgs"
| "error_repair_variant E_UnexpectedField = Some RV_InvalidArgs"
| "error_repair_variant (E_BadFieldType _ _) = Some RV_InvalidArgs"
| "error_repair_variant (E_BadFieldValue _) = Some RV_InvalidArgs"
| "error_repair_variant (E_FieldTooLong _ _) = Some RV_InvalidArgs"
| "error_repair_variant (E_PinOutOfRange _) = Some RV_InvalidArgs"
| "error_repair_variant _ = None"

text \<open>Plain-words allowed set per field.\<close>

fun allowed_values :: "field \<Rightarrow> string" where
  "allowed_values F_Prompt = ''string <= 256 bytes''"
| "allowed_values F_Summary = ''string <= 256 bytes''"
| "allowed_values F_Schema = ''1''"
| "allowed_values F_Status = [CHR 0x22] @ ''completed'' @ [CHR 0x22]"
| "allowed_values F_Pin = ''0..=7''"
| "allowed_values F_Level = [CHR 0x22] @ ''low'' @ [CHR 0x22] @ '' | '' @ [CHR 0x22] @ ''high'' @ [CHR 0x22]"
| "allowed_values F_Sensor = ''0..=3''"
| "allowed_values F_Ms = ''1..=5000''"
| "allowed_values F_Detail = [CHR 0x22] @ ''summary'' @ [CHR 0x22] @ '' | '' @ [CHR 0x22] @ ''full'' @ [CHR 0x22]"

text \<open>The three texts of a hint: the field, what was expected, the category received.\<close>

fun hint_texts :: "error \<Rightarrow> (string \<times> string \<times> string) option" where
  "hint_texts E_EmptyLine = Some (''line'', ''one VERB <json> line'', ''empty'')"
| "hint_texts E_UnknownVerb = Some (''verb'', ''CALL | ASK | FINISH'', ''unknown-verb'')"
| "hint_texts E_BadSpacing = Some (''line'', ''single-space separators'', ''bad-spacing'')"
| "hint_texts E_MissingToolName = Some (''tool'', ''catalog tool name'', ''missing'')"
| "hint_texts E_MissingArgs = Some (''args'', ''JSON object'', ''missing'')"
| "hint_texts E_UnknownToolName = Some (''tool'', ''catalog tool name'', ''unknown-tool'')"
| "hint_texts E_ArgsTooLong = Some (''args'', ''<= 256 bytes'', ''too-long'')"
| "hint_texts E_JsonTooLong = Some (''json'', ''<= 384 bytes'', ''too-long'')"
| "hint_texts E_LineTooLong = Some (''line'', ''<= 512 bytes'', ''too-long'')"
| "hint_texts (E_Json _) = Some (''args'', ''strict JSON'', ''syntax-error'')"
| "hint_texts E_TrailingBytes = Some (''args'', ''no bytes after the JSON value'', ''trailing-bytes'')"
| "hint_texts E_ArgsNotObject = Some (''args'', ''top-level JSON object'', ''wrong-type'')"
| "hint_texts (E_MissingField f) = Some (field_name f, ''required field present'', ''missing'')"
| "hint_texts E_UnexpectedField = Some (''args'', ''schema fields only'', ''unexpected-field'')"
| "hint_texts (E_BadFieldType f expected) = Some (field_name f, expected, ''wrong-type'')"
| "hint_texts (E_BadFieldValue f) = Some (field_name f, allowed_values f, ''bad-value'')"
| "hint_texts (E_FieldTooLong f _) = Some (field_name f, ''within bound'', ''too-long'')"
| "hint_texts (E_PinOutOfRange _) = Some (''pin'', ''0..=7'', ''out-of-range'')"
| "hint_texts _ = None"

definition error_repair_hint :: "error \<Rightarrow> repair_hint option" where
  "error_repair_hint e =
     (case error_repair_variant e of
        None \<Rightarrow> None
      | Some v \<Rightarrow>
          (case hint_texts e of
             None \<Rightarrow> None
           | Some (f, x, r) \<Rightarrow>
               Some \<lparr>hint_variant = v, hint_field = f, hint_expected = x, hint_received = r\<rparr>))"

section \<open>Properties\<close>

lemma error_code_roundtrip: "error_code_from_code c = Some x \<longleftrightarrow> error_code_code x = c"
  by (cases x) (auto simp: error_code_from_code_def)

lemma goal_status_roundtrip: "goal_status_from_code c = Some x \<longleftrightarrow> goal_status_code x = c"
  by (cases x) (auto simp: goal_status_from_code_def)

lemma goal_event_roundtrip: "goal_event_from_code c = Some x \<longleftrightarrow> goal_event_code x = c"
  by (cases x) (auto simp: goal_event_from_code_def)

lemma terminal_status_roundtrip: "terminal_status_from_code c = Inr x \<longleftrightarrow> terminal_status_code x = c"
  by (cases x) (auto simp: terminal_status_from_code_def)

lemma record_kind_roundtrip: "record_kind_from_code c = Inr x \<longleftrightarrow> record_kind_code x = c"
  by (cases x) (auto simp: record_kind_from_code_def)

lemmas code_roundtrips =
  error_code_roundtrip goal_status_roundtrip goal_event_roundtrip
  terminal_status_roundtrip record_kind_roundtrip

lemma from_code_of_code [simp]:
  "error_code_from_code (error_code_code e) = Some e"
  "goal_status_from_code (goal_status_code g) = Some g"
  "goal_event_from_code (goal_event_code ge) = Some ge"
  "terminal_status_from_code (terminal_status_code t) = Inr t"
  "record_kind_from_code (record_kind_code k) = Inr k"
  by (simp_all add: code_roundtrips)

lemma goal_status_terminal_not_busy: "goal_status_is_terminal s \<Longrightarrow> \<not> goal_status_is_busy s"
  by (cases s) auto

end
