(* ===== verification/Run_Machine.thy ===== *)
theory Run_Machine
  imports Vocabulary
begin

text \<open>
  The workflow state machine of \<open>esper-core/src/state.rs\<close>: the transition table as data, the
  total transition function searched over it, the reachability question \<open>is_legal\<close> and the
  journal records each edge commits. The lemmas lift the table to whole runs from
  \<open>Recover\<close>: what must have happened before a tool is dispatched, and that every state lies on a
  path from \<open>Recover\<close> to \<open>End\<close>, which alone is final. The records of \<open>committed_records\<close> are the
  table's own; what the runtime journals are the activities of \<open>Run\<close>.
\<close>

section \<open>The table and its operations\<close>

definition run_transitions :: "(run_state \<times> run_event \<times> run_state) list" where
  "run_transitions =
     [(S_Recover, Ev_JournalValid, S_Gather),
      (S_Recover, Ev_JournalCorrupt, S_SafeStop),
      (S_Gather, Ev_BudgetsClear, S_Infer),
      (S_Gather, Ev_BudgetExhausted, S_Degraded),
      (S_Gather, Ev_IncompatibleVersion, S_Degraded),
      (S_Infer, Ev_DecodeCall, S_Authorize),
      (S_Infer, Ev_DecodeAsk, S_AwaitInput),
      (S_Infer, Ev_DecodeFinish, S_Finalize),
      (S_Infer, Ev_DecodeMalformed, S_Repair),
      (S_Repair, Ev_RepairAvailable, S_Infer),
      (S_Repair, Ev_RepairExhausted, S_Degraded),
      (S_Authorize, Ev_Authorized, S_Observe),
      (S_Authorize, Ev_Denied, S_Degraded),
      (S_AwaitInput, Ev_InputArrived, S_Account),
      (S_Observe, Ev_ObserveOkMutating, S_Verify),
      (S_Observe, Ev_ObserveDone, S_Account),
      (S_Observe, Ev_TransientRetry, S_Observe),
      (S_Observe, Ev_TransientExhausted, S_Degraded),
      (S_Verify, Ev_VerifyPass, S_Account),
      (S_Verify, Ev_VerifyFail, S_Account),
      (S_Account, Ev_GuardsClear, S_Gather),
      (S_Account, Ev_GuardFired, S_Degraded),
      (S_Finalize, Ev_FinalizeCommitted, S_End),
      (S_Degraded, Ev_DegradedCommitted, S_End),
      (S_SafeStop, Ev_SafeStopCommitted, S_End)]"

definition run_transition :: "run_state \<Rightarrow> run_event \<Rightarrow> error + run_state" where
  "run_transition s e =
     (case table_lookup run_transitions s e of
        Some t \<Rightarrow> Inr t
      | None \<Rightarrow> Inl (E_IllegalTransition s e))"

definition is_legal :: "run_state \<Rightarrow> run_state \<Rightarrow> bool" where
  "is_legal s t \<longleftrightarrow> list_ex (\<lambda>(f, e, u). f = s \<and> u = t) run_transitions"

text \<open>The records committed when an event fires; an illegal pair commits nothing.\<close>

definition committed_records :: "run_state \<Rightarrow> run_event \<Rightarrow> record_kind list" where
  "committed_records s e =
     (case s of
        S_Recover \<Rightarrow>
          (case e of Ev_JournalValid \<Rightarrow> [] | Ev_JournalCorrupt \<Rightarrow> [K_TerminalResult] | _ \<Rightarrow> [])
      | S_Gather \<Rightarrow>
          (case e of Ev_BudgetsClear \<Rightarrow> [K_ModelRequest]
           | Ev_BudgetExhausted \<Rightarrow> [K_TerminalResult]
           | Ev_IncompatibleVersion \<Rightarrow> [K_TerminalResult] | _ \<Rightarrow> [])
      | S_Infer \<Rightarrow>
          (case e of Ev_DecodeAsk \<Rightarrow> [K_ModelDecision, K_ApprovalRequest]
           | Ev_DecodeCall \<Rightarrow> [K_ModelDecision]
           | Ev_DecodeFinish \<Rightarrow> [K_ModelDecision]
           | Ev_DecodeMalformed \<Rightarrow> [K_ModelDecision] | _ \<Rightarrow> [])
      | S_Repair \<Rightarrow>
          (case e of Ev_RepairAvailable \<Rightarrow> [] | Ev_RepairExhausted \<Rightarrow> [K_TerminalResult] | _ \<Rightarrow> [])
      | S_Authorize \<Rightarrow>
          (case e of Ev_Authorized \<Rightarrow> [K_ToolRequest] | Ev_Denied \<Rightarrow> [K_TerminalResult] | _ \<Rightarrow> [])
      | S_AwaitInput \<Rightarrow> (case e of Ev_InputArrived \<Rightarrow> [K_ApprovalDecision] | _ \<Rightarrow> [])
      | S_Observe \<Rightarrow>
          (case e of Ev_TransientExhausted \<Rightarrow> [K_ToolObservation, K_TerminalResult]
           | Ev_ObserveOkMutating \<Rightarrow> [K_ToolObservation]
           | Ev_ObserveDone \<Rightarrow> [K_ToolObservation]
           | Ev_TransientRetry \<Rightarrow> [K_ToolObservation] | _ \<Rightarrow> [])
      | S_Verify \<Rightarrow>
          (case e of Ev_VerifyPass \<Rightarrow> [K_VerificationResult]
           | Ev_VerifyFail \<Rightarrow> [K_VerificationResult] | _ \<Rightarrow> [])
      | S_Account \<Rightarrow>
          (case e of Ev_GuardsClear \<Rightarrow> [] | Ev_GuardFired \<Rightarrow> [K_TerminalResult] | _ \<Rightarrow> [])
      | S_Finalize \<Rightarrow> (case e of Ev_FinalizeCommitted \<Rightarrow> [K_TerminalResult] | _ \<Rightarrow> [])
      | S_Degraded \<Rightarrow> (case e of Ev_DegradedCommitted \<Rightarrow> [K_TerminalResult] | _ \<Rightarrow> [])
      | S_SafeStop \<Rightarrow> (case e of Ev_SafeStopCommitted \<Rightarrow> [K_TerminalResult] | _ \<Rightarrow> [])
      | S_End \<Rightarrow> [])"

interpretation run_table: edge_table run_transitions
  by unfold_locales (simp add: run_transitions_def)

section \<open>Runs\<close>

text \<open>A run applies events one by one and stops at the first illegal pair.\<close>

fun run_events :: "run_state \<Rightarrow> run_event list \<Rightarrow> error + run_state" where
  "run_events s [] = Inr s"
| "run_events s (e # es) = and_then (run_transition s e) (\<lambda>t. run_events t es)"

text \<open>The same edges as a step relation, and the states a run can be in.\<close>

inductive run_step :: "run_state \<Rightarrow> run_event \<Rightarrow> run_state \<Rightarrow> bool" where
  edge: "(s, e, t) \<in> set run_transitions \<Longrightarrow> run_step s e t"

inductive_simps run_step_iff: "run_step s e t"

inductive_cases run_step_to_Observe: "run_step s e S_Observe"
inductive_cases run_step_from_End: "run_step S_End e t"

inductive run_reachable :: "run_state \<Rightarrow> bool" where
  start: "run_reachable S_Recover"
| step: "run_reachable s \<Longrightarrow> run_step s e t \<Longrightarrow> run_reachable t"

section \<open>Lemmas\<close>

lemma run_transition_Inr_iff: "run_transition s e = Inr t \<longleftrightarrow> (s, e, t) \<in> set run_transitions"
  by (auto simp: run_transition_def run_table.lookup_Some_iff [symmetric] split: option.splits)

lemma run_transition_Inl_iff:
  "run_transition s e = Inl err \<longleftrightarrow>
     err = E_IllegalTransition s e \<and> (\<forall>t. (s, e, t) \<notin> set run_transitions)"
  by (auto simp: run_transition_def run_table.lookup_None_iff [symmetric] split: option.splits)

lemma run_step_transition: "run_step s e t \<longleftrightarrow> run_transition s e = Inr t"
  by (simp add: run_step_iff run_transition_Inr_iff)

lemma is_legal_iff: "is_legal s t \<longleftrightarrow> (\<exists>e. run_step s e t)"
  by (force simp: is_legal_def list_ex_iff run_step_iff)

lemma run_events_append:
  "run_events s (es @ fs) = and_then (run_events s es) (\<lambda>t. run_events t fs)"
proof (induction es arbitrary: s)
  case (Cons e es)
  then show ?case by (cases "run_transition s e") auto
qed simp

lemma run_events_snoc:
  "run_events s (es @ [e]) = Inr t \<longleftrightarrow> (\<exists>u. run_events s es = Inr u \<and> run_step u e t)"
  by (auto simp: run_events_append result_simps run_step_transition)

lemma run_events_reachable: "run_events S_Recover es = Inr t \<Longrightarrow> run_reachable t"
proof (induction es arbitrary: t rule: rev_induct)
  case Nil
  then show ?case by (auto intro: run_reachable.start)
next
  case (snoc e es)
  then show ?case by (auto simp: run_events_snoc intro: run_reachable.step)
qed

lemma run_step_into_Observe:
  "run_step s e S_Observe \<longleftrightarrow> s = S_Authorize \<and> e = Ev_Authorized \<or> s = S_Observe \<and> e = Ev_TransientRetry"
  by (auto simp: run_step_iff run_transitions_def)

lemma run_step_into_Authorize:
  "run_step s e S_Authorize \<longleftrightarrow> s = S_Infer \<and> e = Ev_DecodeCall"
  by (auto simp: run_step_iff run_transitions_def)

lemma run_step_into_Verify:
  "run_step s e S_Verify \<longleftrightarrow> s = S_Observe \<and> e = Ev_ObserveOkMutating"
  by (auto simp: run_step_iff run_transitions_def)

lemma run_step_into_End:
  "run_step s e S_End \<longleftrightarrow>
     s = S_Finalize \<and> e = Ev_FinalizeCommitted \<or> s = S_Degraded \<and> e = Ev_DegradedCommitted \<or>
     s = S_SafeStop \<and> e = Ev_SafeStopCommitted"
  by (auto simp: run_step_iff run_transitions_def)

lemma no_step_from_End [simp]: "\<not> run_step S_End e t"
  by (auto simp: run_step_iff run_transitions_def)

text \<open>A dispatched tool was authorized: a run that stands in \<open>Observe\<close> ends with the decode of a
  call, its authorization and only retries of the same effect after it.\<close>

lemma observe_needs_authorization:
  "run_events S_Recover es = Inr S_Observe \<Longrightarrow>
   \<exists>pre n. es = pre @ [Ev_DecodeCall, Ev_Authorized] @ replicate n Ev_TransientRetry \<and>
           run_events S_Recover pre = Inr S_Infer"
proof (induction es rule: rev_induct)
  case (snoc e es)
  then obtain u where u: "run_events S_Recover es = Inr u" and st: "run_step u e S_Observe"
    by (auto simp: run_events_snoc)
  from st consider "u = S_Authorize" "e = Ev_Authorized" | "u = S_Observe" "e = Ev_TransientRetry"
    by (auto simp: run_step_into_Observe)
  then show ?case
  proof cases
    case 1
    with u have "es \<noteq> []" by auto
    then obtain fs f where es: "es = fs @ [f]" by (metis rev_exhaust)
    with u 1 have "run_events S_Recover fs = Inr S_Infer" "f = Ev_DecodeCall"
      by (auto simp: run_events_snoc run_step_into_Authorize)
    with es 1 show ?thesis by (intro exI [of _ fs] exI [of _ 0]) simp
  next
    case 2
    with snoc.IH u obtain pre n where
      "es = pre @ [Ev_DecodeCall, Ev_Authorized] @ replicate n Ev_TransientRetry"
      "run_events S_Recover pre = Inr S_Infer" by auto
    with 2 show ?thesis
      by (intro exI [of _ pre] exI [of _ "Suc n"]) (simp add: replicate_append_same)
  qed
qed simp

section \<open>Properties\<close>

text \<open>C15: No tool runs unauthorized. Whatever events drove a run from \<open>Recover\<close> to \<open>Observe\<close> (the state
  that dispatches the effect), they end with a decoded call, its authorization, and nothing but
  transient retries of that same effect after it.\<close>

theorem observe_requires_authorization:
  assumes "run_events S_Recover es = Inr S_Observe"
  shows "\<exists>pre n. es = pre @ [Ev_DecodeCall, Ev_Authorized] @ replicate n Ev_TransientRetry \<and>
           run_events S_Recover pre = Inr S_Infer"
  using observe_needs_authorization [OF assms] .

theorem observe_requires_authorization_witness:
  "\<exists>pre n. [Ev_JournalValid, Ev_BudgetsClear, Ev_DecodeCall, Ev_Authorized, Ev_TransientRetry]
     = pre @ [Ev_DecodeCall, Ev_Authorized] @ replicate n Ev_TransientRetry \<and>
     run_events S_Recover pre = Inr S_Infer"
  by (rule observe_requires_authorization)
    (simp add: run_transition_def run_transitions_def)

text \<open>Event sequences that lead from \<open>Recover\<close> to each state, and from each state to \<open>End\<close>.\<close>

fun events_into :: "run_state \<Rightarrow> run_event list" where
  "events_into S_Recover = []"
| "events_into S_Gather = [Ev_JournalValid]"
| "events_into S_Infer = [Ev_JournalValid, Ev_BudgetsClear]"
| "events_into S_Repair = [Ev_JournalValid, Ev_BudgetsClear, Ev_DecodeMalformed]"
| "events_into S_Authorize = [Ev_JournalValid, Ev_BudgetsClear, Ev_DecodeCall]"
| "events_into S_AwaitInput = [Ev_JournalValid, Ev_BudgetsClear, Ev_DecodeAsk]"
| "events_into S_Observe = [Ev_JournalValid, Ev_BudgetsClear, Ev_DecodeCall, Ev_Authorized]"
| "events_into S_Verify =
     [Ev_JournalValid, Ev_BudgetsClear, Ev_DecodeCall, Ev_Authorized, Ev_ObserveOkMutating]"
| "events_into S_Account = [Ev_JournalValid, Ev_BudgetsClear, Ev_DecodeAsk, Ev_InputArrived]"
| "events_into S_Finalize = [Ev_JournalValid, Ev_BudgetsClear, Ev_DecodeFinish]"
| "events_into S_Degraded = [Ev_JournalValid, Ev_BudgetExhausted]"
| "events_into S_SafeStop = [Ev_JournalCorrupt]"
| "events_into S_End = [Ev_JournalCorrupt, Ev_SafeStopCommitted]"

fun events_out :: "run_state \<Rightarrow> run_event list" where
  "events_out S_Recover = [Ev_JournalCorrupt, Ev_SafeStopCommitted]"
| "events_out S_Gather = [Ev_BudgetExhausted, Ev_DegradedCommitted]"
| "events_out S_Infer = [Ev_DecodeFinish, Ev_FinalizeCommitted]"
| "events_out S_Repair = [Ev_RepairExhausted, Ev_DegradedCommitted]"
| "events_out S_Authorize = [Ev_Denied, Ev_DegradedCommitted]"
| "events_out S_AwaitInput = [Ev_InputArrived, Ev_GuardFired, Ev_DegradedCommitted]"
| "events_out S_Observe = [Ev_TransientExhausted, Ev_DegradedCommitted]"
| "events_out S_Verify = [Ev_VerifyPass, Ev_GuardFired, Ev_DegradedCommitted]"
| "events_out S_Account = [Ev_GuardFired, Ev_DegradedCommitted]"
| "events_out S_Finalize = [Ev_FinalizeCommitted]"
| "events_out S_Degraded = [Ev_DegradedCommitted]"
| "events_out S_SafeStop = [Ev_SafeStopCommitted]"
| "events_out S_End = []"

lemma run_events_into: "run_events S_Recover (events_into s) = Inr s"
  by (cases s) (simp_all add: run_transition_def run_transitions_def)

lemma run_events_out: "run_events s (events_out s) = Inr S_End"
  by (cases s) (simp_all add: run_transition_def run_transitions_def)

lemma stuck_iff_End: "(\<forall>e. is_ok (run_transition s e) = False) \<longleftrightarrow> s = S_End"
proof
  assume stuck: "\<forall>e. is_ok (run_transition s e) = False"
  have "is_ok (run_transition s (hd (events_out s)))" if "s \<noteq> S_End"
    using that run_events_out [of s]
    by (cases "events_out s") (auto simp: result_simps)
  with stuck show "s = S_End" by blast
next
  assume "s = S_End"
  then show "\<forall>e. is_ok (run_transition s e) = False"
    using no_step_from_End by (auto simp: result_simps run_step_transition)
qed

text \<open>The machine has no dead end and no dead state: every state can be reached from \<open>Recover\<close>, from
  every state some sequence of events ends the run, and \<open>End\<close> alone accepts no event.\<close>

theorem run_machine_live:
  "(\<exists>es. run_events S_Recover es = Inr s) \<and> (\<exists>es. run_events s es = Inr S_End) \<and>
   ((\<forall>e. is_ok (run_transition s e) = False) \<longleftrightarrow> s = S_End)"
  using run_events_into run_events_out stuck_iff_End by blast

end
