(* ===== verification/Budget.thy ===== *)
theory Budget
  imports Vocabulary
begin

text \<open>
  The resource budget of a run (\<open>esper-core/src/budget.rs\<close>). All fields are remaining amounts;
  consumption is checked subtraction and fails with the exhausted unit. The lemmas show that
  consumption is exact and only narrows, that \<open>meet\<close> is the greatest lower bound of two budgets,
  and that \<open>check_no_widen\<close> accepts exactly the budgets inside the identity.
\<close>

section \<open>State and operations\<close>

record budget =
  b_model_turns :: u16
  b_input_tokens :: u32
  b_output_tokens :: u32
  b_elapsed_ms :: u64
  b_radio_bytes :: u32
  b_mutations :: u16
  b_consecutive_errors :: u8

definition consume_turn :: "budget \<Rightarrow> error + budget" where
  "consume_turn b =
     (case checked_sub (b_model_turns b) 1 of
        None \<Rightarrow> Inl (E_BudgetExhausted U_ModelTurns)
      | Some v \<Rightarrow> Inr (b\<lparr>b_model_turns := v\<rparr>))"

definition consume_mutation :: "budget \<Rightarrow> error + budget" where
  "consume_mutation b =
     (case checked_sub (b_mutations b) 1 of
        None \<Rightarrow> Inl (E_BudgetExhausted U_Mutations)
      | Some v \<Rightarrow> Inr (b\<lparr>b_mutations := v\<rparr>))"

definition consume_input_tokens :: "budget \<Rightarrow> u32 \<Rightarrow> error + budget" where
  "consume_input_tokens b n =
     (case checked_sub (b_input_tokens b) n of
        None \<Rightarrow> Inl (E_BudgetExhausted U_InputTokens)
      | Some v \<Rightarrow> Inr (b\<lparr>b_input_tokens := v\<rparr>))"

definition consume_output_tokens :: "budget \<Rightarrow> u32 \<Rightarrow> error + budget" where
  "consume_output_tokens b n =
     (case checked_sub (b_output_tokens b) n of
        None \<Rightarrow> Inl (E_BudgetExhausted U_OutputTokens)
      | Some v \<Rightarrow> Inr (b\<lparr>b_output_tokens := v\<rparr>))"

definition consume_radio_bytes :: "budget \<Rightarrow> u32 \<Rightarrow> error + budget" where
  "consume_radio_bytes b n =
     (case checked_sub (b_radio_bytes b) n of
        None \<Rightarrow> Inl (E_BudgetExhausted U_RadioBytes)
      | Some v \<Rightarrow> Inr (b\<lparr>b_radio_bytes := v\<rparr>))"

definition consume_elapsed_ms :: "budget \<Rightarrow> u64 \<Rightarrow> error + budget" where
  "consume_elapsed_ms b n =
     (case checked_sub (b_elapsed_ms b) n of
        None \<Rightarrow> Inl (E_BudgetExhausted U_ElapsedMs)
      | Some v \<Rightarrow> Inr (b\<lparr>b_elapsed_ms := v\<rparr>))"

definition record_error :: "budget \<Rightarrow> budget" where
  "record_error b = b\<lparr>b_consecutive_errors := saturating_add (b_consecutive_errors b) 1\<rparr>"

definition record_success :: "budget \<Rightarrow> budget" where
  "record_success b = b\<lparr>b_consecutive_errors := 0\<rparr>"

text \<open>The first exhausted unit in a fixed order; a zero radio grant means "no radio", not
  "exhausted".\<close>

definition exhausted_unit :: "budget \<Rightarrow> budget_unit option" where
  "exhausted_unit b =
     (if b_model_turns b = 0 then Some U_ModelTurns
      else if b_input_tokens b = 0 then Some U_InputTokens
      else if b_output_tokens b = 0 then Some U_OutputTokens
      else if b_elapsed_ms b = 0 then Some U_ElapsedMs
      else if b_mutations b = 0 then Some U_Mutations
      else None)"

text \<open>The four \<open>const\<close> minimums of the source differ in their width only.\<close>

definition min_word :: "'a::len word \<Rightarrow> 'a word \<Rightarrow> 'a word" where
  "min_word a b = (if a < b then a else b)"

definition budget_meet :: "budget \<Rightarrow> budget \<Rightarrow> budget" where
  "budget_meet a b =
     \<lparr>b_model_turns = min_word (b_model_turns a) (b_model_turns b),
      b_input_tokens = min_word (b_input_tokens a) (b_input_tokens b),
      b_output_tokens = min_word (b_output_tokens a) (b_output_tokens b),
      b_elapsed_ms = min_word (b_elapsed_ms a) (b_elapsed_ms b),
      b_radio_bytes = min_word (b_radio_bytes a) (b_radio_bytes b),
      b_mutations = min_word (b_mutations a) (b_mutations b),
      b_consecutive_errors = min_word (b_consecutive_errors a) (b_consecutive_errors b)\<rparr>"

definition check_no_widen :: "budget \<Rightarrow> budget \<Rightarrow> error + unit" where
  "check_no_widen b identity =
     (if b_model_turns b > b_model_turns identity then Inl (E_BudgetWidened U_ModelTurns)
      else if b_input_tokens b > b_input_tokens identity then Inl (E_BudgetWidened U_InputTokens)
      else if b_output_tokens b > b_output_tokens identity then Inl (E_BudgetWidened U_OutputTokens)
      else if b_elapsed_ms b > b_elapsed_ms identity then Inl (E_BudgetWidened U_ElapsedMs)
      else if b_radio_bytes b > b_radio_bytes identity then Inl (E_BudgetWidened U_RadioBytes)
      else if b_mutations b > b_mutations identity then Inl (E_BudgetWidened U_Mutations)
      else Inr ())"

section \<open>The abstract order of grants\<close>

text \<open>One budget grants no more than another: every guarded unit is at most the other's.\<close>

definition grants_le :: "budget \<Rightarrow> budget \<Rightarrow> bool" where
  "grants_le a b \<longleftrightarrow>
     b_model_turns a \<le> b_model_turns b \<and> b_input_tokens a \<le> b_input_tokens b \<and>
     b_output_tokens a \<le> b_output_tokens b \<and> b_elapsed_ms a \<le> b_elapsed_ms b \<and>
     b_radio_bytes a \<le> b_radio_bytes b \<and> b_mutations a \<le> b_mutations b"

lemma grants_le_refl [simp]: "grants_le b b"
  by (simp add: grants_le_def)

lemma grants_le_trans: "grants_le a b \<Longrightarrow> grants_le b c \<Longrightarrow> grants_le a c"
  by (auto simp: grants_le_def)

lemma check_no_widen_iff: "check_no_widen b i = Inr () \<longleftrightarrow> grants_le b i"
  by (auto simp: check_no_widen_def grants_le_def not_less)

text \<open>Everything a run can do to its budget, as one step.\<close>

datatype budget_op =
    Turn | Mutation | InputTokens u32 | OutputTokens u32 | RadioBytes u32 | ElapsedMs u64
  | CommitError | CommitSuccess

fun budget_step :: "budget_op \<Rightarrow> budget \<Rightarrow> error + budget" where
  "budget_step Turn b = consume_turn b"
| "budget_step Mutation b = consume_mutation b"
| "budget_step (InputTokens n) b = consume_input_tokens b n"
| "budget_step (OutputTokens n) b = consume_output_tokens b n"
| "budget_step (RadioBytes n) b = consume_radio_bytes b n"
| "budget_step (ElapsedMs n) b = consume_elapsed_ms b n"
| "budget_step CommitError b = Inr (record_error b)"
| "budget_step CommitSuccess b = Inr (record_success b)"

fun run_steps :: "('op \<Rightarrow> 'b \<Rightarrow> 'e + 'b) \<Rightarrow> 'op list \<Rightarrow> 'b \<Rightarrow> 'e + 'b" where
  "run_steps step [] b = Inr b"
| "run_steps step (x # xs) b = and_then (step x b) (run_steps step xs)"

text \<open>The interface of a grant that can only shrink: an order and steps that go down in it.\<close>

locale never_widens =
  fixes within :: "'b \<Rightarrow> 'b \<Rightarrow> bool"
    and step :: "'op \<Rightarrow> 'b \<Rightarrow> 'e + 'b"
  assumes within_refl: "within b b"
    and within_trans: "within a b \<Longrightarrow> within b c \<Longrightarrow> within a c"
    and step_within: "step x b = Inr b' \<Longrightarrow> within b' b"
begin

lemma run_within: "run_steps step xs b = Inr b' \<Longrightarrow> within b' b"
  by (induction xs arbitrary: b) (auto simp: result_simps intro: within_refl within_trans step_within)

lemma run_within_identity: "run_steps step xs b = Inr b' \<Longrightarrow> within b identity \<Longrightarrow> within b' identity"
  by (blast intro: run_within within_trans)

end

lemma checked_sub_le: "checked_sub a n = Some v \<Longrightarrow> v \<le> a"
  by (auto dest!: unat_checked_sub simp: word_le_nat_alt)

lemmas consume_defs =
  consume_turn_def consume_mutation_def consume_input_tokens_def consume_output_tokens_def
  consume_radio_bytes_def consume_elapsed_ms_def record_error_def record_success_def

interpretation budget_narrows: never_widens grants_le budget_step
proof unfold_locales
  fix x :: budget_op and b b'
  assume "budget_step x b = Inr b'"
  then show "grants_le b' b"
    by (cases x) (auto simp: consume_defs grants_le_def dest: checked_sub_le split: option.splits)
qed (auto intro: grants_le_trans)

section \<open>Lemmas\<close>

lemma min_word_le: "min_word a b \<le> a" "min_word a b \<le> b"
  by (auto simp: min_word_def not_less)

lemma meet_lower: "grants_le (budget_meet a b) a" "grants_le (budget_meet a b) b"
  by (simp_all add: grants_le_def budget_meet_def min_word_le)

lemma meet_greatest: "grants_le c a \<Longrightarrow> grants_le c b \<Longrightarrow> grants_le c (budget_meet a b)"
  by (auto simp: grants_le_def budget_meet_def min_word_def)

lemma exhausted_unit_None_iff:
  "exhausted_unit b = None \<longleftrightarrow>
     b_model_turns b \<noteq> 0 \<and> b_input_tokens b \<noteq> 0 \<and> b_output_tokens b \<noteq> 0 \<and>
     b_elapsed_ms b \<noteq> 0 \<and> b_mutations b \<noteq> 0"
  by (auto simp: exhausted_unit_def)

lemma consume_turn_exact:
  "consume_turn b = Inr b' \<longleftrightarrow> b_model_turns b \<noteq> 0 \<and> b' = b\<lparr>b_model_turns := b_model_turns b - 1\<rparr>"
  by (auto simp: consume_turn_def checked_sub_def word_le_nat_alt unat_eq_0 not_le
      split: option.splits if_splits)

section \<open>Properties\<close>

text \<open>However a run spends its budget (turns, mutations, tokens, radio, time, error and success
  accounting, in any order), the budget it has left passes \<open>check_no_widen\<close> against the budget
  committed in its seed: consumption can never widen the run's identity.\<close>

theorem spending_never_widens:
  assumes "run_steps budget_step ops identity = Inr b"
  shows "check_no_widen b identity = Inr ()"
  using budget_narrows.run_within [OF assms] by (simp add: check_no_widen_iff)

theorem spending_never_widens_witness:
  "check_no_widen
     \<lparr>b_model_turns = 2, b_input_tokens = 7, b_output_tokens = 9, b_elapsed_ms = 5,
      b_radio_bytes = 0, b_mutations = 0, b_consecutive_errors = 1\<rparr>
     \<lparr>b_model_turns = 3, b_input_tokens = 10, b_output_tokens = 9, b_elapsed_ms = 5,
      b_radio_bytes = 0, b_mutations = 1, b_consecutive_errors = 0\<rparr> = Inr ()"
  by (rule spending_never_widens [of "[Turn, InputTokens 3, Mutation, CommitError]"])
     (simp add: consume_defs checked_sub_def saturating_add_def)

text \<open>\<open>meet\<close>, the primitive that restores a budget after a reboot, is the greatest lower bound:
  the restored budget passes \<open>check_no_widen\<close> against both inputs, and every budget that passes
  against both passes against it.\<close>

theorem meet_is_greatest_lower_bound:
  "check_no_widen (budget_meet a b) a = Inr () \<and> check_no_widen (budget_meet a b) b = Inr () \<and>
   (\<forall>c. check_no_widen c (budget_meet a b) = Inr () \<longleftrightarrow>
        check_no_widen c a = Inr () \<and> check_no_widen c b = Inr ())"
  unfolding check_no_widen_iff by (blast intro: meet_lower meet_greatest grants_le_trans)

end
