(* ===== verification/Monitor.thy ===== *)
theory Monitor
  imports Budget
begin

text \<open>
  The deterministic runtime monitor (\<open>esper-core/src/monitor.rs\<close>): a ring of the last five
  committed steps and a streak counter, and the rules that end a run. The specification at the
  end states the verdict over the whole history of steps; the refinement lemmas show that the
  ring, its wrap-around index and its saturating counters compute exactly that verdict.
\<close>

section \<open>State and operations\<close>

datatype progress_delta =
    P_NewEvidence | P_StateChanged | P_SubgoalClosed | P_InputReceived | P_NoProgress

datatype step_outcome = O_Ok | O_Failed error_code

fun step_outcome_is_error :: "step_outcome \<Rightarrow> bool" where
  "step_outcome_is_error O_Ok = False"
| "step_outcome_is_error (O_Failed _) = True"

record step_record =
  st_tool :: tool_id
  st_args_digest :: digest
  st_outcome :: step_outcome
  st_progress :: progress_delta

definition step_record_ok :: "tool_id \<Rightarrow> digest \<Rightarrow> progress_delta \<Rightarrow> step_record" where
  "step_record_ok t d p =
     \<lparr>st_tool = t, st_args_digest = d, st_outcome = O_Ok, st_progress = p\<rparr>"

definition step_record_failed :: "tool_id \<Rightarrow> digest \<Rightarrow> error_code \<Rightarrow> progress_delta \<Rightarrow> step_record" where
  "step_record_failed t d e p =
     \<lparr>st_tool = t, st_args_digest = d, st_outcome = O_Failed e, st_progress = p\<rparr>"

definition monitor_window :: nat where "monitor_window = 5"
definition identical_failure_limit :: nat where "identical_failure_limit = 3"
definition no_progress_limit :: u8 where "no_progress_limit = 5"
definition majority_error_limit :: nat where "majority_error_limit = 3"

datatype monitor_verdict = Continue | Degrade terminal_status string

record monitor =
  m_window :: "step_record option list"
  m_next :: nat
  m_recorded :: u8
  m_no_progress_streak :: u8

definition monitor_new :: monitor where
  "monitor_new =
     \<lparr>m_window = replicate monitor_window None, m_next = 0, m_recorded = 0,
      m_no_progress_streak = 0\<rparr>"

definition monitor_push :: "monitor \<Rightarrow> step_record \<Rightarrow> monitor" where
  "monitor_push m r =
     \<lparr>m_window = (m_window m)[m_next m := Some r],
      m_next = (m_next m + 1) mod monitor_window,
      m_recorded = saturating_add (m_recorded m) 1,
      m_no_progress_streak =
        (if st_progress r = P_NoProgress then saturating_add (m_no_progress_streak m) 1 else 0)\<rparr>"

definition monitor_len :: "monitor \<Rightarrow> nat" where
  "monitor_len m = min (unat (m_recorded m)) monitor_window"

text \<open>The window, oldest first; the slots past the length stay \<open>None\<close>.\<close>

definition monitor_ordered :: "monitor \<Rightarrow> step_record option list" where
  "monitor_ordered m =
     map (\<lambda>i. if i < monitor_len m
              then m_window m ! ((m_next m + monitor_window - monitor_len m + i) mod monitor_window)
              else None)
       [0..<monitor_window]"

text \<open>The loop over the window from the newest step back: the run of equal failure tuples.\<close>

fun identical_run ::
  "(tool_id \<times> digest \<times> error_code) option \<Rightarrow> step_record option list \<Rightarrow> nat" where
  "identical_run prev [] = 0"
| "identical_run prev (None # rs) = 0"
| "identical_run prev (Some s # rs) =
     (case st_outcome s of
        O_Ok \<Rightarrow> 0
      | O_Failed e \<Rightarrow>
          (let tuple = (st_tool s, st_args_digest s, e)
           in if prev = None \<or> prev = Some tuple then Suc (identical_run (Some tuple) rs) else 0))"

definition consecutive_identical_failures :: "monitor \<Rightarrow> nat" where
  "consecutive_identical_failures m =
     identical_run None (rev (take (monitor_len m) (monitor_ordered m)))"

definition error_majority_in_window :: "monitor \<Rightarrow> bool" where
  "error_majority_in_window m \<longleftrightarrow>
     \<not> monitor_len m < monitor_window \<and>
     majority_error_limit \<le>
       length (filter (\<lambda>r. case r of Some s \<Rightarrow> step_outcome_is_error (st_outcome s) | None \<Rightarrow> False)
         (m_window m))"

definition monitor_observe :: "monitor \<Rightarrow> step_record \<Rightarrow> budget \<Rightarrow> monitor \<times> monitor_verdict" where
  "monitor_observe m0 r b =
     (let m = monitor_push m0 r
      in (m,
          case exhausted_unit b of
            Some u \<Rightarrow> Degrade T_BudgetExhausted (budget_unit_name u)
          | None \<Rightarrow>
              if no_progress_limit \<le> m_no_progress_streak m
              then Degrade T_Stuck ''five consecutive NoProgress deltas''
              else if identical_failure_limit \<le> consecutive_identical_failures m
              then Degrade T_Stuck ''three identical (tool, args, error) failures''
              else if error_majority_in_window m
              then Degrade T_Stuck ''error majority in the last five events''
              else Continue))"

section \<open>The rules over the whole history\<close>

definition failed_with :: "tool_id \<times> digest \<times> error_code \<Rightarrow> step_record \<Rightarrow> bool" where
  "failed_with t s \<longleftrightarrow> (\<exists>e. st_outcome s = O_Failed e \<and> t = (st_tool s, st_args_digest s, e))"

text \<open>The last \<open>n\<close> elements of a list.\<close>

definition lastn :: "nat \<Rightarrow> 'a list \<Rightarrow> 'a list" where
  "lastn n h = drop (length h - n) h"

definition all_no_progress :: "step_record list \<Rightarrow> bool" where
  "all_no_progress h \<longleftrightarrow> 5 \<le> length h \<and> (\<forall>s \<in> set (lastn 5 h). st_progress s = P_NoProgress)"

definition three_identical :: "step_record list \<Rightarrow> bool" where
  "three_identical h \<longleftrightarrow> 3 \<le> length h \<and> (\<exists>t. \<forall>s \<in> set (lastn 3 h). failed_with t s)"

definition error_majority :: "step_record list \<Rightarrow> bool" where
  "error_majority h \<longleftrightarrow>
     5 \<le> length h \<and> 3 \<le> length (filter (\<lambda>s. step_outcome_is_error (st_outcome s)) (lastn 5 h))"

definition spec_verdict :: "step_record list \<Rightarrow> budget \<Rightarrow> monitor_verdict" where
  "spec_verdict h b =
     (case exhausted_unit b of
        Some u \<Rightarrow> Degrade T_BudgetExhausted (budget_unit_name u)
      | None \<Rightarrow>
          if all_no_progress h then Degrade T_Stuck ''five consecutive NoProgress deltas''
          else if three_identical h then Degrade T_Stuck ''three identical (tool, args, error) failures''
          else if error_majority h then Degrade T_Stuck ''error majority in the last five events''
          else Continue)"

text \<open>The length of the run of steps at the end of the history that made no progress.\<close>

definition trailing_no_progress :: "step_record list \<Rightarrow> nat" where
  "trailing_no_progress h = length (takeWhile (\<lambda>s. st_progress s = P_NoProgress) (rev h))"

section \<open>Representation\<close>

text \<open>Slot \<open>j\<close> of the ring holds the newest step whose index is \<open>j\<close> modulo five.\<close>

definition monitor_repr :: "monitor \<Rightarrow> step_record list \<Rightarrow> bool" where
  "monitor_repr m h \<longleftrightarrow>
     length (m_window m) = 5 \<and> m_next m = length h mod 5 \<and>
     unat (m_recorded m) = min (length h) 255 \<and>
     unat (m_no_progress_streak m) = min (trailing_no_progress h) 255 \<and>
     (\<forall>k < length h. length h \<le> k + 5 \<longrightarrow> m_window m ! (k mod 5) = Some (h ! k))"

lemma monitor_repr_new: "monitor_repr monitor_new []"
  by (simp add: monitor_repr_def monitor_new_def monitor_window_def trailing_no_progress_def)

lemma mod5_neq:
  assumes "k < n" and "n < k + 5"
  shows "k mod 5 \<noteq> n mod (5::nat)"
proof
  assume "k mod 5 = n mod 5"
  then have "5 dvd n - k"
    using assms by (metis less_imp_le mod_eq_dvd_iff_nat)
  then show False using assms by (auto dest!: dvd_imp_le)
qed

lemma monitor_repr_push:
  assumes "monitor_repr m h"
  shows "monitor_repr (monitor_push m r) (h @ [r])"
proof -
  from assms have w: "length (m_window m) = 5" and n: "m_next m = length h mod 5"
    and rec: "unat (m_recorded m) = min (length h) 255"
    and st: "unat (m_no_progress_streak m) = min (trailing_no_progress h) 255"
    and slots: "\<And>k. k < length h \<Longrightarrow> length h \<le> k + 5 \<Longrightarrow> m_window m ! (k mod 5) = Some (h ! k)"
    by (auto simp: monitor_repr_def)
  have "m_next (monitor_push m r) = length (h @ [r]) mod 5"
    by (simp add: monitor_push_def n monitor_window_def mod_Suc_eq)
  moreover have "unat (m_recorded (monitor_push m r)) = min (length (h @ [r])) 255"
    by (simp add: monitor_push_def unat_saturating_add rec)
  moreover have "unat (m_no_progress_streak (monitor_push m r)) = min (trailing_no_progress (h @ [r])) 255"
    by (auto simp: monitor_push_def unat_saturating_add st trailing_no_progress_def)
  moreover have "m_window (monitor_push m r) ! (k mod 5) = Some ((h @ [r]) ! k)"
    if "k < length (h @ [r])" "length (h @ [r]) \<le> k + 5" for k
  proof (cases "k = length h")
    case True
    then show ?thesis by (simp add: monitor_push_def n w)
  next
    case False
    with that have k: "k < length h" "length h < k + 5" by auto
    then show ?thesis using slots [of k] mod5_neq [of k "length h"]
      by (simp add: monitor_push_def n w nth_append)
  qed
  ultimately show ?thesis by (simp add: monitor_repr_def monitor_push_def w)
qed

lemma monitor_repr_fold: "monitor_repr (foldl monitor_push monitor_new h) h"
  by (induction h rule: rev_induct) (simp_all add: monitor_repr_new monitor_repr_push)

lemma length_lastn [simp]: "length (lastn n h) = min n (length h)"
  by (simp add: lastn_def)

lemma monitor_repr_len: "monitor_repr m h \<Longrightarrow> monitor_len m = min (length h) 5"
  by (auto simp: monitor_repr_def monitor_len_def monitor_window_def)

lemma ring_index: "(n mod 5 + 5 - min n 5 + i) mod 5 = (n - min n 5 + i) mod (5::nat)"
proof (cases "n < 5")
  case False
  then obtain p where "n = p + 5" by (metis add.commute le_Suc_ex not_less)
  then show ?thesis by (simp add: mod_simps)
qed simp

lemma take_monitor_ordered:
  assumes "monitor_repr m h"
  shows "take (monitor_len m) (monitor_ordered m) = map Some (lastn 5 h)"
proof (rule nth_equalityI)
  show "length (take (monitor_len m) (monitor_ordered m)) = length (map Some (lastn 5 h))"
    using assms by (simp add: monitor_repr_len monitor_ordered_def monitor_window_def)
next
  fix i assume "i < length (take (monitor_len m) (monitor_ordered m))"
  then have i: "i < monitor_len m" "i < 5"
    by (auto simp: monitor_ordered_def monitor_window_def)
  let ?k = "length h - min (length h) 5 + i"
  from i have k: "?k < length h" "length h \<le> ?k + 5"
    using monitor_repr_len [OF assms] by auto
  have len: "monitor_len m = min (length h) 5" and nx: "m_next m = length h mod 5"
    using monitor_repr_len [OF assms] assms by (auto simp: monitor_repr_def)
  have idx: "(m_next m + 5 - monitor_len m + i) mod 5 = ?k mod 5"
    unfolding len nx by (rule ring_index)
  have "monitor_ordered m ! i = m_window m ! (?k mod 5)"
    using i idx by (simp add: monitor_ordered_def monitor_window_def)
  also have "\<dots> = Some (h ! ?k)"
    using assms k by (simp add: monitor_repr_def)
  finally show "take (monitor_len m) (monitor_ordered m) ! i = map Some (lastn 5 h) ! i"
    using i monitor_repr_len [OF assms] by (simp add: lastn_def min_def split: if_splits)
qed

section \<open>The rules agree\<close>

lemma le_takeWhile_iff:
  "n \<le> length (takeWhile P xs) \<longleftrightarrow> n \<le> length xs \<and> (\<forall>x \<in> set (take n xs). P x)"
proof (induction xs arbitrary: n)
  case (Cons x xs)
  then show ?case by (cases n) auto
qed simp

lemma lastn_rev: "take n (rev h) = rev (lastn n h)"
  by (simp add: lastn_def take_rev)

lemma streak_iff:
  assumes "monitor_repr m h"
  shows "no_progress_limit \<le> m_no_progress_streak m \<longleftrightarrow> all_no_progress h"
proof -
  have "no_progress_limit \<le> m_no_progress_streak m \<longleftrightarrow> 5 \<le> trailing_no_progress h"
    using assms by (auto simp: monitor_repr_def no_progress_limit_def word_le_nat_alt)
  then show ?thesis
    by (simp add: all_no_progress_def trailing_no_progress_def le_takeWhile_iff lastn_rev)
qed

lemma identical_run_Some_iff:
  "n \<le> identical_run (Some t) (map Some xs) \<longleftrightarrow>
     n \<le> length xs \<and> (\<forall>s \<in> set (take n xs). failed_with t s)"
proof (induction xs arbitrary: n)
  case (Cons x xs)
  then show ?case
    by (cases n) (auto simp: failed_with_def Let_def split: step_outcome.splits)
qed simp

lemma identical_run_None_iff:
  "Suc n \<le> identical_run None (map Some xs) \<longleftrightarrow>
     Suc n \<le> length xs \<and> (\<exists>t. \<forall>s \<in> set (take (Suc n) xs). failed_with t s)"
  by (cases xs)
     (auto simp: failed_with_def Let_def identical_run_Some_iff split: step_outcome.splits)

lemma identical_iff:
  assumes "monitor_repr m h"
  shows "identical_failure_limit \<le> consecutive_identical_failures m \<longleftrightarrow> three_identical h"
proof -
  have "take (Suc 2) (rev (lastn 5 h)) = rev (lastn 3 h)"
    by (simp add: lastn_rev [symmetric])
  then show ?thesis
    using identical_run_None_iff [of 2 "rev (lastn 5 h)"]
    by (auto simp: consecutive_identical_failures_def take_monitor_ordered [OF assms]
        identical_failure_limit_def three_identical_def rev_map)
qed

lemma length_filter_rotate: "length (filter P (rotate n xs)) = length (filter P xs)"
proof -
  let ?k = "n mod length xs"
  have "filter P xs = filter P (take ?k xs) @ filter P (drop ?k xs)"
    by (simp add: filter_append [symmetric])
  then show ?thesis by (simp add: rotate_drop_take)
qed

lemma full_window:
  assumes "monitor_repr m h" and "5 \<le> length h"
  shows "map Some (lastn 5 h) = rotate (length h) (m_window m)"
proof (rule nth_equalityI)
  show "length (map Some (lastn 5 h)) = length (rotate (length h) (m_window m))"
    using assms by (simp add: monitor_repr_def)
next
  fix i assume "i < length (map Some (lastn 5 h))"
  then have i: "i < 5" by simp
  have w: "length (m_window m) = 5" using assms(1) by (simp add: monitor_repr_def)
  have "rotate (length h) (m_window m) ! i = m_window m ! ((length h - 5 + i) mod 5)"
    using i w assms(2) ring_index [of "length h" i] by (simp add: nth_rotate mod_simps)
  also have "\<dots> = Some (h ! (length h - 5 + i))"
    using assms i by (simp add: monitor_repr_def)
  finally show "map Some (lastn 5 h) ! i = rotate (length h) (m_window m) ! i"
    using i assms(2) by (simp add: lastn_def)
qed

lemma majority_iff:
  assumes "monitor_repr m h"
  shows "error_majority_in_window m \<longleftrightarrow> error_majority h"
proof (cases "5 \<le> length h")
  case True
  let ?P = "\<lambda>r. case r of Some s \<Rightarrow> step_outcome_is_error (st_outcome s) | None \<Rightarrow> False"
  have "length (filter ?P (m_window m)) = length (filter ?P (map Some (lastn 5 h)))"
    by (simp only: full_window [OF assms True] length_filter_rotate)
  also have "\<dots> = length (filter (\<lambda>s. step_outcome_is_error (st_outcome s)) (lastn 5 h))"
    by (simp add: filter_map comp_def)
  finally show ?thesis using True
    by (simp add: error_majority_in_window_def error_majority_def monitor_repr_len [OF assms]
        monitor_window_def majority_error_limit_def)
next
  case False
  then show ?thesis
    by (simp add: error_majority_in_window_def error_majority_def monitor_repr_len [OF assms]
        monitor_window_def)
qed

lemma observe_refines:
  assumes "monitor_repr m h"
  shows "monitor_repr (fst (monitor_observe m r b)) (h @ [r]) \<and>
         snd (monitor_observe m r b) = spec_verdict (h @ [r]) b"
proof -
  note repr = monitor_repr_push [OF assms, of r]
  show ?thesis
    by (simp add: monitor_observe_def Let_def spec_verdict_def repr streak_iff [OF repr]
        identical_iff [OF repr] majority_iff [OF repr] split: option.splits)
qed

section \<open>Properties\<close>

text \<open>The verdicts of a whole run: the monitor is fed its committed steps in order, each with the
  budget of that moment.\<close>

fun observe_all :: "monitor \<Rightarrow> (step_record \<times> budget) list \<Rightarrow> monitor_verdict list" where
  "observe_all m [] = []"
| "observe_all m ((r, b) # xs) =
     (let (m', v) = monitor_observe m r b in v # observe_all m' xs)"

lemma observe_all_repr:
  "monitor_repr m h \<Longrightarrow>
   observe_all m xs = map (\<lambda>i. spec_verdict (h @ map fst (take (Suc i) xs)) (snd (xs ! i))) [0..<length xs]"
proof (induction xs arbitrary: m h)
  case (Cons x xs)
  obtain r b where x: "x = (r, b)" by (cases x)
  obtain m' v where o: "monitor_observe m r b = (m', v)" by fastforce
  from observe_refines [OF Cons.prems, of r b] o
  have repr: "monitor_repr m' (h @ [r])" and v: "v = spec_verdict (h @ [r]) b" by auto
  show ?case
    by (simp add: x o v Cons.IH [OF repr] upt_conv_Cons map_Suc_upt [symmetric] del: upt_Suc)
qed simp

text \<open>C26: The monitor's ring buffer computes the stated rules over the whole history: fed any list of
  committed steps from a fresh monitor, its verdict after each step is the verdict of the rules
  on all the steps so far (budget guard first, then five steps without progress, then three
  equal failures in a row, then three failures among the last five), however long the run is.\<close>

theorem monitor_computes_history_verdicts:
  "observe_all monitor_new xs =
     map (\<lambda>i. spec_verdict (map fst (take (Suc i) xs)) (snd (xs ! i))) [0..<length xs]"
  using observe_all_repr [OF monitor_repr_new, of xs] by simp

end
