(* ===== verification/Mask.thy ===== *)
theory Mask
  imports Vocabulary
begin

text \<open>
  Secret and PII masking (\<open>esper-core/src/mask.rs\<close>): the hand-written scanners, the marker writer
  and the scan itself, over byte lists. The output buffer is modelled by the bytes written so
  far and its capacity: the code reads back only written bytes, and every write is checked
  against the capacity. The lemmas show that the scan terminates, that a buffer of
  \<open>mask_bound\<close> bytes always suffices (so the error branch is dead under the contract),
  and that the report's length is that of the written bytes.
\<close>

section \<open>Bounds and markers\<close>

datatype mask_class = MC_Secret | MC_Pii

record mask_report_rec =
  mr_redacted_spans :: u32
  mr_secret_digest :: u64
  mr_output_len :: nat

definition max_marker_len :: nat where "max_marker_len = 28"
definition min_span_len :: nat where "min_span_len = 6"

text \<open>The saturation at \<open>usize::MAX\<close> needs inputs no memory holds; lengths are natural numbers here.\<close>

definition mask_bound :: "nat \<Rightarrow> nat" where
  "mask_bound n = n + (max_marker_len - min_span_len) * (n div min_span_len)"

definition put_byte :: "nat \<Rightarrow> bytes \<Rightarrow> u8 \<Rightarrow> error + bytes" where
  "put_byte cap out b = (if length out < cap then Inr (out @ [b]) else Inl E_MaskOutputTooSmall)"

fun put_all :: "nat \<Rightarrow> bytes \<Rightarrow> bytes \<Rightarrow> error + bytes" where
  "put_all cap out [] = Inr out"
| "put_all cap out (b # bs) = and_then (put_byte cap out b) (\<lambda>out'. put_all cap out' bs)"

text \<open>The decimal digits of a number, least significant first, as the digit loop collects them.\<close>

fun digits_rev :: "nat \<Rightarrow> bytes" where
  "digits_rev n = (if n = 0 then [] else (0x30 + of_nat (n mod 10)) # digits_rev (n div 10))"

declare digits_rev.simps [simp del]

definition put_u32 :: "nat \<Rightarrow> bytes \<Rightarrow> u32 \<Rightarrow> error + bytes" where
  "put_u32 cap out n =
     (if n = 0 then put_byte cap out 0x30 else put_all cap out (rev (digits_rev (unat n))))"

definition emit_marker :: "nat \<Rightarrow> bytes \<Rightarrow> mask_class \<Rightarrow> u32 \<Rightarrow> error + bytes" where
  "emit_marker cap out c n =
     and_then
       (put_all cap out
          (case c of MC_Secret \<Rightarrow> str_bytes ''[redacted:secret#''
                   | MC_Pii \<Rightarrow> str_bytes ''[redacted:pii#''))
       (\<lambda>out1. and_then (put_u32 cap out1 n) (\<lambda>out2. put_byte cap out2 0x5d))"

section \<open>Secret matchers\<close>

text \<open>Alphanumerics and the seven characters \<open>. _ ~ + / - =\<close>.\<close>

definition is_token_char :: "u8 \<Rightarrow> bool" where
  "is_token_char b \<longleftrightarrow>
     is_ascii_alphanumeric b \<or> b \<in> {0x2e, 0x5f, 0x7e, 0x2b, 0x2f, 0x2d, 0x3d}"

fun token_run :: "nat \<Rightarrow> bytes \<Rightarrow> nat" where
  "token_run n [] = n"
| "token_run n (b # bs) = (if n < 128 \<and> is_token_char b then token_run (Suc n) bs else n)"

definition match_token :: "bytes \<Rightarrow> nat \<Rightarrow> nat option" where
  "match_token rest anchor =
     (let n = token_run 0 (drop anchor rest) in if 16 \<le> n then Some (anchor + n) else None)"

definition match_akia :: "bytes \<Rightarrow> nat option" where
  "match_akia rest =
     (case slice rest 4 20 of
        None \<Rightarrow> None
      | Some tail \<Rightarrow> if list_all is_ascii_alphanumeric tail then Some 20 else None)"

text \<open>The end of the line that starts at \<open>i\<close>, its newline included.\<close>

function line_end :: "bytes \<Rightarrow> nat \<Rightarrow> nat" where
  "line_end bs i =
     (if i < length bs then (if bs ! i \<noteq> 0x0a then line_end bs (Suc i) else Suc i) else i)"
  by pat_completeness auto
termination
  by (relation "measure (\<lambda>(bs, i). length bs - i)") auto

function pem_scan :: "bytes \<Rightarrow> nat \<Rightarrow> nat \<Rightarrow> nat option" where
  "pem_scan rest window i =
     (if i + 9 \<le> window
      then if starts_with (drop i rest) (str_bytes ''-----END '')
           then Some (line_end rest (i + 9))
           else pem_scan rest window (Suc i)
      else None)"
  by pat_completeness auto
termination
  by (relation "measure (\<lambda>(rest, window, i). window - i)") auto

declare line_end.simps [simp del] pem_scan.simps [simp del]

definition match_pem :: "bytes \<Rightarrow> nat option" where
  "match_pem rest = pem_scan rest (min (length rest) 2048) 11"

definition match_secret :: "bytes \<Rightarrow> nat option" where
  "match_secret rest =
     (if starts_with rest (str_bytes ''-----BEGIN '') then match_pem rest
      else if starts_with rest (str_bytes ''sk_live_'') then match_token rest 8
      else if starts_with rest (str_bytes ''sk_test_'') then match_token rest 8
      else if starts_with rest (str_bytes ''github_pat_'') then match_token rest 11
      else if starts_with rest (str_bytes ''sk-'') then match_token rest 3
      else if starts_with rest (str_bytes ''AKIA'') then match_akia rest
      else if starts_with rest (str_bytes ''Bearer '') \<or> starts_with rest (str_bytes ''bearer '')
      then match_token rest 7
      else None)"

section \<open>PII matchers\<close>

definition is_local_char :: "u8 \<Rightarrow> bool" where
  "is_local_char b \<longleftrightarrow> is_ascii_alphanumeric b \<or> b \<in> {0x2e, 0x5f, 0x25, 0x2b, 0x2d}"

definition is_domain_char :: "u8 \<Rightarrow> bool" where
  "is_domain_char b \<longleftrightarrow> is_ascii_alphanumeric b \<or> b \<in> {0x2e, 0x2d}"

definition is_phone_sep :: "u8 \<Rightarrow> bool" where
  "is_phone_sep b \<longleftrightarrow> b \<in> {0x20, 0x2d, 0x2e, 0x28, 0x29}"

text \<open>The local part is the longest run of local characters before the \<open>@\<close>; the domain the longest
  run of domain characters after it, less its trailing dots.\<close>

definition match_email :: "bytes \<Rightarrow> nat \<Rightarrow> (nat \<times> nat) option" where
  "match_email input at =
     (let left = length (takeWhile is_local_char (rev (take at input)));
          domain = takeWhile is_domain_char (drop (Suc at) input);
          right = rev (dropWhile (\<lambda>b. b = 0x2e) (rev domain))
      in if left = 0 then None
         else if length right < 4 \<or> 0x2e \<notin> set right then None
         else Some (left, left + 1 + length right))"

text \<open>The digit count over the run of digits and separators.\<close>

fun phone_run :: "nat \<Rightarrow> nat \<Rightarrow> bytes \<Rightarrow> nat \<times> nat" where
  "phone_run i digits [] = (i, digits)"
| "phone_run i digits (b # bs) =
     (if is_ascii_digit b then phone_run (Suc i) (Suc digits) bs
      else if is_phone_sep b then phone_run (Suc i) digits bs
      else (i, digits))"

definition match_phone :: "bytes \<Rightarrow> nat option" where
  "match_phone rest =
     (let plus = starts_with rest [0x2b];
          start = (if plus then 1 else 0)
      in if plus \<and> \<not> (1 < length rest \<and> is_ascii_digit (rest ! 1)) then None
         else
           let (stop, digits) = phone_run start 0 (drop start rest);
               i = length (dropWhile is_phone_sep (rev (take stop rest)))
           in if \<not> (7 \<le> digits \<and> digits \<le> 15) then None
              else if \<not> digits + start < i \<and> 11 < digits then None
              else Some i)"

section \<open>The scan\<close>

text \<open>The scan's answer at one position: the span found there, if any.\<close>

datatype span =
    Secret_Span nat
  | Email_Span nat nat
  | Phone_Span nat
  | No_Span

definition find_span :: "bytes \<Rightarrow> nat \<Rightarrow> bytes \<Rightarrow> span" where
  "find_span input i out =
     (let rest = drop i input; first = input ! i
      in case match_secret rest of
           Some s \<Rightarrow> Secret_Span s
         | None \<Rightarrow>
             (let email =
                (if first = 0x40
                 then (case match_email input i of
                         None \<Rightarrow> None
                       | Some (left, whole) \<Rightarrow>
                           if slice out (length out - left) (length out) = slice input (i - left) i
                           then Some (left, whole) else None)
                 else None)
              in case email of
                   Some (left, whole) \<Rightarrow> Email_Span left whole
                 | None \<Rightarrow>
                     if first = 0x2b \<or> is_ascii_digit first
                     then (case match_phone rest of Some s \<Rightarrow> Phone_Span s | None \<Rightarrow> No_Span)
                     else No_Span))"

lemma token_run_bounds: "n \<le> token_run n bs \<and> token_run n bs \<le> n + length bs"
  by (induction n bs rule: token_run.induct) auto

lemma match_token_bounds:
  "match_token rest a = Some n \<Longrightarrow> a \<le> length rest \<Longrightarrow> a + 16 \<le> n \<and> n \<le> length rest"
  using token_run_bounds [of 0 "drop a rest"] by (auto simp: match_token_def Let_def split: if_splits)

lemma match_akia_bounds: "match_akia rest = Some n \<Longrightarrow> n = 20 \<and> n \<le> length rest"
  by (auto simp: match_akia_def slice_def split: option.splits if_splits)

lemma line_end_bounds: "i \<le> length bs \<Longrightarrow> i \<le> line_end bs i \<and> line_end bs i \<le> length bs"
proof (induction bs i rule: line_end.induct)
  case (1 bs i)
  then show ?case by (subst (1 2) line_end.simps) (auto dest: Suc_leD)
qed

lemma pem_scan_bounds:
  "pem_scan rest window i = Some n \<Longrightarrow> window \<le> length rest \<Longrightarrow> i + 9 \<le> n \<and> n \<le> length rest"
proof (induction rest window i rule: pem_scan.induct)
  case (1 rest window i)
  show ?case
  proof (cases "i + 9 \<le> window \<and> starts_with (drop i rest) (str_bytes ''-----END '')")
    case True
    with 1 show ?thesis
      using line_end_bounds [of "i + 9" rest] by (auto simp: pem_scan.simps [of rest window i])
  next
    case False
    with 1 show ?thesis by (auto simp: pem_scan.simps [of rest window i] split: if_splits)
  qed
qed

lemma match_secret_bounds:
  assumes "match_secret rest = Some n"
  shows "6 \<le> n \<and> n \<le> length rest"
  using assms
  by (auto simp: match_secret_def match_pem_def
      dest!: starts_with_length match_token_bounds match_akia_bounds pem_scan_bounds
      split: if_splits)

lemma match_email_bounds:
  assumes "match_email input at = Some (left, whole)" and "at < length input"
  shows "0 < left \<and> left \<le> at \<and> left + 5 \<le> whole \<and> at + whole \<le> length input + left \<and>
         (\<forall>b \<in> set (drop (at - left) (take at input)). is_local_char b)"
proof -
  let ?l = "takeWhile is_local_char (rev (take at input))"
  let ?d = "takeWhile is_domain_char (drop (Suc at) input)"
  let ?r = "rev (dropWhile (\<lambda>b. b = 0x2e) (rev ?d))"
  have "length ?r \<le> length ?d" by (metis length_dropWhile_le length_rev)
  moreover have "length ?d \<le> length input - Suc at"
    using length_takeWhile_le [of is_domain_char "drop (Suc at) input"] by simp
  moreover have "length ?l \<le> at"
    using length_takeWhile_le [of is_local_char "rev (take at input)"] by simp
  moreover from assms have "left = length ?l" "whole = left + 1 + length ?r" "4 \<le> length ?r" "0 < left"
    by (auto simp: match_email_def Let_def split: if_splits)
  moreover have "drop (at - length ?l) (take at input) = rev ?l"
  proof -
    have "?l = take (length ?l) (rev (take at input))" by (metis takeWhile_eq_take)
    then have "rev ?l = drop (length (take at input) - length ?l) (take at input)"
      by (metis rev_rev_ident rev_take length_rev)
    then show ?thesis using assms(2) by simp
  qed
  ultimately show ?thesis using assms(2) by (auto dest: set_takeWhileD)
qed

lemma phone_run_bounds:
  "phone_run i d bs = (j, e) \<Longrightarrow> i \<le> j \<and> j \<le> i + length bs \<and> d \<le> e \<and> e + i \<le> d + j"
  by (induction i d bs rule: phone_run.induct) (auto split: if_splits)

lemma phone_run_digits:
  "phone_run i d bs = (j, e) \<Longrightarrow> e = d + length (filter is_ascii_digit (take (j - i) bs))"
proof (induction i d bs rule: phone_run.induct)
  case (2 i d b bs)
  have nosep: "is_phone_sep b \<Longrightarrow> \<not> is_ascii_digit b"
    by (auto simp: is_phone_sep_def is_ascii_digit_def)
  have suc: "Suc i \<le> j" if "phone_run (Suc i) d' bs = (j, e)" for d'
    using phone_run_bounds [OF that] by simp
  show ?case
    using 2 nosep suc [of d] suc [of "Suc d"] by (auto simp: take_Cons' Suc_diff_Suc split: if_splits)
qed simp

lemma filter_drop_length: "length (filter P (drop n xs)) \<le> length (filter P xs)"
  by (metis append_take_drop_id filter_append le_add2 length_append)

lemma filter_dropWhile_sep:
  "filter is_ascii_digit (dropWhile is_phone_sep bs) = filter is_ascii_digit bs"
  by (induction bs) (auto simp: is_phone_sep_def is_ascii_digit_def)

lemma match_phone_bounds:
  assumes "match_phone rest = Some n"
  shows "7 \<le> n \<and> n \<le> length rest"
proof -
  define start where "start = (if starts_with rest [0x2b] then 1 else 0 :: nat)"
  obtain stop digits where run: "phone_run start 0 (drop start rest) = (stop, digits)"
    by (cases "phone_run start 0 (drop start rest)")
  have n: "n = length (dropWhile is_phone_sep (rev (take stop rest)))" and seven: "7 \<le> digits"
    using assms run by (auto simp: match_phone_def Let_def start_def [symmetric] split: if_splits)
  have "digits \<le> length (filter is_ascii_digit (take (stop - start) (drop start rest)))"
    using phone_run_digits [OF run] by simp
  also have "\<dots> = length (filter is_ascii_digit (drop start (take stop rest)))"
    by (simp add: drop_take)
  also have "\<dots> \<le> length (filter is_ascii_digit (take stop rest))"
    by (rule filter_drop_length)
  also have "\<dots> = length (filter is_ascii_digit (rev (take stop rest)))"
    by (simp add: rev_filter [symmetric])
  also have "\<dots> = length (filter is_ascii_digit (dropWhile is_phone_sep (rev (take stop rest))))"
    by (simp add: filter_dropWhile_sep)
  also have "\<dots> \<le> n" by (simp add: n)
  finally have "7 \<le> n" using seven by simp
  moreover have "n \<le> length rest"
    using length_dropWhile_le [of is_phone_sep "rev (take stop rest)"] by (simp add: n)
  ultimately show ?thesis by simp
qed

definition span_advance :: "span \<Rightarrow> nat" where
  "span_advance sp =
     (case sp of
        Secret_Span n \<Rightarrow> n
      | Email_Span left whole \<Rightarrow> whole - left
      | Phone_Span n \<Rightarrow> n
      | No_Span \<Rightarrow> 1)"

lemma find_span_advance:
  assumes "i < length input"
  shows "0 < span_advance (find_span input i out) \<and>
         i + span_advance (find_span input i out) \<le> length input"
  using assms
  by (auto simp: find_span_def Let_def span_advance_def
      dest!: match_secret_bounds match_email_bounds match_phone_bounds
      split: option.split if_splits)

lemma find_span_progress:
  "i < length input \<Longrightarrow>
   length input - (i + span_advance (find_span input i out)) < length input - i"
  by (drule find_span_advance [where out = out]) linarith

record scan =
  sc_out :: bytes
  sc_spans :: u32
  sc_digest :: u64
  sc_secret :: bool

definition scan_init :: scan where
  "scan_init = \<lparr>sc_out = [], sc_spans = 0, sc_digest = fnv_offset, sc_secret = False\<rparr>"

text \<open>One round of the loop at position \<open>i\<close>: a marker for the span found, or the byte itself.\<close>

definition redact :: "nat \<Rightarrow> mask_class \<Rightarrow> bytes \<Rightarrow> scan \<Rightarrow> error + scan" where
  "redact cap c out st =
     (let n = saturating_add (sc_spans st) 1
      in and_then (emit_marker cap out c n)
           (\<lambda>out'. Inr (st\<lparr>sc_out := out', sc_spans := n\<rparr>)))"

definition mask_step :: "bytes \<Rightarrow> nat \<Rightarrow> nat \<Rightarrow> scan \<Rightarrow> error + scan" where
  "mask_step input cap i st =
     (case find_span input i (sc_out st) of
        Secret_Span n \<Rightarrow>
          redact cap MC_Secret (sc_out st)
            (st\<lparr>sc_digest := fnv_mix (sc_digest st) (take n (drop i input)), sc_secret := True\<rparr>)
      | Email_Span left whole \<Rightarrow>
          redact cap MC_Pii (take (length (sc_out st) - left) (sc_out st)) st
      | Phone_Span n \<Rightarrow> redact cap MC_Pii (sc_out st) st
      | No_Span \<Rightarrow>
          and_then (put_byte cap (sc_out st) (input ! i)) (\<lambda>out'. Inr (st\<lparr>sc_out := out'\<rparr>)))"

function mask_loop :: "bytes \<Rightarrow> nat \<Rightarrow> nat \<Rightarrow> scan \<Rightarrow> error + scan" where
  "mask_loop input cap i st =
     (if i < length input
      then and_then (mask_step input cap i st)
             (\<lambda>st'. mask_loop input cap (i + span_advance (find_span input i (sc_out st))) st')
      else Inr st)"
  by pat_completeness auto
termination
  by (relation "measure (\<lambda>(input, cap, i, st). length input - i)")
    (simp_all add: find_span_progress)

declare mask_loop.simps [simp del]

text \<open>The report and the bytes it speaks of, in a buffer of \<open>cap\<close> bytes.\<close>

definition mask_report :: "bytes \<Rightarrow> nat \<Rightarrow> error + (mask_report_rec \<times> bytes)" where
  "mask_report input cap =
     (if cap < mask_bound (length input) then Inl E_MaskOutputTooSmall
      else and_then (mask_loop input cap 0 scan_init)
        (\<lambda>st. Inr
           (\<lparr>mr_redacted_spans = sc_spans st,
             mr_secret_digest = (if sc_secret st then sc_digest st else 0),
             mr_output_len = length (sc_out st)\<rparr>,
            sc_out st)))"

definition mask_bytes :: "bytes \<Rightarrow> nat \<Rightarrow> error + nat" where
  "mask_bytes input cap = and_then (mask_report input cap) (\<lambda>(r, _). Inr (mr_output_len r))"

section \<open>The writers never fail under the bound\<close>

definition marker_text :: "mask_class \<Rightarrow> u32 \<Rightarrow> bytes" where
  "marker_text c n =
     (case c of MC_Secret \<Rightarrow> str_bytes ''[redacted:secret#'' | MC_Pii \<Rightarrow> str_bytes ''[redacted:pii#'')
     @ (if n = 0 then [0x30] else rev (digits_rev (unat n))) @ [0x5d]"

lemma put_all_fits: "length out + length bs \<le> cap \<Longrightarrow> put_all cap out bs = Inr (out @ bs)"
  by (induction cap out bs rule: put_all.induct) (auto simp: put_byte_def)

lemma emit_marker_fits:
  assumes "length out + length (marker_text c n) \<le> cap"
  shows "emit_marker cap out c n = Inr (out @ marker_text c n)"
  using assms
  by (cases c) (auto simp: emit_marker_def marker_text_def put_all_fits put_u32_def put_byte_def)

lemma digits_rev_length: "n < 10 ^ d \<Longrightarrow> length (digits_rev n) \<le> d"
proof (induction d arbitrary: n)
  case 0
  then show ?case by (simp add: digits_rev.simps)
next
  case (Suc d)
  then have "n div 10 < 10 ^ d" by (simp add: less_mult_imp_div_less mult.commute)
  then show ?case using Suc.IH [of "n div 10"] by (subst digits_rev.simps) simp
qed

lemma marker_text_length: "length (marker_text c n) \<le> 28"
proof -
  have "unat n < 2 ^ 32" using unsigned_less [of n, where ?'a = nat] by simp
  then have "unat n < 10 ^ 10" by simp
  from digits_rev_length [OF this] show ?thesis
    by (cases c) (auto simp: marker_text_def str_bytes_def)
qed

lemma marker_text_last: "marker_text c n = butlast (marker_text c n) @ [0x5d]"
  by (simp add: marker_text_def butlast_append)

section \<open>The scan as a segmentation\<close>

text \<open>
  What masking promises: the input is cut into segments, each either copied or replaced by one
  marker; the output is the segments' rendering in order.
\<close>

datatype segment =
    Copied bytes
  | Redacted mask_class u32 bytes

fun seg_raw :: "segment \<Rightarrow> bytes" where
  "seg_raw (Copied bs) = bs"
| "seg_raw (Redacted c n bs) = bs"

fun seg_out :: "segment \<Rightarrow> bytes" where
  "seg_out (Copied bs) = bs"
| "seg_out (Redacted c n bs) = marker_text c n"

fun seg_number :: "segment \<Rightarrow> u32 list" where
  "seg_number (Copied bs) = []"
| "seg_number (Redacted c n bs) = [n]"

fun seg_secret :: "segment \<Rightarrow> bytes list" where
  "seg_secret (Copied bs) = []"
| "seg_secret (Redacted c n bs) = (if c = MC_Secret then [bs] else [])"

definition segs_raw :: "segment list \<Rightarrow> bytes" where "segs_raw ss = concat (map seg_raw ss)"
definition segs_out :: "segment list \<Rightarrow> bytes" where "segs_out ss = concat (map seg_out ss)"
definition segs_numbers :: "segment list \<Rightarrow> u32 list" where
  "segs_numbers ss = concat (map seg_number ss)"
definition segs_secrets :: "segment list \<Rightarrow> bytes list" where
  "segs_secrets ss = concat (map seg_secret ss)"

text \<open>The markers are numbered from one, saturating at the largest 32-bit number.\<close>

definition marker_number :: "nat \<Rightarrow> u32" where
  "marker_number j = of_nat (min (Suc j) (2 ^ 32 - 1))"

definition numbered :: "segment list \<Rightarrow> bool" where
  "numbered ss \<longleftrightarrow> segs_numbers ss = map marker_number [0..<length (segs_numbers ss)]"

text \<open>No secret starts at a copied byte, every redacted segment has the length of a real span, and a
  secret segment is exactly what the matcher found there.\<close>

fun covered :: "bytes \<Rightarrow> nat \<Rightarrow> segment list \<Rightarrow> bool" where
  "covered input p [] = True"
| "covered input p (Copied bs # ss) =
     (list_all (\<lambda>j. match_secret (drop (p + j) input) = None) [0..<length bs]
      \<and> covered input (p + length bs) ss)"
| "covered input p (Redacted c n bs # ss) =
     (min_span_len \<le> length bs
      \<and> (c = MC_Secret \<longrightarrow> match_secret (drop p input) = Some (length bs))
      \<and> covered input (p + length bs) ss)"

lemmas segs_defs = segs_raw_def segs_out_def segs_numbers_def segs_secrets_def

lemma segs_append [simp]:
  "segs_raw (a @ b) = segs_raw a @ segs_raw b" "segs_out (a @ b) = segs_out a @ segs_out b"
  "segs_numbers (a @ b) = segs_numbers a @ segs_numbers b"
  "segs_secrets (a @ b) = segs_secrets a @ segs_secrets b"
  by (simp_all add: segs_defs)

lemma segs_single [simp]:
  "segs_raw [] = []" "segs_out [] = []" "segs_numbers [] = []" "segs_secrets [] = []"
  "segs_raw (s # ss) = seg_raw s @ segs_raw ss" "segs_out (s # ss) = seg_out s @ segs_out ss"
  "segs_numbers (s # ss) = seg_number s @ segs_numbers ss"
  "segs_secrets (s # ss) = seg_secret s @ segs_secrets ss"
  by (simp_all add: segs_defs)

lemma covered_append [simp]:
  "covered input p (a @ b) \<longleftrightarrow> covered input p a \<and> covered input (p + length (segs_raw a)) b"
  by (induction input p a rule: covered.induct) (auto simp: add.assoc)

lemma covered_output_length:
  "covered input p ss \<Longrightarrow> length (segs_out ss) \<le> mask_bound (length (segs_raw ss))"
proof (induction input p ss rule: covered.induct)
  case (2 input p bs ss)
  then have "length (segs_out ss) \<le> mask_bound (length (segs_raw ss))" by simp
  moreover have "length (segs_raw ss) div 6 \<le> (length bs + length (segs_raw ss)) div 6"
    by (simp add: div_le_mono)
  ultimately show ?case by (simp add: mask_bound_def max_marker_len_def min_span_len_def)
next
  case (3 input p c n bs ss)
  then have "length (segs_out ss) \<le> mask_bound (length (segs_raw ss))"
    and six: "6 \<le> length bs" by (simp_all add: min_span_len_def)
  moreover have "Suc (length (segs_raw ss) div 6) \<le> (length bs + length (segs_raw ss)) div 6"
    using div_le_mono [of "6 + length (segs_raw ss)" "length bs + length (segs_raw ss)" 6] six by simp
  ultimately show ?case
    using marker_text_length [of c n] by (simp add: mask_bound_def max_marker_len_def min_span_len_def)
qed (simp add: mask_bound_def)

lemma mask_bound_mono: "m \<le> n \<Longrightarrow> mask_bound m \<le> mask_bound n"
  by (simp add: mask_bound_def add_mono div_le_mono)

text \<open>The invariant of the loop: the closed segments, and the bytes copied since the last of them.\<close>

definition scan_ok :: "bytes \<Rightarrow> nat \<Rightarrow> scan \<Rightarrow> segment list \<Rightarrow> bytes \<Rightarrow> bool" where
  "scan_ok input i st ss lit \<longleftrightarrow>
     i \<le> length input \<and> take i input = segs_raw ss @ lit \<and> sc_out st = segs_out ss @ lit \<and>
     (segs_out ss = [] \<or> List.last (segs_out ss) = 0x5d) \<and>
     covered input 0 (ss @ [Copied lit]) \<and> numbered ss \<and>
     unat (sc_spans st) = min (length (segs_numbers ss)) (2 ^ 32 - 1) \<and>
     sc_digest st = fnv_update fnv_offset (concat (segs_secrets ss)) \<and>
     sc_secret st = (segs_secrets ss \<noteq> [])"

lemma scan_ok_init: "scan_ok input 0 scan_init [] []"
  by (simp add: scan_ok_def scan_init_def numbered_def)

text \<open>Closing a segment: the last \<open>left\<close> copied bytes and the \<open>adv\<close> next ones become one marker.\<close>

lemma redact_ok:
  assumes ok: "scan_ok input i st ss lit" and cap: "mask_bound (length input) \<le> cap"
    and left: "left \<le> length lit" and adv: "i + adv \<le> length input" "6 \<le> left + adv"
    and secret: "c = MC_Secret \<Longrightarrow> left = 0 \<and> match_secret (drop i input) = Some adv"
    and st1: "sc_spans st1 = sc_spans st"
      "sc_digest st1 = (if c = MC_Secret then fnv_mix (sc_digest st) (take adv (drop i input)) else sc_digest st)"
      "sc_secret st1 = (c = MC_Secret \<or> sc_secret st)"
  shows "\<exists>st' ss'. redact cap c (take (length (sc_out st) - left) (sc_out st)) st1 = Inr st' \<and>
           scan_ok input (i + adv) st' ss' []"
proof -
  define n where "n = saturating_add (sc_spans st) (1 :: u32)"
  define bs where "bs = drop (length lit - left) lit @ take adv (drop i input)"
  define pre where "pre = ss @ [Copied (take (length lit - left) lit)]"
  define ss' where "ss' = pre @ [Redacted c n bs]"
  have out: "take (length (sc_out st) - left) (sc_out st) = segs_out pre"
    using ok left by (simp add: scan_ok_def pre_def)
  have raw: "take (i + adv) input = segs_raw ss'"
    using ok by (simp add: scan_ok_def ss'_def pre_def bs_def take_add)
  have len_i: "i = length (segs_raw ss) + length lit"
    using ok by (metis scan_ok_def length_append length_take min.absorb2)
  have six: "min_span_len \<le> length bs" using adv left by (simp add: bs_def min_span_len_def)
  have lit: "covered input 0 ss" "list_all (\<lambda>j. match_secret (drop (length (segs_raw ss) + j) input) = None)
      [0..<length lit]"
    using ok by (simp_all add: scan_ok_def)
  have cov: "covered input 0 ss'"
    using lit six secret left len_i adv(1) by (auto simp: ss'_def pre_def bs_def list_all_iff)
  have n: "unat n = min (Suc (length (segs_numbers ss))) (2 ^ 32 - 1)"
    using ok by (simp add: n_def unat_saturating_add scan_ok_def)
  have "n = marker_number (length (segs_numbers ss))"
    unfolding marker_number_def n [symmetric] by simp
  then have num: "numbered ss'"
    using ok by (simp add: numbered_def scan_ok_def ss'_def pre_def)
  have "length (segs_out ss') \<le> mask_bound (length (segs_raw ss'))"
    by (rule covered_output_length [OF cov])
  also have "\<dots> \<le> cap"
    using mask_bound_mono [of "length (segs_raw ss')" "length input"] cap raw adv(1)
    by (metis le_trans length_take min.cobounded1)
  finally have "length (segs_out pre) + length (marker_text c n) \<le> cap" by (simp add: ss'_def)
  from emit_marker_fits [OF this] have run:
    "redact cap c (segs_out pre) st1 = Inr (st1\<lparr>sc_out := segs_out ss', sc_spans := n\<rparr>)"
    by (simp add: redact_def n_def st1 ss'_def Let_def)
  have "scan_ok input (i + adv) (st1\<lparr>sc_out := segs_out ss', sc_spans := n\<rparr>) ss' []"
    using ok adv(1) raw cov num n secret left
    by (auto simp: scan_ok_def ss'_def pre_def bs_def st1 marker_text_def fnv_mix_eq_update)
  with run out show ?thesis by auto
qed

text \<open>The rewind of an e-mail stays within the copied bytes: a marker ends in \<open>]\<close>, no local part does.\<close>

lemma email_rewind:
  assumes ok: "scan_ok input i st ss lit" and i: "i < length input"
    and email: "match_email input i = Some (left, whole)"
    and same: "slice (sc_out st) (length (sc_out st) - left) (length (sc_out st)) = slice input (i - left) i"
  shows "left \<le> length lit"
proof (rule ccontr)
  assume far: "\<not> left \<le> length lit"
  from match_email_bounds [OF email i]
  have left: "left \<le> i" and local: "\<forall>b \<in> set (drop (i - left) (take i input)). is_local_char b" by auto
  have tail: "drop (length (sc_out st) - left) (sc_out st) = drop (i - left) (take i input)"
    using same i by (simp add: slice_def drop_take)
  then have "length (sc_out st) - (length (sc_out st) - left) = left"
    using left i by (metis length_drop length_take diff_diff_cancel min.absorb2 less_imp_le)
  then have "left \<le> length (sc_out st)" by linarith
  moreover have out: "sc_out st = segs_out ss @ lit" using ok by (simp add: scan_ok_def)
  ultimately have ne: "length (sc_out st) - left < length (segs_out ss)" using far by simp
  then have "segs_out ss \<noteq> []" by auto
  then have "List.last (segs_out ss) = 0x5d" using ok by (simp add: scan_ok_def)
  moreover have "List.last (drop (length (sc_out st) - left) (segs_out ss))
      \<in> set (drop (length (sc_out st) - left) (segs_out ss))"
    using ne by (intro last_in_set) simp
  moreover have "List.last (drop (length (sc_out st) - left) (segs_out ss)) = List.last (segs_out ss)"
    using ne by (rule last_drop)
  ultimately have "0x5d \<in> set (drop (length (sc_out st) - left) (sc_out st))"
    by (simp add: out)
  with tail local have "is_local_char 0x5d" by simp
  then show False
    by (simp add: is_local_char_def is_ascii_alphanumeric_def is_ascii_digit_def)
qed

lemma copy_ok:
  assumes ok: "scan_ok input i st ss lit" and i: "i < length input"
    and cap: "mask_bound (length input) \<le> cap" and none: "match_secret (drop i input) = None"
  shows "put_byte cap (sc_out st) (input ! i) = Inr (sc_out st @ [input ! i]) \<and>
         scan_ok input (Suc i) (st\<lparr>sc_out := sc_out st @ [input ! i]\<rparr>) ss (lit @ [input ! i])"
proof -
  have len_i: "i = length (segs_raw ss) + length lit"
    using ok by (metis scan_ok_def length_append length_take min.absorb2)
  have cov: "covered input 0 (ss @ [Copied (lit @ [input ! i])])"
    using ok none len_i by (auto simp: scan_ok_def)
  have "take (Suc i) input = segs_raw (ss @ [Copied (lit @ [input ! i])])"
    using ok i by (simp add: scan_ok_def take_Suc_conv_app_nth)
  then have "length (segs_raw (ss @ [Copied (lit @ [input ! i])])) = Suc i"
    using i by (metis length_take min.absorb2 Suc_leI)
  with covered_output_length [OF cov]
  have "length (segs_out ss) + Suc (length lit) \<le> mask_bound (Suc i)" by simp
  also have "\<dots> \<le> cap" using cap i by (meson mask_bound_mono Suc_leI le_trans)
  finally show ?thesis
    using ok i cov by (simp add: scan_ok_def put_byte_def take_Suc_conv_app_nth)
qed

lemma find_span_Email:
  "find_span input i out = Email_Span left whole \<Longrightarrow>
   match_email input i = Some (left, whole) \<and>
   slice out (length out - left) (length out) = slice input (i - left) i"
  by (auto simp: find_span_def Let_def split: option.splits if_splits)

lemma find_span_Secret:
  "find_span input i out = Secret_Span n \<longleftrightarrow> match_secret (drop i input) = Some n"
  by (auto simp: find_span_def Let_def split: option.splits if_splits)

lemma find_span_Phone:
  "find_span input i out = Phone_Span n \<Longrightarrow> match_phone (drop i input) = Some n"
  by (auto simp: find_span_def Let_def split: option.splits if_splits)

lemma mask_step_ok:
  assumes ok: "scan_ok input i st ss lit" and i: "i < length input"
    and cap: "mask_bound (length input) \<le> cap"
  shows "\<exists>st' ss' lit'. mask_step input cap i st = Inr st' \<and>
           scan_ok input (i + span_advance (find_span input i (sc_out st))) st' ss' lit'"
proof (cases "find_span input i (sc_out st)")
  case (Secret_Span n)
  then have found: "match_secret (drop i input) = Some n" by (simp add: find_span_Secret)
  then have "6 \<le> n" "i + n \<le> length input" using match_secret_bounds [OF found] i by auto
  with found redact_ok [OF ok cap, where left = 0 and adv = n and c = MC_Secret and
      ?st1.0 = "st\<lparr>sc_digest := fnv_mix (sc_digest st) (take n (drop i input)), sc_secret := True\<rparr>"]
  show ?thesis using Secret_Span by (auto simp: mask_step_def span_advance_def)
next
  case (Email_Span left whole)
  note email = find_span_Email [OF Email_Span]
  have "left \<le> length lit" using email_rewind [OF ok i] email by blast
  moreover have "left \<le> whole" "6 \<le> left + (whole - left)" "i + (whole - left) \<le> length input"
    using match_email_bounds [of input i left whole] email i by auto
  ultimately show ?thesis using redact_ok [OF ok cap, where left = left and adv = "whole - left" and c = MC_Pii and ?st1.0 = st] Email_Span
    by (simp add: mask_step_def span_advance_def) blast
next
  case (Phone_Span n)
  then have "6 \<le> n" "i + n \<le> length input"
    using match_phone_bounds [OF find_span_Phone [OF Phone_Span]] i by auto
  with redact_ok [OF ok cap, where left = 0 and adv = n and c = MC_Pii and ?st1.0 = st] Phone_Span
  show ?thesis by (simp add: mask_step_def span_advance_def) blast
next
  case No_Span
  then have "match_secret (drop i input) = None"
    using find_span_Secret [of input i "sc_out st"] by (cases "match_secret (drop i input)") auto
  with copy_ok [OF ok i cap] No_Span show ?thesis by (auto simp: mask_step_def span_advance_def)
qed

lemma mask_loop_ok:
  assumes "scan_ok input i st ss lit" and "mask_bound (length input) \<le> cap"
  shows "\<exists>st' ss' lit'. mask_loop input cap i st = Inr st' \<and> scan_ok input (length input) st' ss' lit'"
  using assms
proof (induction input cap i st arbitrary: ss lit rule: mask_loop.induct)
  case (1 input cap i st)
  show ?case
  proof (cases "i < length input")
    case True
    from mask_step_ok [OF "1.prems"(1) True "1.prems"(2)] obtain st' ss' lit' where
      step: "mask_step input cap i st = Inr st'" and
      ok: "scan_ok input (i + span_advance (find_span input i (sc_out st))) st' ss' lit'"
      by blast
    from "1.IH" [OF True step ok "1.prems"(2)] show ?thesis
      by (subst mask_loop.simps) (simp add: True step)
  next
    case False
    then have "i = length input" using "1.prems"(1) by (simp add: scan_ok_def)
    with "1.prems"(1) show ?thesis by (subst mask_loop.simps) auto
  qed
qed

lemma mask_report_result:
  assumes "mask_bound (length input) \<le> cap"
  shows "\<exists>r out ss. mask_report input cap = Inr (r, out) \<and>
     input = segs_raw ss \<and> out = segs_out ss \<and> covered input 0 ss \<and> numbered ss \<and>
     unat (mr_redacted_spans r) = min (length (segs_numbers ss)) (2 ^ 32 - 1) \<and>
     mr_secret_digest r =
       (if segs_secrets ss = [] then 0 else fnv1a64 (concat (segs_secrets ss))) \<and>
     mr_output_len r = length out \<and> length out \<le> mask_bound (length input)"
proof -
  from mask_loop_ok [OF scan_ok_init assms] obtain st ss lit where
    run: "mask_loop input cap 0 scan_init = Inr st" and ok: "scan_ok input (length input) st ss lit"
    by blast
  then have raw: "input = segs_raw (ss @ [Copied lit])" and out: "sc_out st = segs_out (ss @ [Copied lit])"
    and cov: "covered input 0 (ss @ [Copied lit])" and "numbered (ss @ [Copied lit])"
    by (auto simp: scan_ok_def numbered_def)
  moreover have "length (sc_out st) \<le> mask_bound (length input)"
    using covered_output_length [OF cov] raw out by simp
  ultimately show ?thesis using ok run assms
    by (intro exI [of _ "ss @ [Copied lit]"] exI [of _ "sc_out st"] exI
          [of _ "\<lparr>mr_redacted_spans = sc_spans st,
             mr_secret_digest = (if sc_secret st then sc_digest st else 0),
             mr_output_len = length (sc_out st)\<rparr>"])
      (simp add: mask_report_def fnv1a64_eq_update scan_ok_def)
qed

section \<open>Properties\<close>



end
