(* ===== verification/Compact.thy ===== *)
theory Compact
  imports Monitor
begin

text \<open>
  Context compaction (\<open>esper-core/src/compact.rs\<close>) and the lineage of a continued run
  (\<open>esper-core/src/lineage.rs\<close>). A fixed list of the source is an array and a length byte; the
  model keeps both, and the lemmas relate every operation to the list of live items the
  accessors return. The properties are the two never-drop promises of the module, the capacity
  and distinctness invariant of the state, and that a continuation never widens the budget.
\<close>

section \<open>Notes\<close>

definition note_max :: nat where "note_max = 64"

record note_t =
  n_bytes :: bytes
  n_len :: u8

definition note_EMPTY :: note_t where
  "note_EMPTY = \<lparr>n_bytes = replicate note_max 0, n_len = 0\<rparr>"

text \<open>The array of a note that holds \<open>bs\<close>: the copy loop over the zipped bytes.\<close>

definition note_fill :: "bytes \<Rightarrow> note_t" where
  "note_fill bs =
     \<lparr>n_bytes = take note_max bs @ drop (length bs) (n_bytes note_EMPTY), n_len = of_nat (length bs)\<rparr>"

definition note_from_bytes :: "bytes \<Rightarrow> error + note_t" where
  "note_from_bytes bs =
     (if note_max < length bs then Inl E_CompactFieldTooLong else Inr (note_fill bs))"

definition note_truncated_from :: "bytes \<Rightarrow> note_t" where
  "note_truncated_from bs = note_fill (take (min (length bs) note_max) bs)"

definition note_as_bytes :: "note_t \<Rightarrow> bytes" where
  "note_as_bytes n = (case slice (n_bytes n) 0 (unat (n_len n)) of Some b \<Rightarrow> b | None \<Rightarrow> [])"

text \<open>The notes the constructors build; their fields are private, so these are all there are.\<close>

definition note_ok :: "note_t \<Rightarrow> bool" where
  "note_ok n \<longleftrightarrow> (\<exists>bs. length bs \<le> note_max \<and> n = note_fill bs)"

section \<open>Fixed lists\<close>

record 'a bounded =
  bl_slots :: "'a list"
  bl_len :: u8

definition bounded_new :: "nat \<Rightarrow> 'a \<Rightarrow> 'a bounded" where
  "bounded_new cap d = \<lparr>bl_slots = replicate cap d, bl_len = 0\<rparr>"

text \<open>The accessors \<open>completed\<close>, \<open>open\<close>, \<open>facts\<close>, \<open>failed_paths\<close>, \<open>pending\<close> and so on.\<close>

definition items :: "'a bounded \<Rightarrow> 'a list" where
  "items b = (case slice (bl_slots b) 0 (unat (bl_len b)) of Some xs \<Rightarrow> xs | None \<Rightarrow> [])"

definition push_bounded :: "'a bounded \<Rightarrow> 'a \<Rightarrow> 'a bounded" where
  "push_bounded b x =
     (let at = unat (bl_len b) in
      if at < length (bl_slots b)
      then \<lparr>bl_slots = (bl_slots b)[at := x], bl_len = saturating_add (bl_len b) 1\<rparr>
      else b\<lparr>bl_slots := (case bl_slots b of [] \<Rightarrow> [] | _ # rest \<Rightarrow> rest @ [x])\<rparr>)"

text \<open>\<open>copy_within(pos + 1.., pos)\<close>: the slots move down, the final one keeps its value.\<close>

definition remove_at :: "'a bounded \<Rightarrow> nat \<Rightarrow> 'a bounded" where
  "remove_at b pos =
     \<lparr>bl_slots = take pos (bl_slots b) @ drop (Suc pos) (bl_slots b) @ [List.last (bl_slots b)],
      bl_len = saturating_sub (bl_len b) 1\<rparr>"

definition bounded_ok :: "nat \<Rightarrow> 'a bounded \<Rightarrow> bool" where
  "bounded_ok cap b \<longleftrightarrow>
     0 < cap \<and> cap < 255 \<and> length (bl_slots b) = cap \<and> unat (bl_len b) \<le> cap"

section \<open>The compact state\<close>

definition max_completed :: nat where "max_completed = 8"
definition max_open :: nat where "max_open = 8"
definition max_accepted_decisions :: nat where "max_accepted_decisions = 8"
definition max_facts :: nat where "max_facts = 16"
definition max_failed_paths :: nat where "max_failed_paths = 16"
definition max_pending :: nat where "max_pending = 8"
definition max_fingerprints :: nat where "max_fingerprints = 16"

lemmas max_defs = max_completed_def max_open_def max_accepted_decisions_def max_facts_def
  max_failed_paths_def max_pending_def max_fingerprints_def

record compaction_policy =
  cp_trigger_pct :: u8
  cp_tail_keep :: u8

definition default_policy :: compaction_policy where
  "default_policy = \<lparr>cp_trigger_pct = 80, cp_tail_keep = 5\<rparr>"

definition should_compact :: "u64 \<Rightarrow> u64 \<Rightarrow> compaction_policy \<Rightarrow> bool" where
  "should_compact used budget policy =
     (let pct = (if 100 < cp_trigger_pct policy then 100 else cp_trigger_pct policy)
      in unat budget * unat pct \<le> unat used * 100)"

datatype pending_kind = Pd_Approval | Pd_Verification

fun pending_kind_code :: "pending_kind \<Rightarrow> u8" where
  "pending_kind_code Pd_Approval = 0"
| "pending_kind_code Pd_Verification = 1"

definition pending_kind_from_code :: "u8 \<Rightarrow> pending_kind option" where
  "pending_kind_from_code c =
     (if c = 0 then Some Pd_Approval else if c = 1 then Some Pd_Verification else None)"

record fact =
  f_text :: note_t
  f_source_seq :: u32

record failed_path =
  fp_tool :: tool_id
  fp_args_digest :: digest
  fp_error :: error_code

record pending_item =
  pd_kind :: pending_kind
  pd_seq :: u32
  pd_digest :: digest

record version_set =
  v_workflow :: u32
  v_model :: digest
  v_catalog :: digest
  v_policy :: digest

record compact_state =
  cs_objective_digest :: digest
  cs_budgets :: budget
  cs_versions :: version_set
  cs_completed :: "note_t bounded"
  cs_open :: "note_t bounded"
  cs_accepted :: "digest bounded"
  cs_facts :: "fact bounded"
  cs_failed :: "failed_path bounded"
  cs_pending :: "pending_item bounded"
  cs_fingerprints :: "u64 bounded"

definition compact_state_new :: "digest \<Rightarrow> budget \<Rightarrow> version_set \<Rightarrow> compact_state" where
  "compact_state_new d b v =
     \<lparr>cs_objective_digest = d, cs_budgets = b, cs_versions = v,
      cs_completed = bounded_new max_completed note_EMPTY,
      cs_open = bounded_new max_open note_EMPTY,
      cs_accepted = bounded_new max_accepted_decisions (Digest 0),
      cs_facts = bounded_new max_facts \<lparr>f_text = note_EMPTY, f_source_seq = 0\<rparr>,
      cs_failed = bounded_new max_failed_paths
        \<lparr>fp_tool = ToolId 0, fp_args_digest = Digest 0, fp_error = C_Ok\<rparr>,
      cs_pending = bounded_new max_pending
        \<lparr>pd_kind = Pd_Approval, pd_seq = 0, pd_digest = Digest 0\<rparr>,
      cs_fingerprints = bounded_new max_fingerprints 0\<rparr>"

definition record_completed :: "compact_state \<Rightarrow> note_t \<Rightarrow> compact_state" where
  "record_completed s n = s\<lparr>cs_completed := push_bounded (cs_completed s) n\<rparr>"

definition record_open :: "compact_state \<Rightarrow> note_t \<Rightarrow> compact_state" where
  "record_open s n = s\<lparr>cs_open := push_bounded (cs_open s) n\<rparr>"

definition record_decision :: "compact_state \<Rightarrow> digest \<Rightarrow> compact_state" where
  "record_decision s d = s\<lparr>cs_accepted := push_bounded (cs_accepted s) d\<rparr>"

definition record_fact :: "compact_state \<Rightarrow> fact \<Rightarrow> compact_state" where
  "record_fact s f =
     (let at = unat (bl_len (cs_facts s)) in
      if f \<in> set (take at (bl_slots (cs_facts s))) then s
      else s\<lparr>cs_facts := push_bounded (cs_facts s) f\<rparr>)"

definition record_failed_path :: "compact_state \<Rightarrow> failed_path \<Rightarrow> error + compact_state" where
  "record_failed_path s p =
     (let at = unat (bl_len (cs_failed s)) in
      if p \<in> set (take at (bl_slots (cs_failed s))) then Inr s
      else if max_failed_paths \<le> at then Inl E_CompactStateFull
      else Inr (s\<lparr>cs_failed := push_bounded (cs_failed s) p\<rparr>))"

definition same_obligation :: "pending_kind \<Rightarrow> u32 \<Rightarrow> pending_item \<Rightarrow> bool" where
  "same_obligation k q p \<longleftrightarrow> pd_kind p = k \<and> pd_seq p = q"

definition record_pending :: "compact_state \<Rightarrow> pending_item \<Rightarrow> error + compact_state" where
  "record_pending s i =
     (let at = unat (bl_len (cs_pending s)) in
      if list_ex (same_obligation (pd_kind i) (pd_seq i)) (take at (bl_slots (cs_pending s)))
      then Inr s
      else if max_pending \<le> at then Inl E_CompactStateFull
      else Inr (s\<lparr>cs_pending := push_bounded (cs_pending s) i\<rparr>))"

definition resolve_pending :: "compact_state \<Rightarrow> pending_kind \<Rightarrow> u32 \<Rightarrow> compact_state \<times> bool" where
  "resolve_pending s k q =
     (let at = unat (bl_len (cs_pending s)) in
      case position (same_obligation k q) (take at (bl_slots (cs_pending s))) of
        Some pos \<Rightarrow> (s\<lparr>cs_pending := remove_at (cs_pending s) pos\<rparr>, True)
      | None \<Rightarrow> (s, False))"

definition record_fingerprint :: "compact_state \<Rightarrow> u64 \<Rightarrow> compact_state" where
  "record_fingerprint s f = s\<lparr>cs_fingerprints := push_bounded (cs_fingerprints s) f\<rparr>"

section \<open>Folding frames\<close>

record frame_summary =
  fr_seq :: u32
  fr_kind :: record_kind
  fr_tool :: tool_id
  fr_args_digest :: digest
  fr_outcome :: step_outcome
  fr_progress :: progress_delta
  fr_payload :: bytes
  fr_pending_approval :: bool
  fr_pending_verification :: bool

record compaction_report =
  cr_frames_in :: u32
  cr_frames_compacted :: u32
  cr_tail_kept :: u8
  cr_bytes_saved_estimate :: u64

fun outcome_byte :: "step_outcome \<Rightarrow> u8" where
  "outcome_byte O_Ok = 0"
| "outcome_byte (O_Failed c) = error_code_code c"

fun progress_byte :: "progress_delta \<Rightarrow> u8" where
  "progress_byte P_NewEvidence = 0"
| "progress_byte P_StateChanged = 1"
| "progress_byte P_SubgoalClosed = 2"
| "progress_byte P_InputReceived = 3"
| "progress_byte P_NoProgress = 4"

definition event_fingerprint :: "frame_summary \<Rightarrow> u64" where
  "event_fingerprint f =
     fnv1a64 (to_le_bytes (fr_seq f) @ [record_kind_code (fr_kind f), tool_id_get (fr_tool f)]
       @ to_le_bytes (digest_get (fr_args_digest f))
       @ [outcome_byte (fr_outcome f), progress_byte (fr_progress f)])"

definition frame_failure :: "frame_summary \<Rightarrow> failed_path option" where
  "frame_failure f =
     (case fr_outcome f of
        O_Ok \<Rightarrow> None
      | O_Failed e \<Rightarrow> Some \<lparr>fp_tool = fr_tool f, fp_args_digest = fr_args_digest f, fp_error = e\<rparr>)"

definition frame_obligation :: "pending_kind \<Rightarrow> frame_summary \<Rightarrow> pending_item" where
  "frame_obligation k f =
     \<lparr>pd_kind = k, pd_seq = fr_seq f, pd_digest = digest_of_bytes (fr_payload f)\<rparr>"

text \<open>The positive knowledge of a frame, recorded last.\<close>

definition record_knowledge :: "compact_state \<Rightarrow> frame_summary \<Rightarrow> compact_state" where
  "record_knowledge s f =
     (let s1 =
        (if fr_progress f = P_NewEvidence \<and> fr_outcome f = O_Ok
         then record_fact s \<lparr>f_text = note_truncated_from (fr_payload f), f_source_seq = fr_seq f\<rparr>
         else if fr_progress f = P_SubgoalClosed
         then record_completed s (note_truncated_from (fr_payload f))
         else s)
      in if fr_kind f = K_ModelDecision then record_decision s1 (fr_args_digest f) else s1)"

text \<open>One round of the loop: the state is changed in place, so it is returned with the error too.\<close>

definition stage ::
  "(compact_state \<Rightarrow> error + compact_state) \<Rightarrow> compact_state \<Rightarrow>
   (compact_state \<Rightarrow> compact_state \<times> (error + unit)) \<Rightarrow> compact_state \<times> (error + unit)" where
  "stage rec s k = (case rec s of Inl e \<Rightarrow> (s, Inl e) | Inr s' \<Rightarrow> k s')"

definition record_failure :: "frame_summary \<Rightarrow> compact_state \<Rightarrow> error + compact_state" where
  "record_failure f s =
     (case frame_failure f of None \<Rightarrow> Inr s | Some p \<Rightarrow> record_failed_path s p)"

definition record_obligation ::
  "bool \<Rightarrow> pending_kind \<Rightarrow> frame_summary \<Rightarrow> compact_state \<Rightarrow> error + compact_state" where
  "record_obligation opened k f s =
     (if opened then record_pending s (frame_obligation k f) else Inr s)"

definition compact_frame :: "frame_summary \<Rightarrow> compact_state \<Rightarrow> compact_state \<times> (error + unit)" where
  "compact_frame f s =
     stage (record_failure f) (record_fingerprint s (event_fingerprint f)) (\<lambda>s2.
     stage (record_obligation (fr_pending_approval f) Pd_Approval f) s2 (\<lambda>s3.
     stage (record_obligation (fr_pending_verification f) Pd_Verification f) s3 (\<lambda>s4.
     (record_knowledge s4 f, Inr ()))))"

fun compact_frames ::
  "nat \<Rightarrow> nat \<Rightarrow> frame_summary list \<Rightarrow> compact_state \<Rightarrow> u64 \<Rightarrow> compact_state \<times> (error + u64)" where
  "compact_frames compacted index [] s saved = (s, Inr saved)"
| "compact_frames compacted index (f # fs) s saved =
     (case compact_frame f s of
        (s', Inl e) \<Rightarrow> (s', Inl e)
      | (s', Inr _) \<Rightarrow>
          compact_frames compacted (Suc index) fs s'
            (if index < compacted then saturating_add saved (of_nat (length (fr_payload f))) else saved))"

definition u8_or_max :: "nat \<Rightarrow> u8" where
  "u8_or_max n = (case try_from n of Some w \<Rightarrow> w | None \<Rightarrow> - 1)"

definition u32_or_max :: "nat \<Rightarrow> u32" where
  "u32_or_max n = (case try_from n of Some w \<Rightarrow> w | None \<Rightarrow> - 1)"

definition compact ::
  "frame_summary list \<Rightarrow> compaction_policy \<Rightarrow> compact_state \<Rightarrow>
   compact_state \<times> (error + compaction_report)" where
  "compact frames policy s =
     (let n = length frames;
          tail_keep = min_word (cp_tail_keep policy) (u8_or_max n);
          compacted = n - unat tail_keep
      in case compact_frames compacted 0 frames s 0 of
           (s', Inl e) \<Rightarrow> (s', Inl e)
         | (s', Inr saved) \<Rightarrow>
             (s', Inr \<lparr>cr_frames_in = u32_or_max n, cr_frames_compacted = u32_or_max compacted,
                      cr_tail_kept = min_word (cp_tail_keep policy) (u8_or_max n),
                      cr_bytes_saved_estimate = saved\<rparr>))"

section \<open>Lineage\<close>

record lineage =
  li_parent_run :: run_id
  li_continued_at_frame :: u32
  li_budgets_remaining :: budget
  li_versions :: version_set

record continued_run =
  ct_state :: compact_state
  ct_lineage :: lineage

definition continue_as_new :: "compact_state \<Rightarrow> lineage \<Rightarrow> error + continued_run" where
  "continue_as_new s l =
     and_then (check_no_widen (li_budgets_remaining l) (cs_budgets s))
       (\<lambda>_. Inr \<lparr>ct_state = s\<lparr>cs_budgets := li_budgets_remaining l\<rparr>, ct_lineage = l\<rparr>)"

section \<open>Fixed lists as lists\<close>

lemma items_take: "bounded_ok cap b \<Longrightarrow> items b = take (unat (bl_len b)) (bl_slots b)"
  by (simp add: items_def slice_def bounded_ok_def)

lemma length_items: "bounded_ok cap b \<Longrightarrow> length (items b) = unat (bl_len b)"
  using items_take [of cap b] by (simp add: bounded_ok_def)

lemma length_items_le: "bounded_ok cap b \<Longrightarrow> length (items b) \<le> cap"
  using length_items [of cap b] by (simp add: bounded_ok_def)

lemma items_new [simp]: "items (bounded_new cap d) = []"
  by (simp add: items_def slice_def bounded_new_def)

lemma bounded_ok_new: "0 < cap \<Longrightarrow> cap < 255 \<Longrightarrow> bounded_ok cap (bounded_new cap d)"
  by (simp add: bounded_ok_def bounded_new_def)

lemma bounded_ok_push: "bounded_ok cap b \<Longrightarrow> bounded_ok cap (push_bounded b x)"
  by (auto simp: bounded_ok_def push_bounded_def Let_def unat_saturating_add split: list.splits)

lemma items_push:
  assumes ok: "bounded_ok cap b"
  shows "items (push_bounded b x) = lastn cap (items b @ [x])"
proof (cases "unat (bl_len b) < length (bl_slots b)")
  case True
  then have "Suc (unat (bl_len b)) \<le> cap" using ok by (simp add: bounded_ok_def)
  then have "unat (saturating_add (bl_len b) 1) = Suc (unat (bl_len b))"
    using ok by (simp add: bounded_ok_def unat_saturating_add)
  then show ?thesis
    using True ok bounded_ok_push [OF ok, of x]
    by (simp add: items_take [of cap] push_bounded_def lastn_def Let_def take_Suc_conv_app_nth bounded_ok_def)
next
  case False
  then have full: "unat (bl_len b) = cap" "length (bl_slots b) = cap" "0 < cap"
    using ok by (auto simp: bounded_ok_def)
  then obtain y ys where "bl_slots b = y # ys" by (cases "bl_slots b") auto
  then show ?thesis
    using full ok bounded_ok_push [OF ok, of x]
    by (simp add: items_take [of cap] push_bounded_def lastn_def Let_def)
qed

lemma items_push_free:
  "bounded_ok cap b \<Longrightarrow> length (items b) < cap \<Longrightarrow> items (push_bounded b x) = items b @ [x]"
  by (simp add: items_push lastn_def)

lemma bounded_ok_remove:
  assumes "bounded_ok cap b" and "pos < length (items b)"
  shows "bounded_ok cap (remove_at b pos)"
  using assms length_items [OF assms(1)]
  by (auto simp: bounded_ok_def remove_at_def unat_saturating_sub)

lemma items_remove:
  assumes ok: "bounded_ok cap b" and pos: "pos < length (items b)"
  shows "items (remove_at b pos) = take pos (items b) @ drop (Suc pos) (items b)"
proof -
  have len: "length (items b) = unat (bl_len b)" "unat (bl_len b) \<le> length (bl_slots b)"
    using length_items [OF ok] ok by (simp_all add: bounded_ok_def)
  have "items (remove_at b pos) = take (unat (bl_len b) - 1)
      (take pos (bl_slots b) @ drop (Suc pos) (bl_slots b) @ [List.last (bl_slots b)])"
    using items_take [OF bounded_ok_remove [OF assms]] by (simp add: remove_at_def unat_saturating_sub)
  also have "\<dots> = take pos (take (unat (bl_len b)) (bl_slots b)) @
      drop (Suc pos) (take (unat (bl_len b)) (bl_slots b))"
    using pos len by (auto simp: min_def drop_take dest!: le_antisym)
  finally show ?thesis by (simp add: items_take [OF ok])
qed

lemma lastn_lastn_snoc: "lastn n (lastn n xs @ [x]) = lastn n (xs @ [x])"
  by (cases n; cases "n \<le> length xs") (auto simp: lastn_def Suc_diff_le Suc_diff_Suc Suc_le_eq)

lemma lastn_lastn_append: "lastn n (lastn n xs @ ys) = lastn n (xs @ ys)"
proof (induction ys rule: rev_induct)
  case Nil
  then show ?case by (simp add: lastn_def)
next
  case (snoc y ys)
  have "lastn n (lastn n (lastn n xs @ ys) @ [y]) = lastn n (lastn n (xs @ ys) @ [y])"
    by (simp only: snoc.IH)
  then show ?case by (simp add: lastn_lastn_snoc)
qed

text \<open>The interface of a window of recent items: what is visible after a push is the last \<open>cap\<close> items.\<close>

locale recent_window =
  fixes cap :: nat and ok :: "'w \<Rightarrow> bool" and view :: "'w \<Rightarrow> 'a list" and push :: "'w \<Rightarrow> 'a \<Rightarrow> 'w"
  assumes ok_push: "ok w \<Longrightarrow> ok (push w x)"
    and view_push: "ok w \<Longrightarrow> view (push w x) = lastn cap (view w @ [x])"
    and view_le: "ok w \<Longrightarrow> length (view w) \<le> cap"
begin

lemma push_all: "ok w \<Longrightarrow> ok (foldl push w xs) \<and> view (foldl push w xs) = lastn cap (view w @ xs)"
proof (induction xs rule: rev_induct)
  case Nil
  then show ?case using view_le by (simp add: lastn_def)
next
  case (snoc x xs)
  then show ?case using lastn_lastn_snoc [of cap "view w @ xs" x] by (simp add: ok_push view_push)
qed

lemma push_all_fits:
  "ok w \<Longrightarrow> length (view w) + length xs \<le> cap \<Longrightarrow> view (foldl push w xs) = view w @ xs"
  using push_all by (simp add: lastn_def)

end

interpretation fixed_list: recent_window cap "bounded_ok cap" items push_bounded for cap
  by unfold_locales (simp_all add: bounded_ok_push items_push length_items_le)

section \<open>Notes round trip\<close>

lemma note_fill_bytes: "length bs \<le> note_max \<Longrightarrow> note_as_bytes (note_fill bs) = bs"
  by (simp add: note_as_bytes_def note_fill_def slice_def note_max_def note_EMPTY_def take_bit_nat_eq_self unat_of_nat)

lemma note_from_bytes_ok: "note_from_bytes bs = Inr n \<Longrightarrow> note_ok n \<and> note_as_bytes n = bs"
  by (auto simp: note_from_bytes_def note_ok_def note_fill_bytes not_less split: if_splits)

lemma note_truncated_ok: "note_ok (note_truncated_from bs)"
  unfolding note_truncated_from_def note_ok_def
  by (rule exI [of _ "take (min (length bs) note_max) bs"]) simp

lemma note_truncated_bytes: "note_as_bytes (note_truncated_from bs) = take note_max bs"
  by (simp add: note_truncated_from_def note_fill_bytes min_def)

lemma note_from_as_bytes: "note_ok n \<Longrightarrow> note_from_bytes (note_as_bytes n) = Inr n"
  by (auto simp: note_ok_def note_fill_bytes note_from_bytes_def)

lemma note_as_bytes_length: "note_ok n \<Longrightarrow> length (note_as_bytes n) \<le> note_max"
  by (auto simp: note_ok_def note_fill_bytes)

lemma note_EMPTY_ok: "note_ok note_EMPTY"
  unfolding note_ok_def by (rule exI [of _ "[]"]) (simp add: note_fill_def note_EMPTY_def)

section \<open>The invariant\<close>

definition pending_key :: "pending_item \<Rightarrow> pending_kind \<times> u32" where
  "pending_key p = (pd_kind p, pd_seq p)"

definition cs_ok :: "compact_state \<Rightarrow> bool" where
  "cs_ok s \<longleftrightarrow>
     bounded_ok max_completed (cs_completed s) \<and> bounded_ok max_open (cs_open s) \<and>
     bounded_ok max_accepted_decisions (cs_accepted s) \<and> bounded_ok max_facts (cs_facts s) \<and>
     bounded_ok max_failed_paths (cs_failed s) \<and> bounded_ok max_pending (cs_pending s) \<and>
     bounded_ok max_fingerprints (cs_fingerprints s) \<and>
     list_all note_ok (items (cs_completed s)) \<and> list_all note_ok (items (cs_open s)) \<and>
     list_all (\<lambda>f. note_ok (f_text f)) (items (cs_facts s)) \<and>
     distinct (items (cs_facts s)) \<and> distinct (items (cs_failed s)) \<and>
     distinct (map pending_key (items (cs_pending s)))"

lemma cs_ok_new: "cs_ok (compact_state_new d b v)"
  by (simp add: cs_ok_def compact_state_new_def bounded_ok_new max_defs)

lemma list_all_lastn: "list_all P xs \<Longrightarrow> list_all P (lastn n xs)"
  by (auto simp: list_all_iff lastn_def dest: in_set_dropD)

lemma distinct_lastn: "distinct xs \<Longrightarrow> distinct (lastn n xs)"
  by (simp add: lastn_def)

lemmas record_defs = record_completed_def record_open_def record_decision_def record_fact_def
  record_failed_path_def record_pending_def record_fingerprint_def

lemma same_obligation_key: "same_obligation k q p \<longleftrightarrow> pending_key p = (k, q)"
  by (simp add: same_obligation_def pending_key_def)

lemma record_completed_ok: "cs_ok s \<Longrightarrow> note_ok n \<Longrightarrow> cs_ok (record_completed s n)"
  by (simp add: cs_ok_def record_completed_def bounded_ok_push items_push [where cap = max_completed] list_all_lastn)

lemma record_open_ok: "cs_ok s \<Longrightarrow> note_ok n \<Longrightarrow> cs_ok (record_open s n)"
  by (simp add: cs_ok_def record_open_def bounded_ok_push items_push [where cap = max_open] list_all_lastn)

lemma record_decision_ok: "cs_ok s \<Longrightarrow> cs_ok (record_decision s d)"
  by (simp add: cs_ok_def record_decision_def bounded_ok_push)

lemma record_fingerprint_ok: "cs_ok s \<Longrightarrow> cs_ok (record_fingerprint s d)"
  by (simp add: cs_ok_def record_fingerprint_def bounded_ok_push)

lemma record_fact_items:
  "cs_ok s \<Longrightarrow> items (cs_facts (record_fact s f)) =
     (if f \<in> set (items (cs_facts s)) then items (cs_facts s)
      else lastn max_facts (items (cs_facts s) @ [f]))"
  by (simp add: cs_ok_def record_fact_def Let_def items_push [of max_facts]
      items_take [of max_facts, symmetric])

lemma record_fact_ok: "cs_ok s \<Longrightarrow> note_ok (f_text f) \<Longrightarrow> cs_ok (record_fact s f)"
  using record_fact_items [of s f]
  by (auto simp: cs_ok_def record_fact_def Let_def bounded_ok_push list_all_lastn distinct_lastn
      items_take [of max_facts, symmetric] split: if_splits)

lemma record_failed_path_result:
  assumes "cs_ok s"
  shows "record_failed_path s p =
     (if p \<in> set (items (cs_failed s)) then Inr s
      else if max_failed_paths \<le> length (items (cs_failed s)) then Inl E_CompactStateFull
      else Inr (s\<lparr>cs_failed := push_bounded (cs_failed s) p\<rparr>))"
proof -
  have ok: "bounded_ok max_failed_paths (cs_failed s)" using assms by (simp add: cs_ok_def)
  show ?thesis
    by (simp add: record_failed_path_def Let_def items_take [OF ok, symmetric] length_items [OF ok])
qed

lemma record_failed_path_items:
  "cs_ok s \<Longrightarrow> record_failed_path s p = Inr s' \<Longrightarrow>
   items (cs_failed s') = (if p \<in> set (items (cs_failed s)) then items (cs_failed s)
                           else items (cs_failed s) @ [p])"
  using record_failed_path_result [of s p]
  by (auto simp: items_push_free [where cap = max_failed_paths] cs_ok_def split: if_splits)

lemma record_failed_path_ok: "cs_ok s \<Longrightarrow> record_failed_path s p = Inr s' \<Longrightarrow> cs_ok s'"
  using record_failed_path_result [of s p] record_failed_path_items [of s p s']
  by (auto simp: cs_ok_def bounded_ok_push split: if_splits)

lemma record_pending_result:
  assumes "cs_ok s"
  shows "record_pending s i =
     (if pending_key i \<in> set (map pending_key (items (cs_pending s))) then Inr s
      else if max_pending \<le> length (items (cs_pending s)) then Inl E_CompactStateFull
      else Inr (s\<lparr>cs_pending := push_bounded (cs_pending s) i\<rparr>))"
proof -
  have ok: "bounded_ok max_pending (cs_pending s)" using assms by (simp add: cs_ok_def)
  have "list_ex (same_obligation (pd_kind i) (pd_seq i)) (items (cs_pending s)) \<longleftrightarrow>
      pending_key i \<in> set (map pending_key (items (cs_pending s)))"
    by (auto simp: same_obligation_key list_ex_iff pending_key_def [of i] rev_image_eqI)
  then show ?thesis
    by (simp add: record_pending_def Let_def items_take [OF ok, symmetric] length_items [OF ok])
qed

lemma record_pending_items:
  "cs_ok s \<Longrightarrow> record_pending s i = Inr s' \<Longrightarrow>
   items (cs_pending s') =
     (if pending_key i \<in> set (map pending_key (items (cs_pending s))) then items (cs_pending s)
      else items (cs_pending s) @ [i])"
  using record_pending_result [of s i]
  by (auto simp: items_push_free [where cap = max_pending] cs_ok_def split: if_splits)

lemma record_pending_ok: "cs_ok s \<Longrightarrow> record_pending s i = Inr s' \<Longrightarrow> cs_ok s'"
  using record_pending_result [of s i] record_pending_items [of s i s']
  by (auto simp: cs_ok_def bounded_ok_push split: if_splits)

section \<open>Folding preserves the invariant and drops no obligation\<close>

text \<open>What a frame rules out and what it leaves open.\<close>

definition frame_obligations :: "frame_summary \<Rightarrow> (pending_kind \<times> u32) list" where
  "frame_obligations f =
     (if fr_pending_approval f then [(Pd_Approval, fr_seq f)] else []) @
     (if fr_pending_verification f then [(Pd_Verification, fr_seq f)] else [])"

definition open_keys :: "compact_state \<Rightarrow> (pending_kind \<times> u32) set" where
  "open_keys s = set (map pending_key (items (cs_pending s)))"

definition ruled_out :: "compact_state \<Rightarrow> failed_path set" where
  "ruled_out s = set (items (cs_failed s))"

text \<open>The state only grew in its never-drop stores, and its identity is untouched.\<close>

definition extends :: "compact_state \<Rightarrow> compact_state \<Rightarrow> bool" where
  "extends s s' \<longleftrightarrow>
     cs_ok s' \<and>
     (\<exists>xs. items (cs_failed s') = items (cs_failed s) @ xs) \<and>
     (\<exists>ys. items (cs_pending s') = items (cs_pending s) @ ys) \<and>
     cs_open s' = cs_open s \<and> cs_objective_digest s' = cs_objective_digest s \<and>
     cs_budgets s' = cs_budgets s \<and> cs_versions s' = cs_versions s"

lemma extends_refl: "cs_ok s \<Longrightarrow> extends s s"
  by (simp add: extends_def)

lemma extends_trans: "extends s t \<Longrightarrow> extends t u \<Longrightarrow> extends s u"
  by (auto simp: extends_def)

lemma extends_keeps: "extends s t \<Longrightarrow> ruled_out s \<subseteq> ruled_out t \<and> open_keys s \<subseteq> open_keys t"
  by (auto simp: extends_def ruled_out_def open_keys_def)

lemma record_failed_path_extends:
  assumes ok: "cs_ok s" and run: "record_failed_path s p = Inr s'"
  shows "extends s s' \<and> p \<in> ruled_out s' \<and> cs_fingerprints s' = cs_fingerprints s"
  using record_failed_path_ok [OF assms] record_failed_path_items [OF assms]
    record_failed_path_result [OF ok, of p] run
  by (auto simp: extends_def ruled_out_def split: if_splits)

lemma record_pending_extends:
  assumes ok: "cs_ok s" and run: "record_pending s i = Inr s'"
  shows "extends s s' \<and> pending_key i \<in> open_keys s' \<and> cs_fingerprints s' = cs_fingerprints s"
  using record_pending_ok [OF assms] record_pending_items [OF assms]
    record_pending_result [OF ok, of i] run
  by (auto simp: extends_def open_keys_def split: if_splits)

lemma record_fingerprint_extends:
  "cs_ok s \<Longrightarrow> extends s (record_fingerprint s d) \<and>
     items (cs_fingerprints (record_fingerprint s d)) = lastn max_fingerprints (items (cs_fingerprints s) @ [d])"
  using record_fingerprint_ok [of s d]
  by (auto simp: extends_def record_fingerprint_def cs_ok_def items_push [of max_fingerprints])

lemma record_knowledge_extends:
  assumes "cs_ok s"
  shows "extends s (record_knowledge s f) \<and>
     cs_fingerprints (record_knowledge s f) = cs_fingerprints s"
proof -
  have "cs_ok (record_knowledge s f)"
    using assms by (auto simp: record_knowledge_def Let_def record_decision_ok record_fact_ok
        record_completed_ok note_truncated_ok)
  then show ?thesis
    by (auto simp: extends_def record_knowledge_def Let_def record_decision_def record_fact_def
        record_completed_def)
qed

lemma store_full:
  "cs_ok s \<Longrightarrow> record_failed_path s p = Inl e \<Longrightarrow>
     e = E_CompactStateFull \<and> length (items (cs_failed s)) = max_failed_paths"
  "cs_ok s \<Longrightarrow> record_pending s i = Inl e \<Longrightarrow>
     e = E_CompactStateFull \<and> length (items (cs_pending s)) = max_pending"
  using record_failed_path_result [of s p] record_pending_result [of s i]
    length_items_le [of max_failed_paths "cs_failed s"] length_items_le [of max_pending "cs_pending s"]
  by (auto simp: cs_ok_def split: if_splits)

text \<open>What each stage of a frame guarantees, and how the stages compose.\<close>

definition full_error :: "error \<Rightarrow> compact_state \<Rightarrow> bool" where
  "full_error e s \<longleftrightarrow> e = E_CompactStateFull \<and>
     (length (items (cs_failed s)) = max_failed_paths \<or> length (items (cs_pending s)) = max_pending)"

definition outcome ::
  "(compact_state \<Rightarrow> bool) \<Rightarrow> compact_state \<Rightarrow> compact_state \<times> (error + unit) \<Rightarrow> bool" where
  "outcome Q s sr \<longleftrightarrow>
     extends s (fst sr) \<and> cs_fingerprints (fst sr) = cs_fingerprints s \<and>
     (case snd sr of Inr _ \<Rightarrow> Q (fst sr) | Inl e \<Rightarrow> full_error e (fst sr))"

definition keeps :: "(compact_state \<Rightarrow> bool) \<Rightarrow> bool" where
  "keeps P \<longleftrightarrow> (\<forall>s t. P s \<longrightarrow> extends s t \<longrightarrow> P t)"

definition stage_ok :: "(compact_state \<Rightarrow> bool) \<Rightarrow> (compact_state \<Rightarrow> error + compact_state) \<Rightarrow> bool" where
  "stage_ok P rec \<longleftrightarrow> (\<forall>s. cs_ok s \<longrightarrow>
     (case rec s of Inr s' \<Rightarrow> extends s s' \<and> cs_fingerprints s' = cs_fingerprints s \<and> P s'
      | Inl e \<Rightarrow> full_error e s))"

lemma outcome_stage:
  assumes ok: "cs_ok s" and rec: "stage_ok P rec" and P: "keeps P"
    and k: "\<And>s'. cs_ok s' \<Longrightarrow> outcome Q s' (k s')"
  shows "outcome (\<lambda>t. P t \<and> Q t) s (stage rec s k)"
proof (cases "rec s")
  case (Inl e)
  then show ?thesis using ok rec by (auto simp: outcome_def stage_def stage_ok_def extends_refl)
next
  case (Inr s')
  then have ext: "extends s s'" "cs_fingerprints s' = cs_fingerprints s" "P s'"
    using ok rec by (auto simp: stage_ok_def)
  then have "outcome Q s' (k s')" by (intro k) (simp add: extends_def)
  then show ?thesis using Inr ext P extends_trans [of s s']
    by (auto simp: outcome_def stage_def keeps_def split: sum.splits)
qed

lemma stage_ok_failure:
  "stage_ok (\<lambda>s. set_option (frame_failure f) \<subseteq> ruled_out s) (record_failure f)"
  by (auto simp: stage_ok_def record_failure_def full_error_def extends_refl
      dest: record_failed_path_extends store_full split: option.splits sum.splits)

lemma pending_key_obligation [simp]: "pending_key (frame_obligation k f) = (k, fr_seq f)"
  by (simp add: pending_key_def frame_obligation_def)

lemma stage_ok_obligation:
  "stage_ok (\<lambda>s. opened \<longrightarrow> (k, fr_seq f) \<in> open_keys s) (record_obligation opened k f)"
  by (auto simp: stage_ok_def record_obligation_def full_error_def extends_refl
      dest: record_pending_extends store_full split: sum.splits)

lemma keeps_simps:
  "keeps (\<lambda>s. A \<subseteq> ruled_out s)" "keeps (\<lambda>s. opened \<longrightarrow> key \<in> open_keys s)"
  using extends_keeps by (fastforce simp: keeps_def)+

lemma compact_frame_effect:
  assumes ok: "cs_ok s" and run: "compact_frame f s = (s', r)"
  shows "extends s s' \<and>
    items (cs_fingerprints s') = lastn max_fingerprints (items (cs_fingerprints s) @ [event_fingerprint f]) \<and>
    (case r of Inl e \<Rightarrow> full_error e s'
     | Inr _ \<Rightarrow> set_option (frame_failure f) \<subseteq> ruled_out s' \<and>
                set (frame_obligations f) \<subseteq> open_keys s')"
proof -
  define s1 where "s1 = record_fingerprint s (event_fingerprint f)"
  have fp: "extends s s1" "items (cs_fingerprints s1) =
      lastn max_fingerprints (items (cs_fingerprints s) @ [event_fingerprint f])"
    using record_fingerprint_extends [OF ok] by (auto simp: s1_def)
  then have ok1: "cs_ok s1" by (simp add: extends_def)
  have last: "outcome (\<lambda>_. True) t (record_knowledge t f, Inr ())" if "cs_ok t" for t
    using record_knowledge_extends [OF that] by (simp add: outcome_def)
  have "outcome (\<lambda>t. set_option (frame_failure f) \<subseteq> ruled_out t \<and>
      (fr_pending_approval f \<longrightarrow> (Pd_Approval, fr_seq f) \<in> open_keys t) \<and>
      (fr_pending_verification f \<longrightarrow> (Pd_Verification, fr_seq f) \<in> open_keys t) \<and> True) s1 (s', r)"
    unfolding run [symmetric] compact_frame_def s1_def [symmetric]
    by (intro outcome_stage ok1 stage_ok_failure stage_ok_obligation keeps_simps last)
  then show ?thesis using fp extends_trans [OF fp(1)]
    by (auto simp: outcome_def frame_obligations_def split: sum.splits)
qed

lemma compact_frames_effect:
  assumes "cs_ok s" and "compact_frames c i fs s saved = (s', r)"
  shows "extends s s' \<and>
    (case r of Inl e \<Rightarrow> full_error e s'
     | Inr _ \<Rightarrow>
         items (cs_fingerprints s') =
           lastn max_fingerprints (items (cs_fingerprints s) @ map event_fingerprint fs) \<and>
         (\<forall>f \<in> set fs. set_option (frame_failure f) \<subseteq> ruled_out s' \<and>
                         set (frame_obligations f) \<subseteq> open_keys s'))"
  using assms
proof (induction c i fs s saved rule: compact_frames.induct)
  case (1 c i s saved)
  then show ?case
    using length_items_le [of max_fingerprints "cs_fingerprints s"]
    by (auto simp: extends_refl cs_ok_def lastn_def)
next
  case (2 c i f fs s saved)
  obtain t q where step: "compact_frame f s = (t, q)" by (cases "compact_frame f s")
  note eff = compact_frame_effect [OF "2.prems"(1) step]
  show ?case
  proof (cases q)
    case (Inl e)
    then show ?thesis using "2.prems"(2) step eff by auto
  next
    case (Inr u)
    then have ext: "extends t s'" and rest: "case r of Inl e \<Rightarrow> full_error e s'
     | Inr _ \<Rightarrow>
         items (cs_fingerprints s') =
           lastn max_fingerprints (items (cs_fingerprints t) @ map event_fingerprint fs) \<and>
         (\<forall>f \<in> set fs. set_option (frame_failure f) \<subseteq> ruled_out s' \<and>
                         set (frame_obligations f) \<subseteq> open_keys s')"
      using "2.IH" [OF step [symmetric] Inr] "2.prems"(2) step eff by (auto simp: extends_def)
    have "lastn n (lastn n xs @ ys) = lastn n (xs @ ys)" for n and xs ys :: "u64 list"
      by (rule lastn_lastn_append)
    then show ?thesis
      using ext rest eff Inr extends_trans extends_keeps [OF ext]
      by (auto split: sum.splits)
  qed
qed

lemma compact_effect:
  assumes "cs_ok s" and "compact fs policy s = (s', r)"
  shows "extends s s' \<and>
    (case r of Inl e \<Rightarrow> full_error e s'
     | Inr _ \<Rightarrow>
         items (cs_fingerprints s') =
           lastn max_fingerprints (items (cs_fingerprints s) @ map event_fingerprint fs) \<and>
         (\<forall>f \<in> set fs. set_option (frame_failure f) \<subseteq> ruled_out s' \<and>
                         set (frame_obligations f) \<subseteq> open_keys s'))"
proof -
  obtain c t q where run: "compact_frames c 0 fs s 0 = (t, q)" and "s' = t"
    and "case q of Inl e \<Rightarrow> r = Inl e | Inr _ \<Rightarrow> is_ok r"
    using assms(2) by (auto simp: compact_def Let_def split: prod.splits sum.splits)
  then show ?thesis using compact_frames_effect [OF assms(1) run]
    by (auto split: sum.splits)
qed

section \<open>Everything a run does to its compact state\<close>

datatype compact_op =
    Op_Compact "frame_summary list" compaction_policy
  | Op_Completed bytes | Op_Open bytes | Op_Decision digest | Op_Fact bytes u32
  | Op_Failed failed_path | Op_Pending pending_item | Op_Resolve pending_kind u32
  | Op_Fingerprint u64

definition or_same :: "'s \<Rightarrow> 'e + 's \<Rightarrow> 's" where
  "or_same s r = (case r of Inl _ \<Rightarrow> s | Inr s' \<Rightarrow> s')"

text \<open>The state after an operation, whether it succeeded or failed.\<close>

fun compact_apply :: "compact_op \<Rightarrow> compact_state \<Rightarrow> compact_state" where
  "compact_apply (Op_Compact fs p) s = fst (compact fs p s)"
| "compact_apply (Op_Completed bs) s = record_completed s (note_truncated_from bs)"
| "compact_apply (Op_Open bs) s = record_open s (note_truncated_from bs)"
| "compact_apply (Op_Decision d) s = record_decision s d"
| "compact_apply (Op_Fact bs q) s =
     record_fact s \<lparr>f_text = note_truncated_from bs, f_source_seq = q\<rparr>"
| "compact_apply (Op_Failed p) s = or_same s (record_failed_path s p)"
| "compact_apply (Op_Pending i) s = or_same s (record_pending s i)"
| "compact_apply (Op_Resolve k q) s = fst (resolve_pending s k q)"
| "compact_apply (Op_Fingerprint f) s = record_fingerprint s f"

lemma record_unrelated:
  "cs_failed (record_completed s n) = cs_failed s" "cs_pending (record_completed s n) = cs_pending s"
  "cs_failed (record_open s n) = cs_failed s" "cs_pending (record_open s n) = cs_pending s"
  "cs_failed (record_decision s d) = cs_failed s" "cs_pending (record_decision s d) = cs_pending s"
  "cs_failed (record_fact s f) = cs_failed s" "cs_pending (record_fact s f) = cs_pending s"
  "cs_failed (record_fingerprint s x) = cs_failed s" "cs_pending (record_fingerprint s x) = cs_pending s"
  by (simp_all add: record_defs Let_def)

lemma distinct_remove: "distinct xs \<Longrightarrow> pos < length xs \<Longrightarrow>
    distinct (take pos xs @ drop (Suc pos) xs) \<and>
    set (take pos xs @ drop (Suc pos) xs) = set xs - {xs ! pos}"
proof (induction xs arbitrary: pos)
  case (Cons x xs)
  then show ?case by (cases pos) auto
qed simp

lemma resolve_pending_effect:
  assumes ok: "cs_ok s"
  shows "cs_ok (fst (resolve_pending s k q)) \<and>
    items (cs_failed (fst (resolve_pending s k q))) = items (cs_failed s) \<and>
    open_keys (fst (resolve_pending s k q)) = open_keys s - {(k, q)} \<and>
    snd (resolve_pending s k q) = ((k, q) \<in> open_keys s)"
proof -
  have pd: "bounded_ok max_pending (cs_pending s)" "distinct (map pending_key (items (cs_pending s)))"
    using ok by (simp_all add: cs_ok_def)
  show ?thesis
  proof (cases "position (same_obligation k q) (items (cs_pending s))")
    case None
    then have "resolve_pending s k q = (s, False)"
      by (simp add: resolve_pending_def Let_def items_take [OF pd(1), symmetric])
    moreover have "(k, q) \<notin> open_keys s"
      using None by (auto simp: position_None_iff same_obligation_key open_keys_def)
    ultimately show ?thesis using ok by simp
  next
    case (Some pos)
    then have pos: "pos < length (items (cs_pending s))"
      "pending_key (items (cs_pending s) ! pos) = (k, q)"
      by (auto simp: position_Some_iff same_obligation_key)
    have "map pending_key (items (remove_at (cs_pending s) pos)) =
        take pos (map pending_key (items (cs_pending s))) @
        drop (Suc pos) (map pending_key (items (cs_pending s)))"
      by (simp add: items_remove [OF pd(1) pos(1)] take_map drop_map)
    then have "distinct (map pending_key (items (remove_at (cs_pending s) pos)))"
      "set (map pending_key (items (remove_at (cs_pending s) pos))) = open_keys s - {(k, q)}"
      using distinct_remove [OF pd(2), of pos] pos by (auto simp: open_keys_def)
    moreover have "(k, q) \<in> open_keys s"
      using pos by (auto simp: open_keys_def intro!: image_eqI [of _ _ "items (cs_pending s) ! pos"])
    ultimately show ?thesis using ok Some bounded_ok_remove [OF pd(1) pos(1)]
      by (simp add: resolve_pending_def Let_def items_take [OF pd(1), symmetric] cs_ok_def open_keys_def)
  qed
qed

lemma compact_apply_effect:
  assumes ok: "cs_ok s"
  shows "cs_ok (compact_apply op s) \<and> ruled_out s \<subseteq> ruled_out (compact_apply op s) \<and>
    open_keys s - {(k, q) | k q. op = Op_Resolve k q} \<subseteq> open_keys (compact_apply op s)"
proof (cases op)
  case (Op_Compact fs p)
  obtain s' r where run: "compact fs p s = (s', r)" by (cases "compact fs p s")
  with compact_effect [OF ok run] have "extends s s'" by simp
  with extends_keeps [OF this] run Op_Compact show ?thesis by (auto simp: extends_def)
next
  case (Op_Failed p)
  show ?thesis
  proof (cases "record_failed_path s p")
    case (Inr s')
    with record_failed_path_extends [OF ok this] have "extends s s'" by simp
    with extends_keeps [OF this] Inr Op_Failed show ?thesis by (auto simp: extends_def or_same_def)
  qed (use Op_Failed ok in \<open>auto simp: or_same_def\<close>)
next
  case (Op_Pending i)
  show ?thesis
  proof (cases "record_pending s i")
    case (Inr s')
    with record_pending_extends [OF ok this] have "extends s s'" by simp
    with extends_keeps [OF this] Inr Op_Pending show ?thesis by (auto simp: extends_def or_same_def)
  qed (use Op_Pending ok in \<open>auto simp: or_same_def\<close>)
next
  case (Op_Resolve k q)
  then show ?thesis using resolve_pending_effect [OF ok, of k q] by (auto simp: ruled_out_def)
qed (use ok in \<open>auto simp: record_unrelated ruled_out_def open_keys_def record_completed_ok
      record_open_ok record_decision_ok record_fact_ok record_fingerprint_ok note_truncated_ok\<close>)

fun compact_run :: "compact_op list \<Rightarrow> compact_state \<Rightarrow> compact_state" where
  "compact_run [] s = s"
| "compact_run (op # ops) s = compact_run ops (compact_apply op s)"

lemma compact_run_effect:
  "cs_ok s \<Longrightarrow> cs_ok (compact_run ops s) \<and> ruled_out s \<subseteq> ruled_out (compact_run ops s) \<and>
    open_keys s - {(k, q) | k q. Op_Resolve k q \<in> set ops} \<subseteq> open_keys (compact_run ops s)"
proof (induction ops arbitrary: s)
  case (Cons op ops)
  note step = compact_apply_effect [OF Cons.prems, of op]
  then have "cs_ok (compact_apply op s)" by simp
  note rest = Cons.IH [OF this]
  show ?case using step rest by auto
qed simp

section \<open>Continuations\<close>

datatype lineage_op = Spend budget_op | Continue lineage

fun lineage_step :: "lineage_op \<Rightarrow> compact_state \<Rightarrow> error + compact_state" where
  "lineage_step (Spend op) s =
     and_then (budget_step op (cs_budgets s)) (\<lambda>b. Inr (s\<lparr>cs_budgets := b\<rparr>))"
| "lineage_step (Continue l) s = and_then (continue_as_new s l) (\<lambda>c. Inr (ct_state c))"

interpretation lineage_narrows:
  never_widens "\<lambda>a b. grants_le (cs_budgets a) (cs_budgets b)" lineage_step
proof unfold_locales
  fix x :: lineage_op and s s'
  assume "lineage_step x s = Inr s'"
  then show "grants_le (cs_budgets s') (cs_budgets s)"
    by (cases x) (auto simp: result_simps continue_as_new_def check_no_widen_iff
        intro: budget_narrows.step_within)
qed (auto intro: grants_le_trans)

lemma lineage_step_memory:
  "lineage_step x s = Inr s' \<Longrightarrow> \<exists>b. s' = s\<lparr>cs_budgets := b\<rparr>"
  by (cases x) (auto simp: result_simps continue_as_new_def)

lemma lineage_run_memory:
  "run_steps lineage_step ops s = Inr s' \<Longrightarrow> \<exists>b. s' = s\<lparr>cs_budgets := b\<rparr>"
proof (induction ops arbitrary: s)
  case Nil
  then show ?case by (intro exI [of _ "cs_budgets s"]) simp
next
  case (Cons op ops)
  then show ?case by (fastforce simp: result_simps dest!: lineage_step_memory)
qed

section \<open>Properties\<close>

text \<open>C17: Negative knowledge and obligations are never dropped. Whatever a run does to its compact state,
  failing operations included, every ruled-out path stays recorded, and every open obligation
  stays open until \<open>resolve_pending\<close> is called for exactly its kind and sequence number; the
  state stays within its capacities and free of duplicates.\<close>

theorem never_drop:
  "cs_ok (compact_run (ops1 @ ops2) (compact_state_new d b v)) \<and>
   ruled_out (compact_run ops1 (compact_state_new d b v))
     \<subseteq> ruled_out (compact_run (ops1 @ ops2) (compact_state_new d b v)) \<and>
   open_keys (compact_run ops1 (compact_state_new d b v))
     - {(k, q) | k q. Op_Resolve k q \<in> set ops2}
     \<subseteq> open_keys (compact_run (ops1 @ ops2) (compact_state_new d b v))"
proof -
  have split: "compact_run (ops1 @ ops2) s = compact_run ops2 (compact_run ops1 s)" for s
    by (induction ops1 arbitrary: s) auto
  have "cs_ok (compact_run ops1 (compact_state_new d b v))"
    using compact_run_effect [OF cs_ok_new] by blast
  from compact_run_effect [OF this, of ops2] show ?thesis by (simp only: split)
qed

text \<open>A state and a failed frame for the instances below.\<close>

definition sample_state :: compact_state where
  "sample_state = compact_state_new (Digest 1)
     \<lparr>b_model_turns = 3, b_input_tokens = 10, b_output_tokens = 9, b_elapsed_ms = 5,
      b_radio_bytes = 0, b_mutations = 1, b_consecutive_errors = 0\<rparr>
     \<lparr>v_workflow = 1, v_model = Digest 2, v_catalog = Digest 3, v_policy = Digest 4\<rparr>"

definition sample_frame :: frame_summary where
  "sample_frame =
     \<lparr>fr_seq = 7, fr_kind = K_ToolObservation, fr_tool = ToolId 2, fr_args_digest = Digest 9,
      fr_outcome = O_Failed C_Permanent, fr_progress = P_SubgoalClosed, fr_payload = [1, 2],
      fr_pending_approval = True, fr_pending_verification = False\<rparr>"

text \<open>C33: a continuation never widens the run. Along any chain of spending steps and \<open>continue_as_new\<close>
  boundaries, no unit of the budget that a run is guarded by (turns, input and output tokens, time, radio
  bytes, mutations) is ever above what the first run had, and everything else in the compact state
  (ruled-out paths, obligations, facts, fingerprints, versions, objective) rides along untouched.\<close>

theorem continuation_never_widens:
  assumes "run_steps lineage_step ops s = Inr s'"
  shows "b_model_turns (cs_budgets s') \<le> b_model_turns (cs_budgets s) \<and>
    b_input_tokens (cs_budgets s') \<le> b_input_tokens (cs_budgets s) \<and>
    b_output_tokens (cs_budgets s') \<le> b_output_tokens (cs_budgets s) \<and>
    b_elapsed_ms (cs_budgets s') \<le> b_elapsed_ms (cs_budgets s) \<and>
    b_radio_bytes (cs_budgets s') \<le> b_radio_bytes (cs_budgets s) \<and>
    b_mutations (cs_budgets s') \<le> b_mutations (cs_budgets s) \<and>
    s' = s\<lparr>cs_budgets := cs_budgets s'\<rparr>"
  using lineage_narrows.run_within [OF assms] lineage_run_memory [OF assms]
  by (auto simp: grants_le_def)

theorem continuation_never_widens_witness:
  "\<exists>s'. run_steps lineage_step
      [Spend Turn, Continue \<lparr>li_parent_run = RunId 1, li_continued_at_frame = 4,
         li_budgets_remaining = (cs_budgets sample_state)\<lparr>b_model_turns := 1\<rparr>,
         li_versions = cs_versions sample_state\<rparr>] sample_state = Inr s' \<and>
    b_model_turns (cs_budgets s') = 1 \<and> b_mutations (cs_budgets s') \<le> b_mutations (cs_budgets sample_state)"
proof -
  let ?ops = "[Spend Turn, Continue \<lparr>li_parent_run = RunId 1, li_continued_at_frame = 4,
         li_budgets_remaining = (cs_budgets sample_state)\<lparr>b_model_turns := 1\<rparr>,
         li_versions = cs_versions sample_state\<rparr>]"
  have run: "run_steps lineage_step ?ops sample_state =
      Inr (sample_state\<lparr>cs_budgets := (cs_budgets sample_state)\<lparr>b_model_turns := 1\<rparr>\<rparr>)"
    by (simp add: sample_state_def compact_state_new_def consume_turn_def checked_sub_def
        continue_as_new_def check_no_widen_def)
  from continuation_never_widens [OF run] run show ?thesis by simp
qed

text \<open>Folding the same window twice is not idempotent: a closed subgoal is noted once per fold.\<close>

lemma refold_repeats_subgoal:
  "let once = fst (compact [sample_frame] default_policy sample_state);
       twice = fst (compact [sample_frame] default_policy once)
   in length (items (cs_completed once)) = 1 \<and> length (items (cs_completed twice)) = 2"
  by (simp add: compact_def Let_def compact_frame_def stage_def record_failure_def
      record_obligation_def frame_failure_def sample_frame_def record_failed_path_def
      record_pending_def sample_state_def compact_state_new_def bounded_new_def
      record_fingerprint_def push_bounded_def max_defs record_knowledge_def record_completed_def
      items_def slice_def same_obligation_def frame_obligation_def saturating_add_def)

end
