(* ===== verification/Compact_Fold.thy ===== *)
theory Compact_Fold
  imports Compact "HOL-Library.Sublist"
begin

text \<open>
  What a compaction folds (\<open>compact\<close> of \<open>esper-core/src/compact.rs\<close>), against a specification over plain
  lists: the paths, obligations, facts, notes, decisions and fingerprints each frame contributes, how
  each store takes them, and when the never-drop stores have no room.
\<close>

section \<open>What a frame contributes\<close>

definition paths_of :: "frame_summary \<Rightarrow> failed_path list" where
  "paths_of f =
     (case fr_outcome f of
        O_Ok \<Rightarrow> []
      | O_Failed e \<Rightarrow> [\<lparr>fp_tool = fr_tool f, fp_args_digest = fr_args_digest f, fp_error = e\<rparr>])"

definition obligations_of :: "frame_summary \<Rightarrow> pending_item list" where
  "obligations_of f =
     (if fr_pending_approval f
      then [\<lparr>pd_kind = Pd_Approval, pd_seq = fr_seq f, pd_digest = digest_of_bytes (fr_payload f)\<rparr>] else []) @
     (if fr_pending_verification f
      then [\<lparr>pd_kind = Pd_Verification, pd_seq = fr_seq f, pd_digest = digest_of_bytes (fr_payload f)\<rparr>] else [])"

definition facts_of :: "frame_summary \<Rightarrow> (bytes \<times> u32) list" where
  "facts_of f = (if fr_progress f = P_NewEvidence \<and> fr_outcome f = O_Ok then [(take 64 (fr_payload f), fr_seq f)] else [])"

definition notes_of :: "frame_summary \<Rightarrow> bytes list" where
  "notes_of f = (if fr_progress f = P_SubgoalClosed then [take 64 (fr_payload f)] else [])"

definition decisions_of :: "frame_summary \<Rightarrow> digest list" where
  "decisions_of f = (if fr_kind f = K_ModelDecision then [fr_args_digest f] else [])"

text \<open>A store that never drops takes what it does not hold yet; one that keeps the recent takes it and
  keeps the last few.\<close>

definition add_new :: "('a \<Rightarrow> 'k) \<Rightarrow> 'a list \<Rightarrow> 'a \<Rightarrow> 'a list" where
  "add_new key xs x = (if key x \<in> key ` set xs then xs else xs @ [x])"

definition add_recent :: "nat \<Rightarrow> 'a list \<Rightarrow> 'a \<Rightarrow> 'a list" where
  "add_recent n xs x = (if x \<in> set xs then xs else lastn n (xs @ [x]))"

text \<open>The content of a state.\<close>

definition fact_view :: "fact \<Rightarrow> bytes \<times> u32" where
  "fact_view f = (note_as_bytes (f_text f), f_source_seq f)"

definition facts_in :: "compact_state \<Rightarrow> (bytes \<times> u32) list" where
  "facts_in s = map fact_view (items (cs_facts s))"

definition notes_in :: "compact_state \<Rightarrow> bytes list" where
  "notes_in s = map note_as_bytes (items (cs_completed s))"

definition paths_after :: "compact_state \<Rightarrow> frame_summary list \<Rightarrow> failed_path list" where
  "paths_after s fs = foldl (add_new id) (items (cs_failed s)) (concat (map paths_of fs))"

definition obligations_after :: "compact_state \<Rightarrow> frame_summary list \<Rightarrow> pending_item list" where
  "obligations_after s fs = foldl (add_new pending_key) (items (cs_pending s)) (concat (map obligations_of fs))"

section \<open>The stages of a frame\<close>

lemma add_new_grows: "length xs \<le> length (foldl (add_new key) xs ys)"
proof (induction ys arbitrary: xs)
  case (Cons y ys)
  have "length xs \<le> length (add_new key xs y)" by (simp add: add_new_def)
  also have "\<dots> \<le> length (foldl (add_new key) xs (y # ys))" using Cons.IH by simp
  finally show ?case .
qed simp

lemma failure_stage:
  assumes "cs_ok s"
  shows "case record_failure f s of
      Inl e \<Rightarrow> 16 < length (paths_after s [f])
    | Inr s' \<Rightarrow> cs_ok s' \<and> items (cs_failed s') = paths_after s [f] \<and> s' = s\<lparr>cs_failed := cs_failed s'\<rparr>"
proof (cases "fr_outcome f")
  case O_Ok
  then show ?thesis using assms by (simp add: record_failure_def frame_failure_def paths_after_def paths_of_def)
next
  case (O_Failed e)
  let ?p = "\<lparr>fp_tool = fr_tool f, fp_args_digest = fr_args_digest f, fp_error = e\<rparr>"
  have r: "record_failure f s = record_failed_path s ?p" by (simp add: record_failure_def frame_failure_def O_Failed)
  have after: "paths_after s [f] = (if ?p \<in> set (items (cs_failed s)) then items (cs_failed s) else items (cs_failed s) @ [?p])"
    by (simp add: paths_after_def paths_of_def O_Failed add_new_def)
  show ?thesis
  proof (cases "record_failed_path s ?p")
    case (Inl e')
    then show ?thesis using record_failed_path_result [OF assms, of ?p] after r by (auto simp: max_defs split: if_splits)
  next
    case (Inr s')
    then show ?thesis
      using record_failed_path_ok [OF assms Inr] record_failed_path_items [OF assms Inr] record_failed_path_result [OF assms, of ?p] after r
      by (auto split: if_splits)
  qed
qed

lemma obligation_stage:
  assumes "cs_ok s"
  shows "case record_obligation opened k f s of
      Inl e \<Rightarrow> 8 < length (foldl (add_new pending_key) (items (cs_pending s)) (if opened then [frame_obligation k f] else []))
    | Inr s' \<Rightarrow> cs_ok s' \<and>
        items (cs_pending s') = foldl (add_new pending_key) (items (cs_pending s)) (if opened then [frame_obligation k f] else []) \<and>
        s' = s\<lparr>cs_pending := cs_pending s'\<rparr>"
proof (cases opened)
  case True
  show ?thesis
  proof (cases "record_pending s (frame_obligation k f)")
    case (Inl e)
    then show ?thesis using True record_pending_result [OF assms, of "frame_obligation k f"]
      by (auto simp: record_obligation_def add_new_def max_defs split: if_splits)
  next
    case (Inr s')
    then show ?thesis
      using True record_pending_ok [OF assms Inr] record_pending_items [OF assms Inr]
        record_pending_result [OF assms, of "frame_obligation k f"]
      by (auto simp: record_obligation_def add_new_def split: if_splits)
  qed
qed (use assms in \<open>simp add: record_obligation_def\<close>)

lemma note_inj: "note_ok a \<Longrightarrow> note_ok b \<Longrightarrow> note_as_bytes a = note_as_bytes b \<Longrightarrow> a = b"
  using note_from_as_bytes by (metis sum.inject(2))

lemma fact_taken:
  assumes "cs_ok s"
  shows "facts_in (record_fact s \<lparr>f_text = note_truncated_from bs, f_source_seq = q\<rparr>) = add_recent 16 (facts_in s) (take 64 bs, q)"
proof -
  let ?f = "\<lparr>f_text = note_truncated_from bs, f_source_seq = q\<rparr>"
  have view: "fact_view ?f = (take 64 bs, q)" by (simp add: fact_view_def note_truncated_bytes note_max_def)
  have "?f \<in> set (items (cs_facts s)) \<longleftrightarrow> fact_view ?f \<in> fact_view ` set (items (cs_facts s))"
  proof
    assume "fact_view ?f \<in> fact_view ` set (items (cs_facts s))"
    then obtain g where g: "g \<in> set (items (cs_facts s))" "fact_view ?f = fact_view g" by blast
    then have "note_ok (f_text g)" using assms by (auto simp: cs_ok_def list_all_iff)
    then have "f_text g = note_truncated_from bs" using g(2) note_inj [OF _ note_truncated_ok] by (simp add: fact_view_def)
    then have "?f = g" using g(2) by (cases g) (simp add: fact_view_def)
    then show "?f \<in> set (items (cs_facts s))" using g(1) by simp
  qed simp
  then show ?thesis
    using record_fact_items [OF assms, of ?f]
    by (simp add: facts_in_def add_recent_def view [symmetric] lastn_def drop_map max_defs)
qed

lemma knowledge_stage:
  assumes "cs_ok s"
  shows "cs_ok (record_knowledge s f)"
    "facts_in (record_knowledge s f) = foldl (add_recent 16) (facts_in s) (facts_of f)"
    "notes_in (record_knowledge s f) = lastn 8 (notes_in s @ notes_of f)"
    "items (cs_accepted (record_knowledge s f)) = lastn 8 (items (cs_accepted s) @ decisions_of f)"
    "cs_failed (record_knowledge s f) = cs_failed s" "cs_pending (record_knowledge s f) = cs_pending s"
    "cs_fingerprints (record_knowledge s f) = cs_fingerprints s"
proof -
  have len: "length (items (cs_completed s)) \<le> 8" "length (items (cs_accepted s)) \<le> 8"
    using assms length_items_le [of 8 "cs_completed s"] length_items_le [of 8 "cs_accepted s"] by (auto simp: cs_ok_def max_defs)
  have pushed: "items (push_bounded (cs_completed s) n) = lastn 8 (items (cs_completed s) @ [n])"
    "items (push_bounded (cs_accepted s) d) = lastn 8 (items (cs_accepted s) @ [d])" for n d
    using assms items_push [of 8 "cs_completed s"] items_push [of 8 "cs_accepted s"] by (auto simp: cs_ok_def max_defs)
  have noted: "map note_as_bytes (lastn 8 (xs @ [note_truncated_from bs])) = lastn 8 (map note_as_bytes xs @ [take 64 bs])" for xs bs
    by (simp add: lastn_def drop_map note_truncated_bytes note_max_def)
  show "cs_ok (record_knowledge s f)" using record_knowledge_extends [OF assms] by (simp add: extends_def)
  show "facts_in (record_knowledge s f) = foldl (add_recent 16) (facts_in s) (facts_of f)"
    using fact_taken [OF assms]
    by (simp add: record_knowledge_def Let_def facts_of_def) (simp add: record_decision_def record_completed_def facts_in_def)
  show "notes_in (record_knowledge s f) = lastn 8 (notes_in s @ notes_of f)"
    using len by (auto simp: record_knowledge_def Let_def notes_in_def notes_of_def record_decision_def record_completed_def
        record_fact_def pushed lastn_def drop_map note_truncated_bytes note_max_def)
  show "items (cs_accepted (record_knowledge s f)) = lastn 8 (items (cs_accepted s) @ decisions_of f)"
    using len by (auto simp: record_knowledge_def Let_def decisions_of_def record_decision_def record_completed_def
        record_fact_def pushed lastn_def)
  show "cs_failed (record_knowledge s f) = cs_failed s" "cs_pending (record_knowledge s f) = cs_pending s"
    "cs_fingerprints (record_knowledge s f) = cs_fingerprints s"
    by (simp_all add: record_knowledge_def Let_def record_decision_def record_completed_def record_fact_def)
qed

section \<open>One frame and all of them\<close>

definition folded :: "compact_state \<Rightarrow> frame_summary list \<Rightarrow> compact_state \<Rightarrow> bool" where
  "folded s fs s' \<longleftrightarrow> cs_ok s' \<and>
     items (cs_failed s') = paths_after s fs \<and> items (cs_pending s') = obligations_after s fs \<and>
     facts_in s' = foldl (add_recent 16) (facts_in s) (concat (map facts_of fs)) \<and>
     notes_in s' = lastn 8 (notes_in s @ concat (map notes_of fs)) \<and>
     items (cs_accepted s') = lastn 8 (items (cs_accepted s) @ concat (map decisions_of fs)) \<and>
     items (cs_fingerprints s') = lastn 16 (items (cs_fingerprints s) @ map event_fingerprint fs)"

lemma folded_none: "cs_ok s \<Longrightarrow> folded s [] s"
  using length_items_le [of max_completed "cs_completed s"] length_items_le [of max_accepted_decisions "cs_accepted s"]
    length_items_le [of max_fingerprints "cs_fingerprints s"]
  by (simp add: folded_def paths_after_def obligations_after_def cs_ok_def lastn_def notes_in_def max_defs)

lemma folded_append: "folded s fs t \<Longrightarrow> folded t gs u \<Longrightarrow> folded s (fs @ gs) u"
  by (simp add: folded_def paths_after_def obligations_after_def lastn_lastn_append)

definition overfull :: "compact_state \<Rightarrow> frame_summary list \<Rightarrow> bool" where
  "overfull s fs \<longleftrightarrow> 16 < length (paths_after s fs) \<or> 8 < length (obligations_after s fs)"

lemma overfull_append: "overfull s fs \<Longrightarrow> overfull s (fs @ gs)"
  by (auto simp: overfull_def paths_after_def obligations_after_def intro: less_le_trans [OF _ add_new_grows])

lemma overfull_folded: "folded s fs t \<Longrightarrow> overfull t gs \<Longrightarrow> overfull s (fs @ gs)"
  by (simp add: folded_def overfull_def paths_after_def obligations_after_def)

lemma folded_fits: "folded s fs t \<Longrightarrow> \<not> overfull s fs"
  using length_items_le [of max_failed_paths "cs_failed t"] length_items_le [of max_pending "cs_pending t"]
  by (simp add: folded_def overfull_def cs_ok_def max_defs)

lemma frame_folded:
  assumes "cs_ok s"
  shows "case compact_frame f s of
      (s', Inl e) \<Rightarrow> overfull s [f]
    | (s', Inr u) \<Rightarrow> folded s [f] s'"
proof -
  define s1 where "s1 = record_fingerprint s (event_fingerprint f)"
  have s1: "cs_ok s1" "items (cs_fingerprints s1) = lastn 16 (items (cs_fingerprints s) @ [event_fingerprint f])"
    "cs_failed s1 = cs_failed s" "cs_pending s1 = cs_pending s" "cs_facts s1 = cs_facts s" "cs_completed s1 = cs_completed s"
    "cs_accepted s1 = cs_accepted s"
    using record_fingerprint_extends [OF assms, of "event_fingerprint f"] record_fingerprint_ok [OF assms, of "event_fingerprint f"]
    by (auto simp: s1_def record_fingerprint_def max_defs)
  have obl: "obligations_after s [f] =
      foldl (add_new pending_key) (foldl (add_new pending_key) (items (cs_pending s))
        (if fr_pending_approval f then [frame_obligation Pd_Approval f] else []))
        (if fr_pending_verification f then [frame_obligation Pd_Verification f] else [])"
    by (simp add: obligations_after_def obligations_of_def frame_obligation_def)
  have p1: "paths_after s1 [f] = paths_after s [f]" by (simp add: paths_after_def s1)
  show ?thesis
  proof (cases "record_failure f s1")
    case (Inl e)
    then show ?thesis using failure_stage [OF s1(1), of f] p1
      by (simp add: compact_frame_def s1_def [symmetric] stage_def overfull_def)
  next
    case s2: (Inr s2)
    have f2: "cs_ok s2" "items (cs_failed s2) = paths_after s [f]" "s2 = s1\<lparr>cs_failed := cs_failed s2\<rparr>"
      using failure_stage [OF s1(1), of f] p1 s2 by simp_all
    have k2: "cs_pending s2 = cs_pending s" "cs_facts s2 = cs_facts s" "cs_completed s2 = cs_completed s"
      "cs_accepted s2 = cs_accepted s" "cs_fingerprints s2 = cs_fingerprints s1"
      by (subst f2(3), simp add: s1)+
    show ?thesis
    proof (cases "record_obligation (fr_pending_approval f) Pd_Approval f s2")
      case (Inl e)
      then have "8 < length (foldl (add_new pending_key) (items (cs_pending s))
          (if fr_pending_approval f then [frame_obligation Pd_Approval f] else []))"
        using obligation_stage [OF f2(1), of "fr_pending_approval f" Pd_Approval f] k2 by simp
      then have "8 < length (obligations_after s [f])" unfolding obl using add_new_grows le_trans linorder_not_le by blast
      then show ?thesis using Inl s2 by (simp add: compact_frame_def s1_def [symmetric] stage_def overfull_def)
    next
      case s3: (Inr s3)
      have f3: "cs_ok s3" "items (cs_pending s3) = foldl (add_new pending_key) (items (cs_pending s))
          (if fr_pending_approval f then [frame_obligation Pd_Approval f] else [])" "s3 = s2\<lparr>cs_pending := cs_pending s3\<rparr>"
        using obligation_stage [OF f2(1), of "fr_pending_approval f" Pd_Approval f] k2 s3 by simp_all
      have k3: "cs_failed s3 = cs_failed s2" "cs_facts s3 = cs_facts s" "cs_completed s3 = cs_completed s"
        "cs_accepted s3 = cs_accepted s" "cs_fingerprints s3 = cs_fingerprints s1"
        by (subst f3(3), simp add: k2)+
      show ?thesis
      proof (cases "record_obligation (fr_pending_verification f) Pd_Verification f s3")
        case (Inl e)
        then have "8 < length (obligations_after s [f])"
          using obligation_stage [OF f3(1), of "fr_pending_verification f" Pd_Verification f] f3(2) obl by simp
        then show ?thesis using Inl s2 s3 by (simp add: compact_frame_def s1_def [symmetric] stage_def overfull_def)
      next
        case s4: (Inr s4)
        have f4: "cs_ok s4" "items (cs_pending s4) = obligations_after s [f]" "s4 = s3\<lparr>cs_pending := cs_pending s4\<rparr>"
          using obligation_stage [OF f3(1), of "fr_pending_verification f" Pd_Verification f] f3(2) obl s4 by simp_all
        have k4: "cs_failed s4 = cs_failed s2" "cs_facts s4 = cs_facts s" "cs_completed s4 = cs_completed s"
          "cs_accepted s4 = cs_accepted s" "cs_fingerprints s4 = cs_fingerprints s1"
          by (subst f4(3), simp add: k3)+
        have "facts_in s4 = facts_in s" "notes_in s4 = notes_in s" by (simp_all add: facts_in_def notes_in_def k4)
        then have "folded s [f] (record_knowledge s4 f)"
          using knowledge_stage [OF f4(1), of f] f4(2) f2(2) s1(2) k4 by (simp add: folded_def)
        then show ?thesis using s2 s3 s4 by (simp add: compact_frame_def s1_def [symmetric] stage_def)
      qed
    qed
  qed
qed

definition saved_by :: "nat \<Rightarrow> nat \<Rightarrow> frame_summary list \<Rightarrow> u64 \<Rightarrow> u64" where
  "saved_by compacted index fs saved =
     foldl (\<lambda>n f. saturating_add n (of_nat (length (fr_payload f)))) saved (take (compacted - index) fs)"

lemma frames_folded:
  assumes "cs_ok s"
  shows "case compact_frames compacted index fs s saved of
      (s', Inl e) \<Rightarrow> overfull s fs
    | (s', Inr n) \<Rightarrow> folded s fs s' \<and> n = saved_by compacted index fs saved"
  using assms
proof (induction compacted index fs s saved rule: compact_frames.induct)
  case (1 compacted index s saved)
  then show ?case by (simp add: folded_none saved_by_def)
next
  case (2 compacted index f fs s saved)
  obtain t q where step: "compact_frame f s = (t, q)" by (cases "compact_frame f s")
  note one = frame_folded [OF "2.prems", of f, unfolded step]
  show ?case
  proof (cases q)
    case (Inl e)
    then show ?thesis using one overfull_append [of s "[f]" fs] step by simp
  next
    case (Inr u)
    then have t: "folded s [f] t" "cs_ok t" using one by (simp_all add: folded_def)
    let ?saved = "if index < compacted then saturating_add saved (of_nat (length (fr_payload f))) else saved"
    have saved: "saved_by compacted (Suc index) fs ?saved = saved_by compacted index (f # fs) saved"
      by (cases "compacted - index") (auto simp: saved_by_def Suc_diff_Suc [symmetric] diff_Suc split: nat.splits)
    obtain s' p where rest: "compact_frames compacted (Suc index) fs t ?saved = (s', p)" by fastforce
    have ih: "case p of Inl e \<Rightarrow> overfull t fs | Inr n \<Rightarrow> folded t fs s' \<and> n = saved_by compacted (Suc index) fs ?saved"
      using "2.IH" [OF step [symmetric] Inr t(2)] by (simp only: rest prod.case)
    have whole: "compact_frames compacted index (f # fs) s saved = (s', p)"
      by (simp only: compact_frames.simps step Inr prod.case sum.case rest)
    show ?thesis using ih overfull_folded [OF t(1), of fs] folded_append [OF t(1), of fs]
      unfolding whole saved by (cases p) simp_all
  qed
qed

section \<open>Property\<close>



end
