(* ===== verification/Contract.thy ===== *)
theory Contract
  imports Vocabulary
begin

text \<open>
  The tool catalog (\<open>esper-protocol/src/contract.rs\<close>): permission classes, argument kinds, the six
  contracts and the two lookups. The lemmas show that ids and names identify a contract and
  that no contract carries a permission class without a grant path.
\<close>

section \<open>Contracts\<close>

datatype permission_class =
    Perm_ReadOnly | Perm_IdempotentWrite | Perm_SensitiveWrite | Perm_Irreversible

fun permission_class_name :: "permission_class \<Rightarrow> string" where
  "permission_class_name Perm_ReadOnly = ''read_only''"
| "permission_class_name Perm_IdempotentWrite = ''idempotent_write''"
| "permission_class_name Perm_SensitiveWrite = ''sensitive_write''"
| "permission_class_name Perm_Irreversible = ''irreversible''"

datatype verification_strategy = Ver_None | Ver_ReadBack

fun verification_strategy_name :: "verification_strategy \<Rightarrow> string" where
  "verification_strategy_name Ver_None = ''none''"
| "verification_strategy_name Ver_ReadBack = ''read_back''"

datatype idempotency_strategy = Idem_NotApplicable | Idem_SetOperation

fun idempotency_strategy_name :: "idempotency_strategy \<Rightarrow> string" where
  "idempotency_strategy_name Idem_NotApplicable = ''n/a''"
| "idempotency_strategy_name Idem_SetOperation = ''set_operation''"

datatype arg_kind =
    Arg_U8 u8 u8
  | Arg_U16 u16 u16
  | Arg_Enum "string list"

record arg_spec =
  as_name :: string
  as_kind :: arg_kind
  as_required :: bool

record tool_contract =
  tc_id :: u8
  tc_name :: string
  tc_schema_version :: u8
  tc_permission :: permission_class
  tc_verification :: verification_strategy
  tc_idempotency :: idempotency_strategy
  tc_result_bound :: u16
  tc_description :: string
  tc_args :: "arg_spec list"
  tc_example_ok :: string
  tc_example_bad :: "string list"

definition schema_version :: u8 where "schema_version = 1"

definition catalog :: "tool_contract list" where
  "catalog =
     [\<lparr>tc_id = 1, tc_name = ''gpio_pin_read'', tc_schema_version = schema_version,
       tc_permission = Perm_ReadOnly, tc_verification = Ver_None, tc_idempotency = Idem_NotApplicable,
       tc_result_bound = 64, tc_description = ''Read the logic level of a GPIO pin.'',
       tc_args =
         [\<lparr>as_name = ''pin'', as_kind = Arg_U8 0 7, as_required = True\<rparr>],
       tc_example_ok = ''{\"pin\":3}'',
       tc_example_bad =
         [''{\"pin\":\"3\"}'',
          ''{\"pin\":8}'',
          ''{}'',
          ''{\"pin\":3,\"level\":\"high\"}'',
          ''{\"pin\":-1}'']\<rparr>,
      \<lparr>tc_id = 2, tc_name = ''gpio_pin_write'', tc_schema_version = schema_version,
       tc_permission = Perm_IdempotentWrite, tc_verification = Ver_ReadBack, tc_idempotency = Idem_SetOperation,
       tc_result_bound = 64, tc_description = ''Set the logic level of a GPIO pin. Re-dispatch is safe (set-operation).'',
       tc_args =
         [\<lparr>as_name = ''pin'', as_kind = Arg_U8 0 7, as_required = True\<rparr>,
          \<lparr>as_name = ''level'', as_kind = Arg_Enum [''low'', ''high''], as_required = True\<rparr>],
       tc_example_ok = ''{\"pin\":4,\"level\":\"high\"}'',
       tc_example_bad =
         [''{\"pin\":4}'',
          ''{\"pin\":4,\"level\":\"HIGH\"}'',
          ''{\"pin\":9,\"level\":\"low\"}'',
          ''{\"pin\":4,\"level\":\"low\",\"extra\":1}'',
          ''{\"level\":\"high\",\"pin\":4,\"pin\":4}'']\<rparr>,
      \<lparr>tc_id = 3, tc_name = ''sensor_sample_read'', tc_schema_version = schema_version,
       tc_permission = Perm_ReadOnly, tc_verification = Ver_None, tc_idempotency = Idem_NotApplicable,
       tc_result_bound = 64, tc_description = ''Read one sensor channel. The value is the channel's fixed raw reading.'',
       tc_args =
         [\<lparr>as_name = ''sensor'', as_kind = Arg_U8 0 3, as_required = True\<rparr>],
       tc_example_ok = ''{\"sensor\":2}'',
       tc_example_bad =
         [''{}'',
          ''{\"sensor\":4}'',
          ''{\"sensor\":\"0\"}'',
          ''{\"pin\":0}'',
          ''{\"sensor\":1.5}'']\<rparr>,
      \<lparr>tc_id = 4, tc_name = ''timer_uptime_read'', tc_schema_version = schema_version,
       tc_permission = Perm_ReadOnly, tc_verification = Ver_None, tc_idempotency = Idem_NotApplicable,
       tc_result_bound = 64, tc_description = ''Read the monotonic uptime clock, in milliseconds.'',
       tc_args =
         [],
       tc_example_ok = ''{}'',
       tc_example_bad =
         [''{\"ms\":1}'',
          ''[]'',
          ''null'',
          ''{\"a\":1,\"b\":2,\"c\":3,\"d\":4,\"e\":5,\"f\":6,\"g\":7,\"h\":8,\"i\":9}'']\<rparr>,
      \<lparr>tc_id = 5, tc_name = ''timer_delay_wait'', tc_schema_version = schema_version,
       tc_permission = Perm_IdempotentWrite, tc_verification = Ver_ReadBack, tc_idempotency = Idem_SetOperation,
       tc_result_bound = 64, tc_description = ''Advance the virtual clock by the given milliseconds. Redelivery under the same effect id does not advance the clock twice.'',
       tc_args =
         [\<lparr>as_name = ''ms'', as_kind = Arg_U16 1 5000, as_required = True\<rparr>],
       tc_example_ok = ''{\"ms\":250}'',
       tc_example_bad =
         [''{\"ms\":0}'',
          ''{\"ms\":5001}'',
          ''{\"ms\":\"250\"}'',
          ''{}'',
          ''{\"ms\":100.5}'']\<rparr>,
      \<lparr>tc_id = 6, tc_name = ''device_status_report'', tc_schema_version = schema_version,
       tc_permission = Perm_ReadOnly, tc_verification = Ver_None, tc_idempotency = Idem_NotApplicable,
       tc_result_bound = 128, tc_description = ''Report device state. Summary is a small object; full adds pin and sensor detail.'',
       tc_args =
         [\<lparr>as_name = ''detail'', as_kind = Arg_Enum [''summary'', ''full''], as_required = True\<rparr>],
       tc_example_ok = ''{\"detail\":\"full\"}'',
       tc_example_bad =
         [''{}'',
          ''{\"detail\":\"verbose\"}'',
          ''{\"detail\":0}'',
          ''{\"detail\":\"summary\",\"x\":null}'']\<rparr>]"

definition contract_by_id :: "u8 \<Rightarrow> tool_contract option" where
  "contract_by_id i = List.find (\<lambda>e. tc_id e = i) catalog"

definition contract_by_name :: "string \<Rightarrow> tool_contract option" where
  "contract_by_name n = List.find (\<lambda>e. tc_name e = n) catalog"

section \<open>Lemmas\<close>

lemma catalog_ids: "map tc_id catalog = [1, 2, 3, 4, 5, 6]"
  by (simp add: catalog_def)

lemma catalog_names:
  "map tc_name catalog =
     [''gpio_pin_read'', ''gpio_pin_write'', ''sensor_sample_read'', ''timer_uptime_read'',
      ''timer_delay_wait'', ''device_status_report'']"
  by (simp add: catalog_def)

lemma catalog_permissions: "map tc_permission catalog =
    [Perm_ReadOnly, Perm_IdempotentWrite, Perm_ReadOnly, Perm_ReadOnly, Perm_IdempotentWrite, Perm_ReadOnly]"
  by (simp add: catalog_def)

lemma find_distinct_key:
  "distinct (map k xs) \<Longrightarrow> List.find (\<lambda>e. k e = i) xs = Some x \<longleftrightarrow> x \<in> set xs \<and> k x = i"
  by (induction xs) (auto simp: rev_image_eqI)

lemma contract_by_id_iff: "contract_by_id i = Some e \<longleftrightarrow> e \<in> set catalog \<and> tc_id e = i"
  unfolding contract_by_id_def by (rule find_distinct_key) (simp add: catalog_ids)

lemma contract_by_name_iff: "contract_by_name n = Some e \<longleftrightarrow> e \<in> set catalog \<and> tc_name e = n"
  unfolding contract_by_name_def by (rule find_distinct_key) (simp add: catalog_names)

lemma catalog_permission:
  assumes "e \<in> set catalog"
  shows "tc_permission e \<in> {Perm_ReadOnly, Perm_IdempotentWrite}"
proof -
  have "tc_permission e \<in> set (map tc_permission catalog)" using assms by simp
  then show ?thesis by (auto simp only: catalog_permissions list.set)
qed

end
