(* ===== verification/Registry.thy ===== *)
theory Registry
  imports Contract
begin

text \<open>
  The capability set and the policy gate (\<open>esper-core/src/registry.rs\<close>), with the dispatch shape of
  tool arguments that the gate reads (\<open>ToolArgs\<close> of \<open>esper-core/src/decision.rs\<close>). A counted set
  whose count exceeds its storage is malformed: it grants nothing and widens everything. The
  lemmas relate a capability set to the set of calls it grants.
\<close>

section \<open>Arguments and identifiers\<close>

datatype level = L_Low | L_High

fun level_name :: "level \<Rightarrow> string" where
  "level_name L_Low = ''low''"
| "level_name L_High = ''high''"

datatype status_detail = D_Summary | D_Full

datatype tool_args =
    GpioPinRead pin
  | GpioPinWrite pin level
  | SensorSampleRead u8
  | TimerUptimeRead
  | TimerDelayWait u16
  | DeviceStatusReport status_detail

definition gpio_pin_read_id :: u8 where "gpio_pin_read_id = 1"
definition gpio_pin_write_id :: u8 where "gpio_pin_write_id = 2"
definition sensor_sample_read_id :: u8 where "sensor_sample_read_id = 3"
definition timer_uptime_read_id :: u8 where "timer_uptime_read_id = 4"
definition timer_delay_wait_id :: u8 where "timer_delay_wait_id = 5"
definition device_status_report_id :: u8 where "device_status_report_id = 6"

lemmas tool_id_defs = gpio_pin_read_id_def gpio_pin_write_id_def sensor_sample_read_id_def
  timer_uptime_read_id_def timer_delay_wait_id_def device_status_report_id_def

definition lookup_by_id :: "tool_id \<Rightarrow> tool_contract option" where
  "lookup_by_id t = contract_by_id (tool_id_get t)"

text \<open>Catalog names are ASCII, so a byte string is some catalog name exactly when its bytes are the
  name's; a name that is not UTF-8 matches none of them.\<close>

definition lookup_by_name :: "bytes \<Rightarrow> tool_contract option" where
  "lookup_by_name n = List.find (\<lambda>e. str_bytes (tc_name e) = n) catalog"

section \<open>Counted sets\<close>

definition valid_set :: "u8 list \<Rightarrow> u8 \<Rightarrow> u8 list option" where
  "valid_set s count = slice s 0 (unat count)"

definition set_contains :: "u8 list \<Rightarrow> u8 \<Rightarrow> u8 \<Rightarrow> bool" where
  "set_contains s count v = (case valid_set s count of None \<Rightarrow> False | Some xs \<Rightarrow> v \<in> set xs)"

definition set_widens :: "u8 list \<Rightarrow> u8 \<Rightarrow> u8 list \<Rightarrow> u8 \<Rightarrow> bool" where
  "set_widens s count base base_count =
     (case (valid_set s count, valid_set base base_count) of
        (Some xs, Some ys) \<Rightarrow> list_ex (\<lambda>v. v \<notin> set ys) xs
      | _ \<Rightarrow> True)"

section \<open>Capabilities\<close>

definition max_pins_per_set :: nat where "max_pins_per_set = 8"
definition max_sensors_per_set :: nat where "max_sensors_per_set = 4"

record capabilities =
  c_read_pins :: "u8 list"
  c_read_count :: u8
  c_write_pins :: "u8 list"
  c_write_count :: u8
  c_sensors :: "u8 list"
  c_sensor_count :: u8
  c_allow_timer :: bool
  c_allow_status :: bool

definition capabilities_empty :: capabilities where
  "capabilities_empty =
     \<lparr>c_read_pins = replicate max_pins_per_set 0, c_read_count = 0,
      c_write_pins = replicate max_pins_per_set 0, c_write_count = 0,
      c_sensors = replicate max_sensors_per_set 0, c_sensor_count = 0,
      c_allow_timer = False, c_allow_status = False\<rparr>"

text \<open>The array types: the storage of each set has its fixed length.\<close>

definition capabilities_typed :: "capabilities \<Rightarrow> bool" where
  "capabilities_typed c \<longleftrightarrow>
     length (c_read_pins c) = max_pins_per_set \<and> length (c_write_pins c) = max_pins_per_set \<and>
     length (c_sensors c) = max_sensors_per_set"

definition can_read :: "capabilities \<Rightarrow> pin \<Rightarrow> bool" where
  "can_read c p = set_contains (c_read_pins c) (c_read_count c) (pin_get p)"

definition can_write :: "capabilities \<Rightarrow> pin \<Rightarrow> bool" where
  "can_write c p = set_contains (c_write_pins c) (c_write_count c) (pin_get p)"

definition can_sample :: "capabilities \<Rightarrow> u8 \<Rightarrow> bool" where
  "can_sample c v = set_contains (c_sensors c) (c_sensor_count c) v"

definition widens :: "capabilities \<Rightarrow> capabilities \<Rightarrow> bool" where
  "widens c base \<longleftrightarrow>
     set_widens (c_read_pins c) (c_read_count c) (c_read_pins base) (c_read_count base) \<or>
     set_widens (c_write_pins c) (c_write_count c) (c_write_pins base) (c_write_count base) \<or>
     set_widens (c_sensors c) (c_sensor_count c) (c_sensors base) (c_sensor_count base) \<or>
     c_allow_timer c \<and> \<not> c_allow_timer base \<or> c_allow_status c \<and> \<not> c_allow_status base"

section \<open>The policy gate\<close>

fun resource_of :: "tool_args \<Rightarrow> u8" where
  "resource_of (GpioPinRead p) = pin_get p"
| "resource_of (GpioPinWrite p _) = pin_get p"
| "resource_of (SensorSampleRead v) = v"
| "resource_of TimerUptimeRead = 0"
| "resource_of (TimerDelayWait _) = 0"
| "resource_of (DeviceStatusReport _) = 0"

definition granted :: "capabilities \<Rightarrow> u8 \<Rightarrow> tool_args \<Rightarrow> bool" where
  "granted caps i args =
     (case args of
        GpioPinRead p \<Rightarrow> i = gpio_pin_read_id \<and> can_read caps p
      | GpioPinWrite p _ \<Rightarrow> i = gpio_pin_write_id \<and> can_write caps p
      | SensorSampleRead v \<Rightarrow> i = sensor_sample_read_id \<and> can_sample caps v
      | TimerUptimeRead \<Rightarrow> i = timer_uptime_read_id \<and> c_allow_timer caps
      | TimerDelayWait _ \<Rightarrow> i = timer_delay_wait_id \<and> c_allow_timer caps
      | DeviceStatusReport _ \<Rightarrow> i = device_status_report_id \<and> c_allow_status caps)"

definition authorize :: "capabilities \<Rightarrow> tool_contract \<Rightarrow> tool_args \<Rightarrow> error + unit" where
  "authorize caps entry args =
     (if granted caps (tc_id entry) args \<and>
         tc_permission entry \<notin> {Perm_SensitiveWrite, Perm_Irreversible}
      then Inr ()
      else Inl (E_PermissionDenied (ToolId (tc_id entry)) (resource_of args)))"

section \<open>The set of calls a capability set grants\<close>

text \<open>The abstract value of a counted set. A \<open>Pin\<close> of the source is private and below eight, so the calls
  that can be made are those whose pins are; the calls granted are among them.\<close>

definition set_of :: "u8 list \<Rightarrow> u8 \<Rightarrow> u8 set" where
  "set_of s count = {v. set_contains s count v}"

definition pins_real :: "tool_args \<Rightarrow> bool" where
  "pins_real args = (case args of GpioPinRead p \<Rightarrow> pin_get p < 8 | GpioPinWrite p _ \<Rightarrow> pin_get p < 8 | _ \<Rightarrow> True)"

definition grants :: "capabilities \<Rightarrow> tool_args set" where
  "grants c = {args. pins_real args \<and> (\<exists>entry \<in> set catalog. authorize c entry args = Inr ())}"

text \<open>Entries of the pin sets that name no pin: no call can use them. \<open>True\<close> marks the write set.\<close>

definition stray_entries :: "capabilities \<Rightarrow> (bool \<times> u8) set" where
  "stray_entries c =
     {(w, v). 8 \<le> v \<and> v \<in> (if w then set_of (c_write_pins c) (c_write_count c) else set_of (c_read_pins c) (c_read_count c))}"

lemma set_widens_iff:
  "\<not> set_widens s n t m \<longleftrightarrow>
     unat n \<le> length s \<and> unat m \<le> length t \<and> set_of s n \<subseteq> set_of t m"
  by (auto simp: set_widens_def valid_set_def slice_def set_of_def set_contains_def list_ex_iff
      split: option.splits)

definition well_counted :: "capabilities \<Rightarrow> bool" where
  "well_counted c \<longleftrightarrow>
     unat (c_read_count c) \<le> length (c_read_pins c) \<and>
     unat (c_write_count c) \<le> length (c_write_pins c) \<and>
     unat (c_sensor_count c) \<le> length (c_sensors c)"

lemma entry_of_id:
  assumes "i \<in> {1, 2, 3, 4, 5, 6}"
  shows "\<exists>e \<in> set catalog. tc_id e = i"
proof -
  have "i \<in> set (map tc_id catalog)" using assms by (auto simp: catalog_ids)
  then show ?thesis by auto
qed

lemma grants_iff:
  "args \<in> grants c \<longleftrightarrow> pins_real args \<and>
     (case args of
        GpioPinRead p \<Rightarrow> pin_get p \<in> set_of (c_read_pins c) (c_read_count c)
      | GpioPinWrite p _ \<Rightarrow> pin_get p \<in> set_of (c_write_pins c) (c_write_count c)
      | SensorSampleRead v \<Rightarrow> v \<in> set_of (c_sensors c) (c_sensor_count c)
      | TimerUptimeRead \<Rightarrow> c_allow_timer c
      | TimerDelayWait _ \<Rightarrow> c_allow_timer c
      | DeviceStatusReport _ \<Rightarrow> c_allow_status c)"
  (is "_ \<longleftrightarrow> ?spec")
proof
  assume "args \<in> grants c"
  then show ?spec
    by (auto simp: grants_def authorize_def granted_def set_of_def can_read_def can_write_def
        can_sample_def split: if_splits tool_args.splits)
next
  define i where "i = (case args of GpioPinRead _ \<Rightarrow> gpio_pin_read_id | GpioPinWrite _ _ \<Rightarrow> gpio_pin_write_id
    | SensorSampleRead _ \<Rightarrow> sensor_sample_read_id | TimerUptimeRead \<Rightarrow> timer_uptime_read_id
    | TimerDelayWait _ \<Rightarrow> timer_delay_wait_id | DeviceStatusReport _ \<Rightarrow> device_status_report_id)"
  assume spec: ?spec
  then have ok: "granted c i args"
    by (auto simp: granted_def i_def set_of_def can_read_def can_write_def can_sample_def
        split: tool_args.splits)
  have "i \<in> {1, 2, 3, 4, 5, 6}" by (auto simp: i_def tool_id_defs split: tool_args.splits)
  then obtain e where e: "e \<in> set catalog" "tc_id e = i" using entry_of_id by blast
  then have "authorize c e args = Inr ()" using ok catalog_permission [OF e(1)]
    by (auto simp: authorize_def)
  with e spec show "args \<in> grants c" by (auto simp: grants_def)
qed

lemma widens_set_iff:
  "\<not> widens c base \<longleftrightarrow>
     well_counted c \<and> well_counted base \<and>
     set_of (c_read_pins c) (c_read_count c) \<subseteq> set_of (c_read_pins base) (c_read_count base) \<and>
     set_of (c_write_pins c) (c_write_count c) \<subseteq> set_of (c_write_pins base) (c_write_count base) \<and>
     set_of (c_sensors c) (c_sensor_count c) \<subseteq> set_of (c_sensors base) (c_sensor_count base) \<and>
     (c_allow_timer c \<longrightarrow> c_allow_timer base) \<and> (c_allow_status c \<longrightarrow> c_allow_status base)"
  unfolding widens_def de_Morgan_disj set_widens_iff well_counted_def by blast

section \<open>Properties\<close>

lemma pin_set_subset:
  assumes "\<And>v. v < 8 \<Longrightarrow> v \<in> A \<Longrightarrow> v \<in> B" "\<And>v. 8 \<le> v \<Longrightarrow> v \<in> A \<Longrightarrow> v \<in> (B :: u8 set)"
  shows "A \<subseteq> B"
  using assms by (meson not_less subsetI)

text \<open>C30: \<open>widens\<close> decides exactly what authority means. A capability set does not widen a baseline if
  and only if both are well counted, every call (with pins below eight, as every \<open>Pin\<close> is) that the gate
  authorizes under it for a tool of the catalog is authorized under the baseline, and the baseline also
  lists whatever entries of its pin sets name no pin and so grant nothing.\<close>

theorem widens_iff_grants:
  "\<not> widens c base \<longleftrightarrow>
     well_counted c \<and> well_counted base \<and> grants c \<subseteq> grants base \<and> stray_entries c \<subseteq> stray_entries base"
proof
  assume "\<not> widens c base"
  then show "well_counted c \<and> well_counted base \<and> grants c \<subseteq> grants base \<and> stray_entries c \<subseteq> stray_entries base"
    unfolding widens_set_iff by (auto simp: grants_iff stray_entries_def split: tool_args.splits if_splits)
next
  assume sub: "well_counted c \<and> well_counted base \<and> grants c \<subseteq> grants base \<and> stray_entries c \<subseteq> stray_entries base"
  then have g: "args \<in> grants c \<Longrightarrow> args \<in> grants base" and s: "x \<in> stray_entries c \<Longrightarrow> x \<in> stray_entries base" for args x
    by blast+
  have "set_of (c_read_pins c) (c_read_count c) \<subseteq> set_of (c_read_pins base) (c_read_count base)"
    using g [of "GpioPinRead (Pin v)" for v] s [of "(False, v)" for v]
    by (intro pin_set_subset) (auto simp: grants_iff pins_real_def stray_entries_def)
  moreover have "set_of (c_write_pins c) (c_write_count c) \<subseteq> set_of (c_write_pins base) (c_write_count base)"
    using g [of "GpioPinWrite (Pin v) L_Low" for v] s [of "(True, v)" for v]
    by (intro pin_set_subset) (auto simp: grants_iff pins_real_def stray_entries_def)
  ultimately show "\<not> widens c base"
    using g [of "SensorSampleRead v" for v] g [of TimerUptimeRead] g [of "DeviceStatusReport D_Full"] sub
    unfolding widens_set_iff by (auto simp: grants_iff pins_real_def)
qed

text \<open>What a counted list holds: its first \<open>count\<close> entries, and nothing when it has fewer.\<close>

definition listed :: "u8 list \<Rightarrow> u8 \<Rightarrow> u8 set" where
  "listed s count = (if unat count \<le> length s then set (take (unat count) s) else {})"

lemma contains_listed: "set_contains s count v \<longleftrightarrow> v \<in> listed s count"
  by (auto simp: set_contains_def valid_set_def slice_def listed_def)

text \<open>C31: the gate grants a call of a tool of the catalog exactly when the arguments are of that tool and
  the capability set holds what they use: the pin in the read or the write set, the sensor in the sample
  set, the timer or the status flag. A set whose count exceeds its storage grants nothing. Every other
  call is denied with the error that names the tool and the pin, sensor or, for the rest, zero.\<close>

theorem authorize_exactly_capabilities:
  assumes "contract_by_id i = Some entry"
  shows "(authorize caps entry args = Inr () \<longleftrightarrow>
      (case args of
         GpioPinRead p \<Rightarrow> i = 1 \<and> pin_get p \<in> listed (c_read_pins caps) (c_read_count caps)
       | GpioPinWrite p l \<Rightarrow> i = 2 \<and> pin_get p \<in> listed (c_write_pins caps) (c_write_count caps)
       | SensorSampleRead v \<Rightarrow> i = 3 \<and> v \<in> listed (c_sensors caps) (c_sensor_count caps)
       | TimerUptimeRead \<Rightarrow> i = 4 \<and> c_allow_timer caps
       | TimerDelayWait ms \<Rightarrow> i = 5 \<and> c_allow_timer caps
       | DeviceStatusReport d \<Rightarrow> i = 6 \<and> c_allow_status caps)) \<and>
    (authorize caps entry args \<noteq> Inr () \<longrightarrow>
      authorize caps entry args = Inl (E_PermissionDenied (ToolId i)
        (case args of GpioPinRead p \<Rightarrow> pin_get p | GpioPinWrite p l \<Rightarrow> pin_get p | SensorSampleRead v \<Rightarrow> v | _ \<Rightarrow> 0)))"
proof -
  have entry: "tc_id entry = i" "tc_permission entry \<notin> {Perm_SensitiveWrite, Perm_Irreversible}"
    using assms catalog_permission [of entry] by (auto simp: contract_by_id_iff)
  show ?thesis
    using entry by (cases args) (auto simp: authorize_def granted_def tool_id_defs can_read_def can_write_def can_sample_def contains_listed)
qed

theorem authorize_exactly_capabilities_witness:
  "authorize (capabilities_empty\<lparr>c_read_pins := [3, 0, 0, 0, 0, 0, 0, 0], c_read_count := 1\<rparr>) (hd catalog)
     (GpioPinRead (Pin 3)) = Inr () \<and>
   authorize (capabilities_empty\<lparr>c_read_pins := [3, 0, 0, 0, 0, 0, 0, 0], c_read_count := 9\<rparr>) (hd catalog)
     (GpioPinRead (Pin 3)) = Inl (E_PermissionDenied (ToolId 1) 3)"
proof -
  have entry: "contract_by_id 1 = Some (hd catalog)" by (simp add: contract_by_id_iff catalog_def)
  show ?thesis
    using authorize_exactly_capabilities [OF entry,
        of "capabilities_empty\<lparr>c_read_pins := [3, 0, 0, 0, 0, 0, 0, 0], c_read_count := 1\<rparr>" "GpioPinRead (Pin 3)"]
      authorize_exactly_capabilities [OF entry,
        of "capabilities_empty\<lparr>c_read_pins := [3, 0, 0, 0, 0, 0, 0, 0], c_read_count := 9\<rparr>" "GpioPinRead (Pin 3)"]
    by (simp add: listed_def)
qed

end
