(* ===== verification/Beat.thy ===== *)
theory Beat
  imports Vocabulary
begin

text \<open>
  The heartbeat (\<open>esper-core/src/beat.rs\<close>): the durable beat counter, nonzero spans and the
  scheduling policy with its exponential backoff. Beats and spans are ordered by their counter.
  The lemmas show that beat arithmetic is exact or fails, and that the backoff is the capped
  doubling the documentation states.
\<close>

section \<open>Beats and spans\<close>

datatype beat = Beat (beat_get: u64)

instantiation beat :: linorder
begin

definition less_eq_beat :: "beat \<Rightarrow> beat \<Rightarrow> bool" where
  "less_eq_beat a b \<longleftrightarrow> beat_get a \<le> beat_get b"

definition less_beat :: "beat \<Rightarrow> beat \<Rightarrow> bool" where
  "less_beat a b \<longleftrightarrow> beat_get a < beat_get b"

instance
  by standard (auto simp: less_eq_beat_def less_beat_def beat.expand)

end

definition beat_ZERO :: beat where "beat_ZERO = Beat 0"

definition beat_next :: "beat \<Rightarrow> error + beat" where
  "beat_next b =
     (case checked_add (beat_get b) 1 of Some n \<Rightarrow> Inr (Beat n) | None \<Rightarrow> Inl E_BeatOverflow)"

datatype beat_span = BeatSpan (span_get: u32)

definition span_ONE :: beat_span where "span_ONE = BeatSpan 1"

definition span_new :: "u32 \<Rightarrow> beat_span option" where
  "span_new n = (if n = 0 then None else Some (BeatSpan n))"

definition beat_after :: "beat \<Rightarrow> beat_span \<Rightarrow> error + beat" where
  "beat_after b s =
     (case checked_add (beat_get b) (ucast (span_get s)) of
        Some n \<Rightarrow> Inr (Beat n)
      | None \<Rightarrow> Inl E_BeatOverflow)"

definition beat_since :: "beat \<Rightarrow> beat \<Rightarrow> u64" where
  "beat_since b earlier = saturating_sub (beat_get b) (beat_get earlier)"

section \<open>The scheduling policy\<close>

record schedule_policy =
  sp_max_consecutive_failures :: u8
  sp_backoff_base :: beat_span
  sp_backoff_cap :: beat_span
  sp_overdue_after :: beat_span

definition schedule_policy_DEFAULT :: schedule_policy where
  "schedule_policy_DEFAULT =
     \<lparr>sp_max_consecutive_failures = 3, sp_backoff_base = BeatSpan 1, sp_backoff_cap = BeatSpan 16,
      sp_overdue_after = BeatSpan 10\<rparr>"

definition schedule_policy_validate :: "schedule_policy \<Rightarrow> error + unit" where
  "schedule_policy_validate p =
     (if sp_max_consecutive_failures p = 0
      then Inl (E_GoalSpecInvalid ''max_consecutive_failures must be at least 1'')
      else if span_get (sp_backoff_base p) > span_get (sp_backoff_cap p)
      then Inl (E_GoalSpecInvalid ''backoff_base must not exceed backoff_cap'')
      else Inr ())"

definition backoff :: "schedule_policy \<Rightarrow> u8 \<Rightarrow> beat_span" where
  "backoff p streak =
     (let shift = unat (saturating_sub streak 1);
          base = ucast (span_get (sp_backoff_base p)) :: u64;
          cap = ucast (span_get (sp_backoff_cap p)) :: u64;
          scaled = (if 32 \<le> shift then cap else min (push_bit shift base) cap)
      in case Option.bind (try_from (unat scaled)) span_new of
           Some s \<Rightarrow> s
         | None \<Rightarrow> sp_backoff_cap p)"

section \<open>Lemmas\<close>

text \<open>Spans are built by \<open>span_new\<close>, so none is zero.\<close>

definition span_ok :: "beat_span \<Rightarrow> bool" where "span_ok s \<longleftrightarrow> span_get s \<noteq> 0"

definition policy_ok :: "schedule_policy \<Rightarrow> bool" where
  "policy_ok p \<longleftrightarrow> span_ok (sp_backoff_base p) \<and> span_ok (sp_backoff_cap p) \<and>
     span_ok (sp_overdue_after p) \<and> schedule_policy_validate p = Inr ()"

lemma policy_ok_DEFAULT: "policy_ok schedule_policy_DEFAULT"
  by (simp add: policy_ok_def schedule_policy_DEFAULT_def span_ok_def schedule_policy_validate_def)

lemma unat_ucast_32_64: "unat (ucast (w :: u32) :: u64) = unat w"
proof -
  have "unat w < 2 ^ 64" using unsigned_less [of w, where ?'a = nat] by simp
  then show ?thesis by (simp add: unsigned_ucast_eq take_bit_nat_eq_self)
qed

lemma beat_after_Inr:
  assumes "beat_after b s = Inr d"
  shows "unat (beat_get d) = unat (beat_get b) + unat (span_get s)"
  using assms by (auto simp: beat_after_def unat_ucast_32_64 dest!: unat_checked_add split: option.splits)

lemma beat_after_later: "beat_after b s = Inr d \<Longrightarrow> span_ok s \<Longrightarrow> b < d"
  using beat_after_Inr [of b s d]
  by (simp add: less_beat_def span_ok_def word_less_nat_alt) (metis unat_eq_0 not_gr_zero)

lemma beat_after_Inl:
  "beat_after b s = Inl e \<Longrightarrow> e = E_BeatOverflow \<and> 2 ^ 64 \<le> unat (beat_get b) + unat (span_get s)"
  by (simp add: beat_after_def checked_add_def unat_ucast_32_64 split: if_splits)

lemma beat_after_outcome:
  assumes "span_ok s"
  shows "case beat_after b s of
       Inr d \<Rightarrow> b < d \<and> unat (beat_get d) = unat (beat_get b) + unat (span_get s)
     | Inl e \<Rightarrow> e = E_BeatOverflow \<and> 2 ^ 64 \<le> unat (beat_get b) + unat (span_get s)"
proof (cases "beat_after b s")
  case (Inl e)
  then show ?thesis using beat_after_Inl [OF Inl] by simp
next
  case (Inr d)
  then show ?thesis using beat_after_later [OF Inr assms] beat_after_Inr [OF Inr] by simp
qed

lemma beat_next_Inr: "beat_next b = Inr d \<Longrightarrow> unat (beat_get d) = Suc (unat (beat_get b))"
  by (auto simp: beat_next_def dest!: unat_checked_add split: option.splits)

lemma of_nat_small: "n < 2 ^ 32 \<Longrightarrow> unat (of_nat n :: u32) = n"
  by (simp add: unat_of_nat take_bit_nat_eq_self)

lemma backoff_shift:
  assumes "shift < 32"
  shows "unat (push_bit shift (ucast (w :: u32)) :: u64) = unat w * 2 ^ shift"
proof -
  have "unat w < 2 ^ 32" using unsigned_less [of w, where ?'a = nat] by simp
  moreover have "(2 :: nat) ^ shift < 2 ^ 32" using assms by (intro power_strict_increasing) simp_all
  ultimately have "unat w * 2 ^ shift < 2 ^ 32 * 2 ^ 32" by (intro mult_strict_mono) simp_all
  then have lt: "unat w * 2 ^ shift < 2 ^ 64" by simp
  have "unat (push_bit shift (ucast w) :: u64) = take_bit 64 (push_bit shift (unat (ucast w :: u64)))"
    by (simp add: unsigned_push_bit_eq)
  also have "\<dots> = take_bit 64 (unat w * 2 ^ shift)" by (simp only: unat_ucast_32_64 push_bit_eq_mult)
  also have "\<dots> = unat w * 2 ^ shift" using lt by (rule take_bit_nat_eq_self)
  finally show ?thesis .
qed

lemma unat_backoff:
  assumes ok: "policy_ok p"
  shows "unat (span_get (backoff p streak)) =
    min (unat (span_get (sp_backoff_base p)) * 2 ^ (unat streak - 1)) (unat (span_get (sp_backoff_cap p)))"
proof -
  let ?b = "unat (span_get (sp_backoff_base p))" and ?c = "unat (span_get (sp_backoff_cap p))"
  let ?n = "unat streak - 1"
  define scaled :: u64 where "scaled =
    (if 32 \<le> ?n then ucast (span_get (sp_backoff_cap p))
     else min (push_bit ?n (ucast (span_get (sp_backoff_base p)))) (ucast (span_get (sp_backoff_cap p))))"
  have pos: "0 < ?b" "0 < ?c"
    using ok by (auto simp: policy_ok_def span_ok_def unat_gt_0)
  have c: "?c < 2 ^ 32" using unsigned_less [of "span_get (sp_backoff_cap p)", where ?'a = nat] by simp
  have big: "?c \<le> ?b * 2 ^ ?n" if "32 \<le> ?n"
  proof -
    have "(2 :: nat) ^ 32 \<le> 2 ^ ?n" using that by (intro power_increasing) simp_all
    also have "\<dots> \<le> ?b * 2 ^ ?n" using pos by simp
    finally show ?thesis using c by linarith
  qed
  have s: "unat scaled = min (?b * 2 ^ ?n) ?c"
    using big backoff_shift [of ?n "span_get (sp_backoff_base p)"]
    by (auto simp: scaled_def min_def word_le_nat_alt unat_ucast_32_64)
  then have fits: "unat scaled < 2 ^ 32" "0 < unat scaled" using c pos by auto
  then have "try_from (unat scaled) = Some (of_nat (unat scaled) :: u32)" by (simp add: try_from_def)
  moreover have "(of_nat (unat scaled) :: u32) \<noteq> 0"
    using fits of_nat_small [of "unat scaled"] by (metis unat_0 not_gr_zero)
  moreover have "backoff p streak =
      (case Option.bind (try_from (unat scaled)) span_new of Some s \<Rightarrow> s | None \<Rightarrow> sp_backoff_cap p)"
    by (simp add: backoff_def Let_def scaled_def unat_saturating_sub)
  ultimately have "backoff p streak = BeatSpan (of_nat (unat scaled))"
    by (simp add: span_new_def)
  then show ?thesis using s fits of_nat_small [of "unat scaled"] by simp
qed

lemma backoff_ok: "policy_ok p \<Longrightarrow> span_ok (backoff p streak)"
proof -
  assume ok: "policy_ok p"
  then have "0 < unat (span_get (sp_backoff_base p))" "0 < unat (span_get (sp_backoff_cap p))"
    by (auto simp: policy_ok_def span_ok_def unat_gt_0)
  then have "0 < unat (span_get (backoff p streak))" by (simp add: unat_backoff [OF ok])
  then show ?thesis by (auto simp: span_ok_def)
qed

section \<open>Properties\<close>

text \<open>The backoff after the \<open>n\<close>-th consecutive failure is exactly the documented
  \<open>min(base * 2^(n-1), cap)\<close> over unbounded integers, for every 8-bit streak: neither the shift
  nor the conversion back to 32 bits ever loses a bit, the span is never zero, it grows with the
  streak, and a deadline it yields is strictly in the future or the overflow is reported.\<close>

theorem backoff_is_capped_doubling:
  assumes "policy_ok p"
  shows "unat (span_get (backoff p n)) =
      min (unat (span_get (sp_backoff_base p)) * 2 ^ (unat n - 1)) (unat (span_get (sp_backoff_cap p))) \<and>
    span_get (backoff p n) \<noteq> 0 \<and>
    (n \<le> m \<longrightarrow> span_get (backoff p n) \<le> span_get (backoff p m)) \<and>
    (case beat_after b (backoff p n) of
       Inr d \<Rightarrow> b < d \<and> unat (beat_get d) = unat (beat_get b) + unat (span_get (backoff p n))
     | Inl e \<Rightarrow> e = E_BeatOverflow \<and> 2 ^ 64 \<le> unat (beat_get b) + unat (span_get (backoff p n)))"
proof -
  have "n \<le> m \<longrightarrow> span_get (backoff p n) \<le> span_get (backoff p m)"
  proof
    assume "n \<le> m"
    then have "(2 :: nat) ^ (unat n - 1) \<le> 2 ^ (unat m - 1)"
      by (intro power_increasing) (simp_all add: word_le_nat_alt)
    then have "unat (span_get (sp_backoff_base p)) * 2 ^ (unat n - 1)
        \<le> unat (span_get (sp_backoff_base p)) * 2 ^ (unat m - 1)"
      by (rule mult_le_mono2)
    then show "span_get (backoff p n) \<le> span_get (backoff p m)"
      unfolding word_le_nat_alt unat_backoff [OF assms] by (rule min.mono [OF _ order_refl])
  qed
  moreover have "case beat_after b (backoff p n) of
       Inr d \<Rightarrow> b < d \<and> unat (beat_get d) = unat (beat_get b) + unat (span_get (backoff p n))
     | Inl e \<Rightarrow> e = E_BeatOverflow \<and> 2 ^ 64 \<le> unat (beat_get b) + unat (span_get (backoff p n))"
    by (rule beat_after_outcome [OF backoff_ok [OF assms]])
  moreover have "span_get (backoff p n) \<noteq> 0" using backoff_ok [OF assms] by (simp add: span_ok_def)
  ultimately show ?thesis using unat_backoff [OF assms] by blast
qed

theorem backoff_is_capped_doubling_witness:
  "unat (span_get (backoff schedule_policy_DEFAULT 4)) = 8 \<and>
   unat (span_get (backoff schedule_policy_DEFAULT 200)) = 16"
  using backoff_is_capped_doubling [OF policy_ok_DEFAULT, of 4 4 beat_ZERO]
    backoff_is_capped_doubling [OF policy_ok_DEFAULT, of 200 200 beat_ZERO]
  by (simp add: schedule_policy_DEFAULT_def min_def)

end
