(* ===== verification/Ingest.thy ===== *)
theory Ingest
  imports Mask Compact
begin

text \<open>
  Text that enters durable state (\<open>ingest\<close> of \<open>esper-core/src/memory.rs\<close>): mask the whole input,
  truncate to a note, replace control bytes. The ledger, the memory and the briefs rest on what
  is shown of it here, through the interface \<open>text_ingest\<close>.
\<close>

definition memory_input_max :: nat where "memory_input_max = 512"

definition ingest_scratch :: nat where "ingest_scratch = mask_bound memory_input_max"

definition is_control :: "u8 \<Rightarrow> bool" where
  "is_control b \<longleftrightarrow> b < 0x20 \<or> b = 0x7f"

definition sanitize :: "u8 \<Rightarrow> u8" where
  "sanitize b = (if is_control b then 0x20 else b)"

definition ingest :: "bytes \<Rightarrow> error + note_t" where
  "ingest raw =
     (if memory_input_max < length raw then Inl E_MemoryInputTooLong
      else and_then (mask_report raw ingest_scratch)
        (\<lambda>(report, scratch).
           let masked = (case slice scratch 0 (mr_output_len report) of Some m \<Rightarrow> m | None \<Rightarrow> []);
               take_len = min (length masked) note_max;
               bounded = map sanitize (take note_max masked) @ replicate (note_max - take_len) 0
           in note_from_bytes (case slice bounded 0 take_len of Some b \<Rightarrow> b | None \<Rightarrow> [])))"

text \<open>Text that is safe to show on a line of its own.\<close>

definition note_clean :: "note_t \<Rightarrow> bool" where
  "note_clean n \<longleftrightarrow> note_ok n \<and> list_all (\<lambda>b. \<not> is_control b) (note_as_bytes n)"

lemma sanitize_clean [simp]: "\<not> is_control (sanitize b)"
  by (simp add: sanitize_def is_control_def)

lemma sanitize_id: "\<not> is_control b \<Longrightarrow> sanitize b = b"
  by (simp add: sanitize_def)

lemma note_ok_fill: "length bs \<le> note_max \<Longrightarrow> note_ok (note_fill bs)"
  unfolding note_ok_def by blast

lemma note_EMPTY_clean: "note_clean note_EMPTY"
  by (simp add: note_clean_def note_EMPTY_ok, simp add: note_as_bytes_def note_EMPTY_def slice_def)

lemma ingest_too_long: "memory_input_max < length raw \<Longrightarrow> ingest raw = Inl E_MemoryInputTooLong"
  by (simp add: ingest_def)

lemma ingest_result:
  assumes "length raw \<le> memory_input_max"
  shows "\<exists>n ss. ingest raw = Inr n \<and> note_clean n \<and> raw = segs_raw ss \<and> covered raw 0 ss \<and>
           numbered ss \<and> note_as_bytes n = map sanitize (take note_max (segs_out ss))"
proof -
  have "mask_bound (length raw) \<le> ingest_scratch"
    unfolding ingest_scratch_def using assms by (rule mask_bound_mono)
  from mask_report_result [OF this] obtain r out ss where
    run: "mask_report raw ingest_scratch = Inr (r, out)" and len: "mr_output_len r = length out"
    and ss: "raw = segs_raw ss" "out = segs_out ss" "covered raw 0 ss" "numbered ss" by blast
  define bs where "bs = map sanitize (take note_max out)"
  have "ingest raw = note_from_bytes bs"
    using assms run by (simp add: ingest_def len slice_def Let_def bs_def min.commute)
  moreover have "length bs \<le> note_max" by (simp add: bs_def)
  ultimately have "ingest raw = Inr (note_fill bs)" by (simp add: note_from_bytes_def)
  moreover have "note_as_bytes (note_fill bs) = bs"
    using \<open>length bs \<le> note_max\<close> by (rule note_fill_bytes)
  moreover have "note_clean (note_fill bs)"
    using note_ok_fill [OF \<open>length bs \<le> note_max\<close>] \<open>note_as_bytes (note_fill bs) = bs\<close>
    by (auto simp: note_clean_def list_all_iff bs_def)
  ultimately show ?thesis using ss by (auto simp: bs_def)
qed

text \<open>The interface the stores rely on: what is ingested is clean, and only length can be refused.\<close>

locale text_ingest =
  fixes ing :: "bytes \<Rightarrow> error + note_t" and limit :: nat
  assumes ing_clean: "ing raw = Inr n \<Longrightarrow> note_clean n"
    and ing_total: "length raw \<le> limit \<Longrightarrow> \<exists>n. ing raw = Inr n"
    and ing_long: "limit < length raw \<Longrightarrow> ing raw = Inl E_MemoryInputTooLong"
begin

lemma ing_error: "ing raw = Inl e \<longleftrightarrow> limit < length raw \<and> e = E_MemoryInputTooLong"
proof (cases "limit < length raw")
  case True
  with ing_long show ?thesis by auto
next
  case False
  then obtain n where "ing raw = Inr n" using ing_total [of raw] by (auto simp: not_less)
  with False show ?thesis by auto
qed

lemma ing_short: "ing raw = Inr n \<Longrightarrow> length (note_as_bytes n) \<le> note_max"
  by (drule ing_clean) (simp add: note_clean_def note_as_bytes_length)

end

interpretation masked_ingest: text_ingest ingest memory_input_max
proof unfold_locales
  fix raw n
  assume "ingest raw = Inr n"
  then show "note_clean n" using ingest_result [of raw] ingest_too_long [of raw]
    by (cases "length raw \<le> memory_input_max") auto
next
  fix raw :: bytes
  assume "length raw \<le> memory_input_max"
  then show "\<exists>n. ingest raw = Inr n" using ingest_result by blast
qed (rule ingest_too_long)

section \<open>Properties\<close>

text \<open>C34: Masking comes before truncation. Any input of at most 512 bytes is accepted, and the stored
  note is the first 64 bytes of the masked rendering of the whole input (every secret span
  replaced by its marker before anything is cut), with control bytes replaced by spaces; a
  longer input is refused, and nothing else is.\<close>

theorem ingest_masks_then_truncates:
  "(case ingest raw of
      Inl e \<Rightarrow> e = E_MemoryInputTooLong \<and> 512 < length raw
    | Inr n \<Rightarrow>
        length raw \<le> 512 \<and> list_all (\<lambda>b. \<not> is_control b) (note_as_bytes n) \<and>
        (\<exists>ss. raw = segs_raw ss \<and> covered raw 0 ss \<and> numbered ss \<and>
              note_as_bytes n = map sanitize (take 64 (segs_out ss))))"
proof (cases "length raw \<le> memory_input_max")
  case True
  from ingest_result [OF True] show ?thesis
    using True by (auto simp: note_clean_def memory_input_max_def note_max_def)
next
  case False
  then show ?thesis by (simp add: ingest_too_long memory_input_max_def)
qed

end
