(* ===== verification/Goal.thy ===== *)
theory Goal
  imports Beat Ingest Registry
begin

text \<open>
  Goals and their ledger (\<open>esper-core/src/goal.rs\<close>): the goal status machine as a table, the budget
  envelope with its reservations and refunds, the settlement decision, and the ledger with every
  operation of the source. An operation that fails can leave a goal half changed, so the model
  returns the ledger with the error too.
\<close>

section \<open>The goal machine\<close>

definition goal_transitions :: "(goal_status \<times> goal_event \<times> goal_status) list" where
  "goal_transitions =
     [(G_Active, GE_Spawn, G_Running),
      (G_Running, GE_Park, G_Waiting),
      (G_Waiting, GE_Resume, G_Running),
      (G_Running, GE_Recur, G_Active),
      (G_Running, GE_Satisfy, G_Satisfied),
      (G_Running, GE_Fail, G_Failed),
      (G_Running, GE_Exhaust, G_Exhausted),
      (G_Active, GE_Pause, G_Paused),
      (G_Paused, GE_Unpause, G_Active),
      (G_Active, GE_Retire, G_Retired),
      (G_Paused, GE_Retire, G_Retired)]"

text \<open>The source compares the numeric codes, which are injective.\<close>

definition goal_transition :: "goal_status \<Rightarrow> goal_event \<Rightarrow> error + goal_status" where
  "goal_transition s e =
     (case table_lookup goal_transitions s e of
        Some t \<Rightarrow> Inr t
      | None \<Rightarrow> Inl (E_GoalIllegalTransition s e))"

interpretation goal_table: edge_table goal_transitions
  by unfold_locales (simp add: goal_transitions_def)

lemma goal_transition_Inr_iff: "goal_transition s e = Inr t \<longleftrightarrow> (s, e, t) \<in> set goal_transitions"
  by (auto simp: goal_transition_def goal_table.lookup_Some_iff [symmetric] split: option.splits)

lemma goal_transition_Inl_iff:
  "goal_transition s e = Inl err \<longleftrightarrow>
     err = E_GoalIllegalTransition s e \<and> (\<forall>t. (s, e, t) \<notin> set goal_transitions)"
  by (auto simp: goal_transition_def goal_table.lookup_None_iff [symmetric] split: option.splits)

section \<open>Envelopes, goals and the ledger\<close>

definition max_goals :: nat where "max_goals = 8"

datatype goal_id = GoalId (goal_id_get: u16)

instantiation goal_id :: linorder
begin

definition less_eq_goal_id :: "goal_id \<Rightarrow> goal_id \<Rightarrow> bool" where
  "less_eq_goal_id a b \<longleftrightarrow> goal_id_get a \<le> goal_id_get b"

definition less_goal_id :: "goal_id \<Rightarrow> goal_id \<Rightarrow> bool" where
  "less_goal_id a b \<longleftrightarrow> goal_id_get a < goal_id_get b"

instance
  by standard (auto simp: less_eq_goal_id_def less_goal_id_def goal_id.expand)

end

definition goal_id_new :: "u16 \<Rightarrow> goal_id option" where
  "goal_id_new i = (if i = 0 then None else Some (GoalId i))"

datatype cadence = Once | Every beat_span

record envelope =
  en_per_run_turns :: u16
  en_per_run_mutations :: u16
  en_turns :: u32
  en_mutations :: u32
  en_runs :: u16

definition envelope_validate :: "envelope \<Rightarrow> error + unit" where
  "envelope_validate v =
     (if en_per_run_turns v = 0 then Inl (E_GoalSpecInvalid ''per_run_turns must be at least 1'')
      else if en_per_run_mutations v = 0
      then Inl (E_GoalSpecInvalid ''per_run_mutations must be at least 1'')
      else if en_turns v = 0 \<or> en_mutations v = 0 \<or> en_runs v = 0
      then Inl (E_GoalSpecInvalid ''the envelope must fund at least one run'')
      else Inr ())"

record remaining =
  rm_turns :: u32
  rm_mutations :: u32
  rm_runs :: u16

definition fundable :: "remaining \<Rightarrow> bool" where
  "fundable r \<longleftrightarrow> 1 \<le> rm_turns r \<and> 1 \<le> rm_mutations r \<and> 1 \<le> rm_runs r"

record grant =
  gr_turns :: u16
  gr_mutations :: u16

definition grant_ZERO :: grant where "grant_ZERO = \<lparr>gr_turns = 0, gr_mutations = 0\<rparr>"

record goal_spec =
  gs_objective :: bytes
  gs_priority :: u8
  gs_cadence :: cadence
  gs_envelope :: envelope
  gs_capabilities :: capabilities

record goal =
  g_id :: goal_id
  g_objective :: note_t
  g_priority :: u8
  g_cadence :: cadence
  g_envelope :: envelope
  g_remaining :: remaining
  g_reserved :: grant
  g_capabilities :: capabilities
  g_status :: goal_status
  g_next_due :: beat
  g_failures :: u8
  g_runs_started :: u32
  g_last_status :: "terminal_status option"
  g_waiting_since :: beat
  g_run :: "run_id option"

text \<open>The widened sums are exact, so they are sums of natural numbers.\<close>

definition check_envelope :: "goal \<Rightarrow> error + unit" where
  "check_envelope g =
     (let busy = goal_status_is_busy (g_status g);
          in_flight = (if busy then 1 else 0);
          turns = unat (rm_turns (g_remaining g)) + unat (gr_turns (g_reserved g));
          mutations = unat (rm_mutations (g_remaining g)) + unat (gr_mutations (g_reserved g));
          runs = unat (rm_runs (g_remaining g)) + in_flight
      in if unat (en_turns (g_envelope g)) < turns \<or> unat (en_mutations (g_envelope g)) < mutations \<or>
            unat (en_runs (g_envelope g)) < runs
         then Inl E_EnvelopeWidened
         else if \<not> busy \<and> (gr_turns (g_reserved g) \<noteq> 0 \<or> gr_mutations (g_reserved g) \<noteq> 0)
         then Inl E_EnvelopeWidened
         else Inr ())"

definition is_overdue :: "goal \<Rightarrow> beat \<Rightarrow> schedule_policy \<Rightarrow> bool" where
  "is_overdue g now policy \<longleftrightarrow>
     g_status g = G_Waiting \<and>
     beat_since now (g_waiting_since g) \<ge> ucast (span_get (sp_overdue_after policy))"

definition retryable :: "terminal_status \<Rightarrow> bool" where
  "retryable s \<longleftrightarrow> s \<notin> {T_Denied, T_Incompatible, T_StorageFault}"

section \<open>The settlement decision\<close>

definition settle_decision ::
  "goal \<Rightarrow> terminal_status \<Rightarrow> beat \<Rightarrow> schedule_policy \<Rightarrow> error + (goal_event \<times> beat \<times> u8)" where
  "settle_decision g status beat policy =
     (if terminal_status_is_success status
      then (case g_cadence g of
              Once \<Rightarrow> Inr (GE_Satisfy, beat, 0)
            | Every span \<Rightarrow>
                if \<not> fundable (g_remaining g) then Inr (GE_Exhaust, beat, 0)
                else and_then (beat_after beat span) (\<lambda>due. Inr (GE_Recur, due, 0)))
      else
        let streak = saturating_add (g_failures g) 1
        in if \<not> retryable status \<or> sp_max_consecutive_failures policy \<le> streak
           then Inr (GE_Fail, beat, streak)
           else if \<not> fundable (g_remaining g) then Inr (GE_Exhaust, beat, streak)
           else and_then (beat_after beat (backoff policy streak)) (\<lambda>due. Inr (GE_Recur, due, streak)))"

section \<open>The ledger\<close>

datatype pick = Pick_Idle | Pick_Spawn goal_id | Pick_Resume goal_id

record goal_counts =
  gc_active :: u8
  gc_waiting :: u8
  gc_overdue :: u8
  gc_paused :: u8
  gc_done :: u8

record goal_ledger =
  gl_slots :: "goal option list"
  gl_next_id :: u16

definition ledger_new :: goal_ledger where
  "ledger_new = \<lparr>gl_slots = replicate max_goals None, gl_next_id = 1\<rparr>"

definition ledger_goals :: "goal_ledger \<Rightarrow> goal list" where
  "ledger_goals l = flatten (gl_slots l)"

definition ledger_get :: "goal_ledger \<Rightarrow> goal_id \<Rightarrow> goal option" where
  "ledger_get l i = List.find (\<lambda>g. g_id g = i) (ledger_goals l)"

text \<open>\<open>get_mut\<close> and the changes through the reference it returns.\<close>

definition on_goal ::
  "goal_ledger \<Rightarrow> goal_id \<Rightarrow> (goal \<Rightarrow> goal \<times> (error + 'a)) \<Rightarrow> goal_ledger \<times> (error + 'a)" where
  "on_goal l i f =
     (case ledger_get l i of
        None \<Rightarrow> (l, Inl (E_GoalUnknown (goal_id_get i)))
      | Some g \<Rightarrow>
          (l\<lparr>gl_slots := update_first (\<lambda>h. g_id h = i) (\<lambda>_. fst (f g)) (gl_slots l)\<rparr>, snd (f g)))"

definition ledger_admit ::
  "goal_ledger \<Rightarrow> goal_spec \<Rightarrow> capabilities \<Rightarrow> beat \<Rightarrow> error + goal" where
  "ledger_admit l spec ceiling now =
     and_then (envelope_validate (gs_envelope spec)) (\<lambda>_.
       if widens (gs_capabilities spec) ceiling
       then Inl (E_GoalSpecInvalid ''capabilities widen the agent's ceiling'')
       else if gs_objective spec = []
       then Inl (E_GoalSpecInvalid ''objective must not be empty'')
       else and_then (ingest (gs_objective spec)) (\<lambda>objective.
         and_then (ok_or E_GoalIdsExhausted (goal_id_new (gl_next_id l))) (\<lambda>i.
           if list_all (\<lambda>s. s \<noteq> None) (gl_slots l) then Inl E_GoalLedgerFull
           else Inr
             \<lparr>g_id = i, g_objective = objective, g_priority = gs_priority spec,
              g_cadence = gs_cadence spec, g_envelope = gs_envelope spec,
              g_remaining =
                \<lparr>rm_turns = en_turns (gs_envelope spec), rm_mutations = en_mutations (gs_envelope spec),
                 rm_runs = en_runs (gs_envelope spec)\<rparr>,
              g_reserved = grant_ZERO, g_capabilities = gs_capabilities spec, g_status = G_Active,
              g_next_due = now, g_failures = 0, g_runs_started = 0, g_last_status = None,
              g_waiting_since = beat_ZERO, g_run = None\<rparr>)))"

definition ledger_insert :: "goal_ledger \<Rightarrow> goal \<Rightarrow> error + goal_ledger" where
  "ledger_insert l g =
     (if goal_id_get (g_id g) \<noteq> gl_next_id l \<or> g_status g \<noteq> G_Active then Inl E_GoalOutOfOrder
      else and_then (check_envelope g) (\<lambda>_.
        and_then (ok_or E_GoalLedgerFull (fill_free g (gl_slots l))) (\<lambda>slots.
          Inr \<lparr>gl_slots = slots,
               gl_next_id = (case checked_add (gl_next_id l) 1 of Some n \<Rightarrow> n | None \<Rightarrow> 0)\<rparr>)))"

definition ledger_pick :: "goal_ledger \<Rightarrow> beat \<Rightarrow> (goal_id \<Rightarrow> bool) \<Rightarrow> pick" where
  "ledger_pick l beat input_ready =
     (case min_by_key (\<lambda>g. (Reverse (g_priority g), g_id g))
             (filter (\<lambda>g. g_status g = G_Waiting \<and> input_ready (g_id g)) (ledger_goals l)) of
        Some g \<Rightarrow> Pick_Resume (g_id g)
      | None \<Rightarrow>
          (case min_by_key (\<lambda>g. (Reverse (g_priority g), g_next_due g, g_id g))
                  (filter (\<lambda>g. g_status g = G_Active \<and> g_next_due g \<le> beat) (ledger_goals l)) of
             Some g \<Rightarrow> Pick_Spawn (g_id g)
           | None \<Rightarrow> Pick_Idle))"

definition clamp_u16 :: "u32 \<Rightarrow> u16 \<Rightarrow> u16" where
  "clamp_u16 v cap =
     (case try_from (unat (min v (ucast cap))) of Some w \<Rightarrow> w | None \<Rightarrow> cap)"

definition ledger_reservation :: "goal_ledger \<Rightarrow> goal_id \<Rightarrow> error + grant" where
  "ledger_reservation l i =
     and_then (ok_or (E_GoalUnknown (goal_id_get i)) (ledger_get l i)) (\<lambda>g.
       and_then (goal_transition (g_status g) GE_Spawn) (\<lambda>_.
         if \<not> fundable (g_remaining g) then Inl E_EnvelopeWidened
         else Inr
           \<lparr>gr_turns = clamp_u16 (rm_turns (g_remaining g)) (en_per_run_turns (g_envelope g)),
            gr_mutations =
              clamp_u16 (rm_mutations (g_remaining g)) (en_per_run_mutations (g_envelope g))\<rparr>))"

definition spawn_goal :: "run_id \<Rightarrow> grant \<Rightarrow> goal \<Rightarrow> goal \<times> (error + unit)" where
  "spawn_goal run grant g =
     (case goal_transition (g_status g) GE_Spawn of
        Inl e \<Rightarrow> (g, Inl e)
      | Inr s \<Rightarrow>
          (let r = g_remaining g;
               g' = g\<lparr>g_status := s,
                      g_remaining :=
                        \<lparr>rm_turns = rm_turns r - ucast (gr_turns grant),
                         rm_mutations = rm_mutations r - ucast (gr_mutations grant),
                         rm_runs = rm_runs r - 1\<rparr>,
                      g_reserved := grant,
                      g_runs_started := saturating_add (g_runs_started g) 1,
                      g_run := Some run\<rparr>
           in (g', check_envelope g')))"

definition ledger_spawn :: "goal_ledger \<Rightarrow> goal_id \<Rightarrow> run_id \<Rightarrow> grant \<Rightarrow> goal_ledger \<times> (error + unit)" where
  "ledger_spawn l i run grant =
     (case ledger_reservation l i of
        Inl e \<Rightarrow> (l, Inl e)
      | Inr res \<Rightarrow>
          if res \<noteq> grant then (l, Inl E_GoalOutOfOrder) else on_goal l i (spawn_goal run grant))"

definition park_goal :: "beat \<Rightarrow> goal \<Rightarrow> goal \<times> (error + unit)" where
  "park_goal beat g =
     (case goal_transition (g_status g) GE_Park of
        Inl e \<Rightarrow> (g, Inl e)
      | Inr s \<Rightarrow> (let g' = g\<lparr>g_status := s, g_waiting_since := beat\<rparr> in (g', check_envelope g')))"

definition ledger_park :: "goal_ledger \<Rightarrow> goal_id \<Rightarrow> beat \<Rightarrow> goal_ledger \<times> (error + unit)" where
  "ledger_park l i beat = on_goal l i (park_goal beat)"

definition resume_goal :: "goal \<Rightarrow> goal \<times> (error + unit)" where
  "resume_goal g =
     (case goal_transition (g_status g) GE_Resume of
        Inl e \<Rightarrow> (g, Inl e)
      | Inr s \<Rightarrow>
          (let g' = g\<lparr>g_status := s, g_waiting_since := beat_ZERO\<rparr> in (g', check_envelope g')))"

definition ledger_resume :: "goal_ledger \<Rightarrow> goal_id \<Rightarrow> goal_ledger \<times> (error + unit)" where
  "ledger_resume l i = on_goal l i resume_goal"

definition settle_goal ::
  "terminal_status \<Rightarrow> grant \<Rightarrow> beat \<Rightarrow> schedule_policy \<Rightarrow> goal \<Rightarrow> goal \<times> (error + goal_event)" where
  "settle_goal status refund beat policy g =
     (if g_status g \<noteq> G_Running then (g, Inl (E_GoalIllegalTransition (g_status g) GE_Recur))
      else if gr_turns (g_reserved g) < gr_turns refund \<or>
              gr_mutations (g_reserved g) < gr_mutations refund
      then (g, Inl E_RefundExceedsReservation)
      else
        let r = g_remaining g;
            g1 = g\<lparr>g_remaining :=
                     r\<lparr>rm_turns := rm_turns r + ucast (gr_turns refund),
                       rm_mutations := rm_mutations r + ucast (gr_mutations refund)\<rparr>,
                   g_reserved := grant_ZERO\<rparr>
        in case settle_decision g1 status beat policy of
             Inl e \<Rightarrow> (g1, Inl e)
           | Inr (event, due, streak) \<Rightarrow>
               (case goal_transition (g_status g1) event of
                  Inl e \<Rightarrow> (g1, Inl e)
                | Inr s \<Rightarrow>
                    (let g2 = g1\<lparr>g_status := s, g_next_due := due, g_failures := streak,
                                 g_last_status := Some status, g_run := None\<rparr>
                     in (g2, and_then (check_envelope g2) (\<lambda>_. Inr event)))))"

definition ledger_settle ::
  "goal_ledger \<Rightarrow> goal_id \<Rightarrow> terminal_status \<Rightarrow> grant \<Rightarrow> beat \<Rightarrow> schedule_policy \<Rightarrow>
   goal_ledger \<times> (error + goal_event)" where
  "ledger_settle l i status refund beat policy = on_goal l i (settle_goal status refund beat policy)"

definition control_goal :: "goal_event \<Rightarrow> beat \<Rightarrow> goal \<Rightarrow> goal \<times> (error + unit)" where
  "control_goal event now g =
     (if goal_status_is_busy (g_status g) then (g, Inl E_GoalBusy)
      else if \<not> goal_event_is_operator event
      then (g, Inl (E_GoalIllegalTransition (g_status g) event))
      else case goal_transition (g_status g) event of
             Inl e \<Rightarrow> (g, Inl e)
           | Inr s \<Rightarrow>
               (let g1 = g\<lparr>g_status := s\<rparr>
                in (if event = GE_Unpause \<and> g_next_due g1 < now then g1\<lparr>g_next_due := now\<rparr> else g1,
                    Inr ())))"

definition ledger_control ::
  "goal_ledger \<Rightarrow> goal_id \<Rightarrow> goal_event \<Rightarrow> beat \<Rightarrow> goal_ledger \<times> (error + unit)" where
  "ledger_control l i event now = on_goal l i (control_goal event now)"

definition ledger_reap :: "goal_ledger \<Rightarrow> goal_ledger \<times> nat" where
  "ledger_reap l =
     (let kept = filter (\<lambda>g. \<not> goal_status_is_terminal (g_status g)) (ledger_goals l);
          l' = l\<lparr>gl_slots := pack max_goals (take max_goals kept)\<rparr>
      in (l', length (ledger_goals l) - length (ledger_goals l')))"

definition has_running :: "goal_ledger \<Rightarrow> bool" where
  "has_running l \<longleftrightarrow> list_ex (\<lambda>g. g_status g = G_Running) (ledger_goals l)"

definition count_goal :: "beat \<Rightarrow> schedule_policy \<Rightarrow> goal_counts \<Rightarrow> goal \<Rightarrow> goal_counts" where
  "count_goal now policy c g =
     (let c1 =
        (case g_status g of
           G_Active \<Rightarrow> c\<lparr>gc_active := gc_active c + 1\<rparr>
         | G_Running \<Rightarrow> c\<lparr>gc_waiting := gc_waiting c + 1\<rparr>
         | G_Waiting \<Rightarrow> c\<lparr>gc_waiting := gc_waiting c + 1\<rparr>
         | G_Paused \<Rightarrow> c\<lparr>gc_paused := gc_paused c + 1\<rparr>
         | _ \<Rightarrow> c\<lparr>gc_done := gc_done c + 1\<rparr>)
      in if is_overdue g now policy then c1\<lparr>gc_overdue := gc_overdue c1 + 1\<rparr> else c1)"

definition ledger_counts :: "goal_ledger \<Rightarrow> beat \<Rightarrow> schedule_policy \<Rightarrow> goal_counts" where
  "ledger_counts l now policy =
     foldl (count_goal now policy)
       \<lparr>gc_active = 0, gc_waiting = 0, gc_overdue = 0, gc_paused = 0, gc_done = 0\<rparr> (ledger_goals l)"

definition ledger_restoring :: "u16 \<Rightarrow> goal_ledger" where
  "ledger_restoring next_id = \<lparr>gl_slots = replicate max_goals None, gl_next_id = next_id\<rparr>"

definition restore_goal :: "goal_ledger \<Rightarrow> goal \<Rightarrow> error + goal_ledger" where
  "restore_goal l g =
     (if gl_next_id l \<noteq> 0 \<and> gl_next_id l \<le> goal_id_get (g_id g) \<or> g_status g = G_Running \<or>
         \<not> is_ok (check_envelope g) \<or> ledger_get l (g_id g) \<noteq> None
      then Inl E_SnapshotCorrupt
      else and_then (ok_or E_SnapshotCorrupt (fill_free g (gl_slots l)))
             (\<lambda>slots. Inr (l\<lparr>gl_slots := slots\<rparr>)))"

fun restore_goals :: "goal_ledger \<Rightarrow> goal list \<Rightarrow> error + goal_ledger" where
  "restore_goals l [] = Inr l"
| "restore_goals l (g # gs) = and_then (restore_goal l g) (\<lambda>l'. restore_goals l' gs)"

definition ledger_from_parts :: "goal list \<Rightarrow> u16 \<Rightarrow> error + goal_ledger" where
  "ledger_from_parts gs next_id = restore_goals (ledger_restoring next_id) gs"

section \<open>One goal\<close>

text \<open>The two metered units, with the amounts a goal holds of each.\<close>

datatype grant_unit = GU_Turns | GU_Mutations

fun granted_of :: "grant_unit \<Rightarrow> goal \<Rightarrow> nat" where
  "granted_of GU_Turns g = unat (en_turns (g_envelope g))"
| "granted_of GU_Mutations g = unat (en_mutations (g_envelope g))"

fun remaining_of :: "grant_unit \<Rightarrow> goal \<Rightarrow> nat" where
  "remaining_of GU_Turns g = unat (rm_turns (g_remaining g))"
| "remaining_of GU_Mutations g = unat (rm_mutations (g_remaining g))"

fun grant_of :: "grant_unit \<Rightarrow> grant \<Rightarrow> nat" where
  "grant_of GU_Turns r = unat (gr_turns r)"
| "grant_of GU_Mutations r = unat (gr_mutations r)"

definition outstanding :: "grant_unit \<Rightarrow> goal \<Rightarrow> nat" where
  "outstanding k g = remaining_of k g + grant_of k (g_reserved g)"

definition in_flight :: "goal \<Rightarrow> nat" where
  "in_flight g = (if goal_status_is_busy (g_status g) then 1 else 0)"

text \<open>The envelope invariant, and what every goal that the ledger itself admitted has besides: an idle
  goal can fund a run, a goal has a run exactly while it is busy, and every run it started
  came out of its envelope.\<close>

definition goal_ok :: "goal \<Rightarrow> bool" where
  "goal_ok g \<longleftrightarrow> goal_id_get (g_id g) \<noteq> 0 \<and> check_envelope g = Inr ()"

definition goal_live :: "goal \<Rightarrow> bool" where
  "goal_live g \<longleftrightarrow>
     (g_status g \<in> {G_Active, G_Paused} \<longrightarrow> fundable (g_remaining g)) \<and>
     (goal_status_is_busy (g_status g) \<longleftrightarrow> g_run g \<noteq> None) \<and>
     unat (rm_runs (g_remaining g)) + unat (g_runs_started g) = unat (en_runs (g_envelope g)) \<and>
     en_per_run_turns (g_envelope g) \<noteq> 0 \<and> en_per_run_mutations (g_envelope g) \<noteq> 0 \<and>
     note_clean (g_objective g)"

lemma check_envelope_iff:
  "check_envelope g = Inr () \<longleftrightarrow>
     (\<forall>k. outstanding k g \<le> granted_of k g) \<and>
     unat (rm_runs (g_remaining g)) + in_flight g \<le> unat (en_runs (g_envelope g)) \<and>
     (\<not> goal_status_is_busy (g_status g) \<longrightarrow> g_reserved g = grant_ZERO)"
proof -
  have "(\<forall>k. P k) \<longleftrightarrow> P GU_Turns \<and> P GU_Mutations" for P by (metis grant_unit.exhaust)
  then show ?thesis
    by (cases "g_reserved g")
      (auto simp: check_envelope_def outstanding_def in_flight_def Let_def grant_ZERO_def)
qed

lemma unat_ucast_16_32: "unat (ucast (w :: u16) :: u32) = unat w"
proof -
  have "unat w < 2 ^ 32" using unsigned_less [of w, where ?'a = nat] by simp
  then show ?thesis by (simp add: unsigned_ucast_eq take_bit_nat_eq_self)
qed

lemma unat_clamp_u16: "unat (clamp_u16 v cap) = min (unat v) (unat cap)"
proof -
  have "unat (min v (ucast cap)) = min (unat v) (unat cap)"
    by (simp add: min_def word_le_nat_alt unat_ucast_16_32)
  moreover have "min (unat v) (unat cap) < 2 ^ 16"
    using unsigned_less [of cap, where ?'a = nat] by simp
  ultimately show ?thesis
    by (simp add: clamp_u16_def try_from_def unat_of_nat take_bit_nat_eq_self)
qed

definition reservation_of :: "goal \<Rightarrow> grant" where
  "reservation_of g =
     \<lparr>gr_turns = clamp_u16 (rm_turns (g_remaining g)) (en_per_run_turns (g_envelope g)),
      gr_mutations = clamp_u16 (rm_mutations (g_remaining g)) (en_per_run_mutations (g_envelope g))\<rparr>"

text \<open>A spawn moves its reservation out of the remainder: exact, and the outstanding amounts stay.\<close>

lemma spawn_goal_effect:
  assumes ok: "goal_ok g" and active: "g_status g = G_Active" and fund: "fundable (g_remaining g)"
    and sp: "spawn_goal run (reservation_of g) g = (g', r)"
  shows "r = Inr () \<and> goal_ok g' \<and> g_id g' = g_id g \<and> g_envelope g' = g_envelope g \<and>
    g_objective g' = g_objective g \<and> g_capabilities g' = g_capabilities g \<and>
    g_status g' = G_Running \<and> g_run g' = Some run \<and>
    (\<forall>k. outstanding k g' = outstanding k g) \<and>
    Suc (unat (rm_runs (g_remaining g'))) = unat (rm_runs (g_remaining g)) \<and>
    (goal_live g \<longrightarrow> goal_live g')"
proof -
  let ?r = "g_remaining g" and ?v = "reservation_of g"
  define g2 where "g2 = g\<lparr>g_status := G_Running,
      g_remaining := \<lparr>rm_turns = rm_turns ?r - ucast (gr_turns ?v),
                      rm_mutations = rm_mutations ?r - ucast (gr_mutations ?v), rm_runs = rm_runs ?r - 1\<rparr>,
      g_reserved := ?v, g_runs_started := saturating_add (g_runs_started g) 1, g_run := Some run\<rparr>"
  have g': "g' = g2" "r = check_envelope g2"
    using sp active
    by (auto simp: spawn_goal_def goal_transition_def goal_transitions_def Let_def g2_def)
  have le: "ucast (gr_turns ?v) \<le> rm_turns ?r" "ucast (gr_mutations ?v) \<le> rm_mutations ?r"
    by (simp_all add: reservation_of_def word_le_nat_alt unat_ucast_16_32 unat_clamp_u16)
  have runs: "(1 :: u16) \<le> rm_runs ?r" using fund by (simp add: fundable_def)
  have rem: "unat (rm_turns ?r - ucast (gr_turns ?v)) = unat (rm_turns ?r) - unat (gr_turns ?v)"
    "unat (rm_mutations ?r - ucast (gr_mutations ?v)) = unat (rm_mutations ?r) - unat (gr_mutations ?v)"
    "Suc (unat (rm_runs ?r - 1)) = unat (rm_runs ?r)"
    using le runs by (simp_all add: unat_sub_exact unat_ucast_16_32 word_le_nat_alt)
  have out: "outstanding k g2 = outstanding k g" for k
    using le rem ok active unfolding goal_ok_def check_envelope_iff word_le_nat_alt unat_ucast_16_32
    by (cases k) (auto simp: outstanding_def g2_def grant_ZERO_def)
  have chk: "check_envelope g2 = Inr ()"
  proof -
    have "granted_of k g2 = granted_of k g" for k by (cases k) (simp_all add: g2_def)
    moreover have "goal_status_is_busy (g_status g2)" "in_flight g2 = 1" "in_flight g = 0"
      "unat (rm_runs (g_remaining g2)) + 1 = unat (rm_runs (g_remaining g))"
      "g_envelope g2 = g_envelope g"
      using active rem(3) by (simp_all add: g2_def in_flight_def)
    ultimately show ?thesis using ok unfolding goal_ok_def check_envelope_iff by (simp add: out)
  qed
  have "goal_live g2" if live: "goal_live g"
  proof -
    have "unat (en_runs (g_envelope g)) < 2 ^ 16"
      using unsigned_less [of "en_runs (g_envelope g)", where ?'a = nat] by simp
    then show ?thesis using live rem(3) by (auto simp: goal_live_def g2_def unat_saturating_add)
  qed
  then show ?thesis using chk ok out rem(3) g' by (auto simp: goal_ok_def g2_def)
qed

text \<open>What every operation on one goal does: identity and envelope are kept, the invariants are kept,
  and the outstanding amounts fall by what was consumed.\<close>

definition goal_step :: "(grant_unit \<Rightarrow> nat) \<Rightarrow> goal \<Rightarrow> goal \<Rightarrow> bool" where
  "goal_step c g g' \<longleftrightarrow>
     g_id g' = g_id g \<and> g_envelope g' = g_envelope g \<and> g_objective g' = g_objective g \<and>
     g_capabilities g' = g_capabilities g \<and> goal_ok g' \<and>
     (goal_live g \<longrightarrow> goal_live g') \<and>
     (\<forall>k. outstanding k g = outstanding k g' + c k)"

lemma goal_step_refl: "goal_ok g \<Longrightarrow> goal_step (\<lambda>_. 0) g g"
  by (simp add: goal_step_def)

lemma goal_ok_same_books:
  assumes "goal_ok g" and "g_id g' = g_id g" and "g_envelope g' = g_envelope g"
    and "g_remaining g' = g_remaining g" and "g_reserved g' = g_reserved g"
    and "goal_status_is_busy (g_status g') = goal_status_is_busy (g_status g)"
  shows "goal_ok g' \<and> (\<forall>k. outstanding k g' = outstanding k g)"
proof -
  have "check_envelope g' = check_envelope g" using assms by (simp add: check_envelope_def Let_def)
  moreover have "outstanding k g' = outstanding k g" for k
    using assms by (cases k) (simp_all add: outstanding_def)
  ultimately show ?thesis using assms by (simp add: goal_ok_def)
qed

lemma park_goal_effect:
  assumes ok: "goal_ok g" and run: "park_goal beat g = (g', r)"
  shows "goal_step (\<lambda>_. 0) g g' \<and>
    (if g_status g = G_Running
     then r = Inr () \<and> g' = g\<lparr>g_status := G_Waiting, g_waiting_since := beat\<rparr>
     else r = Inl (E_GoalIllegalTransition (g_status g) GE_Park) \<and> g' = g)"
proof (cases "g_status g = G_Running")
  case True
  let ?g = "g\<lparr>g_status := G_Waiting, g_waiting_since := beat\<rparr>"
  have same: "goal_ok ?g \<and> (\<forall>k. outstanding k ?g = outstanding k g)"
    by (rule goal_ok_same_books [OF ok]) (simp_all add: True)
  then have "g' = ?g" "r = Inr ()"
    using run True by (auto simp: park_goal_def goal_transition_def goal_transitions_def goal_ok_def)
  then show ?thesis using same True by (auto simp: goal_step_def goal_live_def)
next
  case False
  then have "goal_transition (g_status g) GE_Park = Inl (E_GoalIllegalTransition (g_status g) GE_Park)"
    by (auto simp: goal_transition_Inl_iff goal_transitions_def)
  then show ?thesis using run False ok by (auto simp: park_goal_def goal_step_refl)
qed

lemma resume_goal_effect:
  assumes ok: "goal_ok g" and run: "resume_goal g = (g', r)"
  shows "goal_step (\<lambda>_. 0) g g' \<and>
    (if g_status g = G_Waiting
     then r = Inr () \<and> g' = g\<lparr>g_status := G_Running, g_waiting_since := beat_ZERO\<rparr>
     else r = Inl (E_GoalIllegalTransition (g_status g) GE_Resume) \<and> g' = g)"
proof (cases "g_status g = G_Waiting")
  case True
  let ?g = "g\<lparr>g_status := G_Running, g_waiting_since := beat_ZERO\<rparr>"
  have same: "goal_ok ?g \<and> (\<forall>k. outstanding k ?g = outstanding k g)"
    by (rule goal_ok_same_books [OF ok]) (simp_all add: True)
  then have "g' = ?g" "r = Inr ()"
    using run True by (auto simp: resume_goal_def goal_transition_def goal_transitions_def goal_ok_def)
  then show ?thesis using same True by (auto simp: goal_step_def goal_live_def)
next
  case False
  then have "goal_transition (g_status g) GE_Resume = Inl (E_GoalIllegalTransition (g_status g) GE_Resume)"
    by (auto simp: goal_transition_Inl_iff goal_transitions_def)
  then show ?thesis using run False ok by (auto simp: resume_goal_def goal_step_refl)
qed

lemma control_goal_effect:
  assumes ok: "goal_ok g" and run: "control_goal event now g = (g', r)"
  shows "goal_step (\<lambda>_. 0) g g' \<and> (goal_status_is_busy (g_status g) \<longrightarrow> g' = g \<and> r = Inl E_GoalBusy) \<and>
    (\<forall>u. r = Inr u \<longrightarrow> goal_event_is_operator event \<and>
                    (g_status g, event, g_status g') \<in> set goal_transitions)"
proof (cases "r")
  case (Inl e)
  then have "g' = g" using run by (auto simp: control_goal_def Let_def split: if_splits sum.splits)
  then show ?thesis using Inl ok run by (auto simp: goal_step_refl control_goal_def)
next
  case (Inr u)
  then obtain s where idle: "\<not> goal_status_is_busy (g_status g)" "goal_event_is_operator event"
    and edge: "(g_status g, event, s) \<in> set goal_transitions"
    and g': "g' = (let g1 = g\<lparr>g_status := s\<rparr> in
               if event = GE_Unpause \<and> g_next_due g1 < now then g1\<lparr>g_next_due := now\<rparr> else g1)"
    using run by (auto simp: control_goal_def Let_def goal_transition_Inr_iff split: if_splits sum.splits)
  have s: "\<not> goal_status_is_busy s \<and> (s \<in> {G_Active, G_Paused} \<longrightarrow> g_status g \<in> {G_Active, G_Paused})"
    using edge idle by (auto simp: goal_transitions_def)
  have "goal_ok g' \<and> (\<forall>k. outstanding k g' = outstanding k g)"
    using g' s idle by (intro goal_ok_same_books [OF ok]) (auto simp: Let_def)
  then show ?thesis using Inr idle edge g' s
    by (auto simp: goal_step_def goal_live_def Let_def)
qed

text \<open>The consumption of a settlement that is accepted: what was reserved and not refunded.\<close>

definition settle_accepted :: "grant \<Rightarrow> goal \<Rightarrow> bool" where
  "settle_accepted refund g \<longleftrightarrow>
     g_status g = G_Running \<and> gr_turns refund \<le> gr_turns (g_reserved g) \<and>
     gr_mutations refund \<le> gr_mutations (g_reserved g)"

definition settle_consumed :: "grant \<Rightarrow> goal \<Rightarrow> grant_unit \<Rightarrow> nat" where
  "settle_consumed refund g k =
     (if settle_accepted refund g then grant_of k (g_reserved g) - grant_of k refund else 0)"

text \<open>The goal after its refund, before the decision.\<close>

definition refunded :: "grant \<Rightarrow> goal \<Rightarrow> goal" where
  "refunded refund g =
     g\<lparr>g_remaining :=
         (g_remaining g)\<lparr>rm_turns := rm_turns (g_remaining g) + ucast (gr_turns refund),
                        rm_mutations := rm_mutations (g_remaining g) + ucast (gr_mutations refund)\<rparr>,
       g_reserved := grant_ZERO\<rparr>"

lemma refunded_books:
  assumes ok: "goal_ok g" and acc: "settle_accepted refund g"
  shows "remaining_of k (refunded refund g) = remaining_of k g + grant_of k refund \<and>
         outstanding k g = outstanding k (refunded refund g) + settle_consumed refund g k \<and>
         outstanding k (refunded refund g) \<le> granted_of k g"
proof -
  have le: "outstanding k g \<le> granted_of k g" for k
    using ok by (simp add: goal_ok_def check_envelope_iff)
  have acc': "grant_of k refund \<le> grant_of k (g_reserved g)" for k
    using acc by (cases k) (simp_all add: settle_accepted_def word_le_nat_alt)
  have small: "granted_of k g < 2 ^ 32" for k
    using unsigned_less [of "en_turns (g_envelope g)", where ?'a = nat]
      unsigned_less [of "en_mutations (g_envelope g)", where ?'a = nat] by (cases k) simp_all
  have fits: "remaining_of k g + grant_of k refund < 2 ^ 32" for k
    using le [of k] acc' [of k] small [of k] unfolding outstanding_def by linarith
  have rem: "remaining_of k (refunded refund g) = remaining_of k g + grant_of k refund"
    using fits [of k] by (cases k) (simp_all add: refunded_def unat_add_exact unat_ucast_16_32)
  moreover have "grant_of k (g_reserved (refunded refund g)) = 0"
    by (cases k) (simp_all add: refunded_def grant_ZERO_def)
  ultimately show ?thesis using acc acc' [of k] le [of k]
    by (simp add: outstanding_def settle_consumed_def)
qed

lemma refunded_ok:
  assumes ok: "goal_ok g" and acc: "settle_accepted refund g"
  shows "goal_step (settle_consumed refund g) g (refunded refund g)"
proof -
  have run: "g_status g = G_Running" using acc by (simp add: settle_accepted_def)
  have same: "granted_of k (refunded refund g) = granted_of k g" for k
    by (cases k) (simp_all add: refunded_def)
  have "goal_ok (refunded refund g)"
    using ok refunded_books [OF ok acc] same run unfolding goal_ok_def check_envelope_iff
    by (simp add: refunded_def in_flight_def)
  then show ?thesis using refunded_books [OF ok acc] run
    by (simp add: goal_step_def goal_live_def refunded_def)
qed

text \<open>The settlement table: which events a decision can choose, and what each one means.\<close>

lemma settle_decision_cases:
  assumes "settle_decision g status beat policy = Inr (event, due, streak)"
  shows "event \<in> {GE_Recur, GE_Satisfy, GE_Fail, GE_Exhaust} \<and>
    (event = GE_Recur \<longrightarrow> fundable (g_remaining g)) \<and>
    (event = GE_Satisfy \<longleftrightarrow> terminal_status_is_success status \<and> g_cadence g = Once) \<and>
    (event \<noteq> GE_Recur \<longrightarrow> due = beat)"
  using assms
  by (auto simp: settle_decision_def Let_def result_simps split: if_splits cadence.splits)

lemma settle_edge:
  assumes "event \<in> {GE_Recur, GE_Satisfy, GE_Fail, GE_Exhaust}"
  shows "\<exists>s. goal_transition G_Running event = Inr s \<and> \<not> goal_status_is_busy s \<and>
    (s \<in> {G_Active, G_Paused} \<longrightarrow> event = GE_Recur)"
  using assms by (auto simp: goal_transition_def goal_transitions_def)

lemma settle_goal_effect:
  assumes ok: "goal_ok g" and run: "settle_goal status refund beat policy g = (g', r)"
  shows "goal_step (settle_consumed refund g) g g' \<and>
    (\<forall>event. r = Inr event \<longrightarrow> settle_accepted refund g \<and>
       (\<exists>due streak s. settle_decision (refunded refund g) status beat policy = Inr (event, due, streak) \<and>
          goal_transition G_Running event = Inr s \<and>
          g' = (refunded refund g)\<lparr>g_status := s, g_next_due := due, g_failures := streak,
                 g_last_status := Some status, g_run := None\<rparr>))"
proof (cases "settle_accepted refund g")
  case False
  then have "g' = g" "\<not> is_ok r"
    using run by (auto simp: settle_goal_def settle_accepted_def not_le [symmetric] split: if_splits)
  then show ?thesis using ok False by (auto simp: goal_step_def settle_consumed_def)
next
  case True
  then have g1: "g_status (refunded refund g) = G_Running"
    by (simp add: refunded_def settle_accepted_def)
  note step1 = refunded_ok [OF ok True]
  have run': "settle_goal status refund beat policy g =
      (case settle_decision (refunded refund g) status beat policy of
         Inl e \<Rightarrow> (refunded refund g, Inl e)
       | Inr (event, due, streak) \<Rightarrow>
           (case goal_transition G_Running event of
              Inl e \<Rightarrow> (refunded refund g, Inl e)
            | Inr s \<Rightarrow>
                (let g2 = (refunded refund g)\<lparr>g_status := s, g_next_due := due, g_failures := streak,
                             g_last_status := Some status, g_run := None\<rparr>
                 in (g2, and_then (check_envelope g2) (\<lambda>_. Inr event)))))"
    using True unfolding settle_goal_def settle_accepted_def refunded_def Let_def
    by (auto simp: not_less split: sum.splits prod.splits)
  show ?thesis
  proof (cases "settle_decision (refunded refund g) status beat policy")
    case (Inl e)
    then show ?thesis using run run' step1 by auto
  next
    case (Inr d)
    obtain event due streak where d: "d = (event, due, streak)" by (metis prod_cases3)
    note dec = settle_decision_cases [OF Inr [unfolded d]]
    obtain s where s: "goal_transition G_Running event = Inr s" "\<not> goal_status_is_busy s"
      "s \<in> {G_Active, G_Paused} \<longrightarrow> event = GE_Recur"
      using settle_edge dec by blast
    define g2 where "g2 = (refunded refund g)\<lparr>g_status := s, g_next_due := due, g_failures := streak,
                             g_last_status := Some status, g_run := None\<rparr>"
    have books: "outstanding k g2 = outstanding k (refunded refund g)"
      "granted_of k g2 = granted_of k (refunded refund g)" for k
      by (cases k; simp add: outstanding_def g2_def)+
    have ok2: "goal_ok g2"
      using step1 s(2) books unfolding goal_step_def goal_ok_def check_envelope_iff
      by (simp add: g2_def in_flight_def) (simp add: refunded_def)
    have live: "goal_live g2" if "goal_live g"
      using that step1 s dec by (auto simp: goal_step_def goal_live_def g2_def)
    have "g' = g2" "r = Inr event"
      using run run' Inr d s ok2 by (auto simp: g2_def goal_ok_def)
    then show ?thesis using step1 ok2 live books Inr d s True
      by (auto simp: goal_step_def g2_def)
  qed
qed

section \<open>The ledger as a list of goals\<close>

text \<open>The abstract content of a ledger and its invariant: canonical slots, distinct identifiers below the
  allocator, every goal inside its envelope.\<close>

definition allocated :: "goal_ledger \<Rightarrow> nat" where
  "allocated l = (if gl_next_id l = 0 then 2 ^ 16 else unat (gl_next_id l))"

definition ledger_ok :: "goal_ledger \<Rightarrow> bool" where
  "ledger_ok l \<longleftrightarrow>
     gl_slots l = pack max_goals (ledger_goals l) \<and> length (ledger_goals l) \<le> max_goals \<and>
     distinct (map g_id (ledger_goals l)) \<and>
     (\<forall>g \<in> set (ledger_goals l). goal_ok g \<and> unat (goal_id_get (g_id g)) < allocated l)"

definition ledger_live :: "goal_ledger \<Rightarrow> bool" where
  "ledger_live l \<longleftrightarrow> ledger_ok l \<and> (\<forall>g \<in> set (ledger_goals l). goal_live g)"

lemma ledger_restoring_empty: "ledger_goals (ledger_restoring n) = [] \<and> ledger_ok (ledger_restoring n)"
  by (simp add: ledger_restoring_def ledger_goals_def ledger_ok_def pack_def)

lemma ledger_new_restoring: "ledger_new = ledger_restoring 1"
  by (simp add: ledger_new_def ledger_restoring_def)

lemma ledger_new_live: "ledger_live ledger_new \<and> ledger_goals ledger_new = []"
  using ledger_restoring_empty [of 1] by (simp add: ledger_live_def ledger_new_restoring)

lemma ledger_get_iff:
  "ledger_ok l \<Longrightarrow> ledger_get l i = Some g \<longleftrightarrow> g \<in> set (ledger_goals l) \<and> g_id g = i"
  unfolding ledger_get_def ledger_ok_def by (simp add: find_distinct_key)

lemma ledger_get_None: "ledger_get l i = None \<longleftrightarrow> (\<forall>g \<in> set (ledger_goals l). g_id g \<noteq> i)"
  by (auto simp: ledger_get_def find_None_iff)

lemma position_key_update:
  "distinct (map key xs) \<Longrightarrow>
   (case position (\<lambda>x. key x = i) xs of None \<Rightarrow> xs | Some n \<Rightarrow> xs[n := f (xs ! n)]) =
   map (\<lambda>x. if key x = i then f x else x) xs"
proof (induction xs)
  case (Cons x xs)
  show ?case
  proof (cases "key x = i")
    case True
    then have "\<forall>y \<in> set xs. key y \<noteq> i"
      using Cons.prems by (metis distinct.simps(2) image_eqI list.simps(9) list.set_map)
    then have "map (\<lambda>x. if key x = i then f x else x) xs = xs" by (intro map_idI) simp
    with True show ?thesis by simp
  next
    case False
    then show ?thesis using Cons by (auto split: option.splits)
  qed
qed simp

lemma on_goal_effect:
  assumes ok: "ledger_ok l" and get: "ledger_get l i = Some g"
    and step: "goal_step c g (fst (f g))"
  shows "snd (on_goal l i f) = snd (f g) \<and> ledger_ok (fst (on_goal l i f)) \<and>
    gl_next_id (fst (on_goal l i f)) = gl_next_id l \<and>
    ledger_goals (fst (on_goal l i f)) =
      map (\<lambda>h. if g_id h = i then fst (f g) else h) (ledger_goals l)"
proof -
  let ?l = "fst (on_goal l i f)" and ?gs = "ledger_goals l"
  let ?gs' = "map (\<lambda>h. if g_id h = i then fst (f g) else h) ?gs"
  have g: "g \<in> set ?gs" "g_id g = i" using get ledger_get_iff [OF ok] by auto
  have inv: "gl_slots l = pack max_goals ?gs" "length ?gs \<le> max_goals" "distinct (map g_id ?gs)"
    using ok by (simp_all add: ledger_ok_def)
  have slots: "gl_slots ?l = pack max_goals ?gs'"
    using inv get
    by (simp add: on_goal_def update_first_pack position_key_update [where f = "\<lambda>_. fst (f g)"])
  then have goals: "ledger_goals ?l = ?gs'" by (simp add: ledger_goals_def flatten_pack)
  have ids: "map g_id ?gs' = map g_id ?gs"
    using step g by (auto simp: goal_step_def)
  have next_id: "gl_next_id ?l = gl_next_id l" using get by (simp add: on_goal_def)
  then have alloc: "allocated ?l = allocated l" by (simp add: allocated_def)
  have "ledger_ok ?l"
    unfolding ledger_ok_def goals ids alloc slots
    using inv ok step g by (auto simp: ledger_ok_def goal_step_def)
  then show ?thesis using get goals next_id by (simp add: on_goal_def)
qed

lemma on_goal_unknown: "ledger_get l i = None \<Longrightarrow> on_goal l i f = (l, Inl (E_GoalUnknown (goal_id_get i)))"
  by (simp add: on_goal_def)

lemma ledger_reservation_Inr:
  assumes "ledger_ok l"
  shows "ledger_reservation l i = Inr r \<longleftrightarrow>
    (\<exists>g \<in> set (ledger_goals l). g_id g = i \<and> g_status g = G_Active \<and> fundable (g_remaining g) \<and>
       r = reservation_of g)"
proof -
  have spawn: "goal_transition s GE_Spawn = Inr t \<longleftrightarrow> s = G_Active \<and> t = G_Running" for s t
    by (auto simp: goal_transition_Inr_iff goal_transitions_def)
  show ?thesis
  proof (cases "ledger_get l i")
    case None
    then have "\<forall>g \<in> set (ledger_goals l). g_id g \<noteq> i" by (simp add: ledger_get_None)
    with None show ?thesis by (auto simp: ledger_reservation_def)
  next
    case (Some g)
    then have g: "g \<in> set (ledger_goals l)" "g_id g = i"
      and uniq: "\<And>h. h \<in> set (ledger_goals l) \<Longrightarrow> g_id h = i \<Longrightarrow> h = g"
      using ledger_get_iff [OF assms] by (auto, metis option.inject)
    have "ledger_reservation l i = Inr r \<longleftrightarrow>
        g_status g = G_Active \<and> fundable (g_remaining g) \<and> r = reservation_of g"
      using Some by (auto simp: ledger_reservation_def result_simps spawn reservation_of_def)
    with g uniq show ?thesis by blast
  qed
qed

section \<open>Admission and insertion\<close>

lemma ledger_admit_Inr:
  assumes "ledger_admit l spec ceiling now = Inr g"
  shows "goal_ok g \<and> goal_live g \<and> goal_id_get (g_id g) = gl_next_id l \<and> gl_next_id l \<noteq> 0 \<and>
    g_status g = G_Active \<and> g_envelope g = gs_envelope spec \<and>
    g_capabilities g = gs_capabilities spec \<and>
    \<not> widens (gs_capabilities spec) ceiling \<and> (\<forall>k. outstanding k g = granted_of k g)"
proof -
  have "outstanding k g = granted_of k g" for k
    using assms by (cases k) (auto simp: ledger_admit_def result_simps outstanding_def grant_ZERO_def
        split: if_splits)
  with assms show ?thesis
    by (auto simp: ledger_admit_def result_simps goal_ok_def check_envelope_iff goal_live_def
        envelope_validate_def goal_id_new_def in_flight_def fundable_def word_le_nat_alt
        unat_gt_0 Suc_le_eq dest!: masked_ingest.ing_clean split: if_splits)
qed

lemma unat_eq_0_iff: "unat (w :: 'a::len word) = 0 \<longleftrightarrow> w = 0"
  by (metis unat_0 unsigned_word_eqI)

lemma ledger_insert_Inr:
  assumes ok: "ledger_ok l" and ins: "ledger_insert l g = Inr l'" and nz: "goal_id_get (g_id g) \<noteq> 0"
  shows "ledger_ok l' \<and> ledger_goals l' = ledger_goals l @ [g] \<and>
    allocated l' = Suc (allocated l) \<and> unat (goal_id_get (g_id g)) = allocated l"
proof -
  let ?gs = "ledger_goals l"
  have inv: "gl_slots l = pack max_goals ?gs" "length ?gs \<le> max_goals" "distinct (map g_id ?gs)"
    "\<forall>h \<in> set ?gs. goal_ok h \<and> unat (goal_id_get (g_id h)) < allocated l"
    using ok by (simp_all add: ledger_ok_def)
  have i: "goal_id_get (g_id g) = gl_next_id l" and chk: "check_envelope g = Inr ()"
    and slots: "gl_slots l' = pack max_goals (?gs @ [g])" and room: "length ?gs < max_goals"
    and nxt: "gl_next_id l' = (case checked_add (gl_next_id l) 1 of Some n \<Rightarrow> n | None \<Rightarrow> 0)"
    using ins inv(1) by (auto simp: ledger_insert_def result_simps fill_free_pack split: if_splits)
  have goals: "ledger_goals l' = ?gs @ [g]" by (simp add: ledger_goals_def slots flatten_pack)
  have a: "unat (goal_id_get (g_id g)) = allocated l" using i nz by (simp add: allocated_def)
  have a': "allocated l' = Suc (allocated l)"
  proof (cases "checked_add (gl_next_id l) 1")
    case None
    then have "2 ^ 16 \<le> unat (gl_next_id l) + 1" by (simp add: checked_add_def split: if_splits)
    moreover have "unat (gl_next_id l) < 2 ^ 16"
      using unsigned_less [of "gl_next_id l", where ?'a = nat] by simp
    ultimately show ?thesis using None nxt nz i by (simp add: allocated_def)
  next
    case (Some n)
    then have "unat n = Suc (unat (gl_next_id l))" using unat_checked_add by fastforce
    moreover from this have "n \<noteq> 0" by auto
    ultimately show ?thesis using Some nxt nz i by (simp add: allocated_def)
  qed
  have "g_id g \<notin> g_id ` set ?gs" using inv(4) a by auto
  then have "ledger_ok l'"
    unfolding ledger_ok_def goals slots a' using inv chk nz a room
    by (auto simp: goal_ok_def less_SucI)
  then show ?thesis using goals a a' by simp
qed

lemma ledger_reap_effect:
  assumes ok: "ledger_ok l"
  shows "ledger_ok (fst (ledger_reap l)) \<and> gl_next_id (fst (ledger_reap l)) = gl_next_id l \<and>
    ledger_goals (fst (ledger_reap l)) =
      filter (\<lambda>g. \<not> goal_status_is_terminal (g_status g)) (ledger_goals l)"
proof -
  let ?kept = "filter (\<lambda>g. \<not> goal_status_is_terminal (g_status g)) (ledger_goals l)"
  have inv: "length (ledger_goals l) \<le> max_goals" "distinct (map g_id (ledger_goals l))"
    using ok by (simp_all add: ledger_ok_def)
  then have len: "length ?kept \<le> max_goals" by (meson le_trans length_filter_le)
  then have slots: "gl_slots (fst (ledger_reap l)) = pack max_goals ?kept"
    by (simp add: ledger_reap_def Let_def)
  then have goals: "ledger_goals (fst (ledger_reap l)) = ?kept"
    by (simp add: ledger_goals_def flatten_pack)
  have nxt: "gl_next_id (fst (ledger_reap l)) = gl_next_id l"
    by (simp add: ledger_reap_def Let_def)
  have "ledger_ok (fst (ledger_reap l))"
    unfolding ledger_ok_def goals slots using len inv ok nxt
    by (auto simp: distinct_map_filter ledger_ok_def allocated_def)
  then show ?thesis using goals nxt by simp
qed

section \<open>Everything the supervisor does to the ledger\<close>

datatype ledger_op =
    L_Admit goal_spec capabilities beat
  | L_Spawn goal_id run_id grant
  | L_Park goal_id beat
  | L_Resume goal_id
  | L_Settle goal_id terminal_status grant beat schedule_policy
  | L_Control goal_id goal_event beat
  | L_Reap

text \<open>The ledger after an operation, failed or not.\<close>

fun ledger_apply :: "ledger_op \<Rightarrow> goal_ledger \<Rightarrow> goal_ledger" where
  "ledger_apply (L_Admit spec ceiling now) l =
     or_same l (and_then (ledger_admit l spec ceiling now) (ledger_insert l))"
| "ledger_apply (L_Spawn i run grant) l = fst (ledger_spawn l i run grant)"
| "ledger_apply (L_Park i beat) l = fst (ledger_park l i beat)"
| "ledger_apply (L_Resume i) l = fst (ledger_resume l i)"
| "ledger_apply (L_Settle i status refund beat policy) l = fst (ledger_settle l i status refund beat policy)"
| "ledger_apply (L_Control i event now) l = fst (ledger_control l i event now)"
| "ledger_apply L_Reap l = fst (ledger_reap l)"

fun ledger_run :: "ledger_op list \<Rightarrow> goal_ledger \<Rightarrow> goal_ledger" where
  "ledger_run [] l = l"
| "ledger_run (op # ops) l = ledger_run ops (ledger_apply op l)"

text \<open>What the settlements of a trace consumed for goal \<open>i\<close>.\<close>

definition op_consumed :: "ledger_op \<Rightarrow> goal_ledger \<Rightarrow> goal_id \<Rightarrow> grant_unit \<Rightarrow> nat" where
  "op_consumed op l i k =
     (case op of
        L_Settle j _ refund _ _ \<Rightarrow>
          if j = i then (case ledger_get l i of Some g \<Rightarrow> settle_consumed refund g k | None \<Rightarrow> 0) else 0
      | _ \<Rightarrow> 0)"

fun consumed :: "ledger_op list \<Rightarrow> goal_ledger \<Rightarrow> goal_id \<Rightarrow> grant_unit \<Rightarrow> nat" where
  "consumed [] l i k = 0"
| "consumed (op # ops) l i k = op_consumed op l i k + consumed ops (ledger_apply op l) i k"

text \<open>One step of the ledger: every goal descends from one that was there, or is newly admitted with a
  fresh identifier and its whole envelope.\<close>

definition ledger_step ::
  "(goal_id \<Rightarrow> grant_unit \<Rightarrow> nat) \<Rightarrow> goal_ledger \<Rightarrow> goal_ledger \<Rightarrow> bool" where
  "ledger_step c l l' \<longleftrightarrow>
     ledger_live l' \<and> allocated l \<le> allocated l' \<and>
     (\<forall>g' \<in> set (ledger_goals l').
        (\<exists>g \<in> set (ledger_goals l). goal_step (c (g_id g)) g g') \<or>
        allocated l \<le> unat (goal_id_get (g_id g')) \<and> (\<forall>k. outstanding k g' = granted_of k g'))"

lemma ledger_step_refl: "ledger_live l \<Longrightarrow> (\<And>i k. c i k = 0) \<Longrightarrow> ledger_step c l l"
  by (auto simp: ledger_step_def ledger_live_def ledger_ok_def goal_step_def)

lemma on_goal_step:
  assumes live: "ledger_live l"
    and step: "\<And>g. ledger_get l i = Some g \<Longrightarrow> goal_step (c i) g (fst (f g))"
    and zero: "\<And>j k. j \<noteq> i \<or> ledger_get l i = None \<Longrightarrow> c j k = 0"
  shows "ledger_step c l (fst (on_goal l i f))"
proof (cases "ledger_get l i")
  case None
  then show ?thesis using zero live by (simp add: on_goal_unknown ledger_step_refl)
next
  case (Some g)
  have ok: "ledger_ok l" using live by (simp add: ledger_live_def)
  note eff = on_goal_effect [where f = f, OF ok Some step [OF Some]]
  have g: "g \<in> set (ledger_goals l)" "g_id g = i" using Some ledger_get_iff [OF ok] by auto
  have one: "\<exists>h \<in> set (ledger_goals l). goal_step (c (g_id h)) h h'"
    if h': "h' \<in> set (ledger_goals (fst (on_goal l i f)))" for h'
  proof -
    from h' eff obtain h where h: "h \<in> set (ledger_goals l)"
      "h' = (if g_id h = i then fst (f g) else h)" by auto
    show ?thesis
    proof (cases "g_id h = i")
      case True
      then show ?thesis using h step [OF Some] g by (intro bexI [of _ g]) auto
    next
      case False
      moreover have "goal_ok h" using h ok by (simp add: ledger_ok_def)
      ultimately show ?thesis using h zero by (auto simp: goal_step_def)
    qed
  qed
  moreover have "\<forall>h' \<in> set (ledger_goals (fst (on_goal l i f))). goal_live h'"
    using one live by (fastforce simp: goal_step_def ledger_live_def)
  ultimately show ?thesis using eff by (simp add: ledger_step_def ledger_live_def allocated_def)
qed

lemma admit_step:
  assumes live: "ledger_live l" and zero: "\<And>i k. c i k = 0"
  shows "ledger_step c l (or_same l (and_then (ledger_admit l spec ceiling now) (ledger_insert l)))"
proof (cases "and_then (ledger_admit l spec ceiling now) (ledger_insert l)")
  case (Inl e)
  then show ?thesis using live zero by (simp add: or_same_def ledger_step_refl)
next
  case (Inr l')
  then obtain g where g: "ledger_admit l spec ceiling now = Inr g" and ins: "ledger_insert l g = Inr l'"
    by (auto simp: result_simps)
  have ok: "ledger_ok l" using live by (simp add: ledger_live_def)
  note adm = ledger_admit_Inr [OF g]
  then have nz: "goal_id_get (g_id g) \<noteq> 0" by simp
  note eff = ledger_insert_Inr [OF ok ins nz]
  have "ledger_live l'" using eff live adm by (simp add: ledger_live_def)
  moreover have "goal_step (c (g_id h)) h h" if "h \<in> set (ledger_goals l)" for h
    using that ok zero by (simp add: goal_step_def ledger_ok_def)
  ultimately have "ledger_step c l l'"
    unfolding ledger_step_def using eff adm by (simp add: ball_Un) blast
  then show ?thesis by (simp add: Inr or_same_def)
qed

lemma spawn_step:
  assumes live: "ledger_live l" and zero: "\<And>i k. c i k = 0"
  shows "ledger_step c l (fst (ledger_spawn l i run grant))"
proof (cases "ledger_reservation l i = Inr grant")
  case True
  have ok: "ledger_ok l" using live by (simp add: ledger_live_def)
  from True obtain g where g: "g \<in> set (ledger_goals l)" "g_id g = i" "g_status g = G_Active"
    "fundable (g_remaining g)" "grant = reservation_of g"
    by (auto simp: ledger_reservation_Inr [OF ok])
  have "ledger_step c l (fst (on_goal l i (spawn_goal run grant)))"
  proof (rule on_goal_step [OF live])
    fix h assume "ledger_get l i = Some h"
    then have "h = g" using g ledger_get_iff [OF ok] by (metis option.inject)
    moreover have gok: "goal_ok g" using g ok by (simp add: ledger_ok_def)
    have "goal_step (c i) g (fst (spawn_goal run (reservation_of g) g))"
      using spawn_goal_effect [OF gok g(3,4) surjective_pairing, of run] zero
      unfolding goal_step_def by simp
    ultimately show "goal_step (c i) h (fst (spawn_goal run grant h))" using g(5) by simp
  qed (simp add: zero)
  then show ?thesis using True by (simp add: ledger_spawn_def)
next
  case False
  then have "fst (ledger_spawn l i run grant) = l" by (auto simp: ledger_spawn_def split: sum.splits)
  then show ?thesis using live zero by (simp add: ledger_step_refl)
qed

lemma reap_step:
  assumes live: "ledger_live l" and zero: "\<And>i k. c i k = 0"
  shows "ledger_step c l (fst (ledger_reap l))"
proof -
  have ok: "ledger_ok l" using live by (simp add: ledger_live_def)
  have same: "goal_step (c (g_id h)) h h" if "h \<in> set (ledger_goals l)" for h
    using that ok zero by (simp add: goal_step_def ledger_ok_def)
  note eff = ledger_reap_effect [OF ok]
  then have sub: "set (ledger_goals (fst (ledger_reap l))) \<subseteq> set (ledger_goals l)" by auto
  then have "ledger_live (fst (ledger_reap l))" using eff live by (auto simp: ledger_live_def)
  moreover have "allocated (fst (ledger_reap l)) = allocated l" using eff by (simp add: allocated_def)
  ultimately show ?thesis using same sub unfolding ledger_step_def by auto
qed

lemma get_goal_ok: "ledger_live l \<Longrightarrow> ledger_get l i = Some g \<Longrightarrow> goal_ok g"
  by (auto simp: ledger_live_def ledger_get_iff ledger_ok_def)

text \<open>The operations that change one goal and consume nothing.\<close>

lemma one_goal_step:
  assumes live: "ledger_live l" and zero: "\<And>i k. c i k = 0"
    and step: "\<And>g g' r. goal_ok g \<Longrightarrow> f g = (g', r) \<Longrightarrow> goal_step (\<lambda>_. 0) g g'"
  shows "ledger_step c l (fst (on_goal l i f))"
proof (rule on_goal_step [OF live])
  fix g assume "ledger_get l i = Some g"
  from get_goal_ok [OF live this] show "goal_step (c i) g (fst (f g))"
    using step [of g] zero by (cases "f g") (auto simp: goal_step_def)
qed (simp add: zero)

lemma settle_step:
  assumes live: "ledger_live l"
  shows "ledger_step (op_consumed (L_Settle i status refund beat policy) l) l
    (fst (ledger_settle l i status refund beat policy))"
  unfolding ledger_settle_def
proof (rule on_goal_step [OF live])
  fix g assume get: "ledger_get l i = Some g"
  then have "op_consumed (L_Settle i status refund beat policy) l i = settle_consumed refund g"
    by (auto simp: op_consumed_def)
  then show "goal_step (op_consumed (L_Settle i status refund beat policy) l i) g
      (fst (settle_goal status refund beat policy g))"
    using settle_goal_effect [OF get_goal_ok [OF live get], of status refund beat policy]
    by (cases "settle_goal status refund beat policy g") simp
qed (auto simp: op_consumed_def)

lemma ledger_apply_step:
  assumes live: "ledger_live l"
  shows "ledger_step (op_consumed op l) l (ledger_apply op l)"
proof (cases op)
  case L_Settle
  then show ?thesis using settle_step [OF live] by simp
qed (auto simp: op_consumed_def ledger_park_def ledger_resume_def ledger_control_def
      intro!: admit_step spawn_step reap_step one_goal_step live
      dest: park_goal_effect resume_goal_effect control_goal_effect)

lemma ledger_run_append: "ledger_run (ops @ ops') l = ledger_run ops' (ledger_run ops l)"
  by (induction ops arbitrary: l) auto

text \<open>The books balance along a trace: what a goal holds and what was consumed is what it was granted.\<close>

definition books :: "(goal_id \<Rightarrow> grant_unit \<Rightarrow> nat) \<Rightarrow> goal_ledger \<Rightarrow> bool" where
  "books c l \<longleftrightarrow>
     (\<forall>g \<in> set (ledger_goals l). \<forall>k. outstanding k g + c (g_id g) k = granted_of k g) \<and>
     (\<forall>i k. allocated l \<le> unat (goal_id_get i) \<longrightarrow> c i k = 0)"

lemma granted_of_step: "goal_step c g g' \<Longrightarrow> granted_of k g' = granted_of k g"
  by (cases k) (simp_all add: goal_step_def)

lemma op_consumed_unallocated:
  assumes "ledger_live l" and "allocated l \<le> unat (goal_id_get i)"
  shows "op_consumed op l i k = 0"
proof -
  have "ledger_get l i = None"
    using assms by (fastforce simp: ledger_get_None ledger_live_def ledger_ok_def)
  then show ?thesis by (simp add: op_consumed_def split: ledger_op.splits)
qed

lemma books_step:
  assumes live: "ledger_live l" and books: "books c l"
  shows "books (\<lambda>i k. c i k + op_consumed op l i k) (ledger_apply op l)"
proof -
  note step = ledger_apply_step [OF live, of op]
  have "outstanding k g' + (c (g_id g') k + op_consumed op l (g_id g') k) = granted_of k g'"
    if g': "g' \<in> set (ledger_goals (ledger_apply op l))" for g' k
  proof (cases "\<exists>g \<in> set (ledger_goals l). goal_step (op_consumed op l (g_id g)) g g'")
    case True
    then obtain g where "g \<in> set (ledger_goals l)" and st: "goal_step (op_consumed op l (g_id g)) g g'"
      by blast
    moreover from this books have "outstanding k g + c (g_id g) k = granted_of k g"
      by (simp add: books_def)
    ultimately show ?thesis using granted_of_step [OF st, of k] by (simp add: goal_step_def)
  next
    case False
    then have new: "allocated l \<le> unat (goal_id_get (g_id g'))" "outstanding k g' = granted_of k g'"
      using step g' by (auto simp: ledger_step_def)
    then show ?thesis using books op_consumed_unallocated [OF live new(1)] by (simp add: books_def)
  qed
  moreover have "c i k + op_consumed op l i k = 0"
    if "allocated (ledger_apply op l) \<le> unat (goal_id_get i)" for i k
  proof -
    have "allocated l \<le> unat (goal_id_get i)" using that step by (simp add: ledger_step_def)
    then show ?thesis using books op_consumed_unallocated [OF live] by (simp add: books_def)
  qed
  ultimately show ?thesis by (auto simp: books_def)
qed

lemma ledger_run_books:
  "ledger_live l \<Longrightarrow> books c l \<Longrightarrow>
   ledger_live (ledger_run ops l) \<and> books (\<lambda>i k. c i k + consumed ops l i k) (ledger_run ops l)"
proof (induction ops arbitrary: l c)
  case (Cons op ops)
  have "ledger_live (ledger_apply op l)"
    using ledger_apply_step [OF Cons.prems(1), of op] by (simp add: ledger_step_def)
  from Cons.IH [OF this books_step [OF Cons.prems, of op]] show ?case by (simp add: add.assoc)
qed simp

lemma ledger_run_live: "ledger_live (ledger_run ops ledger_new)"
  using ledger_run_books [of ledger_new "\<lambda>_ _. 0" ops] ledger_new_live by (simp add: books_def)

text \<open>Identities persist: a goal with an identifier already in use is the same objective under the same
  grants.\<close>

lemma ledger_run_identity:
  assumes "ledger_live l" and "g' \<in> set (ledger_goals (ledger_run ops l))"
  shows "(\<exists>g \<in> set (ledger_goals l). g_id g = g_id g' \<and> g_envelope g = g_envelope g' \<and>
            g_objective g = g_objective g' \<and> g_capabilities g = g_capabilities g') \<or>
         allocated l \<le> unat (goal_id_get (g_id g'))"
  using assms
proof (induction ops arbitrary: l)
  case Nil
  then show ?case by auto
next
  case (Cons op ops)
  note step = ledger_apply_step [OF Cons.prems(1), of op]
  then have live: "ledger_live (ledger_apply op l)" by (simp add: ledger_step_def)
  from Cons.prems(2) have "g' \<in> set (ledger_goals (ledger_run ops (ledger_apply op l)))" by simp
  from Cons.IH [OF live this] show ?case
  proof (elim disjE bexE conjE)
    fix h assume h: "h \<in> set (ledger_goals (ledger_apply op l))" and id: "g_id h = g_id g'"
      and same: "g_envelope h = g_envelope g'" "g_objective h = g_objective g'"
        "g_capabilities h = g_capabilities g'"
    from h step consider g c where "g \<in> set (ledger_goals l)" "goal_step c g h"
      | "allocated l \<le> unat (goal_id_get (g_id h))" unfolding ledger_step_def by blast
    then show ?thesis
    proof cases
      case 1
      then show ?thesis using id same by (intro disjI1 bexI [of _ g]) (simp_all add: goal_step_def)
    next
      case 2
      then show ?thesis using id by simp
    qed
  next
    assume "allocated (ledger_apply op l) \<le> unat (goal_id_get (g_id g'))"
    then show ?thesis using step by (auto simp: ledger_step_def)
  qed
qed

section \<open>Restoring a ledger\<close>

lemma ledger_get_None_image: "ledger_get l i = None \<longleftrightarrow> i \<notin> g_id ` set (ledger_goals l)"
  by (auto simp: ledger_get_None)

definition with_goals :: "goal_ledger \<Rightarrow> goal list \<Rightarrow> goal_ledger" where
  "with_goals l gs = l\<lparr>gl_slots := pack max_goals gs\<rparr>"

lemma with_goals_simps [simp]:
  "ledger_goals (with_goals l gs) = gs" "gl_next_id (with_goals l gs) = gl_next_id l"
  "allocated (with_goals l gs) = allocated l" "with_goals (with_goals l gs) hs = with_goals l hs"
  by (simp_all add: with_goals_def ledger_goals_def flatten_pack allocated_def)

lemma with_goals_same: "ledger_ok l \<Longrightarrow> with_goals l (ledger_goals l) = l"
  by (cases l) (simp add: with_goals_def ledger_ok_def)

lemma ledger_ok_with_goals:
  "ledger_ok (with_goals l gs) \<longleftrightarrow> length gs \<le> max_goals \<and> distinct (map g_id gs) \<and>
     (\<forall>g \<in> set gs. goal_ok g \<and> unat (goal_id_get (g_id g)) < allocated l)"
  by (simp add: ledger_ok_def) (simp add: with_goals_def)

lemma restore_goal_Inr:
  assumes ok: "ledger_ok l" and nz: "goal_id_get (g_id g) \<noteq> 0"
  shows "restore_goal l g = Inr m \<longleftrightarrow>
    m = with_goals l (ledger_goals l @ [g]) \<and> ledger_ok (with_goals l (ledger_goals l @ [g])) \<and>
    g_status g \<noteq> G_Running"
proof -
  have small: "unat (goal_id_get (g_id g)) < 2 ^ 16"
    using unsigned_less [of "goal_id_get (g_id g)", where ?'a = nat] by simp
  then have "gl_next_id l \<noteq> 0 \<and> gl_next_id l \<le> goal_id_get (g_id g) \<longleftrightarrow>
      \<not> unat (goal_id_get (g_id g)) < allocated l"
    by (auto simp: allocated_def word_le_nat_alt)
  moreover have "ledger_ok (with_goals l (ledger_goals l @ [g])) \<longleftrightarrow> length (ledger_goals l) < max_goals \<and>
      ledger_get l (g_id g) = None \<and> check_envelope g = Inr () \<and>
      unat (goal_id_get (g_id g)) < allocated l"
    unfolding ledger_ok_with_goals using ok nz
    by (auto simp: ledger_get_None_image ledger_ok_def goal_ok_def Suc_le_eq)
  moreover have "gl_slots l = pack max_goals (ledger_goals l)" using ok by (simp add: ledger_ok_def)
  ultimately show ?thesis
    by (auto simp: restore_goal_def result_simps fill_free_pack with_goals_def)
qed

lemma restore_goals_Inr:
  assumes "ledger_ok l" and "\<forall>g \<in> set gs. goal_id_get (g_id g) \<noteq> 0"
  shows "restore_goals l gs = Inr l' \<longleftrightarrow>
    l' = with_goals l (ledger_goals l @ gs) \<and> ledger_ok (with_goals l (ledger_goals l @ gs)) \<and>
    (\<forall>g \<in> set gs. g_status g \<noteq> G_Running)"
  using assms
proof (induction gs arbitrary: l)
  case Nil
  then show ?case by (auto simp: with_goals_same)
next
  case (Cons g gs)
  let ?ext = "with_goals l (ledger_goals l @ [g])"
  have "goal_id_get (g_id g) \<noteq> 0" using Cons.prems by simp
  note one = restore_goal_Inr [OF Cons.prems(1) this]
  show ?case
  proof (cases "ledger_ok ?ext")
    case True
    have "\<forall>g \<in> set gs. goal_id_get (g_id g) \<noteq> 0" using Cons.prems by simp
    from Cons.IH [OF True this] show ?thesis
      by (auto simp: result_simps one True)
  next
    case False
    then have "\<not> ledger_ok (with_goals l (ledger_goals l @ g # gs))"
      by (auto simp: ledger_ok_with_goals)
    then show ?thesis using False by (auto simp: result_simps one)
  qed
qed

lemma restored_ledger_iff:
  assumes "\<forall>g \<in> set gs. goal_id_get (g_id g) \<noteq> 0"
  shows "restore_goals (ledger_restoring n) gs = Inr l \<longleftrightarrow>
    ledger_ok l \<and> ledger_goals l = gs \<and> gl_next_id l = n \<and> \<not> has_running l"
proof -
  note empty = ledger_restoring_empty [of n]
  have "l = with_goals (ledger_restoring n) gs"
    if "ledger_ok l" "ledger_goals l = gs" "gl_next_id l = n"
    using with_goals_same [OF that(1)] that(2,3)
    by (cases l) (simp add: with_goals_def ledger_restoring_def)
  then show ?thesis
    unfolding restore_goals_Inr [OF conjunct2 [OF empty] assms]
    using empty by (auto simp: has_running_def list_ex_iff) (simp add: ledger_restoring_def)
qed

section \<open>Scheduling\<close>

lemma pick_Resume:
  assumes "ledger_pick l beat ready = Pick_Resume i"
  shows "\<exists>g \<in> set (ledger_goals l). g_id g = i \<and> g_status g = G_Waiting \<and> ready i \<and>
    (\<forall>h \<in> set (ledger_goals l). g_status h = G_Waiting \<and> ready (g_id h) \<longrightarrow>
       (Reverse (g_priority g), g_id g) \<le> (Reverse (g_priority h), g_id h))"
proof -
  obtain g where "min_by_key (\<lambda>g. (Reverse (g_priority g), g_id g))
      (filter (\<lambda>g. g_status g = G_Waiting \<and> ready (g_id g)) (ledger_goals l)) = Some g" "g_id g = i"
    using assms by (auto simp: ledger_pick_def split: option.splits)
  with min_by_key_least [OF this(1)] show ?thesis by (intro bexI [of _ g]) simp_all
qed

lemma pick_Spawn:
  assumes "ledger_pick l beat ready = Pick_Spawn i"
  shows "\<exists>g \<in> set (ledger_goals l). g_id g = i \<and> g_status g = G_Active \<and> g_next_due g \<le> beat \<and>
    (\<forall>h \<in> set (ledger_goals l). \<not> (g_status h = G_Waiting \<and> ready (g_id h))) \<and>
    (\<forall>h \<in> set (ledger_goals l). g_status h = G_Active \<and> g_next_due h \<le> beat \<longrightarrow>
       (Reverse (g_priority g), g_next_due g, g_id g) \<le> (Reverse (g_priority h), g_next_due h, g_id h))"
proof -
  have none: "filter (\<lambda>g. g_status g = G_Waiting \<and> ready (g_id g)) (ledger_goals l) = []"
    using assms by (auto simp: ledger_pick_def split: option.splits)
  obtain g where "min_by_key (\<lambda>g. (Reverse (g_priority g), g_next_due g, g_id g))
      (filter (\<lambda>g. g_status g = G_Active \<and> g_next_due g \<le> beat) (ledger_goals l)) = Some g" "g_id g = i"
    using assms by (auto simp: ledger_pick_def split: option.splits)
  with min_by_key_least [OF this(1)] none show ?thesis
    by (intro bexI [of _ g]) (simp_all add: filter_empty_conv)
qed

lemma pick_Idle:
  "ledger_pick l beat ready = Pick_Idle \<longleftrightarrow>
    (\<forall>h \<in> set (ledger_goals l). \<not> (g_status h = G_Waiting \<and> ready (g_id h)) \<and>
                             \<not> (g_status h = G_Active \<and> g_next_due h \<le> beat))"
proof
  assume "ledger_pick l beat ready = Pick_Idle"
  then show "\<forall>h \<in> set (ledger_goals l). \<not> (g_status h = G_Waiting \<and> ready (g_id h)) \<and>
      \<not> (g_status h = G_Active \<and> g_next_due h \<le> beat)"
    by (auto simp: ledger_pick_def filter_empty_conv split: option.splits)
next
  assume "\<forall>h \<in> set (ledger_goals l). \<not> (g_status h = G_Waiting \<and> ready (g_id h)) \<and>
      \<not> (g_status h = G_Active \<and> g_next_due h \<le> beat)"
  then have "filter (\<lambda>g. g_status g = G_Waiting \<and> ready (g_id g)) (ledger_goals l) = []"
    "filter (\<lambda>g. g_status g = G_Active \<and> g_next_due g \<le> beat) (ledger_goals l) = []"
    by (auto simp: filter_empty_conv)
  then show "ledger_pick l beat ready = Pick_Idle" by (simp add: ledger_pick_def)
qed

text \<open>A goal the scheduler picks can always be spawned with its own reservation.\<close>

lemma spawn_picked:
  assumes live: "ledger_live l" and g: "g \<in> set (ledger_goals l)" "g_status g = G_Active"
  shows "ledger_reservation l (g_id g) = Inr (reservation_of g) \<and>
    snd (ledger_spawn l (g_id g) run (reservation_of g)) = Inr () \<and>
    1 \<le> gr_turns (reservation_of g) \<and> 1 \<le> gr_mutations (reservation_of g)"
proof -
  have ok: "ledger_ok l" using live by (simp add: ledger_live_def)
  have gl: "goal_live g" "goal_ok g" using live g by (auto simp: ledger_live_def ledger_ok_def)
  then have fund: "fundable (g_remaining g)" using g by (simp add: goal_live_def)
  have res: "ledger_reservation l (g_id g) = Inr (reservation_of g)"
    using g fund by (auto simp: ledger_reservation_Inr [OF ok])
  have get: "ledger_get l (g_id g) = Some g" using ledger_get_iff [OF ok] g by simp
  have "snd (spawn_goal run (reservation_of g) g) = Inr ()"
    using spawn_goal_effect [OF gl(2) g(2) fund surjective_pairing, of run] by simp
  then have "snd (ledger_spawn l (g_id g) run (reservation_of g)) = Inr ()"
    using res get by (simp add: ledger_spawn_def on_goal_def)
  moreover have "1 \<le> gr_turns (reservation_of g)" "1 \<le> gr_mutations (reservation_of g)"
    using fund gl(1)
    by (auto simp: reservation_of_def word_le_nat_alt unat_clamp_u16 fundable_def goal_live_def
        Suc_le_eq unat_gt_0)
  ultimately show ?thesis using res by blast
qed

section \<open>A sample ledger\<close>

definition sample_spec :: goal_spec where
  "sample_spec =
     \<lparr>gs_objective = [0x61], gs_priority = 1, gs_cadence = Every (BeatSpan 2),
      gs_envelope = \<lparr>en_per_run_turns = 2, en_per_run_mutations = 1, en_turns = 6, en_mutations = 3, en_runs = 3\<rparr>,
      gs_capabilities = capabilities_empty\<rparr>"

definition sample_ops :: "ledger_op list" where
  "sample_ops =
     [L_Admit sample_spec capabilities_empty (Beat 1),
      L_Spawn (GoalId 1) (RunId 9) \<lparr>gr_turns = 2, gr_mutations = 1\<rparr>]"

lemma capabilities_empty_widens [simp]: "\<not> widens capabilities_empty capabilities_empty"
  by (simp add: widens_def set_widens_def valid_set_def slice_def capabilities_empty_def)

lemma empty_slots: "replicate max_goals None = [None, None, None, None, None, None, None, None]"
  by (simp add: max_goals_def eval_nat_numeral)

lemma sample_goal:
  "\<exists>g. ledger_goals (ledger_run sample_ops ledger_new) = [g] \<and> g_id g = GoalId 1 \<and>
     g_status g = G_Running \<and> rm_turns (g_remaining g) = 4 \<and>
     g_reserved g = \<lparr>gr_turns = 2, gr_mutations = 1\<rparr> \<and> en_turns (g_envelope g) = 6"
proof -
  obtain n where "ingest [0x61] = Inr n" using masked_ingest.ing_total [of "[0x61]"]
    by (auto simp: memory_input_max_def)
  then show ?thesis
    by (simp add: sample_ops_def sample_spec_def ledger_admit_def envelope_validate_def goal_id_new_def
        ledger_new_def empty_slots or_same_def ledger_insert_def check_envelope_def Let_def
        grant_ZERO_def checked_add_def ledger_spawn_def ledger_reservation_def
        ledger_get_def ledger_goals_def goal_transition_def goal_transitions_def fundable_def
        clamp_u16_def try_from_def on_goal_def spawn_goal_def)
qed

text \<open>A running goal, written out.\<close>

definition sample_running :: goal where
  "sample_running =
     \<lparr>g_id = GoalId 1, g_objective = note_EMPTY, g_priority = 1, g_cadence = Every (BeatSpan 2),
      g_envelope = gs_envelope sample_spec,
      g_remaining = \<lparr>rm_turns = 4, rm_mutations = 2, rm_runs = 2\<rparr>,
      g_reserved = \<lparr>gr_turns = 2, gr_mutations = 1\<rparr>, g_capabilities = capabilities_empty,
      g_status = G_Running, g_next_due = Beat 1, g_failures = 1, g_runs_started = 1,
      g_last_status = None, g_waiting_since = beat_ZERO, g_run = Some (RunId 9)\<rparr>"

definition sample_waiting :: goal where
  "sample_waiting = sample_running\<lparr>g_status := G_Waiting, g_waiting_since := Beat 1\<rparr>"

lemma sample_goals_ok: "goal_ok sample_running" "goal_ok sample_waiting"
  by (simp_all add: goal_ok_def sample_running_def sample_waiting_def check_envelope_def sample_spec_def)

lemma sample_waiting_ledger: "ledger_ok (with_goals (ledger_restoring 2) [sample_waiting])"
  using sample_goals_ok
  by (simp add: ledger_ok_with_goals max_goals_def allocated_def ledger_restoring_def)
    (simp add: sample_waiting_def sample_running_def)

section \<open>Properties\<close>

text \<open>C13: Envelopes are conserved. After any sequence of ledger operations from an empty ledger (failing
  ones, and settlements cut short by an error, included), for every goal and both metered units,
  what remains plus what is reserved plus what its settlements consumed is exactly what its
  envelope granted; the runs it started came out of the envelope one by one; so \<open>check_envelope\<close>
  always passes.\<close>

theorem envelope_conserved:
  assumes "g \<in> set (ledger_goals (ledger_run ops ledger_new))"
  shows "outstanding k g + consumed ops ledger_new (g_id g) k = granted_of k g \<and>
    unat (rm_runs (g_remaining g)) + unat (g_runs_started g) = unat (en_runs (g_envelope g)) \<and>
    check_envelope g = Inr ()"
proof -
  have "books (\<lambda>_ _. 0) ledger_new" using ledger_new_live by (simp add: books_def)
  with ledger_run_books [of ledger_new "\<lambda>_ _. 0" ops] ledger_new_live
  have "ledger_live (ledger_run ops ledger_new)"
    and "books (\<lambda>i k. consumed ops ledger_new i k) (ledger_run ops ledger_new)" by auto
  with assms show ?thesis
    by (auto simp: books_def ledger_live_def ledger_ok_def goal_live_def goal_ok_def)
qed

theorem envelope_conserved_witness:
  "\<exists>g. ledger_goals (ledger_run sample_ops ledger_new) = [g] \<and> g_status g = G_Running \<and>
     outstanding GU_Turns g + consumed sample_ops ledger_new (g_id g) GU_Turns = 6"
proof -
  obtain g where g: "ledger_goals (ledger_run sample_ops ledger_new) = [g]"
    "g_status g = G_Running" "en_turns (g_envelope g) = 6" using sample_goal by blast
  then have "g \<in> set (ledger_goals (ledger_run sample_ops ledger_new))" by simp
  from envelope_conserved [OF this, of GU_Turns] g show ?thesis by auto
qed

text \<open>Identifiers are never reused. If a goal is in the ledger at some point and a goal with the same
  identifier is in it after any further operations (reaping included), it is the same goal: its
  envelope, objective and capabilities are those admitted. At every moment the identifiers are
  distinct, nonzero and below the allocator, and the goals sit in the first slots.\<close>

theorem goal_identity_persists:
  assumes "g \<in> set (ledger_goals (ledger_run ops ledger_new))"
    and "g' \<in> set (ledger_goals (ledger_run (ops @ ops') ledger_new))"
    and "g_id g' = g_id g"
  shows "g_envelope g' = g_envelope g \<and> g_objective g' = g_objective g \<and>
    g_capabilities g' = g_capabilities g \<and> goal_id_get (g_id g) \<noteq> 0 \<and>
    distinct (map g_id (ledger_goals (ledger_run ops ledger_new))) \<and>
    gl_slots (ledger_run ops ledger_new) =
      pack max_goals (ledger_goals (ledger_run ops ledger_new))"
proof -
  let ?l = "ledger_run ops ledger_new"
  have live: "ledger_live ?l" by (rule ledger_run_live)
  then have ok: "ledger_ok ?l" by (simp add: ledger_live_def)
  have "\<not> allocated ?l \<le> unat (goal_id_get (g_id g'))"
    using assms(1,3) ok by (auto simp: ledger_ok_def not_le)
  with ledger_run_identity [OF live, of g' ops'] assms(2) obtain h
    where h: "h \<in> set (ledger_goals ?l)" "g_id h = g_id g'" "g_envelope h = g_envelope g'"
      "g_objective h = g_objective g'" "g_capabilities h = g_capabilities g'"
    by (auto simp: ledger_run_append)
  moreover have "h = g" using h assms ledger_get_iff [OF ok] by (metis option.inject)
  ultimately show ?thesis using ok assms(1) by (auto simp: ledger_ok_def goal_ok_def)
qed

theorem goal_identity_persists_witness:
  "\<exists>g g'. ledger_goals (ledger_run sample_ops ledger_new) = [g] \<and>
     ledger_goals (ledger_run (sample_ops @ [L_Reap]) ledger_new) = [g'] \<and> g_envelope g' = g_envelope g"
proof -
  obtain g where g: "ledger_goals (ledger_run sample_ops ledger_new) = [g]" "g_status g = G_Running"
    using sample_goal by blast
  have ok: "ledger_ok (ledger_run sample_ops ledger_new)"
    using ledger_run_live by (simp add: ledger_live_def)
  have "ledger_goals (ledger_run (sample_ops @ [L_Reap]) ledger_new) = [g]"
    using ledger_reap_effect [OF ok] g by (simp add: ledger_run_append)
  with g goal_identity_persists [of g sample_ops g "[L_Reap]"] show ?thesis by auto
qed

text \<open>C29: The scheduler's choice. A resume is the best waiting goal whose input arrived; a spawn is
  chosen only when no waiting goal has input, and it is the best due active goal by priority,
  then due beat, then identifier; idle means there is neither. In any ledger the operations can
  reach, the goal chosen for a spawn can fund it: its reservation is granted, is not empty in
  either unit, and the spawn succeeds.\<close>

theorem pick_is_best_and_fundable:
  assumes "l = ledger_run ops ledger_new"
  shows "case ledger_pick l beat ready of
      Pick_Resume i \<Rightarrow>
        (\<exists>g \<in> set (ledger_goals l). g_id g = i \<and> g_status g = G_Waiting \<and> ready i \<and>
          (\<forall>h \<in> set (ledger_goals l). g_status h = G_Waiting \<and> ready (g_id h) \<longrightarrow>
             (Reverse (g_priority g), g_id g) \<le> (Reverse (g_priority h), g_id h)))
    | Pick_Spawn i \<Rightarrow>
        (\<exists>g \<in> set (ledger_goals l). g_id g = i \<and> g_status g = G_Active \<and> g_next_due g \<le> beat \<and>
          (\<forall>h \<in> set (ledger_goals l). g_status h = G_Active \<and> g_next_due h \<le> beat \<longrightarrow>
             (Reverse (g_priority g), g_next_due g, g_id g) \<le>
             (Reverse (g_priority h), g_next_due h, g_id h))) \<and>
        (\<forall>h \<in> set (ledger_goals l). g_status h = G_Waiting \<longrightarrow> \<not> ready (g_id h)) \<and>
        (\<exists>grant. ledger_reservation l i = Inr grant \<and> snd (ledger_spawn l i run grant) = Inr () \<and>
                 1 \<le> gr_turns grant \<and> 1 \<le> gr_mutations grant)
    | Pick_Idle \<Rightarrow>
        (\<forall>h \<in> set (ledger_goals l). (g_status h = G_Waiting \<longrightarrow> \<not> ready (g_id h)) \<and>
                                 (g_status h = G_Active \<longrightarrow> \<not> g_next_due h \<le> beat))"
proof (cases "ledger_pick l beat ready")
  case Pick_Idle
  with iffD1 [OF pick_Idle Pick_Idle] show ?thesis by simp
next
  case (Pick_Spawn i)
  from pick_Spawn [OF this] obtain g where g: "g \<in> set (ledger_goals l)" "g_id g = i" "g_status g = G_Active"
    by blast
  have "ledger_live l" unfolding assms by (rule ledger_run_live)
  from spawn_picked [OF this g(1,3), of run] g(2) pick_Spawn [OF Pick_Spawn] Pick_Spawn
  show ?thesis by (simp only: pick.case) blast
next
  case (Pick_Resume i)
  with pick_Resume [OF this] show ?thesis by (simp only: pick.case)
qed

theorem pick_is_best_and_fundable_witness:
  "ledger_pick (ledger_run [] ledger_new) (Beat 3) (\<lambda>_. True) = Pick_Idle \<and>
   (\<exists>g. ledger_goals (ledger_run sample_ops ledger_new) = [g] \<and>
        (\<forall>i. ledger_pick (ledger_run sample_ops ledger_new) (Beat 3) (\<lambda>_. True) \<noteq> Pick_Resume i))"
proof -
  obtain g where g: "ledger_goals (ledger_run sample_ops ledger_new) = [g]" "g_status g = G_Running"
    using sample_goal by blast
  have "ledger_pick (ledger_run sample_ops ledger_new) (Beat 3) (\<lambda>_. True) \<noteq> Pick_Resume i" for i
    using pick_is_best_and_fundable
        [where ops = sample_ops and beat = "Beat 3" and ready = "\<lambda>_. True", OF refl] g by auto
  moreover have "ledger_pick (ledger_run [] ledger_new) (Beat 3) (\<lambda>_. True) = Pick_Idle"
    using ledger_new_live by (simp add: ledger_pick_def)
  ultimately show ?thesis using g by blast
qed

text \<open>What the settlement table says: the streak of failures, the status, and the beats to wait.\<close>

definition streak_after :: "terminal_status \<Rightarrow> goal \<Rightarrow> nat" where
  "streak_after status g = (if status = T_Completed then 0 else min (Suc (unat (g_failures g))) 255)"

definition can_run_again :: "goal \<Rightarrow> bool" where
  "can_run_again g \<longleftrightarrow>
     0 < unat (rm_turns (g_remaining g)) \<and> 0 < unat (rm_mutations (g_remaining g)) \<and> 0 < unat (rm_runs (g_remaining g))"

definition status_after :: "terminal_status \<Rightarrow> schedule_policy \<Rightarrow> goal \<Rightarrow> bool \<Rightarrow> goal_status" where
  "status_after status policy g again =
     (if status = T_Completed \<and> g_cadence g = Once then G_Satisfied
      else if status \<in> {T_Denied, T_Incompatible, T_StorageFault} then G_Failed
      else if status \<noteq> T_Completed \<and> unat (sp_max_consecutive_failures policy) \<le> streak_after status g then G_Failed
      else if again then G_Active else G_Exhausted)"

definition wait_after :: "terminal_status \<Rightarrow> schedule_policy \<Rightarrow> goal \<Rightarrow> nat" where
  "wait_after status policy g =
     (if status = T_Completed then (case g_cadence g of Once \<Rightarrow> 0 | Every span \<Rightarrow> unat (span_get span))
      else min (unat (span_get (sp_backoff_base policy)) * 2 ^ (streak_after status g - 1))
             (unat (span_get (sp_backoff_cap policy))))"

text \<open>C27: settlement follows its table. When settling a running goal succeeds, the refund is added back
  exactly and the reservation is gone; a success clears the streak of failures and anything else adds one
  to it, up to 255. A success satisfies a one-shot goal; a denied, incompatible or storage fault, or the
  policy's limit of failures in a row, fails the goal; any other goal runs again when it can fund another
  run and is exhausted when it cannot. A goal that runs again is due after its cadence when it succeeded
  and after the capped doubling of the backoff when it failed, strictly later in both cases; the due beat
  of the others is the beat of settlement. Nothing else of the goal changes.\<close>

theorem settle_follows_table:
  assumes "goal_ok g" and "policy_ok policy"
    and "\<forall>span. g_cadence g = Every span \<longrightarrow> span_ok span"
    and "settle_goal status refund beat policy g = (g', Inr event)"
  shows "g_status g = G_Running \<and> g_reserved g' = grant_ZERO \<and> g_run g' = None \<and>
    g_last_status g' = Some status \<and>
    (\<forall>k. remaining_of k g' = remaining_of k g + grant_of k refund \<and>
         grant_of k refund \<le> grant_of k (g_reserved g)) \<and>
    unat (g_failures g') = streak_after status g \<and>
    g_status g' = status_after status policy g (can_run_again g') \<and>
    unat (beat_get (g_next_due g')) =
      unat (beat_get beat) + (if g_status g' = G_Active then wait_after status policy g else 0) \<and>
    (g_status g' = G_Active \<longrightarrow> beat < g_next_due g' \<and> g_failures g' < sp_max_consecutive_failures policy) \<and>
    g_id g' = g_id g \<and> g_objective g' = g_objective g \<and> g_priority g' = g_priority g \<and> g_cadence g' = g_cadence g \<and>
    g_envelope g' = g_envelope g \<and> rm_runs (g_remaining g') = rm_runs (g_remaining g) \<and>
    g_capabilities g' = g_capabilities g \<and> g_runs_started g' = g_runs_started g \<and> g_waiting_since g' = g_waiting_since g"
proof -
  from settle_goal_effect [OF assms(1,4)] obtain due streak s where acc: "settle_accepted refund g"
    and dec: "settle_decision (refunded refund g) status beat policy = Inr (event, due, streak)"
    and tr: "goal_transition G_Running event = Inr s"
    and g': "g' = (refunded refund g)\<lparr>g_status := s, g_next_due := due, g_failures := streak,
                 g_last_status := Some status, g_run := None\<rparr>" by auto
  have books: "remaining_of k g' = remaining_of k g + grant_of k refund" for k
    using refunded_books [OF assms(1) acc, of k] by (cases k) (simp_all add: g')
  have fits: "grant_of k refund \<le> grant_of k (g_reserved g)" for k
    using acc by (cases k) (simp_all add: settle_accepted_def word_le_nat_alt)
  have edge: "(event = GE_Recur \<longrightarrow> s = G_Active) \<and> (event = GE_Satisfy \<longrightarrow> s = G_Satisfied) \<and>
      (event = GE_Fail \<longrightarrow> s = G_Failed) \<and> (event = GE_Exhaust \<longrightarrow> s = G_Exhausted)"
    using tr by (auto simp: goal_transition_def goal_transitions_def)
  let ?next = "saturating_add (g_failures g) 1"
  have next_streak: "unat ?next = min (Suc (unat (g_failures g))) 255" by (simp add: unat_saturating_add)
  have nz: "0 < sp_max_consecutive_failures policy"
    using assms(2) by (auto simp: policy_ok_def schedule_policy_validate_def word_gt_0 split: if_splits)
  have again: "fundable (g_remaining (refunded refund g)) \<longleftrightarrow> can_run_again g'"
    by (simp add: fundable_def can_run_again_def g' word_le_nat_alt Suc_le_eq)
  have same: "g_cadence (refunded refund g) = g_cadence g" "g_failures (refunded refund g) = g_failures g"
    by (simp_all add: refunded_def)
  have success: "terminal_status_is_success status \<longleftrightarrow> status = T_Completed" by (cases status) simp_all
  note dec = dec [unfolded settle_decision_def Let_def again same success]
  have "unat streak = streak_after status g \<and> s = status_after status policy g (can_run_again g') \<and>
      unat (beat_get due) = unat (beat_get beat) + (if s = G_Active then wait_after status policy g else 0) \<and>
      (s = G_Active \<longrightarrow> beat < due \<and> streak < sp_max_consecutive_failures policy)"
  proof (cases "status = T_Completed")
    case True
    show ?thesis
    proof (cases "g_cadence g")
      case Once
      then show ?thesis using dec edge True by (auto simp: streak_after_def status_after_def)
    next
      case (Every span)
      then have "span_ok span" using assms(3) by blast
      then show ?thesis using dec edge True Every nz beat_after_Inr [of beat span due] beat_after_later [of beat span due]
        by (auto simp: streak_after_def status_after_def wait_after_def result_simps split: if_splits)
    qed
  next
    case False
    have limit: "sp_max_consecutive_failures policy \<le> ?next \<longleftrightarrow>
        unat (sp_max_consecutive_failures policy) \<le> streak_after status g"
      using False by (simp add: word_le_nat_alt next_streak streak_after_def)
    have wait: "unat (span_get (backoff policy ?next)) = wait_after status policy g"
      using False by (simp add: unat_backoff [OF assms(2)] wait_after_def streak_after_def next_streak)
    have final: "retryable status \<longleftrightarrow> status \<notin> {T_Denied, T_Incompatible, T_StorageFault}" by (simp add: retryable_def)
    have later: "beat_after beat (backoff policy ?next) = Inr due \<Longrightarrow>
        beat < due \<and> unat (beat_get due) = unat (beat_get beat) + wait_after status policy g"
      using beat_after_Inr beat_after_later backoff_ok [OF assms(2)] wait by metis
    have "unat streak = streak_after status g"
      using dec False next_streak by (auto simp: streak_after_def result_simps split: if_splits)
    moreover have "s = status_after status policy g (can_run_again g')"
      using dec edge False unfolding limit final by (auto simp: status_after_def result_simps split: if_splits)
    ultimately show ?thesis
      using dec edge False later unfolding limit final
      by (auto simp: result_simps word_less_nat_alt not_le split: if_splits)
  qed
  moreover have "g_status g = G_Running" "g_reserved g' = grant_ZERO" "g_run g' = None"
    "g_last_status g' = Some status" "g_status g' = s" "g_next_due g' = due" "g_failures g' = streak"
    "g_id g' = g_id g" "g_objective g' = g_objective g" "g_priority g' = g_priority g" "g_cadence g' = g_cadence g"
    "g_envelope g' = g_envelope g" "rm_runs (g_remaining g') = rm_runs (g_remaining g)"
    "g_capabilities g' = g_capabilities g" "g_runs_started g' = g_runs_started g" "g_waiting_since g' = g_waiting_since g"
    using acc by (simp_all add: g' settle_accepted_def) (simp_all add: refunded_def)
  ultimately show ?thesis using books fits by presburger
qed

theorem settle_follows_table_witness:
  "\<exists>g'. settle_goal T_Stuck \<lparr>gr_turns = 1, gr_mutations = 0\<rparr> (Beat 5) schedule_policy_DEFAULT
             sample_running = (g', Inr GE_Recur) \<and>
        g_status g' = G_Active \<and> remaining_of GU_Turns g' = 5 \<and> unat (g_failures g') = 2 \<and>
        unat (beat_get (g_next_due g')) = 7"
proof -
  let ?g = sample_running
  let ?s = "settle_goal T_Stuck \<lparr>gr_turns = 1, gr_mutations = 0\<rparr> (Beat 5) schedule_policy_DEFAULT ?g"
  have "unat (span_get (backoff schedule_policy_DEFAULT 2)) = unat (2 :: u32)"
    using unat_backoff [OF policy_ok_DEFAULT, of 2] by (simp add: schedule_policy_DEFAULT_def)
  then have "backoff schedule_policy_DEFAULT 2 = BeatSpan 2"
    by (cases "backoff schedule_policy_DEFAULT 2") (simp add: word_unat_eq_iff)
  then have run: "snd ?s = Inr GE_Recur"
    by (simp add: settle_goal_def sample_running_def settle_decision_def fundable_def beat_after_def retryable_def
        saturating_add_def schedule_policy_DEFAULT_def
        checked_add_def goal_transition_def goal_transitions_def check_envelope_def sample_spec_def
        grant_ZERO_def)
  then obtain g' where g': "?s = (g', Inr GE_Recur)" by (cases ?s) auto
  have cad: "\<forall>span. g_cadence ?g = Every span \<longrightarrow> span_ok span"
    by (simp add: sample_running_def span_ok_def)
  note tab = settle_follows_table [OF sample_goals_ok(1) policy_ok_DEFAULT cad g']
  have streak: "streak_after T_Stuck ?g = 2" by (simp add: streak_after_def sample_running_def)
  have wait: "wait_after T_Stuck schedule_policy_DEFAULT ?g = 2"
    by (simp add: wait_after_def streak_after_def schedule_policy_DEFAULT_def sample_running_def)
  have left: "remaining_of GU_Turns g' = 5" "remaining_of GU_Mutations g' = 2" "unat (rm_runs (g_remaining g')) = 2"
    using tab by (simp_all add: sample_running_def)
  then have again: "can_run_again g'" by (simp add: can_run_again_def)
  have "status_after T_Stuck schedule_policy_DEFAULT ?g True = G_Active"
    by (simp add: status_after_def streak_after_def sample_running_def schedule_policy_DEFAULT_def)
  then have active: "g_status g' = G_Active" using tab again by (simp del: remaining_of.simps)
  have "unat (g_failures g') = 2" "unat (beat_get (g_next_due g')) = 7" using tab streak wait active by simp_all
  then show ?thesis using g' active left(1) by blast
qed

text \<open>Open obligations are never dropped. While a run is in flight or parked, no operator event
  changes its goal and reaping keeps it; reaping removes exactly the terminal goals, keeps the
  others in order and frees no identifier; and a terminal goal accepts no event at all.\<close>

theorem busy_goals_kept:
  assumes "ledger_ok l"
  shows "(\<forall>g \<in> set (ledger_goals l). goal_status_is_busy (g_status g) \<longrightarrow>
       ledger_control l (g_id g) event now = (l, Inl E_GoalBusy) \<and>
       g \<in> set (ledger_goals (fst (ledger_reap l)))) \<and>
    ledger_goals (fst (ledger_reap l)) =
      filter (\<lambda>g. \<not> goal_status_is_terminal (g_status g)) (ledger_goals l) \<and>
    gl_next_id (fst (ledger_reap l)) = gl_next_id l \<and>
    (goal_status_is_terminal s \<longrightarrow> goal_transition s event = Inl (E_GoalIllegalTransition s event))"
proof -
  have "ledger_control l (g_id g) event now = (l, Inl E_GoalBusy)"
    if g: "g \<in> set (ledger_goals l)" and busy: "goal_status_is_busy (g_status g)" for g
  proof -
    have "ledger_get l (g_id g) = Some g" using ledger_get_iff [OF assms] g by simp
    moreover have "map (\<lambda>h. if g_id h = g_id g then g else h) (ledger_goals l) = ledger_goals l"
      using ledger_get_iff [OF assms] g by (intro map_idI) (metis option.inject)
    moreover have "distinct (map g_id (ledger_goals l))" "gl_slots l = pack max_goals (ledger_goals l)"
      using assms by (simp_all add: ledger_ok_def)
    moreover have "control_goal event now g = (g, Inl E_GoalBusy)"
      using busy by (simp add: control_goal_def)
    ultimately show ?thesis
      by (simp add: ledger_control_def on_goal_def update_first_pack
          position_key_update [where f = "\<lambda>_. g"])
  qed
  moreover have "goal_status_is_busy t \<longrightarrow> \<not> goal_status_is_terminal t" for t by (cases t) auto
  moreover have "goal_status_is_terminal s \<longrightarrow>
      goal_transition s event = Inl (E_GoalIllegalTransition s event)"
    by (cases s) (auto simp: goal_transition_Inl_iff goal_transitions_def)
  ultimately show ?thesis using ledger_reap_effect [OF assms] by auto
qed

theorem busy_goals_kept_witness:
  "ledger_control (with_goals (ledger_restoring 2) [sample_waiting]) (GoalId 1) GE_Retire (Beat 2)
     = (with_goals (ledger_restoring 2) [sample_waiting], Inl E_GoalBusy) \<and>
   goal_transition G_Retired GE_Spawn = Inl (E_GoalIllegalTransition G_Retired GE_Spawn)"
  using busy_goals_kept [OF sample_waiting_ledger, of GE_Retire "Beat 2" G_Retired]
    busy_goals_kept [OF sample_waiting_ledger, of GE_Spawn "Beat 2" G_Retired]
  by (simp add: sample_waiting_def sample_running_def)

text \<open>Restoring a ledger is the inverse of listing it, and accepts nothing else. A checkpointed ledger
  without a run in flight is rebuilt exactly, and whatever \<open>from_parts\<close> accepts is a ledger that
  holds those goals in that order and satisfies every structural invariant.\<close>

theorem restore_is_exact:
  assumes "\<forall>g \<in> set gs. goal_id_get (g_id g) \<noteq> 0"
  shows "ledger_from_parts gs n = Inr l \<longleftrightarrow>
    ledger_ok l \<and> ledger_goals l = gs \<and> gl_next_id l = n \<and> \<not> has_running l"
  unfolding ledger_from_parts_def by (rule restored_ledger_iff [OF assms])

theorem restore_is_exact_witness:
  "\<exists>l. ledger_from_parts [sample_waiting] 2 = Inr l \<and> ledger_goals l = [sample_waiting]"
proof -
  have "\<forall>g \<in> set [sample_waiting]. goal_id_get (g_id g) \<noteq> 0"
    by (simp add: sample_waiting_def sample_running_def)
  from restore_is_exact [OF this, of 2 "with_goals (ledger_restoring 2) [sample_waiting]"]
    sample_waiting_ledger
  show ?thesis
    by (auto simp: has_running_def sample_waiting_def sample_running_def)
      (simp add: ledger_restoring_def)
qed

end
