(* ===== verification/Memory.thy ===== *)
theory Memory
  imports Goal
begin

text \<open>
  The memory store and recall (\<open>esper-core/src/memory.rs\<close>; its \<open>ingest\<close> is in theory Ingest). The
  store is an array of optional slots; the lemmas show that it is always canonical (the entries
  first, then free slots), with distinct keys and stamps and at most eight pinned entries, and
  describe every branch of \<open>write\<close> over the list of entries.
\<close>

section \<open>Entries\<close>

definition max_memory :: nat where "max_memory = 32"
definition max_pinned :: nat where "max_pinned = 8"
definition recall_k :: nat where "recall_k = 4"

datatype memory_key =
    MK_Observation tool_id digest
  | MK_Outcome goal_id
  | MK_Note digest

fun key_is_pinned :: "memory_key \<Rightarrow> bool" where
  "key_is_pinned (MK_Note _) = True"
| "key_is_pinned (MK_Observation _ _) = False"
| "key_is_pinned (MK_Outcome _) = False"

fun key_tag :: "memory_key \<Rightarrow> u8" where
  "key_tag (MK_Observation _ _) = 0"
| "key_tag (MK_Outcome _) = 1"
| "key_tag (MK_Note _) = 2"

definition key_note :: "bytes \<Rightarrow> memory_key" where
  "key_note name = MK_Note (digest_of_bytes name)"

record provenance =
  pv_goal :: "goal_id option"
  pv_run :: "run_id option"
  pv_beat :: beat

record memory_entry =
  me_key :: memory_key
  me_label :: note_t
  me_value :: note_t
  me_provenance :: provenance
  me_stamp :: u32

definition entry_new :: "memory_key \<Rightarrow> bytes \<Rightarrow> bytes \<Rightarrow> provenance \<Rightarrow> error + memory_entry" where
  "entry_new k label value p =
     and_then (ingest label) (\<lambda>l. and_then (ingest value) (\<lambda>v.
       Inr \<lparr>me_key = k, me_label = l, me_value = v, me_provenance = p, me_stamp = 0\<rparr>))"

definition pinned :: "memory_entry \<Rightarrow> bool" where
  "pinned e \<longleftrightarrow> key_is_pinned (me_key e)"

section \<open>The store\<close>

record memory =
  mem_slots :: "memory_entry option list"
  mem_next_stamp :: u32

definition memory_new :: memory where
  "memory_new = \<lparr>mem_slots = replicate max_memory None, mem_next_stamp = 1\<rparr>"

definition memory_entries :: "memory \<Rightarrow> memory_entry list" where
  "memory_entries m = flatten (mem_slots m)"

definition pinned_count :: "memory \<Rightarrow> nat" where
  "pinned_count m = length (filter pinned (memory_entries m))"

definition memory_get :: "memory \<Rightarrow> memory_key \<Rightarrow> memory_entry option" where
  "memory_get m k = List.find (\<lambda>e. me_key e = k) (memory_entries m)"

text \<open>The occupied slots with their indices.\<close>

fun indexed :: "nat \<Rightarrow> 'a option list \<Rightarrow> (nat \<times> 'a) list" where
  "indexed i [] = []"
| "indexed i (None # s) = indexed (Suc i) s"
| "indexed i (Some x # s) = (i, x) # indexed (Suc i) s"

definition write_index :: "memory_entry option list \<Rightarrow> nat option" where
  "write_index slots =
     (case position (\<lambda>s. s = None) slots of
        Some free \<Rightarrow> Some free
      | None \<Rightarrow>
          map_option fst
            (min_by_key (\<lambda>(_, e). me_stamp e) (filter (\<lambda>(_, e). \<not> pinned e) (indexed 0 slots))))"

definition memory_write :: "memory \<Rightarrow> memory_entry \<Rightarrow> error + memory" where
  "memory_write m entry0 =
     (let stamp = mem_next_stamp m in
      and_then (ok_or E_MemoryStampsExhausted (checked_add stamp 1)) (\<lambda>next_stamp.
        let entry = entry0\<lparr>me_stamp := stamp\<rparr> in
        if memory_get m (me_key entry) \<noteq> None
        then Inr \<lparr>mem_slots =
                    update_first (\<lambda>e. me_key e = me_key entry) (\<lambda>_. entry) (mem_slots m),
                  mem_next_stamp = next_stamp\<rparr>
        else if pinned entry \<and> max_pinned \<le> pinned_count m then Inl E_MemoryFull
        else and_then (ok_or E_MemoryFull (write_index (mem_slots m))) (\<lambda>index.
          if index < length (mem_slots m)
          then Inr \<lparr>mem_slots = (mem_slots m)[index := Some entry], mem_next_stamp = next_stamp\<rparr>
          else Inl E_MemoryFull)))"

definition memory_forget :: "memory \<Rightarrow> memory_key \<Rightarrow> memory \<times> bool" where
  "memory_forget m k =
     (if memory_get m k = None then (m, False)
      else (m\<lparr>mem_slots :=
                pack max_memory (take max_memory (filter (\<lambda>e. me_key e \<noteq> k) (memory_entries m)))\<rparr>,
            True))"

definition memory_restoring :: "u32 \<Rightarrow> memory" where
  "memory_restoring n = \<lparr>mem_slots = replicate max_memory None, mem_next_stamp = n\<rparr>"

definition restore_entry :: "memory \<Rightarrow> memory_entry \<Rightarrow> error + memory" where
  "restore_entry m e =
     (if me_stamp e = 0 \<or> mem_next_stamp m \<le> me_stamp e \<or>
         list_ex (\<lambda>other. me_key other = me_key e \<or> me_stamp other = me_stamp e) (memory_entries m) \<or>
         pinned e \<and> max_pinned \<le> pinned_count m
      then Inl E_SnapshotCorrupt
      else and_then (ok_or E_SnapshotCorrupt (fill_free e (mem_slots m)))
             (\<lambda>slots. Inr (m\<lparr>mem_slots := slots\<rparr>)))"

fun restore_entries :: "memory \<Rightarrow> memory_entry list \<Rightarrow> error + memory" where
  "restore_entries m [] = Inr m"
| "restore_entries m (e # es) = and_then (restore_entry m e) (\<lambda>m'. restore_entries m' es)"

definition memory_from_parts :: "memory_entry list \<Rightarrow> u32 \<Rightarrow> error + memory" where
  "memory_from_parts es n = restore_entries (memory_restoring n) es"

section \<open>Recall\<close>

fun is_observation :: "memory_key \<Rightarrow> bool" where
  "is_observation (MK_Observation _ _) = True"
| "is_observation (MK_Outcome _) = False"
| "is_observation (MK_Note _) = False"

definition recall_tiers :: "goal_id \<Rightarrow> (memory_entry \<Rightarrow> bool) list" where
  "recall_tiers g =
     [\<lambda>e. me_key e = MK_Outcome g,
      pinned,
      \<lambda>e. is_observation (me_key e) \<and> pv_goal (me_provenance e) = Some g,
      \<lambda>e. is_observation (me_key e) \<and> pv_goal (me_provenance e) \<noteq> Some g]"

text \<open>The inner loop: at most \<open>n\<close> more entries of a tier, the newest below the previous stamp each time.\<close>

fun recall_tier :: "(memory_entry \<Rightarrow> bool) \<Rightarrow> memory_entry list \<Rightarrow> nat \<Rightarrow> u32 \<Rightarrow> memory_entry list" where
  "recall_tier tier es 0 below = []"
| "recall_tier tier es (Suc n) below =
     (case max_by_key me_stamp (filter (\<lambda>e. tier e \<and> me_stamp e < below) es) of
        None \<Rightarrow> []
      | Some e \<Rightarrow> e # recall_tier tier es n (me_stamp e))"

fun recall_loop :: "(memory_entry \<Rightarrow> bool) list \<Rightarrow> memory_entry list \<Rightarrow> memory_entry list \<Rightarrow> memory_entry list" where
  "recall_loop [] es got = got"
| "recall_loop (tier # tiers) es got =
     recall_loop tiers es (got @ recall_tier tier es (recall_k - length got) (- 1))"

definition recall :: "memory \<Rightarrow> goal_id \<Rightarrow> memory_entry list" where
  "recall m g = recall_loop (recall_tiers g) (memory_entries m) []"

section \<open>The invariant\<close>

definition entries_ok :: "memory_entry list \<Rightarrow> u32 \<Rightarrow> bool" where
  "entries_ok es n \<longleftrightarrow>
     length es \<le> max_memory \<and> distinct (map me_key es) \<and> distinct (map me_stamp es) \<and>
     (\<forall>e \<in> set es. me_stamp e \<noteq> 0 \<and> me_stamp e < n) \<and> length (filter pinned es) \<le> max_pinned"

definition memory_ok :: "memory \<Rightarrow> bool" where
  "memory_ok m \<longleftrightarrow>
     mem_slots m = pack max_memory (memory_entries m) \<and>
     entries_ok (memory_entries m) (mem_next_stamp m) \<and> mem_next_stamp m \<noteq> 0"

definition with_entries :: "memory_entry list \<Rightarrow> u32 \<Rightarrow> memory" where
  "with_entries es n = \<lparr>mem_slots = pack max_memory es, mem_next_stamp = n\<rparr>"

lemma with_entries_simps [simp]:
  "memory_entries (with_entries es n) = es" "mem_next_stamp (with_entries es n) = n"
  "mem_slots (with_entries es n) = pack max_memory es"
  by (simp_all add: with_entries_def memory_entries_def flatten_pack)

lemma memory_ok_with: "memory_ok (with_entries es n) \<longleftrightarrow> entries_ok es n \<and> n \<noteq> 0"
  by (simp add: memory_ok_def)

lemma memory_ok_with_entries: "memory_ok m \<Longrightarrow> m = with_entries (memory_entries m) (mem_next_stamp m)"
  by (cases m) (simp add: memory_ok_def with_entries_def)

lemma memory_new_ok: "memory_ok memory_new \<and> memory_entries memory_new = []"
  by (simp add: memory_new_def memory_ok_def memory_entries_def pack_def entries_ok_def)

lemma memory_get_iff:
  "memory_ok m \<Longrightarrow> memory_get m k = Some e \<longleftrightarrow> e \<in> set (memory_entries m) \<and> me_key e = k"
  unfolding memory_get_def memory_ok_def entries_ok_def by (simp add: find_distinct_key)

lemma memory_get_None: "memory_get m k = None \<longleftrightarrow> k \<notin> me_key ` set (memory_entries m)"
  by (auto simp: memory_get_def find_None_iff)

lemma position_None_pack:
  "length xs \<le> n \<Longrightarrow> position (\<lambda>s. s = None) (pack n xs) = (if length xs < n then Some (length xs) else None)"
proof -
  have "position (\<lambda>s. s = None) (map Some xs @ replicate k None) =
      (if 0 < k then Some (length xs) else None)" for k
    by (induction xs) (cases k; auto)+
  then show "length xs \<le> n \<Longrightarrow> ?thesis" by (simp add: pack_def)
qed

lemma indexed_map_Some: "indexed i (map Some xs) = zip [i..<i + length xs] xs"
  by (induction xs arbitrary: i) (auto simp: upt_rec)

lemma pack_update:
  "i < length xs \<Longrightarrow> (pack n xs)[i := Some x] = pack n (xs[i := x])"
  by (simp add: pack_def list_update_append map_update)

text \<open>The slot a write takes: the first free one, or the oldest unpinned entry's.\<close>

lemma write_index_free: "length es < max_memory \<Longrightarrow> write_index (pack max_memory es) = Some (length es)"
  by (simp add: write_index_def position_None_pack)

lemma write_index_full:
  assumes len: "length es = max_memory" and pin: "length (filter pinned es) \<le> max_pinned"
  shows "\<exists>i < length es. write_index (pack max_memory es) = Some i \<and> \<not> pinned (es ! i) \<and>
    (\<forall>e \<in> set es. \<not> pinned e \<longrightarrow> me_stamp (es ! i) \<le> me_stamp e)"
proof -
  let ?c = "filter (\<lambda>(_, e). \<not> pinned e) (zip [0..<length es] es)"
  have slots: "pack max_memory es = map Some es" using len by (simp add: pack_def)
  have "filter (\<lambda>e. \<not> pinned e) es \<noteq> []"
  proof
    assume "filter (\<lambda>e. \<not> pinned e) es = []"
    then have "filter pinned es = es" by (simp add: filter_empty_conv filter_id_conv)
    with len pin show False by (simp add: max_memory_def max_pinned_def)
  qed
  then obtain e where "e \<in> set es" "\<not> pinned e" by (auto simp: filter_empty_conv)
  then have "?c \<noteq> []" by (auto simp: filter_empty_conv set_zip in_set_conv_nth)
  then obtain i x where ix: "min_by_key (\<lambda>(_, e). me_stamp e) ?c = Some (i, x)"
    by (cases "min_by_key (\<lambda>(_, e). me_stamp e) ?c") auto
  note least = min_by_key_least [OF ix]
  have i: "i < length es" "x = es ! i" "\<not> pinned x"
    using conjunct1 [OF least] by (auto simp: set_zip)
  have "me_stamp x \<le> me_stamp e" if "e \<in> set es" "\<not> pinned e" for e
  proof -
    from that obtain j where "j < length es" "e = es ! j" by (auto simp: in_set_conv_nth)
    with that have "(j, e) \<in> set ?c" by (auto simp: set_zip intro!: exI [of _ j])
    with conjunct2 [OF least] show ?thesis by fastforce
  qed
  moreover have "write_index (pack max_memory es) = Some i"
    using ix len position_None_pack [of es max_memory]
    by (simp add: write_index_def slots indexed_map_Some)
  ultimately show ?thesis using i by blast
qed

section \<open>Every branch of a write\<close>

lemma checked_add_one:
  "checked_add (n :: u32) 1 = Some k \<Longrightarrow> n < k \<and> k \<noteq> 0"
  by (drule unat_checked_add) (auto simp: word_less_nat_alt)

definition stamped :: "memory_entry \<Rightarrow> u32 \<Rightarrow> memory_entry" where
  "stamped e n = e\<lparr>me_stamp := n\<rparr>"

lemma stamped_simps [simp]:
  "me_key (stamped e n) = me_key e" "me_stamp (stamped e n) = n" "pinned (stamped e n) = pinned e"
  "me_label (stamped e n) = me_label e" "me_value (stamped e n) = me_value e"
  by (simp_all add: stamped_def pinned_def)

text \<open>Where the written entry goes: over its key, into a free slot, or over the oldest unpinned entry.\<close>

definition place :: "memory_entry list \<Rightarrow> memory_entry \<Rightarrow> nat \<Rightarrow> bool" where
  "place es e i \<longleftrightarrow>
     i < length es \<and> me_key (es ! i) = me_key e \<or>
     me_key e \<notin> me_key ` set es \<and> (pinned e \<longrightarrow> length (filter pinned es) < max_pinned) \<and>
     (i = length es \<and> length es < max_memory \<or>
      i < length es \<and> length es = max_memory \<and> \<not> pinned (es ! i) \<and>
      (\<forall>x \<in> set es. \<not> pinned x \<longrightarrow> me_stamp (es ! i) \<le> me_stamp x))"

definition put_at :: "memory_entry list \<Rightarrow> memory_entry \<Rightarrow> nat \<Rightarrow> memory_entry list" where
  "put_at es e i = (if i < length es then es[i := e] else es @ [e])"

lemma update_first_key_pack:
  assumes "i < length es" and "key (es ! i) = k" and "distinct (map key es)"
  shows "update_first (\<lambda>e. key e = k) (\<lambda>_. x) (pack n es) = pack n (es[i := x])"
proof -
  have "\<forall>j < i. key (es ! j) \<noteq> k"
  proof (intro allI impI)
    fix j assume "j < i"
    then have "map key es ! j \<noteq> map key es ! i"
      using assms by (subst nth_eq_iff_index_eq) simp_all
    with \<open>j < i\<close> assms show "key (es ! j) \<noteq> k" by simp
  qed
  then have "position (\<lambda>e. key e = k) es = Some i" using assms by (simp add: position_Some_iff)
  then show ?thesis by (simp add: update_first_pack)
qed

lemma memory_write_cases:
  assumes ok: "memory_ok m"
  shows "case memory_write m e of
     Inr m' \<Rightarrow> \<exists>i n. checked_add (mem_next_stamp m) 1 = Some n \<and> place (memory_entries m) e i \<and>
       m' = with_entries (put_at (memory_entries m) (stamped e (mem_next_stamp m)) i) n
   | Inl err \<Rightarrow>
       err = E_MemoryStampsExhausted \<and> checked_add (mem_next_stamp m) 1 = None \<or>
       err = E_MemoryFull \<and> pinned e \<and> length (filter pinned (memory_entries m)) = max_pinned \<and>
       me_key e \<notin> me_key ` set (memory_entries m)"
proof (cases "checked_add (mem_next_stamp m) 1")
  case None
  then show ?thesis by (simp add: memory_write_def)
next
  case (Some n)
  let ?es = "memory_entries m" and ?e = "stamped e (mem_next_stamp m)"
  have inv: "mem_slots m = pack max_memory ?es" "length ?es \<le> max_memory" "distinct (map me_key ?es)"
    "length (filter pinned ?es) \<le> max_pinned"
    using ok by (simp_all add: memory_ok_def entries_ok_def)
  have with_n: "\<lparr>mem_slots = pack max_memory xs, mem_next_stamp = n\<rparr> = with_entries xs n" for xs
    by (simp add: with_entries_def)
  show ?thesis
  proof (cases "me_key e \<in> me_key ` set ?es")
    case True
    then obtain i where i: "i < length ?es" "me_key (?es ! i) = me_key e"
      by (auto simp: in_set_conv_nth)
    then have "memory_write m e = Inr (with_entries (?es[i := ?e]) n)"
      using Some True inv update_first_key_pack [OF i inv(3), of ?e max_memory]
      by (simp add: memory_write_def stamped_def [symmetric] memory_get_None with_n)
    then show ?thesis using i Some by (auto simp: place_def put_at_def intro!: exI [of _ i])
  next
    case False
    show ?thesis
    proof (cases "pinned e \<and> max_pinned \<le> pinned_count m")
      case True
      then have "memory_write m e = Inl E_MemoryFull"
        using Some False by (simp add: memory_write_def stamped_def [symmetric] memory_get_None)
      then show ?thesis using True False inv by (simp add: pinned_count_def)
    next
      case room: False
      obtain i where i: "write_index (mem_slots m) = Some i" "i < max_memory"
        "i = length ?es \<and> length ?es < max_memory \<or>
         i < length ?es \<and> length ?es = max_memory \<and> \<not> pinned (?es ! i) \<and>
         (\<forall>x \<in> set ?es. \<not> pinned x \<longrightarrow> me_stamp (?es ! i) \<le> me_stamp x)"
        using write_index_free [of ?es] write_index_full [OF _ inv(4)] inv
        by (cases "length ?es < max_memory") auto
      then have "(mem_slots m)[i := Some ?e] = pack max_memory (put_at ?es ?e i)"
        using inv by (auto simp: put_at_def pack_update pack_append)
      then have "memory_write m e = Inr (with_entries (put_at ?es ?e i) n)"
        using Some False room i inv
        by (simp add: memory_write_def stamped_def [symmetric] memory_get_None with_n length_pack)
      moreover have "place ?es e i"
        using i(3) False room by (auto simp: place_def pinned_count_def)
      ultimately show ?thesis using Some by auto
    qed
  qed
qed

lemma length_filter_update:
  "i < length xs \<Longrightarrow>
   length (filter P (xs[i := x])) + (if P (xs ! i) then 1 else 0) = length (filter P xs) + (if P x then 1 else 0)"
proof (induction xs arbitrary: i)
  case (Cons y ys)
  then show ?case by (cases i) fastforce+
qed simp

lemma distinct_map_update:
  "distinct (map f xs) \<Longrightarrow> i < length xs \<Longrightarrow> f x \<notin> f ` set xs - {f (xs ! i)} \<Longrightarrow>
   distinct (map f (xs[i := x]))"
  unfolding map_update by (rule distinct_list_update) simp_all

lemma place_entries_ok:
  assumes ok: "entries_ok es n" and place: "place es e i" and n': "n < n'" "n \<noteq> 0"
  shows "entries_ok (put_at es (stamped e n) i) n'"
proof -
  have fresh: "n \<notin> me_stamp ` set es" using ok by (auto simp: entries_ok_def)
  have old: "\<forall>x \<in> set es. me_stamp x \<noteq> 0 \<and> me_stamp x < n'"
    using ok n' by (auto simp: entries_ok_def intro: less_trans)
  show ?thesis
  proof (cases "i < length es")
    case True
    have key: "me_key e \<notin> me_key ` set es - {me_key (es ! i)}"
      using place True by (auto simp: place_def)
    have pin: "length (filter pinned (es[i := stamped e n])) \<le> max_pinned"
    proof (cases "me_key (es ! i) = me_key e")
      case same: True
      then have "pinned (es ! i) = pinned e" by (simp add: pinned_def)
      then show ?thesis using ok length_filter_update [OF True, of pinned "stamped e n"]
        by (simp add: entries_ok_def split: if_splits)
    next
      case False
      then show ?thesis using place True ok length_filter_update [OF True, of pinned "stamped e n"]
        by (auto simp: place_def entries_ok_def split: if_splits)
    qed
    have "distinct (map me_key (es[i := stamped e n]))"
      using ok True key by (intro distinct_map_update) (simp_all add: entries_ok_def)
    moreover have "distinct (map me_stamp (es[i := stamped e n]))"
      using ok True fresh by (intro distinct_map_update) (auto simp: entries_ok_def)
    ultimately show ?thesis using True ok pin old n'
      by (auto simp: entries_ok_def put_at_def dest!: set_update_subset_insert [THEN subsetD])
  next
    case False
    then have "i = length es" "length es < max_memory" "me_key e \<notin> me_key ` set es"
      "pinned e \<longrightarrow> length (filter pinned es) < max_pinned"
      using place by (auto simp: place_def)
    then show ?thesis using False ok fresh old n' by (auto simp: entries_ok_def put_at_def)
  qed
qed

lemma memory_write_ok:
  assumes ok: "memory_ok m" and w: "memory_write m e = Inr m'"
  shows "memory_ok m'"
proof -
  obtain i n where n: "checked_add (mem_next_stamp m) 1 = Some n" and place: "place (memory_entries m) e i"
    and m': "m' = with_entries (put_at (memory_entries m) (stamped e (mem_next_stamp m)) i) n"
    using memory_write_cases [OF ok, of e] w by auto
  have "entries_ok (memory_entries m) (mem_next_stamp m)" "mem_next_stamp m \<noteq> 0"
    using ok by (simp_all add: memory_ok_def)
  from place_entries_ok [OF this(1) place _ this(2)] checked_add_one [OF n]
  show ?thesis by (simp add: m' memory_ok_with)
qed

lemma length_filter_filter: "length (filter P (filter Q xs)) \<le> length (filter P xs)"
  by (induction xs) auto

lemma memory_forget_effect:
  assumes ok: "memory_ok m"
  shows "memory_ok (fst (memory_forget m k)) \<and>
    memory_entries (fst (memory_forget m k)) = filter (\<lambda>e. me_key e \<noteq> k) (memory_entries m) \<and>
    snd (memory_forget m k) = (k \<in> me_key ` set (memory_entries m))"
proof (cases "memory_get m k")
  case None
  then have "k \<notin> me_key ` set (memory_entries m)" by (simp add: memory_get_None)
  then have "filter (\<lambda>e. me_key e \<noteq> k) (memory_entries m) = memory_entries m"
    by (intro filter_True) auto
  with None ok show ?thesis
    using \<open>k \<notin> me_key ` set (memory_entries m)\<close> by (simp add: memory_forget_def)
next
  case (Some e)
  let ?kept = "filter (\<lambda>e. me_key e \<noteq> k) (memory_entries m)"
  have es: "entries_ok (memory_entries m) (mem_next_stamp m)" using ok by (simp add: memory_ok_def)
  then have "length ?kept \<le> max_memory" by (meson entries_ok_def le_trans length_filter_le)
  then have f: "fst (memory_forget m k) = with_entries ?kept (mem_next_stamp m)"
    using Some by (simp add: memory_forget_def with_entries_def)
  have "length (filter pinned ?kept) \<le> length (filter pinned (memory_entries m))"
    by (rule length_filter_filter)
  then have "entries_ok ?kept (mem_next_stamp m)"
    using es \<open>length ?kept \<le> max_memory\<close> by (auto simp: entries_ok_def distinct_map_filter)
  moreover have "k \<in> me_key ` set (memory_entries m)" using Some memory_get_iff [OF ok] by auto
  ultimately show ?thesis using f ok Some
    by (simp add: memory_ok_with) (simp add: memory_ok_def memory_forget_def)
qed

section \<open>Recall as sorting\<close>

lemma sort_key_last:
  fixes k :: "'a \<Rightarrow> 'b::linorder"
  assumes dist: "distinct (map k ys)" and e: "max_by_key k ys = Some e"
  shows "sort_key k ys = sort_key k (filter (\<lambda>x. k x < k e) ys) @ [e]"
proof -
  note max = max_by_key_greatest [OF e]
  have inj: "inj_on k (set ys)" and d: "distinct ys" using dist by (simp_all add: distinct_map)
  have set: "set ys = insert e {x \<in> set ys. k x < k e}"
    using max inj by (auto simp: inj_on_def less_le)
  show ?thesis
  proof (rule map_sorted_distinct_set_unique [where f = k])
    show "inj_on k (set (sort_key k ys) \<union> set (sort_key k (filter (\<lambda>x. k x < k e) ys) @ [e]))"
      using inj max by (auto simp: inj_on_def)
    show "sorted (map k (sort_key k (filter (\<lambda>x. k x < k e) ys) @ [e]))"
      by (auto simp: sorted_append)
    show "distinct (map k (sort_key k ys))" using inj d by (simp add: distinct_map)
    show "distinct (map k (sort_key k (filter (\<lambda>x. k x < k e) ys) @ [e]))"
      using inj d by (auto simp: distinct_map inj_on_def)
    show "set (sort_key k ys) = set (sort_key k (filter (\<lambda>x. k x < k e) ys) @ [e])"
      using set by auto
  qed simp
qed

definition newest_first :: "(memory_entry \<Rightarrow> bool) \<Rightarrow> memory_entry list \<Rightarrow> memory_entry list" where
  "newest_first tier es = rev (sort_key me_stamp (filter tier es))"

lemma recall_tier_newest:
  "distinct (map me_stamp es) \<Longrightarrow>
   recall_tier tier es n below = take n (newest_first (\<lambda>e. tier e \<and> me_stamp e < below) es)"
proof (induction n arbitrary: below)
  case (Suc n)
  let ?ys = "filter (\<lambda>e. tier e \<and> me_stamp e < below) es"
  show ?case
  proof (cases "max_by_key me_stamp ?ys")
    case None
    then have "?ys = []" by simp
    then show ?thesis by (simp add: newest_first_def)
  next
    case (Some e)
    have e: "e \<in> set ?ys" using max_by_key_greatest [OF Some] by simp
    have "filter (\<lambda>x. me_stamp x < me_stamp e) ?ys = filter (\<lambda>x. tier x \<and> me_stamp x < me_stamp e) es"
      using e by (auto intro!: filter_cong)
    moreover have "distinct (map me_stamp ?ys)" using Suc.prems by (simp add: distinct_map_filter)
    ultimately have "newest_first (\<lambda>e. tier e \<and> me_stamp e < below) es =
        e # newest_first (\<lambda>x. tier x \<and> me_stamp x < me_stamp e) es"
      using sort_key_last [OF _ Some] by (simp add: newest_first_def)
    then show ?thesis using Some Suc by simp
  qed
qed simp

lemma recall_loop_newest:
  assumes dist: "distinct (map me_stamp es)" and small: "\<forall>e \<in> set es. me_stamp e < - 1"
  shows "length got \<le> recall_k \<Longrightarrow>
    recall_loop tiers es got = take recall_k (got @ concat (map (\<lambda>t. newest_first t es) tiers))"
proof (induction tiers arbitrary: got)
  case (Cons t tiers)
  have "filter (\<lambda>e. t e \<and> me_stamp e < - 1) es = filter t es"
    using small by (intro filter_cong) auto
  then have "newest_first (\<lambda>e. t e \<and> me_stamp e < - 1) es = newest_first t es"
    by (simp add: newest_first_def)
  then have tier: "recall_tier t es n (- 1) = take n (newest_first t es)" for n
    by (simp add: recall_tier_newest [OF dist])
  have "length (got @ take (recall_k - length got) (newest_first t es)) \<le> recall_k"
    using Cons.prems by simp
  from Cons.IH [OF this] show ?case using Cons.prems
    by (simp add: tier min_def)
qed simp

lemma memory_ok_stamps:
  assumes "memory_ok m"
  shows "distinct (map me_stamp (memory_entries m)) \<and> (\<forall>e \<in> set (memory_entries m). me_stamp e < - 1)"
proof -
  have "x < - 1" if "x < y" for x y :: u32 using that by (metis less_le_trans word_n1_ge)
  then show ?thesis using assms by (auto simp: memory_ok_def entries_ok_def)
qed

lemma recall_newest:
  "memory_ok m \<Longrightarrow> recall m g =
     take recall_k (concat (map (\<lambda>t. newest_first t (memory_entries m)) (recall_tiers g)))"
  using memory_ok_stamps [of m] by (simp add: recall_def recall_loop_newest recall_k_def)

section \<open>Restoring a store\<close>

lemma restore_entry_Inr:
  assumes ok: "entries_ok es n"
  shows "restore_entry (with_entries es n) e = Inr m \<longleftrightarrow>
    m = with_entries (es @ [e]) n \<and> entries_ok (es @ [e]) n"
proof -
  have "entries_ok (es @ [e]) n \<longleftrightarrow> length es < max_memory \<and> me_key e \<notin> me_key ` set es \<and>
      me_stamp e \<notin> me_stamp ` set es \<and> me_stamp e \<noteq> 0 \<and> me_stamp e < n \<and>
      (pinned e \<longrightarrow> length (filter pinned es) < max_pinned)"
    using ok by (auto simp: entries_ok_def)
  moreover have "list_ex (\<lambda>other. me_key other = me_key e \<or> me_stamp other = me_stamp e) es \<longleftrightarrow>
      me_key e \<in> me_key ` set es \<or> me_stamp e \<in> me_stamp ` set es"
    by (auto simp: list_ex_iff rev_image_eqI)
  ultimately show ?thesis
    by (auto simp: restore_entry_def result_simps fill_free_pack pinned_count_def not_le with_entries_def
        memory_entries_def flatten_pack)
qed

lemma restore_entries_Inr:
  "entries_ok es n \<Longrightarrow> restore_entries (with_entries es n) xs = Inr m \<longleftrightarrow>
     m = with_entries (es @ xs) n \<and> entries_ok (es @ xs) n"
proof (induction xs arbitrary: es)
  case (Cons x xs)
  show ?case
  proof (cases "entries_ok (es @ [x]) n")
    case True
    from Cons.IH [OF True] show ?thesis by (auto simp: result_simps restore_entry_Inr [OF Cons.prems] True)
  next
    case False
    then have "\<not> entries_ok (es @ x # xs) n" by (auto simp: entries_ok_def)
    then show ?thesis using False by (auto simp: result_simps restore_entry_Inr [OF Cons.prems])
  qed
qed auto

section \<open>Everything that changes the store\<close>

datatype memory_op = M_Write memory_entry | M_Forget memory_key

fun memory_apply :: "memory_op \<Rightarrow> memory \<Rightarrow> memory" where
  "memory_apply (M_Write e) m = or_same m (memory_write m e)"
| "memory_apply (M_Forget k) m = fst (memory_forget m k)"

fun memory_run :: "memory_op list \<Rightarrow> memory \<Rightarrow> memory" where
  "memory_run [] m = m"
| "memory_run (op # ops) m = memory_run ops (memory_apply op m)"

fun touches :: "memory_op \<Rightarrow> memory_key \<Rightarrow> bool" where
  "touches (M_Write e) k \<longleftrightarrow> me_key e = k"
| "touches (M_Forget k') k \<longleftrightarrow> k' = k"

text \<open>What a successful write leaves in place.\<close>

lemma put_at_keeps:
  assumes place: "place es e i" and x: "x \<in> set es" "me_key x \<noteq> me_key e"
    and gone: "x \<notin> set (put_at es (stamped e n) i)"
  shows "i < length es \<and> x = es ! i \<and> length es = max_memory \<and> \<not> pinned x \<and>
    me_key e \<notin> me_key ` set es \<and> (\<forall>y \<in> set es. \<not> pinned y \<longrightarrow> me_stamp x \<le> me_stamp y)"
proof (cases "i < length es")
  case True
  obtain j where j: "j < length es" "x = es ! j" using x by (auto simp: in_set_conv_nth)
  have "j = i"
  proof (rule ccontr)
    assume "j \<noteq> i"
    then have "es[i := stamped e n] ! j = x" using j by simp
    then have "x \<in> set (es[i := stamped e n])" using j by (metis length_list_update nth_mem)
    with gone True show False by (simp add: put_at_def)
  qed
  then show ?thesis using place True j x by (auto simp: place_def)
next
  case False
  then show ?thesis using gone x by (simp add: put_at_def)
qed

lemma memory_apply_effect:
  assumes ok: "memory_ok m"
  shows "memory_ok (memory_apply op m) \<and>
    (\<forall>x \<in> set (memory_entries m). pinned x \<and> \<not> touches op (me_key x) \<longrightarrow>
       x \<in> set (memory_entries (memory_apply op m)))"
proof (cases op)
  case (M_Write e)
  show ?thesis
  proof (cases "memory_write m e")
    case (Inl err)
    then show ?thesis using ok M_Write by (simp add: or_same_def)
  next
    case (Inr m')
    then obtain i n where "place (memory_entries m) e i"
      "m' = with_entries (put_at (memory_entries m) (stamped e (mem_next_stamp m)) i) n"
      using memory_write_cases [OF ok, of e] by auto
    then show ?thesis using put_at_keeps [of "memory_entries m" e i] memory_write_ok [OF ok Inr] Inr M_Write
      by (fastforce simp: or_same_def)
  qed
next
  case (M_Forget k)
  then show ?thesis using memory_forget_effect [OF ok, of k] by auto
qed

lemma memory_run_effect:
  assumes "memory_ok m"
  shows "memory_ok (memory_run ops m) \<and>
    (\<forall>x \<in> set (memory_entries m). pinned x \<and> (\<forall>op \<in> set ops. \<not> touches op (me_key x)) \<longrightarrow>
       x \<in> set (memory_entries (memory_run ops m)))"
  using assms
proof (induction ops arbitrary: m)
  case (Cons op ops)
  note step = memory_apply_effect [OF Cons.prems, of op]
  from Cons.IH [of "memory_apply op m"] step show ?case by auto
qed simp

lemma memory_run_append: "memory_run (ops @ ops') m = memory_run ops' (memory_run ops m)"
  by (induction ops arbitrary: m) auto

lemma filter_key_singleton:
  "distinct (map f xs) \<Longrightarrow> filter (\<lambda>x. f x = k) xs = [] \<or> (\<exists>x. filter (\<lambda>x. f x = k) xs = [x])"
proof (induction xs)
  case (Cons x xs)
  have "f x = k \<Longrightarrow> filter (\<lambda>x. f x = k) xs = []"
    using Cons.prems by (auto simp: filter_empty_conv image_iff)
  with Cons show ?case by auto
qed simp

section \<open>Properties\<close>

text \<open>C25: Operator notes are never evicted. After any sequence of writes and forgets the store is
  canonical, its keys and stamps are distinct, and at most eight of at most 32 entries are
  pinned; and a pinned entry stays in it, unchanged, until a write under its own key or a
  forget of its own key, however much is harvested in between.\<close>

theorem pinned_never_evicted:
  assumes "x \<in> set (memory_entries (memory_run ops memory_new))" and "pinned x"
    and "\<forall>op \<in> set ops'. \<not> touches op (me_key x)"
  shows "x \<in> set (memory_entries (memory_run (ops @ ops') memory_new)) \<and>
    memory_ok (memory_run (ops @ ops') memory_new) \<and>
    length (filter pinned (memory_entries (memory_run (ops @ ops') memory_new))) \<le> 8"
proof -
  have "memory_ok (memory_run ops memory_new)" using memory_run_effect memory_new_ok by blast
  from memory_run_effect [OF this, of ops'] assms show ?thesis
    by (auto simp: memory_run_append memory_ok_def entries_ok_def max_pinned_def)
qed

text \<open>C35: What a write does. Writing succeeds unless the stamps are spent or a new pinned entry would be
  the ninth. On success the entry is readable under its key with the next stamp, and every entry
  under another key survives, except that a write of a new key into a full store displaces one
  entry, the unpinned one with the oldest stamp.\<close>

theorem write_spec:
  assumes "memory_ok m"
  shows "case memory_write m e of
      Inl err \<Rightarrow>
        err = E_MemoryStampsExhausted \<and> mem_next_stamp m = - 1 \<or>
        err = E_MemoryFull \<and> pinned e \<and> length (filter pinned (memory_entries m)) = 8 \<and>
        memory_get m (me_key e) = None
    | Inr m' \<Rightarrow>
        memory_ok m' \<and> memory_get m' (me_key e) = Some (e\<lparr>me_stamp := mem_next_stamp m\<rparr>) \<and>
        mem_next_stamp m' = mem_next_stamp m + 1 \<and>
        (\<forall>x \<in> set (memory_entries m). me_key x \<noteq> me_key e \<longrightarrow>
           x \<in> set (memory_entries m') \<or>
           length (memory_entries m) = 32 \<and> memory_get m (me_key e) = None \<and> \<not> pinned x \<and>
           (\<forall>y \<in> set (memory_entries m). \<not> pinned y \<longrightarrow> me_stamp x \<le> me_stamp y))"
proof (cases "memory_write m e")
  case (Inl err)
  have "a = - 1" if "checked_add a 1 = None" for a :: u32
  proof -
    have "unat a = 2 ^ 32 - 1"
      using that unsigned_less [of a, where ?'a = nat] by (simp add: checked_add_def split: if_splits)
    then have "unat a = unat (- 1 :: u32)" by simp
    then show ?thesis by (rule unsigned_word_eqI)
  qed
  with memory_write_cases [OF assms, of e] Inl show ?thesis
    by (auto simp: memory_get_None max_pinned_def)
next
  case (Inr m')
  then obtain i n where n: "checked_add (mem_next_stamp m) 1 = Some n"
    and place: "place (memory_entries m) e i"
    and m': "m' = with_entries (put_at (memory_entries m) (stamped e (mem_next_stamp m)) i) n"
    using memory_write_cases [OF assms, of e] by auto
  note ok' = memory_write_ok [OF assms Inr]
  have "stamped e (mem_next_stamp m) \<in> set (memory_entries m')"
    using place by (auto simp: m' put_at_def place_def intro: set_update_memI)
  then have "memory_get m' (me_key e) = Some (stamped e (mem_next_stamp m))"
    using memory_get_iff [OF ok'] by simp
  moreover have "n = mem_next_stamp m + 1" using n by (simp add: checked_add_def split: if_splits)
  moreover have "\<forall>x \<in> set (memory_entries m). me_key x \<noteq> me_key e \<longrightarrow>
           x \<in> set (memory_entries m') \<or>
           length (memory_entries m) = max_memory \<and> me_key e \<notin> me_key ` set (memory_entries m) \<and> \<not> pinned x \<and>
           (\<forall>y \<in> set (memory_entries m). \<not> pinned y \<longrightarrow> me_stamp x \<le> me_stamp y)"
    using put_at_keeps [OF place] by (auto simp: m')
  ultimately show ?thesis using Inr ok'
    by (simp add: m' memory_get_None stamped_def max_memory_def)
qed

text \<open>C37: Recall is the documented order. It returns the first four entries of: the goal's own outcome,
  then the pinned notes, then the observations of the goal's runs, then the other observations,
  each group newest first; it never returns an entry twice.\<close>

theorem recall_in_order:
  assumes "memory_ok m"
  shows "recall m g = take 4 (
      filter (\<lambda>e. me_key e = MK_Outcome g) (memory_entries m) @
      newest_first pinned (memory_entries m) @
      newest_first (\<lambda>e. is_observation (me_key e) \<and> pv_goal (me_provenance e) = Some g) (memory_entries m) @
      newest_first (\<lambda>e. is_observation (me_key e) \<and> pv_goal (me_provenance e) \<noteq> Some g) (memory_entries m)) \<and>
    distinct (recall m g)"
proof -
  let ?es = "memory_entries m"
  have dk: "distinct (map me_key ?es)" using assms by (simp add: memory_ok_def entries_ok_def)
  then have d: "distinct ?es" by (simp add: distinct_map)
  have "newest_first (\<lambda>e. me_key e = MK_Outcome g) ?es = filter (\<lambda>e. me_key e = MK_Outcome g) ?es"
    unfolding newest_first_def using filter_key_singleton [OF dk, of "MK_Outcome g"] by auto
  then have eq: "recall m g = take 4 (filter (\<lambda>e. me_key e = MK_Outcome g) ?es @ newest_first pinned ?es @
      newest_first (\<lambda>e. is_observation (me_key e) \<and> pv_goal (me_provenance e) = Some g) ?es @
      newest_first (\<lambda>e. is_observation (me_key e) \<and> pv_goal (me_provenance e) \<noteq> Some g) ?es)"
    by (simp add: recall_newest [OF assms] recall_tiers_def recall_k_def)
  have nf: "set (newest_first t ?es) = {e \<in> set ?es. t e}" "distinct (newest_first t ?es)" for t
    using d by (auto simp: newest_first_def)
  have "\<not> (is_observation k \<and> key_is_pinned k)" for k by (cases k) auto
  then have "distinct (recall m g)"
    unfolding eq using d by (intro distinct_take) (auto simp: nf pinned_def)
  with eq show ?thesis by blast
qed

text \<open>Restoring a store is the inverse of listing it, and accepts nothing else: a listed store is
  rebuilt exactly, and whatever \<open>from_parts\<close> accepts has distinct keys, distinct nonzero stamps
  below the allocator, and at most eight pinned of at most 32 entries.\<close>

theorem memory_restore_is_exact:
  "memory_from_parts es n = Inr m \<longleftrightarrow>
     memory_entries m = es \<and> mem_next_stamp m = n \<and> mem_slots m = pack max_memory es \<and>
     length es \<le> 32 \<and> distinct (map me_key es) \<and> distinct (map me_stamp es) \<and>
     list_all (\<lambda>e. me_stamp e \<noteq> 0 \<and> me_stamp e < n) es \<and> length (filter pinned es) \<le> 8"
proof -
  have "memory_restoring n = with_entries [] n" by (simp add: memory_restoring_def with_entries_def pack_def)
  moreover have "entries_ok [] n" by (simp add: entries_ok_def)
  ultimately have "memory_from_parts es n = Inr m \<longleftrightarrow> m = with_entries es n \<and> entries_ok es n"
    using restore_entries_Inr [of "[]" n es m] by (simp add: memory_from_parts_def)
  moreover have "m = with_entries es n \<longleftrightarrow>
      memory_entries m = es \<and> mem_next_stamp m = n \<and> mem_slots m = pack max_memory es"
    by (cases m) (auto simp: with_entries_def memory_entries_def flatten_pack)
  ultimately show ?thesis
    by (auto simp: entries_ok_def max_memory_def max_pinned_def list_all_iff)
qed

section \<open>Instances\<close>

definition sample_entry :: "memory_key \<Rightarrow> memory_entry" where
  "sample_entry k =
     \<lparr>me_key = k, me_label = note_EMPTY, me_value = note_EMPTY,
      me_provenance = \<lparr>pv_goal = None, pv_run = None, pv_beat = Beat 1\<rparr>, me_stamp = 0\<rparr>"

lemma sample_entry_key [simp]: "me_key (sample_entry k) = k"
  by (simp add: sample_entry_def)

lemma sample_write:
  "memory_entries (memory_run [M_Write (sample_entry k)] memory_new) = [stamped (sample_entry k) 1]"
proof -
  have "checked_add (1 :: u32) 1 = Some 2" by (simp add: checked_add_def)
  then show ?thesis
    using memory_write_cases [OF conjunct1 [OF memory_new_ok], of "sample_entry k"] memory_new_ok
    by (auto simp: or_same_def memory_new_def place_def put_at_def memory_ok_def max_pinned_def
        split: sum.splits)
qed

theorem pinned_never_evicted_witness:
  "stamped (sample_entry (MK_Note (Digest 7))) 1 \<in> set (memory_entries (memory_run
     ([M_Write (sample_entry (MK_Note (Digest 7)))] @ [M_Write (sample_entry (MK_Outcome (GoalId 1)))])
     memory_new))"
proof (rule conjunct1 [OF pinned_never_evicted])
  show "stamped (sample_entry (MK_Note (Digest 7))) 1
      \<in> set (memory_entries (memory_run [M_Write (sample_entry (MK_Note (Digest 7)))] memory_new))"
    by (simp only: sample_write list.set insertI1)
qed (simp_all add: pinned_def sample_entry_def)

theorem write_spec_witness:
  "case memory_write memory_new (sample_entry (MK_Note (Digest 7))) of
     Inl err \<Rightarrow> False
   | Inr m' \<Rightarrow> memory_get m' (MK_Note (Digest 7)) = Some (stamped (sample_entry (MK_Note (Digest 7))) 1)"
  using write_spec [OF conjunct1 [OF memory_new_ok], of "sample_entry (MK_Note (Digest 7))"] memory_new_ok
  by (auto simp: memory_new_def sample_entry_def stamped_def split: sum.splits)

theorem recall_in_order_witness:
  "recall (memory_run [M_Write (sample_entry (MK_Note (Digest 7)))] memory_new) (GoalId 1)
     = [stamped (sample_entry (MK_Note (Digest 7))) 1]"
proof -
  have "memory_ok (memory_run [M_Write (sample_entry (MK_Note (Digest 7)))] memory_new)"
    using memory_run_effect memory_new_ok by blast
  from recall_in_order [OF this, of "GoalId 1"] show ?thesis
    unfolding sample_write by (simp add: newest_first_def) (simp add: pinned_def)
qed

end
