(* ===== verification/Codec.thy ===== *)
theory Codec
  imports Compact
begin

text \<open>
  The bounded writer and reader of the checkpoint and snapshot codecs (\<open>Sink\<close> and \<open>Reader\<close> of
  \<open>esper-core/src/checkpoint.rs\<close>; \<open>snapshot.rs\<close> has the same reader and writes byte by byte). The
  lemmas reduce a chain of writes to one write of the concatenated bytes, and say of a chain of
  reads exactly which bytes it accepts: both directions of a codec then follow by rewriting. The
  interface \<open>codec\<close> states what a pair of a writer and a reader promises.
\<close>

section \<open>The writer\<close>

record sink =
  sk_out :: bytes
  sk_pos :: nat
  sk_counting :: bool

definition sink_counting :: sink where
  "sink_counting = \<lparr>sk_out = [], sk_pos = 0, sk_counting = True\<rparr>"

definition sink_writing :: "bytes \<Rightarrow> sink" where
  "sink_writing out = \<lparr>sk_out = out, sk_pos = 0, sk_counting = False\<rparr>"

definition put_bytes :: "sink \<Rightarrow> bytes \<Rightarrow> error + sink" where
  "put_bytes s bs =
     (if sk_counting s then Inr (s\<lparr>sk_pos := sk_pos s + length bs\<rparr>)
      else case splice (sk_out s) (sk_pos s) bs of
             None \<Rightarrow> Inl E_SnapshotBufferTooSmall
           | Some out \<Rightarrow> Inr (s\<lparr>sk_out := out, sk_pos := sk_pos s + length bs\<rparr>))"

definition sink_u8 :: "sink \<Rightarrow> u8 \<Rightarrow> error + sink" where
  "sink_u8 s v = put_bytes s [v]"

definition sink_u16 :: "sink \<Rightarrow> u16 \<Rightarrow> error + sink" where
  "sink_u16 s v = put_bytes s (to_le_bytes v)"

definition sink_u32 :: "sink \<Rightarrow> u32 \<Rightarrow> error + sink" where
  "sink_u32 s v = put_bytes s (to_le_bytes v)"

definition sink_u64 :: "sink \<Rightarrow> u64 \<Rightarrow> error + sink" where
  "sink_u64 s v = put_bytes s (to_le_bytes v)"

definition put_note :: "sink \<Rightarrow> note_t \<Rightarrow> error + sink" where
  "put_note s n =
     (let bs = note_as_bytes n in
      and_then (ok_or E_SnapshotCorrupt (try_from (length bs))) (\<lambda>len.
        and_then (sink_u8 s len) (\<lambda>s'. put_bytes s' bs)))"

definition put_run :: "sink \<Rightarrow> run_id option \<Rightarrow> error + sink" where
  "put_run s run =
     and_then (sink_u8 s (if run \<noteq> None then 1 else 0)) (\<lambda>s'.
       sink_u64 s' (case run of None \<Rightarrow> 0 | Some r \<Rightarrow> run_id_get r))"

section \<open>The reader\<close>

record reader =
  rd_bytes :: bytes
  rd_pos :: nat
  rd_end :: nat

definition rd_take :: "nat \<Rightarrow> reader \<Rightarrow> error + (bytes \<times> reader)" where
  "rd_take n r =
     (let stop = rd_pos r + n in
      if rd_end r < stop then Inl E_SnapshotTruncated
      else case slice (rd_bytes r) (rd_pos r) stop of
             None \<Rightarrow> Inl E_SnapshotTruncated
           | Some bs \<Rightarrow> Inr (bs, r\<lparr>rd_pos := stop\<rparr>))"

text \<open>The \<open>?\<close> operator on reads, and the results that read nothing.\<close>

definition rd_bind ::
  "(reader \<Rightarrow> 'e + ('a \<times> reader)) \<Rightarrow> ('a \<Rightarrow> reader \<Rightarrow> 'e + ('b \<times> reader)) \<Rightarrow>
   reader \<Rightarrow> 'e + ('b \<times> reader)" where
  "rd_bind d f r = and_then (d r) (\<lambda>(x, r'). f x r')"

definition rd_return :: "'a \<Rightarrow> reader \<Rightarrow> 'e + ('a \<times> reader)" where
  "rd_return x r = Inr (x, r)"

definition rd_fail :: "'e \<Rightarrow> reader \<Rightarrow> 'e + ('a \<times> reader)" where
  "rd_fail e r = Inl e"

definition rd_check :: "'e + 'a \<Rightarrow> reader \<Rightarrow> 'e + ('a \<times> reader)" where
  "rd_check m r = and_then m (\<lambda>x. Inr (x, r))"

definition rd_u8 :: "reader \<Rightarrow> error + (u8 \<times> reader)" where
  "rd_u8 = rd_bind (rd_take 1) (\<lambda>bs. rd_return (from_le_bytes bs))"

definition rd_u16 :: "reader \<Rightarrow> error + (u16 \<times> reader)" where
  "rd_u16 = rd_bind (rd_take 2) (\<lambda>bs. rd_return (from_le_bytes bs))"

definition rd_u32 :: "reader \<Rightarrow> error + (u32 \<times> reader)" where
  "rd_u32 = rd_bind (rd_take 4) (\<lambda>bs. rd_return (from_le_bytes bs))"

definition rd_u64 :: "reader \<Rightarrow> error + (u64 \<times> reader)" where
  "rd_u64 = rd_bind (rd_take 8) (\<lambda>bs. rd_return (from_le_bytes bs))"

definition rd_flag :: "reader \<Rightarrow> error + (bool \<times> reader)" where
  "rd_flag = rd_bind rd_u8 (\<lambda>b.
     if b = 0 then rd_return False else if b = 1 then rd_return True else rd_fail E_SnapshotCorrupt)"

definition rd_note :: "reader \<Rightarrow> error + (note_t \<times> reader)" where
  "rd_note = rd_bind rd_u8 (\<lambda>len.
     if note_max < unat len then rd_fail E_SnapshotCorrupt
     else rd_bind (rd_take (unat len)) (\<lambda>bs.
       rd_check (map_err (\<lambda>_. E_SnapshotCorrupt) (note_from_bytes bs))))"

definition rd_run :: "reader \<Rightarrow> error + (run_id option \<times> reader)" where
  "rd_run = rd_bind rd_flag (\<lambda>present. rd_bind rd_u64 (\<lambda>i.
     if present then rd_return (Some (RunId i))
     else if i = 0 then rd_return None else rd_fail E_SnapshotCorrupt))"

section \<open>Chains of writes\<close>

named_theorems put_simps "a chain of writes is one write"
named_theorems read_simps "what a chain of reads accepts"

lemma and_then_assoc [put_simps]:
  "and_then (and_then m f) g = and_then m (\<lambda>x. and_then (f x) g)"
  by (cases m) auto

lemma and_then_Inr [simp]: "and_then m Inr = m"
  by (cases m) auto

lemma put_put [put_simps]:
  "and_then (put_bytes s as) (\<lambda>s'. put_bytes s' bs) = put_bytes s (as @ bs)"
proof (cases "sk_counting s \<or> length (sk_out s) < sk_pos s + length as + length bs")
  case True
  then show ?thesis by (auto simp: put_bytes_def splice_def add.assoc)
next
  case False
  then have "min (length (sk_out s)) (sk_pos s) = sk_pos s" by simp
  then show ?thesis using False
    by (simp add: put_bytes_def splice_def ac_simps)
qed

lemma put_put_then [put_simps]:
  "and_then (put_bytes s as) (\<lambda>s'. and_then (put_bytes s' bs) k) = and_then (put_bytes s (as @ bs)) k"
  by (simp add: put_put [symmetric] and_then_assoc)

lemma put_result:
  "put_bytes (sink_writing out) bs =
     (if length bs \<le> length out
      then Inr \<lparr>sk_out = bs @ drop (length bs) out, sk_pos = length bs, sk_counting = False\<rparr>
      else Inl E_SnapshotBufferTooSmall)"
  by (simp add: put_bytes_def sink_writing_def splice_def)

lemma put_count: "put_bytes sink_counting bs = Inr (sink_counting\<lparr>sk_pos := length bs\<rparr>)"
  by (simp add: put_bytes_def sink_counting_def)

definition note_enc :: "note_t \<Rightarrow> bytes" where
  "note_enc n = of_nat (length (note_as_bytes n)) # note_as_bytes n"

definition run_enc :: "run_id option \<Rightarrow> bytes" where
  "run_enc run = (case run of None \<Rightarrow> 0 # to_le_bytes (0 :: u64) | Some r \<Rightarrow> 1 # to_le_bytes (run_id_get r))"

lemma put_note_enc [put_simps]: "note_ok n \<Longrightarrow> put_note s n = put_bytes s (note_enc n)"
  using note_as_bytes_length [of n]
  by (simp add: put_note_def sink_u8_def put_put try_from_def note_max_def note_enc_def Let_def)

lemma put_run_enc [put_simps]: "put_run s run = put_bytes s (run_enc run)"
  by (simp add: put_run_def sink_u8_def sink_u64_def put_put run_enc_def split: option.split)

lemmas put_word_simps [put_simps] = sink_u8_def sink_u16_def sink_u32_def sink_u64_def

section \<open>Chains of reads\<close>

text \<open>The bytes next in a reader, and the reader past them.\<close>

definition reads :: "reader \<Rightarrow> bytes \<Rightarrow> bool" where
  "reads r bs \<longleftrightarrow> rd_pos r + length bs \<le> rd_end r \<and>
     slice (rd_bytes r) (rd_pos r) (rd_pos r + length bs) = Some bs"

definition skip :: "reader \<Rightarrow> bytes \<Rightarrow> reader" where
  "skip r bs = r\<lparr>rd_pos := rd_pos r + length bs\<rparr>"

lemma skip_append [read_simps]: "skip r (as @ bs) = skip (skip r as) bs"
  by (simp add: skip_def add.assoc)

lemma reads_append [read_simps]: "reads r (as @ bs) \<longleftrightarrow> reads r as \<and> reads (skip r as) bs"
proof -
  let ?xs = "drop (rd_pos r) (rd_bytes r)"
  show ?thesis
  proof (cases "rd_pos r + (length as + length bs) \<le> rd_end r \<and> rd_pos r + (length as + length bs) \<le> length (rd_bytes r)")
    case True
    then have "length (take (length as) ?xs) = length as" by (auto simp: min_def)
    then have "take (length as + length bs) ?xs = as @ bs \<longleftrightarrow>
        take (length as) ?xs = as \<and> take (length bs) (drop (length as) ?xs) = bs"
      by (simp add: take_add append_eq_append_conv)
    with True show ?thesis
      by (simp add: reads_def slice_def skip_def add.assoc add.commute [of "length as"])
  next
    case False
    then show ?thesis by (simp add: reads_def slice_def skip_def add.assoc) linarith
  qed
qed

lemma reads_Cons: "bs \<noteq> [] \<Longrightarrow> reads r (b # bs) \<longleftrightarrow> reads r [b] \<and> reads (skip r [b]) bs"
  using reads_append [of r "[b]" bs] by simp

lemma skip_Cons: "bs \<noteq> [] \<Longrightarrow> skip r (b # bs) = skip (skip r [b]) bs"
  using skip_append [of r "[b]" bs] by simp

lemma rd_bind_Inr [read_simps]:
  "rd_bind d f r = Inr (x, r'') \<longleftrightarrow> (\<exists>y r'. d r = Inr (y, r') \<and> f y r' = Inr (x, r''))"
  by (auto simp: rd_bind_def result_simps)

lemma rd_return_Inr [read_simps]: "rd_return x r = Inr (y, r') \<longleftrightarrow> y = x \<and> r' = r"
  by (auto simp: rd_return_def)

lemma rd_fail_Inr [read_simps]: "rd_fail e r = Inr y \<longleftrightarrow> False"
  by (simp add: rd_fail_def)

lemma rd_check_Inr [read_simps]: "rd_check m r = Inr (x, r') \<longleftrightarrow> m = Inr x \<and> r' = r"
  by (auto simp: rd_check_def result_simps)

lemma rd_take_Inr: "rd_take n r = Inr (bs, r') \<longleftrightarrow> length bs = n \<and> reads r bs \<and> r' = skip r bs"
proof (cases "slice (rd_bytes r) (rd_pos r) (rd_pos r + n)")
  case None
  then show ?thesis by (auto simp: rd_take_def reads_def Let_def split: if_splits)
next
  case (Some bs')
  then have "length bs' = n" using slice_Some_length by fastforce
  then have "rd_take n r = (if rd_pos r + n \<le> rd_end r then Inr (bs', skip r bs') else Inl E_SnapshotTruncated)"
    using Some by (simp add: rd_take_def skip_def Let_def)
  moreover have "length bs = n \<and> reads r bs \<longleftrightarrow> rd_pos r + n \<le> rd_end r \<and> bs = bs'"
    using Some \<open>length bs' = n\<close> by (metis option.inject reads_def)
  ultimately show ?thesis by auto
qed

lemma to_le_bytes_u8: "to_le_bytes (w :: u8) = [w]"
  by (simp add: to_le_bytes_def)

text \<open>Reading the bytes of an integer of \<open>n\<close> bytes.\<close>

lemma rd_word_iff:
  assumes "8 dvd LENGTH('a::len)" and "n = LENGTH('a) div 8"
  shows "rd_bind (rd_take n) (\<lambda>bs. rd_return (from_le_bytes bs)) r = Inr (w :: 'a word, r') \<longleftrightarrow>
    reads r (to_le_bytes w) \<and> r' = skip r (to_le_bytes w)"
proof -
  have "rd_bind (rd_take n) (\<lambda>bs. rd_return (from_le_bytes bs)) r = Inr (w, r') \<longleftrightarrow>
      (\<exists>bs. (length bs = n \<and> w = from_le_bytes bs) \<and> reads r bs \<and> r' = skip r bs)"
    by (auto simp: rd_bind_Inr rd_return_Inr rd_take_Inr)
  also have "(\<lambda>bs. length bs = n \<and> w = from_le_bytes bs) = (\<lambda>bs. bs = to_le_bytes w)"
    using assms by (intro ext) (metis from_to_le_bytes to_from_le_bytes length_to_le_bytes)
  finally show ?thesis by simp
qed

text \<open>The reader over a whole byte string, and what it means to read to its end.\<close>

definition reader_of :: "bytes \<Rightarrow> reader" where
  "reader_of bs = \<lparr>rd_bytes = bs, rd_pos = 0, rd_end = length bs\<rparr>"

lemma reads_to_end:
  assumes "rd_pos r \<le> rd_end r" and "rd_end r \<le> length (rd_bytes r)"
  shows "reads r bs \<and> rd_pos (skip r bs) = rd_end r \<longleftrightarrow> slice (rd_bytes r) (rd_pos r) (rd_end r) = Some bs"
proof -
  have "rd_pos r + length bs = rd_end r \<longleftrightarrow> length bs = rd_end r - rd_pos r" using assms by linarith
  then show ?thesis using assms slice_Some_length [of "rd_bytes r" "rd_pos r" "rd_end r" bs]
    by (auto simp: reads_def skip_def)
qed

lemma skip_end [simp]: "rd_end (skip r bs) = rd_end r"
  by (simp add: skip_def)

lemma reader_of_iff: "reads (reader_of bs) xs \<and> rd_pos (skip (reader_of bs) xs) = length bs \<longleftrightarrow> xs = bs"
  using reads_to_end [of "reader_of bs" xs] by (auto simp: reader_of_def slice_def)

lemma reads_Nil_skip: "reads r bs \<Longrightarrow> reads (skip r bs) []"
  using reads_append [of r bs "[]"] by simp

section \<open>Codecs\<close>

text \<open>What a reader promises, whatever its errors: it accepts exactly the encodings of well-formed
  values. A codec is such a reader with a writer that emits the encoding of a well-formed value.\<close>

locale exact_reader =
  fixes get :: "reader \<Rightarrow> 'e + ('a \<times> reader)"
    and enc :: "'a \<Rightarrow> bytes"
    and ok :: "'a \<Rightarrow> bool"
  assumes get_iff: "get r = Inr (x, r') \<longleftrightarrow> ok x \<and> reads r (enc x) \<and> r' = skip r (enc x)"
begin

text \<open>Reading back what was written, wherever it stands.\<close>

lemma get_enc: "ok x \<Longrightarrow> reads r (enc x) \<Longrightarrow> get r = Inr (x, skip r (enc x))"
  by (simp add: get_iff)

lemma bind_iff:
  "rd_bind get f r = Inr (y, r'') \<longleftrightarrow> (\<exists>x. ok x \<and> reads r (enc x) \<and> f x (skip r (enc x)) = Inr (y, r''))"
  by (auto simp: rd_bind_Inr get_iff)

lemma bind_enc: "reads r (enc x) \<Longrightarrow> ok x \<Longrightarrow> rd_bind get f r = f x (skip r (enc x))"
  by (simp add: rd_bind_def get_enc)

text \<open>No encoding is a proper prefix of another, so a value is read in one way only.\<close>

lemma unique: "ok x \<Longrightarrow> ok y \<Longrightarrow> reads r (enc x) \<Longrightarrow> reads r (enc y) \<Longrightarrow> x = y"
  using get_enc [of x r] get_enc [of y r] by simp

lemma enc_inj: "ok x \<Longrightarrow> ok y \<Longrightarrow> enc x = enc y \<Longrightarrow> x = y"
proof -
  assume "ok x" "ok y" and eq: "enc x = enc y"
  moreover have "reads \<lparr>rd_bytes = enc x, rd_pos = 0, rd_end = length (enc x)\<rparr> (enc x)"
    by (simp add: reads_def slice_def)
  ultimately show "x = y" using unique by metis
qed

end

locale reading = exact_reader get enc ok
  for get :: "reader \<Rightarrow> error + ('a \<times> reader)"
    and enc :: "'a \<Rightarrow> bytes"
    and ok :: "'a \<Rightarrow> bool"

locale codec = reading get enc ok
  for put :: "sink \<Rightarrow> 'a \<Rightarrow> error + sink"
    and get :: "reader \<Rightarrow> error + ('a \<times> reader)"
    and enc :: "'a \<Rightarrow> bytes"
    and ok :: "'a \<Rightarrow> bool" +
  assumes put_enc: "ok x \<Longrightarrow> put s x = put_bytes s (enc x)"

definition any :: "'a \<Rightarrow> bool" where "any x \<longleftrightarrow> True"

lemma any [simp]: "any x" by (simp add: any_def)

definition u8_enc :: "u8 \<Rightarrow> bytes" where "u8_enc w = [w]"

interpretation u8: codec sink_u8 rd_u8 u8_enc any
  by unfold_locales (simp_all add: sink_u8_def rd_u8_def rd_word_iff to_le_bytes_u8 u8_enc_def)

interpretation u16: codec sink_u16 rd_u16 "to_le_bytes" any
  by unfold_locales (simp_all add: sink_u16_def rd_u16_def rd_word_iff)

interpretation u32: codec sink_u32 rd_u32 "to_le_bytes" any
  by unfold_locales (simp_all add: sink_u32_def rd_u32_def rd_word_iff)

interpretation u64: codec sink_u64 rd_u64 "to_le_bytes" any
  by unfold_locales (simp_all add: sink_u64_def rd_u64_def rd_word_iff)

interpretation arr: codec put_bytes "rd_take n" "\<lambda>bs. bs" "\<lambda>bs. length bs = n" for n
  by unfold_locales (auto simp: rd_take_Inr)

definition put_flag :: "sink \<Rightarrow> bool \<Rightarrow> error + sink" where
  "put_flag s b = sink_u8 s (if b then 1 else 0)"

definition flag_enc :: "bool \<Rightarrow> bytes" where "flag_enc b = [if b then 1 else 0]"

interpretation flag_c: codec put_flag rd_flag flag_enc any
proof unfold_locales
  fix r b r'
  have "rd_flag r = Inr (b, r') \<longleftrightarrow> (\<exists>w. w = (if b then 1 else 0) \<and> reads r [w] \<and> r' = skip r [w])"
    unfolding rd_flag_def u8.bind_iff u8_enc_def
    by (intro iff_exI) (auto simp: rd_return_Inr rd_fail_Inr split: if_split_asm)
  then show "rd_flag r = Inr (b, r') \<longleftrightarrow> any b \<and> reads r (flag_enc b) \<and> r' = skip r (flag_enc b)"
    by (simp add: flag_enc_def)
qed (simp add: put_flag_def sink_u8_def flag_enc_def)

lemma note_ok_len:
  "note_ok n \<Longrightarrow> unat (word_of_nat (length (note_as_bytes n)) :: u8) = length (note_as_bytes n)"
  using note_as_bytes_length [of n] by (simp add: unat_of_nat take_bit_nat_eq_self note_max_def)

interpretation note_c: codec put_note rd_note note_enc note_ok
proof unfold_locales
  fix r n r'
  have "rd_note r = Inr (n, r') \<longleftrightarrow> (\<exists>len. unat len \<le> note_max \<and> reads r [len] \<and>
      (\<exists>bs. length bs = unat len \<and> reads (skip r [len]) bs \<and> note_from_bytes bs = Inr n \<and>
        r' = skip (skip r [len]) bs))"
    unfolding rd_note_def u8.bind_iff u8_enc_def
    by (intro iff_exI) (auto simp: rd_fail_Inr arr.bind_iff rd_check_Inr map_err_eq_Inr not_less)
  also have "\<dots> \<longleftrightarrow> (\<exists>len bs. len = of_nat (length bs) \<and> length bs \<le> note_max \<and>
      note_from_bytes bs = Inr n \<and> reads r ([len] @ bs) \<and> r' = skip r ([len] @ bs))"
    unfolding reads_append skip_append
  proof (intro iffI; elim exE conjE)
    fix len :: u8 and bs
    assume "unat len \<le> note_max" "length bs = unat len" "reads r [len]" "reads (skip r [len]) bs"
      "note_from_bytes bs = Inr n" "r' = skip (skip r [len]) bs"
    then show "\<exists>len bs. len = of_nat (length bs) \<and> length bs \<le> note_max \<and> note_from_bytes bs = Inr n \<and>
        (reads r [len] \<and> reads (skip r [len]) bs) \<and> r' = skip (skip r [len]) bs"
      by (intro exI [of _ len] exI [of _ bs]) simp
  next
    fix len :: u8 and bs
    assume a: "len = of_nat (length bs)" "length bs \<le> note_max" "note_from_bytes bs = Inr n"
      "reads r [len]" "reads (skip r [len]) bs" "r' = skip (skip r [len]) bs"
    then have "unat len = length bs"
      using note_ok_len [of n] note_from_bytes_ok [of bs n] by simp
    with a show "\<exists>len. unat len \<le> note_max \<and> reads r [len] \<and> (\<exists>bs. length bs = unat len \<and>
        reads (skip r [len]) bs \<and> note_from_bytes bs = Inr n \<and> r' = skip (skip r [len]) bs)"
      by (intro exI [of _ len] conjI exI [of _ bs]) simp_all
  qed
  also have "\<dots> \<longleftrightarrow> (\<exists>bs. note_ok n \<and> note_as_bytes n = bs \<and> reads r (note_enc n) \<and> r' = skip r (note_enc n))"
  proof (intro iffI; elim exE conjE)
    fix len :: u8 and bs
    assume a: "len = of_nat (length bs)" "note_from_bytes bs = Inr n"
      "reads r ([len] @ bs)" "r' = skip r ([len] @ bs)"
    then have "note_ok n" "note_enc n = [len] @ bs"
      using note_from_bytes_ok [of bs n] by (simp_all add: note_enc_def)
    with a show "\<exists>bs. note_ok n \<and> note_as_bytes n = bs \<and> reads r (note_enc n) \<and> r' = skip r (note_enc n)"
      by simp
  next
    fix bs
    assume "note_ok n" "reads r (note_enc n)" "r' = skip r (note_enc n)"
    then show "\<exists>len bs. len = of_nat (length bs) \<and> length bs \<le> note_max \<and> note_from_bytes bs = Inr n \<and>
        reads r ([len :: u8] @ bs) \<and> r' = skip r ([len] @ bs)"
      using note_from_as_bytes [of n] note_as_bytes_length [of n]
      by (intro exI [of _ "of_nat (length (note_as_bytes n))"] exI [of _ "note_as_bytes n"])
         (simp add: note_enc_def)
  qed
  finally show "rd_note r = Inr (n, r') \<longleftrightarrow> note_ok n \<and> reads r (note_enc n) \<and> r' = skip r (note_enc n)"
    by simp
qed (rule put_note_enc)

interpretation run_c: codec put_run rd_run run_enc any
proof unfold_locales
  fix r run r'
  have last: "(if present then rd_return (Some (RunId i))
      else if i = 0 then rd_return None else rd_fail E_SnapshotCorrupt) r1 = Inr (run, r') \<longleftrightarrow>
      (if present then run = Some (RunId i) else i = 0 \<and> run = None) \<and> r' = r1" for present i r1
    by (auto simp: rd_return_Inr rd_fail_Inr)
  have "rd_run r = Inr (run, r') \<longleftrightarrow> (\<exists>present. reads r (flag_enc present) \<and>
      (\<exists>i. reads (skip r (flag_enc present)) (to_le_bytes i) \<and>
        (if present then run = Some (RunId i) else i = 0 \<and> run = None) \<and>
        r' = skip (skip r (flag_enc present)) (to_le_bytes i)))"
    unfolding rd_run_def flag_c.bind_iff u64.bind_iff last by simp
  also have "\<dots> \<longleftrightarrow> reads r (run_enc run) \<and> r' = skip r (run_enc run)"
  proof (cases run)
    case None
    have "run_enc run = flag_enc False @ to_le_bytes (0 :: u64)"
      using None by (simp add: run_enc_def flag_enc_def)
    then show ?thesis using None by (auto simp: reads_append skip_append)
  next
    case (Some i)
    have "run_enc run = flag_enc True @ to_le_bytes (run_id_get i)"
      using Some by (simp add: run_enc_def flag_enc_def)
    then show ?thesis using Some by (cases i) (auto simp: reads_append skip_append)
  qed
  finally show "rd_run r = Inr (run, r') \<longleftrightarrow> any run \<and> reads r (run_enc run) \<and> r' = skip r (run_enc run)"
    by simp
qed (rule put_run_enc)

end
