(* ===== verification/Items.thy ===== *)
theory Items
  imports Codec Memory
begin

text \<open>
  The checkpoint items (\<open>esper-core/src/checkpoint.rs\<close>): the byte layout of a goal and of a memory
  entry. Every field is an instance of the \<open>codec\<close> interface, and so are the goal and the entry:
  what is written reads back, and the readers accept nothing but what the writers write.
\<close>

section \<open>Writing\<close>

text \<open>A sequence of writes, each followed by \<open>?\<close>.\<close>

fun sink_all :: "sink \<Rightarrow> (sink \<Rightarrow> error + sink) list \<Rightarrow> error + sink" where
  "sink_all s [] = Inr s"
| "sink_all s (f # fs) = and_then (f s) (\<lambda>s'. sink_all s' fs)"

definition put_goal_id :: "sink \<Rightarrow> goal_id \<Rightarrow> error + sink" where
  "put_goal_id s i = sink_u16 s (goal_id_get i)"

definition put_cadence :: "sink \<Rightarrow> cadence \<Rightarrow> error + sink" where
  "put_cadence s c =
     (case c of
        Once \<Rightarrow> sink_all s [\<lambda>s. sink_u8 s 0, \<lambda>s. sink_u32 s 0]
      | Every span \<Rightarrow> sink_all s [\<lambda>s. sink_u8 s 1, \<lambda>s. sink_u32 s (span_get span)])"

definition put_envelope :: "sink \<Rightarrow> envelope \<Rightarrow> error + sink" where
  "put_envelope s v = sink_all s
     [\<lambda>s. sink_u16 s (en_per_run_turns v), \<lambda>s. sink_u16 s (en_per_run_mutations v),
      \<lambda>s. sink_u32 s (en_turns v), \<lambda>s. sink_u32 s (en_mutations v), \<lambda>s. sink_u16 s (en_runs v)]"

definition put_remaining :: "sink \<Rightarrow> remaining \<Rightarrow> error + sink" where
  "put_remaining s v = sink_all s
     [\<lambda>s. sink_u32 s (rm_turns v), \<lambda>s. sink_u32 s (rm_mutations v), \<lambda>s. sink_u16 s (rm_runs v)]"

definition put_grant :: "sink \<Rightarrow> grant \<Rightarrow> error + sink" where
  "put_grant s v = sink_all s [\<lambda>s. sink_u16 s (gr_turns v), \<lambda>s. sink_u16 s (gr_mutations v)]"

definition put_capabilities :: "sink \<Rightarrow> capabilities \<Rightarrow> error + sink" where
  "put_capabilities s c = sink_all s
     [\<lambda>s. put_bytes s (c_read_pins c), \<lambda>s. sink_u8 s (c_read_count c),
      \<lambda>s. put_bytes s (c_write_pins c), \<lambda>s. sink_u8 s (c_write_count c),
      \<lambda>s. put_bytes s (c_sensors c), \<lambda>s. sink_u8 s (c_sensor_count c),
      \<lambda>s. put_flag s (c_allow_timer c), \<lambda>s. put_flag s (c_allow_status c)]"

definition put_status :: "sink \<Rightarrow> goal_status \<Rightarrow> error + sink" where
  "put_status s g = sink_u8 s (goal_status_code g)"

definition put_last_status :: "sink \<Rightarrow> terminal_status option \<Rightarrow> error + sink" where
  "put_last_status s t = sink_u8 s (case t of None \<Rightarrow> 0xff | Some t \<Rightarrow> terminal_status_code t)"

definition put_beat :: "sink \<Rightarrow> beat \<Rightarrow> error + sink" where
  "put_beat s b = sink_u64 s (beat_get b)"

definition put_goal :: "sink \<Rightarrow> goal \<Rightarrow> error + sink" where
  "put_goal s g = sink_all s
     [\<lambda>s. put_goal_id s (g_id g), \<lambda>s. put_note s (g_objective g), \<lambda>s. sink_u8 s (g_priority g),
      \<lambda>s. put_cadence s (g_cadence g), \<lambda>s. put_envelope s (g_envelope g),
      \<lambda>s. put_remaining s (g_remaining g), \<lambda>s. put_grant s (g_reserved g),
      \<lambda>s. put_capabilities s (g_capabilities g), \<lambda>s. put_status s (g_status g),
      \<lambda>s. put_beat s (g_next_due g), \<lambda>s. sink_u8 s (g_failures g),
      \<lambda>s. sink_u32 s (g_runs_started g), \<lambda>s. put_last_status s (g_last_status g),
      \<lambda>s. put_beat s (g_waiting_since g), \<lambda>s. put_run s (g_run g)]"

definition put_key :: "sink \<Rightarrow> memory_key \<Rightarrow> error + sink" where
  "put_key s k = and_then (sink_u8 s (key_tag k)) (\<lambda>s.
     case k of
       MK_Observation tool d \<Rightarrow> sink_all s [\<lambda>s. sink_u8 s (tool_id_get tool), \<lambda>s. sink_u64 s (digest_get d)]
     | MK_Outcome goal \<Rightarrow> put_goal_id s goal
     | MK_Note d \<Rightarrow> sink_u64 s (digest_get d))"

definition put_provenance :: "sink \<Rightarrow> provenance \<Rightarrow> error + sink" where
  "put_provenance s p = sink_all s
     [\<lambda>s. sink_u16 s (case pv_goal p of None \<Rightarrow> 0 | Some g \<Rightarrow> goal_id_get g),
      \<lambda>s. put_run s (pv_run p), \<lambda>s. put_beat s (pv_beat p)]"

definition put_entry :: "sink \<Rightarrow> memory_entry \<Rightarrow> error + sink" where
  "put_entry s e = sink_all s
     [\<lambda>s. put_key s (me_key e), \<lambda>s. put_note s (me_label e), \<lambda>s. put_note s (me_value e),
      \<lambda>s. put_provenance s (me_provenance e), \<lambda>s. sink_u32 s (me_stamp e)]"

section \<open>Reading\<close>

definition corrupt_unless :: "bool \<Rightarrow> error + unit" where
  "corrupt_unless b = (if b then Inr () else Inl E_SnapshotCorrupt)"

definition take_goal_id :: "reader \<Rightarrow> error + (goal_id \<times> reader)" where
  "take_goal_id = rd_bind rd_u16 (\<lambda>i. rd_check (ok_or E_SnapshotCorrupt (goal_id_new i)))"

definition take_cadence :: "reader \<Rightarrow> error + (cadence \<times> reader)" where
  "take_cadence = rd_bind rd_u8 (\<lambda>tag. rd_bind rd_u32 (\<lambda>span.
     if tag = 0 \<and> span = 0 then rd_return Once
     else if tag = 1 then rd_check (map_sum id Every (ok_or E_SnapshotCorrupt (span_new span)))
     else rd_fail E_SnapshotCorrupt))"

definition take_envelope :: "reader \<Rightarrow> error + (envelope \<times> reader)" where
  "take_envelope =
     rd_bind rd_u16 (\<lambda>a. rd_bind rd_u16 (\<lambda>b. rd_bind rd_u32 (\<lambda>c. rd_bind rd_u32 (\<lambda>d. rd_bind rd_u16 (\<lambda>e.
       let v = \<lparr>en_per_run_turns = a, en_per_run_mutations = b, en_turns = c, en_mutations = d, en_runs = e\<rparr>
       in rd_check (map_sum id (\<lambda>_. v) (map_err (\<lambda>_. E_SnapshotCorrupt) (envelope_validate v))))))))"

definition take_remaining :: "reader \<Rightarrow> error + (remaining \<times> reader)" where
  "take_remaining = rd_bind rd_u32 (\<lambda>a. rd_bind rd_u32 (\<lambda>b. rd_bind rd_u16 (\<lambda>c.
     rd_return \<lparr>rm_turns = a, rm_mutations = b, rm_runs = c\<rparr>)))"

definition take_grant :: "reader \<Rightarrow> error + (grant \<times> reader)" where
  "take_grant = rd_bind rd_u16 (\<lambda>a. rd_bind rd_u16 (\<lambda>b. rd_return \<lparr>gr_turns = a, gr_mutations = b\<rparr>))"

text \<open>\<open>pins_ok\<close> and \<open>sensors_ok\<close>: the counted prefix exists and is below the bound.\<close>

definition set_below :: "u8 \<Rightarrow> u8 list \<Rightarrow> u8 \<Rightarrow> bool" where
  "set_below bound s count =
     (case slice s 0 (unat count) of None \<Rightarrow> False | Some xs \<Rightarrow> list_all (\<lambda>v. v < bound) xs)"

definition caps_valid :: "capabilities \<Rightarrow> bool" where
  "caps_valid c \<longleftrightarrow> set_below 8 (c_read_pins c) (c_read_count c) \<and>
     set_below 8 (c_write_pins c) (c_write_count c) \<and> set_below 4 (c_sensors c) (c_sensor_count c)"

definition take_capabilities :: "reader \<Rightarrow> error + (capabilities \<times> reader)" where
  "take_capabilities =
     rd_bind (rd_take max_pins_per_set) (\<lambda>rp. rd_bind rd_u8 (\<lambda>rc.
     rd_bind (rd_take max_pins_per_set) (\<lambda>wp. rd_bind rd_u8 (\<lambda>wc.
     rd_bind (rd_take max_sensors_per_set) (\<lambda>sn. rd_bind rd_u8 (\<lambda>sc.
     rd_bind rd_flag (\<lambda>timer. rd_bind rd_flag (\<lambda>status.
       let caps = \<lparr>c_read_pins = rp, c_read_count = rc, c_write_pins = wp, c_write_count = wc,
                   c_sensors = sn, c_sensor_count = sc, c_allow_timer = timer, c_allow_status = status\<rparr>
       in rd_check (map_sum id (\<lambda>_. caps) (corrupt_unless (caps_valid caps)))))))))))"

definition take_status :: "reader \<Rightarrow> error + (goal_status \<times> reader)" where
  "take_status = rd_bind rd_u8 (\<lambda>c. rd_check (ok_or E_SnapshotCorrupt (goal_status_from_code c)))"

definition take_last_status :: "reader \<Rightarrow> error + (terminal_status option \<times> reader)" where
  "take_last_status = rd_bind rd_u8 (\<lambda>c.
     if c = 0xff then rd_return None
     else rd_check (map_sum id Some (map_err (\<lambda>_. E_SnapshotCorrupt) (terminal_status_from_code c))))"

definition take_beat :: "reader \<Rightarrow> error + (beat \<times> reader)" where
  "take_beat = rd_bind rd_u64 (\<lambda>b. rd_return (Beat b))"

definition take_goal :: "reader \<Rightarrow> error + (goal \<times> reader)" where
  "take_goal =
     rd_bind take_goal_id (\<lambda>i. rd_bind rd_note (\<lambda>objective. rd_bind rd_u8 (\<lambda>priority.
     rd_bind take_cadence (\<lambda>cadence. rd_bind take_envelope (\<lambda>envelope.
     rd_bind take_remaining (\<lambda>remaining. rd_bind take_grant (\<lambda>reserved.
     rd_bind take_capabilities (\<lambda>capabilities. rd_bind take_status (\<lambda>status.
     rd_bind take_beat (\<lambda>next_due. rd_bind rd_u8 (\<lambda>failures. rd_bind rd_u32 (\<lambda>runs_started.
     rd_bind take_last_status (\<lambda>last_status. rd_bind take_beat (\<lambda>waiting_since. rd_bind rd_run (\<lambda>run.
       let g = \<lparr>g_id = i, g_objective = objective, g_priority = priority, g_cadence = cadence,
                g_envelope = envelope, g_remaining = remaining, g_reserved = reserved,
                g_capabilities = capabilities, g_status = status, g_next_due = next_due,
                g_failures = failures, g_runs_started = runs_started, g_last_status = last_status,
                g_waiting_since = waiting_since, g_run = run\<rparr>
       in rd_check (map_sum id (\<lambda>_. g)
            (corrupt_unless (goal_status_is_busy status \<longleftrightarrow> run \<noteq> None))))))))))))))))))"

definition take_key :: "reader \<Rightarrow> error + (memory_key \<times> reader)" where
  "take_key = rd_bind rd_u8 (\<lambda>tag.
     if tag = 0 then rd_bind rd_u8 (\<lambda>t. rd_bind rd_u64 (\<lambda>d. rd_return (MK_Observation (ToolId t) (Digest d))))
     else if tag = 1 then rd_bind take_goal_id (\<lambda>g. rd_return (MK_Outcome g))
     else if tag = 2 then rd_bind rd_u64 (\<lambda>d. rd_return (MK_Note (Digest d)))
     else rd_fail E_SnapshotCorrupt)"

definition take_provenance :: "reader \<Rightarrow> error + (provenance \<times> reader)" where
  "take_provenance = rd_bind rd_u16 (\<lambda>i.
     rd_bind (if i = 0 then rd_return None
              else rd_check (map_sum id Some (ok_or E_SnapshotCorrupt (goal_id_new i)))) (\<lambda>goal.
     rd_bind rd_run (\<lambda>run. rd_bind take_beat (\<lambda>beat.
       rd_return \<lparr>pv_goal = goal, pv_run = run, pv_beat = beat\<rparr>))))"

definition take_entry :: "reader \<Rightarrow> error + (memory_entry \<times> reader)" where
  "take_entry =
     rd_bind take_key (\<lambda>key. rd_bind rd_note (\<lambda>label. rd_bind rd_note (\<lambda>val.
     rd_bind take_provenance (\<lambda>p. rd_bind rd_u32 (\<lambda>stamp.
       rd_return \<lparr>me_key = key, me_label = label, me_value = val, me_provenance = p, me_stamp = stamp\<rparr>)))))"

section \<open>The layout\<close>

definition goal_id_enc :: "goal_id \<Rightarrow> bytes" where
  "goal_id_enc i = to_le_bytes (goal_id_get i)"

definition cadence_enc :: "cadence \<Rightarrow> bytes" where
  "cadence_enc c =
     (case c of Once \<Rightarrow> u8_enc 0 @ to_le_bytes (0 :: u32) | Every s \<Rightarrow> u8_enc 1 @ to_le_bytes (span_get s))"

definition envelope_enc :: "envelope \<Rightarrow> bytes" where
  "envelope_enc v =
     to_le_bytes (en_per_run_turns v) @ to_le_bytes (en_per_run_mutations v) @
     to_le_bytes (en_turns v) @ to_le_bytes (en_mutations v) @ to_le_bytes (en_runs v)"

definition remaining_enc :: "remaining \<Rightarrow> bytes" where
  "remaining_enc v = to_le_bytes (rm_turns v) @ to_le_bytes (rm_mutations v) @ to_le_bytes (rm_runs v)"

definition grant_enc :: "grant \<Rightarrow> bytes" where
  "grant_enc v = to_le_bytes (gr_turns v) @ to_le_bytes (gr_mutations v)"

definition capabilities_enc :: "capabilities \<Rightarrow> bytes" where
  "capabilities_enc c =
     c_read_pins c @ u8_enc (c_read_count c) @ c_write_pins c @ u8_enc (c_write_count c) @
     c_sensors c @ u8_enc (c_sensor_count c) @ flag_enc (c_allow_timer c) @ flag_enc (c_allow_status c)"

definition status_enc :: "goal_status \<Rightarrow> bytes" where
  "status_enc g = u8_enc (goal_status_code g)"

definition last_status_enc :: "terminal_status option \<Rightarrow> bytes" where
  "last_status_enc t = u8_enc (case t of None \<Rightarrow> 0xff | Some t \<Rightarrow> terminal_status_code t)"

definition beat_enc :: "beat \<Rightarrow> bytes" where
  "beat_enc b = to_le_bytes (beat_get b)"

definition goal_enc :: "goal \<Rightarrow> bytes" where
  "goal_enc g =
     goal_id_enc (g_id g) @ note_enc (g_objective g) @ u8_enc (g_priority g) @ cadence_enc (g_cadence g) @
     envelope_enc (g_envelope g) @ remaining_enc (g_remaining g) @ grant_enc (g_reserved g) @
     capabilities_enc (g_capabilities g) @ status_enc (g_status g) @ beat_enc (g_next_due g) @
     u8_enc (g_failures g) @ to_le_bytes (g_runs_started g) @ last_status_enc (g_last_status g) @
     beat_enc (g_waiting_since g) @ run_enc (g_run g)"

definition key_enc :: "memory_key \<Rightarrow> bytes" where
  "key_enc k = u8_enc (key_tag k) @
     (case k of
        MK_Observation tool d \<Rightarrow> u8_enc (tool_id_get tool) @ to_le_bytes (digest_get d)
      | MK_Outcome goal \<Rightarrow> goal_id_enc goal
      | MK_Note d \<Rightarrow> to_le_bytes (digest_get d))"

definition provenance_enc :: "provenance \<Rightarrow> bytes" where
  "provenance_enc p =
     to_le_bytes (case pv_goal p of None \<Rightarrow> 0 | Some g \<Rightarrow> goal_id_get g) @ run_enc (pv_run p) @
     beat_enc (pv_beat p)"

definition entry_enc :: "memory_entry \<Rightarrow> bytes" where
  "entry_enc e =
     key_enc (me_key e) @ note_enc (me_label e) @ note_enc (me_value e) @
     provenance_enc (me_provenance e) @ to_le_bytes (me_stamp e)"

text \<open>The values that have a layout: what their constructors in the source guarantee.\<close>

definition goal_id_wire :: "goal_id \<Rightarrow> bool" where
  "goal_id_wire i \<longleftrightarrow> goal_id_get i \<noteq> 0"

definition cadence_wire :: "cadence \<Rightarrow> bool" where
  "cadence_wire c \<longleftrightarrow> (case c of Once \<Rightarrow> True | Every s \<Rightarrow> span_ok s)"

definition envelope_wire :: "envelope \<Rightarrow> bool" where
  "envelope_wire v \<longleftrightarrow> envelope_validate v = Inr ()"

definition capabilities_wire :: "capabilities \<Rightarrow> bool" where
  "capabilities_wire c \<longleftrightarrow>
     length (c_read_pins c) = 8 \<and> length (c_write_pins c) = 8 \<and> length (c_sensors c) = 4 \<and> caps_valid c"

definition goal_wire :: "goal \<Rightarrow> bool" where
  "goal_wire g \<longleftrightarrow> goal_id_wire (g_id g) \<and> note_ok (g_objective g) \<and> cadence_wire (g_cadence g) \<and>
     envelope_wire (g_envelope g) \<and> capabilities_wire (g_capabilities g) \<and>
     (goal_status_is_busy (g_status g) \<longleftrightarrow> g_run g \<noteq> None)"

definition key_wire :: "memory_key \<Rightarrow> bool" where
  "key_wire k \<longleftrightarrow>
     (case k of MK_Observation _ _ \<Rightarrow> True | MK_Outcome g \<Rightarrow> goal_id_wire g | MK_Note _ \<Rightarrow> True)"

definition provenance_wire :: "provenance \<Rightarrow> bool" where
  "provenance_wire p \<longleftrightarrow> (case pv_goal p of None \<Rightarrow> True | Some g \<Rightarrow> goal_id_wire g)"

definition entry_wire :: "memory_entry \<Rightarrow> bool" where
  "entry_wire e \<longleftrightarrow> key_wire (me_key e) \<and> note_ok (me_label e) \<and> note_ok (me_value e) \<and>
     provenance_wire (me_provenance e)"

section \<open>Every field is a codec\<close>

lemmas put_chain = put_put put_put_then and_then_assoc and_then_Inr

lemmas read_chain = reads_append skip_append rd_return_Inr rd_fail_Inr rd_check_Inr

lemma map_sum_id_Inr [result_simps]: "map_sum id f m = Inr y \<longleftrightarrow> (\<exists>x. m = Inr x \<and> y = f x)"
  by (cases m) auto

lemma corrupt_unless_Inr [result_simps]: "corrupt_unless b = Inr u \<longleftrightarrow> b"
  by (simp add: corrupt_unless_def)

lemma goal_id_new_Some [result_simps]: "goal_id_new i = Some g \<longleftrightarrow> goal_id_wire g \<and> i = goal_id_get g"
  by (cases g) (auto simp: goal_id_new_def goal_id_wire_def)

lemma span_new_Some [result_simps]: "span_new n = Some s \<longleftrightarrow> span_ok s \<and> n = span_get s"
  by (cases s) (auto simp: span_new_def span_ok_def)

interpretation goal_id_c: codec put_goal_id take_goal_id goal_id_enc goal_id_wire
proof unfold_locales
  fix r i r'
  show "take_goal_id r = Inr (i, r') \<longleftrightarrow>
      goal_id_wire i \<and> reads r (goal_id_enc i) \<and> r' = skip r (goal_id_enc i)"
    unfolding take_goal_id_def u16.bind_iff by (auto simp: rd_check_Inr result_simps goal_id_enc_def)
qed (simp add: put_goal_id_def u16.put_enc goal_id_enc_def)

interpretation cadence_c: codec put_cadence take_cadence cadence_enc cadence_wire
proof unfold_locales
  fix r c r'
  have "(if tag = 0 \<and> n = 0 then rd_return Once
      else if tag = 1 then rd_check (map_sum id Every (ok_or E_SnapshotCorrupt (span_new n)))
      else rd_fail E_SnapshotCorrupt) r1 = Inr (c, r') \<longleftrightarrow>
      r' = r1 \<and> cadence_wire c \<and> tag = (case c of Once \<Rightarrow> 0 | Every s \<Rightarrow> 1) \<and>
      n = (case c of Once \<Rightarrow> 0 | Every s \<Rightarrow> span_get s)" for tag :: u8 and n r1
    by (cases c) (auto simp: cadence_wire_def rd_return_Inr rd_fail_Inr rd_check_Inr result_simps)
  then show "take_cadence r = Inr (c, r') \<longleftrightarrow>
      cadence_wire c \<and> reads r (cadence_enc c) \<and> r' = skip r (cadence_enc c)"
    unfolding take_cadence_def u8.bind_iff u32.bind_iff
    by (cases c) (auto simp: cadence_enc_def reads_append skip_append)
qed (simp add: put_cadence_def cadence_enc_def u8.put_enc u32.put_enc put_chain split: cadence.split)

interpretation envelope_c: codec put_envelope take_envelope envelope_enc envelope_wire
proof unfold_locales
  fix r v r'
  show "take_envelope r = Inr (v, r') \<longleftrightarrow>
      envelope_wire v \<and> reads r (envelope_enc v) \<and> r' = skip r (envelope_enc v)"
  proof
    assume "take_envelope r = Inr (v, r')"
    then show "envelope_wire v \<and> reads r (envelope_enc v) \<and> r' = skip r (envelope_enc v)"
      unfolding take_envelope_def u16.bind_iff u32.bind_iff
      by (auto simp: Let_def read_chain result_simps envelope_enc_def envelope_wire_def)
  next
    assume "envelope_wire v \<and> reads r (envelope_enc v) \<and> r' = skip r (envelope_enc v)"
    then show "take_envelope r = Inr (v, r')"
      unfolding envelope_enc_def reads_append skip_append
      by (elim conjE, cases v) (simp add: take_envelope_def u16.bind_enc u32.bind_enc read_chain Let_def result_simps
          envelope_enc_def envelope_wire_def)
  qed
qed (simp add: put_envelope_def envelope_enc_def u16.put_enc u32.put_enc put_chain)


interpretation remaining_c: codec put_remaining take_remaining remaining_enc any
proof unfold_locales
  fix r v r'
  show "take_remaining r = Inr (v, r') \<longleftrightarrow> any v \<and> reads r (remaining_enc v) \<and> r' = skip r (remaining_enc v)"
  proof
    assume "take_remaining r = Inr (v, r')"
    then show "any v \<and> reads r (remaining_enc v) \<and> r' = skip r (remaining_enc v)"
      unfolding take_remaining_def u16.bind_iff u32.bind_iff
      by (auto simp: read_chain remaining_enc_def)
  next
    assume "any v \<and> reads r (remaining_enc v) \<and> r' = skip r (remaining_enc v)"
    then show "take_remaining r = Inr (v, r')"
      unfolding remaining_enc_def reads_append skip_append
      by (elim conjE, cases v) (simp add: take_remaining_def u16.bind_enc u32.bind_enc read_chain)
  qed
qed (simp add: put_remaining_def remaining_enc_def u16.put_enc u32.put_enc put_chain)

interpretation grant_c: codec put_grant take_grant grant_enc any
proof unfold_locales
  fix r v r'
  show "take_grant r = Inr (v, r') \<longleftrightarrow> any v \<and> reads r (grant_enc v) \<and> r' = skip r (grant_enc v)"
  proof
    assume "take_grant r = Inr (v, r')"
    then show "any v \<and> reads r (grant_enc v) \<and> r' = skip r (grant_enc v)"
      unfolding take_grant_def u16.bind_iff by (auto simp: read_chain grant_enc_def)
  next
    assume "any v \<and> reads r (grant_enc v) \<and> r' = skip r (grant_enc v)"
    then show "take_grant r = Inr (v, r')"
      unfolding grant_enc_def reads_append skip_append
      by (elim conjE, cases v) (simp add: take_grant_def u16.bind_enc read_chain)
  qed
qed (simp add: put_grant_def grant_enc_def u16.put_enc put_chain)

interpretation capabilities_c: codec put_capabilities take_capabilities capabilities_enc capabilities_wire
proof unfold_locales
  fix r v r'
  show "take_capabilities r = Inr (v, r') \<longleftrightarrow>
      capabilities_wire v \<and> reads r (capabilities_enc v) \<and> r' = skip r (capabilities_enc v)"
  proof
    assume "take_capabilities r = Inr (v, r')"
    then show "capabilities_wire v \<and> reads r (capabilities_enc v) \<and> r' = skip r (capabilities_enc v)"
      unfolding take_capabilities_def arr.bind_iff u8.bind_iff flag_c.bind_iff
      by (auto simp: Let_def read_chain result_simps capabilities_enc_def capabilities_wire_def
          max_pins_per_set_def max_sensors_per_set_def)
  next
    assume "capabilities_wire v \<and> reads r (capabilities_enc v) \<and> r' = skip r (capabilities_enc v)"
    then show "take_capabilities r = Inr (v, r')"
      unfolding capabilities_enc_def reads_append skip_append
      by (elim conjE, cases v) (simp add: take_capabilities_def arr.bind_enc u8.bind_enc flag_c.bind_enc
          read_chain Let_def result_simps capabilities_wire_def max_pins_per_set_def max_sensors_per_set_def)
  qed
qed (simp add: put_capabilities_def capabilities_enc_def u8.put_enc flag_c.put_enc put_chain)

interpretation status_c: codec put_status take_status status_enc any
proof unfold_locales
  fix r s r'
  show "take_status r = Inr (s, r') \<longleftrightarrow> any s \<and> reads r (status_enc s) \<and> r' = skip r (status_enc s)"
    unfolding take_status_def u8.bind_iff
    by (auto simp: rd_check_Inr ok_or_eq_Inr goal_status_roundtrip status_enc_def)
qed (simp add: put_status_def status_enc_def u8.put_enc)

interpretation last_status_c: codec put_last_status take_last_status last_status_enc any
proof unfold_locales
  fix r s r'
  have code: "terminal_status_code t \<noteq> 0xff" for t by (cases t) simp_all
  then have "(if c = 0xff then rd_return None
      else rd_check (map_sum id Some (map_err (\<lambda>_. E_SnapshotCorrupt) (terminal_status_from_code c)))) r1
        = Inr (s, r') \<longleftrightarrow> r' = r1 \<and> c = (case s of None \<Rightarrow> 0xff | Some t \<Rightarrow> terminal_status_code t)" for c r1
    by (cases s) (auto simp: rd_return_Inr rd_check_Inr result_simps terminal_status_roundtrip)
  then show "take_last_status r = Inr (s, r') \<longleftrightarrow>
      any s \<and> reads r (last_status_enc s) \<and> r' = skip r (last_status_enc s)"
    unfolding take_last_status_def u8.bind_iff by (auto simp: last_status_enc_def)
qed (simp add: put_last_status_def last_status_enc_def u8.put_enc)

interpretation beat_c: codec put_beat take_beat beat_enc any
proof unfold_locales
  fix r b r'
  show "take_beat r = Inr (b, r') \<longleftrightarrow> any b \<and> reads r (beat_enc b) \<and> r' = skip r (beat_enc b)"
    unfolding take_beat_def u64.bind_iff by (cases b) (auto simp: rd_return_Inr beat_enc_def)
qed (simp add: put_beat_def beat_enc_def u64.put_enc)

section \<open>Goals and entries\<close>

lemmas field_iff = goal_id_c.bind_iff note_c.bind_iff u8.bind_iff cadence_c.bind_iff envelope_c.bind_iff
  remaining_c.bind_iff grant_c.bind_iff capabilities_c.bind_iff status_c.bind_iff beat_c.bind_iff
  u32.bind_iff last_status_c.bind_iff run_c.bind_iff u64.bind_iff u16.bind_iff

lemmas field_enc = goal_id_c.bind_enc note_c.bind_enc u8.bind_enc cadence_c.bind_enc envelope_c.bind_enc
  remaining_c.bind_enc grant_c.bind_enc capabilities_c.bind_enc status_c.bind_enc beat_c.bind_enc
  u32.bind_enc last_status_c.bind_enc run_c.bind_enc u64.bind_enc u16.bind_enc

lemmas field_put = goal_id_c.put_enc note_c.put_enc u8.put_enc cadence_c.put_enc envelope_c.put_enc
  remaining_c.put_enc grant_c.put_enc capabilities_c.put_enc status_c.put_enc beat_c.put_enc
  u32.put_enc last_status_c.put_enc run_c.put_enc u64.put_enc u16.put_enc

interpretation goal_c: codec put_goal take_goal goal_enc goal_wire
proof unfold_locales
  fix r g r'
  show "take_goal r = Inr (g, r') \<longleftrightarrow> goal_wire g \<and> reads r (goal_enc g) \<and> r' = skip r (goal_enc g)"
  proof
    assume "take_goal r = Inr (g, r')"
    then show "goal_wire g \<and> reads r (goal_enc g) \<and> r' = skip r (goal_enc g)"
      unfolding take_goal_def field_iff
      by (elim exE conjE) (simp add: Let_def read_chain result_simps goal_enc_def goal_wire_def)
  next
    assume "goal_wire g \<and> reads r (goal_enc g) \<and> r' = skip r (goal_enc g)"
    then show "take_goal r = Inr (g, r')"
      unfolding goal_enc_def goal_wire_def reads_append skip_append
      by (elim conjE, cases g) (simp add: take_goal_def field_enc read_chain Let_def result_simps)
  qed
qed (simp add: put_goal_def goal_enc_def goal_wire_def field_put put_chain)

interpretation key_c: codec put_key take_key key_enc key_wire
proof unfold_locales
  fix r k r'
  show "take_key r = Inr (k, r') \<longleftrightarrow> key_wire k \<and> reads r (key_enc k) \<and> r' = skip r (key_enc k)"
  proof
    assume "take_key r = Inr (k, r')"
    then show "key_wire k \<and> reads r (key_enc k) \<and> r' = skip r (key_enc k)"
      unfolding take_key_def u8.bind_iff
      by (auto simp: field_iff read_chain key_enc_def key_wire_def split: if_splits)
  next
    assume "key_wire k \<and> reads r (key_enc k) \<and> r' = skip r (key_enc k)"
    then show "take_key r = Inr (k, r')"
      unfolding key_enc_def reads_append skip_append
      by (elim conjE, cases k; cases "case k of MK_Observation t _ \<Rightarrow> t | _ \<Rightarrow> ToolId 0";
          cases "case k of MK_Observation _ d \<Rightarrow> d | MK_Note d \<Rightarrow> d | _ \<Rightarrow> Digest 0")
        (auto simp: take_key_def field_enc read_chain key_wire_def)
  qed
qed (simp add: put_key_def key_enc_def key_wire_def field_put put_chain split: memory_key.splits)

interpretation provenance_c: codec put_provenance take_provenance provenance_enc provenance_wire
proof unfold_locales
  fix r p r'
  have opt: "(if i = 0 then rd_return None
      else rd_check (map_sum id Some (ok_or E_SnapshotCorrupt (goal_id_new i)))) r1 = Inr (g, r2) \<longleftrightarrow>
      r2 = r1 \<and> i = (case g of None \<Rightarrow> 0 | Some g \<Rightarrow> goal_id_get g) \<and>
      (case g of None \<Rightarrow> True | Some g \<Rightarrow> goal_id_wire g)" for i g r1 r2
    by (cases g) (auto simp: rd_return_Inr rd_check_Inr result_simps goal_id_wire_def)
  show "take_provenance r = Inr (p, r') \<longleftrightarrow>
      provenance_wire p \<and> reads r (provenance_enc p) \<and> r' = skip r (provenance_enc p)"
    unfolding take_provenance_def rd_bind_Inr opt u16.get_iff run_c.get_iff beat_c.get_iff
    by (cases p) (auto simp: read_chain provenance_enc_def provenance_wire_def)
qed (simp add: put_provenance_def provenance_enc_def field_put put_chain)

interpretation entry_c: codec put_entry take_entry entry_enc entry_wire
proof unfold_locales
  fix r e r'
  show "take_entry r = Inr (e, r') \<longleftrightarrow> entry_wire e \<and> reads r (entry_enc e) \<and> r' = skip r (entry_enc e)"
  proof
    assume "take_entry r = Inr (e, r')"
    then show "entry_wire e \<and> reads r (entry_enc e) \<and> r' = skip r (entry_enc e)"
      unfolding take_entry_def key_c.bind_iff note_c.bind_iff provenance_c.bind_iff u32.bind_iff
      by (auto simp: read_chain entry_enc_def entry_wire_def)
  next
    assume "entry_wire e \<and> reads r (entry_enc e) \<and> r' = skip r (entry_enc e)"
    then show "take_entry r = Inr (e, r')"
      unfolding entry_enc_def entry_wire_def reads_append skip_append
      by (elim conjE, cases e) (simp add: take_entry_def key_c.bind_enc note_c.bind_enc
          provenance_c.bind_enc u32.bind_enc read_chain)
  qed
qed (simp add: put_entry_def entry_enc_def entry_wire_def key_c.put_enc note_c.put_enc
    provenance_c.put_enc u32.put_enc put_chain)

end
