(* ===== verification/Checkpoint.thy ===== *)
theory Checkpoint
  imports Items
begin

text \<open>
  The supervisor checkpoint (\<open>esper-core/src/checkpoint.rs\<close>): the header, the items, the
  item-by-item restore, and the blob with its integrity field. A buffer of the source is a byte
  list that the writers return updated, together with the number of bytes written.
\<close>

section \<open>Sizes\<close>

definition checkpoint_version :: u8 where "checkpoint_version = 1"
definition checksum_len :: nat where "checksum_len = 8"
definition header_bytes :: nat where "header_bytes = 1 + 8 + 4 + 8 + 2 + 4 + 1 + 1 + 8"

definition max_goal_bytes :: nat where
  "max_goal_bytes = 2 + (1 + note_max) + 1 + 5 + 14 + 10 + 4 + 25 + 1 + 8 + 1 + 4 + 1 + 8 + 9"

definition max_entry_bytes :: nat where
  "max_entry_bytes = 10 + (1 + note_max) * 2 + 2 + 9 + 8 + 4"

definition max_item_bytes :: nat where
  "max_item_bytes = 1 + (if max_goal_bytes > max_entry_bytes then max_goal_bytes else max_entry_bytes)"

definition max_checkpoint_bytes :: nat where
  "max_checkpoint_bytes =
     header_bytes + max_goals * (1 + max_goal_bytes) + max_memory * (1 + max_entry_bytes) + checksum_len"

definition tag_goal :: u8 where "tag_goal = 0"
definition tag_entry :: u8 where "tag_entry = 1"

section \<open>The state and its items\<close>

record agent_checkpoint =
  cp_last_beat :: beat
  cp_spawn_seq :: u32
  cp_next_deadline :: u64
  cp_ledger :: goal_ledger
  cp_memory :: memory

definition checkpoint_new :: agent_checkpoint where
  "checkpoint_new =
     \<lparr>cp_last_beat = beat_ZERO, cp_spawn_seq = 0, cp_next_deadline = 0, cp_ledger = ledger_new,
      cp_memory = memory_new\<rparr>"

definition item_count :: "agent_checkpoint \<Rightarrow> nat" where
  "item_count c = length (ledger_goals (cp_ledger c)) + length (memory_entries (cp_memory c))"

definition put_item :: "agent_checkpoint \<Rightarrow> sink \<Rightarrow> nat \<Rightarrow> error + sink" where
  "put_item c s index =
     (case nth_of (ledger_goals (cp_ledger c)) index of
        Some g \<Rightarrow> and_then (sink_u8 s tag_goal) (\<lambda>s. put_goal s g)
      | None \<Rightarrow>
          and_then (ok_or E_SnapshotCorrupt
            (nth_of (memory_entries (cp_memory c)) (index - length (ledger_goals (cp_ledger c))))) (\<lambda>e.
          and_then (sink_u8 s tag_entry) (\<lambda>s. put_entry s e)))"

text \<open>The bytes a writer left in its buffer, and how many.\<close>

definition written :: "sink \<Rightarrow> bytes \<times> nat" where
  "written s = (sk_out s, sk_pos s)"

definition encode_item :: "agent_checkpoint \<Rightarrow> nat \<Rightarrow> bytes \<Rightarrow> error + (bytes \<times> nat)" where
  "encode_item c index out = map_sum id written (put_item c (sink_writing out) index)"

section \<open>The header\<close>

record header =
  hd_last_beat :: beat
  hd_spawn_seq :: u32
  hd_next_deadline :: u64
  hd_next_goal_id :: u16
  hd_next_stamp :: u32
  hd_goals :: u8
  hd_entries :: u8
  hd_digest :: u64

text \<open>One pass of the loop: the item buffer is reused, and only the bytes written to it count.\<close>

definition digest_item :: "agent_checkpoint \<Rightarrow> u64 \<times> bytes \<Rightarrow> nat \<Rightarrow> u64 \<times> bytes" where
  "digest_item c acc index =
     (case acc of (digest, item) \<Rightarrow>
        (case encode_item c index item of
           Inl e \<Rightarrow> (digest, item)
         | Inr (item', len) \<Rightarrow>
             (fnv_update digest (case slice item' 0 len of Some bs \<Rightarrow> bs | None \<Rightarrow> []), item')))"

definition checkpoint_header :: "agent_checkpoint \<Rightarrow> header" where
  "checkpoint_header c =
     \<lparr>hd_last_beat = cp_last_beat c, hd_spawn_seq = cp_spawn_seq c,
      hd_next_deadline = cp_next_deadline c, hd_next_goal_id = gl_next_id (cp_ledger c),
      hd_next_stamp = mem_next_stamp (cp_memory c),
      hd_goals = (case try_from (length (ledger_goals (cp_ledger c))) of Some n \<Rightarrow> n | None \<Rightarrow> - 1),
      hd_entries = (case try_from (length (memory_entries (cp_memory c))) of Some n \<Rightarrow> n | None \<Rightarrow> - 1),
      hd_digest =
        fst (foldl (digest_item c) (fnv_offset, replicate max_item_bytes 0) [0..<item_count c])\<rparr>"

definition header_items :: "header \<Rightarrow> nat" where
  "header_items h = unat (hd_goals h) + unat (hd_entries h)"

definition header_fields :: "sink \<Rightarrow> header \<Rightarrow> error + sink" where
  "header_fields s h = sink_all s
     [\<lambda>s. sink_u64 s (beat_get (hd_last_beat h)), \<lambda>s. sink_u32 s (hd_spawn_seq h),
      \<lambda>s. sink_u64 s (hd_next_deadline h), \<lambda>s. sink_u16 s (hd_next_goal_id h),
      \<lambda>s. sink_u32 s (hd_next_stamp h), \<lambda>s. sink_u8 s (hd_goals h), \<lambda>s. sink_u8 s (hd_entries h),
      \<lambda>s. sink_u64 s (hd_digest h)]"

definition header_put :: "sink \<Rightarrow> header \<Rightarrow> error + sink" where
  "header_put s h = and_then (sink_u8 s checkpoint_version) (\<lambda>s. header_fields s h)"

definition header_encode :: "header \<Rightarrow> bytes \<Rightarrow> error + (bytes \<times> nat)" where
  "header_encode h out = map_sum id written (header_put (sink_writing out) h)"

definition header_take :: "reader \<Rightarrow> error + (header \<times> reader)" where
  "header_take =
     rd_bind rd_u64 (\<lambda>last_beat. rd_bind rd_u32 (\<lambda>spawn_seq. rd_bind rd_u64 (\<lambda>next_deadline.
     rd_bind rd_u16 (\<lambda>next_goal_id. rd_bind rd_u32 (\<lambda>next_stamp. rd_bind rd_u8 (\<lambda>goals.
     rd_bind rd_u8 (\<lambda>entries. rd_bind rd_u64 (\<lambda>digest.
       let h = \<lparr>hd_last_beat = Beat last_beat, hd_spawn_seq = spawn_seq,
                hd_next_deadline = next_deadline, hd_next_goal_id = next_goal_id,
                hd_next_stamp = next_stamp, hd_goals = goals, hd_entries = entries,
                hd_digest = digest\<rparr>
       in rd_check (map_sum id (\<lambda>_. h)
            (corrupt_unless (\<not> (max_goals < unat goals \<or> max_memory < unat entries))))))))))))"

definition header_decode :: "bytes \<Rightarrow> error + header" where
  "header_decode bs =
     and_then (ok_or E_SnapshotTruncated (nth_of bs 0)) (\<lambda>version.
       if version \<noteq> checkpoint_version then Inl (E_SnapshotVersionMismatch version)
       else and_then (header_take \<lparr>rd_bytes = bs, rd_pos = 1, rd_end = length bs\<rparr>) (\<lambda>(h, r).
         if rd_pos r \<noteq> rd_end r then Inl E_SnapshotCorrupt else Inr h))"

section \<open>The restore\<close>

record restore =
  rs_header :: header
  rs_digest :: u64
  rs_received :: nat

definition restore_begin :: "header \<Rightarrow> restore \<times> agent_checkpoint" where
  "restore_begin h =
     (\<lparr>rs_header = h, rs_digest = fnv_offset, rs_received = 0\<rparr>,
      \<lparr>cp_last_beat = hd_last_beat h, cp_spawn_seq = hd_spawn_seq h,
       cp_next_deadline = hd_next_deadline h, cp_ledger = ledger_restoring (hd_next_goal_id h),
       cp_memory = memory_restoring (hd_next_stamp h)\<rparr>)"

definition restore_remaining :: "restore \<Rightarrow> nat" where
  "restore_remaining rs = header_items (rs_header rs) - rs_received rs"

text \<open>\<open>take_into\<close>: the progress and the target are unchanged when it fails.\<close>

definition take_into ::
  "restore \<times> agent_checkpoint \<Rightarrow> reader \<Rightarrow> error + ((restore \<times> agent_checkpoint) \<times> reader)" where
  "take_into st r =
     (case st of (rs, target) \<Rightarrow>
      if restore_remaining rs = 0 then Inl E_SnapshotCorrupt
      else
        let start = rd_pos r;
            want_goal = rs_received rs < unat (hd_goals (rs_header rs))
        in and_then (rd_u8 r) (\<lambda>(tag, r).
           and_then
             (if tag = tag_goal \<and> want_goal
              then and_then (take_goal r) (\<lambda>(g, r).
                   and_then (restore_goal (cp_ledger target) g) (\<lambda>l. Inr (target\<lparr>cp_ledger := l\<rparr>, r)))
              else if tag = tag_entry \<and> \<not> want_goal
              then and_then (take_entry r) (\<lambda>(e, r).
                   and_then (restore_entry (cp_memory target) e) (\<lambda>m. Inr (target\<lparr>cp_memory := m\<rparr>, r)))
              else Inl E_SnapshotCorrupt) (\<lambda>(target, r).
           and_then (ok_or E_SnapshotTruncated (slice (rd_bytes r) start (rd_pos r))) (\<lambda>bs.
             Inr ((rs\<lparr>rs_digest := fnv_update (rs_digest rs) bs, rs_received := rs_received rs + 1\<rparr>,
                   target), r)))))"

definition restore_push ::
  "restore \<times> agent_checkpoint \<Rightarrow> bytes \<Rightarrow> (restore \<times> agent_checkpoint) \<times> (error + unit)" where
  "restore_push st item =
     (case take_into st (reader_of item) of
        Inl e \<Rightarrow> (st, Inl e)
      | Inr (st', r) \<Rightarrow> (st', if rd_pos r \<noteq> rd_end r then Inl E_SnapshotCorrupt else Inr ()))"

definition restore_finish :: "restore \<Rightarrow> error + unit" where
  "restore_finish rs =
     (if restore_remaining rs \<noteq> 0 then Inl E_SnapshotTruncated
      else if rs_digest rs \<noteq> hd_digest (rs_header rs) then Inl E_SnapshotChecksumMismatch
      else Inr ())"

section \<open>One entry\<close>

definition encode_entry :: "memory_entry \<Rightarrow> bytes \<Rightarrow> error + (bytes \<times> nat)" where
  "encode_entry e out = map_sum id written (put_entry (sink_writing out) e)"

definition decode_entry :: "bytes \<Rightarrow> error + memory_entry" where
  "decode_entry bs =
     and_then (take_entry (reader_of bs)) (\<lambda>(e, r).
       if rd_pos r \<noteq> rd_end r then Inl E_SnapshotCorrupt else Inr e)"

section \<open>The blob\<close>

fun put_items :: "agent_checkpoint \<Rightarrow> nat list \<Rightarrow> sink \<Rightarrow> error + sink" where
  "put_items c [] s = Inr s"
| "put_items c (i # is) s = and_then (put_item c s i) (put_items c is)"

definition put_blob :: "agent_checkpoint \<Rightarrow> sink \<Rightarrow> error + sink" where
  "put_blob c s = and_then (header_put s (checkpoint_header c)) (put_items c [0..<item_count c])"

text \<open>Counting ignores the result of the writes; only a note longer than 64 bytes could fail.\<close>

definition encoded_len :: "agent_checkpoint \<Rightarrow> nat" where
  "encoded_len c =
     (case put_blob c sink_counting of Inr s \<Rightarrow> sk_pos s | Inl _ \<Rightarrow> 0) + checksum_len"

definition checkpoint_encode :: "agent_checkpoint \<Rightarrow> bytes \<Rightarrow> error + (bytes \<times> nat)" where
  "checkpoint_encode c out =
     and_then (put_blob c (sink_writing out)) (\<lambda>s.
     and_then (ok_or E_SnapshotBufferTooSmall (slice (sk_out s) 0 (sk_pos s))) (\<lambda>payload.
     and_then (sink_u64 s (fnv1a64 payload)) (\<lambda>s. Inr (written s))))"

definition checkpoint_verify :: "bytes \<Rightarrow> error + unit" where
  "checkpoint_verify bs =
     (if length bs < 1 + checksum_len then Inl E_SnapshotTruncated
      else and_then (ok_or E_SnapshotTruncated (nth_of bs 0)) (\<lambda>version.
        if version \<noteq> checkpoint_version then Inl (E_SnapshotVersionMismatch version)
        else
          let stop = length bs - checksum_len in
          and_then (ok_or E_SnapshotTruncated (slice bs stop (length bs))) (\<lambda>stored.
          and_then (ok_or E_SnapshotTruncated (slice bs 0 stop)) (\<lambda>payload.
            if (from_le_bytes stored :: u64) \<noteq> fnv1a64 payload then Inl E_SnapshotChecksumMismatch
            else Inr ()))))"

lemma take_into_remaining:
  "take_into (rs, target) r = Inr ((rs', target'), r') \<Longrightarrow> restore_remaining rs' < restore_remaining rs"
  by (auto simp: take_into_def Let_def result_simps restore_remaining_def split: if_splits)

text \<open>The loop of \<open>decode\<close>: it ends because every pass receives one of the items still owed.\<close>

function restore_all ::
  "restore \<times> agent_checkpoint \<Rightarrow> reader \<Rightarrow> error + ((restore \<times> agent_checkpoint) \<times> reader)" where
  "restore_all st r =
     (if restore_remaining (fst st) = 0 then Inr (st, r)
      else and_then (take_into st r) (\<lambda>(st', r'). restore_all st' r'))"
  by pat_completeness auto

termination
  by (relation "measure (\<lambda>(st, r). restore_remaining (fst st))") (auto dest: take_into_remaining)

declare restore_all.simps [simp del]

definition checkpoint_decode :: "bytes \<Rightarrow> error + agent_checkpoint" where
  "checkpoint_decode bs =
     and_then (checkpoint_verify bs) (\<lambda>_.
     and_then (header_take \<lparr>rd_bytes = bs, rd_pos = 1, rd_end = length bs - checksum_len\<rparr>) (\<lambda>(h, r).
     and_then (restore_all (restore_begin h) r) (\<lambda>((rs, state), r).
       if rd_pos r \<noteq> rd_end r then Inl E_SnapshotCorrupt
       else and_then (map_err (\<lambda>_. E_SnapshotCorrupt) (restore_finish rs)) (\<lambda>_. Inr state))))"

section \<open>The layout of the items and of the header\<close>

definition header_wire :: "header \<Rightarrow> bool" where
  "header_wire h \<longleftrightarrow> unat (hd_goals h) \<le> max_goals \<and> unat (hd_entries h) \<le> max_memory"

definition header_enc :: "header \<Rightarrow> bytes" where
  "header_enc h =
     to_le_bytes (beat_get (hd_last_beat h)) @ to_le_bytes (hd_spawn_seq h) @
     to_le_bytes (hd_next_deadline h) @ to_le_bytes (hd_next_goal_id h) @
     to_le_bytes (hd_next_stamp h) @ u8_enc (hd_goals h) @ u8_enc (hd_entries h) @
     to_le_bytes (hd_digest h)"

interpretation header_c: codec header_fields header_take header_enc header_wire
proof unfold_locales
  fix r h r'
  show "header_take r = Inr (h, r') \<longleftrightarrow> header_wire h \<and> reads r (header_enc h) \<and> r' = skip r (header_enc h)"
  proof
    assume "header_take r = Inr (h, r')"
    then show "header_wire h \<and> reads r (header_enc h) \<and> r' = skip r (header_enc h)"
      unfolding header_take_def field_iff
      by (auto simp: Let_def read_chain result_simps header_enc_def header_wire_def)
  next
    assume "header_wire h \<and> reads r (header_enc h) \<and> r' = skip r (header_enc h)"
    then show "header_take r = Inr (h, r')"
      unfolding header_enc_def header_wire_def reads_append skip_append
      by (elim conjE, cases h; cases "hd_last_beat h")
        (simp add: header_take_def field_enc read_chain Let_def result_simps)
  qed
qed (simp add: header_fields_def header_enc_def field_put put_chain)

definition goal_item :: "goal \<Rightarrow> bytes" where
  "goal_item g = u8_enc tag_goal @ goal_enc g"

definition entry_item :: "memory_entry \<Rightarrow> bytes" where
  "entry_item e = u8_enc tag_entry @ entry_enc e"

definition item_list :: "agent_checkpoint \<Rightarrow> bytes list" where
  "item_list c = map goal_item (ledger_goals (cp_ledger c)) @ map entry_item (memory_entries (cp_memory c))"

definition items_wire :: "agent_checkpoint \<Rightarrow> bool" where
  "items_wire c \<longleftrightarrow> (\<forall>g \<in> set (ledger_goals (cp_ledger c)). goal_wire g) \<and>
     (\<forall>e \<in> set (memory_entries (cp_memory c)). entry_wire e)"

lemma length_item_list: "length (item_list c) = item_count c"
  by (simp add: item_list_def item_count_def)

lemma length_note_enc: "note_ok n \<Longrightarrow> length (note_enc n) \<le> 1 + note_max"
  using note_as_bytes_length [of n] by (simp add: note_enc_def)

lemma length_small_encs [simp]:
  "length (u8_enc b) = 1" "length (flag_enc f) = 1" "length (run_enc r) = 9" "length (goal_id_enc i) = 2"
  "length (cadence_enc c) = 5" "length (envelope_enc v) = 14" "length (remaining_enc m) = 10"
  "length (grant_enc a) = 4" "length (status_enc s) = 1" "length (last_status_enc t) = 1"
  "length (beat_enc e) = 8" "length (provenance_enc p) = 19"
  by (simp_all add: u8_enc_def flag_enc_def run_enc_def goal_id_enc_def cadence_enc_def envelope_enc_def
      remaining_enc_def grant_enc_def status_enc_def last_status_enc_def beat_enc_def
      provenance_enc_def split: option.split cadence.split)

lemma length_key_enc: "length (key_enc k) \<le> 10"
  by (simp add: key_enc_def split: memory_key.split)

lemma length_capabilities_enc: "capabilities_wire c \<Longrightarrow> length (capabilities_enc c) = 25"
  by (simp add: capabilities_wire_def capabilities_enc_def)

lemma length_goal_enc: "goal_wire g \<Longrightarrow> length (goal_enc g) \<le> max_goal_bytes"
  using length_note_enc [of "g_objective g"] length_capabilities_enc [of "g_capabilities g"]
  by (simp add: goal_wire_def goal_enc_def max_goal_bytes_def)

lemma length_entry_enc: "entry_wire e \<Longrightarrow> length (entry_enc e) \<le> max_entry_bytes"
  using length_note_enc [of "me_label e"] length_note_enc [of "me_value e"]
    length_key_enc [of "me_key e"]
  by (simp add: entry_wire_def entry_enc_def max_entry_bytes_def)

lemma items_length:
  "items_wire c \<Longrightarrow> bs \<in> set (item_list c) \<Longrightarrow> length bs \<le> max_item_bytes"
  using length_goal_enc length_entry_enc
  by (fastforce simp: items_wire_def item_list_def goal_item_def entry_item_def max_item_bytes_def)

lemma put_item_enc:
  assumes "items_wire c" and "i < item_count c"
  shows "put_item c s i = put_bytes s (item_list c ! i)"
proof (cases "i < length (ledger_goals (cp_ledger c))")
  case True
  then show ?thesis using assms
    by (simp add: put_item_def nth_of_def item_list_def nth_append items_wire_def goal_c.put_enc u8.put_enc
        put_chain goal_item_def)
next
  case False
  then have "i - length (ledger_goals (cp_ledger c)) < length (memory_entries (cp_memory c))"
    using assms by (simp add: item_count_def)
  then show ?thesis using assms False
    by (simp add: put_item_def nth_of_def item_list_def nth_append items_wire_def entry_c.put_enc u8.put_enc
        put_chain entry_item_def)
qed

lemma encode_item_enc:
  assumes "items_wire c" and "i < item_count c"
  shows "encode_item c i out =
    (if length (item_list c ! i) \<le> length out
     then Inr (item_list c ! i @ drop (length (item_list c ! i)) out, length (item_list c ! i))
     else Inl E_SnapshotBufferTooSmall)"
  by (simp add: encode_item_def put_item_enc [OF assms] put_result written_def)

lemma digest_items:
  assumes wire: "items_wire c" and "\<forall>i \<in> set is. i < item_count c" and "length buf = max_item_bytes"
  shows "fst (foldl (digest_item c) (d, buf) is) = fnv_update d (concat (map ((!) (item_list c)) is))"
  using assms(2,3)
proof (induction "is" arbitrary: d buf)
  case (Cons i "is")
  then have i: "i < item_count c" by simp
  then have "length (item_list c ! i) \<le> length buf"
    using items_length [OF wire nth_mem] Cons.prems(2) by (simp add: length_item_list)
  then have "digest_item c (d, buf) i =
      (fnv_update d (item_list c ! i), item_list c ! i @ drop (length (item_list c ! i)) buf)"
    by (simp add: digest_item_def encode_item_enc [OF wire i] slice_def)
  with Cons show ?case using \<open>length (item_list c ! i) \<le> length buf\<close> by simp
qed simp

lemma header_digest:
  assumes "items_wire c"
  shows "hd_digest (checkpoint_header c) = fnv_update fnv_offset (concat (item_list c))"
  using digest_items [OF assms, of "[0..<item_count c]"]
  by (simp add: checkpoint_header_def map_nth length_item_list [symmetric])

lemma put_items_enc:
  assumes "items_wire c" and "\<forall>i \<in> set is. i < item_count c"
  shows "and_then (put_bytes s bs) (put_items c is) = put_bytes s (bs @ concat (map ((!) (item_list c)) is))"
  using assms(2)
proof (induction "is" arbitrary: bs)
  case Nil
  have "put_items c [] = Inr" by (rule ext) simp
  then show ?case by simp
next
  case (Cons i "is")
  have "put_items c (i # is) = (\<lambda>s. and_then (put_bytes s (item_list c ! i)) (put_items c is))"
    using Cons.prems by (intro ext) (simp add: put_item_enc [OF assms(1)])
  then show ?case using Cons by (simp add: put_put_then)
qed

definition payload :: "agent_checkpoint \<Rightarrow> bytes" where
  "payload c = checkpoint_version # header_enc (checkpoint_header c) @ concat (item_list c)"

definition blob :: "agent_checkpoint \<Rightarrow> bytes" where
  "blob c = payload c @ to_le_bytes (fnv1a64 (payload c))"

section \<open>Encoding the blob\<close>

lemma put_blob_payload:
  assumes "items_wire c"
  shows "put_blob c s = put_bytes s (payload c)"
proof -
  have "header_put s h = put_bytes s (checkpoint_version # header_enc h)" for h
    by (simp add: header_put_def header_fields_def header_enc_def field_put put_chain) (simp add: u8_enc_def)
  then show ?thesis
    using put_items_enc [OF assms, of "[0..<item_count c]"]
    by (simp add: put_blob_def payload_def length_item_list [symmetric] map_nth)
qed

lemma encoded_len_blob: "items_wire c \<Longrightarrow> encoded_len c = length (blob c)"
  by (simp add: encoded_len_def put_blob_payload put_count checksum_len_def blob_def)

lemma checkpoint_encode_blob:
  assumes "items_wire c"
  shows "checkpoint_encode c out =
    (if length (blob c) \<le> length out
     then Inr (blob c @ drop (length (blob c)) out, length (blob c))
     else Inl E_SnapshotBufferTooSmall)"
proof (cases "length (payload c) \<le> length out")
  case True
  let ?s = "\<lparr>sk_out = payload c @ drop (length (payload c)) out, sk_pos = length (payload c), sk_counting = False\<rparr>"
  have "put_blob c (sink_writing out) = Inr ?s"
    using True by (simp add: put_blob_payload [OF assms] put_result)
  moreover have "sink_u64 ?s w =
      (if length (payload c) + 8 \<le> length out
       then Inr \<lparr>sk_out = payload c @ to_le_bytes w @ drop (length (payload c) + 8) out,
                 sk_pos = length (payload c) + 8, sk_counting = False\<rparr>
       else Inl E_SnapshotBufferTooSmall)" for w
    using True by (simp add: sink_u64_def put_bytes_def splice_def add.commute [of 8])
  ultimately show ?thesis
    by (simp add: checkpoint_encode_def slice_def written_def blob_def)
next
  case False
  then show ?thesis
    by (simp add: checkpoint_encode_def put_blob_payload [OF assms] put_result blob_def)
qed

section \<open>Verification\<close>

lemma checkpoint_verify_iff:
  "checkpoint_verify bs = Inr () \<longleftrightarrow>
     (\<exists>p. bs = (checkpoint_version # p) @ to_le_bytes (fnv1a64 (checkpoint_version # p)))"
proof
  assume ok: "checkpoint_verify bs = Inr ()"
  let ?n = "length bs - 8"
  have long: "9 \<le> length bs" and hd: "bs ! 0 = checkpoint_version"
    and sum: "(from_le_bytes (drop ?n bs) :: u64) = fnv1a64 (take ?n bs)"
    using ok by (auto simp: checkpoint_verify_def checksum_len_def Let_def result_simps nth_of_def slice_def
        split: if_splits)
  from long have "take ?n bs \<noteq> []" by (auto simp: take_eq_Nil)
  moreover have "take ?n bs ! 0 = checkpoint_version" using long hd by simp
  ultimately obtain p where p: "take ?n bs = checkpoint_version # p"
    by (cases "take ?n bs") auto
  have "drop ?n bs = to_le_bytes (fnv1a64 (take ?n bs))"
    using long sum [symmetric] to_from_le_bytes [where 'a = 64, of "drop ?n bs"] by simp
  then show "\<exists>p. bs = (checkpoint_version # p) @ to_le_bytes (fnv1a64 (checkpoint_version # p))"
    using append_take_drop_id [of ?n bs] p by metis
next
  assume "\<exists>p. bs = (checkpoint_version # p) @ to_le_bytes (fnv1a64 (checkpoint_version # p))"
  then show "checkpoint_verify bs = Inr ()"
    by (auto simp: checkpoint_verify_def checksum_len_def Let_def nth_of_def slice_def)
qed

section \<open>Restoring items\<close>

definition got :: "restore \<Rightarrow> bytes \<Rightarrow> nat \<Rightarrow> restore" where
  "got rs bs n = rs\<lparr>rs_digest := fnv_update (rs_digest rs) bs, rs_received := rs_received rs + n\<rparr>"

lemma got_simps [simp]:
  "rs_header (got rs bs n) = rs_header rs" "rs_received (got rs bs n) = rs_received rs + n"
  "rs_digest (got rs bs n) = fnv_update (rs_digest rs) bs"
  "got (got rs as m) bs n = got rs (as @ bs) (m + n)"
  by (simp_all add: got_def)

lemma got_nothing [simp]: "got rs [] 0 = rs"
  by (simp add: got_def)

lemma skip_bytes [simp]: "rd_bytes (skip r bs) = rd_bytes r"
  by (simp add: skip_def)

lemma reads_slice: "reads r bs \<Longrightarrow> slice (rd_bytes r) (rd_pos r) (rd_pos (skip r bs)) = Some bs"
  by (simp add: reads_def skip_def)

lemma take_into_goal:
  assumes "rs_received rs < unat (hd_goals (rs_header rs))"
  shows "take_into (rs, t) r = Inr (st, r') \<longleftrightarrow>
    (\<exists>g l. goal_wire g \<and> reads r (goal_item g) \<and> r' = skip r (goal_item g) \<and>
       restore_goal (cp_ledger t) g = Inr l \<and> st = (got rs (goal_item g) 1, t\<lparr>cp_ledger := l\<rparr>))"
proof -
  have due: "restore_remaining rs \<noteq> 0" using assms by (simp add: restore_remaining_def header_items_def)
  show ?thesis
  proof
    assume "take_into (rs, t) r = Inr (st, r')"
    then obtain g l where "goal_wire g" and rd: "reads r (goal_item g)" and "r' = skip r (goal_item g)"
      and "restore_goal (cp_ledger t) g = Inr l"
      and st: "\<exists>bs. slice (rd_bytes r) (rd_pos r) (rd_pos r') = Some bs \<and>
        st = (got rs bs 1, t\<lparr>cp_ledger := l\<rparr>)"
      using assms due
      by (auto simp: take_into_def Let_def result_simps u8.get_iff goal_c.get_iff goal_item_def
          reads_append skip_append got_def split: if_splits)
    then show "\<exists>g l. goal_wire g \<and> reads r (goal_item g) \<and> r' = skip r (goal_item g) \<and>
        restore_goal (cp_ledger t) g = Inr l \<and> st = (got rs (goal_item g) 1, t\<lparr>cp_ledger := l\<rparr>)"
      using reads_slice [OF rd] by auto
  next
    assume "\<exists>g l. goal_wire g \<and> reads r (goal_item g) \<and> r' = skip r (goal_item g) \<and>
        restore_goal (cp_ledger t) g = Inr l \<and> st = (got rs (goal_item g) 1, t\<lparr>cp_ledger := l\<rparr>)"
    then obtain g l where g: "goal_wire g" "reads r (u8_enc tag_goal)" "reads (skip r (u8_enc tag_goal)) (goal_enc g)"
      "restore_goal (cp_ledger t) g = Inr l"
      and r': "r' = skip r (goal_item g)" and st: "st = (got rs (goal_item g) 1, t\<lparr>cp_ledger := l\<rparr>)"
      and rd: "reads r (goal_item g)"
      by (auto simp: goal_item_def reads_append)
    have "rd_u8 r = Inr (tag_goal, skip r (u8_enc tag_goal))" using g(2) by (simp add: u8.get_enc)
    moreover have "take_goal (skip r (u8_enc tag_goal)) = Inr (g, r')"
      using g(1,3) r' by (simp add: goal_c.get_enc goal_item_def skip_append)
    ultimately show "take_into (rs, t) r = Inr (st, r')"
      using assms due g(4) st reads_slice [OF rd] r' by (simp add: take_into_def Let_def got_def)
  qed
qed

lemma take_into_entry:
  assumes "unat (hd_goals (rs_header rs)) \<le> rs_received rs" and due: "restore_remaining rs \<noteq> 0"
  shows "take_into (rs, t) r = Inr (st, r') \<longleftrightarrow>
    (\<exists>e m. entry_wire e \<and> reads r (entry_item e) \<and> r' = skip r (entry_item e) \<and>
       restore_entry (cp_memory t) e = Inr m \<and> st = (got rs (entry_item e) 1, t\<lparr>cp_memory := m\<rparr>))"
proof
  assume "take_into (rs, t) r = Inr (st, r')"
  then obtain e m where "entry_wire e" and rd: "reads r (entry_item e)" and "r' = skip r (entry_item e)"
    and "restore_entry (cp_memory t) e = Inr m"
    and st: "\<exists>bs. slice (rd_bytes r) (rd_pos r) (rd_pos r') = Some bs \<and>
      st = (got rs bs 1, t\<lparr>cp_memory := m\<rparr>)"
    using assms
    by (auto simp: take_into_def Let_def result_simps u8.get_iff entry_c.get_iff entry_item_def
        reads_append skip_append got_def split: if_splits)
  then show "\<exists>e m. entry_wire e \<and> reads r (entry_item e) \<and> r' = skip r (entry_item e) \<and>
      restore_entry (cp_memory t) e = Inr m \<and> st = (got rs (entry_item e) 1, t\<lparr>cp_memory := m\<rparr>)"
    using reads_slice [OF rd] by auto
next
  assume "\<exists>e m. entry_wire e \<and> reads r (entry_item e) \<and> r' = skip r (entry_item e) \<and>
      restore_entry (cp_memory t) e = Inr m \<and> st = (got rs (entry_item e) 1, t\<lparr>cp_memory := m\<rparr>)"
  then obtain e m where e: "entry_wire e" "reads r (u8_enc tag_entry)" "reads (skip r (u8_enc tag_entry)) (entry_enc e)"
    "restore_entry (cp_memory t) e = Inr m"
    and r': "r' = skip r (entry_item e)" and st: "st = (got rs (entry_item e) 1, t\<lparr>cp_memory := m\<rparr>)"
    and rd: "reads r (entry_item e)"
    by (auto simp: entry_item_def reads_append)
  have "rd_u8 r = Inr (tag_entry, skip r (u8_enc tag_entry))" using e(2) by (simp add: u8.get_enc)
  moreover have "take_entry (skip r (u8_enc tag_entry)) = Inr (e, r')"
    using e(1,3) r' by (simp add: entry_c.get_enc entry_item_def skip_append)
  moreover have "\<not> (tag_entry = tag_goal)" by (simp add: tag_entry_def tag_goal_def)
  ultimately show "take_into (rs, t) r = Inr (st, r')"
    using assms e(4) st reads_slice [OF rd] r' by (simp add: take_into_def Let_def got_def)
qed

lemma remaining_got: "restore_remaining (got rs bs n) = restore_remaining rs - n"
  by (simp add: restore_remaining_def)

definition entries_follow ::
  "restore \<times> agent_checkpoint \<Rightarrow> reader \<Rightarrow> memory_entry list \<Rightarrow> restore \<times> agent_checkpoint \<Rightarrow> reader \<Rightarrow> bool" where
  "entries_follow st r es st' r' \<longleftrightarrow>
     (\<forall>e \<in> set es. entry_wire e) \<and> reads r (concat (map entry_item es)) \<and>
     r' = skip r (concat (map entry_item es)) \<and>
     (\<exists>m. restore_entries (cp_memory (snd st)) es = Inr m \<and>
        st' = (got (fst st) (concat (map entry_item es)) (length es), snd st\<lparr>cp_memory := m\<rparr>))"

lemma skip_Nil [simp]: "skip r [] = r"
  by (simp add: skip_def)

lemma entries_follow_Nil: "entries_follow st r [] st' r' \<longleftrightarrow> reads r [] \<and> st' = st \<and> r' = r"
  by (cases st) (auto simp: entries_follow_def)

lemma entries_follow_Cons:
  "entries_follow (rs, t) r (e # es) st' r' \<longleftrightarrow>
     (\<exists>m. entry_wire e \<and> reads r (entry_item e) \<and> restore_entry (cp_memory t) e = Inr m \<and>
        entries_follow (got rs (entry_item e) 1, t\<lparr>cp_memory := m\<rparr>) (skip r (entry_item e)) es st' r')"
  by (auto simp: entries_follow_def reads_append skip_append result_simps)

lemma restore_all_step:
  assumes "restore_remaining rs \<noteq> 0"
  shows "restore_all (rs, t) r = Inr z \<longleftrightarrow> (\<exists>st1 r1. take_into (rs, t) r = Inr (st1, r1) \<and> restore_all st1 r1 = Inr z)"
  using assms by (subst restore_all.simps) (auto simp: result_simps)

lemma restore_all_entries:
  assumes "unat (hd_goals (rs_header rs)) \<le> rs_received rs" and "reads r []"
  shows "restore_all (rs, t) r = Inr (st', r') \<longleftrightarrow>
    (\<exists>es. length es = restore_remaining rs \<and> entries_follow (rs, t) r es st' r')"
  using assms
proof (induction "restore_remaining rs" arbitrary: rs t r)
  case 0
  then show ?case by (auto simp: restore_all.simps [of "(rs, t)"] entries_follow_Nil)
next
  case (Suc n)
  then have due: "restore_remaining rs \<noteq> 0" by simp
  have IH: "restore_all (got rs (entry_item e) 1, t\<lparr>cp_memory := m\<rparr>) (skip r (entry_item e)) = Inr (st', r') \<longleftrightarrow>
      (\<exists>es. length es = n \<and>
        entries_follow (got rs (entry_item e) 1, t\<lparr>cp_memory := m\<rparr>) (skip r (entry_item e)) es st' r')"
    if "reads r (entry_item e)" for e m
  proof -
    have "n = restore_remaining (got rs (entry_item e) 1)"
      using Suc.hyps(2) by (simp add: remaining_got)
    from Suc.hyps(1) [OF this _ reads_Nil_skip [OF that], of "t\<lparr>cp_memory := m\<rparr>"] Suc.prems(1) this
    show ?thesis by simp
  qed
  have "restore_all (rs, t) r = Inr (st', r') \<longleftrightarrow>
      (\<exists>e m. entry_wire e \<and> reads r (entry_item e) \<and> restore_entry (cp_memory t) e = Inr m \<and>
        restore_all (got rs (entry_item e) 1, t\<lparr>cp_memory := m\<rparr>) (skip r (entry_item e)) = Inr (st', r'))"
    unfolding restore_all_step [OF due] take_into_entry [OF Suc.prems(1) due] by blast
  also have "\<dots> \<longleftrightarrow> (\<exists>e es. length es = n \<and> entries_follow (rs, t) r (e # es) st' r')"
    unfolding entries_follow_Cons using IH by blast
  also have "\<dots> \<longleftrightarrow> (\<exists>es. length es = restore_remaining rs \<and> entries_follow (rs, t) r es st' r')"
    unfolding Suc.hyps(2) [symmetric] by (auto simp: length_Suc_conv)
  finally show ?case .
qed

definition goals_follow ::
  "restore \<times> agent_checkpoint \<Rightarrow> reader \<Rightarrow> goal list \<Rightarrow> restore \<times> agent_checkpoint \<Rightarrow> reader \<Rightarrow> bool" where
  "goals_follow st r gs st' r' \<longleftrightarrow>
     (\<forall>g \<in> set gs. goal_wire g) \<and> reads r (concat (map goal_item gs)) \<and>
     r' = skip r (concat (map goal_item gs)) \<and>
     (\<exists>l. restore_goals (cp_ledger (snd st)) gs = Inr l \<and>
        st' = (got (fst st) (concat (map goal_item gs)) (length gs), snd st\<lparr>cp_ledger := l\<rparr>))"

lemma goals_follow_Nil: "goals_follow st r [] st' r' \<longleftrightarrow> reads r [] \<and> st' = st \<and> r' = r"
  by (cases st) (auto simp: goals_follow_def)

lemma goals_follow_Cons:
  "goals_follow (rs, t) r (g # gs) st' r' \<longleftrightarrow>
     (\<exists>l. goal_wire g \<and> reads r (goal_item g) \<and> restore_goal (cp_ledger t) g = Inr l \<and>
        goals_follow (got rs (goal_item g) 1, t\<lparr>cp_ledger := l\<rparr>) (skip r (goal_item g)) gs st' r')"
  by (auto simp: goals_follow_def reads_append skip_append result_simps)

lemma restore_all_goals:
  assumes "rs_received rs \<le> unat (hd_goals (rs_header rs))" and "reads r []"
  shows "restore_all (rs, t) r = Inr (st', r') \<longleftrightarrow>
    (\<exists>gs st1 r1. length gs = unat (hd_goals (rs_header rs)) - rs_received rs \<and>
       goals_follow (rs, t) r gs st1 r1 \<and> restore_all st1 r1 = Inr (st', r'))"
  using assms
proof (induction "unat (hd_goals (rs_header rs)) - rs_received rs" arbitrary: rs t r)
  case 0
  then show ?case by (auto simp: goals_follow_Nil)
next
  case (Suc n)
  then have want: "rs_received rs < unat (hd_goals (rs_header rs))" by simp
  then have due: "restore_remaining rs \<noteq> 0" by (simp add: restore_remaining_def header_items_def)
  have IH: "restore_all (got rs (goal_item g) 1, t\<lparr>cp_ledger := l\<rparr>) (skip r (goal_item g)) = Inr (st', r') \<longleftrightarrow>
      (\<exists>gs st1 r1. length gs = n \<and>
        goals_follow (got rs (goal_item g) 1, t\<lparr>cp_ledger := l\<rparr>) (skip r (goal_item g)) gs st1 r1 \<and>
        restore_all st1 r1 = Inr (st', r'))"
    if "reads r (goal_item g)" for g l
  proof -
    have "n = unat (hd_goals (rs_header (got rs (goal_item g) 1))) - rs_received (got rs (goal_item g) 1)"
      using Suc.hyps(2) by simp
    from Suc.hyps(1) [OF this _ reads_Nil_skip [OF that], of "t\<lparr>cp_ledger := l\<rparr>"] want this
    show ?thesis by simp
  qed
  have "restore_all (rs, t) r = Inr (st', r') \<longleftrightarrow>
      (\<exists>g l. goal_wire g \<and> reads r (goal_item g) \<and> restore_goal (cp_ledger t) g = Inr l \<and>
        restore_all (got rs (goal_item g) 1, t\<lparr>cp_ledger := l\<rparr>) (skip r (goal_item g)) = Inr (st', r'))"
    unfolding restore_all_step [OF due] take_into_goal [OF want] by blast
  also have "\<dots> \<longleftrightarrow> (\<exists>g gs st1 r1. length gs = n \<and> goals_follow (rs, t) r (g # gs) st1 r1 \<and>
      restore_all st1 r1 = Inr (st', r'))"
    unfolding goals_follow_Cons using IH by blast
  also have "\<dots> \<longleftrightarrow> (\<exists>gs st1 r1. length gs = unat (hd_goals (rs_header rs)) - rs_received rs \<and>
      goals_follow (rs, t) r gs st1 r1 \<and> restore_all st1 r1 = Inr (st', r'))"
    unfolding Suc.hyps(2) [symmetric] length_Suc_conv by blast
  finally show ?case .
qed

section \<open>What decodes\<close>

text \<open>The states a checkpoint can hold.\<close>

definition checkpoint_ok :: "agent_checkpoint \<Rightarrow> bool" where
  "checkpoint_ok c \<longleftrightarrow>
     ledger_ok (cp_ledger c) \<and> \<not> has_running (cp_ledger c) \<and>
     entries_ok (memory_entries (cp_memory c)) (mem_next_stamp (cp_memory c)) \<and>
     cp_memory c = with_entries (memory_entries (cp_memory c)) (mem_next_stamp (cp_memory c)) \<and>
     items_wire c"

text \<open>The header up to its digest.\<close>

definition header_counts :: "header \<Rightarrow> agent_checkpoint \<Rightarrow> bool" where
  "header_counts h c \<longleftrightarrow>
     hd_last_beat h = cp_last_beat c \<and> hd_spawn_seq h = cp_spawn_seq c \<and>
     hd_next_deadline h = cp_next_deadline c \<and> hd_next_goal_id h = gl_next_id (cp_ledger c) \<and>
     hd_next_stamp h = mem_next_stamp (cp_memory c) \<and>
     unat (hd_goals h) = length (ledger_goals (cp_ledger c)) \<and>
     unat (hd_entries h) = length (memory_entries (cp_memory c))"

lemma checkpoint_lengths:
  "checkpoint_ok c \<Longrightarrow> length (ledger_goals (cp_ledger c)) \<le> 8 \<and> length (memory_entries (cp_memory c)) \<le> 32"
  by (auto simp: checkpoint_ok_def ledger_ok_def entries_ok_def max_goals_def max_memory_def)

lemma header_counts_iff:
  assumes "checkpoint_ok c"
  shows "header_counts h c \<longleftrightarrow> checkpoint_header c = h\<lparr>hd_digest := hd_digest (checkpoint_header c)\<rparr>"
proof -
  have n: "try_from k = Some w \<longleftrightarrow> unat w = k" for k and w :: u8 by (rule try_from_Some_iff)
  have some: "\<exists>w :: u8. try_from k = Some w" if "k \<le> 32" for k
    using that by (simp add: try_from_def)
  obtain a b :: u8 where ab: "try_from (length (ledger_goals (cp_ledger c))) = Some a"
    "try_from (length (memory_entries (cp_memory c))) = Some b"
    using some [of "length (ledger_goals (cp_ledger c))"] some [of "length (memory_entries (cp_memory c))"]
      checkpoint_lengths [OF assms] by auto
  then have "unat w = length (ledger_goals (cp_ledger c)) \<longleftrightarrow> a = w"
    "unat w = length (memory_entries (cp_memory c)) \<longleftrightarrow> b = w" for w
    by (simp_all add: n [symmetric])
  with ab show ?thesis
    by (cases h) (auto simp: header_counts_def checkpoint_header_def)
qed

lemma header_counts_self: "checkpoint_ok c \<Longrightarrow> header_counts (checkpoint_header c) c"
  by (simp add: header_counts_iff)

lemma header_wire_self: "checkpoint_ok c \<Longrightarrow> header_wire (checkpoint_header c)"
  using header_counts_self [of c] checkpoint_lengths [of c]
  by (simp add: header_wire_def header_counts_def max_goals_def max_memory_def)

lemma restore_begin_empty:
  "restore_begin h = (rs, t) \<Longrightarrow> rs_header rs = h \<and> rs_received rs = 0 \<and> rs_digest rs = fnv_offset \<and>
     cp_ledger t = ledger_restoring (hd_next_goal_id h) \<and> cp_memory t = with_entries [] (hd_next_stamp h) \<and>
     cp_last_beat t = hd_last_beat h \<and> cp_spawn_seq t = hd_spawn_seq h \<and>
     cp_next_deadline t = hd_next_deadline h"
  by (auto simp: restore_begin_def with_entries_def memory_restoring_def pack_def)

text \<open>The goals and entries that follow a header build a state exactly when it is well formed and lists
  them; \<open>gs\<close> and \<open>es\<close> are then its goals and entries.\<close>

lemma restored_state_iff:
  assumes start: "restore_begin h = (rs, t)" and gs: "length gs = unat (hd_goals h)"
    and es: "length es = unat (hd_entries h)"
    and wire: "\<forall>g \<in> set gs. goal_wire g" "\<forall>e \<in> set es. entry_wire e"
  shows "(\<exists>l m. restore_goals (cp_ledger t) gs = Inr l \<and> restore_entries (cp_memory t) es = Inr m \<and>
      c = t\<lparr>cp_ledger := l, cp_memory := m\<rparr>) \<longleftrightarrow>
    checkpoint_ok c \<and> header_counts h c \<and> ledger_goals (cp_ledger c) = gs \<and>
    memory_entries (cp_memory c) = es"
proof -
  note t = restore_begin_empty [OF start]
  have nz: "\<forall>g \<in> set gs. goal_id_get (g_id g) \<noteq> 0"
    using wire by (simp add: goal_wire_def goal_id_wire_def)
  have goals: "restore_goals (cp_ledger t) gs = Inr l \<longleftrightarrow>
      ledger_ok l \<and> ledger_goals l = gs \<and> gl_next_id l = hd_next_goal_id h \<and> \<not> has_running l" for l
    using restored_ledger_iff [OF nz] t by simp
  have entries: "restore_entries (cp_memory t) es = Inr m \<longleftrightarrow>
      m = with_entries es (hd_next_stamp h) \<and> entries_ok es (hd_next_stamp h)" for m
    using restore_entries_Inr [of "[]" "hd_next_stamp h" es m] t by (simp add: entries_ok_def)
  have same: "c = t\<lparr>cp_ledger := l, cp_memory := m\<rparr> \<longleftrightarrow> cp_ledger c = l \<and> cp_memory c = m \<and>
      cp_last_beat c = hd_last_beat h \<and> cp_spawn_seq c = hd_spawn_seq h \<and>
      cp_next_deadline c = hd_next_deadline h" for l m
    using t by (cases c; cases t) auto
  show ?thesis
    unfolding goals entries same
    using gs es wire by (auto simp: checkpoint_ok_def header_counts_def items_wire_def)
qed

lemma follow_both:
  "(\<exists>st1 r1. goals_follow (rs, t) r gs st1 r1 \<and> entries_follow st1 r1 es (rs', c) r') \<longleftrightarrow>
     (\<forall>g \<in> set gs. goal_wire g) \<and> (\<forall>e \<in> set es. entry_wire e) \<and>
     reads r (concat (map goal_item gs @ map entry_item es)) \<and>
     r' = skip r (concat (map goal_item gs @ map entry_item es)) \<and>
     rs' = got rs (concat (map goal_item gs @ map entry_item es)) (length gs + length es) \<and>
     (\<exists>l m. restore_goals (cp_ledger t) gs = Inr l \<and> restore_entries (cp_memory t) es = Inr m \<and>
        c = t\<lparr>cp_ledger := l, cp_memory := m\<rparr>)" (is "?follow \<longleftrightarrow> ?parts")
proof
  assume ?follow
  then show ?parts by (auto simp: goals_follow_def entries_follow_def reads_append skip_append)
next
  assume ?parts
  then obtain l m where "restore_goals (cp_ledger t) gs = Inr l" "restore_entries (cp_memory t) es = Inr m"
    "c = t\<lparr>cp_ledger := l, cp_memory := m\<rparr>" by blast
  with \<open>?parts\<close> show ?follow
    by (intro exI [of _ "(got rs (concat (map goal_item gs)) (length gs), t\<lparr>cp_ledger := l\<rparr>)"]
        exI [of _ "skip r (concat (map goal_item gs))"])
      (simp add: goals_follow_def entries_follow_def reads_append skip_append)
qed

lemma restore_all_state:
  assumes start: "restore_begin h = (rs, t)" and r: "reads r []"
  shows "restore_all (rs, t) r = Inr ((rs', c), r') \<longleftrightarrow>
    checkpoint_ok c \<and> header_counts h c \<and> reads r (concat (item_list c)) \<and> r' = skip r (concat (item_list c)) \<and>
    rs' = got rs (concat (item_list c)) (item_count c)"
proof -
  note t = restore_begin_empty [OF start]
  have "restore_all (rs, t) r = Inr ((rs', c), r') \<longleftrightarrow>
      (\<exists>gs st1 r1. length gs = unat (hd_goals h) \<and> goals_follow (rs, t) r gs st1 r1 \<and>
         restore_all st1 r1 = Inr ((rs', c), r'))"
    using restore_all_goals [of rs r t] t r by simp
  also have "\<dots> \<longleftrightarrow> (\<exists>gs es st1 r1. length gs = unat (hd_goals h) \<and> length es = unat (hd_entries h) \<and>
      goals_follow (rs, t) r gs st1 r1 \<and> entries_follow st1 r1 es (rs', c) r')"
  proof -
    have "restore_all st1 r1 = Inr ((rs', c), r') \<longleftrightarrow>
        (\<exists>es. length es = unat (hd_entries h) \<and> entries_follow st1 r1 es (rs', c) r')"
      if gs: "length gs = unat (hd_goals h)" "goals_follow (rs, t) r gs st1 r1" for gs st1 r1
    proof -
      let ?rs = "got rs (concat (map goal_item gs)) (length gs)"
      obtain l where st1: "st1 = (?rs, t\<lparr>cp_ledger := l\<rparr>)" and r1: "reads r1 []"
        using gs(2) by (auto simp: goals_follow_def reads_Nil_skip)
      have "restore_remaining ?rs = unat (hd_entries h)"
        using gs(1) t by (simp add: restore_remaining_def header_items_def)
      with restore_all_entries [of ?rs r1 "t\<lparr>cp_ledger := l\<rparr>" "(rs', c)" r'] gs(1) t r1 show ?thesis
        by (simp add: st1)
    qed
    then show ?thesis by blast
  qed
  also have "\<dots> \<longleftrightarrow> (\<exists>gs es. length gs = unat (hd_goals h) \<and> length es = unat (hd_entries h) \<and>
      (\<forall>g \<in> set gs. goal_wire g) \<and> (\<forall>e \<in> set es. entry_wire e) \<and>
      reads r (concat (map goal_item gs @ map entry_item es)) \<and>
      r' = skip r (concat (map goal_item gs @ map entry_item es)) \<and>
      rs' = got rs (concat (map goal_item gs @ map entry_item es)) (length gs + length es) \<and>
      (\<exists>l m. restore_goals (cp_ledger t) gs = Inr l \<and> restore_entries (cp_memory t) es = Inr m \<and>
         c = t\<lparr>cp_ledger := l, cp_memory := m\<rparr>))"
    using follow_both [of rs t r _ _ rs' c r'] by blast
  also have "\<dots> \<longleftrightarrow> (\<exists>gs es. length gs = unat (hd_goals h) \<and> length es = unat (hd_entries h) \<and>
      (\<forall>g \<in> set gs. goal_wire g) \<and> (\<forall>e \<in> set es. entry_wire e) \<and>
      reads r (concat (map goal_item gs @ map entry_item es)) \<and>
      r' = skip r (concat (map goal_item gs @ map entry_item es)) \<and>
      rs' = got rs (concat (map goal_item gs @ map entry_item es)) (length gs + length es) \<and>
      checkpoint_ok c \<and> header_counts h c \<and> ledger_goals (cp_ledger c) = gs \<and>
      memory_entries (cp_memory c) = es)"
    using restored_state_iff [OF start] by blast
  also have "\<dots> \<longleftrightarrow> checkpoint_ok c \<and> header_counts h c \<and> reads r (concat (item_list c)) \<and>
      r' = skip r (concat (item_list c)) \<and> rs' = got rs (concat (item_list c)) (item_count c)"
    by (auto simp: item_list_def item_count_def header_counts_def checkpoint_ok_def items_wire_def)
  finally show ?thesis .
qed

lemma restore_finish_iff:
  "restore_finish rs = Inr () \<longleftrightarrow> restore_remaining rs = 0 \<and> rs_digest rs = hd_digest (rs_header rs)"
  by (auto simp: restore_finish_def)

lemma finished_iff:
  assumes ok: "checkpoint_ok c" and counts: "header_counts h c"
    and rs: "rs_header rs = h" "rs_received rs = item_count c"
      "rs_digest rs = fnv_update fnv_offset (concat (item_list c))"
  shows "restore_finish rs = Inr () \<longleftrightarrow> h = checkpoint_header c"
proof -
  have "restore_remaining rs = 0"
    using counts rs by (simp add: restore_remaining_def header_items_def header_counts_def item_count_def)
  moreover have "hd_digest (checkpoint_header c) = fnv_update fnv_offset (concat (item_list c))"
    using ok by (simp add: checkpoint_ok_def header_digest)
  moreover have "h = checkpoint_header c \<longleftrightarrow> hd_digest h = hd_digest (checkpoint_header c)"
    using counts unfolding header_counts_iff [OF ok] by (cases h; cases "checkpoint_header c") auto
  ultimately show ?thesis using rs by (auto simp: restore_finish_iff)
qed

lemma checkpoint_decode_iff: "checkpoint_decode bs = Inr c \<longleftrightarrow> checkpoint_ok c \<and> bs = blob c"
proof -
  let ?r = "\<lparr>rd_bytes = bs, rd_pos = 1, rd_end = length bs - checksum_len\<rparr>"
  have all: "reads ?r (header_enc h @ xs) \<and> rd_pos (skip ?r (header_enc h @ xs)) = rd_end ?r \<longleftrightarrow>
      p = header_enc h @ xs"
    if "bs = (checkpoint_version # p) @ to_le_bytes (fnv1a64 (checkpoint_version # p))" for p h xs
    using reads_to_end [of ?r "header_enc h @ xs"] that by (auto simp: checksum_len_def slice_def)
  have body: "and_then (header_take ?r) (\<lambda>(h, r).
      and_then (restore_all (restore_begin h) r) (\<lambda>((rs, state), r).
        if rd_pos r \<noteq> rd_end r then Inl E_SnapshotCorrupt
        else and_then (map_err (\<lambda>_. E_SnapshotCorrupt) (restore_finish rs)) (\<lambda>_. Inr state))) = Inr c \<longleftrightarrow>
      checkpoint_ok c \<and> p = header_enc (checkpoint_header c) @ concat (item_list c)" (is "?lhs \<longleftrightarrow> _")
    if bs: "bs = (checkpoint_version # p) @ to_le_bytes (fnv1a64 (checkpoint_version # p))" for p
  proof -
    have "restore_all (restore_begin h) (skip ?r (header_enc h)) = Inr ((rs, c), r') \<and>
        rd_pos r' = rd_end r' \<and> restore_finish rs = Inr () \<longleftrightarrow>
        checkpoint_ok c \<and> h = checkpoint_header c \<and> reads (skip ?r (header_enc h)) (concat (item_list c)) \<and>
        r' = skip ?r (header_enc h @ concat (item_list c)) \<and>
        rd_pos (skip ?r (header_enc h @ concat (item_list c))) = rd_end ?r \<and>
        rs = got (fst (restore_begin h)) (concat (item_list c)) (item_count c)"
      if "reads ?r (header_enc h)" for h rs r'
    proof -
      obtain rs0 t0 where start: "restore_begin h = (rs0, t0)" by fastforce
      note t0 = restore_begin_empty [OF start]
      show ?thesis
        unfolding start restore_all_state [OF start reads_Nil_skip [OF that]]
        using finished_iff [of c h "got rs0 (concat (item_list c)) (item_count c)"] t0 header_counts_self
        by (auto simp: skip_append)
    qed
    note restored = this
    have last: "(if rd_pos r' \<noteq> rd_end r' then Inl E_SnapshotCorrupt
        else and_then (map_err (\<lambda>_. E_SnapshotCorrupt) (restore_finish rs)) (\<lambda>_. Inr state)) = Inr c \<longleftrightarrow>
        state = c \<and> rd_pos r' = rd_end r' \<and> restore_finish rs = Inr ()" for rs r' state
      by (auto simp: result_simps)
    have "?lhs \<longleftrightarrow> (\<exists>h rs r'. header_wire h \<and> reads ?r (header_enc h) \<and>
        restore_all (restore_begin h) (skip ?r (header_enc h)) = Inr ((rs, c), r') \<and>
        rd_pos r' = rd_end r' \<and> restore_finish rs = Inr ())"
      by (simp add: and_then_eq_Inr header_c.get_iff split_paired_Ex last)
    also have "\<dots> \<longleftrightarrow> (\<exists>h. header_wire h \<and> checkpoint_ok c \<and> h = checkpoint_header c \<and>
        reads ?r (header_enc h @ concat (item_list c)) \<and>
        rd_pos (skip ?r (header_enc h @ concat (item_list c))) = rd_end ?r)"
      unfolding reads_append using restored by blast
    also have "\<dots> \<longleftrightarrow> checkpoint_ok c \<and> p = header_enc (checkpoint_header c) @ concat (item_list c)"
      using all [OF bs] header_wire_self by blast
    finally show ?thesis .
  qed
  have unit: "and_then (m :: error + unit) (\<lambda>_. k) = Inr c \<longleftrightarrow> m = Inr () \<and> k = Inr c" for m and k :: "error + agent_checkpoint"
    by (cases m) auto
  have "checkpoint_decode bs = Inr c \<longleftrightarrow>
      (\<exists>p. bs = (checkpoint_version # p) @ to_le_bytes (fnv1a64 (checkpoint_version # p)) \<and>
         checkpoint_ok c \<and> p = header_enc (checkpoint_header c) @ concat (item_list c))"
    unfolding checkpoint_decode_def unit checkpoint_verify_iff using body by blast
  then show ?thesis by (auto simp: blob_def payload_def)
qed

section \<open>The device path\<close>

text \<open>All items in order, stopping at the first error.\<close>

fun push_all ::
  "restore \<times> agent_checkpoint \<Rightarrow> bytes list \<Rightarrow> (restore \<times> agent_checkpoint) \<times> (error + unit)" where
  "push_all st [] = (st, Inr ())"
| "push_all st (i # is) =
     (case restore_push st i of (st', Inl e) \<Rightarrow> (st', Inl e) | (st', Inr _) \<Rightarrow> push_all st' is)"

lemma restore_push_Inr:
  "restore_push st bs = (st', Inr u) \<longleftrightarrow>
     (\<exists>r. take_into st (reader_of bs) = Inr (st', r) \<and> rd_pos r = rd_end r)"
  by (auto simp: restore_push_def split: sum.splits)

lemma push_all_Cons:
  "push_all st (i # is) = (st2, Inr ()) \<longleftrightarrow>
     (\<exists>st1. restore_push st i = (st1, Inr ()) \<and> push_all st1 is = (st2, Inr ()))"
  by (auto split: prod.splits sum.splits)

lemma push_all_append:
  "push_all st (is @ js) = (st2, Inr ()) \<longleftrightarrow>
     (\<exists>st1. push_all st is = (st1, Inr ()) \<and> push_all st1 js = (st2, Inr ()))"
  by (induction "is" arbitrary: st) (auto simp: push_all_Cons simp del: push_all.simps(2))

lemma reader_of_end [simp]: "rd_end (reader_of bs) = length bs"
  by (simp add: reader_of_def)

lemma whole_item:
  "(\<exists>r. (\<exists>x y. P x \<and> reads (reader_of bs) (f x) \<and> r = skip (reader_of bs) (f x) \<and> Q x y) \<and>
      rd_pos r = rd_end r) \<longleftrightarrow> (\<exists>x y. f x = bs \<and> P x \<and> Q x y)" (is "?lhs \<longleftrightarrow> _")
proof -
  have "?lhs \<longleftrightarrow> (\<exists>x y. (reads (reader_of bs) (f x) \<and> rd_pos (skip (reader_of bs) (f x)) = length bs) \<and>
      P x \<and> Q x y)"
  proof
    assume ?lhs
    then obtain x y where "P x" "reads (reader_of bs) (f x)" "Q x y"
      "rd_pos (skip (reader_of bs) (f x)) = rd_end (skip (reader_of bs) (f x))" by blast
    then show "\<exists>x y. (reads (reader_of bs) (f x) \<and> rd_pos (skip (reader_of bs) (f x)) = length bs) \<and>
        P x \<and> Q x y" by (intro exI [of _ x] exI [of _ y]) simp
  next
    assume "\<exists>x y. (reads (reader_of bs) (f x) \<and> rd_pos (skip (reader_of bs) (f x)) = length bs) \<and> P x \<and> Q x y"
    then obtain x y where "P x" "reads (reader_of bs) (f x)" "Q x y"
      "rd_pos (skip (reader_of bs) (f x)) = length bs" by blast
    then show ?lhs by (intro exI [of _ "skip (reader_of bs) (f x)"] conjI exI [of _ x] exI [of _ y]) simp_all
  qed
  then show ?thesis unfolding reader_of_iff .
qed

lemma push_goal:
  assumes "rs_received rs < unat (hd_goals (rs_header rs))"
  shows "restore_push (rs, t) bs = (st, Inr ()) \<longleftrightarrow>
    (\<exists>g l. bs = goal_item g \<and> goal_wire g \<and> restore_goal (cp_ledger t) g = Inr l \<and>
       st = (got rs (goal_item g) 1, t\<lparr>cp_ledger := l\<rparr>))"
  unfolding restore_push_Inr take_into_goal [OF assms] whole_item by blast

lemma push_entry:
  assumes "unat (hd_goals (rs_header rs)) \<le> rs_received rs"
  shows "restore_push (rs, t) bs = (st, Inr ()) \<longleftrightarrow>
    (\<exists>e m. restore_remaining rs \<noteq> 0 \<and> bs = entry_item e \<and> entry_wire e \<and>
       restore_entry (cp_memory t) e = Inr m \<and> st = (got rs (entry_item e) 1, t\<lparr>cp_memory := m\<rparr>))"
proof (cases "restore_remaining rs = 0")
  case True
  then show ?thesis by (simp add: restore_push_Inr take_into_def)
next
  case False
  then show ?thesis
    unfolding restore_push_Inr take_into_entry [OF assms False] whole_item using False by blast
qed

lemma push_goals:
  assumes "rs_received rs + length is \<le> unat (hd_goals (rs_header rs))"
  shows "push_all (rs, t) is = (st, Inr ()) \<longleftrightarrow>
    (\<exists>gs l. is = map goal_item gs \<and> (\<forall>g \<in> set gs. goal_wire g) \<and>
       restore_goals (cp_ledger t) gs = Inr l \<and>
       st = (got rs (concat is) (length is), t\<lparr>cp_ledger := l\<rparr>))"
  using assms
proof (induction "is" arbitrary: rs t)
  case Nil
  then show ?case by auto
next
  case (Cons i "is")
  then have "rs_received rs < unat (hd_goals (rs_header rs))" by simp
  note one = push_goal [OF this]
  have IH: "push_all (got rs bs 1, t\<lparr>cp_ledger := l\<rparr>) is = (st, Inr ()) \<longleftrightarrow>
      (\<exists>gs l'. is = map goal_item gs \<and> (\<forall>g \<in> set gs. goal_wire g) \<and> restore_goals l gs = Inr l' \<and>
         st = (got rs (bs @ concat is) (1 + length is), t\<lparr>cp_ledger := l'\<rparr>))" for bs l
    using Cons.IH [of "got rs bs 1" "t\<lparr>cp_ledger := l\<rparr>"] Cons.prems by simp
  show ?case
  proof
    assume "push_all (rs, t) (i # is) = (st, Inr ())"
    then obtain g l gs l' where "i = goal_item g" "goal_wire g" "restore_goal (cp_ledger t) g = Inr l"
      "is = map goal_item gs" "\<forall>g \<in> set gs. goal_wire g" "restore_goals l gs = Inr l'"
      "st = (got rs (goal_item g @ concat is) (1 + length is), t\<lparr>cp_ledger := l'\<rparr>)"
      unfolding push_all_Cons one using IH by blast
    then show "\<exists>gs l. i # is = map goal_item gs \<and> (\<forall>g \<in> set gs. goal_wire g) \<and>
        restore_goals (cp_ledger t) gs = Inr l \<and>
        st = (got rs (concat (i # is)) (length (i # is)), t\<lparr>cp_ledger := l\<rparr>)"
      by (intro exI [of _ "g # gs"] exI [of _ l']) simp
  next
    assume "\<exists>gs l. i # is = map goal_item gs \<and> (\<forall>g \<in> set gs. goal_wire g) \<and>
        restore_goals (cp_ledger t) gs = Inr l \<and>
        st = (got rs (concat (i # is)) (length (i # is)), t\<lparr>cp_ledger := l\<rparr>)"
    then obtain g gs l l' where "i = goal_item g" "goal_wire g" "restore_goal (cp_ledger t) g = Inr l"
      "is = map goal_item gs" "\<forall>g \<in> set gs. goal_wire g" "restore_goals l gs = Inr l'"
      "st = (got rs (goal_item g @ concat is) (1 + length is), t\<lparr>cp_ledger := l'\<rparr>)"
      by (auto simp: Cons_eq_map_conv result_simps)
    then show "push_all (rs, t) (i # is) = (st, Inr ())"
      unfolding push_all_Cons one using IH by blast
  qed
qed

lemma push_entries:
  assumes "unat (hd_goals (rs_header rs)) \<le> rs_received rs" and "rs_received rs + length is = header_items (rs_header rs)"
  shows "push_all (rs, t) is = (st, Inr ()) \<longleftrightarrow>
    (\<exists>es m. is = map entry_item es \<and> (\<forall>e \<in> set es. entry_wire e) \<and>
       restore_entries (cp_memory t) es = Inr m \<and>
       st = (got rs (concat is) (length is), t\<lparr>cp_memory := m\<rparr>))"
  using assms
proof (induction "is" arbitrary: rs t)
  case Nil
  then show ?case by auto
next
  case (Cons i "is")
  then have due: "restore_remaining rs \<noteq> 0" by (simp add: restore_remaining_def)
  note one = push_entry [OF Cons.prems(1)]
  have IH: "push_all (got rs bs 1, t\<lparr>cp_memory := m\<rparr>) is = (st, Inr ()) \<longleftrightarrow>
      (\<exists>es m'. is = map entry_item es \<and> (\<forall>e \<in> set es. entry_wire e) \<and> restore_entries m es = Inr m' \<and>
         st = (got rs (bs @ concat is) (1 + length is), t\<lparr>cp_memory := m'\<rparr>))" for bs m
    using Cons.IH [of "got rs bs 1" "t\<lparr>cp_memory := m\<rparr>"] Cons.prems by simp
  show ?case
  proof
    assume "push_all (rs, t) (i # is) = (st, Inr ())"
    then obtain e m es m' where "i = entry_item e" "entry_wire e" "restore_entry (cp_memory t) e = Inr m"
      "is = map entry_item es" "\<forall>e \<in> set es. entry_wire e" "restore_entries m es = Inr m'"
      "st = (got rs (entry_item e @ concat is) (1 + length is), t\<lparr>cp_memory := m'\<rparr>)"
      unfolding push_all_Cons one using IH by blast
    then show "\<exists>es m. i # is = map entry_item es \<and> (\<forall>e \<in> set es. entry_wire e) \<and>
        restore_entries (cp_memory t) es = Inr m \<and>
        st = (got rs (concat (i # is)) (length (i # is)), t\<lparr>cp_memory := m\<rparr>)"
      by (intro exI [of _ "e # es"] exI [of _ m']) simp
  next
    assume "\<exists>es m. i # is = map entry_item es \<and> (\<forall>e \<in> set es. entry_wire e) \<and>
        restore_entries (cp_memory t) es = Inr m \<and>
        st = (got rs (concat (i # is)) (length (i # is)), t\<lparr>cp_memory := m\<rparr>)"
    then obtain e es m m' where "i = entry_item e" "entry_wire e" "restore_entry (cp_memory t) e = Inr m"
      "is = map entry_item es" "\<forall>e \<in> set es. entry_wire e" "restore_entries m es = Inr m'"
      "st = (got rs (entry_item e @ concat is) (1 + length is), t\<lparr>cp_memory := m'\<rparr>)"
      by (auto simp: Cons_eq_map_conv result_simps)
    then show "push_all (rs, t) (i # is) = (st, Inr ())"
      unfolding push_all_Cons one using IH due by blast
  qed
qed

lemma restore_push_count:
  assumes "restore_push (rs, t) bs = ((rs', t'), Inr ())"
  shows "rs_header rs' = rs_header rs \<and> rs_received rs' = rs_received rs + 1 \<and>
    rs_received rs' \<le> header_items (rs_header rs)"
  using assms
  by (auto simp: restore_push_Inr take_into_def Let_def result_simps restore_remaining_def split: if_splits)

lemma push_all_count:
  "push_all (rs, t) is = ((rs', t'), Inr ()) \<Longrightarrow> rs_received rs \<le> header_items (rs_header rs) \<Longrightarrow>
   rs_header rs' = rs_header rs \<and> rs_received rs' = rs_received rs + length is \<and>
   rs_received rs' \<le> header_items (rs_header rs)"
proof (induction "is" arbitrary: rs t)
  case (Cons i "is")
  then obtain rs1 t1 where one: "restore_push (rs, t) i = ((rs1, t1), Inr ())"
    and rest: "push_all (rs1, t1) is = ((rs', t'), Inr ())"
    by (auto simp: push_all_Cons simp del: push_all.simps(2))
  from restore_push_count [OF one] Cons.IH [OF rest] show ?case by simp
qed simp

lemma push_all_state:
  "(\<exists>rs. push_all (restore_begin h) is = ((rs, c), Inr ()) \<and> restore_finish rs = Inr ()) \<longleftrightarrow>
     checkpoint_ok c \<and> h = checkpoint_header c \<and> is = item_list c"
proof -
  obtain rs0 t0 where start: "restore_begin h = (rs0, t0)" by fastforce
  note t0 = restore_begin_empty [OF start]
  let ?G = "unat (hd_goals h)" and ?E = "unat (hd_entries h)"
  have total: "length is = ?G + ?E"
    if "push_all (rs0, t0) is = ((rs, c), Inr ())" "restore_finish rs = Inr ()" for rs
    using push_all_count [OF that(1)] that(2) t0
    by (simp add: restore_finish_iff restore_remaining_def header_items_def)
  have parts: "push_all (rs0, t0) (is @ js) = ((rs, c), Inr ()) \<longleftrightarrow>
      (\<exists>gs es. is = map goal_item gs \<and> js = map entry_item es \<and>
         rs = got rs0 (concat (is @ js)) (?G + ?E) \<and>
         (\<forall>g \<in> set gs. goal_wire g) \<and> (\<forall>e \<in> set es. entry_wire e) \<and>
         (\<exists>l m. restore_goals (cp_ledger t0) gs = Inr l \<and> restore_entries (cp_memory t0) es = Inr m \<and>
            c = t0\<lparr>cp_ledger := l, cp_memory := m\<rparr>))"
    if "length is = ?G" "length js = ?E" for "is" js rs
  proof -
    have js: "push_all (got rs0 (concat is) (length is), t0\<lparr>cp_ledger := l\<rparr>) js = ((rs, c), Inr ()) \<longleftrightarrow>
        (\<exists>es m. js = map entry_item es \<and> (\<forall>e \<in> set es. entry_wire e) \<and>
          restore_entries (cp_memory t0) es = Inr m \<and>
          rs = got rs0 (concat (is @ js)) (?G + ?E) \<and> c = t0\<lparr>cp_ledger := l, cp_memory := m\<rparr>)" for l
      using push_entries [of "got rs0 (concat is) (length is)" js "t0\<lparr>cp_ledger := l\<rparr>" "(rs, c)"] that t0
      by (simp add: header_items_def)
    have "is": "push_all (rs0, t0) is = (st1, Inr ()) \<longleftrightarrow>
        (\<exists>gs l. is = map goal_item gs \<and> (\<forall>g \<in> set gs. goal_wire g) \<and>
          restore_goals (cp_ledger t0) gs = Inr l \<and>
          st1 = (got rs0 (concat is) (length is), t0\<lparr>cp_ledger := l\<rparr>))" for st1
      using push_goals [of rs0 "is" t0 st1] that t0 by simp
    show ?thesis
      unfolding push_all_append "is" using js by blast
  qed
  have "push_all (rs0, t0) is = ((rs, c), Inr ()) \<longleftrightarrow>
      checkpoint_ok c \<and> header_counts h c \<and> is = item_list c \<and> rs = got rs0 (concat is) (?G + ?E)"
    if len: "length is = ?G + ?E" for rs
  proof -
    have split: "is = take ?G is @ drop ?G is" "length (take ?G is) = ?G" "length (drop ?G is) = ?E"
      using len by simp_all
    have eq: "take ?G is = map goal_item gs \<and> drop ?G is = map entry_item es \<longleftrightarrow>
        length gs = ?G \<and> length es = ?E \<and> is = map goal_item gs @ map entry_item es" for gs es
      using split by (metis append_eq_conv_conj length_map)
    have "push_all (rs0, t0) is = ((rs, c), Inr ()) \<longleftrightarrow>
      (\<exists>gs es. length gs = ?G \<and> length es = ?E \<and> is = map goal_item gs @ map entry_item es \<and>
         rs = got rs0 (concat is) (?G + ?E) \<and>
         (\<forall>g \<in> set gs. goal_wire g) \<and> (\<forall>e \<in> set es. entry_wire e) \<and>
         (\<exists>l m. restore_goals (cp_ledger t0) gs = Inr l \<and> restore_entries (cp_memory t0) es = Inr m \<and>
            c = t0\<lparr>cp_ledger := l, cp_memory := m\<rparr>))"
      using parts [OF split(2,3), of rs] eq unfolding split(1) [symmetric] by blast
    also have "\<dots> \<longleftrightarrow> checkpoint_ok c \<and> header_counts h c \<and> is = item_list c \<and> rs = got rs0 (concat is) (?G + ?E)"
    proof -
      have "(\<exists>gs es. length gs = ?G \<and> length es = ?E \<and> is = map goal_item gs @ map entry_item es \<and>
          rs = got rs0 (concat is) (?G + ?E) \<and>
          (\<forall>g \<in> set gs. goal_wire g) \<and> (\<forall>e \<in> set es. entry_wire e) \<and>
          (\<exists>l m. restore_goals (cp_ledger t0) gs = Inr l \<and> restore_entries (cp_memory t0) es = Inr m \<and>
            c = t0\<lparr>cp_ledger := l, cp_memory := m\<rparr>)) \<longleftrightarrow>
        (\<exists>gs es. length gs = ?G \<and> length es = ?E \<and> is = map goal_item gs @ map entry_item es \<and>
          rs = got rs0 (concat is) (?G + ?E) \<and>
          (\<forall>g \<in> set gs. goal_wire g) \<and> (\<forall>e \<in> set es. entry_wire e) \<and>
          checkpoint_ok c \<and> header_counts h c \<and> ledger_goals (cp_ledger c) = gs \<and>
          memory_entries (cp_memory c) = es)"
        using restored_state_iff [OF start] by blast
      then show ?thesis
        by (auto simp: item_list_def header_counts_def checkpoint_ok_def items_wire_def)
    qed
    finally show ?thesis .
  qed
  note pushed = this
  show ?thesis
  proof
    assume "\<exists>rs. push_all (restore_begin h) is = ((rs, c), Inr ()) \<and> restore_finish rs = Inr ()"
    then obtain rs where p: "push_all (rs0, t0) is = ((rs, c), Inr ())" and f: "restore_finish rs = Inr ()"
      using start by auto
    with pushed [OF total [OF p f]] have "checkpoint_ok c" "header_counts h c" "is = item_list c"
      "rs = got rs0 (concat is) (?G + ?E)" by blast+
    with finished_iff [of c h rs] f t0 show "checkpoint_ok c \<and> h = checkpoint_header c \<and> is = item_list c"
      by (simp add: header_counts_def item_count_def)
  next
    assume ok: "checkpoint_ok c \<and> h = checkpoint_header c \<and> is = item_list c"
    then have counts: "header_counts h c" using header_counts_self by blast
    then have "length is = ?G + ?E" using ok by (simp add: length_item_list item_count_def header_counts_def)
    from pushed [OF this] ok counts have "push_all (rs0, t0) is = ((got rs0 (concat is) (?G + ?E), c), Inr ())"
      by blast
    moreover have "restore_finish (got rs0 (concat is) (?G + ?E)) = Inr ()"
      using finished_iff [of c h "got rs0 (concat is) (?G + ?E)"] ok counts t0
      by (simp add: header_counts_def item_count_def)
    ultimately show "\<exists>rs. push_all (restore_begin h) is = ((rs, c), Inr ()) \<and> restore_finish rs = Inr ()"
      using start by auto
  qed
qed

section \<open>Corruption and sizes\<close>

lemma length_header_enc: "length (header_enc h) = 36"
  by (simp add: header_enc_def)

lemma sum_length_items:
  assumes "\<forall>bs \<in> set bss. length bs \<le> n"
  shows "length (concat bss) \<le> length bss * n"
  using assms by (induction bss) (auto simp: add_le_mono)

lemma blob_fits: "checkpoint_ok c \<Longrightarrow> length (blob c) \<le> max_checkpoint_bytes"
proof -
  assume ok: "checkpoint_ok c"
  then have wire: "items_wire c" by (simp add: checkpoint_ok_def)
  let ?gs = "map goal_item (ledger_goals (cp_ledger c))" and ?es = "map entry_item (memory_entries (cp_memory c))"
  have "\<forall>bs \<in> set ?gs. length bs \<le> 1 + max_goal_bytes" "\<forall>bs \<in> set ?es. length bs \<le> 1 + max_entry_bytes"
    using wire length_goal_enc length_entry_enc
    by (auto simp: items_wire_def goal_item_def entry_item_def)
  then have "length (concat ?gs) \<le> length ?gs * (1 + max_goal_bytes)"
    "length (concat ?es) \<le> length ?es * (1 + max_entry_bytes)"
    by (intro sum_length_items; simp)+
  moreover have "length ?gs * (1 + max_goal_bytes) \<le> 8 * (1 + max_goal_bytes)"
    "length ?es * (1 + max_entry_bytes) \<le> 32 * (1 + max_entry_bytes)"
    using checkpoint_lengths [OF ok] by (intro mult_right_mono; simp)+
  ultimately show ?thesis
    by (simp add: blob_def payload_def length_header_enc item_list_def max_checkpoint_bytes_def
        header_bytes_def checksum_len_def max_goals_def max_memory_def)
qed

text \<open>A changed byte of the payload changes the hash; a changed byte of the stored hash does not match.\<close>

lemma verify_one_byte:
  assumes "checkpoint_verify (as @ x # bs) = Inr ()" and "checkpoint_verify (as @ y # bs) = Inr ()"
  shows "x = y"
proof -
  obtain p q where p: "as @ x # bs = (checkpoint_version # p) @ to_le_bytes (fnv1a64 (checkpoint_version # p))"
    and q: "as @ y # bs = (checkpoint_version # q) @ to_le_bytes (fnv1a64 (checkpoint_version # q))"
    using assms by (auto simp: checkpoint_verify_iff)
  let ?n = "Suc (length p)"
  have len: "length p = length q" using arg_cong [OF p, of length] arg_cong [OF q, of length] by simp
  have P: "take ?n (as @ x # bs) = checkpoint_version # p"
    "drop ?n (as @ x # bs) = to_le_bytes (fnv1a64 (checkpoint_version # p))" unfolding p by simp_all
  have Q: "take ?n (as @ y # bs) = checkpoint_version # q"
    "drop ?n (as @ y # bs) = to_le_bytes (fnv1a64 (checkpoint_version # q))" unfolding q using len by simp_all
  show ?thesis
  proof (cases "length as < ?n")
    case True
    then obtain k where k: "?n - length as = Suc k" by (cases "?n - length as") auto
    with P(2) Q(2) True have "to_le_bytes (fnv1a64 (checkpoint_version # p)) =
        to_le_bytes (fnv1a64 (checkpoint_version # q))" by simp
    then have "fnv1a64 (checkpoint_version # p) = fnv1a64 (checkpoint_version # q)"
      using u64.enc_inj [of "fnv1a64 (checkpoint_version # p)"] by simp
    then have "fnv1a64 (as @ x # take k bs) = fnv1a64 (as @ y # take k bs)"
      using P(1) Q(1) True k by simp
    then show ?thesis by (simp add: fnv1a64_one_byte)
  next
    case False
    then have "checkpoint_version # p = checkpoint_version # q" using P(1) Q(1) by simp
    then have "drop ?n (as @ x # bs) = drop ?n (as @ y # bs)" using P(2) Q(2) by simp
    then show ?thesis using False by simp
  qed
qed

section \<open>Properties\<close>

text \<open>C14: The checkpoint blob is a bijection between the well-formed supervisor states and the accepted byte
  strings: decoding returns a state exactly when the state satisfies every structural invariant of
  the ledger and the store (and no goal is mid-run) and the bytes are what encoding that state
  writes. So encoding round-trips, and nothing else decodes.\<close>

theorem checkpoint_decodes_exactly:
  "checkpoint_decode bs = Inr c \<longleftrightarrow>
     checkpoint_ok c \<and> checkpoint_encode c (replicate (length bs) 0) = Inr (bs, length bs)"
proof (cases "checkpoint_ok c")
  case True
  then have "items_wire c" by (simp add: checkpoint_ok_def)
  then have "checkpoint_encode c (replicate (length bs) 0) = Inr (bs, length bs) \<longleftrightarrow> bs = blob c"
    by (auto simp: checkpoint_encode_blob)
  then show ?thesis using True by (simp add: checkpoint_decode_iff)
qed (simp add: checkpoint_decode_iff)

text \<open>C21: Restoring on the device is exact and fails closed. Whatever header and items are pushed, in
  whatever order: every push and the final check succeed exactly when the restored state is well
  formed, the header is its header, and the items are its items in storage order.\<close>

theorem device_restore_exact:
  "(\<exists>rs. push_all (restore_begin h) is = ((rs, c), Inr ()) \<and> restore_finish rs = Inr ()) \<longleftrightarrow>
     checkpoint_ok c \<and> h = checkpoint_header c \<and> is = item_list c"
  by (rule push_all_state)

text \<open>C38: The integrity field detects every single-byte corruption: of two strings that differ in exactly
  one byte, be it of the version, the payload or the stored checksum, at most one verifies.\<close>

theorem corruption_detected:
  assumes "checkpoint_verify (as @ x # bs) = Inr ()" and "y \<noteq> x"
  shows "checkpoint_verify (as @ y # bs) \<noteq> Inr ()"
  using verify_one_byte assms by blast

text \<open>C39: Every item of a well-formed state is encodable into the item buffer and fits one 512-byte
  scratch page, and the whole blob fits \<open>MAX_CHECKPOINT_BYTES\<close>; a short buffer is refused.\<close>

theorem items_fit:
  assumes "checkpoint_ok c" and "i < item_count c"
  shows "encode_item c i out =
      (if length (item_list c ! i) \<le> length out
       then Inr (item_list c ! i @ drop (length (item_list c ! i)) out, length (item_list c ! i))
       else Inl E_SnapshotBufferTooSmall) \<and>
    length (item_list c ! i) \<le> max_item_bytes \<and> max_item_bytes \<le> 512 \<and>
    encoded_len c \<le> max_checkpoint_bytes"
proof -
  have wire: "items_wire c" using assms by (simp add: checkpoint_ok_def)
  moreover have "length (item_list c ! i) \<le> max_item_bytes"
    using items_length [OF wire nth_mem] assms(2) by (simp add: length_item_list)
  moreover have "max_item_bytes \<le> 512"
    by (simp add: max_item_bytes_def max_goal_bytes_def max_entry_bytes_def note_max_def)
  ultimately show ?thesis
    using encode_item_enc [OF wire assms(2)] blob_fits [OF assms(1)] by (simp add: encoded_len_blob)
qed

text \<open>The entry record, the answer of the harvest activity, round-trips: an entry is decoded exactly
  from the bytes that encoding it writes.\<close>

theorem entry_record_exact:
  "decode_entry bs = Inr e \<longleftrightarrow>
     entry_wire e \<and> encode_entry e (replicate (length bs) 0) = Inr (bs, length bs)"
proof -
  have "decode_entry bs = Inr e \<longleftrightarrow> entry_wire e \<and> entry_enc e = bs"
    using reader_of_iff [of bs "entry_enc e"]
    by (auto simp: decode_entry_def result_simps entry_c.get_iff split: if_splits)
  moreover have "entry_enc e = bs \<longleftrightarrow> encode_entry e (replicate (length bs) 0) = Inr (bs, length bs)"
    if "entry_wire e"
    by (auto simp: encode_entry_def entry_c.put_enc [OF that] put_result written_def)
  ultimately show ?thesis by blast
qed

text \<open>A blob whose payload is too short for the header passes the checksum and is then reported as
  truncated, not as corrupt.\<close>

lemma truncated_after_checksum:
  "checkpoint_verify ([1] @ to_le_bytes (fnv1a64 [1])) = Inr () \<and>
   checkpoint_decode ([1] @ to_le_bytes (fnv1a64 [1])) = Inl E_SnapshotTruncated"
proof -
  have v: "checkpoint_verify ([1] @ to_le_bytes (fnv1a64 [1])) = Inr ()"
    unfolding checkpoint_verify_iff by (rule exI [of _ "[]"]) (simp add: checkpoint_version_def)
  then show ?thesis
    by (simp add: checkpoint_decode_def header_take_def rd_u64_def rd_bind_def rd_take_def checksum_len_def)
qed

section \<open>Instances\<close>

definition sample_checkpoint :: agent_checkpoint where
  "sample_checkpoint =
     checkpoint_new\<lparr>cp_memory := with_entries [stamped (sample_entry (MK_Note (Digest 7))) 1] 2\<rparr>"

lemma sample_checkpoint_ok: "checkpoint_ok sample_checkpoint" "item_count sample_checkpoint = 1"
proof -
  have "ledger_ok ledger_new" "ledger_goals ledger_new = []"
    using ledger_new_live by (auto simp: ledger_live_def)
  then show "checkpoint_ok sample_checkpoint" "item_count sample_checkpoint = 1"
    by (auto simp: sample_checkpoint_def checkpoint_new_def checkpoint_ok_def has_running_def entries_ok_def
        items_wire_def entry_wire_def stamped_def sample_entry_def key_wire_def provenance_wire_def
        item_count_def max_memory_def max_pinned_def note_EMPTY_ok)
qed

theorem corruption_detected_witness:
  "checkpoint_verify ([] @ 2 # to_le_bytes (fnv1a64 [1])) \<noteq> Inr ()"
proof (rule corruption_detected [where x = 1])
  show "checkpoint_verify ([] @ 1 # to_le_bytes (fnv1a64 [1])) = Inr ()"
    unfolding checkpoint_verify_iff by (rule exI [of _ "[]"]) (simp add: checkpoint_version_def)
qed simp

theorem items_fit_witness:
  "encode_item sample_checkpoint 0 [] = Inl E_SnapshotBufferTooSmall"
proof -
  have "item_list sample_checkpoint ! 0 \<noteq> []"
    by (simp add: item_list_def sample_checkpoint_def checkpoint_new_def entry_item_def u8_enc_def
        conjunct2 [OF ledger_new_live])
  then show ?thesis
    using items_fit [OF sample_checkpoint_ok(1), of 0 "[]"] sample_checkpoint_ok(2) by simp
qed

end
