(* ===== verification/Harvest.thy ===== *)
theory Harvest
  imports Memory
begin

text \<open>
  Harvesting a settled run (\<open>esper-core/src/harvest.rs\<close>). The harvester streams over the committed
  events with one open effect and five slots; the lemmas show that what it keeps is a function of
  the list of effects: the latest entry earned per key, the last five of them. A harvest that is
  sealed and resumed therefore ends like an unbroken one.
\<close>

section \<open>The harvester\<close>

definition max_harvest :: nat where "max_harvest = 6"
definition max_observations :: nat where "max_observations = max_harvest - 1"

record open_effect =
  oe_seq :: u32
  oe_key :: memory_key
  oe_label :: "note_t option"
  oe_mutating :: bool
  oe_value :: "note_t option"
  oe_verified :: bool

record harvester =
  hv_provenance :: provenance
  hv_open :: "open_effect option"
  hv_kept :: "memory_entry option list"

definition harvester_new :: "provenance \<Rightarrow> harvester" where
  "harvester_new p = \<lparr>hv_provenance = p, hv_open = None, hv_kept = replicate max_observations None\<rparr>"

text \<open>\<open>Result::ok\<close>, and the slots overwritten from the front by \<open>zip\<close>.\<close>

definition ok_of :: "error + 'a \<Rightarrow> 'a option" where
  "ok_of r = (case r of Inl _ \<Rightarrow> None | Inr x \<Rightarrow> Some x)"

definition harvester_resume :: "provenance \<Rightarrow> memory_entry list \<Rightarrow> error + harvester" where
  "harvester_resume p es =
     (if max_observations < length es then Inl E_MemoryFull
      else Inr ((harvester_new p)
        \<lparr>hv_kept := map Some es @ drop (length es) (replicate max_observations None)\<rparr>))"

definition harvester_kept :: "harvester \<Rightarrow> memory_entry list" where
  "harvester_kept h = flatten (hv_kept h)"

text \<open>\<open>remove\<close>: rotate the tail left by one and clear its last slot.\<close>

definition remove_slot :: "nat \<Rightarrow> 'a option list \<Rightarrow> 'a option list" where
  "remove_slot i s = (if i < length s then take i s @ drop (Suc i) s @ [None] else s)"

definition keep_entry :: "memory_entry option list \<Rightarrow> memory_entry \<Rightarrow> memory_entry option list" where
  "keep_entry kept e =
     (let s1 = (case position (\<lambda>slot. case slot of None \<Rightarrow> False | Some k \<Rightarrow> me_key k = me_key e) kept of
                  Some i \<Rightarrow> remove_slot i kept
                | None \<Rightarrow> kept);
          s2 = (if list_all (\<lambda>slot. slot \<noteq> None) s1 then remove_slot 0 s1 else s1)
      in case fill_free e s2 of Some s3 \<Rightarrow> s3 | None \<Rightarrow> s2)"

definition harvester_close :: "harvester \<Rightarrow> harvester" where
  "harvester_close h =
     (case hv_open h of
        None \<Rightarrow> h
      | Some op \<Rightarrow>
          (let h' = h\<lparr>hv_open := None\<rparr> in
           case (oe_label op, oe_value op) of
             (Some label, Some val) \<Rightarrow>
               if oe_mutating op \<and> \<not> oe_verified op then h'
               else h'\<lparr>hv_kept := keep_entry (hv_kept h')
                        \<lparr>me_key = oe_key op, me_label = label, me_value = val,
                         me_provenance = hv_provenance h', me_stamp = 0\<rparr>\<rparr>
           | _ \<Rightarrow> h'))"

definition harvester_seal :: "harvester \<Rightarrow> harvester" where
  "harvester_seal h = harvester_close h"

text \<open>The label \<open><tool_name> <args>\<close>, when it fits the ingest bound.\<close>

definition request_label :: "tool_id \<Rightarrow> bytes \<Rightarrow> note_t option" where
  "request_label tool args =
     (let name = str_bytes (case lookup_by_id tool of None \<Rightarrow> ''tool'' | Some c \<Rightarrow> tc_name c) in
      if length name + 1 + length args \<le> memory_input_max
      then ok_of (ingest (name @ [0x20] @ args)) else None)"

definition request_mutating :: "tool_id \<Rightarrow> bool" where
  "request_mutating tool \<longleftrightarrow>
     (case lookup_by_id tool of None \<Rightarrow> True | Some c \<Rightarrow> tc_permission c \<noteq> Perm_ReadOnly)"

definition harvester_request :: "harvester \<Rightarrow> u32 \<Rightarrow> tool_id \<Rightarrow> bytes \<Rightarrow> harvester" where
  "harvester_request h seq tool args =
     (harvester_close h)\<lparr>hv_open := Some
       \<lparr>oe_seq = seq, oe_key = MK_Observation tool (digest_of_bytes args),
        oe_label = request_label tool args, oe_mutating = request_mutating tool,
        oe_value = None, oe_verified = False\<rparr>\<rparr>"

definition harvester_observation :: "harvester \<Rightarrow> u32 \<Rightarrow> bool \<Rightarrow> bytes \<Rightarrow> harvester" where
  "harvester_observation h seq ok payload =
     (case hv_open h of
        Some op \<Rightarrow>
          if oe_seq op = seq \<and> ok
          then h\<lparr>hv_open := Some (op\<lparr>oe_value := ok_of (ingest payload)\<rparr>)\<rparr> else h
      | None \<Rightarrow> h)"

definition harvester_verification :: "harvester \<Rightarrow> u32 \<Rightarrow> bool \<Rightarrow> harvester" where
  "harvester_verification h seq passed =
     (case hv_open h of
        Some op \<Rightarrow> if oe_seq op = seq then h\<lparr>hv_open := Some (op\<lparr>oe_verified := passed\<rparr>)\<rparr> else h
      | None \<Rightarrow> h)"

text \<open>The digit loop of \<open>goal_label\<close>: at least one digit, the least significant first.\<close>

fun goal_digits :: "nat \<Rightarrow> bytes" where
  "goal_digits n = (0x30 + of_nat (n mod 10)) # (if n div 10 = 0 then [] else goal_digits (n div 10))"

declare goal_digits.simps [simp del]

definition goal_label :: "goal_id \<Rightarrow> bytes" where
  "goal_label g = str_bytes ''goal#'' @ rev (goal_digits (unat (goal_id_get g)))"

definition outcome_value :: "terminal_status \<Rightarrow> bytes \<Rightarrow> bytes" where
  "outcome_value status summary =
     (let name = str_bytes (terminal_status_name status) in
      if summary = [] \<or> memory_input_max < length name + 1 + length summary then name
      else name @ [0x20] @ summary)"

definition harvester_finish ::
  "harvester \<Rightarrow> goal_id \<Rightarrow> terminal_status \<Rightarrow> bytes \<Rightarrow> error + memory_entry option list" where
  "harvester_finish h goal status summary =
     (let h' = harvester_close h;
          slots = map Some (take max_harvest (harvester_kept h'))
                    @ drop (length (harvester_kept h')) (replicate max_harvest None)
      in and_then (entry_new (MK_Outcome goal) (goal_label goal) (outcome_value status summary)
                     (hv_provenance h')) (\<lambda>outcome.
         ok_or E_MemoryFull (fill_free outcome slots)))"

section \<open>The committed events of a run\<close>

datatype harvest_event =
    HE_Request u32 tool_id bytes
  | HE_Observation u32 bool bytes
  | HE_Verification u32 bool

fun harvest_feed :: "harvester \<Rightarrow> harvest_event \<Rightarrow> harvester" where
  "harvest_feed h (HE_Request seq tool args) = harvester_request h seq tool args"
| "harvest_feed h (HE_Observation seq ok payload) = harvester_observation h seq ok payload"
| "harvest_feed h (HE_Verification seq passed) = harvester_verification h seq passed"

definition harvest_run :: "harvester \<Rightarrow> harvest_event list \<Rightarrow> harvester" where
  "harvest_run h evs = foldl harvest_feed h evs"

section \<open>What a run teaches, by effect\<close>

text \<open>The successful observations and the verifications of one effect, in order.\<close>

definition observations_of :: "u32 \<Rightarrow> harvest_event list \<Rightarrow> bytes list" where
  "observations_of seq evs = List.map_filter
     (\<lambda>ev. case ev of HE_Observation s ok p \<Rightarrow> if s = seq \<and> ok then Some p else None
           | HE_Request _ _ _ \<Rightarrow> None | HE_Verification _ _ \<Rightarrow> None) evs"

definition verifications_of :: "u32 \<Rightarrow> harvest_event list \<Rightarrow> bool list" where
  "verifications_of seq evs = List.map_filter
     (\<lambda>ev. case ev of HE_Verification s p \<Rightarrow> if s = seq then Some p else None
           | HE_Request _ _ _ \<Rightarrow> None | HE_Observation _ _ _ \<Rightarrow> None) evs"

text \<open>The entry an effect earns: its label and its latest successful observation must be ingestible,
  and an effect that is not read-only needs a latest verification, and a passing one.\<close>

definition earned :: "provenance \<Rightarrow> u32 \<Rightarrow> tool_id \<Rightarrow> bytes \<Rightarrow> harvest_event list \<Rightarrow> memory_entry option" where
  "earned p seq tool args evs =
     (case (request_label tool args,
            if observations_of seq evs = [] then None
            else ok_of (ingest (last (observations_of seq evs)))) of
        (Some label, Some val) \<Rightarrow>
          if request_mutating tool \<and> \<not> (verifications_of seq evs \<noteq> [] \<and> last (verifications_of seq evs))
          then None
          else Some \<lparr>me_key = MK_Observation tool (digest_of_bytes args), me_label = label,
                     me_value = val, me_provenance = p, me_stamp = 0\<rparr>
      | _ \<Rightarrow> None)"

text \<open>The effects of a journal: each request with the events up to the next one. Events before the
  first request belong to no effect.\<close>

fun is_request :: "harvest_event \<Rightarrow> bool" where
  "is_request (HE_Request _ _ _) = True"
| "is_request (HE_Observation _ _ _) = False"
| "is_request (HE_Verification _ _) = False"

fun harvested :: "provenance \<Rightarrow> harvest_event list \<Rightarrow> memory_entry list" where
  "harvested p [] = []"
| "harvested p (HE_Request seq tool args # evs) =
     (case earned p seq tool args (takeWhile (\<lambda>ev. \<not> is_request ev) evs) of
        None \<Rightarrow> harvested p evs | Some e \<Rightarrow> e # harvested p evs)"
| "harvested p (HE_Observation _ _ _ # evs) = harvested p evs"
| "harvested p (HE_Verification _ _ # evs) = harvested p evs"

text \<open>The latest entry of every key, in order.\<close>

fun latest :: "memory_entry list \<Rightarrow> memory_entry list" where
  "latest [] = []"
| "latest (e # es) = (if me_key e \<in> me_key ` set es then latest es else e # latest es)"

section \<open>The slots as a list\<close>

definition keep :: "memory_entry list \<Rightarrow> memory_entry \<Rightarrow> memory_entry list" where
  "keep ks e = lastn max_observations (filter (\<lambda>k. me_key k \<noteq> me_key e) ks @ [e])"

definition keepable :: "memory_entry list \<Rightarrow> bool" where
  "keepable ks \<longleftrightarrow> length ks \<le> max_observations \<and> distinct (map me_key ks)"

lemma lastn_small: "length xs \<le> n \<Longrightarrow> lastn n xs = xs"
  by (simp add: lastn_def)

lemma lastn_snoc: "lastn (Suc n) (xs @ [x]) = lastn n xs @ [x]"
  by (simp add: lastn_def)

lemma lastn_append: "n \<le> length ys \<Longrightarrow> lastn n (xs @ ys) = lastn n ys"
  by (simp add: lastn_def)

lemma distinct_map_lastn: "distinct (map f xs) \<Longrightarrow> distinct (map f (lastn n xs))"
  by (simp add: lastn_def drop_map [symmetric])

lemma keep_keepable: "keepable ks \<Longrightarrow> keepable (keep ks e)"
proof -
  assume "keepable ks"
  then have "distinct (map me_key (filter (\<lambda>k. me_key k \<noteq> me_key e) ks @ [e]))"
    by (auto simp: keepable_def distinct_map_filter)
  then show ?thesis
    unfolding keepable_def keep_def by (simp only: length_lastn distinct_map_lastn) simp
qed

lemma position_pack:
  "position (\<lambda>s. case s of None \<Rightarrow> False | Some x \<Rightarrow> q x) (pack n xs) = position q xs"
proof -
  have "position (\<lambda>s. case s of None \<Rightarrow> False | Some x \<Rightarrow> q x) (replicate k None) = None" for k
    by (induction k) auto
  then have "position (\<lambda>s. case s of None \<Rightarrow> False | Some x \<Rightarrow> q x) (map Some xs @ replicate k None) = position q xs"
    for k by (induction xs) auto
  then show ?thesis by (simp add: pack_def)
qed

lemma remove_slot_pack:
  assumes "i < length xs" and "length xs \<le> n"
  shows "remove_slot i (pack n xs) = pack n (take i xs @ drop (Suc i) xs)"
proof -
  obtain k where k: "n - length xs = k" "n - (length xs - 1) = Suc k" using assms by simp
  have "length (take i xs @ drop (Suc i) xs) = length xs - 1" using assms by simp
  then show ?thesis
    using assms k by (simp add: remove_slot_def pack_def take_map drop_map replicate_append_same)
qed

lemma full_pack: "length xs \<le> n \<Longrightarrow> list_all (\<lambda>s. s \<noteq> None) (pack n xs) \<longleftrightarrow> length xs = n"
  by (auto simp: pack_def list_all_iff)

lemma remove_key:
  assumes "distinct (map f xs)"
  shows "(case position (\<lambda>x. f x = k) xs of Some i \<Rightarrow> take i xs @ drop (Suc i) xs | None \<Rightarrow> xs)
    = filter (\<lambda>x. f x \<noteq> k) xs"
  using assms
proof (induction xs)
  case (Cons x xs)
  show ?case
  proof (cases "f x = k")
    case True
    then have "filter (\<lambda>x. f x \<noteq> k) xs = xs" using Cons.prems
      by (auto simp: filter_id_conv) (metis imageI)
    with True show ?thesis by simp
  next
    case False
    then show ?thesis using Cons by (auto split: option.splits)
  qed
qed simp

lemma keep_entry_pack:
  assumes "keepable ks"
  shows "keep_entry (pack max_observations ks) e = pack max_observations (keep ks e)"
proof -
  let ?n = max_observations and ?fs = "filter (\<lambda>k. me_key k \<noteq> me_key e) ks"
  have le: "length ks \<le> ?n" and d: "distinct (map me_key ks)" using assms by (simp_all add: keepable_def)
  have n: "0 < ?n" by (simp add: max_observations_def max_harvest_def)
  have s1: "(case position (\<lambda>slot. case slot of None \<Rightarrow> False | Some k \<Rightarrow> me_key k = me_key e) (pack ?n ks) of
      Some i \<Rightarrow> remove_slot i (pack ?n ks) | None \<Rightarrow> pack ?n ks) = pack ?n ?fs"
  proof (cases "position (\<lambda>k. me_key k = me_key e) ks")
    case None
    then show ?thesis using remove_key [OF d, of "me_key e"] by (simp add: position_pack)
  next
    case (Some i)
    then have "i < length ks" by (simp add: position_Some_iff)
    then show ?thesis
      using remove_key [OF d, of "me_key e"] Some le by (simp add: position_pack remove_slot_pack)
  qed
  have fle: "length ?fs \<le> ?n" using le le_trans length_filter_le by blast
  show ?thesis
  proof (cases "length ?fs = ?n")
    case True
    then have "remove_slot 0 (pack ?n ?fs) = pack ?n (drop 1 ?fs)"
      using n by (simp add: remove_slot_pack)
    moreover have "keep ks e = drop 1 ?fs @ [e]"
      using True n by (simp add: keep_def lastn_def)
    ultimately show ?thesis
      using True n unfolding keep_entry_def Let_def s1
      by (simp add: full_pack fill_free_pack del: not_None_eq)
  next
    case False
    then have "keep ks e = ?fs @ [e]" using fle by (simp add: keep_def lastn_small)
    then show ?thesis
      using False fle unfolding keep_entry_def Let_def s1
      by (simp add: full_pack fill_free_pack del: not_None_eq)
  qed
qed

lemma foldl_keep_keepable: "keepable ks \<Longrightarrow> keepable (foldl keep ks es)"
  by (induction es arbitrary: ks) (simp_all add: keep_keepable)

lemma latest_snoc: "latest (es @ [e]) = filter (\<lambda>k. me_key k \<noteq> me_key e) (latest es) @ [e]"
  by (induction es) auto

lemma latest_keys: "me_key ` set (latest es) = me_key ` set es \<and> distinct (map me_key (latest es))"
  by (induction es) auto

lemma lastn_filter:
  assumes "length (filter (\<lambda>x. \<not> P x) xs) \<le> 1"
  shows "lastn n (filter P (lastn (Suc n) xs)) = lastn n (filter P xs)"
proof (cases "length xs \<le> Suc n")
  case False
  let ?A = "take (length xs - Suc n) xs" and ?B = "lastn (Suc n) xs"
  have split: "xs = ?A @ ?B" by (simp add: lastn_def)
  have "length (filter (\<lambda>x. \<not> P x) ?B) \<le> 1"
    using assms split by (metis add_leE filter_append length_append)
  moreover have "length (filter P ?B) + length (filter (\<lambda>x. \<not> P x) ?B) = Suc n"
    using False sum_length_filter_compl [of P ?B] by simp
  ultimately have "n \<le> length (filter P ?B)" by simp
  then show ?thesis
    by (subst (2) split) (simp add: lastn_append)
qed (simp add: lastn_small)

lemma foldl_keep_latest: "foldl keep [] es = lastn max_observations (latest es)"
proof (induction es rule: rev_induct)
  case Nil
  then show ?case by (simp add: lastn_def)
next
  case (snoc e es)
  have n: "max_observations = Suc 4" by (simp add: max_observations_def max_harvest_def)
  have "length (filter (\<lambda>k. \<not> me_key k \<noteq> me_key e) (latest es)) \<le> 1"
    using latest_keys [of es] filter_key_singleton [of me_key "latest es" "me_key e"] by auto
  from lastn_filter [OF this, of 4]
  have "keep (lastn max_observations (latest es)) e = lastn max_observations (latest (es @ [e]))"
    using lastn_snoc [of 4 "filter (\<lambda>k. me_key k \<noteq> me_key e) (lastn 5 (latest es))" e]
      lastn_snoc [of 4 "filter (\<lambda>k. me_key k \<noteq> me_key e) (latest es)" e]
    by (simp add: latest_snoc keep_def n)
  then show ?case by (simp add: snoc.IH)
qed

section \<open>Streaming over the effects\<close>

definition opened :: "u32 \<Rightarrow> tool_id \<Rightarrow> bytes \<Rightarrow> harvest_event list \<Rightarrow> open_effect" where
  "opened seq tool args evs =
     \<lparr>oe_seq = seq, oe_key = MK_Observation tool (digest_of_bytes args),
      oe_label = request_label tool args, oe_mutating = request_mutating tool,
      oe_value = (if observations_of seq evs = [] then None
                  else ok_of (ingest (last (observations_of seq evs)))),
      oe_verified = (verifications_of seq evs \<noteq> [] \<and> last (verifications_of seq evs))\<rparr>"

lemma observations_of_snoc:
  "observations_of seq (evs @ [ev]) = observations_of seq evs @
     (case ev of HE_Observation s ok p \<Rightarrow> if s = seq \<and> ok then [p] else []
      | HE_Request _ _ _ \<Rightarrow> [] | HE_Verification _ _ \<Rightarrow> [])"
  by (auto simp: observations_of_def List.map_filter_def split: harvest_event.split)

lemma verifications_of_snoc:
  "verifications_of seq (evs @ [ev]) = verifications_of seq evs @
     (case ev of HE_Verification s p \<Rightarrow> if s = seq then [p] else []
      | HE_Request _ _ _ \<Rightarrow> [] | HE_Observation _ _ _ \<Rightarrow> [])"
  by (auto simp: verifications_of_def List.map_filter_def split: harvest_event.split)

lemma opened_Nil:
  "opened seq tool args [] =
     \<lparr>oe_seq = seq, oe_key = MK_Observation tool (digest_of_bytes args),
      oe_label = request_label tool args, oe_mutating = request_mutating tool,
      oe_value = None, oe_verified = False\<rparr>"
  by (simp add: opened_def observations_of_def verifications_of_def)

lemma feed_opened:
  assumes "hv_open h = Some (opened seq tool args evs)" and "\<not> is_request ev"
  shows "harvest_feed h ev = h\<lparr>hv_open := Some (opened seq tool args (evs @ [ev]))\<rparr>"
proof (cases ev)
  case (HE_Observation s ok payload)
  then show ?thesis using assms
    by (cases h) (auto simp: harvester_observation_def opened_def observations_of_snoc verifications_of_snoc)
next
  case (HE_Verification s passed)
  then show ?thesis using assms
    by (cases h) (auto simp: harvester_verification_def opened_def observations_of_snoc verifications_of_snoc)
qed (use assms in simp)

definition earned_list :: "provenance \<Rightarrow> u32 \<Rightarrow> tool_id \<Rightarrow> bytes \<Rightarrow> harvest_event list \<Rightarrow> memory_entry list" where
  "earned_list p seq tool args evs =
     (case earned p seq tool args evs of None \<Rightarrow> [] | Some e \<Rightarrow> [e])"

text \<open>A harvester that keeps \<open>ks\<close>, with the effect it has open.\<close>

definition keeps_open :: "harvester \<Rightarrow> memory_entry list \<Rightarrow> open_effect option \<Rightarrow> bool" where
  "keeps_open h ks op \<longleftrightarrow> keepable ks \<and> hv_kept h = pack max_observations ks \<and> hv_open h = op"

lemma close_none: "keeps_open h ks None \<Longrightarrow> harvester_close h = h"
  by (simp add: keeps_open_def harvester_close_def)

lemma close_opened:
  assumes "keeps_open h ks (Some (opened seq tool args evs))"
  shows "keeps_open (harvester_close h) (foldl keep ks (earned_list (hv_provenance h) seq tool args evs)) None \<and>
    hv_provenance (harvester_close h) = hv_provenance h"
  using assms
  by (auto simp: keeps_open_def harvester_close_def earned_list_def earned_def opened_def Let_def
      keep_entry_pack keep_keepable split: option.splits)

lemma harvest_run_Cons: "harvest_run h (ev # evs) = harvest_run (harvest_feed h ev) evs"
  by (simp add: harvest_run_def)

lemma harvest_run_append: "harvest_run h (as @ bs) = harvest_run (harvest_run h as) bs"
  by (simp add: harvest_run_def)

lemma harvested_Request:
  "harvested p (HE_Request seq tool args # evs) =
     earned_list p seq tool args (takeWhile (\<lambda>ev. \<not> is_request ev) evs) @ harvested p evs"
  by (simp add: earned_list_def split: option.split)

lemma run_opened:
  assumes "keeps_open h ks (Some (opened seq tool args seen))"
  shows "keeps_open (harvester_close (harvest_run h evs))
      (foldl keep ks (earned_list (hv_provenance h) seq tool args
         (seen @ takeWhile (\<lambda>ev. \<not> is_request ev) evs) @ harvested (hv_provenance h) evs)) None \<and>
    hv_provenance (harvester_close (harvest_run h evs)) = hv_provenance h"
  using assms
proof (induction evs arbitrary: h ks seq tool args seen)
  case Nil
  then show ?case using close_opened [OF Nil] by (simp add: harvest_run_def)
next
  case (Cons ev evs)
  show ?case
  proof (cases "is_request ev")
    case True
    then obtain seq' tool' args' where ev: "ev = HE_Request seq' tool' args'" by (cases ev) auto
    let ?h = "harvest_feed h ev" and ?ks = "foldl keep ks (earned_list (hv_provenance h) seq tool args seen)"
    from close_opened [OF Cons.prems]
    have "keeps_open ?h ?ks (Some (opened seq' tool' args' []))" "hv_provenance ?h = hv_provenance h"
      by (simp_all add: ev harvester_request_def keeps_open_def opened_Nil)
    from Cons.IH [OF this(1)] this(2) show ?thesis
      by (simp add: harvest_run_Cons ev harvested_Request del: harvested.simps(2))
  next
    case False
    then have h: "harvest_feed h ev = h\<lparr>hv_open := Some (opened seq tool args (seen @ [ev]))\<rparr>"
      using Cons.prems by (simp add: feed_opened keeps_open_def)
    then have "keeps_open (harvest_feed h ev) ks (Some (opened seq tool args (seen @ [ev])))"
      using Cons.prems by (simp add: keeps_open_def)
    from Cons.IH [OF this] h False show ?thesis
      by (cases ev) (simp_all add: harvest_run_Cons)
  qed
qed

lemma feed_closed:
  "keeps_open h ks None \<Longrightarrow> \<not> is_request ev \<Longrightarrow> harvest_feed h ev = h"
  by (cases ev) (simp_all add: keeps_open_def harvester_observation_def harvester_verification_def)

lemma run_closed:
  assumes "keeps_open h ks None"
  shows "keeps_open (harvester_close (harvest_run h evs)) (foldl keep ks (harvested (hv_provenance h) evs)) None \<and>
    hv_provenance (harvester_close (harvest_run h evs)) = hv_provenance h"
  using assms
proof (induction evs)
  case Nil
  then show ?case by (simp add: harvest_run_def close_none)
next
  case (Cons ev evs)
  show ?case
  proof (cases "is_request ev")
    case True
    then obtain seq tool args where ev: "ev = HE_Request seq tool args" by (cases ev) auto
    have "keeps_open (harvest_feed h ev) ks (Some (opened seq tool args []))"
      "hv_provenance (harvest_feed h ev) = hv_provenance h"
      using Cons.prems close_none [OF Cons.prems]
      by (simp_all add: ev harvester_request_def keeps_open_def opened_Nil)
    from run_opened [OF this(1), of evs] this(2) show ?thesis
      by (simp add: harvest_run_Cons ev harvested_Request del: harvested.simps(2))
  next
    case False
    then show ?thesis
      using Cons feed_closed [OF Cons.prems False] by (cases ev) (simp_all add: harvest_run_Cons)
  qed
qed

lemma harvester_new_keeps: "keeps_open (harvester_new p) [] None \<and> hv_provenance (harvester_new p) = p"
  by (simp add: harvester_new_def keeps_open_def keepable_def pack_def)

lemma harvester_resume_keeps:
  "keepable ks \<Longrightarrow> \<exists>h. harvester_resume p ks = Inr h \<and> keeps_open h ks None \<and> hv_provenance h = p"
  by (auto simp: harvester_resume_def harvester_new_def keeps_open_def keepable_def pack_def)

lemma harvested_append:
  "evs2 = [] \<or> is_request (hd evs2) \<Longrightarrow> harvested p (evs1 @ evs2) = harvested p evs1 @ harvested p evs2"
proof (induction evs1)
  case (Cons ev evs1)
  have "takeWhile (\<lambda>ev. \<not> is_request ev) (evs1 @ evs2) = takeWhile (\<lambda>ev. \<not> is_request ev) evs1"
  proof (cases "\<exists>ev\<in>set evs1. is_request ev")
    case True
    then show ?thesis by (auto simp: takeWhile_append1)
  next
    case False
    then have all: "\<And>ev. ev \<in> set evs1 \<Longrightarrow> \<not> is_request ev" by blast
    have "takeWhile (\<lambda>ev. \<not> is_request ev) evs2 = []" using Cons.prems by (cases evs2) auto
    then show ?thesis using all by (simp add: takeWhile_append2 takeWhile_eq_all_conv [THEN iffD2])
  qed
  then show ?case using Cons by (cases ev) (simp_all split: option.split)
qed simp

section \<open>Finishing\<close>

lemma goal_digits_length: "n < 10 ^ d \<Longrightarrow> 0 < d \<Longrightarrow> length (goal_digits n) \<le> d"
proof (induction d arbitrary: n)
  case (Suc d)
  show ?case
  proof (cases "n div 10 = 0")
    case False
    with Suc.prems have "0 < d" by (cases d) auto
    moreover from Suc.prems have "n div 10 < 10 ^ d" by (simp add: less_mult_imp_div_less mult.commute)
    ultimately show ?thesis using Suc.IH [of "n div 10"] by (subst goal_digits.simps) simp
  qed (subst goal_digits.simps, simp)
qed simp

lemma goal_label_length: "length (goal_label g) \<le> 10"
proof -
  have "unat (goal_id_get g) < 10 ^ 5"
    using unsigned_less [of "goal_id_get g", where ?'a = nat] by simp
  from goal_digits_length [OF this] show ?thesis by (simp add: goal_label_def)
qed

lemma outcome_value_length: "length (outcome_value status summary) \<le> memory_input_max"
  by (cases status) (simp_all add: outcome_value_def Let_def memory_input_max_def)

lemma entry_new_outcome:
  "\<exists>l v. ingest (goal_label goal) = Inr l \<and> ingest (outcome_value status summary) = Inr v \<and>
     entry_new (MK_Outcome goal) (goal_label goal) (outcome_value status summary) p =
       Inr \<lparr>me_key = MK_Outcome goal, me_label = l, me_value = v, me_provenance = p, me_stamp = 0\<rparr>"
proof -
  have "length (goal_label goal) \<le> memory_input_max"
    using goal_label_length [of goal] by (simp add: memory_input_max_def)
  with masked_ingest.ing_total outcome_value_length [of status summary] show ?thesis
    by (metis and_then.simps(2) entry_new_def)
qed

lemma finish_keeps:
  assumes "keeps_open (harvester_close h) ks None"
  shows "\<exists>slots outcome. harvester_finish h goal status summary = Inr slots \<and>
    flatten slots = ks @ [outcome] \<and>
    entry_new (MK_Outcome goal) (goal_label goal) (outcome_value status summary)
      (hv_provenance (harvester_close h)) = Inr outcome"
proof -
  obtain outcome where out: "entry_new (MK_Outcome goal) (goal_label goal) (outcome_value status summary)
      (hv_provenance (harvester_close h)) = Inr outcome" using entry_new_outcome by blast
  have len: "length ks < max_harvest" and kept: "harvester_kept (harvester_close h) = ks"
    using assms by (simp_all add: keeps_open_def keepable_def max_observations_def max_harvest_def
        harvester_kept_def flatten_pack)
  then have "map Some (take max_harvest ks) @ drop (length ks) (replicate max_harvest None) = pack max_harvest ks"
    by (simp add: pack_def)
  with len kept out show ?thesis
    by (simp add: harvester_finish_def Let_def fill_free_pack flatten_pack)
qed

lemma run_new:
  "keeps_open (harvester_close (harvest_run (harvester_new p) evs))
     (lastn max_observations (latest (harvested p evs))) None \<and>
   hv_provenance (harvester_close (harvest_run (harvester_new p) evs)) = p"
  using run_closed [of "harvester_new p" "[]" evs] harvester_new_keeps [of p]
  by (simp add: foldl_keep_latest)

lemma keeps_unique:
  "keeps_open g ks None \<Longrightarrow> keeps_open h ks None \<Longrightarrow> hv_provenance g = hv_provenance h \<Longrightarrow> g = h"
  by (cases g; cases h) (simp add: keeps_open_def)

lemma finish_close: "harvester_finish (harvester_close h) g st sm = harvester_finish h g st sm"
proof -
  have "hv_open (harvester_close h) = None"
    by (auto simp: harvester_close_def Let_def split: option.split)
  then have "harvester_close (harvester_close h) = harvester_close h" by (simp add: harvester_close_def)
  then show ?thesis by (simp add: harvester_finish_def)
qed

section \<open>Properties\<close>

text \<open>C19: whatever a run journals, finishing its harvest never fails, and the set read in write order
  is the latest entry of each key earned by the run's effects, the last five of them, followed by
  the goal's outcome. An effect that changes the world earns an entry only after a passing
  verification.\<close>

theorem harvest_finish_exact:
  "\<exists>slots outcome. harvester_finish (harvest_run (harvester_new p) evs) goal status summary = Inr slots \<and>
     flatten slots = lastn max_observations (latest (harvested p evs)) @ [outcome] \<and>
     entry_new (MK_Outcome goal) (goal_label goal) (outcome_value status summary) p = Inr outcome"
  using finish_keeps [of "harvest_run (harvester_new p) evs"] run_new [of p evs] by metis

text \<open>C36: a harvest sealed in one segment of a run and resumed from its kept entries in the next
  finishes exactly as one harvester that saw every event, when the next segment opens with a request
  (or is empty).\<close>

theorem harvest_resume_equiv:
  assumes "evs2 = [] \<or> is_request (hd evs2)"
  shows "\<exists>h. harvester_resume p (harvester_kept (harvester_seal (harvest_run (harvester_new p) evs1))) = Inr h \<and>
    harvester_finish (harvest_run h evs2) goal status summary =
    harvester_finish (harvest_run (harvester_new p) (evs1 @ evs2)) goal status summary"
proof -
  let ?ks = "foldl keep [] (harvested p evs1)"
  have ks: "keepable ?ks" by (rule foldl_keep_keepable) (simp add: keepable_def)
  have "harvester_kept (harvester_seal (harvest_run (harvester_new p) evs1)) = ?ks"
    using run_new [of p evs1]
    by (simp add: foldl_keep_latest keeps_open_def keepable_def harvester_kept_def harvester_seal_def flatten_pack)
  moreover obtain h where h: "harvester_resume p ?ks = Inr h" "keeps_open h ?ks None" "hv_provenance h = p"
    using harvester_resume_keeps [OF ks] by blast
  moreover have "harvester_close (harvest_run h evs2) = harvester_close (harvest_run (harvester_new p) (evs1 @ evs2))"
  proof (rule keeps_unique)
    show "keeps_open (harvester_close (harvest_run h evs2)) (foldl keep ?ks (harvested p evs2)) None"
      using run_closed [OF h(2)] h(3) by simp
    show "keeps_open (harvester_close (harvest_run (harvester_new p) (evs1 @ evs2)))
        (foldl keep ?ks (harvested p evs2)) None"
      using run_new [of p "evs1 @ evs2"] by (simp add: foldl_keep_latest [symmetric] harvested_append [OF assms])
    show "hv_provenance (harvester_close (harvest_run h evs2)) =
        hv_provenance (harvester_close (harvest_run (harvester_new p) (evs1 @ evs2)))"
      using run_closed [OF h(2)] h(3) run_new by simp
  qed
  ultimately show ?thesis using finish_close by metis
qed

theorem harvest_resume_equiv_witness:
  "\<exists>h. harvester_resume \<lparr>pv_goal = None, pv_run = None, pv_beat = Beat 0\<rparr>
      (harvester_kept (harvester_seal (harvest_run (harvester_new \<lparr>pv_goal = None, pv_run = None, pv_beat = Beat 0\<rparr>)
        [HE_Request 1 (ToolId 1) [1], HE_Observation 1 True [2]]))) = Inr h \<and>
    harvester_finish (harvest_run h [HE_Request 2 (ToolId 1) [3]]) (GoalId 1) T_Completed [] =
    harvester_finish (harvest_run (harvester_new \<lparr>pv_goal = None, pv_run = None, pv_beat = Beat 0\<rparr>)
      [HE_Request 1 (ToolId 1) [1], HE_Observation 1 True [2], HE_Request 2 (ToolId 1) [3]]) (GoalId 1) T_Completed []"
  using harvest_resume_equiv [of "[HE_Request 2 (ToolId 1) [3]]" _ "[HE_Request 1 (ToolId 1) [1], HE_Observation 1 True [2]]"]
  by simp

end
