(* ===== verification/Snapshot.thy ===== *)
theory Snapshot
  imports Checkpoint
begin

text \<open>
  The snapshot codec of the compact state (\<open>esper-core/src/snapshot.rs\<close>). A \<open>snapshot\<close> is what the
  accessors of a compact state show; the writer, a cursor that stores byte by byte, lays it out, and
  the decoder rebuilds a state with the recording operations of theory Compact. The reader of the
  source is the checkpoint's (theory Codec). The properties: a state decodes to its own view, and
  the decoder accepts exactly the sealed layouts of snapshots within the capacities.
\<close>

section \<open>The writer\<close>

definition snapshot_version :: u8 where "snapshot_version = 1"

text \<open>A slice and a position; every write is one of \<open>put_u8\<close>.\<close>

type_synonym cursor = "bytes \<times> nat"

definition cur_u8 :: "u8 \<Rightarrow> cursor \<Rightarrow> error + cursor" where
  "cur_u8 v c = (case c of (out, pos) \<Rightarrow>
     if pos < length out then Inr (out[pos := v], pos + 1) else Inl E_SnapshotBufferTooSmall)"

fun cur_bytes :: "bytes \<Rightarrow> cursor \<Rightarrow> error + cursor" where
  "cur_bytes [] c = Inr c"
| "cur_bytes (b # bs) c = and_then (cur_u8 b c) (cur_bytes bs)"

definition cur_u16 :: "u16 \<Rightarrow> cursor \<Rightarrow> error + cursor" where
  "cur_u16 v = cur_bytes (to_le_bytes v)"

definition cur_u32 :: "u32 \<Rightarrow> cursor \<Rightarrow> error + cursor" where
  "cur_u32 v = cur_bytes (to_le_bytes v)"

definition cur_u64 :: "u64 \<Rightarrow> cursor \<Rightarrow> error + cursor" where
  "cur_u64 v = cur_bytes (to_le_bytes v)"

definition cur_note :: "note_t \<Rightarrow> cursor \<Rightarrow> error + cursor" where
  "cur_note n c =
     (let bs = note_as_bytes n in
      and_then (ok_or E_SnapshotCorrupt (try_from (length bs))) (\<lambda>len.
        and_then (cur_u8 len c) (cur_bytes bs)))"

fun cur_each :: "('a \<Rightarrow> cursor \<Rightarrow> error + cursor) \<Rightarrow> 'a list \<Rightarrow> cursor \<Rightarrow> error + cursor" where
  "cur_each f [] c = Inr c"
| "cur_each f (x # xs) c = and_then (f x c) (cur_each f xs)"

definition cur_list :: "('a \<Rightarrow> cursor \<Rightarrow> error + cursor) \<Rightarrow> 'a list \<Rightarrow> cursor \<Rightarrow> error + cursor" where
  "cur_list f xs c =
     and_then (ok_or E_SnapshotCorrupt (try_from (length xs))) (\<lambda>n.
       and_then (cur_u8 n c) (cur_each f xs))"

text \<open>Writes in sequence, each followed by \<open>?\<close>.\<close>

fun cur_all :: "(cursor \<Rightarrow> error + cursor) list \<Rightarrow> cursor \<Rightarrow> error + cursor" where
  "cur_all [] c = Inr c"
| "cur_all (f # fs) c = and_then (f c) (cur_all fs)"

definition cur_fact :: "fact \<Rightarrow> cursor \<Rightarrow> error + cursor" where
  "cur_fact f = cur_all [cur_note (f_text f), cur_u32 (f_source_seq f)]"

definition cur_failed_path :: "failed_path \<Rightarrow> cursor \<Rightarrow> error + cursor" where
  "cur_failed_path p = cur_all
     [cur_u8 (tool_id_get (fp_tool p)), cur_u64 (digest_get (fp_args_digest p)),
      cur_u8 (error_code_code (fp_error p))]"

definition cur_pending :: "pending_item \<Rightarrow> cursor \<Rightarrow> error + cursor" where
  "cur_pending p = cur_all
     [cur_u8 (pending_kind_code (pd_kind p)), cur_u32 (pd_seq p), cur_u64 (digest_get (pd_digest p))]"

text \<open>The saturating sums of the source are exact: the lists hold at most 16 items of 69 bytes.\<close>

definition payload_len :: "compact_state \<Rightarrow> nat" where
  "payload_len s =
     8 + (2 + 4 + 4 + 8 + 4 + 2 + 1) + (4 + 8 + 8 + 8)
     + (1 + foldl (\<lambda>a n. a + (1 + length (note_as_bytes n))) 0 (items (cs_completed s)))
     + (1 + foldl (\<lambda>a n. a + (1 + length (note_as_bytes n))) 0 (items (cs_open s)))
     + (1 + length (items (cs_accepted s)) * 8)
     + (1 + foldl (\<lambda>a f. a + (1 + length (note_as_bytes (f_text f)) + 4)) 0 (items (cs_facts s)))
     + (1 + length (items (cs_failed s)) * (1 + 8 + 1))
     + (1 + length (items (cs_pending s)) * (1 + 4 + 8))
     + (1 + length (items (cs_fingerprints s)) * 8)"

definition snapshot_encoded_len :: "compact_state \<Rightarrow> nat" where
  "snapshot_encoded_len s = 1 + payload_len s + checksum_len"

definition snapshot_encode :: "compact_state \<Rightarrow> bytes \<Rightarrow> error + cursor" where
  "snapshot_encode s out =
     (if length out < snapshot_encoded_len s then Inl E_SnapshotBufferTooSmall
      else let b = cs_budgets s; v = cs_versions s in
        and_then (cur_all
          [cur_u8 snapshot_version,
           cur_u64 (digest_get (cs_objective_digest s)),
           cur_u16 (b_model_turns b), cur_u32 (b_input_tokens b), cur_u32 (b_output_tokens b),
           cur_u64 (b_elapsed_ms b), cur_u32 (b_radio_bytes b), cur_u16 (b_mutations b),
           cur_u8 (b_consecutive_errors b),
           cur_u32 (v_workflow v), cur_u64 (digest_get (v_model v)),
           cur_u64 (digest_get (v_catalog v)), cur_u64 (digest_get (v_policy v)),
           cur_list cur_note (items (cs_completed s)),
           cur_list cur_note (items (cs_open s)),
           cur_list (\<lambda>d. cur_u64 (digest_get d)) (items (cs_accepted s)),
           cur_list cur_fact (items (cs_facts s)),
           cur_list cur_failed_path (items (cs_failed s)),
           cur_list cur_pending (items (cs_pending s)),
           cur_list cur_u64 (items (cs_fingerprints s))] (out, 0)) (\<lambda>(out, pos).
        and_then (ok_or E_SnapshotBufferTooSmall (slice out 0 pos)) (\<lambda>payload.
          cur_u64 (fnv1a64 payload) (out, pos))))"

section \<open>The decoder\<close>

definition snapshot_verify :: "bytes \<Rightarrow> error + unit" where
  "snapshot_verify bs =
     (if length bs < 1 + checksum_len then Inl E_SnapshotTruncated
      else and_then (ok_or E_SnapshotTruncated (nth_of bs 0)) (\<lambda>version.
        if version \<noteq> snapshot_version then Inl (E_SnapshotVersionMismatch version)
        else
          let stop = length bs - checksum_len in
          and_then (ok_or E_SnapshotTruncated (slice bs stop (stop + checksum_len))) (\<lambda>stored.
          and_then (ok_or E_SnapshotTruncated (slice bs 0 stop)) (\<lambda>payload.
            if (from_le_bytes stored :: u64) \<noteq> fnv1a64 payload then Inl E_SnapshotChecksumMismatch
            else Inr ()))))"

definition take_count :: "nat \<Rightarrow> reader \<Rightarrow> error + (u8 \<times> reader)" where
  "take_count cap = rd_bind rd_u8 (\<lambda>n.
     if cap < unat n then rd_fail E_SnapshotCorrupt else rd_return n)"

text \<open>The loop \<open>for _ in 0..n\<close> over a counted list, with the state it updates.\<close>

fun take_times :: "nat \<Rightarrow> ('s \<Rightarrow> reader \<Rightarrow> error + ('s \<times> reader)) \<Rightarrow> 's \<Rightarrow> reader \<Rightarrow> error + ('s \<times> reader)" where
  "take_times 0 f s = rd_return s"
| "take_times (Suc n) f s = rd_bind (f s) (take_times n f)"

definition take_list :: "nat \<Rightarrow> ('s \<Rightarrow> reader \<Rightarrow> error + ('s \<times> reader)) \<Rightarrow> 's \<Rightarrow> reader \<Rightarrow> error + ('s \<times> reader)" where
  "take_list cap f s = rd_bind (take_count cap) (\<lambda>n. take_times (unat n) f s)"

definition take_budget :: "reader \<Rightarrow> error + (budget \<times> reader)" where
  "take_budget =
     rd_bind rd_u16 (\<lambda>a. rd_bind rd_u32 (\<lambda>b. rd_bind rd_u32 (\<lambda>c. rd_bind rd_u64 (\<lambda>d.
     rd_bind rd_u32 (\<lambda>e. rd_bind rd_u16 (\<lambda>f. rd_bind rd_u8 (\<lambda>g. rd_return
       \<lparr>b_model_turns = a, b_input_tokens = b, b_output_tokens = c, b_elapsed_ms = d,
        b_radio_bytes = e, b_mutations = f, b_consecutive_errors = g\<rparr>)))))))"

definition take_digest :: "reader \<Rightarrow> error + (digest \<times> reader)" where
  "take_digest = rd_bind rd_u64 (\<lambda>d. rd_return (Digest d))"

definition take_versions :: "reader \<Rightarrow> error + (version_set \<times> reader)" where
  "take_versions =
     rd_bind rd_u32 (\<lambda>w. rd_bind take_digest (\<lambda>m. rd_bind take_digest (\<lambda>c. rd_bind take_digest (\<lambda>p.
       rd_return \<lparr>v_workflow = w, v_model = m, v_catalog = c, v_policy = p\<rparr>))))"

definition take_fact :: "reader \<Rightarrow> error + (fact \<times> reader)" where
  "take_fact = rd_bind rd_note (\<lambda>text. rd_bind rd_u32 (\<lambda>seq.
     rd_return \<lparr>f_text = text, f_source_seq = seq\<rparr>))"

definition take_failed_path :: "reader \<Rightarrow> error + (failed_path \<times> reader)" where
  "take_failed_path = rd_bind rd_u8 (\<lambda>t. rd_bind take_digest (\<lambda>d. rd_bind rd_u8 (\<lambda>c.
     rd_check (map_sum id (\<lambda>e. \<lparr>fp_tool = ToolId t, fp_args_digest = d, fp_error = e\<rparr>)
       (ok_or E_SnapshotCorrupt (error_code_from_code c))))))"

definition take_pending :: "reader \<Rightarrow> error + (pending_item \<times> reader)" where
  "take_pending = rd_bind rd_u8 (\<lambda>c.
     rd_bind (rd_check (ok_or E_SnapshotCorrupt (pending_kind_from_code c))) (\<lambda>k.
     rd_bind rd_u32 (\<lambda>q. rd_bind take_digest (\<lambda>d. rd_return \<lparr>pd_kind = k, pd_seq = q, pd_digest = d\<rparr>))))"

definition snapshot_decode :: "bytes \<Rightarrow> error + compact_state" where
  "snapshot_decode bs =
     and_then (snapshot_verify bs) (\<lambda>_.
     and_then
       (rd_bind take_digest (\<lambda>objective. rd_bind take_budget (\<lambda>b. rd_bind take_versions (\<lambda>v.
        rd_bind (take_list max_completed
          (\<lambda>s. rd_bind rd_note (\<lambda>n. rd_return (record_completed s n)))
          (compact_state_new objective b v)) (\<lambda>s.
        rd_bind (take_list max_open
          (\<lambda>s. rd_bind rd_note (\<lambda>n. rd_return (record_open s n))) s) (\<lambda>s.
        rd_bind (take_list max_accepted_decisions
          (\<lambda>s. rd_bind take_digest (\<lambda>d. rd_return (record_decision s d))) s) (\<lambda>s.
        rd_bind (take_list max_facts
          (\<lambda>s. rd_bind take_fact (\<lambda>f. rd_return (record_fact s f))) s) (\<lambda>s.
        rd_bind (take_list max_failed_paths
          (\<lambda>s. rd_bind take_failed_path (\<lambda>p.
             rd_check (map_err (\<lambda>_. E_SnapshotCorrupt) (record_failed_path s p)))) s) (\<lambda>s.
        rd_bind (take_list max_pending
          (\<lambda>s. rd_bind take_pending (\<lambda>i.
             rd_check (map_err (\<lambda>_. E_SnapshotCorrupt) (record_pending s i)))) s) (\<lambda>s.
        take_list max_fingerprints
          (\<lambda>s. rd_bind rd_u64 (\<lambda>f. rd_return (record_fingerprint s f))) s)))))))))
        \<lparr>rd_bytes = bs, rd_pos = 1, rd_end = length bs - checksum_len\<rparr>) (\<lambda>(s, r).
       if rd_pos r \<noteq> rd_end r then Inl E_SnapshotCorrupt else Inr s))"

section \<open>Snapshots\<close>

record snapshot =
  sn_objective :: digest
  sn_budgets :: budget
  sn_versions :: version_set
  sn_completed :: "note_t list"
  sn_open :: "note_t list"
  sn_accepted :: "digest list"
  sn_facts :: "fact list"
  sn_failed :: "failed_path list"
  sn_pending :: "pending_item list"
  sn_fingerprints :: "u64 list"

definition snapshot_of :: "compact_state \<Rightarrow> snapshot" where
  "snapshot_of s =
     \<lparr>sn_objective = cs_objective_digest s, sn_budgets = cs_budgets s, sn_versions = cs_versions s,
      sn_completed = items (cs_completed s), sn_open = items (cs_open s),
      sn_accepted = items (cs_accepted s), sn_facts = items (cs_facts s),
      sn_failed = items (cs_failed s), sn_pending = items (cs_pending s),
      sn_fingerprints = items (cs_fingerprints s)\<rparr>"

text \<open>The snapshots that have a layout: lists within their capacity, of notes that were built.\<close>

definition snapshot_wire :: "snapshot \<Rightarrow> bool" where
  "snapshot_wire n \<longleftrightarrow>
     length (sn_completed n) \<le> max_completed \<and> list_all note_ok (sn_completed n) \<and>
     length (sn_open n) \<le> max_open \<and> list_all note_ok (sn_open n) \<and>
     length (sn_accepted n) \<le> max_accepted_decisions \<and>
     length (sn_facts n) \<le> max_facts \<and> list_all (\<lambda>f. note_ok (f_text f)) (sn_facts n) \<and>
     length (sn_failed n) \<le> max_failed_paths \<and> length (sn_pending n) \<le> max_pending \<and>
     length (sn_fingerprints n) \<le> max_fingerprints"

text \<open>A list with its count, and the layout.\<close>

definition list_enc :: "('a \<Rightarrow> bytes) \<Rightarrow> 'a list \<Rightarrow> bytes" where
  "list_enc e xs = u8_enc (of_nat (length xs)) @ concat (map e xs)"

definition digest_enc :: "digest \<Rightarrow> bytes" where
  "digest_enc d = to_le_bytes (digest_get d)"

definition budget_enc :: "budget \<Rightarrow> bytes" where
  "budget_enc b =
     to_le_bytes (b_model_turns b) @ to_le_bytes (b_input_tokens b) @ to_le_bytes (b_output_tokens b) @
     to_le_bytes (b_elapsed_ms b) @ to_le_bytes (b_radio_bytes b) @ to_le_bytes (b_mutations b) @
     u8_enc (b_consecutive_errors b)"

definition versions_enc :: "version_set \<Rightarrow> bytes" where
  "versions_enc v = to_le_bytes (v_workflow v) @ digest_enc (v_model v) @ digest_enc (v_catalog v) @ digest_enc (v_policy v)"

definition fact_enc :: "fact \<Rightarrow> bytes" where
  "fact_enc f = note_enc (f_text f) @ to_le_bytes (f_source_seq f)"

definition failed_path_enc :: "failed_path \<Rightarrow> bytes" where
  "failed_path_enc p =
     u8_enc (tool_id_get (fp_tool p)) @ digest_enc (fp_args_digest p) @ u8_enc (error_code_code (fp_error p))"

definition pending_enc :: "pending_item \<Rightarrow> bytes" where
  "pending_enc p = u8_enc (pending_kind_code (pd_kind p)) @ to_le_bytes (pd_seq p) @ digest_enc (pd_digest p)"

definition snapshot_enc :: "snapshot \<Rightarrow> bytes" where
  "snapshot_enc n =
     digest_enc (sn_objective n) @ budget_enc (sn_budgets n) @ versions_enc (sn_versions n) @
     list_enc note_enc (sn_completed n) @ list_enc note_enc (sn_open n) @
     list_enc digest_enc (sn_accepted n) @ list_enc fact_enc (sn_facts n) @
     list_enc failed_path_enc (sn_failed n) @ list_enc pending_enc (sn_pending n) @
     list_enc to_le_bytes (sn_fingerprints n)"

definition sealed :: "bytes \<Rightarrow> bytes" where
  "sealed p = (snapshot_version # p) @ to_le_bytes (fnv1a64 (snapshot_version # p))"

section \<open>Writing a layout\<close>

lemma cur_bytes_Nil: "cur_bytes [] = Inr"
  by (rule ext) simp

lemma cur_u8_bytes: "cur_u8 v = cur_bytes [v]"
  by (rule ext) (simp add: cur_bytes_Nil)

lemma cur_bytes_append: "and_then (cur_bytes as c) (cur_bytes bs) = cur_bytes (as @ bs) c"
  by (induction as arbitrary: c) (simp_all add: and_then_assoc)

lemma cur_all_bytes: "cur_all (map cur_bytes bss) = cur_bytes (concat bss)"
proof (rule ext)
  show "cur_all (map cur_bytes bss) c = cur_bytes (concat bss) c" for c
    by (induction bss arbitrary: c) (simp_all add: cur_bytes_append [symmetric] cong: and_then_cong)
qed

lemma cur_each_bytes:
  "list_all (\<lambda>x. f x = cur_bytes (e x)) xs \<Longrightarrow> cur_each f xs = cur_bytes (concat (map e xs))"
proof (rule ext)
  show "list_all (\<lambda>x. f x = cur_bytes (e x)) xs \<Longrightarrow> cur_each f xs c = cur_bytes (concat (map e xs)) c" for c
    by (induction xs arbitrary: c) (simp_all add: cur_bytes_append [symmetric] cong: and_then_cong)
qed

lemma cur_list_bytes:
  assumes "list_all (\<lambda>x. f x = cur_bytes (e x)) xs" and "length xs < 256"
  shows "cur_list f xs = cur_bytes (list_enc e xs)"
  using assms
  by (intro ext) (simp add: cur_list_def try_from_def list_enc_def u8_enc_def cur_u8_bytes cur_each_bytes
      cur_bytes_append del: cur_bytes.simps(2))

lemma cur_note_bytes: "note_ok n \<Longrightarrow> cur_note n = cur_bytes (note_enc n)"
  using note_as_bytes_length [of n]
  by (intro ext) (simp add: cur_note_def try_from_def note_max_def note_enc_def Let_def)

lemma cur_bytes_result:
  "pos + length bs \<le> length out \<Longrightarrow>
   cur_bytes bs (out, pos) = Inr (take pos out @ bs @ drop (pos + length bs) out, pos + length bs)"
proof (induction bs arbitrary: out pos)
  case (Cons b bs)
  then have "cur_bytes bs (out[pos := b], pos + 1) = Inr (take (pos + 1) (out[pos := b]) @ bs @
      drop (pos + 1 + length bs) (out[pos := b]), pos + 1 + length bs)" by simp
  then show ?case using Cons.prems by (simp add: cur_u8_def take_Suc_conv_app_nth upd_conv_take_nth_drop)
qed simp

lemma cur_bytes_at:
  "length p + length bs \<le> length out \<Longrightarrow> cur_bytes bs (p @ drop (length p) out, length p) =
     Inr (p @ bs @ drop (length p + length bs) out, length p + length bs)"
  by (simp add: cur_bytes_result add.commute)

lemmas cur_bytes_simps = cur_u8_bytes cur_u16_def cur_u32_def cur_u64_def

lemma cur_item_bytes:
  "note_ok (f_text f) \<Longrightarrow> cur_fact f = cur_bytes (fact_enc f)"
  "cur_failed_path p = cur_bytes (failed_path_enc p)"
  "cur_pending i = cur_bytes (pending_enc i)"
  using cur_all_bytes [of "[note_enc (f_text f), to_le_bytes (f_source_seq f)]"]
    cur_all_bytes [of "[[tool_id_get (fp_tool p)], to_le_bytes (digest_get (fp_args_digest p)), [error_code_code (fp_error p)]]"]
    cur_all_bytes [of "[[pending_kind_code (pd_kind i)], to_le_bytes (pd_seq i), to_le_bytes (digest_get (pd_digest i))]"]
  by (simp_all add: cur_fact_def cur_failed_path_def cur_pending_def cur_bytes_simps cur_note_bytes fact_enc_def
      failed_path_enc_def pending_enc_def u8_enc_def digest_enc_def del: cur_all.simps cur_bytes.simps(2))

lemma snapshot_wire_of: "cs_ok s \<Longrightarrow> snapshot_wire (snapshot_of s)"
  by (simp add: cs_ok_def snapshot_wire_def snapshot_of_def length_items_le)

lemma foldl_plus: "foldl (\<lambda>a x. a + f x) (a :: nat) xs = a + sum_list (map f xs)"
  by (induction xs arbitrary: a) simp_all

lemma sum_list_const: "(\<And>x. x \<in> set xs \<Longrightarrow> f x = k) \<Longrightarrow> sum_list (map f xs) = length xs * (k :: nat)"
  by (induction xs) simp_all

lemma snapshot_len: "snapshot_encoded_len s = length (sealed (snapshot_enc (snapshot_of s)))"
proof -
  have "sum_list (map (length \<circ> digest_enc) xs) = length xs * 8" for xs
    by (rule sum_list_const) (simp add: digest_enc_def)
  moreover have "sum_list (map (length \<circ> failed_path_enc) xs) = length xs * 10" for xs
    by (rule sum_list_const) (simp add: failed_path_enc_def digest_enc_def)
  moreover have "sum_list (map (length \<circ> pending_enc) xs) = length xs * 13" for xs
    by (rule sum_list_const) (simp add: pending_enc_def digest_enc_def)
  moreover have "sum_list (map (length \<circ> (to_le_bytes :: u64 \<Rightarrow> bytes)) xs) = length xs * 8" for xs
    by (rule sum_list_const) simp
  moreover have "foldl (\<lambda>a n. Suc (a + length (note_as_bytes n))) 0 xs =
      sum_list (map (\<lambda>n. Suc (length (note_as_bytes n))) xs)" for xs
    using foldl_plus [of "\<lambda>n. Suc (length (note_as_bytes n))" 0 xs] by simp
  moreover have "length \<circ> note_enc = (\<lambda>n. 1 + length (note_as_bytes n))"
    "length \<circ> fact_enc = (\<lambda>f. 1 + length (note_as_bytes (f_text f)) + 4)"
    by (simp_all add: fun_eq_iff note_enc_def fact_enc_def)
  ultimately show ?thesis
    by (simp add: snapshot_encoded_len_def payload_len_def foldl_plus sealed_def snapshot_enc_def list_enc_def
        length_concat snapshot_of_def budget_enc_def versions_enc_def digest_enc_def checksum_len_def
        add.commute add.left_commute del: sum_list_simps)
qed

lemma snapshot_encode_result:
  assumes ok: "cs_ok s" and fits: "snapshot_encoded_len s \<le> length out"
  shows "snapshot_encode s out =
    (let bs = sealed (snapshot_enc (snapshot_of s)) in Inr (bs @ drop (length bs) out, length bs))"
proof -
  let ?n = "snapshot_of s" and ?b = "cs_budgets s" and ?v = "cs_versions s"
  let ?p = "snapshot_version # snapshot_enc ?n"
  have wire: "snapshot_wire ?n" using ok by (rule snapshot_wire_of)
  have lists:
    "cur_list cur_note (items (cs_completed s)) = cur_bytes (list_enc note_enc (items (cs_completed s)))"
    "cur_list cur_note (items (cs_open s)) = cur_bytes (list_enc note_enc (items (cs_open s)))"
    "cur_list (\<lambda>d. cur_u64 (digest_get d)) (items (cs_accepted s)) = cur_bytes (list_enc digest_enc (items (cs_accepted s)))"
    "cur_list cur_fact (items (cs_facts s)) = cur_bytes (list_enc fact_enc (items (cs_facts s)))"
    "cur_list cur_failed_path (items (cs_failed s)) = cur_bytes (list_enc failed_path_enc (items (cs_failed s)))"
    "cur_list cur_pending (items (cs_pending s)) = cur_bytes (list_enc pending_enc (items (cs_pending s)))"
    "cur_list cur_u64 (items (cs_fingerprints s)) = cur_bytes (list_enc to_le_bytes (items (cs_fingerprints s)))"
    by (rule cur_list_bytes; use wire in \<open>auto simp: snapshot_wire_def snapshot_of_def max_defs list_all_iff
        cur_note_bytes cur_item_bytes cur_bytes_simps digest_enc_def\<close>)+
  have len: "length ?p + 8 \<le> length out"
    using fits by (simp add: snapshot_len sealed_def)
  have "cur_all
      [cur_u8 snapshot_version,
       cur_u64 (digest_get (cs_objective_digest s)),
       cur_u16 (b_model_turns ?b), cur_u32 (b_input_tokens ?b), cur_u32 (b_output_tokens ?b),
       cur_u64 (b_elapsed_ms ?b), cur_u32 (b_radio_bytes ?b), cur_u16 (b_mutations ?b),
       cur_u8 (b_consecutive_errors ?b),
       cur_u32 (v_workflow ?v), cur_u64 (digest_get (v_model ?v)),
       cur_u64 (digest_get (v_catalog ?v)), cur_u64 (digest_get (v_policy ?v)),
       cur_list cur_note (items (cs_completed s)),
       cur_list cur_note (items (cs_open s)),
       cur_list (\<lambda>d. cur_u64 (digest_get d)) (items (cs_accepted s)),
       cur_list cur_fact (items (cs_facts s)),
       cur_list cur_failed_path (items (cs_failed s)),
       cur_list cur_pending (items (cs_pending s)),
       cur_list cur_u64 (items (cs_fingerprints s))] = cur_bytes ?p"
    using cur_all_bytes [of "[[snapshot_version], to_le_bytes (digest_get (cs_objective_digest s)),
       to_le_bytes (b_model_turns ?b), to_le_bytes (b_input_tokens ?b), to_le_bytes (b_output_tokens ?b),
       to_le_bytes (b_elapsed_ms ?b), to_le_bytes (b_radio_bytes ?b), to_le_bytes (b_mutations ?b),
       [b_consecutive_errors ?b],
       to_le_bytes (v_workflow ?v), to_le_bytes (digest_get (v_model ?v)),
       to_le_bytes (digest_get (v_catalog ?v)), to_le_bytes (digest_get (v_policy ?v)),
       list_enc note_enc (items (cs_completed s)), list_enc note_enc (items (cs_open s)),
       list_enc digest_enc (items (cs_accepted s)), list_enc fact_enc (items (cs_facts s)),
       list_enc failed_path_enc (items (cs_failed s)), list_enc pending_enc (items (cs_pending s)),
       list_enc to_le_bytes (items (cs_fingerprints s))]"]
    unfolding lists unfolding cur_bytes_simps
    by (simp add: snapshot_enc_def snapshot_of_def budget_enc_def versions_enc_def digest_enc_def u8_enc_def
        del: cur_all.simps cur_bytes.simps(2))
  moreover have "cur_bytes ?p (out, 0) = Inr (?p @ drop (length ?p) out, length ?p)"
    using len cur_bytes_result [of 0 ?p out] by simp
  moreover have "cur_u64 w (?p @ drop (length ?p) out, length ?p) =
      Inr (?p @ to_le_bytes w @ drop (length ?p + 8) out, length ?p + 8)" for w
    using len cur_bytes_at [of ?p "to_le_bytes w" out] by (simp add: cur_u64_def)
  ultimately show ?thesis
    using fits len by (simp add: snapshot_encode_def Let_def slice_def sealed_def del: cur_all.simps cur_bytes.simps(2))
qed

section \<open>Reading a layout\<close>

interpretation digest_c: reading take_digest digest_enc any
proof unfold_locales
  fix r d r'
  show "take_digest r = Inr (d, r') \<longleftrightarrow> any d \<and> reads r (digest_enc d) \<and> r' = skip r (digest_enc d)"
    unfolding take_digest_def u64.bind_iff by (cases d) (auto simp: rd_return_Inr digest_enc_def)
qed

interpretation budget_c: reading take_budget budget_enc any
proof unfold_locales
  fix r b r'
  show "take_budget r = Inr (b, r') \<longleftrightarrow> any b \<and> reads r (budget_enc b) \<and> r' = skip r (budget_enc b)"
    unfolding take_budget_def u16.bind_iff u32.bind_iff u64.bind_iff u8.bind_iff
    by (cases b) (auto simp: rd_return_Inr budget_enc_def read_chain)
qed

interpretation versions_c: reading take_versions versions_enc any
proof unfold_locales
  fix r v r'
  show "take_versions r = Inr (v, r') \<longleftrightarrow> any v \<and> reads r (versions_enc v) \<and> r' = skip r (versions_enc v)"
    unfolding take_versions_def u32.bind_iff digest_c.bind_iff
    by (cases v) (auto simp: rd_return_Inr versions_enc_def read_chain)
qed

interpretation fact_c: reading take_fact fact_enc "\<lambda>f. note_ok (f_text f)"
proof unfold_locales
  fix r f r'
  show "take_fact r = Inr (f, r') \<longleftrightarrow> note_ok (f_text f) \<and> reads r (fact_enc f) \<and> r' = skip r (fact_enc f)"
    unfolding take_fact_def note_c.bind_iff u32.bind_iff
    by (cases f) (auto simp: rd_return_Inr fact_enc_def read_chain)
qed

interpretation failed_path_c: reading take_failed_path failed_path_enc any
proof unfold_locales
  fix r p r'
  show "take_failed_path r = Inr (p, r') \<longleftrightarrow> any p \<and> reads r (failed_path_enc p) \<and> r' = skip r (failed_path_enc p)"
    unfolding take_failed_path_def u8.bind_iff digest_c.bind_iff
    by (cases p; cases "fp_tool p")
       (auto simp: rd_check_Inr result_simps error_code_roundtrip failed_path_enc_def read_chain)
qed

lemma pending_kind_roundtrip: "pending_kind_from_code c = Some k \<longleftrightarrow> pending_kind_code k = c"
  by (cases k) (auto simp: pending_kind_from_code_def)

interpretation pending_c: reading take_pending pending_enc any
proof unfold_locales
  fix r p r'
  show "take_pending r = Inr (p, r') \<longleftrightarrow> any p \<and> reads r (pending_enc p) \<and> r' = skip r (pending_enc p)"
    unfolding take_pending_def u8.bind_iff rd_bind_Inr [of "rd_check _"] rd_check_Inr u32.bind_iff digest_c.bind_iff
    by (cases p) (auto simp: rd_return_Inr result_simps pending_kind_roundtrip pending_enc_def read_chain)
qed

text \<open>A loop over a counted list whose step is a reader followed by a recording.\<close>

fun record_all :: "('s \<Rightarrow> 'a \<Rightarrow> error + 's) \<Rightarrow> 's \<Rightarrow> 'a list \<Rightarrow> error + 's" where
  "record_all step s [] = Inr s"
| "record_all step s (x # xs) = and_then (step s x) (\<lambda>s'. record_all step s' xs)"

lemma rd_return_check: "rd_return x = rd_check (Inr x)"
  by (rule ext) (simp add: rd_return_def rd_check_def)

context reading
begin

lemma times_iff:
  assumes "reads r []"
  shows "take_times n (\<lambda>s. rd_bind get (\<lambda>x. rd_check (step s x))) s r = Inr (t, r') \<longleftrightarrow>
    (\<exists>xs. length xs = n \<and> list_all ok xs \<and> reads r (concat (map enc xs)) \<and>
       r' = skip r (concat (map enc xs)) \<and> record_all step s xs = Inr t)"
  using assms
proof (induction n arbitrary: s r)
  case 0
  then show ?case by (auto simp: rd_return_Inr skip_def)
next
  case (Suc n)
  have "take_times (Suc n) (\<lambda>s. rd_bind get (\<lambda>x. rd_check (step s x))) s r = Inr (t, r') \<longleftrightarrow>
      (\<exists>x s'. ok x \<and> reads r (enc x) \<and> step s x = Inr s' \<and>
        take_times n (\<lambda>s. rd_bind get (\<lambda>x. rd_check (step s x))) s' (skip r (enc x)) = Inr (t, r'))"
    by (auto simp: rd_bind_Inr get_iff rd_check_Inr)
  also have "\<dots> \<longleftrightarrow> (\<exists>x s' xs. ok x \<and> reads r (enc x) \<and> step s x = Inr s' \<and> length xs = n \<and>
        list_all ok xs \<and> reads (skip r (enc x)) (concat (map enc xs)) \<and>
        r' = skip (skip r (enc x)) (concat (map enc xs)) \<and> record_all step s' xs = Inr t)"
    using Suc.IH reads_Nil_skip by (auto cong: conj_cong) 
  also have "\<dots> \<longleftrightarrow> (\<exists>xs. length xs = Suc n \<and> list_all ok xs \<and> reads r (concat (map enc xs)) \<and>
       r' = skip r (concat (map enc xs)) \<and> record_all step s xs = Inr t)"
  proof -
    have "(\<exists>xs. length xs = Suc n \<and> Q xs) \<longleftrightarrow> (\<exists>x xs. length xs = n \<and> Q (x # xs))" for Q :: "'a list \<Rightarrow> bool"
      by (metis length_Suc_conv)
    then show ?thesis by (simp add: reads_append skip_append result_simps) blast
  qed
  finally show ?case .
qed

lemma list_iff:
  assumes cap: "cap < 256"
  shows "take_list cap (\<lambda>s. rd_bind get (\<lambda>x. rd_check (step s x))) s r = Inr (t, r') \<longleftrightarrow>
    (\<exists>xs. length xs \<le> cap \<and> list_all ok xs \<and> reads r (list_enc enc xs) \<and>
       r' = skip r (list_enc enc xs) \<and> record_all step s xs = Inr t)"
proof -
  let ?loop = "\<lambda>n s r. take_times n (\<lambda>s. rd_bind get (\<lambda>x. rd_check (step s x))) s r"
  have "take_list cap (\<lambda>s. rd_bind get (\<lambda>x. rd_check (step s x))) s r = Inr (t, r') \<longleftrightarrow>
      (\<exists>n. unat n \<le> cap \<and> reads r (u8_enc n) \<and> ?loop (unat n) s (skip r (u8_enc n)) = Inr (t, r'))"
    by (auto simp: take_list_def take_count_def rd_bind_Inr u8.get_iff rd_return_Inr rd_fail_Inr not_less
        split: if_splits)
  also have "\<dots> \<longleftrightarrow> (\<exists>n xs. unat n \<le> cap \<and> reads r (u8_enc n) \<and> length xs = unat n \<and> list_all ok xs \<and>
      reads (skip r (u8_enc n)) (concat (map enc xs)) \<and> r' = skip (skip r (u8_enc n)) (concat (map enc xs)) \<and>
      record_all step s xs = Inr t)"
  proof -
    have "reads r (u8_enc n) \<Longrightarrow> ?loop (unat n) s (skip r (u8_enc n)) = Inr (t, r') \<longleftrightarrow>
        (\<exists>xs. length xs = unat n \<and> list_all ok xs \<and> reads (skip r (u8_enc n)) (concat (map enc xs)) \<and>
           r' = skip (skip r (u8_enc n)) (concat (map enc xs)) \<and> record_all step s xs = Inr t)" for n
      by (rule times_iff [OF reads_Nil_skip])
    then show ?thesis by (simp cong: conj_cong)
  qed
  also have "\<dots> \<longleftrightarrow> (\<exists>n xs. n = word_of_nat (length xs) \<and> length xs \<le> cap \<and> list_all ok xs \<and>
      reads r (u8_enc n @ concat (map enc xs)) \<and> r' = skip r (u8_enc n @ concat (map enc xs)) \<and>
      record_all step s xs = Inr t)"
  proof -
    have small: "unat (word_of_nat k :: u8) = k" if "k \<le> cap" for k
      using that cap by (auto simp: unat_of_nat take_bit_nat_eq_self)
    have "unat n \<le> cap \<and> length xs = unat n \<longleftrightarrow> n = word_of_nat (length xs) \<and> length xs \<le> cap"
      for n :: u8 and xs :: "'a list"
      using small [of "length xs"] by (auto simp: word_unat_eq_iff)
    then show ?thesis unfolding reads_append skip_append by (intro iff_exI) blast
  qed
  finally show ?thesis by (simp add: list_enc_def)
qed

lemma list_bind_iff:
  assumes "cap < 256"
  shows "rd_bind (take_list cap (\<lambda>s. rd_bind get (\<lambda>x. rd_check (step s x))) s) f r = Inr (y, r'') \<longleftrightarrow>
    (\<exists>xs. length xs \<le> cap \<and> list_all ok xs \<and> reads r (list_enc enc xs) \<and>
       (\<exists>t. record_all step s xs = Inr t \<and> f t (skip r (list_enc enc xs)) = Inr (y, r'')))"
  unfolding rd_bind_Inr list_iff [OF assms] by blast

lemma list_get:
  assumes "reads r (list_enc enc xs)" and "length xs \<le> cap" and "cap < 256" and "list_all ok xs"
    and "record_all step s xs = Inr t"
  shows "take_list cap (\<lambda>s. rd_bind get (\<lambda>x. rd_check (step s x))) s r = Inr (t, skip r (list_enc enc xs))"
  unfolding list_iff [OF assms(3)] using assms by (intro exI [of _ xs]) simp

lemma list_bind_enc:
  "reads r (list_enc enc xs) \<Longrightarrow> length xs \<le> cap \<Longrightarrow> cap < 256 \<Longrightarrow> list_all ok xs \<Longrightarrow>
   record_all step s xs = Inr t \<Longrightarrow>
   rd_bind (take_list cap (\<lambda>s. rd_bind get (\<lambda>x. rd_check (step s x))) s) f r = f t (skip r (list_enc enc xs))"
  by (simp add: rd_bind_def list_get)

end

lemma list_all_any: "list_all any xs"
  by (simp add: list_all_iff)

section \<open>Recording a list\<close>

definition push_by :: "('a \<Rightarrow> 'k) \<Rightarrow> 'a bounded \<Rightarrow> 'a \<Rightarrow> 'a bounded" where
  "push_by f b x = (if f x \<in> f ` set (items b) then b else push_bounded b x)"

lemma bounded_view:
  "bounded_ok cap b \<Longrightarrow> unat (bl_len b) = length (items b)"
  "bounded_ok cap b \<Longrightarrow> take (length (items b)) (bl_slots b) = items b"
  using items_take [of cap b] length_items [of cap b] by simp_all

lemma push_by_ok: "bounded_ok cap b \<Longrightarrow> bounded_ok cap (push_by f b x)"
  by (simp add: push_by_def bounded_ok_push)

lemma push_by_items:
  "bounded_ok cap b \<Longrightarrow> length (items b) < cap \<Longrightarrow>
   items (push_by f b x) = (if f x \<in> f ` set (items b) then items b else items b @ [x])"
  by (simp add: push_by_def items_push_free)

lemma push_by_all:
  assumes "bounded_ok cap b" and "length (items b) + length xs \<le> cap"
  shows "bounded_ok cap (foldl (push_by f) b xs) \<and>
    set (items (foldl (push_by f) b xs)) \<subseteq> set (items b) \<union> set xs \<and>
    (distinct (map f (items b)) \<longrightarrow> distinct (map f (items (foldl (push_by f) b xs)))) \<and>
    (distinct (map f (items b @ xs)) \<longrightarrow> items (foldl (push_by f) b xs) = items b @ xs)"
  using assms
proof (induction xs arbitrary: b)
  case (Cons x xs)
  let ?b = "push_by f b x"
  have ok: "bounded_ok cap ?b" using Cons.prems(1) by (rule push_by_ok)
  have it: "items ?b = (if f x \<in> f ` set (items b) then items b else items b @ [x])"
    using Cons.prems by (simp add: push_by_items)
  then have "length (items ?b) + length xs \<le> cap" using Cons.prems(2) by simp
  from Cons.IH [OF ok this] show ?case using it by (auto split: if_splits)
qed simp

lemma record_all_pure:
  "record_all (\<lambda>s n. Inr (record_completed s n)) s ns = Inr (s\<lparr>cs_completed := foldl push_bounded (cs_completed s) ns\<rparr>)"
  "record_all (\<lambda>s n. Inr (record_open s n)) s ns = Inr (s\<lparr>cs_open := foldl push_bounded (cs_open s) ns\<rparr>)"
  "record_all (\<lambda>s d. Inr (record_decision s d)) s ds = Inr (s\<lparr>cs_accepted := foldl push_bounded (cs_accepted s) ds\<rparr>)"
  "record_all (\<lambda>s g. Inr (record_fingerprint s g)) s gs =
     Inr (s\<lparr>cs_fingerprints := foldl push_bounded (cs_fingerprints s) gs\<rparr>)"
  by (induction ns arbitrary: s, simp_all add: record_completed_def,
      induction ns arbitrary: s, simp_all add: record_open_def,
      induction ds arbitrary: s, simp_all add: record_decision_def,
      induction gs arbitrary: s, simp_all add: record_fingerprint_def)

lemma record_all_facts:
  "bounded_ok max_facts (cs_facts s) \<Longrightarrow>
   record_all (\<lambda>s f. Inr (record_fact s f)) s fs = Inr (s\<lparr>cs_facts := foldl (push_by (\<lambda>x. x)) (cs_facts s) fs\<rparr>)"
proof (induction fs arbitrary: s)
  case (Cons f fs)
  have "record_fact s f = s\<lparr>cs_facts := push_by (\<lambda>x. x) (cs_facts s) f\<rparr>"
    using Cons.prems by (simp add: record_fact_def Let_def push_by_def bounded_view [of max_facts])
  then show ?case using Cons push_by_ok [of max_facts "cs_facts s" "\<lambda>x. x" f] by simp
qed simp

lemma record_all_failed:
  "bounded_ok max_failed_paths (cs_failed s) \<Longrightarrow> length (items (cs_failed s)) + length ps \<le> max_failed_paths \<Longrightarrow>
   record_all (\<lambda>s p. map_err (\<lambda>_. E_SnapshotCorrupt) (record_failed_path s p)) s ps =
     Inr (s\<lparr>cs_failed := foldl (push_by (\<lambda>x. x)) (cs_failed s) ps\<rparr>)"
proof (induction ps arbitrary: s)
  case (Cons p ps)
  have "record_failed_path s p = Inr (s\<lparr>cs_failed := push_by (\<lambda>x. x) (cs_failed s) p\<rparr>)"
    using Cons.prems
    by (simp add: record_failed_path_def Let_def push_by_def bounded_view [of max_failed_paths])
  moreover have "length (items (push_by (\<lambda>x. x) (cs_failed s) p)) + length ps \<le> max_failed_paths"
    using Cons.prems by (simp add: push_by_items [of max_failed_paths])
  ultimately show ?case using Cons push_by_ok [of max_failed_paths "cs_failed s" "\<lambda>x. x" p] by simp
qed simp

lemma record_all_pending:
  "bounded_ok max_pending (cs_pending s) \<Longrightarrow> length (items (cs_pending s)) + length is \<le> max_pending \<Longrightarrow>
   record_all (\<lambda>s i. map_err (\<lambda>_. E_SnapshotCorrupt) (record_pending s i)) s is =
     Inr (s\<lparr>cs_pending := foldl (push_by pending_key) (cs_pending s) is\<rparr>)"
proof (induction "is" arbitrary: s)
  case (Cons i "is")
  have "list_ex (same_obligation (pd_kind i) (pd_seq i)) xs \<longleftrightarrow> pending_key i \<in> pending_key ` set xs" for xs
    by (auto simp: same_obligation_key list_ex_iff pending_key_def [of i] rev_image_eqI)
  then have "record_pending s i = Inr (s\<lparr>cs_pending := push_by pending_key (cs_pending s) i\<rparr>)"
    using Cons.prems
    by (simp add: record_pending_def Let_def push_by_def bounded_view [of max_pending])
  moreover have "length (items (push_by pending_key (cs_pending s) i)) + length is \<le> max_pending"
    using Cons.prems by (simp add: push_by_items [of max_pending])
  ultimately show ?case using Cons push_by_ok [of max_pending "cs_pending s" pending_key i] by simp
qed simp

text \<open>The state a snapshot decodes to.\<close>

definition state_of :: "snapshot \<Rightarrow> compact_state" where
  "state_of n =
     (let s = compact_state_new (sn_objective n) (sn_budgets n) (sn_versions n) in
      s\<lparr>cs_completed := foldl push_bounded (cs_completed s) (sn_completed n),
        cs_open := foldl push_bounded (cs_open s) (sn_open n),
        cs_accepted := foldl push_bounded (cs_accepted s) (sn_accepted n),
        cs_facts := foldl (push_by (\<lambda>x. x)) (cs_facts s) (sn_facts n),
        cs_failed := foldl (push_by (\<lambda>x. x)) (cs_failed s) (sn_failed n),
        cs_pending := foldl (push_by pending_key) (cs_pending s) (sn_pending n),
        cs_fingerprints := foldl push_bounded (cs_fingerprints s) (sn_fingerprints n)\<rparr>)"

lemma state_of_ok:
  assumes "snapshot_wire n"
  shows "cs_ok (state_of n)"
proof -
  let ?s = "compact_state_new (sn_objective n) (sn_budgets n) (sn_versions n)"
  have new: "cs_ok ?s" by (rule cs_ok_new)
  have empty: "items (cs_completed ?s) = []" "items (cs_open ?s) = []" "items (cs_facts ?s) = []"
    "items (cs_failed ?s) = []" "items (cs_pending ?s) = []"
    by (simp_all add: compact_state_new_def)
  show ?thesis
    using new assms push_by_all [of max_facts "cs_facts ?s" "sn_facts n" "\<lambda>x. x"]
      push_by_all [of max_failed_paths "cs_failed ?s" "sn_failed n" "\<lambda>x. x"]
      push_by_all [of max_pending "cs_pending ?s" "sn_pending n" pending_key]
      fixed_list.push_all [of max_completed "cs_completed ?s" "sn_completed n"]
      fixed_list.push_all [of max_open "cs_open ?s" "sn_open n"]
      fixed_list.push_all [of max_accepted_decisions "cs_accepted ?s" "sn_accepted n"]
      fixed_list.push_all [of max_fingerprints "cs_fingerprints ?s" "sn_fingerprints n"]
    by (auto simp: cs_ok_def state_of_def Let_def empty snapshot_wire_def list_all_lastn)
      (auto simp: list_all_iff)
qed

lemma snapshot_of_state:
  assumes "cs_ok s"
  shows "snapshot_of (state_of (snapshot_of s)) = snapshot_of s"
proof -
  let ?s = "compact_state_new (cs_objective_digest s) (cs_budgets s) (cs_versions s)"
  have new: "cs_ok ?s" by (rule cs_ok_new)
  have empty: "items (cs_completed ?s) = []" "items (cs_open ?s) = []" "items (cs_facts ?s) = []"
    "items (cs_failed ?s) = []" "items (cs_pending ?s) = []" "items (cs_accepted ?s) = []"
    "items (cs_fingerprints ?s) = []"
    by (simp_all add: compact_state_new_def)
  have own: "cs_objective_digest ?s = cs_objective_digest s" "cs_budgets ?s = cs_budgets s"
    "cs_versions ?s = cs_versions s"
    by (simp_all add: compact_state_new_def)
  show ?thesis
    using new assms
      fixed_list.push_all_fits [of max_completed "cs_completed ?s" "items (cs_completed s)"]
      fixed_list.push_all_fits [of max_open "cs_open ?s" "items (cs_open s)"]
      fixed_list.push_all_fits [of max_accepted_decisions "cs_accepted ?s" "items (cs_accepted s)"]
      fixed_list.push_all_fits [of max_fingerprints "cs_fingerprints ?s" "items (cs_fingerprints s)"]
      push_by_all [of max_facts "cs_facts ?s" "items (cs_facts s)" "\<lambda>x. x"]
      push_by_all [of max_failed_paths "cs_failed ?s" "items (cs_failed s)" "\<lambda>x. x"]
      push_by_all [of max_pending "cs_pending ?s" "items (cs_pending s)" pending_key]
    by (simp add: cs_ok_def state_of_def Let_def empty own snapshot_of_def length_items_le)
qed

section \<open>Decoding\<close>

lemma snapshot_verify_iff: "snapshot_verify bs = Inr () \<longleftrightarrow> (\<exists>p. bs = sealed p)"
proof -
  have "snapshot_verify bs = checkpoint_verify bs"
  proof (cases "length bs < 1 + checksum_len")
    case False
    then have stop: "length bs - checksum_len + checksum_len = length bs" by simp
    show ?thesis
      unfolding snapshot_verify_def checkpoint_verify_def snapshot_version_def checkpoint_version_def Let_def stop ..
  qed (simp add: snapshot_verify_def checkpoint_verify_def)
  then show ?thesis by (simp add: checkpoint_verify_iff sealed_def snapshot_version_def checkpoint_version_def)
qed

definition sealed_reader :: "bytes \<Rightarrow> reader" where
  "sealed_reader p = \<lparr>rd_bytes = sealed p, rd_pos = 1, rd_end = length (sealed p) - checksum_len\<rparr>"

lemma sealed_reads:
  "reads (sealed_reader p) q \<and> rd_pos (skip (sealed_reader p) q) = rd_end (sealed_reader p) \<longleftrightarrow> q = p"
  using reads_to_end [of "sealed_reader p" q] by (auto simp: sealed_reader_def sealed_def checksum_len_def slice_def)

lemma sealed_reads_within: "reads (sealed_reader p) p"
  using sealed_reads by blast

text \<open>The body of the decoder, between the verification and the check for trailing bytes.\<close>

definition take_snapshot :: "reader \<Rightarrow> error + (compact_state \<times> reader)" where
  "take_snapshot =
     rd_bind take_digest (\<lambda>objective. rd_bind take_budget (\<lambda>b. rd_bind take_versions (\<lambda>v.
     rd_bind (take_list max_completed
       (\<lambda>s. rd_bind rd_note (\<lambda>n. rd_check (Inr (record_completed s n)))) (compact_state_new objective b v)) (\<lambda>s.
     rd_bind (take_list max_open (\<lambda>s. rd_bind rd_note (\<lambda>n. rd_check (Inr (record_open s n)))) s) (\<lambda>s.
     rd_bind (take_list max_accepted_decisions
       (\<lambda>s. rd_bind take_digest (\<lambda>d. rd_check (Inr (record_decision s d)))) s) (\<lambda>s.
     rd_bind (take_list max_facts (\<lambda>s. rd_bind take_fact (\<lambda>f. rd_check (Inr (record_fact s f)))) s) (\<lambda>s.
     rd_bind (take_list max_failed_paths (\<lambda>s. rd_bind take_failed_path (\<lambda>p.
       rd_check (map_err (\<lambda>_. E_SnapshotCorrupt) (record_failed_path s p)))) s) (\<lambda>s.
     rd_bind (take_list max_pending (\<lambda>s. rd_bind take_pending (\<lambda>i.
       rd_check (map_err (\<lambda>_. E_SnapshotCorrupt) (record_pending s i)))) s) (\<lambda>s.
     take_list max_fingerprints (\<lambda>s. rd_bind rd_u64 (\<lambda>f. rd_check (Inr (record_fingerprint s f)))) s)))))))))"

lemma snapshot_decode_take:
  "snapshot_decode bs = and_then (snapshot_verify bs) (\<lambda>_.
     and_then (take_snapshot \<lparr>rd_bytes = bs, rd_pos = 1, rd_end = length bs - checksum_len\<rparr>) (\<lambda>(s, r).
       if rd_pos r \<noteq> rd_end r then Inl E_SnapshotCorrupt else Inr s))"
  by (simp add: snapshot_decode_def take_snapshot_def rd_return_check)

lemma new_stores:
  "bounded_ok max_facts (cs_facts (compact_state_new d b v))"
  "bounded_ok max_failed_paths (cs_failed (compact_state_new d b v))"
  "bounded_ok max_pending (cs_pending (compact_state_new d b v))"
  "items (cs_failed (compact_state_new d b v)) = []" "items (cs_pending (compact_state_new d b v)) = []"
  using cs_ok_new [of d b v] by (simp_all add: cs_ok_def) (simp_all add: compact_state_new_def)

lemma caps_small:
  "max_completed < 256" "max_open < 256" "max_accepted_decisions < 256" "max_facts < 256"
  "max_failed_paths < 256" "max_pending < 256" "max_fingerprints < 256"
  by (simp_all add: max_defs)

lemma take_snapshot_iff:
  "take_snapshot r = Inr (s, r') \<longleftrightarrow>
     (\<exists>n. snapshot_wire n \<and> reads r (snapshot_enc n) \<and> r' = skip r (snapshot_enc n) \<and> s = state_of n)"
  (is "?lhs \<longleftrightarrow> ?rhs")
proof
  assume ?lhs
  then obtain d b v cs os ds fs ps qs gs where
    "snapshot_wire \<lparr>sn_objective = d, sn_budgets = b, sn_versions = v, sn_completed = cs, sn_open = os,
       sn_accepted = ds, sn_facts = fs, sn_failed = ps, sn_pending = qs, sn_fingerprints = gs\<rparr> \<and>
     reads r (snapshot_enc \<lparr>sn_objective = d, sn_budgets = b, sn_versions = v, sn_completed = cs, sn_open = os,
       sn_accepted = ds, sn_facts = fs, sn_failed = ps, sn_pending = qs, sn_fingerprints = gs\<rparr>) \<and>
     r' = skip r (snapshot_enc \<lparr>sn_objective = d, sn_budgets = b, sn_versions = v, sn_completed = cs, sn_open = os,
       sn_accepted = ds, sn_facts = fs, sn_failed = ps, sn_pending = qs, sn_fingerprints = gs\<rparr>) \<and>
     s = state_of \<lparr>sn_objective = d, sn_budgets = b, sn_versions = v, sn_completed = cs, sn_open = os,
       sn_accepted = ds, sn_facts = fs, sn_failed = ps, sn_pending = qs, sn_fingerprints = gs\<rparr>"
    unfolding take_snapshot_def digest_c.bind_iff budget_c.bind_iff versions_c.bind_iff
      note_c.list_bind_iff [OF caps_small(1)] note_c.list_bind_iff [OF caps_small(2)]
      digest_c.list_bind_iff [OF caps_small(3)] fact_c.list_bind_iff [OF caps_small(4)]
      failed_path_c.list_bind_iff [OF caps_small(5)] pending_c.list_bind_iff [OF caps_small(6)]
      u64.list_iff [OF caps_small(7)]
    by (auto simp: record_all_pure record_all_facts record_all_failed record_all_pending new_stores
        snapshot_wire_def snapshot_enc_def state_of_def Let_def reads_append skip_append)
  then show ?rhs by blast
next
  assume ?rhs
  then obtain n where n: "snapshot_wire n" "reads r (snapshot_enc n)" "r' = skip r (snapshot_enc n)" "s = state_of n"
    by blast
  from n(1,2) show ?lhs
    unfolding n(3,4) snapshot_enc_def snapshot_wire_def reads_append skip_append
    by (elim conjE) (simp add: take_snapshot_def digest_c.bind_enc budget_c.bind_enc versions_c.bind_enc
        note_c.list_bind_enc digest_c.list_bind_enc fact_c.list_bind_enc failed_path_c.list_bind_enc
        pending_c.list_bind_enc u64.list_get caps_small list_all_any record_all_pure record_all_facts
        record_all_failed record_all_pending new_stores state_of_def Let_def)
qed

lemma snapshot_decode_iff:
  "snapshot_decode bs = Inr s \<longleftrightarrow> (\<exists>n. snapshot_wire n \<and> bs = sealed (snapshot_enc n) \<and> s = state_of n)"
proof -
  have "snapshot_decode bs = Inr s \<longleftrightarrow> (\<exists>p r. bs = sealed p \<and> take_snapshot (sealed_reader p) = Inr (s, r) \<and>
      rd_pos r = rd_end r)"
    unfolding snapshot_decode_take and_then_eq_Inr sealed_reader_def
    by (auto simp: result_simps snapshot_verify_iff split: if_splits)
  also have "\<dots> \<longleftrightarrow> (\<exists>p n. bs = sealed p \<and> snapshot_wire n \<and> s = state_of n \<and>
      reads (sealed_reader p) (snapshot_enc n) \<and>
      rd_pos (skip (sealed_reader p) (snapshot_enc n)) = rd_end (sealed_reader p))"
    unfolding take_snapshot_iff by (intro iff_exI) auto
  finally show ?thesis unfolding sealed_reads by blast
qed

section \<open>Properties\<close>

text \<open>C23: a compact state that is well formed is written exactly when the buffer holds its encoded
  length, and what was written decodes to a well-formed state with the same view: objective,
  budgets, versions and every list in order.\<close>

theorem snapshot_roundtrip:
  assumes "cs_ok s"
  shows "if snapshot_encoded_len s \<le> length out
    then \<exists>bs t. snapshot_encode s out = Inr (bs @ drop (length bs) out, length bs) \<and>
           length bs = snapshot_encoded_len s \<and> snapshot_decode bs = Inr t \<and> cs_ok t \<and>
           snapshot_of t = snapshot_of s
    else snapshot_encode s out = Inl E_SnapshotBufferTooSmall"
proof (cases "snapshot_encoded_len s \<le> length out")
  case True
  let ?bs = "sealed (snapshot_enc (snapshot_of s))"
  have "snapshot_encode s out = Inr (?bs @ drop (length ?bs) out, length ?bs)"
    using snapshot_encode_result [OF assms True] by (simp add: Let_def)
  moreover have "snapshot_decode ?bs = Inr (state_of (snapshot_of s))"
    using snapshot_wire_of [OF assms] snapshot_decode_iff by blast
  ultimately show ?thesis
    using True snapshot_len snapshot_of_state [OF assms] state_of_ok [OF snapshot_wire_of [OF assms]] by auto
qed (simp add: snapshot_encode_def)

definition sample_state :: compact_state where
  "sample_state = record_fact (record_completed
     (compact_state_new (Digest 7) \<lparr>b_model_turns = 3, b_input_tokens = 10, b_output_tokens = 10,
        b_elapsed_ms = 100, b_radio_bytes = 0, b_mutations = 1, b_consecutive_errors = 2\<rparr>
        \<lparr>v_workflow = 1, v_model = Digest 1, v_catalog = Digest 2, v_policy = Digest 3\<rparr>)
     (note_truncated_from [65, 66])) \<lparr>f_text = note_truncated_from [67], f_source_seq = 4\<rparr>"

lemma sample_state_ok: "cs_ok sample_state"
  by (simp add: sample_state_def record_fact_ok record_completed_ok cs_ok_new note_truncated_ok)

theorem snapshot_roundtrip_witness:
  "cs_ok sample_state \<and>
   (\<exists>bs t. snapshot_encode sample_state (replicate (snapshot_encoded_len sample_state) 0) =
           Inr (bs @ drop (length bs) (replicate (snapshot_encoded_len sample_state) 0), length bs) \<and>
         length bs = snapshot_encoded_len sample_state \<and> snapshot_decode bs = Inr t \<and> cs_ok t \<and>
         snapshot_of t = snapshot_of sample_state)"
  using snapshot_roundtrip [OF sample_state_ok, of "replicate (snapshot_encoded_len sample_state) 0"] sample_state_ok
  by simp

text \<open>The view a decoder reads back: each repeated fact, failed path or obligation key is recorded once, at
  its first place.\<close>

definition keep_first :: "('a \<Rightarrow> 'k) \<Rightarrow> 'a list \<Rightarrow> 'a list" where
  "keep_first key xs = foldl (\<lambda>ys x. if key x \<in> key ` set ys then ys else ys @ [x]) [] xs"

definition without_repeats :: "snapshot \<Rightarrow> snapshot" where
  "without_repeats n =
     n\<lparr>sn_facts := keep_first id (sn_facts n), sn_failed := keep_first id (sn_failed n),
       sn_pending := keep_first pending_key (sn_pending n)\<rparr>"

lemma keep_first_items:
  assumes "bounded_ok cap b" "length (items b) + length xs \<le> cap"
  shows "items (foldl (push_by f) b xs) = foldl (\<lambda>ys x. if f x \<in> f ` set ys then ys else ys @ [x]) (items b) xs"
  using assms
proof (induction xs arbitrary: b)
  case (Cons x xs)
  then have it: "items (push_by f b x) = (if f x \<in> f ` set (items b) then items b else items b @ [x])"
    by (intro push_by_items) auto
  then have len: "length (items (push_by f b x)) + length xs \<le> cap" using Cons.prems(2) by simp
  show ?case unfolding foldl.simps Cons.IH [OF push_by_ok [OF Cons.prems(1)] len] it ..
qed simp

lemma view_state_of: "snapshot_wire n \<Longrightarrow> snapshot_of (state_of n) = without_repeats n"
proof -
  assume n: "snapshot_wire n"
  have new: "bounded_ok cap (bounded_new cap d)" if "0 < cap" "cap < 255" for cap and d :: 'x
    using that by (rule bounded_ok_new)
  have firsts: "items (foldl (push_by f) (bounded_new cap d) xs) = keep_first f xs"
    if "0 < cap" "cap < 255" "length xs \<le> cap" for f :: "'x \<Rightarrow> 'k" and cap d xs
    using keep_first_items [OF bounded_ok_new [OF that(1,2)], of d xs f] that(3) by (simp add: keep_first_def)
  have alls: "items (foldl push_bounded (bounded_new cap d) xs) = xs"
    if "0 < cap" "cap < 255" "length xs \<le> cap" for cap and d :: 'x and xs
    using fixed_list.push_all_fits [OF bounded_ok_new [OF that(1,2)], of d xs] that(3) by simp
  show ?thesis
    using n by (simp add: state_of_def Let_def snapshot_of_def without_repeats_def compact_state_new_def snapshot_wire_def
        firsts alls max_defs id_def)
qed

text \<open>C24: the decoder accepts exactly the sealed layouts of snapshots whose lists are within their
  capacities, whatever the bytes say, and what it returns is a well-formed state: bounded, without repeated
  facts or failed paths, with one obligation per key, and with the view of the layout but for such repeats,
  of which it keeps the first.\<close>

theorem snapshot_decodes_exactly:
  "case snapshot_decode bs of
     Inl e \<Rightarrow> \<not> (\<exists>n. snapshot_wire n \<and> bs = sealed (snapshot_enc n))
   | Inr s \<Rightarrow> cs_ok s \<and> (\<exists>n. snapshot_wire n \<and> bs = sealed (snapshot_enc n) \<and> snapshot_of s = without_repeats n)"
proof (cases "snapshot_decode bs")
  case (Inl e)
  then show ?thesis using snapshot_decode_iff [of bs] by auto
next
  case (Inr s)
  then show ?thesis using snapshot_decode_iff [of bs s] state_of_ok view_state_of by auto
qed

end
