(* ===== verification/Json.thy ===== *)
theory Json
  imports Vocabulary
begin

text \<open>
  The strict streaming JSON parser (\<open>esper-protocol/src/json.rs\<close>). A composite value of the source is
  a cursor that borrows the parser; here the value says which cursor to open, and the parser is
  passed along. The lemmas state every step in terms of the bytes that remain, both ways: what a
  step that succeeds has read, and that it succeeds on such bytes.
\<close>

section \<open>The parser\<close>

definition max_json_depth :: u8 where "max_json_depth = 3"
definition max_object_keys :: nat where "max_object_keys = 8"

datatype json_value =
    J_Null
  | J_Bool bool
  | J_Number bytes
  | J_Str bytes
  | J_Array
  | J_Object

record parser =
  jp_buf :: bytes
  jp_pos :: nat
  jp_depth :: u8

definition parser_new :: "bytes \<Rightarrow> parser" where
  "parser_new buf = \<lparr>jp_buf = buf, jp_pos = 0, jp_depth = 0\<rparr>"

definition parser_finish :: "parser \<Rightarrow> json_error + unit" where
  "parser_finish p = (if jp_pos p = length (jp_buf p) then Inr () else Inl J_TrailingBytes)"

definition peek :: "parser \<Rightarrow> u8 option" where
  "peek p = nth_of (jp_buf p) (jp_pos p)"

definition step_over :: "parser \<Rightarrow> parser" where
  "step_over p = p\<lparr>jp_pos := jp_pos p + 1\<rparr>"

definition bump :: "parser \<Rightarrow> (u8 \<times> parser) option" where
  "bump p = (case peek p of None \<Rightarrow> None | Some b \<Rightarrow> Some (b, step_over p))"

text \<open>The loops that advance while the next byte is of a class.\<close>

lemma peek_in: "peek p = Some b \<Longrightarrow> jp_pos p < length (jp_buf p)"
  by (simp add: peek_def nth_of_def split: if_splits)

function skip_while :: "(u8 \<Rightarrow> bool) \<Rightarrow> parser \<Rightarrow> parser" where
  "skip_while P p =
     (case peek p of
        Some b \<Rightarrow> if P b then skip_while P (step_over p) else p
      | None \<Rightarrow> p)"
  by pat_completeness auto

termination
  by (relation "measure (\<lambda>(P, p). length (jp_buf p) - jp_pos p)")
    (auto dest!: peek_in simp: step_over_def)

declare skip_while.simps [simp del]

definition is_ws :: "u8 \<Rightarrow> bool" where
  "is_ws b \<longleftrightarrow> b = 0x20 \<or> b = 0x09 \<or> b = 0x0a \<or> b = 0x0d"

definition skip_ws :: "parser \<Rightarrow> parser" where
  "skip_ws p = skip_while is_ws p"

definition enter_composite :: "parser \<Rightarrow> json_error + parser" where
  "enter_composite p =
     (if max_json_depth \<le> jp_depth p then Inl J_DepthExceeded else Inr (p\<lparr>jp_depth := jp_depth p + 1\<rparr>))"

fun parse_literal :: "bytes \<Rightarrow> json_value \<Rightarrow> parser \<Rightarrow> json_error + (json_value \<times> parser)" where
  "parse_literal [] v p = Inr (v, p)"
| "parse_literal (x # xs) v p =
     (case bump p of
        Some (b, p') \<Rightarrow> if b = x then parse_literal xs v p' else Inl J_UnexpectedByte
      | None \<Rightarrow> Inl J_UnexpectedByte)"

section \<open>Strings\<close>

definition is_short_escape :: "u8 \<Rightarrow> bool" where
  "is_short_escape b \<longleftrightarrow> b \<in> set (str_bytes [CHR 0x22, CHR 0x5c, CHR 0x2f] @ str_bytes ''bfnrt'')"

fun parse_hex :: "nat \<Rightarrow> parser \<Rightarrow> json_error + parser" where
  "parse_hex 0 p = Inr p"
| "parse_hex (Suc n) p =
     (case bump p of
        Some (c, p') \<Rightarrow> if is_ascii_hexdigit c then parse_hex n p' else Inl J_BadEscape
      | None \<Rightarrow> Inl J_BadEscape)"

definition parse_escape :: "parser \<Rightarrow> json_error + parser" where
  "parse_escape p =
     (case bump p of
        Some (c, p') \<Rightarrow>
          if is_short_escape c then Inr p'
          else if c = 0x75 then parse_hex 4 p'
          else Inl J_BadEscape
      | None \<Rightarrow> Inl J_BadEscape)"

lemma bump_pos: "bump p = Some (b, p') \<Longrightarrow> jp_buf p' = jp_buf p \<and> jp_pos p' = Suc (jp_pos p) \<and>
    jp_depth p' = jp_depth p \<and> jp_pos p < length (jp_buf p)"
  by (auto simp: bump_def step_over_def dest: peek_in split: option.splits)

lemma parse_hex_pos: "parse_hex n p = Inr p' \<Longrightarrow> jp_buf p' = jp_buf p \<and> jp_pos p \<le> jp_pos p' \<and> jp_depth p' = jp_depth p"
  by (induction n p rule: parse_hex.induct) (fastforce dest: bump_pos split: option.splits if_splits)+

lemma parse_escape_pos: "parse_escape p = Inr p' \<Longrightarrow> jp_buf p' = jp_buf p \<and> jp_pos p \<le> jp_pos p' \<and> jp_depth p' = jp_depth p"
  by (fastforce simp: parse_escape_def dest: bump_pos parse_hex_pos split: option.splits if_splits)

text \<open>The body of \<open>parse_string\<close> after the opening quote; \<open>start\<close> is where the content begins.\<close>

function string_loop :: "nat \<Rightarrow> parser \<Rightarrow> json_error + (bytes \<times> parser)" where
  "string_loop start p =
     (case bump p of
        None \<Rightarrow> Inl J_UnterminatedString
      | Some (c, p') \<Rightarrow>
          if c = 0x22
          then and_then (ok_or J_UnexpectedEnd (slice (jp_buf p') start (jp_pos p' - 1))) (\<lambda>s. Inr (s, p'))
          else if c = 0x5c then and_then (parse_escape p') (\<lambda>p''. string_loop start p'')
          else if c < 0x20 then Inl J_UnexpectedByte
          else string_loop start p')"
  by pat_completeness auto

termination
  by (relation "measure (\<lambda>(start, p). length (jp_buf p) - jp_pos p)")
    (auto dest!: bump_pos parse_escape_pos)

declare string_loop.simps [simp del]

definition parse_string :: "parser \<Rightarrow> json_error + (bytes \<times> parser)" where
  "parse_string p = (let p' = step_over p in string_loop (jp_pos p') p')"

section \<open>Numbers\<close>

definition skip_digits :: "parser \<Rightarrow> parser" where
  "skip_digits p = skip_while is_ascii_digit p"

definition next_digit :: "parser \<Rightarrow> bool" where
  "next_digit p \<longleftrightarrow> (case peek p of Some d \<Rightarrow> is_ascii_digit d | None \<Rightarrow> False)"

text \<open>One digit at least, then all that follow.\<close>

definition digits1 :: "parser \<Rightarrow> json_error + parser" where
  "digits1 p =
     (case bump p of
        Some (c, p') \<Rightarrow> if is_ascii_digit c then Inr (skip_digits p') else Inl J_BadNumber
      | None \<Rightarrow> Inl J_BadNumber)"

definition integer_part :: "parser \<Rightarrow> json_error + parser" where
  "integer_part p =
     (case bump p of
        Some (c, p') \<Rightarrow>
          if c = 0x30 then (if next_digit p' then Inl J_BadNumber else Inr p')
          else if is_ascii_digit c then Inr (skip_digits p')
          else Inl J_BadNumber
      | None \<Rightarrow> Inl J_BadNumber)"

definition fraction_part :: "parser \<Rightarrow> json_error + parser" where
  "fraction_part p = (if peek p = Some 0x2e then digits1 (step_over p) else Inr p)"

definition exponent_part :: "parser \<Rightarrow> json_error + parser" where
  "exponent_part p =
     (if peek p = Some 0x65 \<or> peek p = Some 0x45
      then let p1 = step_over p in
        digits1 (if peek p1 = Some 0x2b \<or> peek p1 = Some 0x2d then step_over p1 else p1)
      else Inr p)"

definition parse_number :: "parser \<Rightarrow> json_error + (bytes \<times> parser)" where
  "parse_number p =
     (let start = jp_pos p in
      and_then (integer_part (if peek p = Some 0x2d then step_over p else p)) (\<lambda>p1.
      and_then (fraction_part p1) (\<lambda>p2.
      and_then (exponent_part p2) (\<lambda>p3.
      and_then (ok_or J_UnexpectedEnd (slice (jp_buf p3) start (jp_pos p3))) (\<lambda>raw. Inr (raw, p3))))))"

section \<open>Values and cursors\<close>

definition parse_value :: "parser \<Rightarrow> json_error + (json_value \<times> parser)" where
  "parse_value p0 =
     (let p = skip_ws p0 in
      case peek p of
        None \<Rightarrow> Inl J_UnexpectedEnd
      | Some c \<Rightarrow>
          if c = 0x6e then parse_literal (str_bytes ''null'') J_Null p
          else if c = 0x74 then parse_literal (str_bytes ''true'') (J_Bool True) p
          else if c = 0x66 then parse_literal (str_bytes ''false'') (J_Bool False) p
          else if c = 0x22 then and_then (parse_string p) (\<lambda>(s, p'). Inr (J_Str s, p'))
          else if c = 0x5b then and_then (enter_composite p) (\<lambda>p'. Inr (J_Array, step_over p'))
          else if c = 0x7b then and_then (enter_composite p) (\<lambda>p'. Inr (J_Object, step_over p'))
          else if c = 0x2d \<or> c = 0x2b \<or> c = 0x2e \<or> is_ascii_digit c
          then and_then (parse_number p) (\<lambda>(raw, p'). Inr (J_Number raw, p'))
          else Inl J_UnexpectedByte)"

text \<open>\<open>close\<close>: consume the bracket the caller peeked and leave the level.\<close>

definition close_composite :: "parser \<Rightarrow> parser" where
  "close_composite p = p\<lparr>jp_pos := jp_pos p + 1, jp_depth := jp_depth p - 1\<rparr>"

record object_cursor =
  oc_keys :: "bytes option list"
  oc_len :: nat
  oc_first :: bool
  oc_done :: bool

definition object_cursor_new :: object_cursor where
  "object_cursor_new =
     \<lparr>oc_keys = replicate max_object_keys None, oc_len = 0, oc_first = True, oc_done = False\<rparr>"

record array_cursor =
  ac_first :: bool
  ac_done :: bool

definition array_cursor_new :: array_cursor where
  "array_cursor_new = \<lparr>ac_first = True, ac_done = False\<rparr>"

text \<open>Before an entry or a value: the closing bracket, or the comma that must precede all but the
  first. The result says whether the composite closes here.\<close>

definition before_next :: "u8 \<Rightarrow> bool \<Rightarrow> parser \<Rightarrow> json_error + (bool \<times> parser)" where
  "before_next bracket first p0 =
     (let p = skip_ws p0 in
      if first then Inr (peek p = Some bracket, p)
      else case peek p of
             None \<Rightarrow> Inl J_UnexpectedEnd
           | Some c \<Rightarrow>
               if c = 0x2c then Inr (False, skip_ws (step_over p))
               else if c = bracket then Inr (True, p)
               else Inl J_UnexpectedByte)"

definition entry_key :: "object_cursor \<Rightarrow> parser \<Rightarrow> json_error + (bytes \<times> object_cursor \<times> parser)" where
  "entry_key c p =
     (case peek p of
        None \<Rightarrow> Inl J_UnexpectedEnd
      | Some b \<Rightarrow>
          if b \<noteq> 0x22 then Inl J_UnexpectedByte
          else and_then (parse_string p) (\<lambda>(key, p').
            if Some key \<in> set (take (oc_len c) (oc_keys c)) then Inl J_DuplicateKey
            else if length (oc_keys c) \<le> oc_len c then Inl J_TooManyKeys
            else Inr (key, c\<lparr>oc_keys := (oc_keys c)[oc_len c := Some key], oc_len := oc_len c + 1\<rparr>, p')))"

definition next_entry ::
  "object_cursor \<Rightarrow> parser \<Rightarrow> json_error + ((bytes \<times> json_value) option \<times> object_cursor \<times> parser)" where
  "next_entry c p =
     (if oc_done c then Inr (None, c, p)
      else and_then (before_next 0x7d (oc_first c) p) (\<lambda>(closes, p1).
        if closes then Inr (None, c\<lparr>oc_done := True\<rparr>, close_composite p1)
        else and_then (entry_key c p1) (\<lambda>(key, c', p2).
          case bump (skip_ws p2) of
            Some (b, p3) \<Rightarrow>
              if b = 0x3a
              then and_then (parse_value p3) (\<lambda>(v, p4). Inr (Some (key, v), c'\<lparr>oc_first := False\<rparr>, p4))
              else Inl J_UnexpectedByte
          | None \<Rightarrow> Inl J_UnexpectedByte)))"

definition next_value :: "array_cursor \<Rightarrow> parser \<Rightarrow> json_error + (json_value option \<times> array_cursor \<times> parser)" where
  "next_value c p =
     (if ac_done c then Inr (None, c, p)
      else and_then (before_next 0x5d (ac_first c) p) (\<lambda>(closes, p1).
        if closes then Inr (None, c\<lparr>ac_done := True\<rparr>, close_composite p1)
        else and_then (parse_value p1) (\<lambda>(v, p2). Inr (Some v, c\<lparr>ac_first := False\<rparr>, p2))))"

section \<open>Digit strings\<close>

text \<open>The loop of \<open>parse_u8\<close> and \<open>parse_u16\<close>, over a type wide enough for one more digit.\<close>

fun digits_loop :: "'a::len word \<Rightarrow> 'a word \<Rightarrow> bytes \<Rightarrow> json_error + 'a word" where
  "digits_loop limit acc [] = Inr acc"
| "digits_loop limit acc (b # bs) =
     (if \<not> is_ascii_digit b then Inl J_BadNumber
      else let acc' = acc * 10 + ucast (b - 0x30) in
        if limit < acc' then Inl J_BadNumber else digits_loop limit acc' bs)"

definition parse_u8 :: "bytes \<Rightarrow> json_error + u8" where
  "parse_u8 ds =
     (if ds = [] \<or> 3 < length ds then Inl J_BadNumber
      else and_then (digits_loop (255 :: u16) 0 ds) (\<lambda>v. ok_or J_BadNumber (try_from (unat v))))"

definition parse_u16 :: "bytes \<Rightarrow> json_error + u16" where
  "parse_u16 ds =
     (if ds = [] \<or> 5 < length ds then Inl J_BadNumber
      else and_then (digits_loop (65535 :: u32) 0 ds) (\<lambda>v. ok_or J_BadNumber (try_from (unat v))))"

section \<open>The bytes that remain\<close>

definition ahead :: "parser \<Rightarrow> bytes \<Rightarrow> bool" where
  "ahead p xs \<longleftrightarrow> jp_pos p \<le> length (jp_buf p) \<and> drop (jp_pos p) (jp_buf p) = xs"

definition past :: "parser \<Rightarrow> bytes \<Rightarrow> parser" where
  "past p xs = p\<lparr>jp_pos := jp_pos p + length xs\<rparr>"

lemma ahead_new: "ahead (parser_new xs) xs"
  by (simp add: ahead_def parser_new_def)

lemma ahead_unique: "ahead p xs \<Longrightarrow> ahead p ys \<Longrightarrow> xs = ys"
  by (simp add: ahead_def)

lemma ahead_past: "ahead p (as @ bs) \<Longrightarrow> ahead (past p as) bs"
proof -
  assume "ahead p (as @ bs)"
  then have le: "jp_pos p \<le> length (jp_buf p)" and eq: "drop (jp_pos p) (jp_buf p) = as @ bs"
    by (simp_all add: ahead_def)
  from arg_cong [OF eq, of length] le have "jp_pos p + length as \<le> length (jp_buf p)" by simp
  moreover have "drop (jp_pos p + length as) (jp_buf p) = bs"
    using arg_cong [OF eq, of "drop (length as)"] by (simp add: add.commute)
  ultimately show ?thesis by (simp add: ahead_def past_def)
qed

lemma ahead_Cons: "ahead p (b # bs) \<Longrightarrow> ahead (past p [b]) bs"
  using ahead_past [of p "[b]" bs] by simp

lemma past_append: "past p (as @ bs) = past (past p as) bs"
  by (simp add: past_def add.assoc)

lemma past_past [simp]: "past (past p as) bs = past p (as @ bs)"
  by (simp add: past_append)

lemma past_Nil [simp]: "past p [] = p"
  by (simp add: past_def)

lemma past_fields [simp]:
  "jp_buf (past p xs) = jp_buf p" "jp_depth (past p xs) = jp_depth p" "jp_pos (past p xs) = jp_pos p + length xs"
  by (simp_all add: past_def)

lemma step_over_past: "step_over p = past p [b]"
  by (simp add: step_over_def past_def)

lemma ahead_slice:
  "ahead p (as @ bs) \<Longrightarrow> slice (jp_buf p) (jp_pos p) (jp_pos p + length as) = Some as"
proof -
  assume a: "ahead p (as @ bs)"
  then have "jp_pos p + length as \<le> length (jp_buf p)" using ahead_past [OF a] by (simp add: ahead_def)
  then show ?thesis using a by (simp add: ahead_def slice_def)
qed

lemma peek_ahead: "ahead p xs \<Longrightarrow> peek p = (case xs of [] \<Rightarrow> None | b # _ \<Rightarrow> Some b)"
proof (cases "jp_pos p < length (jp_buf p)")
  case True
  then show "ahead p xs \<Longrightarrow> ?thesis"
    using Cons_nth_drop_Suc [OF True] by (auto simp: ahead_def peek_def nth_of_def split: list.split)
qed (auto simp: ahead_def peek_def nth_of_def)

lemma bump_ahead: "ahead p xs \<Longrightarrow> bump p = (case xs of [] \<Rightarrow> None | b # _ \<Rightarrow> Some (b, past p [b]))"
  by (simp add: bump_def peek_ahead step_over_past split: list.split)

lemma skip_while_ahead:
  "ahead p xs \<Longrightarrow> skip_while P p = past p (takeWhile P xs)"
proof (induction xs arbitrary: p)
  case (Cons b xs)
  then have "peek p = Some b" by (simp add: peek_ahead)
  then show ?case
    using Cons.IH [OF ahead_Cons [OF Cons.prems]]
    by (subst skip_while.simps) (simp add: step_over_past [where b = b])
qed (simp add: skip_while.simps peek_ahead)

definition ws_text :: "bytes \<Rightarrow> bool" where "ws_text w \<longleftrightarrow> list_all is_ws w"

text \<open>Whitespace in front of a byte that is none.\<close>

lemma skip_ws_ahead:
  assumes "ahead p (w @ b # xs)" and "ws_text w" and "\<not> is_ws b"
  shows "skip_ws p = past p w"
proof -
  have "takeWhile is_ws (w @ b # xs) = w"
    using assms(2,3) by (simp add: ws_text_def list_all_iff takeWhile_append)
  then show ?thesis using assms(1) by (simp add: skip_ws_def skip_while_ahead)
qed

lemma skip_ws_split:
  assumes "ahead p xs"
  obtains w ys where "xs = w @ ys" "ws_text w" "skip_ws p = past p w" "ahead (past p w) ys"
    "ys = [] \<or> \<not> is_ws (hd ys)"
proof
  show "xs = takeWhile is_ws xs @ dropWhile is_ws xs" by simp
  show "ws_text (takeWhile is_ws xs)" by (auto simp: ws_text_def list_all_iff dest: set_takeWhileD)
  show "skip_ws p = past p (takeWhile is_ws xs)" using assms by (simp add: skip_ws_def skip_while_ahead)
  show "ahead (past p (takeWhile is_ws xs)) (dropWhile is_ws xs)" using assms by (simp add: ahead_past)
  show "dropWhile is_ws xs = [] \<or> \<not> is_ws (hd (dropWhile is_ws xs))"
    using hd_dropWhile by blast
qed

lemma parse_literal_iff:
  "ahead p xs \<Longrightarrow> parse_literal l v p = Inr (v', p') \<longleftrightarrow> v' = v \<and> p' = past p l \<and> (\<exists>ys. xs = l @ ys)"
proof (induction l arbitrary: p xs)
  case (Cons b l)
  show ?case
  proof (cases xs)
    case (Cons c cs)
    then show ?thesis using Cons.prems Cons.IH [OF ahead_Cons [of p c cs]] by (auto simp: bump_ahead)
  qed (use Cons.prems in \<open>simp add: bump_ahead\<close>)
qed auto

section \<open>Strings\<close>

text \<open>What may stand between the quotes.\<close>

fun string_body :: "bytes \<Rightarrow> bool" where
  "string_body [] = True"
| "string_body (c # cs) =
     (if c = 0x5c
      then (case cs of
              [] \<Rightarrow> False
            | e # es \<Rightarrow>
                if is_short_escape e then string_body es
                else e = 0x75 \<and> 4 \<le> length es \<and> list_all is_ascii_hexdigit (take 4 es) \<and> string_body (drop 4 es))
      else c \<noteq> 0x22 \<and> \<not> c < 0x20 \<and> string_body cs)"

lemma parse_hex_iff:
  "ahead p xs \<Longrightarrow> parse_hex n p = Inr p' \<longleftrightarrow>
     n \<le> length xs \<and> list_all is_ascii_hexdigit (take n xs) \<and> p' = past p (take n xs)"
proof (induction n arbitrary: p xs)
  case (Suc n)
  then show ?case
  proof (cases xs)
    case (Cons c cs)
    then show ?thesis using Suc.prems Suc.IH [OF ahead_Cons [of p c cs]] by (auto simp: bump_ahead)
  qed (use Suc.prems in \<open>simp add: bump_ahead\<close>)
qed auto

text \<open>What may follow a backslash.\<close>

definition escape_text :: "bytes \<Rightarrow> bool" where
  "escape_text e \<longleftrightarrow> (\<exists>c. is_short_escape c \<and> e = [c]) \<or>
     (\<exists>hs. e = 0x75 # hs \<and> length hs = 4 \<and> list_all is_ascii_hexdigit hs)"

lemma not_short_u: "\<not> is_short_escape 0x75"
  by (simp add: is_short_escape_def str_bytes_def)

lemma hex_split:
  "4 \<le> length es \<and> list_all is_ascii_hexdigit (take 4 es) \<and> Q (take 4 es) (drop 4 es) \<longleftrightarrow>
   (\<exists>hs ys. es = hs @ ys \<and> length hs = 4 \<and> list_all is_ascii_hexdigit hs \<and> Q hs ys)"
proof
  assume "4 \<le> length es \<and> list_all is_ascii_hexdigit (take 4 es) \<and> Q (take 4 es) (drop 4 es)"
  then show "\<exists>hs ys. es = hs @ ys \<and> length hs = 4 \<and> list_all is_ascii_hexdigit hs \<and> Q hs ys"
    by - (rule exI [of _ "take 4 es"], rule exI [of _ "drop 4 es"], simp)
qed auto

lemma escape_split:
  "(\<exists>e ys. c # cs = e @ ys \<and> escape_text e \<and> Q e ys) \<longleftrightarrow>
     (if is_short_escape c then Q [c] cs
      else c = 0x75 \<and> (\<exists>hs ys. cs = hs @ ys \<and> length hs = 4 \<and> list_all is_ascii_hexdigit hs \<and> Q (0x75 # hs) ys))"
  (is "?lhs \<longleftrightarrow> ?rhs")
proof
  assume ?lhs
  then obtain e ys where e: "c # cs = e @ ys" "escape_text e" "Q e ys" by blast
  from e(2) show ?rhs unfolding escape_text_def
  proof (elim disjE exE conjE)
    fix d assume "is_short_escape d" "e = [d]"
    with e show ?rhs by simp
  next
    fix hs assume "e = 0x75 # hs" "length hs = 4" "list_all is_ascii_hexdigit hs"
    with e not_short_u show ?rhs by auto
  qed
next
  assume rhs: ?rhs
  show ?lhs
  proof (cases "is_short_escape c")
    case True
    with rhs show ?thesis
      by - (rule exI [of _ "[c]"], rule exI [of _ cs], simp add: escape_text_def)
  next
    case False
    with rhs obtain hs ys where "c = 0x75" "cs = hs @ ys" "length hs = 4" "list_all is_ascii_hexdigit hs"
      "Q (0x75 # hs) ys" by auto
    then show ?thesis
      by - (rule exI [of _ "0x75 # hs"], rule exI [of _ ys], simp add: escape_text_def)
  qed
qed

lemma string_body_escape:
  "string_body (0x5c # cs) \<longleftrightarrow> (\<exists>e ys. cs = e @ ys \<and> escape_text e \<and> string_body ys)"
proof (cases cs)
  case (Cons c es)
  show ?thesis
    unfolding Cons escape_split using hex_split [of es "\<lambda>hs. string_body"] by simp
qed (simp add: escape_text_def)

lemma parse_escape_iff:
  assumes "ahead p xs"
  shows "parse_escape p = Inr p' \<longleftrightarrow> (\<exists>e ys. xs = e @ ys \<and> escape_text e \<and> p' = past p e)"
proof (cases xs)
  case (Cons c es)
  have "parse_hex 4 (past p [c]) = Inr p' \<longleftrightarrow> 4 \<le> length es \<and> list_all is_ascii_hexdigit (take 4 es) \<and>
      p' = past p (c # take 4 es)"
    using parse_hex_iff [OF ahead_Cons, of p c es 4 p'] assms Cons by simp
  then show ?thesis
    using assms not_short_u hex_split [of es "\<lambda>hs ys. p' = past p (c # hs)"]
    unfolding Cons escape_split by (auto simp: parse_escape_def bump_ahead)
qed (use assms in \<open>simp add: parse_escape_def bump_ahead escape_text_def\<close>)

lemma string_loop_iff:
  "ahead p xs \<Longrightarrow> string_loop start p = Inr (s, p') \<longleftrightarrow>
     (\<exists>t ys. xs = t @ 0x22 # ys \<and> string_body t \<and> p' = past p (t @ [0x22]) \<and>
        slice (jp_buf p) start (jp_pos p + length t) = Some s)"
proof (induction start p arbitrary: xs rule: string_loop.induct)
  case (1 start p)
  show ?case
  proof (cases xs)
    case Nil
    then show ?thesis using 1 by (simp add: string_loop.simps bump_ahead)
  next
    case (Cons c cs)
    then have b: "bump p = Some (c, past p [c])" and ah: "ahead (past p [c]) cs"
      using 1(3) by (simp_all add: bump_ahead ahead_Cons)
    consider "c = 0x22" | "c = 0x5c" | "c \<noteq> 0x22" "c \<noteq> 0x5c" by blast
    then show ?thesis
    proof cases
      case 1
      have "(\<exists>t ys. xs = t @ 0x22 # ys \<and> string_body t \<and> Q t) \<longleftrightarrow> Q []" for Q
        using Cons 1 by (auto simp: Cons_eq_append_conv)
      then show ?thesis
        using b 1 by (auto simp: string_loop.simps [of start p] result_simps)
    next
      case 2
      have esc: "string_loop start p = Inr (s, p') \<longleftrightarrow> (\<exists>e zs. cs = e @ zs \<and> escape_text e \<and>
          string_loop start (past p (c # e)) = Inr (s, p'))"
        using b 2 parse_escape_iff [OF ah] by (auto simp: string_loop.simps [of start p] result_simps)
      have step: "string_loop start (past p (c # e)) = Inr (s, p') \<longleftrightarrow>
          (\<exists>t ys. zs = t @ 0x22 # ys \<and> string_body t \<and> p' = past p (c # e @ t @ [0x22]) \<and>
            slice (jp_buf p) start (jp_pos p + length (c # e @ t)) = Some s)"
        if "cs = e @ zs" "escape_text e" for e zs
        using "1.IH"(1) [OF b refl, of "past p (c # e)" zs] that 2 ah parse_escape_iff [OF ah] ahead_past [of "past p [c]" e zs]
        by (auto simp: add.assoc)
      show ?thesis
      proof
        assume "string_loop start p = Inr (s, p')"
        then obtain e zs t ys where "cs = e @ zs" "escape_text e" "zs = t @ 0x22 # ys" "string_body t"
          "p' = past p (c # e @ t @ [0x22])" "slice (jp_buf p) start (jp_pos p + length (c # e @ t)) = Some s"
          using esc step by blast
        then show "\<exists>t ys. xs = t @ 0x22 # ys \<and> string_body t \<and> p' = past p (t @ [0x22]) \<and>
            slice (jp_buf p) start (jp_pos p + length t) = Some s"
          using Cons 2 string_body_escape by (intro exI [of _ "c # e @ t"] exI [of _ ys]) auto
      next
        assume "\<exists>t ys. xs = t @ 0x22 # ys \<and> string_body t \<and> p' = past p (t @ [0x22]) \<and>
            slice (jp_buf p) start (jp_pos p + length t) = Some s"
        then obtain t ys where t: "xs = t @ 0x22 # ys" "string_body t" "p' = past p (t @ [0x22])"
          "slice (jp_buf p) start (jp_pos p + length t) = Some s" by blast
        with Cons 2 obtain t' where t': "t = c # t'" by (cases t) auto
        with t(2) 2 obtain e u where e: "t' = e @ u" "escape_text e" "string_body u"
          using string_body_escape by blast
        then have "cs = e @ u @ 0x22 # ys" using Cons t(1) t' by simp
        with esc step [of e "u @ 0x22 # ys"] t t' e show "string_loop start p = Inr (s, p')" by auto
      qed
    next
      case 3
      have IH: "\<not> c < 0x20 \<Longrightarrow> string_loop start (past p [c]) = Inr (s, p') \<longleftrightarrow>
          (\<exists>t ys. cs = t @ 0x22 # ys \<and> string_body t \<and> p' = past p (c # t @ [0x22]) \<and>
            slice (jp_buf p) start (jp_pos p + length (c # t)) = Some s)"
        using "1.IH"(2) [OF b refl, of cs] 3 ah by simp
      have shape: "(\<exists>t ys. xs = t @ 0x22 # ys \<and> string_body t \<and> Q t) \<longleftrightarrow>
          \<not> c < 0x20 \<and> (\<exists>t ys. cs = t @ 0x22 # ys \<and> string_body t \<and> Q (c # t))" for Q
      proof
        assume "\<exists>t ys. xs = t @ 0x22 # ys \<and> string_body t \<and> Q t"
        then obtain t ys where t: "xs = t @ 0x22 # ys" "string_body t" "Q t" by blast
        with Cons 3 obtain u where "t = c # u" by (cases t) auto
        with t Cons 3 show "\<not> c < 0x20 \<and> (\<exists>t ys. cs = t @ 0x22 # ys \<and> string_body t \<and> Q (c # t))" by auto
      next
        assume "\<not> c < 0x20 \<and> (\<exists>t ys. cs = t @ 0x22 # ys \<and> string_body t \<and> Q (c # t))"
        then obtain t ys where "\<not> c < 0x20" "cs = t @ 0x22 # ys" "string_body t" "Q (c # t)" by blast
        with Cons 3 show "\<exists>t ys. xs = t @ 0x22 # ys \<and> string_body t \<and> Q t"
          by - (rule exI [of _ "c # t"], rule exI [of _ ys], simp)
      qed
      show ?thesis unfolding shape
        using b 3 IH by (simp add: string_loop.simps [of start p])
    qed
  qed
qed

text \<open>A string is read exactly when the bytes ahead are a quoted body.\<close>

definition quoted :: "bytes \<Rightarrow> bytes" where
  "quoted s = 0x22 # s @ [0x22]"

lemma parse_string_iff:
  assumes "ahead p (0x22 # xs)"
  shows "parse_string p = Inr (s, p') \<longleftrightarrow>
    (\<exists>ys. 0x22 # xs = quoted s @ ys \<and> string_body s \<and> p' = past p (quoted s))"
proof -
  have ah: "ahead (past p [0x22]) xs" using assms by (rule ahead_Cons)
  have "slice (jp_buf p) (jp_pos p + 1) (jp_pos p + 1 + length t) = Some t" if "xs = t @ 0x22 # ys" for t ys
    using ahead_slice [of "past p [0x22]" t "0x22 # ys"] ah that by simp
  then show ?thesis
    using string_loop_iff [OF ah, of "jp_pos p + 1" s p'] 
    by (auto simp: parse_string_def Let_def step_over_past [where b = "0x22"] quoted_def)
qed

section \<open>Numbers\<close>

definition all_digits :: "bytes \<Rightarrow> bool" where "all_digits ds \<longleftrightarrow> list_all is_ascii_digit ds"

definition int_text :: "bytes \<Rightarrow> bool" where
  "int_text ds \<longleftrightarrow> ds \<noteq> [] \<and> all_digits ds \<and> (hd ds = 0x30 \<longrightarrow> length ds = 1)"

definition frac_text :: "bytes \<Rightarrow> bool" where
  "frac_text f \<longleftrightarrow> f = [] \<or> (\<exists>ds. f = 0x2e # ds \<and> ds \<noteq> [] \<and> all_digits ds)"

definition exp_text :: "bytes \<Rightarrow> bool" where
  "exp_text e \<longleftrightarrow> e = [] \<or>
     (\<exists>c sign ds. e = c # sign @ ds \<and> (c = 0x65 \<or> c = 0x45) \<and>
        (sign = [] \<or> sign = [0x2b] \<or> sign = [0x2d]) \<and> ds \<noteq> [] \<and> all_digits ds)"

text \<open>The JSON number grammar.\<close>

definition number_text :: "bytes \<Rightarrow> bool" where
  "number_text raw \<longleftrightarrow> (\<exists>m i f e. raw = m @ i @ f @ e \<and> (m = [] \<or> m = [0x2d]) \<and>
     int_text i \<and> frac_text f \<and> exp_text e)"

text \<open>Bytes that cannot continue a number.\<close>

definition ends_number :: "bytes \<Rightarrow> bool" where
  "ends_number ys \<longleftrightarrow> ys = [] \<or> (\<not> is_ascii_digit (hd ys) \<and> hd ys \<noteq> 0x2e \<and> hd ys \<noteq> 0x65 \<and> hd ys \<noteq> 0x45)"

lemma digit_marks [simp]:
  "\<not> is_ascii_digit 0x2d" "\<not> is_ascii_digit 0x2b" "\<not> is_ascii_digit 0x2e" "\<not> is_ascii_digit 0x65"
  "\<not> is_ascii_digit 0x45" "is_ascii_digit 0x30"
  by (simp_all add: is_ascii_digit_def)

lemma digits_takeWhile: "all_digits (takeWhile is_ascii_digit xs)"
  by (auto simp: all_digits_def list_all_iff dest: set_takeWhileD)

lemma takeWhile_digits:
  "all_digits ds \<Longrightarrow> ys = [] \<or> \<not> is_ascii_digit (hd ys) \<Longrightarrow> takeWhile is_ascii_digit (ds @ ys) = ds"
  by (cases ys) (auto simp: all_digits_def list_all_iff takeWhile_append)

lemma digits1_iff:
  assumes "ahead p xs"
  shows "digits1 p = Inr p' \<longleftrightarrow> takeWhile is_ascii_digit xs \<noteq> [] \<and> p' = past p (takeWhile is_ascii_digit xs)"
  using assms
  by (cases xs) (auto simp: digits1_def bump_ahead skip_digits_def skip_while_ahead [OF ahead_Cons])

lemma integer_part_iff:
  assumes "ahead p xs"
  shows "integer_part p = Inr p' \<longleftrightarrow> int_text (takeWhile is_ascii_digit xs) \<and> p' = past p (takeWhile is_ascii_digit xs)"
proof (cases xs)
  case (Cons c cs)
  have "next_digit (past p [c]) \<longleftrightarrow> takeWhile is_ascii_digit cs \<noteq> []"
    using assms Cons peek_ahead [OF ahead_Cons, of p c cs] by (cases cs) (simp_all add: next_digit_def)
  moreover have "all_digits (takeWhile is_ascii_digit cs)" by (rule digits_takeWhile)
  ultimately show ?thesis using assms Cons
    by (auto simp: integer_part_def bump_ahead skip_digits_def skip_while_ahead [OF ahead_Cons] int_text_def all_digits_def)
qed (use assms in \<open>simp add: integer_part_def bump_ahead int_text_def\<close>)

lemma fraction_part_iff:
  assumes "ahead p xs"
  shows "fraction_part p = Inr p' \<longleftrightarrow>
    (case xs of [] \<Rightarrow> p' = p
     | c # cs \<Rightarrow> if c = 0x2e then takeWhile is_ascii_digit cs \<noteq> [] \<and> p' = past p (c # takeWhile is_ascii_digit cs)
                else p' = p)"
proof (cases xs)
  case (Cons c cs)
  then have "digits1 (past p [c]) = Inr p' \<longleftrightarrow> takeWhile is_ascii_digit cs \<noteq> [] \<and> p' = past p (c # takeWhile is_ascii_digit cs)"
    using digits1_iff [OF ahead_Cons, of p c cs] assms by simp
  then show ?thesis using assms Cons by (auto simp: fraction_part_def peek_ahead step_over_past [where b = c])
qed (use assms in \<open>auto simp: fraction_part_def peek_ahead\<close>)

lemma exponent_part_iff:
  assumes "ahead p xs"
  shows "exponent_part p = Inr p' \<longleftrightarrow>
    (case xs of [] \<Rightarrow> p' = p
     | c # cs \<Rightarrow>
         if c = 0x65 \<or> c = 0x45
         then let sign = (case cs of [] \<Rightarrow> [] | s # _ \<Rightarrow> if s = 0x2b \<or> s = 0x2d then [s] else []);
                  ds = takeWhile is_ascii_digit (drop (length sign) cs)
              in ds \<noteq> [] \<and> p' = past p (c # sign @ ds)
         else p' = p)"
proof (cases xs)
  case (Cons c cs)
  let ?sign = "case cs of [] \<Rightarrow> [] | s # _ \<Rightarrow> if s = 0x2b \<or> s = 0x2d then [s] else []"
  have ah: "ahead (past p [c]) cs" using assms Cons by (simp add: ahead_Cons)
  have "(if peek (past p [c]) = Some 0x2b \<or> peek (past p [c]) = Some 0x2d then step_over (past p [c]) else past p [c]) =
      past p (c # ?sign)"
    using peek_ahead [OF ah] by (cases cs) (auto simp: step_over_past [where b = "hd cs"])
  moreover have "ahead (past p (c # ?sign)) (drop (length ?sign) cs)"
    using ah ahead_Cons [of "past p [c]"] by (cases cs) auto
  ultimately show ?thesis using assms Cons digits1_iff
    by (auto simp: exponent_part_def peek_ahead step_over_past [where b = c] Let_def)
qed (use assms in \<open>auto simp: exponent_part_def peek_ahead\<close>)

lemma integer_part_sound:
  assumes "ahead p xs" and "integer_part p = Inr p'"
  shows "\<exists>i ys. xs = i @ ys \<and> int_text i \<and> p' = past p i"
  using assms(2) takeWhile_dropWhile_id [of is_ascii_digit xs] unfolding integer_part_iff [OF assms(1)] by metis

lemma fraction_part_sound:
  assumes "ahead p xs" and "fraction_part p = Inr p'"
  shows "\<exists>f ys. xs = f @ ys \<and> frac_text f \<and> p' = past p f"
proof (cases "\<exists>cs. xs = 0x2e # cs")
  case True
  then obtain cs where xs: "xs = 0x2e # cs" by blast
  then have "takeWhile is_ascii_digit cs \<noteq> []" "p' = past p (0x2e # takeWhile is_ascii_digit cs)"
    using assms(2) unfolding fraction_part_iff [OF assms(1)] by simp_all
  then show ?thesis using xs digits_takeWhile
    by - (rule exI [of _ "0x2e # takeWhile is_ascii_digit cs"], rule exI [of _ "dropWhile is_ascii_digit cs"],
        simp add: frac_text_def)
next
  case False
  then have "p' = p" using assms(2) unfolding fraction_part_iff [OF assms(1)]
    by (auto split: list.splits if_splits)
  then show ?thesis by (intro exI [of _ "[]"] exI [of _ xs]) (simp add: frac_text_def)
qed

lemma exponent_part_sound:
  assumes "ahead p xs" and "exponent_part p = Inr p'"
  shows "\<exists>e ys. xs = e @ ys \<and> exp_text e \<and> p' = past p e"
proof (cases "\<exists>c cs. xs = c # cs \<and> (c = 0x65 \<or> c = 0x45)")
  case True
  then obtain c cs where xs: "xs = c # cs" "c = 0x65 \<or> c = 0x45" by blast
  define sign where "sign = (case cs of [] \<Rightarrow> [] | s # _ \<Rightarrow> if s = 0x2b \<or> s = 0x2d then [s] else [])"
  define ds where "ds = takeWhile is_ascii_digit (drop (length sign) cs)"
  have "ds \<noteq> []" "p' = past p (c # sign @ ds)"
    using assms(2) xs unfolding exponent_part_iff [OF assms(1)] by (simp_all add: Let_def sign_def ds_def)
  moreover have "sign = [] \<or> sign = [0x2b] \<or> sign = [0x2d]" "cs = sign @ drop (length sign) cs"
    by (auto simp: sign_def split: list.split)
  moreover have "all_digits ds" by (simp add: ds_def digits_takeWhile)
  moreover have "xs = (c # sign @ ds) @ dropWhile is_ascii_digit (drop (length sign) cs)"
    using \<open>cs = sign @ drop (length sign) cs\<close> xs by (simp add: ds_def)
  ultimately show ?thesis using xs(2) unfolding exp_text_def by blast
next
  case False
  then have "p' = p" using assms(2) unfolding exponent_part_iff [OF assms(1)]
    by (auto split: list.splits if_splits)
  then show ?thesis by (intro exI [of _ "[]"] exI [of _ xs]) (simp add: exp_text_def)
qed

lemma parse_number_sound:
  assumes ah: "ahead p xs" and run: "parse_number p = Inr (raw, p')"
  shows "\<exists>ys. xs = raw @ ys \<and> number_text raw \<and> p' = past p raw"
proof -
  define m where "m = (if peek p = Some 0x2d then [0x2d :: u8] else [])"
  have start: "(if peek p = Some 0x2d then step_over p else p) = past p m"
    by (simp add: m_def step_over_past [where b = "0x2d"])
  have mm: "m = [] \<or> m = [0x2d]" by (simp add: m_def)
  obtain xs1 where xs1: "xs = m @ xs1"
    using peek_ahead [OF ah] by (cases xs; cases "hd xs = 0x2d") (auto simp: m_def)
  then have ah1: "ahead (past p m) xs1" using ah by (simp add: ahead_past)
  from run obtain p1 p2 where parts: "integer_part (past p m) = Inr p1" "fraction_part p1 = Inr p2"
    "exponent_part p2 = Inr p'" "slice (jp_buf p') (jp_pos p) (jp_pos p') = Some raw"
    by (auto simp: parse_number_def Let_def start result_simps)
  from integer_part_sound [OF ah1 parts(1)] obtain i xs2 where i: "xs1 = i @ xs2" "int_text i" "p1 = past (past p m) i"
    by blast
  then have ah2: "ahead p1 xs2" using ah1 ahead_past [of "past p m" i xs2] by simp
  from fraction_part_sound [OF ah2 parts(2)] obtain f xs3 where f: "xs2 = f @ xs3" "frac_text f" "p2 = past p1 f"
    by blast
  then have ah3: "ahead p2 xs3" using ah2 ahead_past [of p1 f xs3] by simp
  from exponent_part_sound [OF ah3 parts(3)] obtain e ys where e: "xs3 = e @ ys" "exp_text e" "p' = past p2 e"
    by blast
  have p': "p' = past p (m @ i @ f @ e)" using i f e by simp
  have "xs = (m @ i @ f @ e) @ ys" using xs1 i f e by simp
  moreover from this have "raw = m @ i @ f @ e"
    using ahead_slice [of p "m @ i @ f @ e" ys] ah parts(4) p' by (simp add: add.assoc)
  moreover have "number_text (m @ i @ f @ e)"
    using i(2) f(2) e(2) mm unfolding number_text_def by blast
  ultimately show ?thesis using p' by blast
qed

lemma parse_number_complete:
  assumes ah: "ahead p (raw @ ys)" and ok: "number_text raw" and stop: "ends_number ys"
  shows "parse_number p = Inr (raw, past p raw)"
proof -
  from ok obtain m i f e where raw: "raw = m @ i @ f @ e" and m: "m = [] \<or> m = [0x2d]"
    and i: "int_text i" and f: "frac_text f" and e: "exp_text e"
    unfolding number_text_def by blast
  have ndig: "zs = [] \<or> \<not> is_ascii_digit (hd zs)" if "zs = e @ ys" for zs
    using e stop that by (auto simp: exp_text_def ends_number_def)
  have ndig2: "f @ e @ ys = [] \<or> \<not> is_ascii_digit (hd (f @ e @ ys))"
    using f ndig by (auto simp: frac_text_def)
  have "i \<noteq> []" and idig: "all_digits i" using i by (simp_all add: int_text_def)
  then have "hd i \<noteq> 0x2d" by (cases i) (auto simp: all_digits_def)
  then have start: "(if peek p = Some 0x2d then step_over p else p) = past p m"
    using m peek_ahead [OF ah] \<open>i \<noteq> []\<close> by (cases i) (auto simp: raw step_over_past [where b = "0x2d"])
  have ah1: "ahead (past p m) (i @ f @ e @ ys)" using ah raw by (simp add: ahead_past)
  have p1: "integer_part (past p m) = Inr (past p (m @ i))"
    using i takeWhile_digits [OF idig ndig2] by (simp add: integer_part_iff [OF ah1])
  have ah2: "ahead (past p (m @ i)) (f @ e @ ys)" using ahead_past [OF ah1] by simp
  have p2: "fraction_part (past p (m @ i)) = Inr (past p (m @ i @ f))"
  proof (cases "f = []")
    case True
    have "e @ ys = [] \<or> hd (e @ ys) \<noteq> 0x2e" using e stop by (auto simp: exp_text_def ends_number_def)
    then show ?thesis using True unfolding fraction_part_iff [OF ah2] by (cases "e @ ys") auto
  next
    case False
    with f obtain ds where "f = 0x2e # ds" "ds \<noteq> []" "all_digits ds" unfolding frac_text_def by blast
    then show ?thesis using takeWhile_digits [of ds "e @ ys"] ndig unfolding fraction_part_iff [OF ah2] by simp
  qed
  have ah3: "ahead (past p (m @ i @ f)) (e @ ys)" using ahead_past [OF ah2] by simp
  have p3: "exponent_part (past p (m @ i @ f)) = Inr (past p raw)"
  proof (cases "e = []")
    case True
    then show ?thesis using stop raw unfolding exponent_part_iff [OF ah3]
      by (cases ys) (auto simp: ends_number_def)
  next
    case False
    with e obtain c sign ds where es: "e = c # sign @ ds" "c = 0x65 \<or> c = 0x45"
      "sign = [] \<or> sign = [0x2b] \<or> sign = [0x2d]" "ds \<noteq> []" "all_digits ds"
      unfolding exp_text_def by blast
    have tw: "takeWhile is_ascii_digit (ds @ ys) = ds"
      using es(5) stop by (intro takeWhile_digits) (auto simp: ends_number_def)
    have "hd ds \<noteq> 0x2b" "hd ds \<noteq> 0x2d" using es(4,5) by (cases ds; auto simp: all_digits_def)+
    then show ?thesis using es(1-4) tw raw unfolding exponent_part_iff [OF ah3]
      by (cases ds) (auto simp: Let_def)
  qed
  have "slice (jp_buf p) (jp_pos p) (jp_pos p + length raw) = Some raw" by (rule ahead_slice [OF ah])
  then show ?thesis by (simp add: parse_number_def Let_def start p1 p2 p3)
qed

section \<open>Values\<close>

text \<open>The bytes a value is spelled with; a composite value is open, so it stands for its bracket.\<close>

fun value_bytes :: "json_value \<Rightarrow> bytes" where
  "value_bytes J_Null = str_bytes ''null''"
| "value_bytes (J_Bool b) = str_bytes (if b then ''true'' else ''false'')"
| "value_bytes (J_Number raw) = raw"
| "value_bytes (J_Str s) = quoted s"
| "value_bytes J_Array = [0x5b]"
| "value_bytes J_Object = [0x7b]"

fun value_ok :: "json_value \<Rightarrow> bool" where
  "value_ok (J_Number raw) = number_text raw"
| "value_ok (J_Str s) = string_body s"
| "value_ok _ = True"

fun is_composite :: "json_value \<Rightarrow> bool" where
  "is_composite J_Array = True"
| "is_composite J_Object = True"
| "is_composite _ = False"

fun is_number :: "json_value \<Rightarrow> bool" where
  "is_number (J_Number _) = True"
| "is_number _ = False"

text \<open>The parser behind a value: one level deeper when it opened a composite.\<close>

definition opened :: "json_value \<Rightarrow> parser \<Rightarrow> parser" where
  "opened v p = (if is_composite v then p\<lparr>jp_depth := jp_depth p + 1\<rparr> else p)"

lemma opened_fields [simp]:
  "jp_buf (opened v p) = jp_buf p" "jp_pos (opened v p) = jp_pos p"
  "jp_depth (opened v p) = (if is_composite v then jp_depth p + 1 else jp_depth p)"
  by (simp_all add: opened_def)

lemma ahead_opened [simp]: "ahead (opened v p) xs \<longleftrightarrow> ahead p xs"
  by (simp add: ahead_def)

lemma enter_composite_opened:
  "enter_composite p = Inr q \<longleftrightarrow> jp_depth p < max_json_depth \<and> q = opened J_Array p"
  "step_over (opened u p) = opened u (past p [b])" "opened J_Object p = opened J_Array p"
  by (auto simp: enter_composite_def opened_def step_over_def past_def)

lemma parse_value_sound:
  assumes ah: "ahead p0 xs0" and run: "parse_value p0 = Inr (v, p')"
  shows "\<exists>w ys. xs0 = w @ value_bytes v @ ys \<and> ws_text w \<and> value_ok v \<and>
    (is_composite v \<longrightarrow> jp_depth p0 < max_json_depth) \<and> p' = opened v (past p0 (w @ value_bytes v))"
proof -
  from ah obtain w xs where w: "xs0 = w @ xs" "ws_text w" and skip: "skip_ws p0 = past p0 w"
    and ahw: "ahead (past p0 w) xs" by (rule skip_ws_split)
  let ?p = "past p0 w"
  obtain c cs where xs: "xs = c # cs"
    using run peek_ahead [OF ahw] by (cases xs) (auto simp: parse_value_def skip)
  have peek: "peek ?p = Some c" using peek_ahead [OF ahw] xs by simp
  have lit: "\<exists>ys. xs = l @ ys" "v = u" "p' = past ?p l" if "parse_literal l u ?p = Inr (v, p')" for l u
    using that parse_literal_iff [OF ahw] by auto
  have "\<exists>ys. xs = value_bytes v @ ys \<and> value_ok v \<and> (is_composite v \<longrightarrow> jp_depth p0 < max_json_depth) \<and>
      p' = opened v (past ?p (value_bytes v))"
  proof -
    consider (n) "c = 0x6e" | (t) "c = 0x74" | (f) "c = 0x66" | (str) "c = 0x22" | (arr) "c = 0x5b" | (obj) "c = 0x7b"
      | (num) "c \<noteq> 0x6e" "c \<noteq> 0x74" "c \<noteq> 0x66" "c \<noteq> 0x22" "c \<noteq> 0x5b" "c \<noteq> 0x7b" by blast
    then show ?thesis
    proof cases
      case n
      then have "parse_literal (value_bytes J_Null) J_Null ?p = Inr (v, p')"
        using run by (simp add: parse_value_def skip peek)
      from lit [OF this] show ?thesis by (auto simp: opened_def)
    next
      case t
      then have "parse_literal (value_bytes (J_Bool True)) (J_Bool True) ?p = Inr (v, p')"
        using run by (simp add: parse_value_def skip peek)
      from lit [OF this] show ?thesis by (auto simp: opened_def)
    next
      case f
      then have "parse_literal (value_bytes (J_Bool False)) (J_Bool False) ?p = Inr (v, p')"
        using run by (simp add: parse_value_def skip peek)
      from lit [OF this] show ?thesis by (auto simp: opened_def)
    next
      case str
      then obtain s where s: "v = J_Str s" "parse_string ?p = Inr (s, p')"
        using run by (auto simp: parse_value_def skip peek result_simps)
      then show ?thesis using parse_string_iff [of ?p cs s p'] ahw xs str by (auto simp: opened_def)
    next
      case arr
      then have "v = J_Array \<and> jp_depth p0 < max_json_depth \<and> p' = opened v (past ?p [c])"
        using run by (auto simp: parse_value_def skip peek result_simps enter_composite_opened(1,3) enter_composite_opened(2) [where b = c])
      then show ?thesis using xs arr by auto
    next
      case obj
      then have "v = J_Object \<and> jp_depth p0 < max_json_depth \<and> p' = opened v (past ?p [c])"
        using run by (auto simp: parse_value_def skip peek result_simps enter_composite_opened(1,3) enter_composite_opened(2) [where b = c])
      then show ?thesis using xs obj by auto
    next
      case num
      then obtain raw where n: "v = J_Number raw" "parse_number ?p = Inr (raw, p')"
        using run by (auto simp: parse_value_def skip peek result_simps split: if_splits)
      then show ?thesis using parse_number_sound [OF ahw n(2)] by (auto simp: opened_def)
    qed
  qed
  then show ?thesis using w by auto
qed

lemma number_text_start:
  assumes "number_text raw"
  shows "\<exists>c cs. raw = c # cs \<and> (c = 0x2d \<or> is_ascii_digit c)"
proof -
  from assms obtain m i f e where "raw = m @ i @ f @ e" "m = [] \<or> m = [0x2d]" "int_text i"
    unfolding number_text_def by blast
  then show ?thesis by (cases i) (auto simp: int_text_def all_digits_def)
qed

lemma digit_range: "is_ascii_digit c \<Longrightarrow> c \<noteq> 0x6e \<and> c \<noteq> 0x74 \<and> c \<noteq> 0x66 \<and> c \<noteq> 0x22 \<and> c \<noteq> 0x5b \<and> c \<noteq> 0x7b \<and>
    c \<noteq> 0x2c \<and> c \<noteq> 0x5d \<and> c \<noteq> 0x7d \<and> \<not> is_ws c"
  by (auto simp: is_ascii_digit_def is_ws_def)

text \<open>The first byte of a value: it is neither whitespace nor a closing bracket nor a comma.\<close>

lemma value_start:
  assumes "value_ok v"
  shows "\<exists>c cs. value_bytes v = c # cs \<and> \<not> is_ws c \<and> c \<noteq> 0x2c \<and> c \<noteq> 0x5d \<and> c \<noteq> 0x7d"
proof (cases v)
  case (J_Number raw)
  then show ?thesis using assms number_text_start [of raw] digit_range by (auto simp: is_ws_def)
qed (auto simp: str_bytes_def quoted_def is_ws_def)

lemma parse_value_complete:
  assumes ah: "ahead p0 (w @ value_bytes v @ ys)" and w: "ws_text w" and ok: "value_ok v"
    and stop: "is_number v \<Longrightarrow> ends_number ys" and depth: "is_composite v \<Longrightarrow> jp_depth p0 < max_json_depth"
  shows "parse_value p0 = Inr (v, opened v (past p0 (w @ value_bytes v)))"
proof -
  obtain c cs where c: "value_bytes v = c # cs" "\<not> is_ws c" using value_start [OF ok] by blast
  let ?p = "past p0 w"
  have skip: "skip_ws p0 = ?p" using skip_ws_ahead [of p0 w c "cs @ ys"] ah w c by simp
  have ahw: "ahead ?p (value_bytes v @ ys)" using ah by (rule ahead_past)
  have peek: "peek ?p = Some c" using peek_ahead [OF ahw] c by simp
  show ?thesis
  proof (cases v)
    case J_Null
    then show ?thesis using parse_literal_iff [OF ahw, of "str_bytes ''null''" J_Null] c
      by (auto simp: parse_value_def skip peek opened_def str_bytes_def)
  next
    case (J_Bool b)
    then show ?thesis using parse_literal_iff [OF ahw, of "value_bytes v" v] c
      by (cases b) (auto simp: parse_value_def skip peek opened_def str_bytes_def)
  next
    case (J_Number raw)
    then have n: "parse_number ?p = Inr (raw, past ?p raw)"
      using parse_number_complete [of ?p raw ys] ahw ok stop by simp
    have "c = 0x2d \<or> is_ascii_digit c" using number_text_start [of raw] ok J_Number c by auto
    then show ?thesis using J_Number n digit_range [of c]
      by (auto simp: parse_value_def skip peek opened_def)
  next
    case (J_Str s)
    then have "parse_string ?p = Inr (s, past ?p (quoted s))"
      using parse_string_iff [of ?p "s @ 0x22 # ys" s "past ?p (quoted s)"] ahw ok by (auto simp: quoted_def)
    moreover have "c = 0x22" using J_Str c by (simp add: quoted_def)
    ultimately show ?thesis using J_Str by (simp add: parse_value_def skip peek opened_def)
  next
    case J_Array
    then have "and_then (enter_composite ?p) (\<lambda>p'. Inr (v, step_over p')) = Inr (v, opened v (past ?p [c]))"
      using depth by (simp add: result_simps enter_composite_opened(1,3) enter_composite_opened(2) [where b = c])
    then show ?thesis using J_Array c by (auto simp: parse_value_def skip peek)
  next
    case J_Object
    then have "and_then (enter_composite ?p) (\<lambda>p'. Inr (v, step_over p')) = Inr (v, opened v (past ?p [c]))"
      using depth by (simp add: result_simps enter_composite_opened(1,3) enter_composite_opened(2) [where b = c])
    then show ?thesis using J_Object c by (auto simp: parse_value_def skip peek)
  qed
qed

section \<open>Entries\<close>

text \<open>What separates an entry from what is in front of it.\<close>

definition sep_text :: "bool \<Rightarrow> bytes \<Rightarrow> bool" where
  "sep_text first w \<longleftrightarrow>
     (if first then ws_text w else \<exists>a b. w = a @ 0x2c # b \<and> ws_text a \<and> ws_text b)"

lemma ws_marks [simp]:
  "\<not> is_ws 0x2c" "\<not> is_ws 0x5d" "\<not> is_ws 0x7d" "\<not> is_ws 0x22" "\<not> is_ws 0x3a" "\<not> is_ws 0x7b"
  by (simp_all add: is_ws_def)

lemma before_next_sound:
  assumes ah: "ahead p xs" and run: "before_next br first p = Inr (closes, p')"
  shows "\<exists>w ys. xs = w @ ys \<and> p' = past p w \<and>
    (if closes then ws_text w \<and> (\<exists>zs. ys = br # zs) else sep_text first w)"
proof -
  from ah obtain w ys where w: "xs = w @ ys" "ws_text w" and skip: "skip_ws p = past p w"
    and ahw: "ahead (past p w) ys" by (rule skip_ws_split)
  show ?thesis
  proof (cases "first \<or> (\<exists>zs. ys = br # zs \<and> br \<noteq> 0x2c)")
    case True
    then show ?thesis using run peek_ahead [OF ahw] w
      by (intro exI [of _ w] exI [of _ ys])
        (auto simp: before_next_def skip Let_def sep_text_def split: list.splits if_splits)
  next
    case False
    then obtain cs where ys: "ys = 0x2c # cs" and p': "closes = False" "p' = skip_ws (step_over (past p w))"
      using run peek_ahead [OF ahw] by (cases ys) (auto simp: before_next_def skip Let_def split: if_splits)
    have "ahead (past p (w @ [0x2c])) cs" using ahead_Cons [of "past p w"] ahw ys by simp
    then obtain b zs where b: "cs = b @ zs" "ws_text b" "skip_ws (past p (w @ [0x2c])) = past p (w @ 0x2c # b)"
      by (rule skip_ws_split) simp
    then have "p' = past p (w @ 0x2c # b)" using p' by (simp add: step_over_past [where b = "0x2c"])
    moreover have "xs = (w @ 0x2c # b) @ zs" using w ys b by simp
    moreover have "sep_text first (w @ 0x2c # b)" using False w b by (auto simp: sep_text_def)
    ultimately show ?thesis using p'(1)
      by - (rule exI [of _ "w @ 0x2c # b"], rule exI [of _ zs], simp)
  qed
qed

lemma before_next_closes:
  assumes "ahead p (w @ br # zs)" and "ws_text w" and "\<not> is_ws br" and "br \<noteq> 0x2c"
  shows "before_next br first p = Inr (True, past p w)"
  using assms skip_ws_ahead [OF assms(1-3)] peek_ahead [OF ahead_past [OF assms(1)]]
  by (simp add: before_next_def Let_def)

lemma before_next_opens:
  assumes ah: "ahead p (w @ c # zs)" and sep: "sep_text first w" and c: "\<not> is_ws c" "c \<noteq> br"
  shows "before_next br first p = Inr (False, past p w)"
proof (cases first)
  case True
  then show ?thesis
    using skip_ws_ahead [OF ah _ c(1)] peek_ahead [OF ahead_past [OF ah]] sep c by (simp add: before_next_def sep_text_def Let_def)
next
  case False
  then obtain a b where w: "w = a @ 0x2c # b" "ws_text a" "ws_text b" using sep by (auto simp: sep_text_def)
  then have aha: "ahead p (a @ 0x2c # b @ c # zs)" using ah by simp
  have skip: "skip_ws p = past p a" by (rule skip_ws_ahead [OF aha w(2)]) simp
  have "ahead (past p (a @ [0x2c])) (b @ c # zs)" using ahead_past [of p "a @ [0x2c]"] aha by simp
  from skip_ws_ahead [OF this w(3) c(1)]
  have "skip_ws (step_over (past p a)) = past p w" using w by (simp add: step_over_past [where b = "0x2c"])
  then show ?thesis using False skip peek_ahead [OF ahead_past [OF aha]] by (simp add: before_next_def Let_def)
qed

text \<open>The keys a cursor has seen.\<close>

definition seen :: "object_cursor \<Rightarrow> bytes list \<Rightarrow> bool" where
  "seen c ks \<longleftrightarrow> oc_len c = length ks \<and> length (oc_keys c) = max_object_keys \<and>
     length ks \<le> max_object_keys \<and> take (oc_len c) (oc_keys c) = map Some ks"

definition remember :: "bytes \<Rightarrow> object_cursor \<Rightarrow> object_cursor" where
  "remember key c = c\<lparr>oc_keys := (oc_keys c)[oc_len c := Some key], oc_len := oc_len c + 1\<rparr>"

lemma seen_new: "seen object_cursor_new []"
  by (simp add: seen_def object_cursor_new_def)

lemma seen_remember: "seen c ks \<Longrightarrow> length ks < max_object_keys \<Longrightarrow> seen (remember k c) (ks @ [k])"
  by (auto simp: seen_def remember_def take_Suc_conv_app_nth)

lemma seen_first: "seen (c\<lparr>oc_first := b\<rparr>) ks \<longleftrightarrow> seen c ks"
  by (simp add: seen_def)

lemma remember_fields [simp]:
  "oc_first (remember k c) = oc_first c" "oc_done (remember k c) = oc_done c"
  by (simp_all add: remember_def)

lemma entry_key_iff:
  assumes ah: "ahead p xs" and keys: "seen c ks"
  shows "entry_key c p = Inr (k, c', p') \<longleftrightarrow> (\<exists>ys. xs = quoted k @ ys) \<and> string_body k \<and> k \<notin> set ks \<and>
    length ks < max_object_keys \<and> c' = remember k c \<and> p' = past p (quoted k)"
proof (cases xs)
  case (Cons b bs)
  have known: "Some k \<in> set (take (oc_len c) (oc_keys c)) \<longleftrightarrow> k \<in> set ks"
    "length (oc_keys c) \<le> oc_len c \<longleftrightarrow> \<not> length ks < max_object_keys" for k
    using keys by (auto simp: seen_def)
  show ?thesis
  proof (cases "b = 0x22")
    case True
    have "entry_key c p = Inr (k, c', p') \<longleftrightarrow> parse_string p = Inr (k, p') \<and> k \<notin> set ks \<and>
        length ks < max_object_keys \<and> c' = remember k c"
      using True Cons ah by (auto simp: entry_key_def peek_ahead result_simps known remember_def)
    then show ?thesis using True Cons ah parse_string_iff [of p bs k p'] by auto
  qed (use Cons ah in \<open>auto simp: entry_key_def peek_ahead quoted_def\<close>)
qed (use ah in \<open>simp add: entry_key_def peek_ahead quoted_def\<close>)

text \<open>The bytes of one entry with what separates it from the one before; an open composite ends with
  its bracket.\<close>

definition entry_text :: "bool \<Rightarrow> bytes \<Rightarrow> json_value \<Rightarrow> bytes \<Rightarrow> bool" where
  "entry_text first k v e \<longleftrightarrow> (\<exists>a b d. e = a @ quoted k @ b @ 0x3a # d @ value_bytes v \<and>
     sep_text first a \<and> ws_text b \<and> ws_text d)"

lemma next_entry_sound:
  assumes ah: "ahead p xs" and keys: "seen c ks" and live: "\<not> oc_done c"
    and run: "next_entry c p = Inr (Some (k, v), c', p')"
  shows "\<exists>e ys. xs = e @ ys \<and> entry_text (oc_first c) k v e \<and> string_body k \<and> value_ok v \<and> k \<notin> set ks \<and>
    length ks < max_object_keys \<and> c' = (remember k c)\<lparr>oc_first := False\<rparr> \<and>
    (is_composite v \<longrightarrow> jp_depth p < max_json_depth) \<and> p' = opened v (past p e)"
proof -
  from run live obtain p1 c1 p2 p3 where parts: "before_next 0x7d (oc_first c) p = Inr (False, p1)"
    "entry_key c p1 = Inr (k, c1, p2)" "bump (skip_ws p2) = Some (0x3a, p3)" "parse_value p3 = Inr (v, p')"
    "c' = c1\<lparr>oc_first := False\<rparr>"
  proof -
    from run live obtain p1 where 1: "before_next 0x7d (oc_first c) p = Inr (False, p1)"
      "and_then (entry_key c p1) (\<lambda>(key, c', p2). case bump (skip_ws p2) of
            Some (b, p3) \<Rightarrow>
              if b = 0x3a
              then and_then (parse_value p3) (\<lambda>(v, p4). Inr (Some (key, v), c'\<lparr>oc_first := False\<rparr>, p4))
              else Inl J_UnexpectedByte
          | None \<Rightarrow> Inl J_UnexpectedByte) = Inr (Some (k, v), c', p')"
      by (auto simp: next_entry_def and_then_eq_Inr split: if_splits)
    from 1(2) obtain key c1 p2 where 2: "entry_key c p1 = Inr (key, c1, p2)"
      "(case bump (skip_ws p2) of
            Some (b, p3) \<Rightarrow>
              if b = 0x3a
              then and_then (parse_value p3) (\<lambda>(v, p4). Inr (Some (key, v), c1\<lparr>oc_first := False\<rparr>, p4))
              else Inl J_UnexpectedByte
          | None \<Rightarrow> Inl J_UnexpectedByte) = Inr (Some (k, v), c', p')"
      by (auto simp: and_then_eq_Inr)
    from 2(2) obtain p3 where "bump (skip_ws p2) = Some (0x3a, p3)" "key = k" "parse_value p3 = Inr (v, p')"
      "c' = c1\<lparr>oc_first := False\<rparr>"
      by (auto simp: and_then_eq_Inr split: option.splits if_splits)
    with 1(1) 2(1) that show thesis by blast
  qed
  from before_next_sound [OF ah parts(1)] obtain a ys1 where a: "xs = a @ ys1" "p1 = past p a" "sep_text (oc_first c) a"
    by auto
  then have ah1: "ahead p1 ys1" using ah by (simp add: ahead_past)
  from parts(2) obtain ys2 where k: "ys1 = quoted k @ ys2" "string_body k" "k \<notin> set ks" "length ks < max_object_keys"
    "c1 = remember k c" "p2 = past p1 (quoted k)" unfolding entry_key_iff [OF ah1 keys] by blast
  then have ah2: "ahead p2 ys2" using ah1 ahead_past [of p1 "quoted k" ys2] by simp
  from ah2 obtain b ys3 where b: "ys2 = b @ ys3" "ws_text b" "skip_ws p2 = past p2 b" "ahead (past p2 b) ys3"
    by (rule skip_ws_split)
  from parts(3) b obtain ys4 where ys3: "ys3 = 0x3a # ys4" and p3: "p3 = past (past p2 b) [0x3a]"
    using bump_ahead [OF b(4)] by (cases ys3) auto
  then have ah3: "ahead p3 ys4" using b(4) ahead_Cons [of "past p2 b" "0x3a" ys4] by simp
  from parse_value_sound [OF ah3 parts(4)] obtain d ys where d: "ys4 = d @ value_bytes v @ ys" "ws_text d" "value_ok v"
    "is_composite v \<longrightarrow> jp_depth p3 < max_json_depth" "p' = opened v (past p3 (d @ value_bytes v))" by blast
  let ?e = "a @ quoted k @ b @ 0x3a # d @ value_bytes v"
  have "entry_text (oc_first c) k v ?e" using a(3) b(2) d(2) unfolding entry_text_def by blast
  moreover have "xs = ?e @ ys" using a(1) k(1) b(1) ys3 d(1) by simp
  moreover have "p' = opened v (past p ?e)" using d(5) p3 k(6) a(2) by simp
  moreover have "jp_depth p3 = jp_depth p" using p3 k(6) a(2) by simp
  ultimately show ?thesis using k d parts(5) by metis
qed

lemma next_entry_complete:
  assumes ah: "ahead p (e @ ys)" and keys: "seen c ks" and live: "\<not> oc_done c"
    and spelled: "entry_text (oc_first c) k v e" and k: "string_body k" "k \<notin> set ks" "length ks < max_object_keys"
    and v: "value_ok v" "is_number v \<Longrightarrow> ends_number ys" "is_composite v \<Longrightarrow> jp_depth p < max_json_depth"
  shows "next_entry c p = Inr (Some (k, v), (remember k c)\<lparr>oc_first := False\<rparr>, opened v (past p e))"
proof -
  from spelled obtain a b d where e: "e = a @ quoted k @ b @ 0x3a # d @ value_bytes v"
    and w: "sep_text (oc_first c) a" "ws_text b" "ws_text d" unfolding entry_text_def by blast
  have aha: "ahead p (a @ 0x22 # k @ 0x22 # b @ 0x3a # d @ value_bytes v @ ys)" using ah e by (simp add: quoted_def)
  have 1: "before_next 0x7d (oc_first c) p = Inr (False, past p a)"
    by (rule before_next_opens [OF aha w(1)]) simp_all
  have ah1: "ahead (past p a) (quoted k @ b @ 0x3a # d @ value_bytes v @ ys)"
    using ahead_past [OF aha] by (simp add: quoted_def)
  have 2: "entry_key c (past p a) = Inr (k, remember k c, past p (a @ quoted k))"
    unfolding entry_key_iff [OF ah1 keys] using k by simp
  have ah2: "ahead (past p (a @ quoted k)) (b @ 0x3a # d @ value_bytes v @ ys)" using ahead_past [OF ah1] by simp
  have 3: "skip_ws (past p (a @ quoted k)) = past p (a @ quoted k @ b)"
    using skip_ws_ahead [OF ah2 w(2)] by simp
  have ah3: "ahead (past p (a @ quoted k @ b)) (0x3a # d @ value_bytes v @ ys)" using ahead_past [OF ah2] by simp
  have 4: "bump (past p (a @ quoted k @ b)) = Some (0x3a, past p (a @ quoted k @ b @ [0x3a]))"
    using bump_ahead [OF ah3] by simp
  have ah4: "ahead (past p (a @ quoted k @ b @ [0x3a])) (d @ value_bytes v @ ys)" using ahead_Cons [OF ah3] by simp
  have "parse_value (past p (a @ quoted k @ b @ [0x3a])) = Inr (v, opened v (past p e))"
    using parse_value_complete [OF ah4 w(3) v(1,2)] v(3) e by simp
  with 1 2 3 4 live show ?thesis by (simp add: next_entry_def)
qed

lemma next_entry_close_sound:
  assumes ah: "ahead p xs" and live: "\<not> oc_done c" and run: "next_entry c p = Inr (None, c', p')"
  shows "\<exists>w ys. xs = w @ 0x7d # ys \<and> ws_text w \<and> c' = c\<lparr>oc_done := True\<rparr> \<and> p' = close_composite (past p w)"
proof -
  from run live obtain p1 where parts: "before_next 0x7d (oc_first c) p = Inr (True, p1)"
    "c' = c\<lparr>oc_done := True\<rparr>" "p' = close_composite p1"
    by (auto simp: next_entry_def result_simps split: option.splits if_splits)
  then show ?thesis using before_next_sound [OF ah parts(1)] by auto
qed

lemma next_entry_close_complete:
  "ahead p (w @ 0x7d # ys) \<Longrightarrow> ws_text w \<Longrightarrow> \<not> oc_done c \<Longrightarrow>
   next_entry c p = Inr (None, c\<lparr>oc_done := True\<rparr>, close_composite (past p w))"
  using before_next_closes [of p w "0x7d" ys "oc_first c"] by (simp add: next_entry_def)

lemma ahead_close: "ahead p (b # xs) \<Longrightarrow> ahead (close_composite p) xs"
  using ahead_Cons [of p b xs] by (simp add: ahead_def close_composite_def)

section \<open>Progress\<close>

text \<open>A step that succeeds stays in the buffer and never moves back.\<close>

definition goes :: "parser \<Rightarrow> parser \<Rightarrow> bool" where
  "goes p p' \<longleftrightarrow> jp_buf p' = jp_buf p \<and> jp_pos p \<le> jp_pos p' \<and> jp_pos p' \<le> length (jp_buf p)"

lemma ahead_ex: "jp_pos p \<le> length (jp_buf p) \<Longrightarrow> ahead p (drop (jp_pos p) (jp_buf p))"
  by (simp add: ahead_def)

lemma goes_past: "ahead p (as @ bs) \<Longrightarrow> goes p (past p as)"
  using ahead_past [of p as bs] by (simp add: goes_def ahead_def)

lemma beyond_stuck:
  assumes "\<not> jp_pos p \<le> length (jp_buf p)"
  shows "peek p = None" "skip_ws p = p"
proof -
  show none: "peek p = None" using assms by (simp add: peek_def nth_of_def)
  show "skip_ws p = p" by (simp add: skip_ws_def none skip_while.simps)
qed

lemma parse_value_goes:
  assumes "parse_value p = Inr (v, p')"
  shows "goes p p' \<and> jp_pos p < jp_pos p'"
proof (cases "jp_pos p \<le> length (jp_buf p)")
  case True
  then have ah: "ahead p (drop (jp_pos p) (jp_buf p))" by (rule ahead_ex)
  from parse_value_sound [OF ah assms] obtain w ys where w: "drop (jp_pos p) (jp_buf p) = (w @ value_bytes v) @ ys"
    "value_ok v" "p' = opened v (past p (w @ value_bytes v))" by auto
  have "goes p (past p (w @ value_bytes v))" using goes_past ah w(1) by metis
  moreover have "value_bytes v \<noteq> []" using value_start [OF w(2)] by auto
  ultimately show ?thesis using w(3) by (simp add: goes_def)
qed (use assms beyond_stuck [of p] in \<open>simp add: parse_value_def\<close>)

lemma before_next_goes:
  assumes "before_next br first p = Inr (closes, p')" and "jp_pos p \<le> length (jp_buf p)"
  shows "goes p p' \<and> (closes \<longrightarrow> jp_pos p' < length (jp_buf p))"
proof -
  from before_next_sound [OF ahead_ex [OF assms(2)] assms(1)] obtain w ys where
    w: "drop (jp_pos p) (jp_buf p) = w @ ys" "p' = past p w"
      "if closes then ws_text w \<and> (\<exists>zs. ys = br # zs) else sep_text first w" by blast
  have "ahead p (w @ ys)" using ahead_ex [OF assms(2)] w(1) by simp
  moreover from ahead_past [OF this] have "ys \<noteq> [] \<longrightarrow> jp_pos p + length w < length (jp_buf p)"
    by (auto simp: ahead_def)
  ultimately show ?thesis using goes_past w(2,3) by auto
qed

lemma next_value_goes:
  assumes "next_value c p = Inr (r, c', p')" and "\<not> ac_done c"
  shows "goes p p' \<and> jp_pos p < jp_pos p'"
proof -
  from assms obtain closes p1 where 1: "before_next 0x5d (ac_first c) p = Inr (closes, p1)"
    and 2: "if closes then p' = close_composite p1 else \<exists>v. parse_value p1 = Inr (v, p')"
    by (auto simp: next_value_def and_then_eq_Inr split: if_splits)
  show ?thesis
  proof (cases "jp_pos p \<le> length (jp_buf p)")
    case True
    from before_next_goes [OF 1 True] 2 show ?thesis
      by (cases closes) (auto simp: goes_def close_composite_def dest!: parse_value_goes)
  next
    case False
    from 1 beyond_stuck [OF False] have "p1 = p" "closes = False"
      by (auto simp: before_next_def Let_def split: if_splits)
    with 2 show ?thesis using parse_value_goes by auto
  qed
qed

lemma entry_key_goes:
  assumes "entry_key c p = Inr (k, c', p')"
  shows "goes p p' \<and> oc_len c < length (oc_keys c) \<and> length (oc_keys c') = length (oc_keys c) \<and>
    oc_len c' = Suc (oc_len c) \<and> oc_done c' = oc_done c"
proof -
  from assms have str: "peek p = Some 0x22" "parse_string p = Inr (k, p')" and "oc_len c < length (oc_keys c)"
    "length (oc_keys c') = length (oc_keys c)" "oc_len c' = Suc (oc_len c)" "oc_done c' = oc_done c"
    by (auto simp: entry_key_def result_simps split: option.splits if_splits)
  moreover from str(1) have "jp_pos p < length (jp_buf p)" by (rule peek_in)
  moreover from this str(1) obtain xs where ah: "ahead p (0x22 # xs)"
    using peek_ahead [OF ahead_ex [of p]] ahead_ex [of p]
    by (cases "drop (jp_pos p) (jp_buf p)") auto
  moreover have "goes p p'" using parse_string_iff [OF ah] str(2) goes_past ah by metis
  ultimately show ?thesis by simp
qed

lemma next_entry_goes:
  assumes "next_entry c p = Inr (r, c', p')" and "\<not> oc_done c"
  shows "goes p p' \<and> jp_pos p < jp_pos p' \<and>
    (r \<noteq> None \<longrightarrow> length (oc_keys c') - oc_len c' < length (oc_keys c) - oc_len c \<and> \<not> oc_done c')"
proof -
  from assms obtain closes p1 where 1: "before_next 0x7d (oc_first c) p = Inr (closes, p1)"
    and 2: "if closes then r = None \<and> p' = close_composite p1
      else \<exists>k c1 p2 b p3 v. entry_key c p1 = Inr (k, c1, p2) \<and> bump (skip_ws p2) = Some (b, p3) \<and>
        parse_value p3 = Inr (v, p') \<and> c' = c1\<lparr>oc_first := False\<rparr>"
    by (fastforce simp: next_entry_def and_then_eq_Inr split: if_splits option.splits)
  have step: "goes p1 p' \<and> jp_pos p1 < jp_pos p' \<and> length (oc_keys c') - oc_len c' < length (oc_keys c) - oc_len c \<and>
      \<not> oc_done c'" if not: "\<not> closes"
  proof -
    from 2 not obtain k c1 p2 b p3 v where e: "entry_key c p1 = Inr (k, c1, p2)" "bump (skip_ws p2) = Some (b, p3)"
      "parse_value p3 = Inr (v, p')" "c' = c1\<lparr>oc_first := False\<rparr>" by auto
    from entry_key_goes [OF e(1)] have k: "goes p1 p2" "jp_pos p2 \<le> length (jp_buf p2)" by (simp_all add: goes_def)
    then have "goes p2 (skip_ws p2)"
      using skip_ws_split [OF ahead_ex] goes_past by (metis ahead_ex)
    moreover from bump_pos [OF e(2)] have "goes (skip_ws p2) p3" by (simp add: goes_def)
    moreover from parse_value_goes [OF e(3)] have "goes p3 p'" "jp_pos p3 < jp_pos p'" by simp_all
    ultimately show ?thesis using k(1) entry_key_goes [OF e(1)] e(4) assms(2) by (auto simp: goes_def)
  qed
  show ?thesis
  proof (cases "jp_pos p \<le> length (jp_buf p)")
    case True
    from before_next_goes [OF 1 True] 2 step show ?thesis
      by (cases closes) (auto simp: goes_def close_composite_def)
  next
    case False
    from 1 beyond_stuck [OF False] have "p1 = p" "closes = False"
      by (auto simp: before_next_def Let_def split: if_splits)
    with step show ?thesis by simp
  qed
qed

section \<open>Decimal numerals\<close>

fun decimal :: "nat \<Rightarrow> bytes" where
  "decimal n = (if n < 10 then [0x30 + of_nat n] else decimal (n div 10) @ [0x30 + of_nat (n mod 10)])"

declare decimal.simps [simp del]

definition digit_value :: "u8 \<Rightarrow> nat" where "digit_value b = unat (b - 0x30)"

fun numeral_value :: "nat \<Rightarrow> bytes \<Rightarrow> nat" where
  "numeral_value acc [] = acc"
| "numeral_value acc (b # bs) = numeral_value (acc * 10 + digit_value b) bs"

lemma numeral_value_append: "numeral_value acc (as @ bs) = numeral_value (numeral_value acc as) bs"
  by (induction as arbitrary: acc) simp_all

lemma numeral_value_mono: "acc \<le> numeral_value acc ds"
proof (induction ds arbitrary: acc)
  case (Cons d ds)
  have "acc \<le> acc * 10 + digit_value d" by simp
  also have "\<dots> \<le> numeral_value (acc * 10 + digit_value d) ds" by (rule Cons.IH)
  finally show ?case by simp
qed simp

lemma digit_value_less: "is_ascii_digit b \<Longrightarrow> digit_value b < 10"
proof -
  assume "is_ascii_digit b"
  then have "0x30 \<le> b" "b \<le> 0x39" by (simp_all add: is_ascii_digit_def)
  then have "unat (b - 0x30) = unat b - 0x30" "unat b \<le> 0x39"
    by (simp_all add: unat_sub word_le_nat_alt)
  then show ?thesis by (simp add: digit_value_def)
qed

lemma digit_of_value: "is_ascii_digit b \<Longrightarrow> 0x30 + of_nat (digit_value b) = b"
  by (simp add: digit_value_def)

lemma digit_of_nat:
  assumes "d < 10"
  shows "is_ascii_digit (0x30 + of_nat d)" "digit_value (0x30 + of_nat d) = d"
proof -
  have u: "unat (of_nat d :: u8) = d" using assms by (simp add: unat_of_nat take_bit_nat_eq_self)
  then have "unat (0x30 + of_nat d :: u8) = 0x30 + d"
    using assms by (subst unat_add_lem [THEN iffD1]) simp_all
  then show "is_ascii_digit (0x30 + of_nat d)" using assms by (simp add: is_ascii_digit_def word_le_nat_alt)
  show "digit_value (0x30 + of_nat d) = d" using u by (simp add: digit_value_def)
qed

lemma decimal_value: "numeral_value 0 (decimal n) = n"
proof (induction n rule: decimal.induct)
  case (1 n)
  show ?case
  proof (cases "n < 10")
    case True
    then show ?thesis by (subst decimal.simps) (simp add: digit_of_nat)
  next
    case False
    then show ?thesis using 1 by (subst decimal.simps) (simp add: numeral_value_append digit_of_nat)
  qed
qed

lemma decimal_digits: "decimal n \<noteq> [] \<and> all_digits (decimal n)"
proof (induction n rule: decimal.induct)
  case (1 n)
  then show ?case
    by (cases "n < 10"; subst (1 2) decimal.simps) (simp_all add: all_digits_def digit_of_nat)
qed

lemma decimal_lead: "0 < n \<Longrightarrow> digit_value (hd (decimal n)) \<noteq> 0"
proof (induction n rule: decimal.induct)
  case (1 n)
  show ?case
  proof (cases "n < 10")
    case True
    then show ?thesis using 1 by (subst decimal.simps) (simp add: digit_of_nat)
  next
    case False
    then show ?thesis using 1 decimal_digits [of "n div 10"] by (subst decimal.simps) (simp add: hd_append)
  qed
qed

lemma decimal_int_text: "int_text (decimal n)"
proof (cases "n = 0")
  case True
  then show ?thesis by (simp add: decimal.simps int_text_def all_digits_def)
next
  case False
  then have "hd (decimal n) \<noteq> 0x30" using decimal_lead [of n] by (auto simp: digit_value_def)
  then show ?thesis using decimal_digits [of n] by (simp add: int_text_def)
qed

lemma int_text_decimal: "int_text ds \<Longrightarrow> decimal (numeral_value 0 ds) = ds"
proof (induction ds rule: rev_induct)
  case (snoc d ds)
  then have d: "is_ascii_digit d" by (simp add: int_text_def all_digits_def)
  show ?case
  proof (cases "ds = []")
    case True
    then show ?thesis using d digit_value_less [OF d] digit_of_value [OF d] by (subst decimal.simps) simp
  next
    case False
    then have ids: "int_text ds" "hd ds \<noteq> 0x30" using snoc.prems by (auto simp: int_text_def all_digits_def hd_append)
    then obtain e es where es: "ds = e # es" "is_ascii_digit e" "e \<noteq> 0x30"
      by (cases ds) (auto simp: int_text_def all_digits_def)
    have "digit_value e \<noteq> 0"
    proof
      assume "digit_value e = 0"
      with digit_of_value [OF es(2)] es(3) show False by simp
    qed
    then have "1 \<le> numeral_value 0 ds" using numeral_value_mono [of "digit_value e" es] es(1) by simp
    moreover have "numeral_value 0 (ds @ [d]) = numeral_value 0 ds * 10 + digit_value d"
      by (simp add: numeral_value_append)
    ultimately show ?thesis
      using snoc.IH [OF ids(1)] digit_value_less [OF d] digit_of_value [OF d] by (subst decimal.simps) simp
  qed
qed (simp add: int_text_def)

lemma length_decimal: "n < 10 ^ k \<Longrightarrow> 0 < k \<Longrightarrow> length (decimal n) \<le> k"
proof (induction n arbitrary: k rule: decimal.induct)
  case (1 n)
  show ?case
  proof (cases "n < 10")
    case True
    then show ?thesis using 1 by (subst decimal.simps) simp
  next
    case False
    with "1.prems" obtain j where k: "k = Suc j" "0 < j" by (cases k; cases "k - 1") auto
    have "n div 10 < 10 ^ j" using "1.prems"(1) k by (simp add: less_mult_imp_div_less mult.commute)
    then show ?thesis using "1.IH" [OF False] k False by (subst decimal.simps) simp
  qed
qed

lemma digits_loop_iff:
  assumes size: "8 \<le> LENGTH('a::len)" and room: "unat (limit :: 'a word) * 10 + 9 < 2 ^ LENGTH('a)"
    and acc: "unat acc \<le> unat limit"
  shows "digits_loop limit acc ds = Inr v \<longleftrightarrow>
    all_digits ds \<and> numeral_value (unat acc) ds \<le> unat limit \<and> v = of_nat (numeral_value (unat acc) ds)"
  using acc
proof (induction ds arbitrary: acc)
  case (Cons d ds)
  show ?case
  proof (cases "is_ascii_digit d")
    case True
    let ?acc = "acc * 10 + ucast (d - 0x30)"
    have dv: "unat (ucast (d - 0x30) :: 'a word) = digit_value d" "digit_value d < 10"
      using power_increasing [OF size, of "2 :: nat"] digit_value_less [OF True]
      by (simp_all add: digit_value_def unsigned_ucast_eq take_bit_nat_eq_self)
    have "unat acc * 10 + digit_value d < 2 ^ LENGTH('a)" using Cons.prems room dv(2) by linarith
    then have acc': "unat ?acc = unat acc * 10 + digit_value d"
    proof -
      have "?acc = of_nat (unat acc * 10 + digit_value d)" using dv(1) [symmetric] by simp
      then show ?thesis using \<open>unat acc * 10 + digit_value d < 2 ^ LENGTH('a)\<close>
        by (simp only: unat_of_nat mod_less)
    qed
    show ?thesis
    proof (cases "limit < ?acc")
      case True
      then have "unat limit < numeral_value (unat acc * 10 + digit_value d) ds"
        using numeral_value_mono [of "unat acc * 10 + digit_value d" ds] acc' by (simp add: word_less_nat_alt)
      then show ?thesis using True by (auto simp: Let_def)
    next
      case False
      then have "unat ?acc \<le> unat limit" by (simp add: word_less_nat_alt)
      from Cons.IH [OF this] show ?thesis using True False acc' by (simp add: Let_def all_digits_def)
    qed
  qed (simp add: all_digits_def)
qed (auto simp: all_digits_def)

lemma parse_u8_iff:
  "parse_u8 ds = Inr n \<longleftrightarrow> ds \<noteq> [] \<and> length ds \<le> 3 \<and> all_digits ds \<and> numeral_value 0 ds = unat n"
proof -
  have small: "k \<le> 255 \<Longrightarrow> unat (of_nat k :: u16) = k" for k
    by (simp add: unat_of_nat take_bit_nat_eq_self)
  have "unat n \<le> 255" using unsigned_less [of n, where ?'a = nat] by simp
  then show ?thesis
    using digits_loop_iff [of "255 :: u16" 0 ds] small small [of "unat n"]
    by (auto simp: parse_u8_def result_simps)
qed

lemma parse_u16_iff:
  "parse_u16 ds = Inr n \<longleftrightarrow> ds \<noteq> [] \<and> length ds \<le> 5 \<and> all_digits ds \<and> numeral_value 0 ds = unat n"
proof -
  have small: "k \<le> 65535 \<Longrightarrow> unat (of_nat k :: u32) = k" for k
    by (simp add: unat_of_nat take_bit_nat_eq_self)
  have "unat n \<le> 65535" using unsigned_less [of n, where ?'a = nat] by simp
  then show ?thesis
    using digits_loop_iff [of "65535 :: u32" 0 ds] small small [of "unat n"]
    by (auto simp: parse_u16_def result_simps)
qed

lemma number_digits:
  assumes "number_text raw" and "all_digits raw"
  shows "int_text raw"
proof -
  from assms(1) obtain m i f e where raw: "raw = m @ i @ f @ e" and "m = [] \<or> m = [0x2d]" "int_text i" "frac_text f" "exp_text e"
    unfolding number_text_def by blast
  moreover from assms(2) raw have "all_digits m" "all_digits f" "all_digits e" by (simp_all add: all_digits_def)
  ultimately have "m = []" "f = []" "e = []"
    by (auto simp: frac_text_def exp_text_def all_digits_def)
  then show ?thesis using raw \<open>int_text i\<close> by simp
qed

lemma int_number: "int_text raw \<Longrightarrow> number_text raw"
  unfolding number_text_def
  by (rule exI [of _ "[]"], rule exI [of _ raw], rule exI [of _ "[]"], rule exI [of _ "[]"])
    (simp add: frac_text_def exp_text_def)

text \<open>A number that reads as an integer is the plain decimal numeral of that integer.\<close>

lemma parse_u8_decimal: "number_text raw \<and> parse_u8 raw = Inr n \<longleftrightarrow> raw = decimal (unat n)"
proof
  assume "number_text raw \<and> parse_u8 raw = Inr n"
  then show "raw = decimal (unat n)"
    using number_digits [of raw] int_text_decimal [of raw] by (simp add: parse_u8_iff)
next
  assume raw: "raw = decimal (unat n)"
  have "unat n < 10 ^ 3" using unsigned_less [of n, where ?'a = nat] by simp
  then have "length (decimal (unat n)) \<le> 3" by (rule length_decimal) simp
  then show "number_text raw \<and> parse_u8 raw = Inr n"
    using raw decimal_int_text int_number decimal_digits decimal_value by (simp add: parse_u8_iff)
qed

lemma parse_u16_decimal: "number_text raw \<and> parse_u16 raw = Inr n \<longleftrightarrow> raw = decimal (unat n)"
proof
  assume "number_text raw \<and> parse_u16 raw = Inr n"
  then show "raw = decimal (unat n)"
    using number_digits [of raw] int_text_decimal [of raw] by (simp add: parse_u16_iff)
next
  assume raw: "raw = decimal (unat n)"
  have "unat n < 10 ^ 5" using unsigned_less [of n, where ?'a = nat] by simp
  then have "length (decimal (unat n)) \<le> 5" by (rule length_decimal) simp
  then show "number_text raw \<and> parse_u16 raw = Inr n"
    using raw decimal_int_text int_number decimal_digits decimal_value by (simp add: parse_u16_iff)
qed

section \<open>Objects\<close>

text \<open>The bytes of the entries of an object with its closing brace, and of an object with scalar
  values.\<close>

fun members_text :: "bool \<Rightarrow> (bytes \<times> json_value) list \<Rightarrow> bytes \<Rightarrow> bool" where
  "members_text first [] bs \<longleftrightarrow> (\<exists>w. bs = w @ [0x7d] \<and> ws_text w)"
| "members_text first ((k, v) # ms) bs \<longleftrightarrow>
     (\<exists>e rest. bs = e @ rest \<and> entry_text first k v e \<and> members_text False ms rest)"

definition object_text :: "(bytes \<times> json_value) list \<Rightarrow> bytes \<Rightarrow> bool" where
  "object_text ms bs \<longleftrightarrow> (\<exists>w rest. bs = w @ 0x7b # rest \<and> ws_text w \<and> members_text True ms rest)"

lemma ws_ends_number: "is_ws b \<Longrightarrow> ends_number (b # ys)"
  by (auto simp: ends_number_def is_ws_def is_ascii_digit_def)

lemma ws_text_ends: "ws_text w \<Longrightarrow> ends_number (b # ys) \<Longrightarrow> ends_number (w @ b # ys)"
  by (cases w) (auto simp: ws_text_def ws_ends_number)

lemma members_text_ends: "members_text False ms bs \<Longrightarrow> ends_number (bs @ ys)"
proof (cases ms)
  case Nil
  assume "members_text False ms bs"
  with Nil obtain w where "bs = w @ [0x7d]" "ws_text w" by auto
  then show ?thesis using ws_text_ends [of w "0x7d" ys] by (simp add: ends_number_def is_ascii_digit_def)
next
  case (Cons m ms')
  assume "members_text False ms bs"
  with Cons obtain a b rest where "bs = a @ 0x2c # b @ rest" "ws_text a"
    by (cases m) (auto simp: entry_text_def sep_text_def)
  then show ?thesis using ws_text_ends [of a "0x2c" "b @ rest @ ys"] by (simp add: ends_number_def is_ascii_digit_def)
qed

end
