(* ===== verification/Validate.thy ===== *)
theory Validate
  imports Contract Json
begin

text \<open>
  The generic argument validator (\<open>esper-protocol/src/validate.rs\<close>). It streams over the entries of
  the top-level object, checks each against its argument spec, and emits the bound arguments in
  contract order. The property characterises its language: the bytes it accepts are exactly the
  spellings, in any key order and with any whitespace, of the assignments that fit the contract.
\<close>

section \<open>The validator\<close>

definition max_args_per_tool :: nat where "max_args_per_tool = 4"

datatype scalar = Sc_U8 u8 | Sc_U16 u16 | Sc_Enum u8

record bound_field =
  bf_name :: string
  bf_value :: scalar

record bound_args =
  ba_fields :: "bound_field option list"
  ba_len :: u8

definition bound_get :: "bound_args \<Rightarrow> string \<Rightarrow> scalar option" where
  "bound_get b name =
     map_option bf_value
       (List.find (\<lambda>f. bf_name f = name) (flatten (take (unat (ba_len b)) (ba_fields b))))"

datatype validation_error =
    VE_Json json_error
  | VE_NotObject
  | VE_UnknownArgument
  | VE_MissingArgument string
  | VE_WrongType string
  | VE_OutOfRange string
  | VE_BadEnumValue string
  | VE_TooManyArguments

definition check_scalar :: "arg_spec \<Rightarrow> json_value \<Rightarrow> validation_error + scalar" where
  "check_scalar spec v =
     (case as_kind spec of
        Arg_U8 lo hi \<Rightarrow>
          (case v of
             J_Number raw \<Rightarrow>
               and_then (map_err VE_Json (parse_u8 raw)) (\<lambda>n.
                 if n < lo \<or> hi < n then Inl (VE_OutOfRange (as_name spec)) else Inr (Sc_U8 n))
           | _ \<Rightarrow> Inl (VE_WrongType (as_name spec)))
      | Arg_U16 lo hi \<Rightarrow>
          (case v of
             J_Number raw \<Rightarrow>
               and_then (map_err VE_Json (parse_u16 raw)) (\<lambda>n.
                 if n < lo \<or> hi < n then Inl (VE_OutOfRange (as_name spec)) else Inr (Sc_U16 n))
           | _ \<Rightarrow> Inl (VE_WrongType (as_name spec)))
      | Arg_Enum options \<Rightarrow>
          (case v of
             J_Str raw \<Rightarrow>
               and_then (ok_or (VE_BadEnumValue (as_name spec))
                   (position (\<lambda>option. str_bytes option = raw) options)) (\<lambda>index.
               and_then (ok_or (VE_BadEnumValue (as_name spec)) (try_from index)) (\<lambda>i. Inr (Sc_Enum i)))
           | _ \<Rightarrow> Inl (VE_WrongType (as_name spec))))"

text \<open>The loop over the entries; \<open>table\<close> is the scratch table of the values seen, by position.\<close>

lemma next_entry_keys:
  "next_entry c p = Inr (Some e, c', p') \<Longrightarrow> length (oc_keys c') - oc_len c' < length (oc_keys c) - oc_len c"
  using next_entry_goes [of c p "Some e" c' p'] by (cases "oc_done c") (auto simp: next_entry_def)

function entries_loop ::
  "arg_spec list \<Rightarrow> (u8 \<times> scalar) option list \<Rightarrow> object_cursor \<Rightarrow> parser \<Rightarrow>
   validation_error + ((u8 \<times> scalar) option list \<times> parser)" where
  "entries_loop args table c p =
     and_then (map_err VE_Json (next_entry c p)) (\<lambda>(entry, c', p').
       case entry of
         None \<Rightarrow> Inr (table, p')
       | Some (key, v) \<Rightarrow>
           and_then (ok_or VE_UnknownArgument (position (\<lambda>spec. str_bytes (as_name spec) = key) args)) (\<lambda>at.
           and_then (check_scalar (args ! at) v) (\<lambda>s.
           and_then (ok_or VE_TooManyArguments (try_from at)) (\<lambda>at8.
           and_then (ok_or VE_TooManyArguments (fill_free (at8, s) table)) (\<lambda>table'.
             entries_loop args table' c' p')))))"
  by pat_completeness auto

termination
  by (relation "measure (\<lambda>(args, table, c, p). length (oc_keys c) - oc_len c)")
    (auto simp: result_simps dest: next_entry_keys)

declare entries_loop.simps [simp del]

definition find_at :: "nat \<Rightarrow> (u8 \<times> scalar) option list \<Rightarrow> scalar option" where
  "find_at at table = map_option snd (List.find (\<lambda>(i, _). unat i = at) (flatten table))"

text \<open>One round of the loop that emits the fields in contract order.\<close>

definition bind_field ::
  "(u8 \<times> scalar) option list \<Rightarrow> bound_args \<Rightarrow> nat \<times> arg_spec \<Rightarrow> validation_error + bound_args" where
  "bind_field table bound slot =
     (case slot of (at, spec) \<Rightarrow>
        (case find_at at table of
           Some v \<Rightarrow>
             if unat (ba_len bound) < length (ba_fields bound)
             then Inr \<lparr>ba_fields = (ba_fields bound)[unat (ba_len bound) := Some \<lparr>bf_name = as_name spec, bf_value = v\<rparr>],
                       ba_len = saturating_add (ba_len bound) 1\<rparr>
             else Inl VE_TooManyArguments
         | None \<Rightarrow>
             if as_required spec then Inl (VE_MissingArgument (as_name spec)) else Inr bound))"

fun bind_fields ::
  "(u8 \<times> scalar) option list \<Rightarrow> bound_args \<Rightarrow> (nat \<times> arg_spec) list \<Rightarrow> validation_error + bound_args" where
  "bind_fields table bound [] = Inr bound"
| "bind_fields table bound (slot # slots) =
     and_then (bind_field table bound slot) (\<lambda>bound'. bind_fields table bound' slots)"

definition validate :: "tool_contract \<Rightarrow> bytes \<Rightarrow> validation_error + bound_args" where
  "validate contract json =
     (let args = tc_args contract in
      if max_args_per_tool < length args then Inl VE_TooManyArguments
      else and_then (map_err VE_Json (parse_value (parser_new json))) (\<lambda>(v, p).
        if v \<noteq> J_Object then Inl VE_NotObject
        else and_then (entries_loop args (replicate max_args_per_tool None) object_cursor_new p) (\<lambda>(table, p').
          and_then (map_err VE_Json (parser_finish p')) (\<lambda>_.
            bind_fields table \<lparr>ba_fields = replicate max_args_per_tool None, ba_len = 0\<rparr>
              (zip [0..<length args] args)))))"

section \<open>Assignments\<close>

text \<open>The contracts the catalog holds: few arguments, distinct plain names, distinct plain options.\<close>

definition plain :: "string \<Rightarrow> bool" where
  "plain s \<longleftrightarrow> string_body (str_bytes s)"

definition contract_ok :: "tool_contract \<Rightarrow> bool" where
  "contract_ok c \<longleftrightarrow> length (tc_args c) \<le> max_args_per_tool \<and>
     distinct (map (str_bytes \<circ> as_name) (tc_args c)) \<and>
     list_all (\<lambda>spec. plain (as_name spec) \<and>
       (case as_kind spec of
          Arg_Enum options \<Rightarrow> length options \<le> 256 \<and> distinct (map str_bytes options) \<and> list_all plain options
        | _ \<Rightarrow> True)) (tc_args c)"

text \<open>A value in the range of its spec, and how it is spelled.\<close>

fun scalar_fits :: "arg_kind \<Rightarrow> scalar \<Rightarrow> bool" where
  "scalar_fits (Arg_U8 lo hi) (Sc_U8 n) \<longleftrightarrow> lo \<le> n \<and> n \<le> hi"
| "scalar_fits (Arg_U16 lo hi) (Sc_U16 n) \<longleftrightarrow> lo \<le> n \<and> n \<le> hi"
| "scalar_fits (Arg_Enum options) (Sc_Enum i) \<longleftrightarrow> unat i < length options"
| "scalar_fits _ _ \<longleftrightarrow> False"

fun spelling :: "arg_kind \<Rightarrow> scalar \<Rightarrow> json_value" where
  "spelling _ (Sc_U8 n) = J_Number (decimal (unat n))"
| "spelling _ (Sc_U16 n) = J_Number (decimal (unat n))"
| "spelling (Arg_Enum options) (Sc_Enum i) = J_Str (str_bytes (options ! unat i))"
| "spelling _ (Sc_Enum i) = J_Null"

text \<open>An assignment gives values to arguments, by position and in the order the input spells them.\<close>

definition assigns :: "arg_spec list \<Rightarrow> (nat \<times> scalar) list \<Rightarrow> bool" where
  "assigns args ms \<longleftrightarrow> distinct (map fst ms) \<and>
     list_all (\<lambda>(i, s). i < length args \<and> scalar_fits (as_kind (args ! i)) s) ms"

definition spelled :: "arg_spec list \<Rightarrow> (nat \<times> scalar) list \<Rightarrow> (bytes \<times> json_value) list" where
  "spelled args ms = map (\<lambda>(i, s). (str_bytes (as_name (args ! i)), spelling (as_kind (args ! i)) s)) ms"

text \<open>The fields in contract order.\<close>

definition fields_of :: "arg_spec list \<Rightarrow> (nat \<times> scalar) list \<Rightarrow> bound_field list" where
  "fields_of args ms = List.map_filter
     (\<lambda>i. map_option (\<lambda>s. \<lparr>bf_name = as_name (args ! i), bf_value = s\<rparr>) (map_of ms i)) [0..<length args]"

definition bound_of :: "arg_spec list \<Rightarrow> (nat \<times> scalar) list \<Rightarrow> bound_args" where
  "bound_of args ms =
     \<lparr>ba_fields = pack max_args_per_tool (fields_of args ms), ba_len = of_nat (length (fields_of args ms))\<rparr>"

definition complete :: "arg_spec list \<Rightarrow> (nat \<times> scalar) list \<Rightarrow> bool" where
  "complete args ms \<longleftrightarrow> (\<forall>i < length args. as_required (args ! i) \<longrightarrow> i \<in> fst ` set ms)"

section \<open>One value\<close>

lemma position_unique:
  "distinct (map f xs) \<Longrightarrow> i < length xs \<Longrightarrow> position (\<lambda>x. f x = f (xs ! i)) xs = Some i"
  by (auto simp: position_Some_iff distinct_conv_nth)

lemma check_scalar_fits:
  assumes ok: "contract_ok c" and i: "i < length (tc_args c)" and v: "value_ok v"
  defines "spec \<equiv> tc_args c ! i"
  shows "check_scalar spec v = Inr s \<longleftrightarrow> scalar_fits (as_kind spec) s \<and> v = spelling (as_kind spec) s"
proof (cases "as_kind spec")
  case (Arg_U8 lo hi)
  then show ?thesis using v parse_u8_decimal
    by (cases s; cases v) (auto simp: check_scalar_def result_simps not_less)
next
  case (Arg_U16 lo hi)
  then show ?thesis using v parse_u16_decimal
    by (cases s; cases v) (auto simp: check_scalar_def result_simps not_less)
next
  case (Arg_Enum options)
  have opts: "length options \<le> 256" "distinct (map str_bytes options)"
    using ok i Arg_Enum by (auto simp: contract_ok_def list_all_length spec_def)
  show ?thesis
  proof (cases v)
    case (J_Str raw)
    have "position (\<lambda>option. str_bytes option = raw) options = Some k \<longleftrightarrow>
        k < length options \<and> raw = str_bytes (options ! k)" for k
      using position_unique [OF opts(2)] by (auto simp: position_Some_iff)
    moreover have "try_from k = Some (w :: u8) \<longleftrightarrow> k = unat w" if "k < length options" for k w
      using that opts(1) by (auto simp: result_simps unat_of_nat take_bit_nat_eq_self)
    ultimately show ?thesis using Arg_Enum J_Str
      by (cases s) (auto simp: check_scalar_def result_simps)
  qed (use Arg_Enum in \<open>cases s; simp add: check_scalar_def\<close>)+
qed

section \<open>The entries\<close>

definition table_of :: "(nat \<times> scalar) list \<Rightarrow> (u8 \<times> scalar) option list" where
  "table_of ms = pack max_args_per_tool (map (\<lambda>(i, s). (of_nat i, s)) ms)"

definition left :: "parser \<Rightarrow> parser" where
  "left p = p\<lparr>jp_depth := jp_depth p - 1\<rparr>"

lemma close_left: "close_composite (past p w) = left (past p (w @ [0x7d]))"
  by (simp add: close_composite_def left_def past_def)

lemma spelled_Cons:
  "spelled args ((i, s) # ms) = (str_bytes (as_name (args ! i)), spelling (as_kind (args ! i)) s) # spelled args ms"
  by (simp add: spelled_def)

lemma spelled_append: "spelled args (as @ bs) = spelled args as @ spelled args bs"
  by (simp add: spelled_def)

lemma spelled_keys:
  assumes "contract_ok c" and "assigns (tc_args c) ms" and "i < length (tc_args c)"
  shows "str_bytes (as_name (tc_args c ! i)) \<in> fst ` set (spelled (tc_args c) ms) \<longleftrightarrow> i \<in> fst ` set ms"
proof -
  have "j = i" if "j < length (tc_args c)" "str_bytes (as_name (tc_args c ! j)) = str_bytes (as_name (tc_args c ! i))" for j
    using assms(1,3) that by (auto simp: contract_ok_def distinct_conv_nth)
  then have "str_bytes (as_name (tc_args c ! fst m)) = str_bytes (as_name (tc_args c ! i)) \<longleftrightarrow> fst m = i" if "m \<in> set ms" for m
    using that assms(2) by (auto simp: assigns_def list_all_iff)
  moreover have "fst ` set (spelled (tc_args c) ms) = (\<lambda>m. str_bytes (as_name (tc_args c ! fst m))) ` set ms"
    by (simp add: spelled_def image_image case_prod_beta)
  ultimately show ?thesis by (metis (no_types, lifting) image_iff)
qed

lemma assigns_snoc:
  "assigns args (ms @ [(i, s)]) \<longleftrightarrow> assigns args ms \<and> i \<notin> fst ` set ms \<and> i < length args \<and> scalar_fits (as_kind (args ! i)) s"
  by (auto simp: assigns_def)

lemma assigns_length: "assigns args ms \<Longrightarrow> length ms \<le> length args"
proof -
  assume a: "assigns args ms"
  then have "fst ` set ms \<subseteq> {..<length args}" by (auto simp: assigns_def list_all_iff)
  then have "card (set (map fst ms)) \<le> length args" using card_mono [of "{..<length args}" "fst ` set ms"] by simp
  then show ?thesis using a by (simp only: assigns_def distinct_card length_map)
qed

lemma try_small: "i < 256 \<Longrightarrow> try_from i = Some (of_nat i :: u8)"
  by (simp add: try_from_def)

lemma table_snoc:
  "fill_free (of_nat i, s) (table_of ms) = (if length ms < max_args_per_tool then Some (table_of (ms @ [(i, s)])) else None)"
  by (simp add: table_of_def fill_free_pack)

lemma entries_loop_sound:
  assumes ok: "contract_ok c" and args: "args = tc_args c"
  shows "entries_loop args table cur p = Inr (table', p') \<Longrightarrow> ahead p xs \<Longrightarrow> seen cur (map fst (spelled args ms)) \<Longrightarrow>
    \<not> oc_done cur \<Longrightarrow> table = table_of ms \<Longrightarrow> assigns args ms \<Longrightarrow>
    \<exists>ms' body ys. xs = body @ ys \<and> members_text (oc_first cur) (spelled args ms') body \<and> assigns args (ms @ ms') \<and>
      table' = table_of (ms @ ms') \<and> p' = left (past p body)"
  using args
proof (induction args table cur p arbitrary: xs ms rule: entries_loop.induct)
  case (1 args table cur p)
  from 1(2) obtain entry cur1 p1 where ne: "next_entry cur p = Inr (entry, cur1, p1)"
    by (subst (asm) entries_loop.simps) (auto simp: result_simps)
  show ?case
  proof (cases entry)
    case None
    then have res: "table' = table" "p' = p1" using 1(2) ne by (simp_all add: entries_loop.simps [of args table])
    from next_entry_close_sound [OF 1(3,5) ne [unfolded None]] obtain w ys where
      w: "xs = w @ 0x7d # ys" "ws_text w" "p1 = close_composite (past p w)" by blast
    show ?thesis
      by (rule exI [of _ "[]"], rule exI [of _ "w @ [0x7d]"], rule exI [of _ ys])
        (use w res 1(6,7) in \<open>simp add: spelled_def close_left\<close>)
  next
    case (Some kv)
    obtain key v where kv: "kv = (key, v)" by (cases kv)
    from next_entry_sound [OF 1(3,4,5) ne [unfolded Some kv]] obtain e ys1 where
      e: "xs = e @ ys1" "entry_text (oc_first cur) key v e" "string_body key" "value_ok v"
        "key \<notin> set (map fst (spelled args ms))" "length (map fst (spelled args ms)) < max_object_keys"
        "cur1 = (remember key cur)\<lparr>oc_first := False\<rparr>" "p1 = opened v (past p e)" by blast
    from 1(2) obtain at s at8 table1 where
      at: "position (\<lambda>spec. str_bytes (as_name spec) = key) args = Some at" and
      s: "check_scalar (args ! at) v = Inr s" and at8: "try_from at = Some at8" and
      t1: "fill_free (at8, s) table = Some table1" and rec: "entries_loop args table1 cur1 p1 = Inr (table', p')"
      by (subst (asm) entries_loop.simps) (auto simp: result_simps ne Some kv simp del: try_from_Some_iff)
    have i: "at < length args" "key = str_bytes (as_name (args ! at))" using at by (auto simp: position_Some_iff)
    have fit: "scalar_fits (as_kind (args ! at)) s" "v = spelling (as_kind (args ! at)) s"
      using check_scalar_fits [OF ok _ e(4), of at s] i(1) s 1(8) by simp_all
    then have v: "\<not> is_composite v" by (cases "as_kind (args ! at)"; cases s) auto
    have "at \<notin> fst ` set ms" using spelled_keys [OF ok, of ms at] 1(7,8) e(5) i by auto
    then have assign: "assigns args (ms @ [(at, s)])" using 1(7) i(1) fit(1) by (simp add: assigns_snoc)
    have "at < 256" using i(1) ok 1(8) by (simp add: contract_ok_def max_args_per_tool_def)
    then have table: "table1 = table_of (ms @ [(at, s)])"
      using t1 at8 1(6) table_snoc [of at s ms] by (auto simp: try_small simp del: try_from_Some_iff split: if_splits)
    have p1: "p1 = past p e" using e(8) v by (simp add: opened_def)
    have ah: "ahead p1 ys1" using 1(3) e(1) p1 by (simp add: ahead_past)
    have sn: "seen cur1 (map fst (spelled args (ms @ [(at, s)])))"
      using seen_remember [OF 1(4) e(6), of key] e(7) i(2) by (simp add: seen_first spelled_append spelled_Cons) (simp add: spelled_def)
    have live: "\<not> oc_done cur1" using e(7) 1(5) by simp
    have steps: "map_err VE_Json (next_entry cur p) = Inr (Some (key, v), cur1, p1)"
      "ok_or VE_UnknownArgument (position (\<lambda>spec. str_bytes (as_name spec) = key) args) = Inr at"
      "ok_or VE_TooManyArguments (try_from at) = Inr at8"
      "ok_or VE_TooManyArguments (fill_free (at8, s) table) = Inr table1"
      using ne Some kv at at8 t1 by simp_all
    from "1.IH" [OF steps(1) refl refl refl refl steps(2) s steps(3,4) rec ah sn live table assign 1(8)]
    obtain ms' body ys where rest: "ys1 = body @ ys" "members_text (oc_first cur1) (spelled args ms') body"
      "assigns args ((ms @ [(at, s)]) @ ms')" "table' = table_of ((ms @ [(at, s)]) @ ms')" "p' = left (past p1 body)"
      by blast
    show ?thesis
      by (rule exI [of _ "(at, s) # ms'"], rule exI [of _ "e @ body"], rule exI [of _ ys])
        (use rest e i fit p1 in \<open>auto simp: spelled_Cons\<close>)
  qed
qed

lemma spelling_ok:
  assumes "contract_ok c" and "i < length (tc_args c)" and "scalar_fits (as_kind (tc_args c ! i)) s"
  shows "value_ok (spelling (as_kind (tc_args c ! i)) s) \<and> \<not> is_composite (spelling (as_kind (tc_args c ! i)) s) \<and>
    string_body (str_bytes (as_name (tc_args c ! i)))"
  using assms decimal_int_text int_number
  by (cases "as_kind (tc_args c ! i)"; cases s) (auto simp: contract_ok_def list_all_length plain_def)

lemma entries_loop_complete:
  assumes ok: "contract_ok c" and args: "args = tc_args c"
  shows "ahead p (body @ ys) \<Longrightarrow> members_text (oc_first cur) (spelled args ms') body \<Longrightarrow>
    seen cur (map fst (spelled args ms)) \<Longrightarrow> \<not> oc_done cur \<Longrightarrow> assigns args (ms @ ms') \<Longrightarrow>
    entries_loop args (table_of ms) cur p = Inr (table_of (ms @ ms'), left (past p body))"
proof (induction ms' arbitrary: p body cur ms)
  case Nil
  then obtain w where "body = w @ [0x7d]" "ws_text w" by (auto simp: spelled_def)
  with Nil next_entry_close_complete [of p w ys cur] show ?case
    by (simp add: entries_loop.simps [of args] close_left)
next
  case (Cons m ms')
  obtain at s where m: "m = (at, s)" by (cases m)
  let ?spec = "args ! at" and ?ms = "ms @ [(at, s)]"
  let ?key = "str_bytes (as_name ?spec)" and ?v = "spelling (as_kind ?spec) s"
  let ?cur = "(remember ?key cur)\<lparr>oc_first := False\<rparr>"
  have all: "assigns args (?ms @ ms')" using Cons.prems(5) m by simp
  then have assign: "assigns args ?ms" by (auto simp: assigns_def)
  then have i: "at < length args" "at \<notin> fst ` set ms" "scalar_fits (as_kind ?spec) s" and prev: "assigns args ms"
    by (simp_all add: assigns_snoc)
  have n: "length ms < max_args_per_tool"
    using assigns_length [OF assign] ok args by (simp add: contract_ok_def)
  from Cons.prems(2) obtain e rest where b: "body = e @ rest" "entry_text (oc_first cur) ?key ?v e"
    "members_text False (spelled args ms') rest" by (auto simp: m spelled_Cons)
  have v: "value_ok ?v" "\<not> is_composite ?v" "string_body ?key" using spelling_ok [OF ok] i args by auto
  have new: "?key \<notin> set (map fst (spelled args ms))" using spelled_keys [OF ok, of ms at] prev i args by simp
  have len: "length (map fst (spelled args ms)) < max_object_keys"
    using n by (simp add: spelled_def max_args_per_tool_def max_object_keys_def)
  have ah: "ahead p (e @ rest @ ys)" using Cons.prems(1) b(1) by simp
  have ne: "next_entry cur p = Inr (Some (?key, ?v), ?cur, past p e)"
    using next_entry_complete [OF ah Cons.prems(3,4) b(2) v(3) new len v(1)] members_text_ends [OF b(3)] v(2)
    by (simp add: opened_def)
  have pos: "position (\<lambda>spec. str_bytes (as_name spec) = ?key) args = Some at"
    using position_unique [of "str_bytes \<circ> as_name" args at] ok args i(1) by (simp add: contract_ok_def)
  have chk: "check_scalar ?spec ?v = Inr s" using check_scalar_fits [OF ok] i args v(1) by simp
  have at8: "try_from at = Some (of_nat at :: u8)"
    using i(1) ok args by (intro try_small) (simp add: contract_ok_def max_args_per_tool_def)
  have "entries_loop args (table_of ms) cur p = entries_loop args (table_of ?ms) ?cur (past p e)"
    by (subst entries_loop.simps) (simp add: ne pos chk at8 table_snoc n)
  also have "\<dots> = Inr (table_of (?ms @ ms'), left (past (past p e) rest))"
  proof (rule Cons.IH)
    show "ahead (past p e) (rest @ ys)" using ah by (rule ahead_past)
    show "seen ?cur (map fst (spelled args ?ms))"
      using seen_remember [OF Cons.prems(3) len, of ?key] by (simp add: seen_first spelled_append spelled_Cons) (simp add: spelled_def)
  qed (use b(3) all Cons.prems(4) in simp_all)
  finally show ?case using b(1) m by simp
qed

section \<open>The bound arguments\<close>

lemma find_at_table:
  assumes "contract_ok c" and "assigns (tc_args c) ms"
  shows "find_at i (table_of ms) = map_of ms i"
proof -
  have "length ms \<le> max_args_per_tool" using assigns_length [OF assms(2)] assms(1) by (simp add: contract_ok_def)
  moreover have "list_all (\<lambda>(j, s). j < 256) ms"
    using assms by (auto simp: assigns_def contract_ok_def list_all_iff max_args_per_tool_def)
  then have "map_option snd (List.find (\<lambda>(j, _). unat j = i) (map (\<lambda>(j, s). (of_nat j :: u8, s)) ms)) = map_of ms i"
    by (induction ms) (auto simp: unat_of_nat take_bit_nat_eq_self)
  ultimately show ?thesis by (simp add: find_at_def table_of_def flatten_pack)
qed

definition emitted :: "(nat \<times> scalar) list \<Rightarrow> (nat \<times> arg_spec) list \<Rightarrow> bound_field list" where
  "emitted ms slots = List.map_filter
     (\<lambda>(i, spec). map_option (\<lambda>s. \<lparr>bf_name = as_name spec, bf_value = s\<rparr>) (map_of ms i)) slots"

definition bound_list :: "bound_field list \<Rightarrow> bound_args" where
  "bound_list fs = \<lparr>ba_fields = pack max_args_per_tool fs, ba_len = of_nat (length fs)\<rparr>"

lemma bind_fields_iff:
  assumes ok: "contract_ok c" "assigns (tc_args c) ms"
  shows "length fs + length slots \<le> max_args_per_tool \<Longrightarrow>
    bind_fields (table_of ms) (bound_list fs) slots = Inr b \<longleftrightarrow>
      list_all (\<lambda>(i, spec). as_required spec \<longrightarrow> i \<in> fst ` set ms) slots \<and> b = bound_list (fs @ emitted ms slots)"
proof (induction slots arbitrary: fs)
  case Nil
  then show ?case by (auto simp: emitted_def List.map_filter_def)
next
  case (Cons slot slots)
  obtain i spec where slot: "slot = (i, spec)" by (cases slot)
  show ?case
  proof (cases "map_of ms i")
    case None
    then have "i \<notin> fst ` set ms" by (simp add: map_of_eq_None_iff)
    then show ?thesis using None Cons
      by (auto simp: slot bind_field_def find_at_table [OF ok] emitted_def List.map_filter_def)
  next
    case (Some s)
    then have "i \<in> fst ` set ms" using map_of_eq_None_iff [of ms i] by auto
    have small: "length fs < 4" "Suc (length fs) + length slots \<le> max_args_per_tool"
      using Cons.prems by (simp_all add: max_args_per_tool_def)
    then have u: "unat (of_nat (length fs) :: u8) = length fs"
      by (simp add: unat_of_nat take_bit_nat_eq_self)
    then have "unat (saturating_add (of_nat (length fs) :: u8) 1) = Suc (length fs)"
      using small(1) by (simp add: unat_saturating_add)
    then have len: "saturating_add (of_nat (length fs) :: u8) 1 = of_nat (Suc (length fs))"
      using small(1) by (simp add: word_unat_eq_iff unat_of_nat take_bit_nat_eq_self del: of_nat_Suc)
    let ?f = "\<lparr>bf_name = as_name spec, bf_value = s\<rparr>"
    have "bind_field (table_of ms) (bound_list fs) slot = Inr (bound_list (fs @ [?f]))"
      using Some u len small(1)
      by (simp add: slot bind_field_def find_at_table [OF ok] bound_list_def pack_append length_pack max_args_per_tool_def)
    then show ?thesis using Cons.IH [of "fs @ [?f]"] Some \<open>i \<in> fst ` set ms\<close> small(2)
      by (simp add: slot emitted_def List.map_filter_def)
  qed
qed

lemma emitted_fields: "emitted ms (zip [0..<length args] args) = fields_of args ms"
proof -
  have "zip [0..<length args] args = map (\<lambda>i. (i, args ! i)) [0..<length args]"
    by (rule nth_equalityI) simp_all
  then show ?thesis by (simp add: emitted_def fields_of_def List.map_filter_def filter_map o_def)
qed

lemma complete_slots:
  "list_all (\<lambda>(i, spec). as_required spec \<longrightarrow> i \<in> fst ` set ms) (zip [0..<length args] args) \<longleftrightarrow> complete args ms"
  by (auto simp: complete_def list_all_length)

lemma bind_all:
  assumes "contract_ok c" and "assigns (tc_args c) ms"
  shows "bind_fields (table_of ms) \<lparr>ba_fields = replicate max_args_per_tool None, ba_len = 0\<rparr>
      (zip [0..<length (tc_args c)] (tc_args c)) = Inr b \<longleftrightarrow> complete (tc_args c) ms \<and> b = bound_of (tc_args c) ms"
proof -
  have "\<lparr>ba_fields = replicate max_args_per_tool None, ba_len = 0\<rparr> = bound_list []"
    by (simp add: bound_list_def pack_def)
  then show ?thesis
    using bind_fields_iff [OF assms, of "[]" "zip [0..<length (tc_args c)] (tc_args c)" b] assms(1)
    by (simp add: complete_slots emitted_fields contract_ok_def) (simp add: bound_list_def bound_of_def)
qed

section \<open>The language of the validator\<close>

lemma table_new: "replicate max_args_per_tool None = table_of []"
  by (simp add: table_of_def pack_def)

lemma finish_iff: "ahead p xs \<Longrightarrow> parser_finish p = Inr () \<longleftrightarrow> xs = []"
  by (auto simp: parser_finish_def ahead_def)

lemma ahead_left [simp]: "ahead (left p) xs \<longleftrightarrow> ahead p xs"
  by (simp add: ahead_def left_def)

lemma cursor_new [simp]: "oc_first object_cursor_new" "\<not> oc_done object_cursor_new"
  by (simp_all add: object_cursor_new_def)

lemma validate_language:
  assumes ok: "contract_ok c"
  shows "validate c json = Inr b \<longleftrightarrow>
    (\<exists>ms. assigns (tc_args c) ms \<and> complete (tc_args c) ms \<and> object_text (spelled (tc_args c) ms) json \<and>
       b = bound_of (tc_args c) ms)"
proof -
  let ?args = "tc_args c" and ?new = "parser_new json"
  have few: "\<not> max_args_per_tool < length ?args" using ok by (simp add: contract_ok_def)
  have "validate c json = Inr b \<longleftrightarrow> (\<exists>p table p'. parse_value ?new = Inr (J_Object, p) \<and>
      entries_loop ?args (table_of []) object_cursor_new p = Inr (table, p') \<and> parser_finish p' = Inr () \<and>
      bind_fields table \<lparr>ba_fields = replicate max_args_per_tool None, ba_len = 0\<rparr> (zip [0..<length ?args] ?args) = Inr b)"
    using few by (auto simp: validate_def Let_def result_simps table_new)
  also have "\<dots> \<longleftrightarrow> (\<exists>ms. assigns ?args ms \<and> object_text (spelled ?args ms) json \<and>
      bind_fields (table_of ms) \<lparr>ba_fields = replicate max_args_per_tool None, ba_len = 0\<rparr> (zip [0..<length ?args] ?args) = Inr b)"
    (is "?lhs \<longleftrightarrow> ?rhs")
  proof
    assume ?lhs
    then obtain p table p' where run: "parse_value ?new = Inr (J_Object, p)"
      "entries_loop ?args (table_of []) object_cursor_new p = Inr (table, p')" "parser_finish p' = Inr ()"
      "bind_fields table \<lparr>ba_fields = replicate max_args_per_tool None, ba_len = 0\<rparr> (zip [0..<length ?args] ?args) = Inr b"
      by blast
    from parse_value_sound [OF ahead_new run(1)] obtain w ys where
      w: "json = w @ 0x7b # ys" "ws_text w" "p = opened J_Object (past ?new (w @ [0x7b]))" by auto
    have ah: "ahead p ys" using ahead_past [of ?new "w @ [0x7b]" ys] ahead_new [of json] w by simp
    have start: "seen object_cursor_new (map fst (spelled ?args []))" "assigns ?args []"
      by (simp_all add: seen_new spelled_def assigns_def)
    from entries_loop_sound [OF ok refl run(2) ah start(1) _ refl start(2)] obtain ms body zs where
      ms: "ys = body @ zs" "members_text True (spelled ?args ms) body" "assigns ?args ms" "table = table_of ms"
        "p' = left (past p body)" by auto
    have "ahead p' zs" using ah ms(1,5) ahead_past [of p body zs] by simp
    then have "zs = []" using run(3) finish_iff by blast
    then have "object_text (spelled ?args ms) json" using w ms(1,2) unfolding object_text_def by auto
    then show ?rhs using ms(3,4) run(4) by blast
  next
    assume ?rhs
    then obtain ms w body where ms: "assigns ?args ms" "json = w @ 0x7b # body" "ws_text w"
      "members_text True (spelled ?args ms) body"
      "bind_fields (table_of ms) \<lparr>ba_fields = replicate max_args_per_tool None, ba_len = 0\<rparr> (zip [0..<length ?args] ?args) = Inr b"
      unfolding object_text_def by blast
    let ?p = "opened J_Object (past ?new (w @ [0x7b]))"
    have "ahead ?new (w @ value_bytes J_Object @ body)" using ahead_new [of json] ms(2) by simp
    from parse_value_complete [OF this ms(3)] have p: "parse_value ?new = Inr (J_Object, ?p)"
      by (simp add: parser_new_def max_json_depth_def)
    have "ahead ?new ((w @ [0x7b]) @ body)" using ahead_new [of json] ms(2) by simp
    from ahead_past [OF this] have ah: "ahead ?p (body @ [])" by simp
    have loop: "entries_loop ?args (table_of []) object_cursor_new ?p = Inr (table_of ms, left (past ?p body))"
      using entries_loop_complete [OF ok refl ah, of object_cursor_new ms "[]"] ms(1,4) seen_new
      by (simp add: spelled_def)
    have "ahead (left (past ?p body)) []" using ahead_past [OF ah] by simp
    then have "parser_finish (left (past ?p body)) = Inr ()" using finish_iff by blast
    then show ?lhs using p loop ms(5) by blast
  qed
  also have "\<dots> \<longleftrightarrow> (\<exists>ms. assigns ?args ms \<and> complete ?args ms \<and> object_text (spelled ?args ms) json \<and> b = bound_of ?args ms)"
    using bind_all [OF ok] by blast
  finally show ?thesis .
qed

text \<open>C20: on every contract with few arguments and distinct plain names and options, the validator
  accepts exactly the spellings of complete assignments: an object whose keys, in any order, name
  distinct arguments, each with a plain decimal numeral in its range or one of its options, with
  JSON whitespace between the tokens and no byte after the closing brace. It returns the values in
  contract order.\<close>

theorem validate_exact:
  assumes "contract_ok c"
  shows "validate c json = Inr b \<longleftrightarrow>
    (\<exists>ms. assigns (tc_args c) ms \<and> complete (tc_args c) ms \<and> object_text (spelled (tc_args c) ms) json \<and>
       b = bound_of (tc_args c) ms)"
  using assms by (rule validate_language)

section \<open>The catalog\<close>

lemma catalog_contract_ok: "list_all contract_ok catalog"
  by (simp add: catalog_def contract_ok_def max_args_per_tool_def plain_def str_bytes_def)

theorem validate_exact_witness:
  "validate (catalog ! 1) (str_bytes ''{'' @ quoted (str_bytes ''level'') @ str_bytes '': '' @ quoted (str_bytes ''high'') @
       str_bytes '','' @ quoted (str_bytes ''pin'') @ str_bytes '':4}'') =
     Inr (bound_of (tc_args (catalog ! 1)) [(1, Sc_Enum 1), (0, Sc_U8 4)]) \<and>
   bound_get (bound_of (tc_args (catalog ! 1)) [(1, Sc_Enum 1), (0, Sc_U8 4)]) ''pin'' = Some (Sc_U8 4)"
proof
  have ok: "contract_ok (catalog ! 1)"
    using catalog_contract_ok by (simp add: catalog_def)
  show "bound_get (bound_of (tc_args (catalog ! 1)) [(1, Sc_Enum 1), (0, Sc_U8 4)]) ''pin'' = Some (Sc_U8 4)"
    by (simp add: bound_get_def bound_of_def fields_of_def catalog_def List.map_filter_def pack_def max_args_per_tool_def)
  show "validate (catalog ! 1) (str_bytes ''{'' @ quoted (str_bytes ''level'') @ str_bytes '': '' @ quoted (str_bytes ''high'') @
       str_bytes '','' @ quoted (str_bytes ''pin'') @ str_bytes '':4}'') =
     Inr (bound_of (tc_args (catalog ! 1)) [(1, Sc_Enum 1), (0, Sc_U8 4)])"
    unfolding validate_exact [OF ok]
  proof (intro exI conjI)
    let ?ms = "[(1 :: nat, Sc_Enum 1), (0, Sc_U8 4)]"
    show "assigns (tc_args (catalog ! 1)) ?ms" by (simp add: assigns_def catalog_def)
    show "complete (tc_args (catalog ! 1)) ?ms" by (auto simp: complete_def catalog_def less_Suc_eq)
    have 1: "entry_text True (str_bytes ''level'') (J_Str (str_bytes ''high''))
        (quoted (str_bytes ''level'') @ str_bytes '': '' @ quoted (str_bytes ''high''))"
      unfolding entry_text_def
      by (rule exI [of _ "[]"], rule exI [of _ "[]"], rule exI [of _ "[0x20]"])
        (simp add: str_bytes_def sep_text_def ws_text_def is_ws_def)
    have "decimal 4 = [0x34]" by (simp add: decimal.simps)
    then have 2: "entry_text False (str_bytes ''pin'') (J_Number (decimal 4))
        (str_bytes '','' @ quoted (str_bytes ''pin'') @ str_bytes '':4'')"
      unfolding entry_text_def
      by - (rule exI [of _ "[0x2c]"], rule exI [of _ "[]"], rule exI [of _ "[]"],
        simp add: str_bytes_def sep_text_def ws_text_def, rule exI [of _ "[]"], simp)
    have 3: "members_text True [(str_bytes ''level'', J_Str (str_bytes ''high'')), (str_bytes ''pin'', J_Number (decimal 4))]
        ((quoted (str_bytes ''level'') @ str_bytes '': '' @ quoted (str_bytes ''high'')) @
         (str_bytes '','' @ quoted (str_bytes ''pin'') @ str_bytes '':4'') @ [] @ [0x7d])"
      using 1 2 unfolding members_text.simps ws_text_def by (metis list.pred_inject(1))
    show "object_text (spelled (tc_args (catalog ! 1)) ?ms) (str_bytes ''{'' @ quoted (str_bytes ''level'') @ str_bytes '': '' @
        quoted (str_bytes ''high'') @ str_bytes '','' @ quoted (str_bytes ''pin'') @ str_bytes '':4}'')"
      unfolding object_text_def
    proof (rule exI [of _ "[]"], rule exI [of _ "(quoted (str_bytes ''level'') @ str_bytes '': '' @ quoted (str_bytes ''high'')) @
         (str_bytes '','' @ quoted (str_bytes ''pin'') @ str_bytes '':4'') @ [] @ [0x7d]"], intro conjI)
      have "spelled (tc_args (catalog ! 1)) ?ms =
          [(str_bytes ''level'', J_Str (str_bytes ''high'')), (str_bytes ''pin'', J_Number (decimal 4))]"
        by (simp add: spelled_def catalog_def)
      with 3 show "members_text True (spelled (tc_args (catalog ! 1)) ?ms)
          ((quoted (str_bytes ''level'') @ str_bytes '': '' @ quoted (str_bytes ''high'')) @
           (str_bytes '','' @ quoted (str_bytes ''pin'') @ str_bytes '':4'') @ [] @ [0x7d])" by simp
    qed (simp_all add: str_bytes_def ws_text_def)
  qed simp
qed

end
