(* ===== verification/Decision.thy ===== *)
theory Decision
  imports Validate Registry "HOL-Library.Sublist"
begin

text \<open>
  Decoding one model output line (\<open>esper-core/src/decision.rs\<close>): the verb line, the typed binding of
  validated arguments, the two envelopes and the draining of composite values. The properties: the
  exact language of \<open>CALL\<close> lines, the type of every decision, and a repair hint for every rejection.
\<close>

section \<open>Decisions\<close>

definition max_line_bytes :: nat where "max_line_bytes = 512"
definition max_args_bytes :: nat where "max_args_bytes = 256"
definition max_json_bytes :: nat where "max_json_bytes = 384"
definition max_prompt_bytes :: nat where "max_prompt_bytes = 256"
definition max_summary_bytes :: nat where "max_summary_bytes = 256"
definition pin_select_schema :: u8 where "pin_select_schema = 1"

record tool_call =
  tl_tool :: tool_id
  tl_args :: tool_args
  tl_args_bytes :: bytes
  tl_args_digest :: digest

record input_request =
  ir_prompt :: bytes
  ir_response_schema_id :: u8

datatype finish_status = FS_Completed

fun finish_status_name :: "finish_status \<Rightarrow> string" where
  "finish_status_name FS_Completed = ''completed''"

definition finish_status_from_bytes :: "bytes \<Rightarrow> error + finish_status" where
  "finish_status_from_bytes bs =
     (if bs = str_bytes ''completed'' then Inr FS_Completed else Inl (E_BadFieldValue F_Status))"

record final_answer =
  fa_status :: finish_status
  fa_summary :: bytes

datatype decision =
    Dec_Call tool_call
  | Dec_Ask input_request
  | Dec_Finish final_answer

section \<open>Binding arguments\<close>

text \<open>Strings of the source with quotation marks in them.\<close>

definition in_quotes :: "string \<Rightarrow> string" where
  "in_quotes s = [CHR 0x22] @ s @ [CHR 0x22]"

definition fetch_scalar :: "bound_args \<Rightarrow> field \<Rightarrow> string \<Rightarrow> error + scalar" where
  "fetch_scalar args f name = ok_or (E_MissingField f) (bound_get args name)"

definition pin_arg :: "bound_args \<Rightarrow> error + pin" where
  "pin_arg args = and_then (fetch_scalar args F_Pin ''pin'') (\<lambda>s.
     case s of
       Sc_U8 n \<Rightarrow> pin_new n
     | _ \<Rightarrow> Inl (E_BadFieldType F_Pin ''integer 0..=7''))"

definition level_arg :: "bound_args \<Rightarrow> error + level" where
  "level_arg args = and_then (fetch_scalar args F_Level ''level'') (\<lambda>s.
     case s of
       Sc_Enum i \<Rightarrow>
         if i = 0 then Inr L_Low else if i = 1 then Inr L_High else Inl (E_BadFieldValue F_Level)
     | _ \<Rightarrow> Inl (E_BadFieldType F_Level (in_quotes ''low'' @ '' | '' @ in_quotes ''high'')))"

definition sensor_arg :: "bound_args \<Rightarrow> error + u8" where
  "sensor_arg args = and_then (fetch_scalar args F_Sensor ''sensor'') (\<lambda>s.
     case s of
       Sc_U8 n \<Rightarrow> if n < sensor_count then Inr n else Inl (E_BadFieldValue F_Sensor)
     | _ \<Rightarrow> Inl (E_BadFieldType F_Sensor ''integer 0..=3''))"

definition ms_arg :: "bound_args \<Rightarrow> error + u16" where
  "ms_arg args = and_then (fetch_scalar args F_Ms ''ms'') (\<lambda>s.
     case s of
       Sc_U16 n \<Rightarrow> if 1 \<le> n \<and> n \<le> 5000 then Inr n else Inl (E_BadFieldValue F_Ms)
     | _ \<Rightarrow> Inl (E_BadFieldType F_Ms ''integer 1..=5000''))"

definition detail_arg :: "bound_args \<Rightarrow> error + status_detail" where
  "detail_arg args = and_then (fetch_scalar args F_Detail ''detail'') (\<lambda>s.
     case s of
       Sc_Enum i \<Rightarrow>
         if i = 0 then Inr D_Summary else if i = 1 then Inr D_Full else Inl (E_BadFieldValue F_Detail)
     | _ \<Rightarrow> Inl (E_BadFieldType F_Detail (in_quotes ''summary'' @ '' | '' @ in_quotes ''full'')))"

definition bind_args :: "tool_id \<Rightarrow> bound_args \<Rightarrow> error + tool_args" where
  "bind_args tool args =
     (let i = tool_id_get tool in
      if i = gpio_pin_read_id then and_then (pin_arg args) (\<lambda>p. Inr (GpioPinRead p))
      else if i = gpio_pin_write_id
      then and_then (pin_arg args) (\<lambda>p. and_then (level_arg args) (\<lambda>l. Inr (GpioPinWrite p l)))
      else if i = sensor_sample_read_id then and_then (sensor_arg args) (\<lambda>s. Inr (SensorSampleRead s))
      else if i = timer_uptime_read_id then Inr TimerUptimeRead
      else if i = timer_delay_wait_id then and_then (ms_arg args) (\<lambda>ms. Inr (TimerDelayWait ms))
      else if i = device_status_report_id then and_then (detail_arg args) (\<lambda>d. Inr (DeviceStatusReport d))
      else Inl E_UnknownToolName)"

section \<open>Errors of the validator\<close>

definition field_of :: "string \<Rightarrow> field option" where
  "field_of name =
     (if name = ''pin'' then Some F_Pin
      else if name = ''level'' then Some F_Level
      else if name = ''sensor'' then Some F_Sensor
      else if name = ''ms'' then Some F_Ms
      else if name = ''detail'' then Some F_Detail
      else None)"

definition arg_error :: "string \<Rightarrow> (field \<Rightarrow> error) \<Rightarrow> error" where
  "arg_error name build = (case field_of name of None \<Rightarrow> E_UnexpectedField | Some f \<Rightarrow> build f)"

definition expected_type :: "string \<Rightarrow> string" where
  "expected_type name =
     (if name = ''pin'' then ''integer 0..=7''
      else if name = ''level'' then in_quotes ''low'' @ '' | '' @ in_quotes ''high''
      else if name = ''sensor'' then ''integer 0..=3''
      else if name = ''ms'' then ''integer 1..=5000''
      else if name = ''detail'' then in_quotes ''summary'' @ '' | '' @ in_quotes ''full''
      else ''a valid argument'')"

fun map_validation_error :: "validation_error \<Rightarrow> error" where
  "map_validation_error (VE_Json e) = (if e = J_TrailingBytes then E_TrailingBytes else E_Json e)"
| "map_validation_error VE_NotObject = E_ArgsNotObject"
| "map_validation_error VE_UnknownArgument = E_UnexpectedField"
| "map_validation_error VE_TooManyArguments = E_UnexpectedField"
| "map_validation_error (VE_MissingArgument name) = arg_error name E_MissingField"
| "map_validation_error (VE_WrongType name) = arg_error name (\<lambda>f. E_BadFieldType f (expected_type name))"
| "map_validation_error (VE_OutOfRange name) = arg_error name E_BadFieldValue"
| "map_validation_error (VE_BadEnumValue name) = arg_error name E_BadFieldValue"

section \<open>Draining\<close>

text \<open>The parser is passed on through the nested cursors; that every call ends rests on its progress,
  so termination is proved after the progress of the results.\<close>

function drain_value :: "json_value \<Rightarrow> parser \<Rightarrow> json_error + parser"
  and drain_object :: "object_cursor \<Rightarrow> parser \<Rightarrow> json_error + parser"
  and drain_array :: "array_cursor \<Rightarrow> parser \<Rightarrow> json_error + parser" where
  "drain_value v p =
     (case v of
        J_Object \<Rightarrow> drain_object object_cursor_new p
      | J_Array \<Rightarrow> drain_array array_cursor_new p
      | _ \<Rightarrow> Inr p)"
| "drain_object c p =
     and_then (next_entry c p) (\<lambda>(entry, c', p').
       case entry of
         None \<Rightarrow> Inr p'
       | Some (_, v) \<Rightarrow> and_then (drain_value v p') (\<lambda>p''. drain_object c' p''))"
| "drain_array c p =
     and_then (next_value c p) (\<lambda>(entry, c', p').
       case entry of
         None \<Rightarrow> Inr p'
       | Some v \<Rightarrow> and_then (drain_value v p') (\<lambda>p''. drain_array c' p''))"
  by pat_completeness auto

lemma next_entry_some: "next_entry c p = Inr (Some e, c', p') \<Longrightarrow> goes p p' \<and> jp_pos p < jp_pos p'"
  using next_entry_goes [of c p "Some e" c' p'] by (cases "oc_done c") (auto simp: next_entry_def)

lemma next_value_some: "next_value c p = Inr (Some v, c', p') \<Longrightarrow> goes p p' \<and> jp_pos p < jp_pos p'"
  using next_value_goes [of c p "Some v" c' p'] by (cases "ac_done c") (auto simp: next_value_def)

definition advances :: "parser \<Rightarrow> parser \<Rightarrow> bool" where
  "advances p p' \<longleftrightarrow> jp_buf p' = jp_buf p \<and> jp_pos p \<le> jp_pos p'"

lemma advances_simps:
  "advances p p" "goes p p' \<Longrightarrow> advances p p'" "advances p q \<Longrightarrow> advances q r \<Longrightarrow> advances p r"
  by (auto simp: advances_def goes_def)

lemma next_advances:
  "next_entry c p = Inr (r, c', p') \<Longrightarrow> advances p p'"
  "next_value d p = Inr (s, d', p') \<Longrightarrow> advances p p'"
proof -
  show "advances p p'" if "next_entry c p = Inr (r, c', p')"
  proof (cases "oc_done c")
    case True
    then show ?thesis using that by (simp add: next_entry_def advances_simps(1))
  qed (use that next_entry_goes advances_simps(2) in blast)
  show "advances p p'" if "next_value d p = Inr (s, d', p')"
  proof (cases "ac_done d")
    case True
    then show ?thesis using that by (simp add: next_value_def advances_simps(1))
  qed (use that next_value_goes advances_simps(2) in blast)
qed

lemma drain_advances:
  "drain_value_drain_object_drain_array_dom (Inl (v, p)) \<Longrightarrow> drain_value v p = Inr q \<Longrightarrow> advances p q"
  "drain_value_drain_object_drain_array_dom (Inr (Inl (c, p))) \<Longrightarrow> drain_object c p = Inr q \<Longrightarrow> advances p q"
  "drain_value_drain_object_drain_array_dom (Inr (Inr (d, p))) \<Longrightarrow> drain_array d p = Inr q \<Longrightarrow> advances p q"
proof (induction v p and c p and d p arbitrary: q and q and q rule: drain_value_drain_object_drain_array.pinduct)
  case (1 v p)
  then show ?case
    by (cases v) (simp_all add: drain_value.psimps advances_simps)
next
  case (2 c p)
  from "2.prems" obtain entry c' p' where ne: "next_entry c p = Inr (entry, c', p')"
    by (auto simp: drain_object.psimps [OF "2.hyps"] result_simps)
  show ?case
  proof (cases entry)
    case None
    then show ?thesis using "2.prems" ne next_advances(1) [OF ne] by (simp add: drain_object.psimps [OF "2.hyps"])
  next
    case (Some kv)
    obtain k v where kv: "kv = (k, v)" by (cases kv)
    from "2.prems" Some kv ne obtain q1 where d: "drain_value v p' = Inr q1" "drain_object c' q1 = Inr q"
      by (auto simp: drain_object.psimps [OF "2.hyps"] result_simps)
    have "advances p' q1" by (rule "2.IH"(1) [OF ne refl refl Some kv [symmetric] d(1)])
    moreover have "advances q1 q" by (rule "2.IH"(2) [OF ne refl refl Some kv [symmetric] d])
    ultimately show ?thesis using next_advances(1) [OF ne] advances_simps(3) by blast
  qed
next
  case (3 d p)
  from "3.prems" obtain entry c' p' where ne: "next_value d p = Inr (entry, c', p')"
    by (auto simp: drain_array.psimps [OF "3.hyps"] result_simps)
  show ?case
  proof (cases entry)
    case None
    then show ?thesis using "3.prems" ne next_advances(2) [OF ne] by (simp add: drain_array.psimps [OF "3.hyps"])
  next
    case (Some v)
    from "3.prems" Some ne obtain q1 where d: "drain_value v p' = Inr q1" "drain_array c' q1 = Inr q"
      by (auto simp: drain_array.psimps [OF "3.hyps"] result_simps)
    have "advances p' q1" by (rule "3.IH"(1) [OF ne refl refl Some d(1)])
    moreover have "advances q1 q" by (rule "3.IH"(2) [OF ne refl refl Some d])
    ultimately show ?thesis using next_advances(2) [OF ne] advances_simps(3) by blast
  qed
qed

termination drain_value
proof (relation "measure (\<lambda>x. case x of
      Inl (v, p) \<Rightarrow> 2 * (length (jp_buf p) - jp_pos p) + 1
    | Inr (Inl (c, p)) \<Rightarrow> 2 * (length (jp_buf p) - jp_pos p)
    | Inr (Inr (d, p)) \<Rightarrow> 2 * (length (jp_buf p) - jp_pos p))", goal_cases)
qed (auto dest!: next_entry_some next_value_some drain_advances simp: goes_def advances_def)

declare drain_value.simps [simp del] drain_object.simps [simp del] drain_array.simps [simp del]

definition reject_composite :: "json_value \<Rightarrow> parser \<Rightarrow> field \<Rightarrow> string \<Rightarrow> error" where
  "reject_composite v p f expected =
     (case drain_value v p of Inr _ \<Rightarrow> E_BadFieldType f expected | Inl e \<Rightarrow> E_Json e)"

section \<open>The line\<close>

definition strip_newline :: "bytes \<Rightarrow> bytes" where
  "strip_newline line =
     (if suffix [0x0d, 0x0a] line then take (length line - 2) line
      else if suffix [0x0a] line then take (length line - 1) line
      else line)"

definition finish_args :: "parser \<Rightarrow> error + unit" where
  "finish_args p =
     map_err (\<lambda>e. if e = J_TrailingBytes then E_TrailingBytes else E_Json e) (parser_finish p)"

definition decode_call :: "bytes \<Rightarrow> error + decision" where
  "decode_call rest =
     (if rest = [] then Inl E_MissingToolName
      else case position (\<lambda>b. b = 0x20) rest of
        None \<Rightarrow> Inl E_MissingArgs
      | Some i \<Rightarrow>
          let name = take i rest in
          and_then (ok_or E_BadSpacing (slice rest (i + 1) (length rest))) (\<lambda>args.
            if name = [] then Inl E_MissingToolName
            else if args = [] then Inl E_MissingArgs
            else and_then (ok_or E_UnknownToolName (lookup_by_name name)) (\<lambda>entry.
              if max_args_bytes < length args then Inl E_ArgsTooLong
              else and_then (map_err map_validation_error (validate entry args)) (\<lambda>bound.
                and_then (bind_args (ToolId (tc_id entry)) bound) (\<lambda>tool_args.
                  Inr (Dec_Call \<lparr>tl_tool = ToolId (tc_id entry), tl_args = tool_args,
                                 tl_args_bytes = args, tl_args_digest = digest_of_bytes args\<rparr>))))))"

text \<open>The loop over the fields of an \<open>ASK\<close> envelope; the state is the prompt and the schema.\<close>

function ask_loop ::
  "bytes option \<Rightarrow> u8 option \<Rightarrow> object_cursor \<Rightarrow> parser \<Rightarrow> error + (bytes option \<times> u8 option \<times> parser)" where
  "ask_loop prompt schema c p =
     and_then (map_err E_Json (next_entry c p)) (\<lambda>(entry, c', p').
       case entry of
         None \<Rightarrow> Inr (prompt, schema, p')
       | Some (key, v) \<Rightarrow>
           if key = str_bytes ''prompt''
           then (case v of
                   J_Str raw \<Rightarrow>
                     if max_prompt_bytes < length raw then Inl (E_FieldTooLong F_Prompt max_prompt_bytes)
                     else ask_loop (Some raw) schema c' p'
                 | _ \<Rightarrow> Inl (reject_composite v p' F_Prompt ''string <= 256 bytes''))
           else if key = str_bytes ''schema''
           then (case v of
                   J_Number raw \<Rightarrow>
                     and_then (map_err E_Json (parse_u8 raw)) (\<lambda>n. ask_loop prompt (Some n) c' p')
                 | _ \<Rightarrow> Inl (reject_composite v p' F_Schema ''integer''))
           else Inl E_UnexpectedField)"
  by pat_completeness auto

termination
  by (relation "measure (\<lambda>(prompt, schema, c, p). length (oc_keys c) - oc_len c)")
    (auto simp: result_simps dest: next_entry_keys)

declare ask_loop.simps [simp del]

definition decode_ask :: "bytes \<Rightarrow> error + decision" where
  "decode_ask rest =
     (if rest = [] then Inl E_MissingArgs
      else if max_json_bytes < length rest then Inl E_JsonTooLong
      else and_then (map_err E_Json (parse_value (parser_new rest))) (\<lambda>(v, p).
        if v \<noteq> J_Object then Inl E_ArgsNotObject
        else and_then (ask_loop None None object_cursor_new p) (\<lambda>(prompt, schema, p').
          and_then (ok_or (E_MissingField F_Prompt) prompt) (\<lambda>prompt.
          and_then (ok_or (E_MissingField F_Schema) schema) (\<lambda>schema.
            if schema \<noteq> pin_select_schema then Inl (E_BadFieldValue F_Schema)
            else and_then (finish_args p') (\<lambda>_.
              Inr (Dec_Ask \<lparr>ir_prompt = prompt, ir_response_schema_id = schema\<rparr>)))))))"

function finish_loop ::
  "finish_status option \<Rightarrow> bytes option \<Rightarrow> object_cursor \<Rightarrow> parser \<Rightarrow>
   error + (finish_status option \<times> bytes option \<times> parser)" where
  "finish_loop status summary c p =
     and_then (map_err E_Json (next_entry c p)) (\<lambda>(entry, c', p').
       case entry of
         None \<Rightarrow> Inr (status, summary, p')
       | Some (key, v) \<Rightarrow>
           if key = str_bytes ''status''
           then (case v of
                   J_Str raw \<Rightarrow>
                     and_then (finish_status_from_bytes raw) (\<lambda>st. finish_loop (Some st) summary c' p')
                 | _ \<Rightarrow> Inl (reject_composite v p' F_Status (in_quotes ''completed'')))
           else if key = str_bytes ''summary''
           then (case v of
                   J_Str raw \<Rightarrow>
                     if max_summary_bytes < length raw then Inl (E_FieldTooLong F_Summary max_summary_bytes)
                     else finish_loop status (Some raw) c' p'
                 | _ \<Rightarrow> Inl (reject_composite v p' F_Summary ''string <= 256 bytes''))
           else Inl E_UnexpectedField)"
  by pat_completeness auto

termination
  by (relation "measure (\<lambda>(status, summary, c, p). length (oc_keys c) - oc_len c)")
    (auto simp: result_simps dest: next_entry_keys)

declare finish_loop.simps [simp del]

definition decode_finish :: "bytes \<Rightarrow> error + decision" where
  "decode_finish rest =
     (if rest = [] then Inl E_MissingArgs
      else if max_json_bytes < length rest then Inl E_JsonTooLong
      else and_then (map_err E_Json (parse_value (parser_new rest))) (\<lambda>(v, p).
        if v \<noteq> J_Object then Inl E_ArgsNotObject
        else and_then (finish_loop None None object_cursor_new p) (\<lambda>(status, summary, p').
          and_then (ok_or (E_MissingField F_Status) status) (\<lambda>status.
          and_then (ok_or (E_MissingField F_Summary) summary) (\<lambda>summary.
          and_then (finish_args p') (\<lambda>_.
            Inr (Dec_Finish \<lparr>fa_status = status, fa_summary = summary\<rparr>)))))))"

definition decode_line :: "bytes \<Rightarrow> error + decision" where
  "decode_line line0 =
     (if max_line_bytes < length line0 then Inl E_LineTooLong
      else
        let line = strip_newline line0 in
        if line = [] then Inl E_EmptyLine
        else case position (\<lambda>b. b = 0x20) line of
          None \<Rightarrow>
            if line = str_bytes ''CALL'' then Inl E_MissingToolName
            else if line = str_bytes ''ASK'' \<or> line = str_bytes ''FINISH'' then Inl E_MissingArgs
            else Inl E_UnknownVerb
        | Some i \<Rightarrow>
            let verb = take i line in
            and_then (ok_or E_BadSpacing (slice line (i + 1) (length line))) (\<lambda>rest.
              if verb = str_bytes ''CALL'' then decode_call rest
              else if verb = str_bytes ''ASK'' then decode_ask rest
              else if verb = str_bytes ''FINISH'' then decode_finish rest
              else Inl E_UnknownVerb))"

section \<open>Binding what the validator accepted\<close>

text \<open>The call an assignment stands for, by tool and by the positions of its arguments.\<close>

definition call_of :: "u8 \<Rightarrow> (nat \<times> scalar) list \<Rightarrow> tool_args option" where
  "call_of tool ms =
     (if tool = gpio_pin_read_id
      then (case map_of ms 0 of Some (Sc_U8 n) \<Rightarrow> Some (GpioPinRead (Pin n)) | _ \<Rightarrow> None)
      else if tool = gpio_pin_write_id
      then (case (map_of ms 0, map_of ms 1) of
              (Some (Sc_U8 n), Some (Sc_Enum l)) \<Rightarrow> Some (GpioPinWrite (Pin n) (if l = 0 then L_Low else L_High))
            | _ \<Rightarrow> None)
      else if tool = sensor_sample_read_id
      then (case map_of ms 0 of Some (Sc_U8 n) \<Rightarrow> Some (SensorSampleRead n) | _ \<Rightarrow> None)
      else if tool = timer_uptime_read_id then Some TimerUptimeRead
      else if tool = timer_delay_wait_id
      then (case map_of ms 0 of Some (Sc_U16 n) \<Rightarrow> Some (TimerDelayWait n) | _ \<Rightarrow> None)
      else if tool = device_status_report_id
      then (case map_of ms 0 of
              Some (Sc_Enum d) \<Rightarrow> Some (DeviceStatusReport (if d = 0 then D_Summary else D_Full))
            | _ \<Rightarrow> None)
      else None)"

lemma catalog_cases:
  assumes "e \<in> set catalog"
  obtains (pin_read) "tc_id e = 1" "tc_args e = [\<lparr>as_name = ''pin'', as_kind = Arg_U8 0 7, as_required = True\<rparr>]"
  | (pin_write) "tc_id e = 2" "tc_args e = [\<lparr>as_name = ''pin'', as_kind = Arg_U8 0 7, as_required = True\<rparr>,
      \<lparr>as_name = ''level'', as_kind = Arg_Enum [''low'', ''high''], as_required = True\<rparr>]"
  | (sample) "tc_id e = 3" "tc_args e = [\<lparr>as_name = ''sensor'', as_kind = Arg_U8 0 3, as_required = True\<rparr>]"
  | (uptime) "tc_id e = 4" "tc_args e = []"
  | (delay) "tc_id e = 5" "tc_args e = [\<lparr>as_name = ''ms'', as_kind = Arg_U16 1 5000, as_required = True\<rparr>]"
  | (report) "tc_id e = 6" "tc_args e = [\<lparr>as_name = ''detail'', as_kind = Arg_Enum [''summary'', ''full''], as_required = True\<rparr>]"
  using assms unfolding catalog_def by (auto simp only: list.set) auto

lemma catalog_ok: "e \<in> set catalog \<Longrightarrow> contract_ok e"
  using catalog_contract_ok by (simp add: list_all_iff)

lemma bound_get_fields:
  assumes "contract_ok c"
  shows "bound_get (bound_of (tc_args c) ms) name =
    map_option bf_value (List.find (\<lambda>f. bf_name f = name) (fields_of (tc_args c) ms))"
proof -
  let ?fs = "fields_of (tc_args c) ms"
  have "length ?fs \<le> length [0..<length (tc_args c)]"
    unfolding fields_of_def List.map_filter_def length_map by (rule length_filter_le)
  then have few: "length ?fs \<le> max_args_per_tool" using assms by (simp add: contract_ok_def)
  then have "unat (of_nat (length ?fs) :: u8) = length ?fs"
    by (simp add: unat_of_nat take_bit_nat_eq_self max_args_per_tool_def)
  moreover have "take (length ?fs) (pack max_args_per_tool ?fs) = map Some ?fs" by (simp add: pack_def)
  moreover have "flatten (map Some xs) = xs" for xs :: "bound_field list" by (induction xs) simp_all
  ultimately show ?thesis by (simp add: bound_get_def bound_of_def)
qed

lemma assigned_value:
  assumes "assigns args ms" and "complete args ms" and "i < length args" and "as_required (args ! i)"
  obtains s where "map_of ms i = Some s" "scalar_fits (as_kind (args ! i)) s"
proof -
  from assms(2-4) have "i \<in> fst ` set ms" by (simp add: complete_def)
  then obtain s where s: "map_of ms i = Some s" by (metis map_of_eq_None_iff option.exhaust)
  from map_of_SomeD [OF s] assms(1) have "scalar_fits (as_kind (args ! i)) s"
    by (auto simp: assigns_def list_all_iff)
  with s that show thesis by blast
qed

lemma fits_cases:
  "scalar_fits (Arg_U8 lo hi) s \<longleftrightarrow> (\<exists>n. s = Sc_U8 n \<and> lo \<le> n \<and> n \<le> hi)"
  "scalar_fits (Arg_U16 lo' hi') s \<longleftrightarrow> (\<exists>n. s = Sc_U16 n \<and> lo' \<le> n \<and> n \<le> hi')"
  "scalar_fits (Arg_Enum options) s \<longleftrightarrow> (\<exists>i. s = Sc_Enum i \<and> unat i < length options)"
  by (cases s; simp)+

lemma two_options: "unat (i :: u8) < 2 \<longleftrightarrow> i = 0 \<or> i = 1"
proof -
  have "unat i = 1 \<longleftrightarrow> i = 1" using word_unat_eq_iff [of i 1] by simp
  then show ?thesis by (auto simp: less_Suc_eq numeral_2_eq_2 unat_eq_0)
qed

lemma fields_of_upt:
  "fields_of args ms = List.map_filter
     (\<lambda>i. map_option (\<lambda>s. \<lparr>bf_name = as_name (args ! i), bf_value = s\<rparr>) (map_of ms i)) [0..<length args]"
  by (simp add: fields_of_def)

lemma bind_validated:
  assumes e: "e \<in> set catalog" and ms: "assigns (tc_args e) ms" "complete (tc_args e) ms"
  shows "\<exists>a. bind_args (ToolId (tc_id e)) (bound_of (tc_args e) ms) = Inr a \<and> call_of (tc_id e) ms = Some a"
proof -
  note get = bound_get_fields [OF catalog_ok [OF e], of ms]
  note simps = bind_args_def call_of_def tool_id_defs fields_of_def List.map_filter_def pin_arg_def level_arg_def
    sensor_arg_def ms_arg_def detail_arg_def fetch_scalar_def pin_new_def pin_count_def sensor_count_def Let_def
  note arg = assigned_value [OF ms]
  from e show ?thesis
  proof (cases rule: catalog_cases)
    case pin_read
    with arg [of 0] obtain n where "map_of ms 0 = Some (Sc_U8 n)" "n \<le> 7" by (auto simp: fits_cases)
    then show ?thesis using pin_read get by (simp add: simps word_le_nat_alt word_less_nat_alt)
  next
    case pin_write
    with arg [of 0] obtain n where n: "map_of ms 0 = Some (Sc_U8 n)" "n \<le> 7" by (auto simp: fits_cases)
    have "1 < length (tc_args e)" "as_required (tc_args e ! 1)" by (simp_all add: pin_write)
    from arg [OF this] obtain s where s: "map_of ms 1 = Some s" "scalar_fits (as_kind (tc_args e ! 1)) s" .
    from s(2) obtain l where "s = Sc_Enum l" "unat l < 2" by (auto simp: pin_write fits_cases)
    then have l: "map_of ms 1 = Some (Sc_Enum l)" "l = 0 \<or> l = 1" using s(1) two_options by simp_all
    let ?b = "bound_of (tc_args e) ms"
    have "bound_get ?b ''pin'' = Some (Sc_U8 n)" "bound_get ?b ''level'' = Some (Sc_Enum l)"
      unfolding get using n(1) l(1) by (simp_all add: pin_write fields_of_def List.map_filter_def)
    then have "pin_arg ?b = Inr (Pin n)" "level_arg ?b = Inr (if l = 0 then L_Low else L_High)"
      using n(2) l(2) by (auto simp: pin_arg_def level_arg_def fetch_scalar_def pin_new_def pin_count_def
          word_le_nat_alt word_less_nat_alt)
    then show ?thesis using n(1) l(1) pin_write(1) by (simp add: bind_args_def call_of_def tool_id_defs)
  next
    case sample
    with arg [of 0] obtain n where "map_of ms 0 = Some (Sc_U8 n)" "n \<le> 3" by (auto simp: fits_cases)
    then show ?thesis using sample get by (simp add: simps word_le_nat_alt word_less_nat_alt)
  next
    case uptime
    then show ?thesis by (simp add: simps)
  next
    case delay
    with arg [of 0] obtain n where "map_of ms 0 = Some (Sc_U16 n)" "1 \<le> n" "n \<le> 5000" by (auto simp: fits_cases)
    then show ?thesis using delay get by (simp add: simps)
  next
    case report
    have "0 < length (tc_args e)" "as_required (tc_args e ! 0)" by (simp_all add: report)
    from arg [OF this] obtain s where s: "map_of ms 0 = Some s" "scalar_fits (as_kind (tc_args e ! 0)) s" .
    from s(2) obtain d where "s = Sc_Enum d" "unat d < 2" by (auto simp: report fits_cases)
    with s(1) have d: "map_of ms 0 = Some (Sc_Enum d)" "d = 0 \<or> d = 1" using two_options by simp_all
    let ?b = "bound_of (tc_args e) ms"
    have "bound_get ?b ''detail'' = Some (Sc_Enum d)"
      unfolding get using d(1) by (simp add: report fields_of_def List.map_filter_def)
    then have "detail_arg ?b = Inr (if d = 0 then D_Summary else D_Full)"
      using d(2) by (auto simp: detail_arg_def fetch_scalar_def)
    then show ?thesis using d(1) report(1) by (simp add: bind_args_def call_of_def tool_id_defs)
  qed
qed

section \<open>The verb line\<close>

lemma position_first:
  "y = b \<Longrightarrow> b \<notin> set xs \<Longrightarrow> position (\<lambda>x. x = b) (xs @ y # ys) = Some (length xs)"
  by (auto simp: position_Some_iff nth_append in_set_conv_nth)

lemma position_split:
  "position (\<lambda>x. x = b) xs = Some i \<Longrightarrow> xs = take i xs @ b # drop (Suc i) xs \<and> b \<notin> set (take i xs)"
  by (auto simp: position_Some_iff id_take_nth_drop [symmetric] in_set_conv_nth)

lemma lookup_by_name_iff: "lookup_by_name n = Some e \<longleftrightarrow> e \<in> set catalog \<and> str_bytes (tc_name e) = n"
  unfolding lookup_by_name_def
  by (rule find_distinct_key) (simp add: catalog_def str_bytes_def)

lemma catalog_names_plain: "e \<in> set catalog \<Longrightarrow> 0x20 \<notin> set (str_bytes (tc_name e)) \<and> tc_name e \<noteq> []"
proof -
  have "list_all (\<lambda>e. 0x20 \<notin> set (str_bytes (tc_name e)) \<and> tc_name e \<noteq> []) catalog"
    by (simp add: catalog_def str_bytes_def)
  then show "e \<in> set catalog \<Longrightarrow> ?thesis" by (simp add: list_all_iff)
qed

text \<open>A call line, without its newline: the verb, the name and the arguments, one space apart.\<close>

definition call_text :: "tool_contract \<Rightarrow> bytes \<Rightarrow> bytes" where
  "call_text e args = str_bytes ''CALL '' @ str_bytes (tc_name e) @ 0x20 # args"

lemma decode_call_iff:
  "decode_call rest = Inr d \<longleftrightarrow>
     (\<exists>e args b a. e \<in> set catalog \<and> rest = str_bytes (tc_name e) @ 0x20 # args \<and> args \<noteq> [] \<and>
        length args \<le> max_args_bytes \<and> validate e args = Inr b \<and> bind_args (ToolId (tc_id e)) b = Inr a \<and>
        d = Dec_Call \<lparr>tl_tool = ToolId (tc_id e), tl_args = a, tl_args_bytes = args,
                      tl_args_digest = digest_of_bytes args\<rparr>)"
  (is "_ \<longleftrightarrow> ?rhs")
proof
  assume run: "decode_call rest = Inr d"
  then obtain i where i: "position (\<lambda>b. b = 0x20) rest = Some i"
    by (auto simp: decode_call_def split: if_splits option.splits)
  from position_split [OF i] have rest: "rest = take i rest @ 0x20 # drop (Suc i) rest" by simp
  have "i < length rest" using i by (simp add: position_Some_iff)
  then have sl: "slice rest (i + 1) (length rest) = Some (drop (Suc i) rest)" by (simp add: slice_def)
  obtain e b a where "e \<in> set catalog" "str_bytes (tc_name e) = take i rest" "drop (Suc i) rest \<noteq> []"
    "length (drop (Suc i) rest) \<le> max_args_bytes" "validate e (drop (Suc i) rest) = Inr b"
    "bind_args (ToolId (tc_id e)) b = Inr a"
    "d = Dec_Call \<lparr>tl_tool = ToolId (tc_id e), tl_args = a, tl_args_bytes = drop (Suc i) rest,
                  tl_args_digest = digest_of_bytes (drop (Suc i) rest)\<rparr>"
    using run unfolding decode_call_def i option.case Let_def sl
    by (auto simp: result_simps lookup_by_name_iff not_less split: if_splits)
  then show ?rhs using rest by (metis (no_types))
next
  assume ?rhs
  then obtain e args b a where e: "e \<in> set catalog" "rest = str_bytes (tc_name e) @ 0x20 # args" "args \<noteq> []"
    "length args \<le> max_args_bytes" "validate e args = Inr b" "bind_args (ToolId (tc_id e)) b = Inr a"
    "d = Dec_Call \<lparr>tl_tool = ToolId (tc_id e), tl_args = a, tl_args_bytes = args, tl_args_digest = digest_of_bytes args\<rparr>"
    by blast
  let ?n = "str_bytes (tc_name e)"
  have pos: "position (\<lambda>b. b = 0x20) (?n @ 0x20 # args) = Some (length ?n)"
    using catalog_names_plain [OF e(1)] by (intro position_first) simp_all
  have name: "?n \<noteq> []" using catalog_names_plain [OF e(1)] by (simp add: str_bytes_def)
  have sl: "slice (?n @ 0x20 # args) (length ?n + 1) (length (?n @ 0x20 # args)) = Some args" by (simp add: slice_def)
  have "lookup_by_name (str_bytes (tc_name e)) = Some e" using e(1) by (simp add: lookup_by_name_iff)
  then show "decode_call rest = Inr d"
    unfolding decode_call_def e(2) pos option.case Let_def sl
    using e(3-7) name by (simp del: length_str_bytes)
qed

lemma decode_line_verb:
  assumes "position (\<lambda>b. b = 0x20) (strip_newline line) = Some i"
  shows "slice (strip_newline line) (i + 1) (length (strip_newline line)) = Some (drop (Suc i) (strip_newline line))"
  using assms by (simp add: position_Some_iff slice_def)

lemma decode_ask_shape: "decode_ask rest = Inr d \<Longrightarrow> \<exists>r. d = Dec_Ask r"
  by (auto simp: decode_ask_def result_simps split: if_splits)

lemma decode_finish_shape: "decode_finish rest = Inr d \<Longrightarrow> \<exists>a. d = Dec_Finish a"
  by (auto simp: decode_finish_def result_simps split: if_splits)

lemma decode_line_call_iff:
  "decode_line line = Inr (Dec_Call c) \<longleftrightarrow> length line \<le> max_line_bytes \<and>
     (\<exists>rest. strip_newline line = str_bytes ''CALL'' @ 0x20 # rest \<and> decode_call rest = Inr (Dec_Call c))"
  (is "_ \<longleftrightarrow> ?rhs")
proof
  assume run: "decode_line line = Inr (Dec_Call c)"
  then obtain i where i: "position (\<lambda>b. b = 0x20) (strip_newline line) = Some i"
    by (auto simp: decode_line_def Let_def split: if_splits option.splits)
  have "length line \<le> max_line_bytes" and verb: "take i (strip_newline line) = str_bytes ''CALL''"
    and rest: "decode_call (drop (Suc i) (strip_newline line)) = Inr (Dec_Call c)"
    using run decode_line_verb [OF i] i
    by (auto simp: decode_line_def Let_def dest: decode_ask_shape decode_finish_shape split: if_splits)
  moreover from position_split [OF i] verb
  have "strip_newline line = str_bytes ''CALL'' @ 0x20 # drop (Suc i) (strip_newline line)" by simp
  ultimately show ?rhs by blast
next
  assume rhs: ?rhs
  then obtain rest where rest: "strip_newline line = str_bytes ''CALL'' @ 0x20 # rest" "decode_call rest = Inr (Dec_Call c)"
    by blast
  have i: "position (\<lambda>b. b = 0x20) (strip_newline line) = Some (length (str_bytes ''CALL''))"
    unfolding rest(1) by (rule position_first) (simp_all add: str_bytes_def)
  show "decode_line line = Inr (Dec_Call c)"
    using rhs rest decode_line_verb [OF i] i by (simp add: decode_line_def Let_def)
qed

section \<open>What a decision holds\<close>

fun tool_of :: "tool_args \<Rightarrow> u8" where
  "tool_of (GpioPinRead _) = gpio_pin_read_id"
| "tool_of (GpioPinWrite _ _) = gpio_pin_write_id"
| "tool_of (SensorSampleRead _) = sensor_sample_read_id"
| "tool_of TimerUptimeRead = timer_uptime_read_id"
| "tool_of (TimerDelayWait _) = timer_delay_wait_id"
| "tool_of (DeviceStatusReport _) = device_status_report_id"

fun args_in_range :: "tool_args \<Rightarrow> bool" where
  "args_in_range (GpioPinRead p) \<longleftrightarrow> pin_get p < pin_count"
| "args_in_range (GpioPinWrite p _) \<longleftrightarrow> pin_get p < pin_count"
| "args_in_range (SensorSampleRead s) \<longleftrightarrow> s < sensor_count"
| "args_in_range (TimerDelayWait ms) \<longleftrightarrow> 1 \<le> ms \<and> ms \<le> 5000"
| "args_in_range _ \<longleftrightarrow> True"

fun decision_typed :: "decision \<Rightarrow> bool" where
  "decision_typed (Dec_Call c) \<longleftrightarrow>
     tool_id_get (tl_tool c) = tool_of (tl_args c) \<and> args_in_range (tl_args c) \<and>
     length (tl_args_bytes c) \<le> max_args_bytes \<and> tl_args_digest c = digest_of_bytes (tl_args_bytes c)"
| "decision_typed (Dec_Ask r) \<longleftrightarrow>
     length (ir_prompt r) \<le> max_prompt_bytes \<and> string_body (ir_prompt r) \<and> ir_response_schema_id r = pin_select_schema"
| "decision_typed (Dec_Finish a) \<longleftrightarrow> length (fa_summary a) \<le> max_summary_bytes \<and> string_body (fa_summary a)"

lemma guard_Inr: "(if b then Inl e else m) = Inr x \<longleftrightarrow> \<not> b \<and> m = Inr x"
  by simp

lemma pin_arg_range: "pin_arg b = Inr p \<Longrightarrow> pin_get p < pin_count"
  unfolding pin_arg_def and_then_eq_Inr by (elim exE conjE) (auto simp: pin_new_def split: scalar.split_asm if_split_asm)

lemma sensor_arg_range: "sensor_arg b = Inr n \<Longrightarrow> n < sensor_count"
  unfolding sensor_arg_def and_then_eq_Inr by (elim exE conjE) (auto split: scalar.split_asm if_split_asm)

lemma ms_arg_range: "ms_arg b = Inr n \<Longrightarrow> 1 \<le> n \<and> n \<le> 5000"
  unfolding ms_arg_def and_then_eq_Inr by (elim exE conjE) (auto split: scalar.split_asm if_split_asm)

lemma bind_args_typed: "bind_args t b = Inr a \<Longrightarrow> tool_id_get t = tool_of a \<and> args_in_range a"
  by (auto simp: bind_args_def Let_def result_simps split: if_splits
      dest: pin_arg_range sensor_arg_range ms_arg_range)

lemma next_entry_value_ok:
  assumes "next_entry c p = Inr (Some (k, v), c', p')"
  shows "value_ok v"
proof -
  from assms obtain p3 where run: "parse_value p3 = Inr (v, p')"
    by (fastforce simp: next_entry_def and_then_eq_Inr split: if_splits option.splits)
  have "jp_pos p3 \<le> length (jp_buf p3)" using parse_value_goes [OF run] by (simp add: goes_def)
  from parse_value_sound [OF ahead_ex [OF this] run] show ?thesis by blast
qed

definition field_fits :: "nat \<Rightarrow> bytes option \<Rightarrow> bool" where
  "field_fits n f \<longleftrightarrow> (case f of None \<Rightarrow> True | Some raw \<Rightarrow> length raw \<le> n \<and> string_body raw)"

lemma ask_loop_fits:
  "ask_loop pr sc c p = Inr (pr', sc', p') \<Longrightarrow> field_fits max_prompt_bytes pr \<Longrightarrow> field_fits max_prompt_bytes pr'"
proof (induction pr sc c p rule: ask_loop.induct)
  case (1 pr sc c p)
  from "1.prems"(1) obtain entry c1 p1 where ne: "next_entry c p = Inr (entry, c1, p1)"
    by (subst (asm) ask_loop.simps) (auto simp: result_simps)
  show ?case
  proof (cases entry)
    case None
    then show ?thesis using "1.prems" ne by (simp add: ask_loop.simps [of pr sc])
  next
    case (Some kv)
    obtain k v where kv: "kv = (k, v)" by (cases kv)
    have v: "value_ok v" using next_entry_value_ok ne Some kv by simp
    have ne': "map_err E_Json (next_entry c p) = Inr (Some (k, v), c1, p1)" using ne Some kv by simp
    from "1.prems"(1) have run: "(if k = str_bytes ''prompt''
           then (case v of
                   J_Str raw \<Rightarrow>
                     if max_prompt_bytes < length raw then Inl (E_FieldTooLong F_Prompt max_prompt_bytes)
                     else ask_loop (Some raw) sc c1 p1
                 | _ \<Rightarrow> Inl (reject_composite v p1 F_Prompt ''string <= 256 bytes''))
           else if k = str_bytes ''schema''
           then (case v of
                   J_Number raw \<Rightarrow>
                     and_then (map_err E_Json (parse_u8 raw)) (\<lambda>n. ask_loop pr (Some n) c1 p1)
                 | _ \<Rightarrow> Inl (reject_composite v p1 F_Schema ''integer''))
           else Inl E_UnexpectedField) = Inr (pr', sc', p')"
      by (subst (asm) ask_loop.simps) (simp add: ne Some kv)
    show ?thesis
    proof (cases "k = str_bytes ''prompt''")
      case True
      with run obtain raw where raw: "v = J_Str raw" "\<not> max_prompt_bytes < length raw"
        "ask_loop (Some raw) sc c1 p1 = Inr (pr', sc', p')"
        by (auto split: json_value.splits if_splits)
      show ?thesis
        using "1.IH"(1) [OF ne' refl refl refl refl True raw] raw v by (simp add: field_fits_def)
    next
      case False
      with run obtain raw n where raw: "k = str_bytes ''schema''" "v = J_Number raw" "map_err E_Json (parse_u8 raw) = Inr n"
        "ask_loop pr (Some n) c1 p1 = Inr (pr', sc', p')"
        by (auto simp: result_simps split: json_value.splits if_splits)
      show ?thesis by (rule "1.IH"(2) [OF ne' refl refl refl refl False raw "1.prems"(2)])
    qed
  qed
qed

lemma finish_loop_fits:
  "finish_loop st sm c p = Inr (st', sm', p') \<Longrightarrow> field_fits max_summary_bytes sm \<Longrightarrow> field_fits max_summary_bytes sm'"
proof (induction st sm c p rule: finish_loop.induct)
  case (1 st sm c p)
  from "1.prems"(1) obtain entry c1 p1 where ne: "next_entry c p = Inr (entry, c1, p1)"
    by (subst (asm) finish_loop.simps) (auto simp: result_simps)
  show ?case
  proof (cases entry)
    case None
    then show ?thesis using "1.prems" ne by (simp add: finish_loop.simps [of st sm])
  next
    case (Some kv)
    obtain k v where kv: "kv = (k, v)" by (cases kv)
    have v: "value_ok v" using next_entry_value_ok ne Some kv by simp
    have ne': "map_err E_Json (next_entry c p) = Inr (Some (k, v), c1, p1)" using ne Some kv by simp
    from "1.prems"(1) have run: "(if k = str_bytes ''status''
           then (case v of
                   J_Str raw \<Rightarrow>
                     and_then (finish_status_from_bytes raw) (\<lambda>st. finish_loop (Some st) sm c1 p1)
                 | _ \<Rightarrow> Inl (reject_composite v p1 F_Status (in_quotes ''completed'')))
           else if k = str_bytes ''summary''
           then (case v of
                   J_Str raw \<Rightarrow>
                     if max_summary_bytes < length raw then Inl (E_FieldTooLong F_Summary max_summary_bytes)
                     else finish_loop st (Some raw) c1 p1
                 | _ \<Rightarrow> Inl (reject_composite v p1 F_Summary ''string <= 256 bytes''))
           else Inl E_UnexpectedField) = Inr (st', sm', p')"
      by (subst (asm) finish_loop.simps) (simp add: ne Some kv)
    show ?thesis
    proof (cases "k = str_bytes ''status''")
      case True
      with run obtain raw s where raw: "v = J_Str raw" "finish_status_from_bytes raw = Inr s"
        "finish_loop (Some s) sm c1 p1 = Inr (st', sm', p')"
        by (auto simp: result_simps split: json_value.splits if_splits)
      show ?thesis by (rule "1.IH"(1) [OF ne' refl refl refl refl True raw "1.prems"(2)])
    next
      case False
      with run obtain raw where raw: "k = str_bytes ''summary''" "v = J_Str raw" "\<not> max_summary_bytes < length raw"
        "finish_loop st (Some raw) c1 p1 = Inr (st', sm', p')"
        by (auto split: json_value.splits if_splits)
      show ?thesis
        using "1.IH"(2) [OF ne' refl refl refl refl False raw] raw v by (simp add: field_fits_def)
    qed
  qed
qed

section \<open>Rejections\<close>

definition hinted :: "error \<Rightarrow> bool" where
  "hinted e \<longleftrightarrow> error_repair_hint e \<noteq> None"

lemma hinted_simps [simp]:
  "hinted E_EmptyLine" "hinted E_UnknownVerb" "hinted E_BadSpacing" "hinted E_MissingToolName"
  "hinted E_MissingArgs" "hinted E_UnknownToolName" "hinted E_ArgsTooLong" "hinted E_JsonTooLong"
  "hinted E_LineTooLong" "hinted (E_Json j)" "hinted E_TrailingBytes" "hinted E_ArgsNotObject"
  "hinted (E_MissingField f)" "hinted E_UnexpectedField" "hinted (E_BadFieldType f x)"
  "hinted (E_BadFieldValue f)" "hinted (E_FieldTooLong f n)" "hinted (E_PinOutOfRange p)"
  by (simp_all add: hinted_def error_repair_hint_def)

lemma hinted_validation: "hinted (map_validation_error e)"
  by (cases e) (simp_all add: arg_error_def split: option.split)

text \<open>A computation whose every failure has a hint.\<close>

definition all_hinted :: "error + 'a \<Rightarrow> bool" where
  "all_hinted m \<longleftrightarrow> (case m of Inl e \<Rightarrow> hinted e | Inr _ \<Rightarrow> True)"

lemma all_hinted_simps [simp]:
  "all_hinted (Inr x)" "all_hinted (Inl e) \<longleftrightarrow> hinted e" "all_hinted (ok_or e o') \<longleftrightarrow> o' \<noteq> None \<or> hinted e"
  by (auto simp: all_hinted_def split: sum.split) (cases o'; simp)+

lemma all_hinted_then:
  "all_hinted m \<Longrightarrow> (\<And>x. m = Inr x \<Longrightarrow> all_hinted (f x)) \<Longrightarrow> all_hinted (and_then m f)"
  by (cases m) simp_all

lemma all_hinted_map: "(\<And>e. hinted (g e)) \<Longrightarrow> all_hinted (map_err g m)"
  by (cases m) simp_all

lemma bind_args_hinted: "all_hinted (bind_args t b)"
  unfolding bind_args_def Let_def pin_arg_def level_arg_def sensor_arg_def ms_arg_def detail_arg_def fetch_scalar_def pin_new_def
  by (auto intro!: all_hinted_then split: scalar.split)

lemma decode_call_hinted: "all_hinted (decode_call rest)"
  unfolding decode_call_def Let_def
  by (auto intro!: all_hinted_then all_hinted_map hinted_validation bind_args_hinted split: option.split)

lemma reject_hinted: "hinted (reject_composite v p f x)"
  by (simp add: reject_composite_def split: sum.split)

lemma ask_loop_hinted: "all_hinted (ask_loop pr sc c p)"
proof (induction pr sc c p rule: ask_loop.induct)
  case (1 pr sc c p)
  show ?case
    by (subst ask_loop.simps)
      (auto intro!: all_hinted_then all_hinted_map "1.IH" reject_hinted split: option.split json_value.split)
qed

lemma finish_loop_hinted: "all_hinted (finish_loop st sm c p)"
proof (induction st sm c p rule: finish_loop.induct)
  case (1 st sm c p)
  have status: "all_hinted (finish_status_from_bytes raw)" for raw by (simp add: finish_status_from_bytes_def)
  show ?case
    by (subst finish_loop.simps)
      (auto intro!: all_hinted_then all_hinted_map status "1.IH" reject_hinted split: option.split json_value.split)
qed

lemma decode_ask_hinted: "all_hinted (decode_ask rest)"
  unfolding decode_ask_def finish_args_def
  by (auto intro!: all_hinted_then all_hinted_map ask_loop_hinted)

lemma decode_finish_hinted: "all_hinted (decode_finish rest)"
  unfolding decode_finish_def finish_args_def
  by (auto intro!: all_hinted_then all_hinted_map finish_loop_hinted)

lemma decode_line_hinted: "all_hinted (decode_line line)"
  unfolding decode_line_def Let_def
  by (auto intro!: all_hinted_then decode_call_hinted decode_ask_hinted decode_finish_hinted split: option.split)

section \<open>Well-typed decisions\<close>

lemma decode_line_parts:
  assumes "decode_line line = Inr d"
  shows "\<exists>rest. decode_call rest = Inr d \<or> decode_ask rest = Inr d \<or> decode_finish rest = Inr d"
proof -
  from assms obtain i where i: "position (\<lambda>b. b = 0x20) (strip_newline line) = Some i"
    by (auto simp: decode_line_def Let_def split: if_split_asm option.split_asm)
  show ?thesis
    using assms decode_line_verb [OF i] i by (auto simp: decode_line_def Let_def split: if_split_asm)
qed

lemma decode_call_typed: "decode_call rest = Inr d \<Longrightarrow> decision_typed d"
  by (auto simp: decode_call_iff dest!: bind_args_typed)

lemma decode_ask_typed:
  assumes "decode_ask rest = Inr d"
  shows "decision_typed d"
proof -
  from assms obtain p pr sc p' where "ask_loop None None object_cursor_new p = Inr (Some pr, Some sc, p')"
    "sc = pin_select_schema" "d = Dec_Ask \<lparr>ir_prompt = pr, ir_response_schema_id = sc\<rparr>"
    by (auto simp: decode_ask_def result_simps guard_Inr)
  then show ?thesis using ask_loop_fits [of None None object_cursor_new p] by (simp add: field_fits_def)
qed

lemma decode_finish_typed:
  assumes "decode_finish rest = Inr d"
  shows "decision_typed d"
proof -
  from assms obtain p st sm p' where "finish_loop None None object_cursor_new p = Inr (Some st, Some sm, p')"
    "d = Dec_Finish \<lparr>fa_status = st, fa_summary = sm\<rparr>"
    by (auto simp: decode_finish_def result_simps guard_Inr)
  then show ?thesis using finish_loop_fits [of None None object_cursor_new p] by (simp add: field_fits_def)
qed

section \<open>Properties\<close>

text \<open>C16: a line decodes to a call exactly when, without one newline at its end, it is \<open>CALL\<close>, the
  name of a catalog tool and at most 256 bytes of arguments, one space apart, and the arguments spell
  a complete assignment for that tool. The call carries the tool, the arguments in dispatch shape,
  the bytes as they were written and their digest.\<close>

theorem call_lines_exact:
  "decode_line line = Inr (Dec_Call c) \<longleftrightarrow> length line \<le> max_line_bytes \<and>
     (\<exists>e args ms a. e \<in> set catalog \<and> strip_newline line = call_text e args \<and> length args \<le> max_args_bytes \<and>
        assigns (tc_args e) ms \<and> complete (tc_args e) ms \<and> object_text (spelled (tc_args e) ms) args \<and>
        call_of (tc_id e) ms = Some a \<and>
        c = \<lparr>tl_tool = ToolId (tc_id e), tl_args = a, tl_args_bytes = args, tl_args_digest = digest_of_bytes args\<rparr>)"
proof -
  have nonempty: "object_text ms args \<Longrightarrow> args \<noteq> []" for ms args by (auto simp: object_text_def)
  have cons: "str_bytes ''CALL'' @ 0x20 # str_bytes (tc_name e) @ 0x20 # args = call_text e args" for e args
    by (simp add: call_text_def str_bytes_def)
  have step: "(\<exists>b. validate e args = Inr b \<and> bind_args (ToolId (tc_id e)) b = Inr a) \<longleftrightarrow>
      (\<exists>ms. assigns (tc_args e) ms \<and> complete (tc_args e) ms \<and> object_text (spelled (tc_args e) ms) args \<and>
         call_of (tc_id e) ms = Some a)" if "e \<in> set catalog" for e args a
  proof -
    have "bind_args (ToolId (tc_id e)) (bound_of (tc_args e) ms) = Inr a \<longleftrightarrow> call_of (tc_id e) ms = Some a"
      if "assigns (tc_args e) ms" "complete (tc_args e) ms" for ms
      using bind_validated [OF \<open>e \<in> set catalog\<close> that] by auto
    then show ?thesis unfolding validate_language [OF catalog_ok [OF that]] by auto
  qed
  show ?thesis unfolding decode_line_call_iff
  proof (rule conj_cong [OF refl], rule iffI)
    assume "\<exists>rest. strip_newline line = str_bytes ''CALL'' @ 0x20 # rest \<and> decode_call rest = Inr (Dec_Call c)"
    then obtain e args b a where e: "e \<in> set catalog"
      "strip_newline line = str_bytes ''CALL'' @ 0x20 # str_bytes (tc_name e) @ 0x20 # args" "length args \<le> max_args_bytes"
      "validate e args = Inr b" "bind_args (ToolId (tc_id e)) b = Inr a"
      "c = \<lparr>tl_tool = ToolId (tc_id e), tl_args = a, tl_args_bytes = args, tl_args_digest = digest_of_bytes args\<rparr>"
      unfolding decode_call_iff by blast
    obtain ms where "assigns (tc_args e) ms" "complete (tc_args e) ms" "object_text (spelled (tc_args e) ms) args"
      "call_of (tc_id e) ms = Some a"
      using step [OF e(1), of args a] e(4,5) by blast
    with e(1,3,6) e(2) [unfolded cons] show "\<exists>e args ms a. e \<in> set catalog \<and> strip_newline line = call_text e args \<and>
        length args \<le> max_args_bytes \<and> assigns (tc_args e) ms \<and> complete (tc_args e) ms \<and>
        object_text (spelled (tc_args e) ms) args \<and> call_of (tc_id e) ms = Some a \<and>
        c = \<lparr>tl_tool = ToolId (tc_id e), tl_args = a, tl_args_bytes = args, tl_args_digest = digest_of_bytes args\<rparr>"
      by blast
  next
    assume "\<exists>e args ms a. e \<in> set catalog \<and> strip_newline line = call_text e args \<and>
        length args \<le> max_args_bytes \<and> assigns (tc_args e) ms \<and> complete (tc_args e) ms \<and>
        object_text (spelled (tc_args e) ms) args \<and> call_of (tc_id e) ms = Some a \<and>
        c = \<lparr>tl_tool = ToolId (tc_id e), tl_args = a, tl_args_bytes = args, tl_args_digest = digest_of_bytes args\<rparr>"
    then obtain e args ms a where e: "e \<in> set catalog" "strip_newline line = call_text e args"
      "length args \<le> max_args_bytes" "assigns (tc_args e) ms" "complete (tc_args e) ms"
      "object_text (spelled (tc_args e) ms) args" "call_of (tc_id e) ms = Some a"
      "c = \<lparr>tl_tool = ToolId (tc_id e), tl_args = a, tl_args_bytes = args, tl_args_digest = digest_of_bytes args\<rparr>"
      by blast
    obtain b where b: "validate e args = Inr b" "bind_args (ToolId (tc_id e)) b = Inr a"
      using step [OF e(1), of args a] e(4-7) by blast
    then have "decode_call (str_bytes (tc_name e) @ 0x20 # args) = Inr (Dec_Call c)"
      unfolding decode_call_iff e(8) using e(1,3) nonempty [OF e(6)] by blast
    with e(2) [folded cons] show "\<exists>rest. strip_newline line = str_bytes ''CALL'' @ 0x20 # rest \<and>
        decode_call rest = Inr (Dec_Call c)" by blast
  qed
qed

text \<open>C32: whatever the line, a decision is well typed: a call names the tool its arguments are for, with
  the arguments in range, at most 256 argument bytes and their digest; a prompt or a summary is a JSON
  string body of at most 256 bytes, and a question asks for the one schema there is.\<close>

theorem decisions_typed:
  assumes "decode_line line = Inr d"
  shows "decision_typed d"
  using decode_line_parts [OF assms] decode_call_typed decode_ask_typed decode_finish_typed by blast

theorem decisions_typed_witness:
  "decision_typed (Dec_Call \<lparr>tl_tool = ToolId 4, tl_args = TimerUptimeRead, tl_args_bytes = [0x7b, 0x7d],
     tl_args_digest = digest_of_bytes [0x7b, 0x7d]\<rparr>)"
proof (rule decisions_typed)
  show "decode_line (str_bytes ''CALL timer_uptime_read {}'') = Inr (Dec_Call \<lparr>tl_tool = ToolId 4, tl_args = TimerUptimeRead,
      tl_args_bytes = [0x7b, 0x7d], tl_args_digest = digest_of_bytes [0x7b, 0x7d]\<rparr>)"
    by code_simp
qed

text \<open>Every rejection of a line comes with a repair hint: the decoder never fails with an error
  the model cannot be told how to repair.\<close>

theorem rejections_hinted:
  assumes "decode_line line = Inl e"
  shows "error_repair_hint e \<noteq> None"
  using decode_line_hinted [of line] assms by (simp add: hinted_def)

theorem rejections_hinted_witness:
  "decode_line (str_bytes ''CALL'') = Inl E_MissingToolName \<and> error_repair_hint E_MissingToolName \<noteq> None"
proof
  show "decode_line (str_bytes ''CALL'') = Inl E_MissingToolName"
    by (simp add: decode_line_def strip_newline_def max_line_bytes_def str_bytes_def suffix_def)
  then show "error_repair_hint E_MissingToolName \<noteq> None" by (rule rejections_hinted)
qed

end
