(* ===== verification/Brief.thy ===== *)
theory Brief
  imports Memory
begin

text \<open>
  The brief of a spawned run (\<open>esper-core/src/brief.rs\<close>): the objective and the recalled memory as
  newline-ended lines in a buffer of 256 bytes. The lemmas give the language that the receiving side
  accepts, and that what \<open>compose\<close> renders from masked notes is in it and stays the same brief.
\<close>

section \<open>The brief\<close>

definition brief_cap :: nat where "brief_cap = 256"

definition goal_prefix :: bytes where "goal_prefix = str_bytes ''GOAL ''"
definition mem_prefix :: bytes where "mem_prefix = str_bytes ''MEM ''"
definition mem_separator :: bytes where "mem_separator = str_bytes '' = ''"

record brief =
  br_bytes :: bytes
  br_len :: u16
  br_lines :: u8

definition brief_empty :: brief where
  "brief_empty = \<lparr>br_bytes = replicate brief_cap 0, br_len = 0, br_lines = 0\<rparr>"

definition brief_as_bytes :: "brief \<Rightarrow> bytes" where
  "brief_as_bytes b = (case slice (br_bytes b) 0 (unat (br_len b)) of None \<Rightarrow> [] | Some bs \<Rightarrow> bs)"

definition brief_digest :: "brief \<Rightarrow> u64" where
  "brief_digest b = digest_get (digest_of_bytes (brief_as_bytes b))"

definition push_line :: "bytes list \<Rightarrow> brief \<Rightarrow> bool \<times> brief" where
  "push_line parts b =
     (let start = unat (br_len b);
          stop = start + (sum_list (map length parts) + 1)
      in case splice (br_bytes b) start (concat parts @ [0x0a]) of
           None \<Rightarrow> (False, b)
         | Some bs \<Rightarrow>
             (True, \<lparr>br_bytes = bs,
                     br_len = (case try_from stop of None \<Rightarrow> br_len b | Some n \<Rightarrow> n),
                     br_lines = saturating_add (br_lines b) 1\<rparr>))"

definition mem_parts :: "memory_entry \<Rightarrow> bytes list" where
  "mem_parts e = [mem_prefix, note_as_bytes (me_label e), mem_separator, note_as_bytes (me_value e)]"

text \<open>The loop over the recalled entries stops at the first line that does not fit.\<close>

fun push_entries :: "memory_entry list \<Rightarrow> brief \<Rightarrow> brief" where
  "push_entries [] b = b"
| "push_entries (e # es) b =
     (case push_line (mem_parts e) b of
        (True, b') \<Rightarrow> push_entries es b'
      | (False, b') \<Rightarrow> b')"

definition compose :: "note_t \<Rightarrow> memory_entry list \<Rightarrow> brief" where
  "compose objective recalled =
     push_entries recalled (snd (push_line [goal_prefix, note_as_bytes objective] brief_empty))"

text \<open>\<open>split\<close> of the standard library: the pieces between the separators, one more than there are
  separators.\<close>

fun split_on :: "u8 \<Rightarrow> bytes \<Rightarrow> bytes list" where
  "split_on c [] = [[]]"
| "split_on c (b # bs) =
     (if b = c then [] # split_on c bs
      else case split_on c bs of [] \<Rightarrow> [[b]] | l # ls \<Rightarrow> (b # l) # ls)"

definition line_ok :: "nat \<Rightarrow> bytes \<Rightarrow> bool" where
  "line_ok i l \<longleftrightarrow>
     starts_with l (if i = 0 then goal_prefix else mem_prefix) \<and> \<not> list_ex (\<lambda>b. b < 0x20 \<or> b = 0x7f) l"

definition brief_from_bytes :: "bytes \<Rightarrow> error + brief" where
  "brief_from_bytes bs =
     (if brief_cap < length bs \<or> \<not> starts_with bs goal_prefix \<or> bs = [] \<or> last bs \<noteq> 0x0a
      then Inl E_BriefInvalid
      else
        let pieces = split_on 0x0a bs;
            ls = takeWhile (\<lambda>l. l \<noteq> []) pieces
        in if \<not> list_all (\<lambda>(i, l). line_ok i l) (zip [0..<length ls] ls) then Inl E_BriefInvalid
           else
             let lines = foldl (\<lambda>n _. saturating_add n 1) (0 :: u8) ls
             in if sum_list (map (\<lambda>l. length l + 1) (take (unat lines) pieces)) \<noteq> length bs
                then Inl E_BriefInvalid
                else and_then (ok_or E_BriefInvalid (try_from (length bs))) (\<lambda>len.
                     and_then (ok_or E_BriefInvalid (splice (replicate brief_cap 0) 0 bs)) (\<lambda>buf.
                       Inr \<lparr>br_bytes = buf, br_len = len, br_lines = lines\<rparr>)))"

section \<open>The language\<close>

definition lines_text :: "bytes list \<Rightarrow> bytes" where
  "lines_text ls = concat (map (\<lambda>l. l @ [0x0a]) ls)"

definition brief_lines_ok :: "bytes list \<Rightarrow> bool" where
  "brief_lines_ok ls \<longleftrightarrow> ls \<noteq> [] \<and> (\<forall>i < length ls. line_ok i (ls ! i)) \<and> length (lines_text ls) \<le> brief_cap"

text \<open>The brief that holds the given lines.\<close>

definition brief_of :: "bytes list \<Rightarrow> brief" where
  "brief_of ls =
     \<lparr>br_bytes = lines_text ls @ replicate (brief_cap - length (lines_text ls)) 0,
      br_len = of_nat (length (lines_text ls)), br_lines = of_nat (length ls)\<rparr>"

lemma lines_text_append: "lines_text (ks @ ls) = lines_text ks @ lines_text ls"
  by (simp add: lines_text_def)

lemma lines_text_simps [simp]: "lines_text [] = []" "lines_text (l # ls) = l @ 0x0a # lines_text ls"
  by (simp_all add: lines_text_def)

lemma length_lines_text: "length (lines_text ls) = sum_list (map (\<lambda>l. length l + 1) ls)"
  by (induction ls) auto

lemma split_on_nonempty [simp]: "split_on c bs \<noteq> []"
  by (induction c bs rule: split_on.induct) (auto split: list.split)

lemma split_on_length: "sum_list (map (\<lambda>l. length l + 1) (split_on c bs)) = length bs + 1"
  by (induction c bs rule: split_on.induct) (auto split: list.split)

lemma split_on_piece: "c \<notin> set l \<Longrightarrow> split_on c (l @ c # bs) = l # split_on c bs"
  by (induction l) (auto split: list.split)

lemma split_on_lines: "\<forall>l \<in> set ls. 0x0a \<notin> set l \<Longrightarrow> split_on 0x0a (lines_text ls) = ls @ [[]]"
  by (induction ls) (simp_all add: split_on_piece)

text \<open>The pieces, joined again, are the bytes.\<close>

lemma join_split: "split_on 0x0a bs = ls @ [[]] \<Longrightarrow> bs = lines_text ls"
proof (induction bs arbitrary: ls)
  case (Cons b bs)
  show ?case
  proof (cases "b = 0x0a")
    case True
    with Cons.prems obtain ls' where "ls = [] # ls'" "split_on 0x0a bs = ls' @ [[]]"
      by (cases ls) auto
    then show ?thesis using Cons.IH True by simp
  next
    case False
    obtain l rest where s: "split_on 0x0a bs = l # rest" using split_on_nonempty by (meson neq_Nil_conv)
    with Cons.prems False have "(b # l) # rest = ls @ [[]]" by simp
    then obtain ls' where "ls = (b # l) # ls'" "rest = ls' @ [[]]" by (cases ls) auto
    then show ?thesis using Cons.IH [of "l # ls'"] s by simp
  qed
qed simp

lemma line_ok_shape:
  assumes "line_ok i l"
  shows "l \<noteq> []" "0x0a \<notin> set l"
  using assms by (auto simp: line_ok_def list_ex_iff starts_with_def goal_prefix_def mem_prefix_def
      str_bytes_def split: if_splits)

lemma lines_count: "foldl (\<lambda>n _. saturating_add n 1) k ls = (of_nat (min (unat k + length ls) 255) :: u8)"
proof (induction ls arbitrary: k)
  case Nil
  have "unat k < 2 ^ LENGTH(8)" by (rule unsigned_less)
  then have "unat k \<le> 255" by simp
  then show ?case by (simp add: min_def)
next
  case (Cons l ls)
  have "unat k < 2 ^ LENGTH(8)" by (rule unsigned_less)
  then have "unat k \<le> 255" by simp
  then show ?case by (simp add: Cons unat_saturating_add min_def)
qed

lemma brief_lines_few: "brief_lines_ok ls \<Longrightarrow> length ls \<le> 128"
proof -
  assume ok: "brief_lines_ok ls"
  then have "\<forall>l \<in> set ls. 2 \<le> length l + 1"
    using line_ok_shape(1) unfolding brief_lines_ok_def by (metis in_set_conv_nth length_greater_0_conv Suc_eq_plus1 Suc_leI less_add_same_cancel2 one_add_one add_le_cancel_right One_nat_def)
  then have "2 * length ls \<le> sum_list (map (\<lambda>l. length l + 1) ls)"
    by (induction ls) auto
  then show ?thesis using ok by (simp add: brief_lines_ok_def length_lines_text brief_cap_def)
qed

lemma brief_lines_start:
  "brief_lines_ok ls \<Longrightarrow> starts_with (lines_text ls) goal_prefix \<and> lines_text ls \<noteq> [] \<and> last (lines_text ls) = 0x0a"
proof -
  assume ok: "brief_lines_ok ls"
  then obtain l ls' where ls: "ls = l # ls'" by (cases ls) (auto simp: brief_lines_ok_def)
  with ok have "line_ok 0 l" by (force simp: brief_lines_ok_def)
  then have "starts_with l goal_prefix" by (simp add: line_ok_def)
  then have "starts_with (lines_text ls) goal_prefix"
    using starts_with_length [of l goal_prefix] by (simp add: ls starts_with_def)
  moreover have "ks \<noteq> [] \<Longrightarrow> last (lines_text ks) = 0x0a" for ks
    by (induction ks) (auto simp: lines_text_def)
  ultimately show ?thesis using ls by (cases "ls' = []") auto
qed

lemma zip_upt_all: "list_all (\<lambda>(i, x). P i x) (zip [0..<length xs] xs) \<longleftrightarrow> (\<forall>i < length xs. P i (xs ! i))"
  by (simp add: list_all_length)

lemma takeWhile_pieces:
  assumes "sum_list (map (\<lambda>l. length l + 1) (takeWhile (\<lambda>l. l \<noteq> []) ps)) + 1 = sum_list (map (\<lambda>l. length l + 1) ps)"
  shows "ps = takeWhile (\<lambda>l. l \<noteq> []) ps @ [[]]"
proof -
  let ?d = "dropWhile (\<lambda>l. l \<noteq> []) ps"
  have "ps = takeWhile (\<lambda>l. l \<noteq> []) ps @ ?d" by simp
  then have "sum_list (map (\<lambda>l. length l + 1) ps) =
      sum_list (map (\<lambda>l. length l + 1) (takeWhile (\<lambda>l. l \<noteq> []) ps)) + sum_list (map (\<lambda>l. length l + 1) ?d)"
    by (metis map_append sum_list_append)
  then have "sum_list (map (\<lambda>l. length l + 1) ?d) = 1" using assms by linarith
  then have "?d = [[]]" by (cases ?d; cases "tl ?d") auto
  then show ?thesis by (metis takeWhile_dropWhile_id)
qed

lemma brief_of_lines:
  assumes ok: "brief_lines_ok ls"
  shows "brief_from_bytes (lines_text ls) = Inr (brief_of ls)"
proof -
  have len: "length (lines_text ls) \<le> 256" using ok by (simp add: brief_lines_ok_def brief_cap_def)
  have shape: "\<forall>l \<in> set ls. l \<noteq> [] \<and> 0x0a \<notin> set l"
    using ok line_ok_shape by (metis brief_lines_ok_def in_set_conv_nth)
  then have pieces: "split_on 0x0a (lines_text ls) = ls @ [[]]" by (simp add: split_on_lines)
  have tw: "takeWhile (\<lambda>l. l \<noteq> []) (ls @ [[]]) = ls" using shape by (induction ls) auto
  have few: "unat (of_nat (length ls) :: u8) = length ls" "min (length ls) 255 = length ls"
    using brief_lines_few [OF ok] by (simp_all add: unat_of_nat take_bit_nat_eq_self)
  have "try_from (length (lines_text ls)) = Some (of_nat (length (lines_text ls)) :: u16)"
    using len by (simp add: try_from_def)
  moreover have "splice (replicate brief_cap 0) 0 (lines_text ls) =
      Some (lines_text ls @ replicate (brief_cap - length (lines_text ls)) 0)"
    using len by (simp add: splice_def brief_cap_def)
  moreover have "(\<Sum>l\<leftarrow>ls. Suc (length l)) = length (lines_text ls)" by (simp add: length_lines_text)
  ultimately show ?thesis
    using ok brief_lines_start [OF ok] len
    by (simp add: brief_from_bytes_def Let_def pieces tw zip_upt_all lines_count few brief_of_def
        brief_lines_ok_def)
qed

text \<open>The receiving side accepts exactly the briefs.\<close>

lemma brief_from_bytes_iff:
  "brief_from_bytes bs = Inr b \<longleftrightarrow> (\<exists>ls. brief_lines_ok ls \<and> bs = lines_text ls \<and> b = brief_of ls)"
proof
  assume a: "brief_from_bytes bs = Inr b"
  let ?ps = "split_on 0x0a bs"
  let ?ls = "takeWhile (\<lambda>l. l \<noteq> []) ?ps"
  from a have len: "length bs \<le> brief_cap" and start: "starts_with bs goal_prefix"
    and lines: "\<forall>i < length ?ls. line_ok i (?ls ! i)"
    and count: "sum_list (map (\<lambda>l. length l + 1) (take (min (length ?ls) 255) ?ps)) = length bs"
    by (auto simp: brief_from_bytes_def Let_def zip_upt_all lines_count result_simps unat_of_nat
        take_bit_nat_eq_self min_def split: if_splits)
  have total: "sum_list (map (\<lambda>l. length l + 1) ?ps) = length bs + 1" by (rule split_on_length)
  have short: "length ?ls \<le> 255"
  proof (rule ccontr)
    assume "\<not> length ?ls \<le> 255"
    then have "256 \<le> length ?ls" by simp
    have "2 * length ks \<le> sum_list (map (\<lambda>l. length l + 1) ks)" if "\<forall>l \<in> set ks. l \<noteq> []" for ks :: "bytes list"
      using that by (induction ks) (auto simp: neq_Nil_conv)
    moreover have "\<forall>l \<in> set ?ls. l \<noteq> []" by (auto dest: set_takeWhileD)
    ultimately have "512 \<le> sum_list (map (\<lambda>l. length l + 1) ?ls)"
      using \<open>256 \<le> length ?ls\<close> by fastforce
    moreover have "sum_list (map (\<lambda>l. length l + 1) ?ls) \<le> sum_list (map (\<lambda>l. length l + 1) ?ps)"
      using arg_cong [OF takeWhile_dropWhile_id [of "\<lambda>l. l \<noteq> []" ?ps], of "\<lambda>ps. sum_list (map (\<lambda>l. length l + 1) ps)"]
      unfolding map_append sum_list_append by linarith
    ultimately show False using total len by (simp add: brief_cap_def)
  qed
  moreover have "take (length ?ls) ?ps = ?ls" by (metis append_eq_conv_conj takeWhile_dropWhile_id)
  ultimately have "sum_list (map (\<lambda>l. length l + 1) ?ls) = length bs" using count by (simp add: min_def)
  then have pieces: "?ps = ?ls @ [[]]" using takeWhile_pieces total by metis
  then have bs: "bs = lines_text ?ls" by (rule join_split)
  moreover have "?ls \<noteq> []"
  proof
    assume "?ls = []"
    then have "bs = []" using bs by simp
    then show False using start by (simp add: starts_with_def goal_prefix_def str_bytes_def)
  qed
  ultimately have "brief_lines_ok ?ls" using lines len by (simp add: brief_lines_ok_def)
  then show "\<exists>ls. brief_lines_ok ls \<and> bs = lines_text ls \<and> b = brief_of ls"
    using brief_of_lines a bs by (metis Inr_inject)
next
  assume "\<exists>ls. brief_lines_ok ls \<and> bs = lines_text ls \<and> b = brief_of ls"
  then show "brief_from_bytes bs = Inr b" using brief_of_lines by blast
qed

lemma brief_as_bytes_of: "length (lines_text ls) \<le> brief_cap \<Longrightarrow> brief_as_bytes (brief_of ls) = lines_text ls"
  by (simp add: brief_as_bytes_def brief_of_def slice_def brief_cap_def unat_of_nat take_bit_nat_eq_self)

text \<open>A brief that \<open>from_bytes\<close> can have made.\<close>

definition brief_ok :: "brief \<Rightarrow> bool" where
  "brief_ok b \<longleftrightarrow> brief_from_bytes (brief_as_bytes b) = Inr b"

lemma brief_from_as_bytes: "brief_from_bytes bs = Inr b \<longleftrightarrow> brief_ok b \<and> bs = brief_as_bytes b"
  unfolding brief_ok_def using brief_as_bytes_of brief_from_bytes_iff by (metis brief_lines_ok_def)

lemma brief_ok_length: "brief_ok b \<Longrightarrow> length (brief_as_bytes b) \<le> 256"
  unfolding brief_ok_def using brief_from_bytes_iff by (auto simp: brief_lines_ok_def brief_cap_def)

section \<open>Composition\<close>

lemma push_line_of:
  assumes "length (lines_text ls) \<le> brief_cap" "length ls < 255"
  shows "push_line parts (brief_of ls) =
    (if length (lines_text (ls @ [concat parts])) \<le> brief_cap then (True, brief_of (ls @ [concat parts]))
     else (False, brief_of ls))"
proof -
  have u: "unat (of_nat (length (lines_text ls)) :: u16) = length (lines_text ls)"
    using assms(1) by (simp add: brief_cap_def unat_of_nat take_bit_nat_eq_self)
  have l: "saturating_add (of_nat (length ls)) 1 = (of_nat (Suc (length ls)) :: u8)"
    using assms(2) by (simp add: word_unat_eq_iff unat_saturating_add unat_of_nat take_bit_nat_eq_self del: of_nat_Suc)
  show ?thesis
    using assms(1) by (auto simp: push_line_def brief_of_def splice_def u l lines_text_append length_concat
        brief_cap_def try_from_def Let_def add.assoc [symmetric])
qed

lemma brief_empty_of: "brief_empty = brief_of []"
  by (simp add: brief_empty_def brief_of_def)

definition clean_note :: "note_t \<Rightarrow> bool" where
  "clean_note n \<longleftrightarrow> length (note_as_bytes n) \<le> note_max \<and> \<not> list_ex is_control (note_as_bytes n)"

definition mem_line_ok :: "bytes \<Rightarrow> bool" where
  "mem_line_ok l \<longleftrightarrow> line_ok 1 l"

lemma push_entries_lines:
  assumes "list_all (\<lambda>e. clean_note (me_label e) \<and> clean_note (me_value e)) es" "brief_lines_ok ls"
  shows "\<exists>ks. push_entries es (brief_of ls) = brief_of (ls @ ks) \<and> brief_lines_ok (ls @ ks) \<and>
    ks = map (\<lambda>e. concat (mem_parts e)) (take (length ks) es) \<and>
    (length ks < length es \<longrightarrow> brief_cap < length (lines_text (ls @ ks @ [concat (mem_parts (es ! length ks))])))"
  using assms
proof (induction es arbitrary: ls)
  case (Cons e es)
  have few: "length (lines_text ls) \<le> brief_cap" "length ls < 255"
    using Cons.prems(2) brief_lines_few [of ls] by (auto simp: brief_lines_ok_def)
  let ?l = "concat (mem_parts e)"
  show ?case
  proof (cases "length (lines_text (ls @ [?l])) \<le> brief_cap")
    case True
    have "line_ok (length ls) ?l"
      using Cons.prems by (auto simp: line_ok_def mem_parts_def clean_note_def is_control_def list_ex_iff
          starts_with_def mem_prefix_def mem_separator_def str_bytes_def brief_lines_ok_def)
    then have "brief_lines_ok (ls @ [?l])"
      using Cons.prems(2) True by (auto simp: brief_lines_ok_def nth_append less_Suc_eq)
    then obtain ks where "push_entries es (brief_of (ls @ [?l])) = brief_of ((ls @ [?l]) @ ks)"
      "brief_lines_ok ((ls @ [?l]) @ ks)" "ks = map (\<lambda>e. concat (mem_parts e)) (take (length ks) es)"
      "length ks < length es \<longrightarrow> brief_cap < length (lines_text ((ls @ [?l]) @ ks @ [concat (mem_parts (es ! length ks))]))"
      using Cons.IH [of "ls @ [?l]"] Cons.prems(1) by auto
    then show ?thesis using True by (intro exI [of _ "?l # ks"]) (simp add: push_line_of [OF few])
  next
    case False
    then show ?thesis using Cons.prems(2) by (intro exI [of _ "[]"]) (simp add: push_line_of [OF few])
  qed
qed (intro exI [of _ "[]"], simp)

text \<open>What is composed of clean notes: the objective, then the longest run of recalled entries that
  fits; the receiving side accepts it as the same brief.\<close>

lemma compose_lines:
  assumes "clean_note objective" "list_all (\<lambda>e. clean_note (me_label e) \<and> clean_note (me_value e)) es"
  shows "\<exists>k \<le> length es. let ls = (goal_prefix @ note_as_bytes objective) # map (\<lambda>e. concat (mem_parts e)) (take k es) in
    brief_lines_ok ls \<and> compose objective es = brief_of ls \<and>
    (k < length es \<longrightarrow> brief_cap < length (lines_text (ls @ [concat (mem_parts (es ! k))])))"
proof -
  let ?g = "goal_prefix @ note_as_bytes objective"
  have g: "brief_lines_ok [?g]"
    using assms(1) by (auto simp: brief_lines_ok_def line_ok_def clean_note_def is_control_def list_ex_iff
        starts_with_def goal_prefix_def str_bytes_def brief_cap_def note_max_def)
  have "compose objective es = push_entries es (brief_of [?g])"
    using g push_line_of [of "[]" "[goal_prefix, note_as_bytes objective]"]
    by (simp add: compose_def brief_empty_of brief_lines_ok_def brief_cap_def)
  moreover obtain ks where "push_entries es (brief_of [?g]) = brief_of ([?g] @ ks)"
    and ok: "brief_lines_ok ([?g] @ ks)" and ks: "ks = map (\<lambda>e. concat (mem_parts e)) (take (length ks) es)"
    and rest: "length ks < length es \<longrightarrow> brief_cap < length (lines_text ([?g] @ ks @ [concat (mem_parts (es ! length ks))]))"
    using push_entries_lines [OF assms(2) g] by blast
  ultimately have "compose objective es = brief_of (?g # ks)" by simp
  moreover have "length ks \<le> length es"
    using arg_cong [OF ks, of length] by (simp only: length_map length_take)
  ultimately show ?thesis
    using ok rest by (intro exI [of _ "length ks"]) (simp add: Let_def ks [symmetric])
qed

lemma compose_accepted:
  assumes "clean_note objective" "list_all (\<lambda>e. clean_note (me_label e) \<and> clean_note (me_value e)) es"
  shows "brief_ok (compose objective es)"
proof -
  obtain ls where ls: "brief_lines_ok ls" "compose objective es = brief_of ls"
    using compose_lines [OF assms] by (auto simp: Let_def)
  then have "brief_from_bytes (lines_text ls) = Inr (compose objective es)" using brief_of_lines by simp
  then show ?thesis by (simp add: brief_from_as_bytes)
qed

end
