(* ===== verification/Wire.thy ===== *)
theory Wire
  imports Items
begin

text \<open>
  The payload layer of the runtime (\<open>esper-runtime/src/agent/wire.rs\<close>, \<open>error.rs\<close>): its errors, the
  bounded writer over a caller's buffer and the reader over borrowed bytes. The reader is the
  checkpoint's with the end of its bytes as its end and errors of its own; every read is an instance
  of the interface \<open>exact_reader\<close>, every write one write of the encoded bytes.
\<close>

section \<open>Errors\<close>

datatype wire_error =
    W_Truncated
  | W_Trailing
  | W_Invalid
  | W_BufferTooSmall
  | W_Core error

datatype backend_error =
    BE_Exhausted
  | BE_OutputTooLong
  | BE_UnknownPrompt
  | BE_PolicyMismatch

text \<open>\<open>RE_Waymaker\<close> carries an error of the kernel, which is not part of the repository.\<close>

datatype runtime_error =
    RE_Waymaker
  | RE_Core error
  | RE_BadFrame
  | RE_JournalCorrupt
  | RE_SeedInvalid string
  | RE_SeedMismatch
  | RE_IncompatibleVersion
  | RE_World string
  | RE_Backend backend_error
  | RE_IllegalTransition
  | RE_SuspendedForever
  | RE_TooManyBoots
  | RE_Wire wire_error
  | RE_BadTerminal
  | RE_Join
  | RE_ReplayDiverged

text \<open>One scratch page of 512 bytes, less the frame overhead.\<close>

definition page_record_max :: nat where "page_record_max = 512 - 32"

section \<open>The writer\<close>

text \<open>A buffer and a position.\<close>

type_synonym writer = "bytes \<times> nat"

definition writer_new :: "bytes \<Rightarrow> writer" where
  "writer_new out = (out, 0)"

definition w_bytes :: "bytes \<Rightarrow> writer \<Rightarrow> wire_error + writer" where
  "w_bytes bs w = (case w of (out, pos) \<Rightarrow>
     and_then (ok_or W_BufferTooSmall (splice out pos bs)) (\<lambda>out'. Inr (out', pos + length bs)))"

definition w_u8 :: "u8 \<Rightarrow> writer \<Rightarrow> wire_error + writer" where
  "w_u8 v = w_bytes [v]"

definition w_u16 :: "u16 \<Rightarrow> writer \<Rightarrow> wire_error + writer" where
  "w_u16 v = w_bytes (to_le_bytes v)"

definition w_u32 :: "u32 \<Rightarrow> writer \<Rightarrow> wire_error + writer" where
  "w_u32 v = w_bytes (to_le_bytes v)"

definition w_u64 :: "u64 \<Rightarrow> writer \<Rightarrow> wire_error + writer" where
  "w_u64 v = w_bytes (to_le_bytes v)"

definition w_flag :: "bool \<Rightarrow> writer \<Rightarrow> wire_error + writer" where
  "w_flag b = w_u8 (if b then 1 else 0)"

text \<open>A sequence of writes, each followed by \<open>?\<close>, and a check between writes.\<close>

fun w_all :: "(writer \<Rightarrow> wire_error + writer) list \<Rightarrow> writer \<Rightarrow> wire_error + writer" where
  "w_all [] w = Inr w"
| "w_all (f # fs) w = and_then (f w) (w_all fs)"

definition w_check :: "wire_error + (writer \<Rightarrow> wire_error + writer) \<Rightarrow> writer \<Rightarrow> wire_error + writer" where
  "w_check m w = and_then m (\<lambda>f. f w)"

definition w_note :: "note_t \<Rightarrow> writer \<Rightarrow> wire_error + writer" where
  "w_note n =
     (let bs = note_as_bytes n in
      w_all [w_check (map_sum id w_u8 (ok_or W_Invalid (try_from (length bs)))), w_bytes bs])"

definition w_capabilities :: "capabilities \<Rightarrow> writer \<Rightarrow> wire_error + writer" where
  "w_capabilities c = w_all
     [w_bytes (c_read_pins c), w_u8 (c_read_count c), w_bytes (c_write_pins c), w_u8 (c_write_count c),
      w_bytes (c_sensors c), w_u8 (c_sensor_count c), w_flag (c_allow_timer c), w_flag (c_allow_status c)]"

text \<open>A byte string after its length in 16 bits.\<close>

definition w_sized :: "bytes \<Rightarrow> writer \<Rightarrow> wire_error + writer" where
  "w_sized bs = w_all [w_check (map_sum id w_u16 (ok_or W_Invalid (try_from (length bs)))), w_bytes bs]"

section \<open>The reader\<close>

definition wr_take :: "nat \<Rightarrow> reader \<Rightarrow> wire_error + (bytes \<times> reader)" where
  "wr_take n r =
     (let stop = rd_pos r + n in
      if rd_end r < stop then Inl W_Truncated
      else case slice (rd_bytes r) (rd_pos r) stop of
             None \<Rightarrow> Inl W_Truncated
           | Some bs \<Rightarrow> Inr (bs, r\<lparr>rd_pos := stop\<rparr>))"

definition wr_u8 :: "reader \<Rightarrow> wire_error + (u8 \<times> reader)" where
  "wr_u8 = rd_bind (wr_take 1) (\<lambda>bs. rd_return (from_le_bytes bs))"

definition wr_u16 :: "reader \<Rightarrow> wire_error + (u16 \<times> reader)" where
  "wr_u16 = rd_bind (wr_take 2) (\<lambda>bs. rd_return (from_le_bytes bs))"

definition wr_u32 :: "reader \<Rightarrow> wire_error + (u32 \<times> reader)" where
  "wr_u32 = rd_bind (wr_take 4) (\<lambda>bs. rd_return (from_le_bytes bs))"

definition wr_u64 :: "reader \<Rightarrow> wire_error + (u64 \<times> reader)" where
  "wr_u64 = rd_bind (wr_take 8) (\<lambda>bs. rd_return (from_le_bytes bs))"

definition wr_flag :: "reader \<Rightarrow> wire_error + (bool \<times> reader)" where
  "wr_flag = rd_bind wr_u8 (\<lambda>b.
     if b = 0 then rd_return False else if b = 1 then rd_return True else rd_fail W_Invalid)"

definition wr_note :: "reader \<Rightarrow> wire_error + (note_t \<times> reader)" where
  "wr_note = rd_bind wr_u8 (\<lambda>len.
     if note_max < unat len then rd_fail W_Invalid
     else rd_bind (wr_take (unat len)) (\<lambda>bs. rd_check (map_err W_Core (note_from_bytes bs))))"

definition wr_goal :: "reader \<Rightarrow> wire_error + (goal_id \<times> reader)" where
  "wr_goal = rd_bind wr_u16 (\<lambda>i. rd_check (ok_or W_Invalid (goal_id_new i)))"

definition invalid_unless :: "bool \<Rightarrow> wire_error + unit" where
  "invalid_unless b = (if b then Inr () else Inl W_Invalid)"

definition wr_capabilities :: "reader \<Rightarrow> wire_error + (capabilities \<times> reader)" where
  "wr_capabilities =
     rd_bind (wr_take max_pins_per_set) (\<lambda>rp. rd_bind wr_u8 (\<lambda>rc.
     rd_bind (wr_take max_pins_per_set) (\<lambda>wp. rd_bind wr_u8 (\<lambda>wc.
     rd_bind (wr_take max_sensors_per_set) (\<lambda>sn. rd_bind wr_u8 (\<lambda>sc.
     rd_bind wr_flag (\<lambda>timer. rd_bind wr_flag (\<lambda>status.
       let caps = \<lparr>c_read_pins = rp, c_read_count = rc, c_write_pins = wp, c_write_count = wc,
                   c_sensors = sn, c_sensor_count = sc, c_allow_timer = timer, c_allow_status = status\<rparr>
       in rd_check (map_sum id (\<lambda>_. caps) (invalid_unless (caps_valid caps)))))))))))"

text \<open>A byte string after its length in 16 bits, no longer than \<open>cap\<close>.\<close>

definition wr_sized :: "nat \<Rightarrow> reader \<Rightarrow> wire_error + (bytes \<times> reader)" where
  "wr_sized cap = rd_bind wr_u16 (\<lambda>len.
     if cap < unat len then rd_fail W_Invalid else wr_take (unat len))"

definition wr_end :: "reader \<Rightarrow> wire_error + unit" where
  "wr_end r = (if rd_pos r = length (rd_bytes r) then Inr () else Inl W_Trailing)"

text \<open>Decoding a whole payload: the fields, then \<open>end\<close>.\<close>

definition wr_whole :: "(reader \<Rightarrow> wire_error + ('a \<times> reader)) \<Rightarrow> bytes \<Rightarrow> wire_error + 'a" where
  "wr_whole get bs = and_then (get (reader_of bs)) (\<lambda>(x, r). and_then (wr_end r) (\<lambda>_. Inr x))"

section \<open>Writes\<close>

named_theorems wire_puts \<open>a chain of writes is one write\<close>

lemma w_bytes_Nil: "snd w \<le> length (fst w) \<Longrightarrow> w_bytes [] w = Inr w"
  by (cases w) (simp add: w_bytes_def splice_def)

lemma w_bytes_append:
  "and_then (w_bytes as w) (w_bytes bs) = w_bytes (as @ bs) w"
proof (cases w)
  case (Pair out pos)
  show ?thesis
  proof (cases "pos + length as + length bs \<le> length out")
    case True
    then have "min (length out) pos = pos" by simp
    then show ?thesis using True by (simp add: Pair w_bytes_def splice_def ac_simps)
  next
    case False
    then show ?thesis by (simp add: Pair w_bytes_def splice_def add.assoc)
  qed
qed

lemma w_all_Nil: "w_all [] = Inr"
  by (rule ext) simp

lemma w_all_single [simp]: "w_all [f] w = f w"
  by (simp add: w_all_Nil)

text \<open>A write of known bytes.\<close>

definition emits :: "(writer \<Rightarrow> wire_error + writer) \<Rightarrow> bytes \<Rightarrow> bool" where
  "emits f bs \<longleftrightarrow> f = w_bytes bs"

lemma emitsD: "emits f bs \<Longrightarrow> f w = w_bytes bs w"
  by (simp add: emits_def)

lemma emits_bytes [wire_puts, simp]: "emits (w_bytes bs) bs"
  by (simp add: emits_def)

lemma emits_words [wire_puts, simp]:
  "emits (w_u8 a) (u8_enc a)" "emits (w_u16 b) (to_le_bytes b)" "emits (w_u32 c) (to_le_bytes c)"
  "emits (w_u64 d) (to_le_bytes d)" "emits (w_flag e) (flag_enc e)"
  by (simp_all add: emits_def fun_eq_iff w_u8_def w_u16_def w_u32_def w_u64_def w_flag_def u8_enc_def flag_enc_def)

lemma emits_one: "emits f bs \<Longrightarrow> emits (w_all [f]) bs"
  by (rule ext [of "w_all [f]" "w_bytes bs", THEN emits_def [THEN iffD2]]) (simp add: emits_def w_all_Nil)

lemma emits_cons: "emits f as \<Longrightarrow> emits (w_all (g # fs)) bs \<Longrightarrow> emits (w_all (f # g # fs)) (as @ bs)"
proof -
  assume "emits f as" "emits (w_all (g # fs)) bs"
  then have "f = w_bytes as" "w_all (g # fs) = w_bytes bs" unfolding emits_def by blast+
  then have "w_all (f # g # fs) w = w_bytes (as @ bs) w" for w
    using w_all.simps(2) [of f "g # fs" w] w_bytes_append [of as w bs] by (simp only:)
  then show "emits (w_all (f # g # fs)) (as @ bs)" by (simp only: emits_def fun_eq_iff) simp
qed

lemma emits_check: "m = Inr f \<Longrightarrow> emits f bs \<Longrightarrow> emits (w_check m) bs"
  by (simp add: emits_def fun_eq_iff w_check_def)

text \<open>What a payload leaves in the caller's buffer.\<close>

definition written :: "bytes \<Rightarrow> bytes \<Rightarrow> wire_error + writer" where
  "written bs out =
     (if length bs \<le> length out then Inr (bs @ drop (length bs) out, length bs) else Inl W_BufferTooSmall)"

lemma emits_result: "emits f bs \<Longrightarrow> f (writer_new out) = written bs out"
  by (simp add: emits_def w_bytes_def writer_new_def splice_def written_def)

definition sized_enc :: "bytes \<Rightarrow> bytes" where
  "sized_enc bs = to_le_bytes (of_nat (length bs) :: u16) @ bs"

lemma emits_sized [wire_puts, simp]: "length bs < 65536 \<Longrightarrow> emits (w_sized bs) (sized_enc bs)"
  unfolding w_sized_def sized_enc_def
  by (intro emits_cons emits_one emits_bytes emits_check [OF _ emits_words(2)]) (simp add: try_from_def)

lemma emits_note [wire_puts, simp]: "note_ok n \<Longrightarrow> emits (w_note n) (note_enc n)"
proof -
  assume "note_ok n"
  then have small: "length (note_as_bytes n) < 256" using note_as_bytes_length [of n] by (simp add: note_max_def)
  have "emits (w_note n) (u8_enc (of_nat (length (note_as_bytes n))) @ note_as_bytes n)"
    unfolding w_note_def Let_def
    by (intro emits_cons emits_one emits_bytes emits_check [OF _ emits_words(1)])
      (use small in \<open>simp add: try_from_def\<close>)
  then show ?thesis by (simp add: note_enc_def u8_enc_def)
qed

lemma emits_capabilities [wire_puts, simp]: "emits (w_capabilities c) (capabilities_enc c)"
  unfolding w_capabilities_def capabilities_enc_def
  by (intro emits_cons emits_one emits_bytes emits_words)

section \<open>Reads\<close>

lemma wr_take_Inr: "wr_take n r = Inr (bs, r') \<longleftrightarrow> length bs = n \<and> reads r bs \<and> r' = skip r bs"
proof -
  have "wr_take n r = Inr (bs, r') \<longleftrightarrow> rd_take n r = Inr (bs, r')"
    by (auto simp: wr_take_def rd_take_def Let_def split: option.splits)
  then show ?thesis by (simp add: rd_take_Inr)
qed

interpretation wire_arr: exact_reader "wr_take n" "\<lambda>bs. bs" "\<lambda>bs. length bs = n" for n
  by unfold_locales (auto simp: wr_take_Inr)

text \<open>Both readers read an integer the same way.\<close>

lemma wr_word_iff:
  assumes "8 dvd LENGTH('a::len)" and "n = LENGTH('a) div 8"
  shows "rd_bind (wr_take n) (\<lambda>bs. rd_return (from_le_bytes bs)) r = Inr (w :: 'a word, r') \<longleftrightarrow>
    reads r (to_le_bytes w) \<and> r' = skip r (to_le_bytes w)"
  using rd_word_iff [OF assms, of r w r'] by (simp add: rd_bind_Inr rd_return_Inr wr_take_Inr rd_take_Inr)

interpretation wire_u8: exact_reader wr_u8 u8_enc any
  by unfold_locales (simp add: wr_u8_def wr_word_iff to_le_bytes_u8 u8_enc_def)

interpretation wire_u16: exact_reader wr_u16 to_le_bytes any
  by unfold_locales (simp add: wr_u16_def wr_word_iff)

interpretation wire_u32: exact_reader wr_u32 to_le_bytes any
  by unfold_locales (simp add: wr_u32_def wr_word_iff)

interpretation wire_u64: exact_reader wr_u64 to_le_bytes any
  by unfold_locales (simp add: wr_u64_def wr_word_iff)

interpretation wire_flag: exact_reader wr_flag flag_enc any
proof unfold_locales
  fix r b r'
  have "wr_flag r = Inr (b, r') \<longleftrightarrow> (\<exists>w. w = (if b then 1 else 0) \<and> reads r [w] \<and> r' = skip r [w])"
    unfolding wr_flag_def wire_u8.bind_iff u8_enc_def
    by (intro iff_exI) (auto simp: rd_return_Inr rd_fail_Inr split: if_split_asm)
  then show "wr_flag r = Inr (b, r') \<longleftrightarrow> any b \<and> reads r (flag_enc b) \<and> r' = skip r (flag_enc b)"
    by (simp add: flag_enc_def)
qed

text \<open>The note, the goal and the capabilities read as the checkpoint reads them: only the errors differ.\<close>

lemma wire_reads_alike:
  "wr_u8 r = Inr (a, r1) \<longleftrightarrow> rd_u8 r = Inr (a, r1)" "wr_u16 r = Inr (b, r1) \<longleftrightarrow> rd_u16 r = Inr (b, r1)"
  "wr_flag r = Inr (c, r1) \<longleftrightarrow> rd_flag r = Inr (c, r1)" "wr_take n r = Inr (bs, r1) \<longleftrightarrow> rd_take n r = Inr (bs, r1)"
  by (simp_all add: wire_u8.get_iff u8.get_iff wire_u16.get_iff u16.get_iff wire_flag.get_iff flag_c.get_iff
      wr_take_Inr rd_take_Inr)

interpretation wire_note: exact_reader wr_note note_enc note_ok
proof unfold_locales
  fix r n r'
  have "wr_note r = Inr (n, r') \<longleftrightarrow> rd_note r = Inr (n, r')"
    by (auto simp: wr_note_def rd_note_def rd_bind_Inr wire_reads_alike rd_check_Inr rd_fail_Inr map_err_eq_Inr
        split: if_splits)
  then show "wr_note r = Inr (n, r') \<longleftrightarrow> note_ok n \<and> reads r (note_enc n) \<and> r' = skip r (note_enc n)"
    by (simp add: note_c.get_iff)
qed

interpretation wire_goal: exact_reader wr_goal goal_id_enc goal_id_wire
proof unfold_locales
  fix r i r'
  have "wr_goal r = Inr (i, r') \<longleftrightarrow> take_goal_id r = Inr (i, r')"
    by (auto simp: wr_goal_def take_goal_id_def rd_bind_Inr wire_reads_alike rd_check_Inr ok_or_eq_Inr)
  then show "wr_goal r = Inr (i, r') \<longleftrightarrow> goal_id_wire i \<and> reads r (goal_id_enc i) \<and> r' = skip r (goal_id_enc i)"
    by (simp add: goal_id_c.get_iff)
qed

interpretation wire_capabilities: exact_reader wr_capabilities capabilities_enc capabilities_wire
proof unfold_locales
  fix r c r'
  have "wr_capabilities r = Inr (c, r') \<longleftrightarrow> take_capabilities r = Inr (c, r')"
    by (simp add: wr_capabilities_def take_capabilities_def rd_bind_Inr wire_reads_alike rd_check_Inr Let_def
        invalid_unless_def corrupt_unless_def cong: conj_cong if_cong)
  then show "wr_capabilities r = Inr (c, r') \<longleftrightarrow>
      capabilities_wire c \<and> reads r (capabilities_enc c) \<and> r' = skip r (capabilities_enc c)"
    by (simp add: capabilities_c.get_iff)
qed

lemma wr_sized_reader:
  assumes "cap < 65536"
  shows "exact_reader (wr_sized cap) sized_enc (\<lambda>bs. length bs \<le> cap)"
proof
  fix r bs r'
  have small: "unat (of_nat n :: u16) = n" if "n \<le> cap" for n
    using that assms by (simp add: unat_of_nat take_bit_nat_eq_self)
  have "wr_sized cap r = Inr (bs, r') \<longleftrightarrow> (\<exists>len :: u16. (unat len \<le> cap \<and> length bs = unat len) \<and>
      reads r (to_le_bytes len) \<and> reads (skip r (to_le_bytes len)) bs \<and> r' = skip (skip r (to_le_bytes len)) bs)"
    unfolding wr_sized_def wire_u16.bind_iff
    by (intro iff_exI) (auto simp: rd_fail_Inr wr_take_Inr not_less)
  also have "(\<lambda>len :: u16. unat len \<le> cap \<and> length bs = unat len) = (\<lambda>len. len = of_nat (length bs) \<and> length bs \<le> cap)"
    using small by (auto simp: fun_eq_iff)
  finally show "wr_sized cap r = Inr (bs, r') \<longleftrightarrow> length bs \<le> cap \<and> reads r (sized_enc bs) \<and> r' = skip r (sized_enc bs)"
    by (simp add: sized_enc_def reads_append skip_append)
qed

section \<open>Payloads\<close>

text \<open>\<open>if r.flag()? { Some(..) } else { None }\<close>, and its writer.\<close>

definition wr_option :: "(reader \<Rightarrow> wire_error + ('a \<times> reader)) \<Rightarrow> reader \<Rightarrow> wire_error + ('a option \<times> reader)" where
  "wr_option get = rd_bind wr_flag (\<lambda>present.
     if present then rd_bind get (\<lambda>x. rd_return (Some x)) else rd_return None)"

definition w_option :: "('a \<Rightarrow> writer \<Rightarrow> wire_error + writer) \<Rightarrow> 'a option \<Rightarrow> writer \<Rightarrow> wire_error + writer" where
  "w_option put x = (case x of None \<Rightarrow> w_u8 0 | Some v \<Rightarrow> w_all [w_u8 1, put v])"

definition opt_enc :: "('a \<Rightarrow> bytes) \<Rightarrow> 'a option \<Rightarrow> bytes" where
  "opt_enc enc x = flag_enc (x \<noteq> None) @ (case x of None \<Rightarrow> [] | Some v \<Rightarrow> enc v)"

lemma emits_option:
  assumes "\<And>v. x = Some v \<Longrightarrow> emits (put v) (enc v)"
  shows "emits (w_option put x) (opt_enc enc x)"
proof (cases x)
  case None
  then show ?thesis using emits_words(1) [of 0] by (simp add: w_option_def opt_enc_def u8_enc_def flag_enc_def)
next
  case (Some v)
  have "emits (w_all [w_u8 1, put v]) (u8_enc 1 @ enc v)"
    by (intro emits_cons emits_one emits_words assms Some)
  then show ?thesis using Some by (simp add: w_option_def opt_enc_def u8_enc_def flag_enc_def)
qed

locale wire_reader = exact_reader get enc ok
  for get :: "reader \<Rightarrow> wire_error + ('a \<times> reader)"
    and enc :: "'a \<Rightarrow> bytes"
    and ok :: "'a \<Rightarrow> bool"
begin

text \<open>A whole payload decodes exactly when it is an encoding.\<close>

lemma whole_iff: "wr_whole get bs = Inr x \<longleftrightarrow> ok x \<and> bs = enc x"
proof -
  have "wr_whole get bs = Inr x \<longleftrightarrow>
      ok x \<and> reads (reader_of bs) (enc x) \<and> rd_pos (skip (reader_of bs) (enc x)) = length bs"
    by (auto simp: wr_whole_def result_simps get_iff wr_end_def reader_of_def skip_def split: if_splits)
  then show ?thesis using reader_of_iff [of bs "enc x"] by auto
qed

lemma option_reader: "wire_reader (wr_option get) (opt_enc enc) (pred_option ok)"
proof
  fix r x r'
  have "wr_option get r = Inr (x, r') \<longleftrightarrow> (\<exists>p. p = (x \<noteq> None) \<and> reads r (flag_enc p) \<and>
      (case x of None \<Rightarrow> r' = skip r (flag_enc p)
       | Some v \<Rightarrow> ok v \<and> reads (skip r (flag_enc p)) (enc v) \<and> r' = skip (skip r (flag_enc p)) (enc v)))"
    unfolding wr_option_def wire_flag.bind_iff
    by (intro iff_exI) (auto simp: bind_iff rd_return_Inr split: option.split)
  then show "wr_option get r = Inr (x, r') \<longleftrightarrow>
      pred_option ok x \<and> reads r (opt_enc enc x) \<and> r' = skip r (opt_enc enc x)"
    by (cases x) (auto simp: opt_enc_def reads_append skip_append reads_Nil_skip)
qed

end

lemmas wire_word_readers =
  wire_u8.exact_reader_axioms wire_u16.exact_reader_axioms wire_u32.exact_reader_axioms
  wire_u64.exact_reader_axioms wire_flag.exact_reader_axioms wire_arr.exact_reader_axioms

end
