(* ===== verification/Seed.thy ===== *)
theory Seed
  imports Wire Brief
begin

text \<open>
  The run seed (\<open>esper-runtime/src/seed.rs\<close> and the inference settings of \<open>backend.rs\<close>): what a run
  is granted, its validation, the seed of a continued run, and the binding of 151 bytes that a
  journal starts with. The lemmas show that the binding names the snapshot: it decodes back, and
  nothing but bindings decode.
\<close>

section \<open>Settings and seeds\<close>

definition prompt_cap :: nat where "prompt_cap = 1024"
definition briefed_prompt_cap :: nat where "briefed_prompt_cap = 1536"
definition output_cap :: nat where "output_cap = 256"

record inference_settings =
  is_max_prompt_bytes :: u16
  is_max_output_bytes :: u16

definition default_settings :: inference_settings where
  "default_settings = \<lparr>is_max_prompt_bytes = 1024, is_max_output_bytes = 256\<rparr>"

definition briefed_settings :: inference_settings where
  "briefed_settings = \<lparr>is_max_prompt_bytes = 1536, is_max_output_bytes = 256\<rparr>"

definition settings_validate :: "inference_settings \<Rightarrow> string + unit" where
  "settings_validate s =
     (if is_max_prompt_bytes s = 0 \<or> of_nat prompt_cap < is_max_prompt_bytes s
      then Inl ''max_prompt_bytes must be within 1..=1024''
      else if is_max_output_bytes s = 0 \<or> of_nat output_cap < is_max_output_bytes s
      then Inl ''max_output_bytes must be within 1..=256''
      else Inr ())"

definition settings_validate_briefed :: "inference_settings \<Rightarrow> string + unit" where
  "settings_validate_briefed s =
     (if is_max_prompt_bytes s = 0 \<or> of_nat briefed_prompt_cap < is_max_prompt_bytes s
      then Inl ''max_prompt_bytes must be within 1..=1536 for a briefed run''
      else if is_max_output_bytes s = 0 \<or> of_nat output_cap < is_max_output_bytes s
      then Inl ''max_output_bytes must be within 1..=256''
      else Inr ())"

definition settings_bytes :: "inference_settings \<Rightarrow> bytes" where
  "settings_bytes s = to_le_bytes (is_max_prompt_bytes s) @ to_le_bytes (is_max_output_bytes s)"

definition workflow_version :: u16 where "workflow_version = 1"
definition seed_input_len :: nat where "seed_input_len = 151"

record run_seed =
  sd_id :: run_id
  sd_model_turns :: u16
  sd_mutations :: u16
  sd_input_tokens :: u32
  sd_output_tokens :: u32
  sd_elapsed_ms :: u64
  sd_capabilities :: capabilities
  sd_workflow_version :: u16
  sd_model_bundle :: u64
  sd_inference :: inference_settings
  sd_context_budget_bytes :: "u64 option"
  sd_parent :: "lineage option"
  sd_brief :: "brief option"

record seed_snapshot =
  ss_id :: u64
  ss_workflow_version :: u16
  ss_model_turns :: u16
  ss_mutations :: u16
  ss_input_tokens :: u32
  ss_output_tokens :: u32
  ss_elapsed_ms :: u64
  ss_read_pins :: "u8 list"
  ss_read_count :: u8
  ss_write_pins :: "u8 list"
  ss_write_count :: u8
  ss_sensors :: "u8 list"
  ss_sensor_count :: u8
  ss_allow_timer :: bool
  ss_allow_status :: bool
  ss_model_bundle :: u64
  ss_inference :: inference_settings
  ss_context_budget_bytes :: "u64 option"
  ss_parent :: "lineage option"
  ss_brief_digest :: "u64 option"

definition default_slice :: run_seed where
  "default_slice =
     \<lparr>sd_id = RunId 0, sd_model_turns = 10, sd_mutations = 4, sd_input_tokens = 4000,
      sd_output_tokens = 1000, sd_elapsed_ms = 60000,
      sd_capabilities = \<lparr>c_read_pins = [0, 1, 2, 3, 4, 5, 6, 7], c_read_count = 8,
        c_write_pins = [0, 1, 2, 3, 4, 5, 6, 7], c_write_count = 8, c_sensors = [0, 1, 2, 3],
        c_sensor_count = 4, c_allow_timer = True, c_allow_status = True\<rparr>,
      sd_workflow_version = workflow_version, sd_model_bundle = 0, sd_inference = default_settings,
      sd_context_budget_bytes = None, sd_parent = None, sd_brief = None\<rparr>"

definition starting_budget :: "run_seed \<Rightarrow> budget" where
  "starting_budget s =
     \<lparr>b_model_turns = sd_model_turns s, b_input_tokens = sd_input_tokens s,
      b_output_tokens = sd_output_tokens s, b_elapsed_ms = sd_elapsed_ms s, b_radio_bytes = 0,
      b_mutations = sd_mutations s, b_consecutive_errors = 0\<rparr>"

definition seed_child :: "run_seed \<Rightarrow> lineage \<Rightarrow> run_seed" where
  "seed_child s l =
     (let remaining = li_budgets_remaining l in
      s\<lparr>sd_id := RunId (run_id_get (sd_id s) + ucast (li_continued_at_frame l) + 1),
        sd_model_turns := b_model_turns remaining, sd_mutations := b_mutations remaining,
        sd_input_tokens := b_input_tokens remaining, sd_output_tokens := b_output_tokens remaining,
        sd_elapsed_ms := b_elapsed_ms remaining, sd_parent := Some l\<rparr>)"

definition names_outside :: "u8 \<Rightarrow> u8 list \<Rightarrow> u8 \<Rightarrow> bool" where
  "names_outside greatest xs count \<longleftrightarrow> list_ex (\<lambda>v. greatest < v) (take (unat count) xs)"

definition seed_validate :: "run_seed \<Rightarrow> string + unit" where
  "seed_validate s =
     (if sd_workflow_version s \<noteq> workflow_version
      then Inl ''workflow_version is not the slice version''
      else if sd_model_turns s = 0 then Inl ''model_turns must grant at least one turn''
      else and_then (if sd_brief s \<noteq> None then settings_validate_briefed (sd_inference s)
                     else settings_validate (sd_inference s)) (\<lambda>_.
        let caps = sd_capabilities s in
        if 8 < c_read_count caps then Inl ''read_count exceeds the pin storage''
        else if 8 < c_write_count caps then Inl ''write_count exceeds the pin storage''
        else if 4 < c_sensor_count caps then Inl ''sensor_count exceeds the sensor storage''
        else if names_outside 7 (c_read_pins caps) (c_read_count caps)
        then Inl ''read_pins names a pin outside 0..=7''
        else if names_outside 7 (c_write_pins caps) (c_write_count caps)
        then Inl ''write_pins names a pin outside 0..=7''
        else if names_outside 3 (c_sensors caps) (c_sensor_count caps)
        then Inl ''sensors names a sensor outside 0..=3''
        else Inr ()))"

definition snapshot_of_seed :: "run_seed \<Rightarrow> seed_snapshot" where
  "snapshot_of_seed s =
     \<lparr>ss_id = run_id_get (sd_id s), ss_workflow_version = sd_workflow_version s,
      ss_model_turns = sd_model_turns s, ss_mutations = sd_mutations s,
      ss_input_tokens = sd_input_tokens s, ss_output_tokens = sd_output_tokens s,
      ss_elapsed_ms = sd_elapsed_ms s,
      ss_read_pins = c_read_pins (sd_capabilities s), ss_read_count = c_read_count (sd_capabilities s),
      ss_write_pins = c_write_pins (sd_capabilities s), ss_write_count = c_write_count (sd_capabilities s),
      ss_sensors = c_sensors (sd_capabilities s), ss_sensor_count = c_sensor_count (sd_capabilities s),
      ss_allow_timer = c_allow_timer (sd_capabilities s), ss_allow_status = c_allow_status (sd_capabilities s),
      ss_model_bundle = sd_model_bundle s, ss_inference = sd_inference s,
      ss_context_budget_bytes = sd_context_budget_bytes s, ss_parent = sd_parent s,
      ss_brief_digest = map_option brief_digest (sd_brief s)\<rparr>"

definition seed_from_snapshot :: "seed_snapshot \<Rightarrow> brief option \<Rightarrow> run_seed" where
  "seed_from_snapshot t brief =
     \<lparr>sd_id = RunId (ss_id t), sd_model_turns = ss_model_turns t, sd_mutations = ss_mutations t,
      sd_input_tokens = ss_input_tokens t, sd_output_tokens = ss_output_tokens t,
      sd_elapsed_ms = ss_elapsed_ms t,
      sd_capabilities = \<lparr>c_read_pins = ss_read_pins t, c_read_count = ss_read_count t,
        c_write_pins = ss_write_pins t, c_write_count = ss_write_count t, c_sensors = ss_sensors t,
        c_sensor_count = ss_sensor_count t, c_allow_timer = ss_allow_timer t,
        c_allow_status = ss_allow_status t\<rparr>,
      sd_workflow_version = ss_workflow_version t, sd_model_bundle = ss_model_bundle t,
      sd_inference = ss_inference t, sd_context_budget_bytes = ss_context_budget_bytes t,
      sd_parent = ss_parent t, sd_brief = brief\<rparr>"

section \<open>The binding\<close>

text \<open>The loops of the source copy fields to fixed offsets of a zeroed array; here they are listed in
  the order of the offsets.\<close>

definition put_at_offset :: "bytes \<Rightarrow> nat \<times> bytes \<Rightarrow> bytes" where
  "put_at_offset out field = (case field of (at, bs) \<Rightarrow> take at out @ bs @ drop (at + length bs) out)"

definition lineage_fields :: "lineage \<Rightarrow> (nat \<times> bytes) list" where
  "lineage_fields l =
     (let b = li_budgets_remaining l; v = li_versions l in
      [(0, to_le_bytes (run_id_get (li_parent_run l))),
       (8, to_le_bytes (li_continued_at_frame l)),
       (12, to_le_bytes (b_model_turns b)),
       (14, to_le_bytes (b_input_tokens b)),
       (18, to_le_bytes (b_output_tokens b)),
       (22, to_le_bytes (b_elapsed_ms b)),
       (30, to_le_bytes (b_radio_bytes b)),
       (34, to_le_bytes (b_mutations b)),
       (36, [b_consecutive_errors b]),
       (37, to_le_bytes (v_workflow v)),
       (41, to_le_bytes (digest_get (v_model v))),
       (49, to_le_bytes (digest_get (v_catalog v))),
       (57, to_le_bytes (digest_get (v_policy v)))])"

definition lineage_bytes :: "lineage \<Rightarrow> bytes" where
  "lineage_bytes l = foldl put_at_offset (replicate 65 0) (lineage_fields l)"

definition bit_of :: "bool \<Rightarrow> u8" where "bit_of b = (if b then 1 else 0)"

definition seed_fields :: "seed_snapshot \<Rightarrow> (nat \<times> bytes) list" where
  "seed_fields t =
     [(0, to_le_bytes (ss_id t)),
      (8, to_le_bytes (ss_elapsed_ms t)),
      (16, to_le_bytes (ss_input_tokens t)),
      (20, to_le_bytes (ss_output_tokens t)),
      (24, to_le_bytes (ss_model_turns t)),
      (26, to_le_bytes (ss_mutations t)),
      (28, to_le_bytes (ss_workflow_version t)),
      (30, ss_read_pins t),
      (38, [ss_read_count t]),
      (39, ss_write_pins t),
      (47, [ss_write_count t]),
      (48, ss_sensors t),
      (52, [ss_sensor_count t]),
      (53, [bit_of (ss_allow_timer t)]),
      (54, [bit_of (ss_allow_status t)]),
      (55, to_le_bytes (ss_model_bundle t)),
      (63, settings_bytes (ss_inference t)),
      (67, [bit_of (ss_parent t \<noteq> None)])] @
     (case ss_parent t of None \<Rightarrow> [] | Some l \<Rightarrow> [(68, lineage_bytes l)]) @
     [(133, [bit_of (ss_context_budget_bytes t \<noteq> None)])] @
     (case ss_context_budget_bytes t of None \<Rightarrow> [] | Some v \<Rightarrow> [(134, to_le_bytes v)]) @
     [(142, [bit_of (ss_brief_digest t \<noteq> None)])] @
     (case ss_brief_digest t of None \<Rightarrow> [] | Some v \<Rightarrow> [(143, to_le_bytes v)])"

definition input_bytes :: "seed_snapshot \<Rightarrow> bytes" where
  "input_bytes t = foldl put_at_offset (replicate seed_input_len 0) (seed_fields t)"

definition le_at :: "bytes \<Rightarrow> nat \<Rightarrow> nat \<Rightarrow> bytes option" where
  "le_at bs n at = slice bs at (at + n)"

text \<open>\<open>from_le_bytes(le(bytes, at)?)\<close>.\<close>

definition word_at :: "bytes \<Rightarrow> nat \<Rightarrow> 'a::len word option" where
  "word_at bs at = map_option from_le_bytes (le_at bs (LENGTH('a) div 8) at)"

definition lineage_from_bytes :: "bytes \<Rightarrow> lineage option" where
  "lineage_from_bytes bs =
     Option.bind (word_at bs 0) (\<lambda>run.
     Option.bind (word_at bs 8) (\<lambda>frame.
     Option.bind (word_at bs 12) (\<lambda>turns.
     Option.bind (word_at bs 14) (\<lambda>inp.
     Option.bind (word_at bs 18) (\<lambda>out.
     Option.bind (word_at bs 22) (\<lambda>elapsed.
     Option.bind (word_at bs 30) (\<lambda>radio.
     Option.bind (word_at bs 34) (\<lambda>mutations.
     Option.bind (nth_of bs 36) (\<lambda>errors.
     Option.bind (word_at bs 37) (\<lambda>workflow.
     Option.bind (word_at bs 41) (\<lambda>model.
     Option.bind (word_at bs 49) (\<lambda>catalog.
     Option.bind (word_at bs 57) (\<lambda>policy.
       Some \<lparr>li_parent_run = RunId run, li_continued_at_frame = frame,
             li_budgets_remaining = \<lparr>b_model_turns = turns, b_input_tokens = inp, b_output_tokens = out,
               b_elapsed_ms = elapsed, b_radio_bytes = radio, b_mutations = mutations,
               b_consecutive_errors = errors\<rparr>,
             li_versions = \<lparr>v_workflow = workflow, v_model = Digest model, v_catalog = Digest catalog,
               v_policy = Digest policy\<rparr>\<rparr>)))))))))))))"

definition tagged_u64 :: "bytes \<Rightarrow> nat \<Rightarrow> u64 option option" where
  "tagged_u64 bs at =
     Option.bind (word_at bs (at + 1)) (\<lambda>v.
     Option.bind (nth_of bs at) (\<lambda>tag.
       if tag = 0 \<and> v = 0 then Some None else if tag = 1 then Some (Some v) else None))"

definition flag_of :: "u8 \<Rightarrow> bool option" where
  "flag_of b = (if b = 0 then Some False else if b = 1 then Some True else None)"

definition parent_at :: "bytes \<Rightarrow> lineage option option" where
  "parent_at bs =
     Option.bind (nth_of bs 67) (\<lambda>tag.
     Option.bind (slice bs 68 133) (\<lambda>rest.
       if tag = 0 \<and> list_all (\<lambda>b. b = 0) rest then Some None
       else if tag = 1 then map_option Some (lineage_from_bytes rest)
       else None))"

text \<open>The argument is an array of 151 bytes.\<close>

definition from_input_bytes :: "bytes \<Rightarrow> seed_snapshot option" where
  "from_input_bytes bs =
     Option.bind (parent_at bs) (\<lambda>parent.
     Option.bind (word_at bs 0) (\<lambda>i.
     Option.bind (word_at bs 8) (\<lambda>elapsed.
     Option.bind (word_at bs 16) (\<lambda>inp.
     Option.bind (word_at bs 20) (\<lambda>out.
     Option.bind (word_at bs 24) (\<lambda>turns.
     Option.bind (word_at bs 26) (\<lambda>mutations.
     Option.bind (word_at bs 28) (\<lambda>version.
     Option.bind (le_at bs 8 30) (\<lambda>read_pins.
     Option.bind (nth_of bs 38) (\<lambda>read_count.
     Option.bind (le_at bs 8 39) (\<lambda>write_pins.
     Option.bind (nth_of bs 47) (\<lambda>write_count.
     Option.bind (le_at bs 4 48) (\<lambda>sensors.
     Option.bind (nth_of bs 52) (\<lambda>sensor_count.
     Option.bind (Option.bind (nth_of bs 53) flag_of) (\<lambda>allow_timer.
     Option.bind (Option.bind (nth_of bs 54) flag_of) (\<lambda>allow_status.
     Option.bind (word_at bs 55) (\<lambda>bundle.
     Option.bind (word_at bs 63) (\<lambda>max_prompt.
     Option.bind (word_at bs 65) (\<lambda>max_output.
     Option.bind (tagged_u64 bs 133) (\<lambda>context_budget.
     Option.bind (tagged_u64 bs 142) (\<lambda>brief.
       let t = \<lparr>ss_id = i, ss_workflow_version = version, ss_model_turns = turns, ss_mutations = mutations,
                ss_input_tokens = inp, ss_output_tokens = out, ss_elapsed_ms = elapsed,
                ss_read_pins = read_pins, ss_read_count = read_count, ss_write_pins = write_pins,
                ss_write_count = write_count, ss_sensors = sensors, ss_sensor_count = sensor_count,
                ss_allow_timer = allow_timer, ss_allow_status = allow_status, ss_model_bundle = bundle,
                ss_inference = \<lparr>is_max_prompt_bytes = max_prompt, is_max_output_bytes = max_output\<rparr>,
                ss_context_budget_bytes = context_budget, ss_parent = parent, ss_brief_digest = brief\<rparr>
       in if input_bytes t = bs then Some t else None)))))))))))))))))))))"

section \<open>Layouts\<close>

text \<open>Fields at increasing offsets of a zeroed array of \<open>n\<close> bytes, and the bytes they make.\<close>

fun ordered :: "nat \<Rightarrow> (nat \<times> bytes) list \<Rightarrow> nat \<Rightarrow> bool" where
  "ordered k [] n \<longleftrightarrow> k \<le> n"
| "ordered k ((at, bs) # xs) n \<longleftrightarrow> k \<le> at \<and> ordered (at + length bs) xs n"

fun laid :: "nat \<Rightarrow> (nat \<times> bytes) list \<Rightarrow> nat \<Rightarrow> bytes" where
  "laid k [] n = replicate (n - k) 0"
| "laid k ((at, bs) # xs) n = replicate (at - k) 0 @ bs @ laid (at + length bs) xs n"

lemma ordered_le: "ordered k xs n \<Longrightarrow> k \<le> n"
  by (induction k xs n rule: ordered.induct) auto

lemma length_laid: "ordered k xs n \<Longrightarrow> length (laid k xs n) = n - k"
proof (induction k xs n rule: laid.induct)
  case (2 k at bs xs n)
  then show ?case using ordered_le [of "at + length bs" xs n] by simp
qed simp

lemma put_fields:
  "ordered (length pre) xs n \<Longrightarrow>
     foldl put_at_offset (pre @ replicate (n - length pre) 0) xs = pre @ laid (length pre) xs n"
proof (induction xs arbitrary: pre)
  case (Cons x xs)
  obtain at bs where x: "x = (at, bs)" by (cases x)
  let ?pre = "pre @ replicate (at - length pre) 0 @ bs"
  have le: "length pre \<le> at" "at + length bs \<le> n" using Cons.prems ordered_le by (auto simp: x)
  have "put_at_offset (pre @ replicate (n - length pre) 0) x = ?pre @ replicate (n - length ?pre) 0"
    using le by (simp add: x put_at_offset_def min_def)
  moreover have "length ?pre = at + length bs" using le by simp
  ultimately show ?case using Cons.IH [of ?pre] Cons.prems by (simp add: x)
qed simp

lemma laid_slice:
  "(at, bs) \<in> set xs \<Longrightarrow> ordered (length pre) xs n \<Longrightarrow>
     slice (pre @ laid (length pre) xs n) at (at + length bs) = Some bs"
proof (induction xs arbitrary: pre)
  case (Cons x xs)
  obtain at' bs' where x: "x = (at', bs')" by (cases x)
  let ?pre = "pre @ replicate (at' - length pre) 0 @ bs'"
  have le: "length pre \<le> at'" and rest: "ordered (at' + length bs') xs n" using Cons.prems by (auto simp: x)
  then have len: "length ?pre = at' + length bs'" by simp
  show ?case
  proof (cases "(at, bs) = x")
    case True
    then show ?thesis using le by (auto simp: x slice_def)
  next
    case False
    then show ?thesis using Cons.IH [of ?pre] Cons.prems(1) rest len by (auto simp: x)
  qed
qed simp

lemma laid_zero:
  assumes "k \<le> at" "ordered (at + m) xs n"
  shows "laid k ((at, replicate m 0) # xs) n = laid k xs n"
proof (cases xs)
  case Nil
  then show ?thesis using assms by (simp add: replicate_add [symmetric])
next
  case (Cons x xs')
  obtain at' bs' where x: "x = (at', bs')" by (cases x)
  then have le: "at + m \<le> at'" using assms Cons by simp
  have "replicate (at - k) (0 :: u8) @ replicate m 0 @ replicate (at' - (at + m)) 0 = replicate (at' - k) 0"
    using assms(1) le by (simp add: replicate_add [symmetric])
  then show ?thesis by (simp add: Cons x flip: append_assoc)
qed

lemma laid_split: "laid k ((at, as @ bs) # xs) n = laid k ((at, as) # (at + length as, bs) # xs) n"
  by (simp add: add.assoc)

text \<open>Reading a field back.\<close>

lemma laid_word:
  fixes w :: "'a::len word"
  assumes "(at, to_le_bytes w) \<in> set xs" "ordered 0 xs n" "8 dvd LENGTH('a)"
  shows "word_at (laid 0 xs n) at = Some w"
  using laid_slice [OF assms(1), of "[]" n] assms(2, 3)
  by (simp add: word_at_def le_at_def from_to_le_bytes)

lemma laid_array:
  "(at, bs) \<in> set xs \<Longrightarrow> ordered 0 xs n \<Longrightarrow> length bs = m \<Longrightarrow> le_at (laid 0 xs n) m at = Some bs"
  using laid_slice [of at bs xs "[]" n] by (auto simp: le_at_def)

lemma laid_byte:
  assumes "(at, [b]) \<in> set xs" "ordered 0 xs n"
  shows "nth_of (laid 0 xs n) at = Some b"
proof -
  have "slice (laid 0 xs n) at (Suc at) = Some [b]" using laid_slice [OF assms(1), of "[]" n] assms(2) by simp
  then show ?thesis
    by (cases "drop at (laid 0 xs n)") (auto simp: slice_def nth_of_def nth_via_drop split: if_splits)
qed

section \<open>The binding decodes\<close>

lemma lineage_laid: "lineage_bytes l = laid 0 (lineage_fields l) 65"
  and lineage_ordered: "ordered 0 (lineage_fields l) 65"
proof -
  show o: "ordered 0 (lineage_fields l) 65" by (simp add: lineage_fields_def Let_def)
  show "lineage_bytes l = laid 0 (lineage_fields l) 65"
    using put_fields [of "[]" "lineage_fields l" 65] o by (simp add: lineage_bytes_def)
qed

lemma length_lineage_bytes [simp]: "length (lineage_bytes l) = 65"
  using length_laid [OF lineage_ordered] by (simp add: lineage_laid)

lemma lineage_roundtrip: "lineage_from_bytes (lineage_bytes l) = Some l"
proof -
  let ?w = "lineage_bytes l" and ?b = "li_budgets_remaining l" and ?v = "li_versions l"
  have "word_at ?w 0 = Some (run_id_get (li_parent_run l))" "word_at ?w 8 = Some (li_continued_at_frame l)"
    "word_at ?w 12 = Some (b_model_turns ?b)" "word_at ?w 14 = Some (b_input_tokens ?b)"
    "word_at ?w 18 = Some (b_output_tokens ?b)" "word_at ?w 22 = Some (b_elapsed_ms ?b)"
    "word_at ?w 30 = Some (b_radio_bytes ?b)" "word_at ?w 34 = Some (b_mutations ?b)"
    "nth_of ?w 36 = Some (b_consecutive_errors ?b)" "word_at ?w 37 = Some (v_workflow ?v)"
    "word_at ?w 41 = Some (digest_get (v_model ?v))" "word_at ?w 49 = Some (digest_get (v_catalog ?v))"
    "word_at ?w 57 = Some (digest_get (v_policy ?v))"
    unfolding lineage_laid
    by (intro laid_word laid_byte lineage_ordered; simp add: lineage_fields_def Let_def)+
  then show ?thesis by (simp add: lineage_from_bytes_def)
qed

text \<open>The fields with the unwritten ones as zeros.\<close>

definition seed_layout :: "seed_snapshot \<Rightarrow> (nat \<times> bytes) list" where
  "seed_layout t =
     take 16 (seed_fields t) @
     [(63, to_le_bytes (is_max_prompt_bytes (ss_inference t))),
      (65, to_le_bytes (is_max_output_bytes (ss_inference t))),
      (67, [bit_of (ss_parent t \<noteq> None)]),
      (68, case ss_parent t of None \<Rightarrow> replicate 65 0 | Some l \<Rightarrow> lineage_bytes l),
      (133, [bit_of (ss_context_budget_bytes t \<noteq> None)]),
      (134, case ss_context_budget_bytes t of None \<Rightarrow> replicate 8 0 | Some v \<Rightarrow> to_le_bytes v),
      (142, [bit_of (ss_brief_digest t \<noteq> None)]),
      (143, case ss_brief_digest t of None \<Rightarrow> replicate 8 0 | Some v \<Rightarrow> to_le_bytes v)]"

definition snapshot_arrays :: "seed_snapshot \<Rightarrow> bool" where
  "snapshot_arrays t \<longleftrightarrow>
     length (ss_read_pins t) = 8 \<and> length (ss_write_pins t) = 8 \<and> length (ss_sensors t) = 4"

lemma seed_ordered: "snapshot_arrays t \<Longrightarrow> ordered 0 (seed_layout t) 151"
  by (auto simp: snapshot_arrays_def seed_layout_def seed_fields_def split: option.split)

lemma seed_laid:
  assumes "snapshot_arrays t"
  shows "input_bytes t = laid 0 (seed_layout t) 151"
proof -
  have lens: "length (ss_read_pins t) = 8" "length (ss_write_pins t) = 8" "length (ss_sensors t) = 4"
    using assms by (simp_all add: snapshot_arrays_def)
  have "ordered 0 (seed_fields t) 151"
    by (auto simp: seed_fields_def lens settings_bytes_def split: option.split)
  then have "input_bytes t = laid 0 (seed_fields t) 151"
    using put_fields [of "[]" "seed_fields t" 151] by (simp add: input_bytes_def seed_input_len_def)
  also have "\<dots> = laid 0 (seed_layout t) 151"
    by (simp add: seed_fields_def seed_layout_def settings_bytes_def lens split: option.split)
  finally show ?thesis .
qed

lemma length_input_bytes: "snapshot_arrays t \<Longrightarrow> length (input_bytes t) = 151"
  using length_laid [OF seed_ordered] by (simp add: seed_laid)

lemma seed_reads:
  assumes "snapshot_arrays t"
  shows "word_at (input_bytes t) 0 = Some (ss_id t)"
    "word_at (input_bytes t) 8 = Some (ss_elapsed_ms t)"
    "word_at (input_bytes t) 16 = Some (ss_input_tokens t)"
    "word_at (input_bytes t) 20 = Some (ss_output_tokens t)"
    "word_at (input_bytes t) 24 = Some (ss_model_turns t)"
    "word_at (input_bytes t) 26 = Some (ss_mutations t)"
    "word_at (input_bytes t) 28 = Some (ss_workflow_version t)"
    "word_at (input_bytes t) 55 = Some (ss_model_bundle t)"
    "word_at (input_bytes t) 63 = Some (is_max_prompt_bytes (ss_inference t))"
    "word_at (input_bytes t) 65 = Some (is_max_output_bytes (ss_inference t))"
    "le_at (input_bytes t) 8 30 = Some (ss_read_pins t)"
    "le_at (input_bytes t) 8 39 = Some (ss_write_pins t)"
    "le_at (input_bytes t) 4 48 = Some (ss_sensors t)"
    "nth_of (input_bytes t) 38 = Some (ss_read_count t)"
    "nth_of (input_bytes t) 47 = Some (ss_write_count t)"
    "nth_of (input_bytes t) 52 = Some (ss_sensor_count t)"
    "nth_of (input_bytes t) 53 = Some (bit_of (ss_allow_timer t))"
    "nth_of (input_bytes t) 54 = Some (bit_of (ss_allow_status t))"
    "nth_of (input_bytes t) 67 = Some (bit_of (ss_parent t \<noteq> None))"
    "nth_of (input_bytes t) 133 = Some (bit_of (ss_context_budget_bytes t \<noteq> None))"
    "nth_of (input_bytes t) 142 = Some (bit_of (ss_brief_digest t \<noteq> None))"
    "slice (input_bytes t) 68 133 = Some (case ss_parent t of None \<Rightarrow> replicate 65 0 | Some l \<Rightarrow> lineage_bytes l)"
  unfolding seed_laid [OF assms]
                      apply (rule laid_word [OF _ seed_ordered [OF assms]]; simp add: seed_layout_def seed_fields_def)+
            apply (rule laid_array [OF _ seed_ordered [OF assms]]; insert assms;
              simp add: seed_layout_def seed_fields_def snapshot_arrays_def)+
         apply (rule laid_byte [OF _ seed_ordered [OF assms]]; simp add: seed_layout_def seed_fields_def)+
  using laid_slice [of 68 "case ss_parent t of None \<Rightarrow> replicate 65 0 | Some l \<Rightarrow> lineage_bytes l" "seed_layout t" "[]" 151]
    seed_ordered [OF assms]
  by (simp add: seed_layout_def split: option.splits)

lemma tagged_reads:
  assumes "snapshot_arrays t"
  shows "tagged_u64 (input_bytes t) 133 = Some (ss_context_budget_bytes t)"
    "tagged_u64 (input_bytes t) 142 = Some (ss_brief_digest t)"
proof -
  have zero: "replicate 8 (0 :: u8) = to_le_bytes (0 :: u64)" by (rule nth_equalityI) (simp_all add: to_le_bytes_def)
  have "word_at (input_bytes t) 134 = Some (case ss_context_budget_bytes t of None \<Rightarrow> 0 :: u64 | Some v \<Rightarrow> v)"
    "word_at (input_bytes t) 143 = Some (case ss_brief_digest t of None \<Rightarrow> 0 :: u64 | Some v \<Rightarrow> v)"
    unfolding seed_laid [OF assms]
    by (rule laid_word [OF _ seed_ordered [OF assms]]; simp add: seed_layout_def zero split: option.split)+
  then show "tagged_u64 (input_bytes t) 133 = Some (ss_context_budget_bytes t)"
    "tagged_u64 (input_bytes t) 142 = Some (ss_brief_digest t)"
    by (simp_all add: tagged_u64_def seed_reads [OF assms] bit_of_def split: option.split)
qed

lemma parent_reads:
  assumes "snapshot_arrays t"
  shows "parent_at (input_bytes t) = Some (ss_parent t)"
  by (cases "ss_parent t")
    (simp_all add: parent_at_def seed_reads [OF assms] bit_of_def lineage_roundtrip list_all_iff)

lemma flag_of_bit [simp]: "flag_of (bit_of b) = Some b"
  by (simp add: flag_of_def bit_of_def)

lemma input_bytes_decode: "snapshot_arrays t \<Longrightarrow> from_input_bytes (input_bytes t) = Some t"
  by (cases t; cases "ss_inference t")
    (simp add: from_input_bytes_def seed_reads tagged_reads parent_reads Let_def)

text \<open>Nothing but bindings decodes.\<close>

lemma from_input_bytes_iff: "from_input_bytes bs = Some t \<longleftrightarrow> snapshot_arrays t \<and> bs = input_bytes t"
proof
  assume a: "from_input_bytes bs = Some t"
  then have "input_bytes t = bs"
    by (auto simp: from_input_bytes_def Let_def bind_eq_Some_conv split: if_splits)
  moreover from a have "le_at bs 8 30 = Some (ss_read_pins t)" "le_at bs 8 39 = Some (ss_write_pins t)"
    "le_at bs 4 48 = Some (ss_sensors t)"
    by (auto simp: from_input_bytes_def Let_def bind_eq_Some_conv split: if_splits)
  then have "snapshot_arrays t"
    by (auto simp: snapshot_arrays_def le_at_def dest!: slice_Some_length)
  ultimately show "snapshot_arrays t \<and> bs = input_bytes t" by simp
next
  assume "snapshot_arrays t \<and> bs = input_bytes t"
  then show "from_input_bytes bs = Some t" using input_bytes_decode by simp
qed

lemma seed_from_snapshot_of [simp]: "seed_from_snapshot (snapshot_of_seed s) (sd_brief s) = s"
  by (simp add: seed_from_snapshot_def snapshot_of_seed_def)

text \<open>A seed that is granted, carries arrays of the source's sizes and a brief that can be sent.\<close>

definition seed_arrays :: "run_seed \<Rightarrow> bool" where
  "seed_arrays s \<longleftrightarrow> snapshot_arrays (snapshot_of_seed s)"

lemma seed_validate_caps:
  assumes "seed_validate s = Inr ()" "seed_arrays s"
  shows "capabilities_wire (sd_capabilities s)"
  using assms
  by (auto simp: seed_validate_def capabilities_wire_def caps_valid_def set_below_def seed_arrays_def
      snapshot_arrays_def snapshot_of_seed_def slice_def names_outside_def result_simps Let_def word_le_nat_alt
      list_all_iff list_ex_iff word_less_nat_alt split: if_splits)

end
