(* ===== verification/Run_Wire.thy ===== *)
theory Run_Wire
  imports Seed
begin

text \<open>
  The activity payloads of a run (\<open>esper-runtime/src/run/wire.rs\<close>): one record each for the input and
  the answer of every activity, the faults a dispatcher records, the terminal record and the input a
  run starts from. An inline array with its length is the list of the bytes it holds. Every decoder
  is shown exact: it accepts the encodings of well-formed values and nothing else.
\<close>

section \<open>Kinds and bounds\<close>

definition infer_kind :: u16 where "infer_kind = 0x0200"
definition probe_kind :: u16 where "probe_kind = 0x0201"
definition tool_kind :: u16 where "tool_kind = 0x0202"
definition verify_kind :: u16 where "verify_kind = 0x0203"
definition ask_kind :: u16 where "ask_kind = 0x0204"
definition snap_store_kind :: u16 where "snap_store_kind = 0x0205"
definition snap_load_kind :: u16 where "snap_load_kind = 0x0206"

lemmas kind_defs = infer_kind_def probe_kind_def tool_kind_def verify_kind_def ask_kind_def
  snap_store_kind_def snap_load_kind_def

definition last_observation_cap :: nat where "last_observation_cap = 128"
definition max_outcome :: nat where "max_outcome = 448"
definition max_ask_input :: nat where "max_ask_input = 448"
definition snapshot_chunk :: nat where "snapshot_chunk = 448"
definition snapshot_key_bytes :: nat where "snapshot_key_bytes = 8 + 1"
definition max_reason :: nat where "max_reason = 48"
definition harvest_item_base :: u8 where "harvest_item_base = 0x80"

section \<open>Faults\<close>

datatype fault =
    Ft_ScriptExhausted | Ft_OutputTooLong | Ft_UnknownPrompt | Ft_PolicyMismatch
  | Ft_EffectArgsMismatch | Ft_UnknownResource | Ft_OutcomeTooLarge | Ft_BadRequest
  | Ft_BadInput | Ft_SnapshotMissing

fun fault_code :: "fault \<Rightarrow> u8" where
  "fault_code Ft_ScriptExhausted = 1"
| "fault_code Ft_OutputTooLong = 2"
| "fault_code Ft_UnknownPrompt = 3"
| "fault_code Ft_PolicyMismatch = 4"
| "fault_code Ft_EffectArgsMismatch = 5"
| "fault_code Ft_UnknownResource = 6"
| "fault_code Ft_OutcomeTooLarge = 7"
| "fault_code Ft_BadRequest = 8"
| "fault_code Ft_BadInput = 9"
| "fault_code Ft_SnapshotMissing = 10"

definition fault_from_payload :: "bytes \<Rightarrow> fault option" where
  "fault_from_payload payload =
     (case payload of
        [code] \<Rightarrow>
          if code = 1 then Some Ft_ScriptExhausted
          else if code = 2 then Some Ft_OutputTooLong
          else if code = 3 then Some Ft_UnknownPrompt
          else if code = 4 then Some Ft_PolicyMismatch
          else if code = 5 then Some Ft_EffectArgsMismatch
          else if code = 6 then Some Ft_UnknownResource
          else if code = 7 then Some Ft_OutcomeTooLarge
          else if code = 8 then Some Ft_BadRequest
          else if code = 9 then Some Ft_BadInput
          else if code = 10 then Some Ft_SnapshotMissing
          else None
      | _ \<Rightarrow> None)"

definition ask_input_reason :: string where
  "ask_input_reason = ''ask input must be {'' @ [CHR 0x22] @ ''pin'' @ [CHR 0x22] @ '': N} with N in 0..=7''"

fun fault_to_error :: "fault \<Rightarrow> runtime_error" where
  "fault_to_error Ft_ScriptExhausted = RE_World ''model script exhausted''"
| "fault_to_error Ft_OutputTooLong = RE_Backend BE_OutputTooLong"
| "fault_to_error Ft_UnknownPrompt = RE_Backend BE_UnknownPrompt"
| "fault_to_error Ft_PolicyMismatch = RE_Backend BE_PolicyMismatch"
| "fault_to_error Ft_EffectArgsMismatch = RE_ReplayDiverged"
| "fault_to_error Ft_UnknownResource = RE_IllegalTransition"
| "fault_to_error Ft_OutcomeTooLarge = RE_World ''tool outcome exceeds the record page''"
| "fault_to_error Ft_BadRequest = RE_BadFrame"
| "fault_to_error Ft_BadInput = RE_World ask_input_reason"
| "fault_to_error Ft_SnapshotMissing = RE_JournalCorrupt"

definition fault_error :: "bytes \<Rightarrow> runtime_error" where
  "fault_error payload =
     (case fault_from_payload payload of
        Some f \<Rightarrow> fault_to_error f
      | None \<Rightarrow> RE_World ''dispatcher failed'')"

lemma fault_roundtrip: "fault_from_payload [fault_code f] = Some f"
  by (cases f) (simp_all add: fault_from_payload_def)

section \<open>Inference\<close>

record prompt_repair =
  pr_attempt :: u8
  pr_variant :: string

record prior_ctx =
  pc_epoch :: u32
  pc_failed_paths :: u8
  pc_pending :: u8
  pc_facts :: u8

record infer_request =
  iq_settings :: inference_settings
  iq_turns_left :: u16
  iq_mutations_left :: u16
  iq_last_observation :: "bytes option"
  iq_repair :: "prompt_repair option"
  iq_prior :: "prior_ctx option"
  iq_brief :: "bytes option"

definition repair_code :: "string \<Rightarrow> u8 option" where
  "repair_code variant =
     (if variant = ''malformed'' then Some 0 else if variant = ''invalid_args'' then Some 1 else None)"

definition repair_name :: "u8 \<Rightarrow> string option" where
  "repair_name code =
     (if code = 0 then Some ''malformed'' else if code = 1 then Some ''invalid_args'' else None)"

definition w_invalid :: "writer \<Rightarrow> wire_error + writer" where
  "w_invalid w = Inl W_Invalid"

definition w_observation :: "bytes option \<Rightarrow> writer \<Rightarrow> wire_error + writer" where
  "w_observation x =
     (case x of
        Some bs \<Rightarrow>
          if length bs \<le> last_observation_cap
          then w_all [w_u8 1, w_check (map_sum id w_u8 (ok_or W_Invalid (try_from (length bs)))), w_bytes bs]
          else w_invalid
      | None \<Rightarrow> w_u8 0)"

definition w_repair :: "prompt_repair \<Rightarrow> writer \<Rightarrow> wire_error + writer" where
  "w_repair h = w_all [w_u8 (pr_attempt h), w_check (map_sum id w_u8 (ok_or W_Invalid (repair_code (pr_variant h))))]"

definition w_prior :: "prior_ctx \<Rightarrow> writer \<Rightarrow> wire_error + writer" where
  "w_prior p = w_all [w_u32 (pc_epoch p), w_u8 (pc_failed_paths p), w_u8 (pc_pending p), w_u8 (pc_facts p)]"

definition w_brief :: "bytes option \<Rightarrow> writer \<Rightarrow> wire_error + writer" where
  "w_brief x =
     (case x of
        Some bs \<Rightarrow> if length bs \<le> brief_cap then w_all [w_u8 1, w_sized bs] else w_invalid
      | None \<Rightarrow> w_u8 0)"

definition infer_request_encode :: "infer_request \<Rightarrow> bytes \<Rightarrow> wire_error + writer" where
  "infer_request_encode q out =
     w_all [w_bytes (settings_bytes (iq_settings q)), w_u16 (iq_turns_left q), w_u16 (iq_mutations_left q),
            w_observation (iq_last_observation q), w_option w_repair (iq_repair q),
            w_option w_prior (iq_prior q), w_brief (iq_brief q)] (writer_new out)"

definition wr_settings :: "reader \<Rightarrow> wire_error + (inference_settings \<times> reader)" where
  "wr_settings = rd_bind wr_u16 (\<lambda>a. rd_bind wr_u16 (\<lambda>b.
     rd_return \<lparr>is_max_prompt_bytes = a, is_max_output_bytes = b\<rparr>))"

definition wr_observation :: "reader \<Rightarrow> wire_error + (bytes \<times> reader)" where
  "wr_observation = rd_bind wr_u8 (\<lambda>len.
     if last_observation_cap < unat len then rd_fail W_Invalid else wr_take (unat len))"

definition wr_repair :: "reader \<Rightarrow> wire_error + (prompt_repair \<times> reader)" where
  "wr_repair = rd_bind wr_u8 (\<lambda>attempt. rd_bind wr_u8 (\<lambda>code.
     rd_check (map_sum id (\<lambda>v. \<lparr>pr_attempt = attempt, pr_variant = v\<rparr>) (ok_or W_Invalid (repair_name code)))))"

definition wr_prior :: "reader \<Rightarrow> wire_error + (prior_ctx \<times> reader)" where
  "wr_prior = rd_bind wr_u32 (\<lambda>a. rd_bind wr_u8 (\<lambda>b. rd_bind wr_u8 (\<lambda>c. rd_bind wr_u8 (\<lambda>d.
     rd_return \<lparr>pc_epoch = a, pc_failed_paths = b, pc_pending = c, pc_facts = d\<rparr>))))"

definition wr_infer_request :: "reader \<Rightarrow> wire_error + (infer_request \<times> reader)" where
  "wr_infer_request =
     rd_bind wr_settings (\<lambda>settings. rd_bind wr_u16 (\<lambda>turns. rd_bind wr_u16 (\<lambda>mutations.
      rd_bind (wr_option wr_observation) (\<lambda>last. rd_bind (wr_option wr_repair) (\<lambda>repair.
      rd_bind (wr_option wr_prior) (\<lambda>prior. rd_bind (wr_option (wr_sized brief_cap)) (\<lambda>brief.
        rd_return \<lparr>iq_settings = settings, iq_turns_left = turns, iq_mutations_left = mutations,
                   iq_last_observation = last, iq_repair = repair, iq_prior = prior, iq_brief = brief\<rparr>)))))))"

definition infer_request_decode :: "bytes \<Rightarrow> wire_error + infer_request" where
  "infer_request_decode = wr_whole wr_infer_request"

record inferred =
  in_line :: bytes
  in_input_tokens :: u32
  in_output_tokens :: u32
  in_prompt_bytes :: u32

definition inferred_new :: "bytes \<Rightarrow> u32 \<Rightarrow> u32 \<Rightarrow> u32 \<Rightarrow> wire_error + inferred" where
  "inferred_new line i out prompt =
     (if output_cap < length line then Inl W_Invalid
      else Inr \<lparr>in_line = line, in_input_tokens = i, in_output_tokens = out, in_prompt_bytes = prompt\<rparr>)"

definition inferred_encode :: "inferred \<Rightarrow> bytes \<Rightarrow> wire_error + writer" where
  "inferred_encode a out =
     w_all [w_u16 (of_nat (length (in_line a))), w_bytes (in_line a), w_u32 (in_input_tokens a),
            w_u32 (in_output_tokens a), w_u32 (in_prompt_bytes a)] (writer_new out)"

definition wr_inferred :: "reader \<Rightarrow> wire_error + (inferred \<times> reader)" where
  "wr_inferred =
     rd_bind (wr_sized output_cap) (\<lambda>line. rd_bind wr_u32 (\<lambda>a. rd_bind wr_u32 (\<lambda>b. rd_bind wr_u32 (\<lambda>c.
        rd_check (inferred_new line a b c)))))"

definition inferred_decode :: "bytes \<Rightarrow> wire_error + inferred" where
  "inferred_decode = wr_whole wr_inferred"

section \<open>Probe\<close>

definition probed_encode :: "bool \<Rightarrow> bytes \<Rightarrow> wire_error + writer" where
  "probed_encode output out = w_all [w_flag output] (writer_new out)"

definition probed_decode :: "bytes \<Rightarrow> wire_error + bool" where
  "probed_decode = wr_whole wr_flag"

section \<open>Tools\<close>

record tool_request =
  tq_seq :: u32
  tq_attempt :: u8
  tq_tool :: u8
  tq_write :: bool
  tq_digest :: u64
  tq_args :: bytes

definition tool_request_encode :: "tool_request \<Rightarrow> bytes \<Rightarrow> wire_error + writer" where
  "tool_request_encode q out =
     (if output_cap < length (tq_args q) then Inl W_Invalid
      else w_all [w_u32 (tq_seq q), w_u8 (tq_attempt q), w_u8 (tq_tool q), w_flag (tq_write q),
                  w_u64 (tq_digest q), w_sized (tq_args q)] (writer_new out))"

definition wr_tool_request :: "reader \<Rightarrow> wire_error + (tool_request \<times> reader)" where
  "wr_tool_request =
     rd_bind wr_u32 (\<lambda>seq. rd_bind wr_u8 (\<lambda>attempt. rd_bind wr_u8 (\<lambda>tool. rd_bind wr_flag (\<lambda>write.
     rd_bind wr_u64 (\<lambda>d. rd_bind wr_u16 (\<lambda>len.
       if output_cap < unat len \<or> attempt = 0 then rd_fail W_Invalid
       else rd_bind (wr_take (unat len)) (\<lambda>args.
         rd_return \<lparr>tq_seq = seq, tq_attempt = attempt, tq_tool = tool, tq_write = write, tq_digest = d,
                    tq_args = args\<rparr>)))))))"

definition tool_request_decode :: "bytes \<Rightarrow> wire_error + tool_request" where
  "tool_request_decode = wr_whole wr_tool_request"

record observed =
  ob_transient :: bool
  ob_secret_digest :: u64
  ob_outcome :: bytes

definition observed_TRANSIENT :: observed where
  "observed_TRANSIENT = \<lparr>ob_transient = True, ob_secret_digest = 0, ob_outcome = []\<rparr>"

definition observed_completed :: "bytes \<Rightarrow> u64 \<Rightarrow> wire_error + observed" where
  "observed_completed masked d =
     (if max_outcome < length masked then Inl W_Invalid
      else Inr \<lparr>ob_transient = False, ob_secret_digest = d, ob_outcome = masked\<rparr>)"

definition observed_encode :: "observed \<Rightarrow> bytes \<Rightarrow> wire_error + writer" where
  "observed_encode a out =
     w_all [w_flag (ob_transient a), w_u64 (ob_secret_digest a), w_u16 (of_nat (length (ob_outcome a))),
            w_bytes (ob_outcome a)] (writer_new out)"

definition wr_observed :: "reader \<Rightarrow> wire_error + (observed \<times> reader)" where
  "wr_observed =
     rd_bind wr_flag (\<lambda>transient. rd_bind wr_u64 (\<lambda>d. rd_bind wr_u16 (\<lambda>len.
       if max_outcome < unat len \<or> transient \<and> (len \<noteq> 0 \<or> d \<noteq> 0) then rd_fail W_Invalid
       else rd_bind (wr_take (unat len)) (\<lambda>outcome.
         if transient then rd_return observed_TRANSIENT else rd_check (observed_completed outcome d)))))"

definition observed_decode :: "bytes \<Rightarrow> wire_error + observed" where
  "observed_decode = wr_whole wr_observed"

section \<open>Verification\<close>

datatype check =
    Check_Pin u8 bool
  | Check_Clock u64

fun check_passes :: "check \<Rightarrow> u64 \<Rightarrow> bool" where
  "check_passes (Check_Pin _ high) obs \<longleftrightarrow> (obs \<noteq> 0) = high"
| "check_passes (Check_Clock target) obs \<longleftrightarrow> target \<le> obs"

record verify_request =
  vq_seq :: u32
  vq_check :: check

definition w_check_of :: "check \<Rightarrow> writer \<Rightarrow> wire_error + writer" where
  "w_check_of c =
     (case c of
        Check_Pin pin high \<Rightarrow> w_all [w_u8 0, w_u64 (ucast pin OR push_bit 8 (if high then 1 else 0))]
      | Check_Clock target \<Rightarrow> w_all [w_u8 1, w_u64 target])"

definition verify_request_encode :: "verify_request \<Rightarrow> bytes \<Rightarrow> wire_error + writer" where
  "verify_request_encode q out = w_all [w_u32 (vq_seq q), w_check_of (vq_check q)] (writer_new out)"

definition wr_pin :: "u64 \<Rightarrow> reader \<Rightarrow> wire_error + (check \<times> reader)" where
  "wr_pin packed =
     (let pin = ucast (packed AND 0xff); high = drop_bit 8 packed in
      if high \<noteq> 0 \<and> high \<noteq> 1 \<or> 8 \<le> pin then rd_fail W_Invalid
      else rd_return (Check_Pin pin (high = 1)))"

definition wr_check_of :: "reader \<Rightarrow> wire_error + (check \<times> reader)" where
  "wr_check_of = rd_bind wr_u8 (\<lambda>tag.
     if tag = 0 then rd_bind wr_u64 wr_pin
     else if tag = 1 then rd_bind wr_u64 (\<lambda>target. rd_return (Check_Clock target))
     else rd_fail W_Invalid)"

definition wr_verify_request :: "reader \<Rightarrow> wire_error + (verify_request \<times> reader)" where
  "wr_verify_request =
     rd_bind wr_u32 (\<lambda>seq. rd_bind wr_check_of (\<lambda>c.
     rd_return \<lparr>vq_seq = seq, vq_check = c\<rparr>))"

definition verify_request_decode :: "bytes \<Rightarrow> wire_error + verify_request" where
  "verify_request_decode = wr_whole wr_verify_request"

definition verified_encode :: "u64 \<Rightarrow> bytes \<Rightarrow> wire_error + writer" where
  "verified_encode obs out = w_all [w_u64 obs] (writer_new out)"

definition verified_decode :: "bytes \<Rightarrow> wire_error + u64" where
  "verified_decode = wr_whole wr_u64"

section \<open>Questions\<close>

record ask_request =
  aq_schema :: u8
  aq_prompt :: bytes

definition ask_request_encode :: "ask_request \<Rightarrow> bytes \<Rightarrow> wire_error + writer" where
  "ask_request_encode q out =
     (if output_cap < length (aq_prompt q) then Inl W_Invalid
      else w_all [w_u8 (aq_schema q), w_sized (aq_prompt q)] (writer_new out))"

definition wr_ask_request :: "reader \<Rightarrow> wire_error + (ask_request \<times> reader)" where
  "wr_ask_request =
     rd_bind wr_u8 (\<lambda>schema. rd_bind (wr_sized output_cap) (\<lambda>prompt.
     rd_return \<lparr>aq_schema = schema, aq_prompt = prompt\<rparr>))"

definition ask_request_decode :: "bytes \<Rightarrow> wire_error + ask_request" where
  "ask_request_decode = wr_whole wr_ask_request"

definition ask_input_new :: "bytes \<Rightarrow> wire_error + bytes" where
  "ask_input_new inp = (if max_ask_input < length inp then Inl W_Invalid else Inr inp)"

definition ask_input_encode :: "bytes \<Rightarrow> bytes \<Rightarrow> wire_error + writer" where
  "ask_input_encode inp out = w_all [w_u16 (of_nat (length inp)), w_bytes inp] (writer_new out)"

definition wr_ask_input :: "reader \<Rightarrow> wire_error + (bytes \<times> reader)" where
  "wr_ask_input =
     rd_bind (wr_sized max_ask_input) (\<lambda>inp. rd_check (ask_input_new inp))"

definition ask_input_decode :: "bytes \<Rightarrow> wire_error + bytes" where
  "ask_input_decode = wr_whole wr_ask_input"

section \<open>Snapshot chunks\<close>

definition snapshot_key :: "u64 \<Rightarrow> u8 \<Rightarrow> bytes" where
  "snapshot_key d index = to_le_bytes d @ [index]"

definition read_snapshot_key :: "bytes \<Rightarrow> wire_error + (u64 \<times> u8 \<times> bytes)" where
  "read_snapshot_key bs =
     and_then (wr_u64 (reader_of bs)) (\<lambda>(d, r). and_then (wr_u8 r) (\<lambda>(index, _).
       let rest = (case slice bs snapshot_key_bytes (length bs) of Some xs \<Rightarrow> xs | None \<Rightarrow> []) in
       if snapshot_chunk < length rest then Inl W_Invalid else Inr (d, index, rest)))"

definition chunk_decode :: "bytes \<Rightarrow> wire_error + bytes" where
  "chunk_decode bs = (if snapshot_chunk < length bs then Inl W_Invalid else Inr bs)"

definition stored_decode :: "bytes \<Rightarrow> wire_error + unit" where
  "stored_decode bs = (if bs = [] then Inr () else Inl W_Trailing)"

section \<open>Terminal records\<close>

record terminal_record =
  tr_status :: terminal_status
  tr_reason :: bytes
  tr_summary :: bytes

definition terminal_encode :: "terminal_record \<Rightarrow> bytes \<Rightarrow> wire_error + writer" where
  "terminal_encode t out =
     (if max_reason < length (tr_reason t) \<or> output_cap < length (tr_summary t) then Inl W_Invalid
      else w_all [w_u8 (terminal_status_code (tr_status t)),
                  w_check (map_sum id w_u8 (ok_or W_Invalid (try_from (length (tr_reason t))))),
                  w_bytes (tr_reason t), w_sized (tr_summary t)] (writer_new out))"

definition wr_reason :: "reader \<Rightarrow> wire_error + (bytes \<times> reader)" where
  "wr_reason = rd_bind wr_u8 (\<lambda>len. if max_reason < unat len then rd_fail W_Invalid else wr_take (unat len))"

definition wr_terminal_status :: "reader \<Rightarrow> wire_error + (terminal_status \<times> reader)" where
  "wr_terminal_status = rd_bind wr_u8 (\<lambda>c. rd_check (map_err W_Core (terminal_status_from_code c)))"

definition wr_terminal :: "reader \<Rightarrow> wire_error + (terminal_record \<times> reader)" where
  "wr_terminal =
     rd_bind wr_terminal_status (\<lambda>status. rd_bind wr_reason (\<lambda>reason.
     rd_bind (wr_sized output_cap) (\<lambda>summary.
       rd_return \<lparr>tr_status = status, tr_reason = reason, tr_summary = summary\<rparr>)))"

definition terminal_decode :: "bytes \<Rightarrow> wire_error + terminal_record" where
  "terminal_decode = wr_whole wr_terminal"

section \<open>The input of a run\<close>

record snapshot_ref =
  sr_digest :: u64
  sr_len :: u16
  sr_harvest :: u8

definition ref_chunks :: "snapshot_ref \<Rightarrow> nat" where
  "ref_chunks s = (unat (sr_len s) + (snapshot_chunk - 1)) div snapshot_chunk"

record run_start =
  st_seed :: run_seed
  st_snapshot :: "snapshot_ref option"

definition w_ref :: "snapshot_ref \<Rightarrow> writer \<Rightarrow> wire_error + writer" where
  "w_ref s = w_all [w_u64 (sr_digest s), w_u16 (sr_len s), w_u8 (sr_harvest s)]"

definition run_start_encode :: "run_start \<Rightarrow> bytes \<Rightarrow> wire_error + writer" where
  "run_start_encode s out =
     w_all [w_bytes (input_bytes (snapshot_of_seed (st_seed s))),
            w_option (\<lambda>b. w_sized (brief_as_bytes b)) (sd_brief (st_seed s)),
            w_option w_ref (st_snapshot s)] (writer_new out)"

definition wr_ref :: "reader \<Rightarrow> wire_error + (snapshot_ref \<times> reader)" where
  "wr_ref = rd_bind wr_u64 (\<lambda>d. rd_bind wr_u16 (\<lambda>len. rd_bind wr_u8 (\<lambda>harvest.
     rd_return \<lparr>sr_digest = d, sr_len = len, sr_harvest = harvest\<rparr>)))"

definition wr_seed_snapshot :: "reader \<Rightarrow> wire_error + (seed_snapshot \<times> reader)" where
  "wr_seed_snapshot = rd_bind (wr_take seed_input_len) (\<lambda>bs. rd_check (ok_or W_Invalid (from_input_bytes bs)))"

definition wr_brief :: "reader \<Rightarrow> wire_error + (brief \<times> reader)" where
  "wr_brief = rd_bind wr_u16 (\<lambda>len. rd_bind (wr_take (unat len)) (\<lambda>bs.
     rd_check (map_err W_Core (brief_from_bytes bs))))"

definition wr_run_start :: "reader \<Rightarrow> wire_error + (run_start \<times> reader)" where
  "wr_run_start =
     rd_bind wr_seed_snapshot (\<lambda>t. rd_bind (wr_option wr_brief) (\<lambda>brief.
     if ss_brief_digest t \<noteq> map_option brief_digest brief then rd_fail W_Invalid
     else rd_bind (wr_option wr_ref) (\<lambda>fold.
       rd_return \<lparr>st_seed = seed_from_snapshot t brief, st_snapshot = fold\<rparr>)))"

definition run_start_decode :: "bytes \<Rightarrow> wire_error + run_start" where
  "run_start_decode = wr_whole wr_run_start"

section \<open>Layouts\<close>

definition settings_ok :: "inference_settings \<Rightarrow> bool" where "settings_ok = any"

definition observation_enc :: "bytes \<Rightarrow> bytes" where
  "observation_enc bs = u8_enc (of_nat (length bs)) @ bs"

definition repair_enc :: "prompt_repair \<Rightarrow> bytes" where
  "repair_enc h = u8_enc (pr_attempt h) @ u8_enc (if pr_variant h = ''malformed'' then 0 else 1)"

definition repair_ok :: "prompt_repair \<Rightarrow> bool" where
  "repair_ok h \<longleftrightarrow> pr_variant h = ''malformed'' \<or> pr_variant h = ''invalid_args''"

definition prior_enc :: "prior_ctx \<Rightarrow> bytes" where
  "prior_enc p = to_le_bytes (pc_epoch p) @ u8_enc (pc_failed_paths p) @ u8_enc (pc_pending p) @ u8_enc (pc_facts p)"

definition infer_request_enc :: "infer_request \<Rightarrow> bytes" where
  "infer_request_enc q =
     settings_bytes (iq_settings q) @ to_le_bytes (iq_turns_left q) @ to_le_bytes (iq_mutations_left q) @
     opt_enc observation_enc (iq_last_observation q) @ opt_enc repair_enc (iq_repair q) @
     opt_enc prior_enc (iq_prior q) @ opt_enc sized_enc (iq_brief q)"

definition infer_request_ok :: "infer_request \<Rightarrow> bool" where
  "infer_request_ok q \<longleftrightarrow>
     pred_option (\<lambda>bs. length bs \<le> last_observation_cap) (iq_last_observation q) \<and>
     pred_option repair_ok (iq_repair q) \<and> pred_option (\<lambda>bs. length bs \<le> brief_cap) (iq_brief q)"

definition inferred_enc :: "inferred \<Rightarrow> bytes" where
  "inferred_enc a = sized_enc (in_line a) @ to_le_bytes (in_input_tokens a) @ to_le_bytes (in_output_tokens a) @
     to_le_bytes (in_prompt_bytes a)"

definition inferred_ok :: "inferred \<Rightarrow> bool" where
  "inferred_ok a \<longleftrightarrow> length (in_line a) \<le> output_cap"

definition tool_request_enc :: "tool_request \<Rightarrow> bytes" where
  "tool_request_enc q = to_le_bytes (tq_seq q) @ u8_enc (tq_attempt q) @ u8_enc (tq_tool q) @ flag_enc (tq_write q) @
     to_le_bytes (tq_digest q) @ sized_enc (tq_args q)"

definition tool_request_ok :: "tool_request \<Rightarrow> bool" where
  "tool_request_ok q \<longleftrightarrow> tq_attempt q \<noteq> 0 \<and> length (tq_args q) \<le> output_cap"

definition observed_enc :: "observed \<Rightarrow> bytes" where
  "observed_enc a = flag_enc (ob_transient a) @ to_le_bytes (ob_secret_digest a) @ sized_enc (ob_outcome a)"

definition observed_ok :: "observed \<Rightarrow> bool" where
  "observed_ok a \<longleftrightarrow> length (ob_outcome a) \<le> max_outcome \<and> (ob_transient a \<longrightarrow> a = observed_TRANSIENT)"

definition check_enc :: "check \<Rightarrow> bytes" where
  "check_enc c =
     (case c of
        Check_Pin pin high \<Rightarrow> u8_enc 0 @ to_le_bytes (ucast pin OR push_bit 8 (if high then 1 else 0) :: u64)
      | Check_Clock target \<Rightarrow> u8_enc 1 @ to_le_bytes target)"

definition check_ok :: "check \<Rightarrow> bool" where
  "check_ok c \<longleftrightarrow> (case c of Check_Pin pin _ \<Rightarrow> pin < 8 | Check_Clock _ \<Rightarrow> True)"

definition verify_request_enc :: "verify_request \<Rightarrow> bytes" where
  "verify_request_enc q = to_le_bytes (vq_seq q) @ check_enc (vq_check q)"

definition ask_request_enc :: "ask_request \<Rightarrow> bytes" where
  "ask_request_enc q = u8_enc (aq_schema q) @ sized_enc (aq_prompt q)"

definition reason_enc :: "bytes \<Rightarrow> bytes" where
  "reason_enc bs = u8_enc (of_nat (length bs)) @ bs"

definition terminal_enc :: "terminal_record \<Rightarrow> bytes" where
  "terminal_enc t = u8_enc (terminal_status_code (tr_status t)) @ reason_enc (tr_reason t) @ sized_enc (tr_summary t)"

definition terminal_ok :: "terminal_record \<Rightarrow> bool" where
  "terminal_ok t \<longleftrightarrow> length (tr_reason t) \<le> max_reason \<and> length (tr_summary t) \<le> output_cap"

definition ref_enc :: "snapshot_ref \<Rightarrow> bytes" where
  "ref_enc s = to_le_bytes (sr_digest s) @ to_le_bytes (sr_len s) @ u8_enc (sr_harvest s)"

definition run_start_enc :: "run_start \<Rightarrow> bytes" where
  "run_start_enc s =
     input_bytes (snapshot_of_seed (st_seed s)) @ opt_enc (\<lambda>b. sized_enc (brief_as_bytes b)) (sd_brief (st_seed s)) @
     opt_enc ref_enc (st_snapshot s)"

definition run_start_ok :: "run_start \<Rightarrow> bool" where
  "run_start_ok s \<longleftrightarrow> seed_arrays (st_seed s) \<and> pred_option brief_ok (sd_brief (st_seed s))"

section \<open>Writers\<close>

lemma length_settings_bytes [simp]: "length (settings_bytes s) = 4"
  by (simp add: settings_bytes_def)

lemma emits_small:
  assumes "length bs < 256"
  shows "emits (w_check (map_sum id w_u8 (ok_or W_Invalid (try_from (length bs))))) (u8_enc (of_nat (length bs)))"
  by (rule emits_check [OF _ emits_words(1)]) (use assms in \<open>simp add: try_from_def\<close>)

lemma opt_enc_simps: "opt_enc enc None = [0]" "opt_enc enc (Some x) = 1 # enc x"
  by (simp_all add: opt_enc_def flag_enc_def)

lemma emits_u8: "emits (w_u8 b) [b]"
  using emits_words(1) [of b] by (simp add: u8_enc_def)

lemma emits_infer_request:
  assumes "infer_request_ok q"
  shows "infer_request_encode q out = written (infer_request_enc q) out"
proof -
  have obs: "emits (w_observation (iq_last_observation q)) (opt_enc observation_enc (iq_last_observation q))"
  proof (cases "iq_last_observation q")
    case (Some bs)
    then have len: "length bs \<le> last_observation_cap" using assms by (simp add: infer_request_ok_def)
    then have "emits (w_all [w_u8 1, w_check (map_sum id w_u8 (ok_or W_Invalid (try_from (length bs)))), w_bytes bs])
        (u8_enc 1 @ u8_enc (of_nat (length bs)) @ bs)"
      by (intro emits_cons emits_one emits_words emits_small emits_bytes) (simp add: last_observation_cap_def)
    then show ?thesis using Some len by (simp add: w_observation_def opt_enc_simps observation_enc_def u8_enc_def)
  qed (simp add: w_observation_def opt_enc_simps emits_u8)
  have rep: "emits (w_option w_repair (iq_repair q)) (opt_enc repair_enc (iq_repair q))"
  proof (rule emits_option)
    fix h assume "iq_repair q = Some h"
    then have "repair_ok h" using assms by (simp add: infer_request_ok_def)
    then have "repair_code (pr_variant h) = Some (if pr_variant h = ''malformed'' then 0 else 1)"
      by (auto simp: repair_ok_def repair_code_def)
    then show "emits (w_repair h) (repair_enc h)" unfolding w_repair_def repair_enc_def
      by (intro emits_cons emits_one emits_words emits_check [OF _ emits_words(1)]) simp
  qed
  have prior: "emits (w_option w_prior (iq_prior q)) (opt_enc prior_enc (iq_prior q))"
    by (rule emits_option) (unfold w_prior_def prior_enc_def, intro emits_cons emits_one emits_words)
  have brief: "emits (w_brief (iq_brief q)) (opt_enc sized_enc (iq_brief q))"
  proof (cases "iq_brief q")
    case (Some bs)
    then have len: "length bs \<le> brief_cap" using assms by (simp add: infer_request_ok_def)
    then have "emits (w_all [w_u8 1, w_sized bs]) (u8_enc 1 @ sized_enc bs)"
      by (intro emits_cons emits_one emits_words emits_sized) (simp add: brief_cap_def)
    then show ?thesis using Some len by (simp add: w_brief_def opt_enc_simps u8_enc_def)
  qed (simp add: w_brief_def opt_enc_simps emits_u8)
  show ?thesis unfolding infer_request_encode_def
    by (rule emits_result, unfold infer_request_enc_def, intro emits_cons emits_one emits_bytes emits_words)
      (rule obs rep prior brief)+
qed

lemma emits_tool_request:
  assumes "length (tq_args q) \<le> output_cap"
  shows "tool_request_encode q out = written (tool_request_enc q) out"
proof -
  have "tool_request_encode q out = w_all [w_u32 (tq_seq q), w_u8 (tq_attempt q), w_u8 (tq_tool q),
      w_flag (tq_write q), w_u64 (tq_digest q), w_sized (tq_args q)] (writer_new out)"
    using assms by (simp add: tool_request_encode_def del: w_all.simps)
  also have "\<dots> = written (tool_request_enc q) out"
    by (rule emits_result, unfold tool_request_enc_def, intro emits_cons emits_one emits_words emits_sized)
      (use assms in \<open>simp add: output_cap_def\<close>)
  finally show ?thesis .
qed

lemma emits_verify_request: "verify_request_encode q out = written (verify_request_enc q) out"
proof -
  have "emits (w_check_of (vq_check q)) (check_enc (vq_check q))"
    by (cases "vq_check q") (simp_all only: w_check_of_def check_enc_def check.case, (intro emits_cons emits_one emits_words)+)
  then show ?thesis unfolding verify_request_encode_def
    by (intro emits_result, unfold verify_request_enc_def, intro emits_cons emits_one emits_words)
qed

lemma emits_ask_request:
  assumes "length (aq_prompt q) \<le> output_cap"
  shows "ask_request_encode q out = written (ask_request_enc q) out"
proof -
  have "ask_request_encode q out = w_all [w_u8 (aq_schema q), w_sized (aq_prompt q)] (writer_new out)"
    using assms by (simp add: ask_request_encode_def del: w_all.simps)
  also have "\<dots> = written (ask_request_enc q) out"
    by (rule emits_result, unfold ask_request_enc_def, intro emits_cons emits_one emits_words emits_sized)
      (use assms in \<open>simp add: output_cap_def\<close>)
  finally show ?thesis .
qed

lemma emits_terminal:
  assumes "terminal_ok t"
  shows "terminal_encode t out = written (terminal_enc t) out"
proof -
  have "terminal_encode t out = w_all [w_u8 (terminal_status_code (tr_status t)),
      w_check (map_sum id w_u8 (ok_or W_Invalid (try_from (length (tr_reason t))))),
      w_bytes (tr_reason t), w_sized (tr_summary t)] (writer_new out)"
    using assms by (simp add: terminal_encode_def terminal_ok_def del: w_all.simps)
  also have "\<dots> = written (terminal_enc t) out"
    by (rule emits_result, unfold terminal_enc_def reason_enc_def append_assoc,
        intro emits_cons emits_one emits_words emits_small emits_bytes emits_sized)
      (use assms in \<open>simp_all add: terminal_ok_def output_cap_def max_reason_def\<close>)
  finally show ?thesis .
qed

lemma emits_run_start:
  assumes "run_start_ok s"
  shows "run_start_encode s out = written (run_start_enc s) out"
proof -
  have "emits (w_option (\<lambda>b. w_sized (brief_as_bytes b)) (sd_brief (st_seed s)))
      (opt_enc (\<lambda>b. sized_enc (brief_as_bytes b)) (sd_brief (st_seed s)))"
  proof (rule emits_option)
    fix b assume "sd_brief (st_seed s) = Some b"
    then have "length (brief_as_bytes b) \<le> 256" using assms brief_ok_length by (simp add: run_start_ok_def)
    then show "emits (w_sized (brief_as_bytes b)) (sized_enc (brief_as_bytes b))" by simp
  qed
  moreover have "emits (w_option w_ref (st_snapshot s)) (opt_enc ref_enc (st_snapshot s))"
    by (rule emits_option) (unfold w_ref_def ref_enc_def, intro emits_cons emits_one emits_words)
  ultimately show ?thesis unfolding run_start_encode_def
    by (intro emits_result, unfold run_start_enc_def, intro emits_cons emits_one emits_bytes)
qed

section \<open>Readers\<close>

lemmas wire_bind_iff =
  wire_u8.bind_iff wire_u16.bind_iff wire_u32.bind_iff wire_u64.bind_iff wire_flag.bind_iff wire_arr.bind_iff

lemmas wire_bind_enc =
  wire_u8.bind_enc wire_u16.bind_enc wire_u32.bind_enc wire_u64.bind_enc wire_flag.bind_enc wire_arr.bind_enc

text \<open>A byte string after its length in 8 bits.\<close>

lemma short_reader:
  assumes "cap < 256"
  shows "wire_reader (rd_bind wr_u8 (\<lambda>len. if cap < unat len then rd_fail W_Invalid else wr_take (unat len)))
    (\<lambda>bs. u8_enc (of_nat (length bs)) @ bs) (\<lambda>bs. length bs \<le> cap)"
proof
  fix r bs r'
  have small: "unat (of_nat n :: u8) = n" if "n \<le> cap" for n
    using that assms by (simp add: unat_of_nat take_bit_nat_eq_self)
  have "rd_bind wr_u8 (\<lambda>len. if cap < unat len then rd_fail W_Invalid else wr_take (unat len)) r = Inr (bs, r') \<longleftrightarrow>
      (\<exists>len :: u8. (unat len \<le> cap \<and> length bs = unat len) \<and>
      reads r (u8_enc len) \<and> reads (skip r (u8_enc len)) bs \<and> r' = skip (skip r (u8_enc len)) bs)"
    unfolding wire_u8.bind_iff
    by (intro iff_exI) (auto simp: rd_fail_Inr wr_take_Inr not_less)
  also have "(\<lambda>len :: u8. unat len \<le> cap \<and> length bs = unat len) = (\<lambda>len. len = of_nat (length bs) \<and> length bs \<le> cap)"
    using small by (auto simp: fun_eq_iff)
  finally show "rd_bind wr_u8 (\<lambda>len. if cap < unat len then rd_fail W_Invalid else wr_take (unat len)) r = Inr (bs, r') \<longleftrightarrow>
      length bs \<le> cap \<and> reads r (u8_enc (of_nat (length bs)) @ bs) \<and> r' = skip r (u8_enc (of_nat (length bs)) @ bs)"
    by (simp add: reads_append skip_append)
qed

interpretation observation_r: wire_reader wr_observation observation_enc "\<lambda>bs. length bs \<le> last_observation_cap"
  using short_reader [of last_observation_cap] by (simp add: wr_observation_def observation_enc_def [abs_def] last_observation_cap_def)

interpretation reason_r: wire_reader wr_reason reason_enc "\<lambda>bs. length bs \<le> max_reason"
  using short_reader [of max_reason] by (simp add: wr_reason_def reason_enc_def [abs_def] max_reason_def)

interpretation text_r: wire_reader "wr_sized output_cap" sized_enc "\<lambda>bs. length bs \<le> output_cap"
  using wr_sized_reader [of output_cap] by (simp add: wire_reader_def output_cap_def)

interpretation ask_r: wire_reader "wr_sized max_ask_input" sized_enc "\<lambda>bs. length bs \<le> max_ask_input"
  using wr_sized_reader [of max_ask_input] by (simp add: wire_reader_def max_ask_input_def)

interpretation brief_text_r: wire_reader "wr_sized brief_cap" sized_enc "\<lambda>bs. length bs \<le> brief_cap"
  using wr_sized_reader [of brief_cap] by (simp add: wire_reader_def brief_cap_def)

interpretation settings_r: wire_reader wr_settings settings_bytes any
proof
  fix r v r'
  show "wr_settings r = Inr (v, r') \<longleftrightarrow> any v \<and> reads r (settings_bytes v) \<and> r' = skip r (settings_bytes v)"
    by (cases v) (auto simp: wr_settings_def wire_bind_iff read_chain settings_bytes_def)
qed

interpretation repair_r: wire_reader wr_repair repair_enc repair_ok
proof
  fix r v r'
  have name: "repair_name c = Some n \<longleftrightarrow> (n = ''malformed'' \<or> n = ''invalid_args'') \<and> c = (if n = ''malformed'' then 0 else 1)"
    for c n by (auto simp: repair_name_def)
  show "wr_repair r = Inr (v, r') \<longleftrightarrow> repair_ok v \<and> reads r (repair_enc v) \<and> r' = skip r (repair_enc v)"
    by (cases v) (auto simp: wr_repair_def wire_bind_iff read_chain result_simps name repair_enc_def repair_ok_def)
qed

interpretation prior_r: wire_reader wr_prior prior_enc any
proof
  fix r v r'
  show "wr_prior r = Inr (v, r') \<longleftrightarrow> any v \<and> reads r (prior_enc v) \<and> r' = skip r (prior_enc v)"
    by (cases v) (auto simp: wr_prior_def wire_bind_iff read_chain prior_enc_def)
qed

interpretation ref_r: wire_reader wr_ref ref_enc any
proof
  fix r v r'
  show "wr_ref r = Inr (v, r') \<longleftrightarrow> any v \<and> reads r (ref_enc v) \<and> r' = skip r (ref_enc v)"
    by (cases v) (auto simp: wr_ref_def wire_bind_iff read_chain ref_enc_def)
qed

interpretation status_r: wire_reader wr_terminal_status "\<lambda>t. u8_enc (terminal_status_code t)" any
proof
  fix r v r'
  show "wr_terminal_status r = Inr (v, r') \<longleftrightarrow>
      any v \<and> reads r (u8_enc (terminal_status_code v)) \<and> r' = skip r (u8_enc (terminal_status_code v))"
    by (auto simp: wr_terminal_status_def wire_bind_iff read_chain result_simps terminal_status_roundtrip)
qed

interpretation opt_observation_r: wire_reader "wr_option wr_observation" "opt_enc observation_enc"
    "pred_option (\<lambda>bs. length bs \<le> last_observation_cap)"
  by (rule observation_r.option_reader)

interpretation opt_repair_r: wire_reader "wr_option wr_repair" "opt_enc repair_enc" "pred_option repair_ok"
  by (rule repair_r.option_reader)

interpretation opt_prior_r: wire_reader "wr_option wr_prior" "opt_enc prior_enc" "pred_option any"
  by (rule prior_r.option_reader)

interpretation opt_brief_text_r: wire_reader "wr_option (wr_sized brief_cap)" "opt_enc sized_enc"
    "pred_option (\<lambda>bs. length bs \<le> brief_cap)"
  by (rule brief_text_r.option_reader)

interpretation opt_ref_r: wire_reader "wr_option wr_ref" "opt_enc ref_enc" "pred_option any"
  by (rule ref_r.option_reader)

lemma pred_option_any [simp]: "pred_option any x"
  by (cases x) simp_all

section \<open>Payloads are exact\<close>

interpretation infer_request_r: wire_reader wr_infer_request infer_request_enc infer_request_ok
proof
  fix r v r'
  show "wr_infer_request r = Inr (v, r') \<longleftrightarrow>
      infer_request_ok v \<and> reads r (infer_request_enc v) \<and> r' = skip r (infer_request_enc v)"
    unfolding wr_infer_request_def settings_r.bind_iff wire_bind_iff opt_observation_r.bind_iff
      opt_repair_r.bind_iff opt_prior_r.bind_iff opt_brief_text_r.bind_iff
    by (cases v) (auto simp: read_chain infer_request_enc_def infer_request_ok_def)
qed

lemma sized_bind_iff:
  assumes "cap < 65536"
  shows "rd_bind wr_u16 (\<lambda>len. if cap < unat len \<or> c len then rd_fail W_Invalid
      else rd_bind (wr_take (unat len)) f) r = Inr (y, r') \<longleftrightarrow>
    (\<exists>bs. length bs \<le> cap \<and> \<not> c (of_nat (length bs)) \<and> reads r (sized_enc bs) \<and> f bs (skip r (sized_enc bs)) = Inr (y, r'))"
proof -
  have small: "unat (of_nat n :: u16) = n" if "n \<le> cap" for n
    using that assms by (simp add: unat_of_nat take_bit_nat_eq_self)
  have "rd_bind wr_u16 (\<lambda>len. if cap < unat len \<or> c len then rd_fail W_Invalid
      else rd_bind (wr_take (unat len)) f) r = Inr (y, r') \<longleftrightarrow>
    (\<exists>bs len. (unat len \<le> cap \<and> length bs = unat len) \<and> \<not> c len \<and> reads r (to_le_bytes len) \<and>
      reads (skip r (to_le_bytes len)) bs \<and> f bs (skip (skip r (to_le_bytes len)) bs) = Inr (y, r'))"
    by (auto simp: wire_u16.bind_iff rd_fail_Inr wire_arr.bind_iff not_less split: if_splits)
  also have "\<dots> \<longleftrightarrow> (\<exists>bs len. (len = of_nat (length bs) \<and> length bs \<le> cap) \<and> \<not> c len \<and> reads r (to_le_bytes len) \<and>
      reads (skip r (to_le_bytes len)) bs \<and> f bs (skip (skip r (to_le_bytes len)) bs) = Inr (y, r'))"
  proof -
    have "unat len \<le> cap \<and> length bs = unat len \<longleftrightarrow> len = of_nat (length bs) \<and> length bs \<le> cap"
      for len :: u16 and bs :: bytes using small by auto
    then show ?thesis by presburger
  qed
  finally show ?thesis by (simp add: sized_enc_def reads_append skip_append)
qed

interpretation tool_request_r: wire_reader wr_tool_request tool_request_enc tool_request_ok
proof
  fix r v r'
  have cap: "output_cap < 65536" by (simp add: output_cap_def)
  show "wr_tool_request r = Inr (v, r') \<longleftrightarrow>
      tool_request_ok v \<and> reads r (tool_request_enc v) \<and> r' = skip r (tool_request_enc v)"
    unfolding wr_tool_request_def wire_u32.bind_iff wire_u8.bind_iff wire_flag.bind_iff wire_u64.bind_iff
      sized_bind_iff [OF cap]
    by (cases v) (auto simp: read_chain tool_request_enc_def tool_request_ok_def)
qed

interpretation observed_r: wire_reader wr_observed observed_enc observed_ok
proof
  fix r v r'
  have cap: "max_outcome < 65536" by (simp add: max_outcome_def)
  have zero: "of_nat (length bs) = (0 :: u16) \<longleftrightarrow> bs = []" if "length bs \<le> max_outcome" for bs :: bytes
    using that by (simp add: word_unat_eq_iff unat_of_nat take_bit_nat_eq_self max_outcome_def)
  show "wr_observed r = Inr (v, r') \<longleftrightarrow> observed_ok v \<and> reads r (observed_enc v) \<and> r' = skip r (observed_enc v)"
    unfolding wr_observed_def wire_flag.bind_iff wire_u64.bind_iff sized_bind_iff [OF cap]
    by (cases v; cases "ob_transient v")
      (auto simp: read_chain observed_enc_def observed_ok_def observed_completed_def observed_TRANSIENT_def
        zero split: if_splits cong: conj_cong)
qed

interpretation inferred_r: wire_reader wr_inferred inferred_enc inferred_ok
proof
  fix r v r'
  show "wr_inferred r = Inr (v, r') \<longleftrightarrow> inferred_ok v \<and> reads r (inferred_enc v) \<and> r' = skip r (inferred_enc v)"
    unfolding wr_inferred_def text_r.bind_iff wire_bind_iff
    by (cases v) (auto simp: read_chain inferred_enc_def inferred_ok_def inferred_new_def)
qed

interpretation ask_request_r: wire_reader wr_ask_request ask_request_enc "\<lambda>q. length (aq_prompt q) \<le> output_cap"
proof
  fix r v r'
  show "wr_ask_request r = Inr (v, r') \<longleftrightarrow>
      length (aq_prompt v) \<le> output_cap \<and> reads r (ask_request_enc v) \<and> r' = skip r (ask_request_enc v)"
    unfolding wr_ask_request_def wire_bind_iff text_r.bind_iff
    by (cases v) (auto simp: read_chain ask_request_enc_def)
qed

interpretation ask_input_r: wire_reader wr_ask_input sized_enc "\<lambda>bs. length bs \<le> max_ask_input"
proof
  fix r v r'
  have new: "ask_input_new x = Inr v \<longleftrightarrow> x = v \<and> length v \<le> max_ask_input" for x
    by (auto simp: ask_input_new_def)
  show "wr_ask_input r = Inr (v, r') \<longleftrightarrow>
      length v \<le> max_ask_input \<and> reads r (sized_enc v) \<and> r' = skip r (sized_enc v)"
    unfolding wr_ask_input_def ask_r.bind_iff by (auto simp: read_chain new)
qed

interpretation terminal_r: wire_reader wr_terminal terminal_enc terminal_ok
proof
  fix r v r'
  show "wr_terminal r = Inr (v, r') \<longleftrightarrow> terminal_ok v \<and> reads r (terminal_enc v) \<and> r' = skip r (terminal_enc v)"
    unfolding wr_terminal_def status_r.bind_iff reason_r.bind_iff text_r.bind_iff
    by (cases v) (auto simp: read_chain terminal_enc_def terminal_ok_def)
qed

text \<open>A pin and a level in one word.\<close>

lemma packed_iff:
  fixes packed :: u64 and pin :: u8
  shows "ucast (packed AND 0xff) = pin \<and> drop_bit 8 packed = (if high then 1 else 0) \<longleftrightarrow>
    packed = ucast pin OR push_bit 8 (if high then 1 else 0)"
proof
  assume a: "ucast (packed AND 0xff) = pin \<and> drop_bit 8 packed = (if high then 1 else 0)"
  have "packed = take_bit 8 packed OR push_bit 8 (drop_bit 8 packed)"
  proof (rule bit_word_eqI)
    fix n assume "n < LENGTH(64)"
    then show "bit packed n = bit (take_bit 8 packed OR push_bit 8 (drop_bit 8 packed)) n"
      by (cases "n < 8") (auto simp: bit_or_iff bit_take_bit_iff bit_push_bit_iff bit_drop_bit_eq)
  qed
  moreover have "take_bit 8 packed = ucast pin"
  proof -
    have "packed AND 0xff = take_bit 8 packed" by (simp add: take_bit_eq_mask mask_eq_exp_minus_1)
    then have "pin = ucast (take_bit 8 packed)" using a by simp
    moreover have "take_bit 8 packed = ucast (ucast (take_bit 8 packed) :: u8)"
      by (rule bit_word_eqI) (auto simp: bit_simps)
    ultimately show ?thesis by simp
  qed
  ultimately show "packed = ucast pin OR push_bit 8 (if high then 1 else 0)" using a by simp
next
  assume a: "packed = ucast pin OR push_bit 8 (if high then 1 else 0)"
  show "ucast (packed AND 0xff) = pin \<and> drop_bit 8 packed = (if high then 1 else 0)"
  proof
    have "packed AND 0xff = take_bit 8 packed" by (simp add: take_bit_eq_mask mask_eq_exp_minus_1)
    then show "ucast (packed AND 0xff) = pin"
      unfolding a by (intro bit_word_eqI) (auto simp: bit_simps)
    show "drop_bit 8 packed = (if high then 1 else 0)"
      unfolding a by (intro bit_word_eqI) (auto simp: bit_simps dest: bit_imp_le_length)
  qed
qed

interpretation check_r: wire_reader wr_check_of check_enc check_ok
proof
  fix r v r'
  have pin: "wr_pin packed r1 = Inr (w, r2) \<longleftrightarrow>
     (\<exists>p h. w = Check_Pin p h \<and> p < 8 \<and> packed = ucast p OR push_bit 8 (if h then 1 else 0) \<and> r2 = r1)"
    for packed :: u64 and r1 r2 w
    unfolding packed_iff [symmetric] by (auto simp: wr_pin_def Let_def read_chain not_le)
  show "wr_check_of r = Inr (v, r') \<longleftrightarrow> check_ok v \<and> reads r (check_enc v) \<and> r' = skip r (check_enc v)"
  proof
    assume "wr_check_of r = Inr (v, r')"
    then show "check_ok v \<and> reads r (check_enc v) \<and> r' = skip r (check_enc v)"
      unfolding wr_check_of_def wire_u8.bind_iff
      by (cases v) (auto simp: wire_u64.bind_iff pin read_chain check_enc_def check_ok_def split: if_splits)
  next
    assume "check_ok v \<and> reads r (check_enc v) \<and> r' = skip r (check_enc v)"
    then show "wr_check_of r = Inr (v, r')"
      by (cases v) (auto simp: wr_check_of_def check_enc_def check_ok_def reads_append skip_append
          wire_u8.bind_enc wire_u64.bind_enc pin read_chain split: if_splits)
  qed
qed

interpretation verify_request_r: wire_reader wr_verify_request verify_request_enc "\<lambda>q. check_ok (vq_check q)"
proof
  fix r v r'
  show "wr_verify_request r = Inr (v, r') \<longleftrightarrow>
      check_ok (vq_check v) \<and> reads r (verify_request_enc v) \<and> r' = skip r (verify_request_enc v)"
    unfolding wr_verify_request_def wire_u32.bind_iff check_r.bind_iff
    by (cases v) (auto simp: read_chain verify_request_enc_def)
qed

interpretation seed_snapshot_r: wire_reader wr_seed_snapshot input_bytes snapshot_arrays
proof
  fix r v r'
  show "wr_seed_snapshot r = Inr (v, r') \<longleftrightarrow>
      snapshot_arrays v \<and> reads r (input_bytes v) \<and> r' = skip r (input_bytes v)"
    unfolding wr_seed_snapshot_def wire_arr.bind_iff
    by (auto simp: read_chain result_simps from_input_bytes_iff length_input_bytes seed_input_len_def)
qed

interpretation brief_r: wire_reader wr_brief "\<lambda>b. sized_enc (brief_as_bytes b)" brief_ok
proof
  fix r v r'
  have "wr_brief r = Inr (v, r') \<longleftrightarrow> rd_bind wr_u16 (\<lambda>len. if 65535 < unat len \<or> False then rd_fail W_Invalid
      else rd_bind (wr_take (unat len)) (\<lambda>bs. rd_check (map_err W_Core (brief_from_bytes bs)))) r = Inr (v, r')"
  proof -
    have "unat len \<le> 65535" for len :: u16 using unsigned_less [of len, where 'a = nat] by simp
    then have "\<not> 65535 < unat len" for len :: u16 by (simp add: not_less)
    then show ?thesis by (simp add: wr_brief_def)
  qed
  also have "\<dots> \<longleftrightarrow> brief_ok v \<and> reads r (sized_enc (brief_as_bytes v)) \<and> r' = skip r (sized_enc (brief_as_bytes v))"
    by (subst sized_bind_iff) (auto simp: read_chain result_simps brief_from_as_bytes dest: brief_ok_length)
  finally show "wr_brief r = Inr (v, r') \<longleftrightarrow>
      brief_ok v \<and> reads r (sized_enc (brief_as_bytes v)) \<and> r' = skip r (sized_enc (brief_as_bytes v))" .
qed

interpretation opt_brief_r: wire_reader "wr_option wr_brief" "opt_enc (\<lambda>b. sized_enc (brief_as_bytes b))"
    "pred_option brief_ok"
  by (rule brief_r.option_reader)

text \<open>The input of a run: the binding's digest is the brief's, so the snapshot and the brief make the seed.\<close>

lemma seed_of_parts:
  "ss_brief_digest t = map_option brief_digest b \<Longrightarrow> snapshot_of_seed (seed_from_snapshot t b) = t"
  by (cases t) (simp add: snapshot_of_seed_def seed_from_snapshot_def)

interpretation run_start_r: wire_reader wr_run_start run_start_enc run_start_ok
proof
  fix r r' and v :: run_start
  have seed: "st_seed v = seed_from_snapshot t b \<and> ss_brief_digest t = map_option brief_digest b \<longleftrightarrow>
      t = snapshot_of_seed (st_seed v) \<and> b = sd_brief (st_seed v)" for t b
  proof
    assume "st_seed v = seed_from_snapshot t b \<and> ss_brief_digest t = map_option brief_digest b"
    then show "t = snapshot_of_seed (st_seed v) \<and> b = sd_brief (st_seed v)"
      using seed_of_parts [of t b] by (simp add: seed_from_snapshot_def)
  qed (simp add: snapshot_of_seed_def seed_from_snapshot_def)
  have "wr_run_start r = Inr (v, r') \<longleftrightarrow> (\<exists>t b. snapshot_arrays t \<and> reads r (input_bytes t) \<and> pred_option brief_ok b \<and>
      reads (skip r (input_bytes t)) (opt_enc (\<lambda>b. sized_enc (brief_as_bytes b)) b) \<and>
      reads (skip (skip r (input_bytes t)) (opt_enc (\<lambda>b. sized_enc (brief_as_bytes b)) b)) (opt_enc ref_enc (st_snapshot v)) \<and>
      r' = skip (skip (skip r (input_bytes t)) (opt_enc (\<lambda>b. sized_enc (brief_as_bytes b)) b)) (opt_enc ref_enc (st_snapshot v)) \<and>
      (st_seed v = seed_from_snapshot t b \<and> ss_brief_digest t = map_option brief_digest b))"
    unfolding wr_run_start_def seed_snapshot_r.bind_iff opt_brief_r.bind_iff
    by (cases v) (auto simp: opt_ref_r.bind_iff read_chain split: if_splits)
  also have "\<dots> \<longleftrightarrow> run_start_ok v \<and> reads r (run_start_enc v) \<and> r' = skip r (run_start_enc v)"
    unfolding seed by (auto simp: read_chain run_start_ok_def seed_arrays_def run_start_enc_def)
  finally show "wr_run_start r = Inr (v, r') \<longleftrightarrow> run_start_ok v \<and> reads r (run_start_enc v) \<and> r' = skip r (run_start_enc v)" .
qed

text \<open>Every payload decodes exactly when it is the encoding of a well-formed value.\<close>

lemmas payload_exact =
  infer_request_r.whole_iff [folded infer_request_decode_def]
  inferred_r.whole_iff [folded inferred_decode_def]
  wire_flag.exact_reader_axioms [THEN wire_reader.intro, THEN wire_reader.whole_iff, folded probed_decode_def]
  tool_request_r.whole_iff [folded tool_request_decode_def]
  observed_r.whole_iff [folded observed_decode_def]
  verify_request_r.whole_iff [folded verify_request_decode_def]
  wire_u64.exact_reader_axioms [THEN wire_reader.intro, THEN wire_reader.whole_iff, folded verified_decode_def]
  ask_request_r.whole_iff [folded ask_request_decode_def]
  ask_input_r.whole_iff [folded ask_input_decode_def]
  terminal_r.whole_iff [folded terminal_decode_def]
  run_start_r.whole_iff [folded run_start_decode_def]

text \<open>Every payload fits the page a record is staged through.\<close>

lemma length_sized [simp]: "length (sized_enc bs) = 2 + length bs"
  by (simp add: sized_enc_def)

lemma length_opt_enc: "length (opt_enc enc x) = 1 + (case x of None \<Rightarrow> 0 | Some v \<Rightarrow> length (enc v))"
  by (cases x) (simp_all add: opt_enc_simps)

lemma payload_lengths:
  "infer_request_ok q \<Longrightarrow> length (infer_request_enc q) \<le> page_record_max"
  "tool_request_ok t \<Longrightarrow> length (tool_request_enc t) \<le> page_record_max"
  "length (verify_request_enc c) \<le> page_record_max"
  "length (aq_prompt a) \<le> output_cap \<Longrightarrow> length (ask_request_enc a) \<le> page_record_max"
  "terminal_ok e \<Longrightarrow> length (terminal_enc e) \<le> page_record_max"
  "run_start_ok s \<Longrightarrow> length (run_start_enc s) \<le> page_record_max"
proof -
  show "infer_request_ok q \<Longrightarrow> length (infer_request_enc q) \<le> page_record_max"
    by (auto simp: infer_request_enc_def infer_request_ok_def length_opt_enc observation_enc_def repair_enc_def
        prior_enc_def u8_enc_def page_record_max_def last_observation_cap_def brief_cap_def split: option.split)
  show "tool_request_ok t \<Longrightarrow> length (tool_request_enc t) \<le> page_record_max"
    by (simp add: tool_request_enc_def tool_request_ok_def u8_enc_def flag_enc_def page_record_max_def output_cap_def)
  show "length (verify_request_enc c) \<le> page_record_max"
    by (simp add: verify_request_enc_def check_enc_def u8_enc_def page_record_max_def split: check.split)
  show "length (aq_prompt a) \<le> output_cap \<Longrightarrow> length (ask_request_enc a) \<le> page_record_max"
    by (simp add: ask_request_enc_def u8_enc_def page_record_max_def output_cap_def)
  show "terminal_ok e \<Longrightarrow> length (terminal_enc e) \<le> page_record_max"
    by (simp add: terminal_enc_def terminal_ok_def reason_enc_def u8_enc_def page_record_max_def output_cap_def max_reason_def)
  show "length (run_start_enc s) \<le> page_record_max" if "run_start_ok s"
  proof (cases "sd_brief (st_seed s)")
    case None
    then show ?thesis using that
      by (simp add: run_start_enc_def run_start_ok_def seed_arrays_def length_input_bytes length_opt_enc ref_enc_def
          u8_enc_def page_record_max_def split: option.split)
  next
    case (Some b)
    then have "length (brief_as_bytes b) \<le> 256" using that brief_ok_length by (simp add: run_start_ok_def)
    then show ?thesis using that Some
      by (simp add: run_start_enc_def run_start_ok_def seed_arrays_def length_input_bytes length_opt_enc ref_enc_def
          u8_enc_def page_record_max_def split: option.split)
  qed
qed

end
