(* ===== verification/Flow.thy ===== *)
theory Flow
  imports Wire
begin

text \<open>
  A workflow over recorded activities, the shape of \<open>esper-runtime/src/run/mod.rs\<close>. An \<open>async\<close> workflow
  asks for one activity after another and is resumed with the recorded answer; a boot replays the
  answers journalled so far. \<open>flow\<close> is the tree of those requests, \<open>play\<close> runs it over a list of
  recorded answers, and \<open>holds\<close> is the program logic the workflow's properties are proved in: a
  predicate on histories, with one equation per construct.
\<close>

section \<open>Flows\<close>

text \<open>A recorded answer: the activity completed or failed, with its payload.\<close>

datatype answer = Ans_Completed bytes | Ans_Failed bytes

text \<open>How a workflow ends: through \<open>Ctx::complete\<close>, \<open>Ctx::fail\<close> or \<open>Ctx::continue_as_new\<close> with the
  payload and the state it leaves behind, or by returning an error.\<close>

datatype 's ending =
    Completed bytes 's
  | Failed bytes 's
  | Continued bytes 's
  | Faulted runtime_error

text \<open>A flow returns a value, stops for good, or waits for the answer of an activity: its kind and
  its input.\<close>

datatype ('z, returned: 'a) flow =
    Ret 'a
  | Stop 'z
  | Act u16 bytes "answer \<Rightarrow> ('z, 'a) flow"

primrec flow_bind :: "('z, 'a) flow \<Rightarrow> ('a \<Rightarrow> ('z, 'b) flow) \<Rightarrow> ('z, 'b) flow" where
  "flow_bind (Ret x) g = g x"
| "flow_bind (Stop z) g = Stop z"
| "flow_bind (Act k i f) g = Act k i (\<lambda>a. flow_bind (f a) g)"

lemma flow_bind_cong [fundef_cong]:
  "m = m' \<Longrightarrow> (\<And>x. x \<in> returned m' \<Longrightarrow> g x = g' x) \<Longrightarrow> flow_bind m g = flow_bind m' g'"
proof (induction m arbitrary: m')
  case (Act k i f)
  have "flow_bind (f a) g = flow_bind (f a) g'" for a
    by (rule Act.IH) (use Act.prems in fastforce)+
  then show ?case using Act.prems(1) by auto
qed auto

lemma flow_bind_assoc: "flow_bind (flow_bind m f) g = flow_bind m (\<lambda>x. flow_bind (f x) g)"
  by (induction m) auto

lemma flow_bind_Ret: "flow_bind m Ret = m"
  by (induction m) auto

lemma returned_bind: "y \<in> returned (flow_bind m g) \<longleftrightarrow> (\<exists>x \<in> returned m. y \<in> returned (g x))"
  by (induction m) auto

text \<open>\<open>attempt\<close> is the \<open>?\<close> operator: an error ends the workflow.\<close>

definition attempt :: "runtime_error + 'a \<Rightarrow> ('s ending, 'a) flow" where
  "attempt m = (case m of Inl e \<Rightarrow> Stop (Faulted e) | Inr x \<Rightarrow> Ret x)"

lemma attempt_simps [simp]: "attempt (Inl e) = Stop (Faulted e)" "attempt (Inr x) = Ret x"
  by (simp_all add: attempt_def)

lemma returned_attempt [simp]: "x \<in> returned (attempt m) \<longleftrightarrow> m = Inr x"
  by (auto simp: attempt_def split: sum.splits)

section \<open>Playing recorded answers\<close>

type_synonym history = "(u16 \<times> bytes \<times> answer) list"

text \<open>What a boot sees after the recorded answers ran out: the flow returned, it stopped, or an
  activity is outstanding.\<close>

datatype ('z, 'a) playing =
    Returned 'a
  | Ended 'z
  | Outstanding u16 bytes

primrec play :: "('z, 'a) flow \<Rightarrow> answer list \<Rightarrow> history \<times> ('z, 'a) playing" where
  "play (Ret x) as = ([], Returned x)"
| "play (Stop z) as = ([], Ended z)"
| "play (Act k i f) as =
     (case as of
        [] \<Rightarrow> ([], Outstanding k i)
      | a # rest \<Rightarrow> (case play (f a) rest of (h, out) \<Rightarrow> ((k, i, a) # h, out)))"

text \<open>Replay: a boot with more recorded answers takes the same steps first, so the history of a
  longer record extends the history of a shorter one.\<close>

lemma play_prefix: "\<exists>h. fst (play m (as @ bs)) = fst (play m as) @ h"
proof (induction m arbitrary: as)
  case (Act k i f)
  show ?case
  proof (cases as)
    case (Cons a rest)
    obtain h where "fst (play (f a) (rest @ bs)) = fst (play (f a) rest) @ h" using Act.IH [of "f a" rest] by auto
    then show ?thesis by (simp add: Cons case_prod_beta)
  qed simp
qed simp_all

section \<open>The program logic\<close>

text \<open>\<open>holds R Z Q m h\<close>: from the history \<open>h\<close>, whatever the answers are, every activity \<open>m\<close> requests
  satisfies \<open>R\<close> of the history before it, every stop satisfies \<open>Z\<close> and every return \<open>Q\<close> of the
  history there.\<close>

primrec holds ::
  "(history \<Rightarrow> u16 \<Rightarrow> bytes \<Rightarrow> bool) \<Rightarrow> (history \<Rightarrow> 'z \<Rightarrow> bool) \<Rightarrow> (history \<Rightarrow> 'a \<Rightarrow> bool) \<Rightarrow>
   ('z, 'a) flow \<Rightarrow> history \<Rightarrow> bool" where
  "holds R Z Q (Ret x) = (\<lambda>h. Q h x)"
| "holds R Z Q (Stop z) = (\<lambda>h. Z h z)"
| "holds R Z Q (Act k i f) = (\<lambda>h. R h k i \<and> (\<forall>a. holds R Z Q (f a) (h @ [(k, i, a)])))"

lemma holds_bind [simp]: "holds R Z Q (flow_bind m g) h \<longleftrightarrow> holds R Z (\<lambda>h x. holds R Z Q (g x) h) m h"
  by (induction m arbitrary: h) auto

lemma holds_attempt [simp]:
  "holds R Z Q (attempt m) h \<longleftrightarrow> (case m of Inl e \<Rightarrow> Z h (Faulted e) | Inr x \<Rightarrow> Q h x)"
  by (simp add: attempt_def split: sum.splits)

lemma holds_mono:
  "holds R Z Q m h \<Longrightarrow> (\<And>h k i. R h k i \<Longrightarrow> R' h k i) \<Longrightarrow> (\<And>h z. Z h z \<Longrightarrow> Z' h z) \<Longrightarrow>
   (\<And>h x. Q h x \<Longrightarrow> Q' h x) \<Longrightarrow> holds R' Z' Q' m h"
  by (induction m arbitrary: h) auto

lemma holds_conj:
  "holds R Z Q m h \<Longrightarrow> holds R' Z' Q' m h \<Longrightarrow>
   holds (\<lambda>h k i. R h k i \<and> R' h k i) (\<lambda>h z. Z h z \<and> Z' h z) (\<lambda>h x. Q h x \<and> Q' h x) m h"
  by (induction m arbitrary: h) auto

text \<open>What \<open>holds\<close> says of a play: the outcome, and every request against the history before it.\<close>

lemma holds_play:
  "holds R Z Q m h \<Longrightarrow> play m as = (g, out) \<Longrightarrow>
   (case out of Returned x \<Rightarrow> Q (h @ g) x | Ended z \<Rightarrow> Z (h @ g) z | Outstanding k i \<Rightarrow> R (h @ g) k i) \<and>
   (\<forall>n k i a. n < length g \<longrightarrow> g ! n = (k, i, a) \<longrightarrow> R (h @ take n g) k i)"
proof (induction m arbitrary: h as g out)
  case (Act k i f)
  show ?case
  proof (cases as)
    case Nil
    then show ?thesis using Act.prems by auto
  next
    case (Cons a rest)
    obtain g' out' where rec: "play (f a) rest = (g', out')" by fastforce
    then have g: "g = (k, i, a) # g'" and out: "out = out'" using Act.prems(2) Cons by auto
    have tail: "holds R Z Q (f a) (h @ [(k, i, a)])" using Act.prems(1) by simp
    have ih: "(case out of Returned x \<Rightarrow> Q ((h @ [(k, i, a)]) @ g') x | Ended z \<Rightarrow> Z ((h @ [(k, i, a)]) @ g') z
        | Outstanding k' i' \<Rightarrow> R ((h @ [(k, i, a)]) @ g') k' i')"
      and ihr: "n < length g' \<Longrightarrow> g' ! n = (k', i', a') \<Longrightarrow> R ((h @ [(k, i, a)]) @ take n g') k' i'" for n k' i' a'
      using Act.IH [of "f a" "h @ [(k, i, a)]" rest g' out'] tail rec out by auto
    have "R (h @ take n g) k' i'" if "n < length g" "g ! n = (k', i', a')" for n k' i' a'
      using that ihr [of "n - 1" k' i' a'] Act.prems(1) by (cases n) (auto simp: g)
    then show ?thesis using ih by (cases out) (simp_all add: g)
  qed
qed auto

end
