(* ===== verification/Device.thy ===== *)
theory Device
  imports Run_Wire Decision
begin

text \<open>
  The operator's input and the delay outcome of \<open>esper-runtime/src/run/device.rs\<close>: the two recorded
  texts whose content the run workflow reads itself. The lemmas characterise the accepted inputs:
  an answer to a pin question is exactly \<open>{"pin": N}\<close> with blanks between the tokens, and a delay
  outcome gives the two readings it names.
\<close>

section \<open>Operator input\<close>

fun skip_blanks :: "bytes \<Rightarrow> bytes" where
  "skip_blanks [] = []"
| "skip_blanks (b # bs) =
     (if b = 0x20 \<or> b = 0x09 \<or> b = 0x0a \<or> b = 0x0d then skip_blanks bs else b # bs)"

definition strip_prefix :: "bytes \<Rightarrow> bytes \<Rightarrow> bytes option" where
  "strip_prefix p bs = (if prefix p bs then Some (drop (length p) bs) else None)"

definition validate_ask_input :: "bytes \<Rightarrow> u8 \<Rightarrow> string + unit" where
  "validate_ask_input inp schema =
     (if schema \<noteq> 1 then Inl ''unsupported ask schema''
      else
        and_then (ok_or ask_input_reason (strip_prefix [0x7b] (skip_blanks inp))) (\<lambda>r1.
        and_then (ok_or ask_input_reason (strip_prefix [0x22, 0x70, 0x69, 0x6e, 0x22] (skip_blanks r1))) (\<lambda>r2.
        and_then (ok_or ask_input_reason (strip_prefix [0x3a] (skip_blanks r2))) (\<lambda>r3.
          case skip_blanks r3 of
            [] \<Rightarrow> Inl ask_input_reason
          | digit # tail \<Rightarrow>
              if \<not> (0x30 \<le> digit \<and> digit \<le> 0x37) \<or> (tail \<noteq> [] \<and> is_ascii_digit (hd tail))
              then Inl ask_input_reason
              else and_then (ok_or ask_input_reason (strip_prefix [0x7d] (skip_blanks tail))) (\<lambda>r4.
                if skip_blanks r4 \<noteq> [] then Inl ask_input_reason else Inr ())))))"

section \<open>The delay outcome\<close>

definition checked_mul :: "'a::len word \<Rightarrow> 'a word \<Rightarrow> 'a word option" where
  "checked_mul a b = (if unat a * unat b < 2 ^ LENGTH('a) then Some (a * b) else None)"

fun u64_digits_loop :: "u64 \<Rightarrow> bytes \<Rightarrow> u64 option" where
  "u64_digits_loop number [] = Some number"
| "u64_digits_loop number (b # bs) =
     (if \<not> is_ascii_digit b then None
      else case checked_mul number 10 of
        None \<Rightarrow> None
      | Some n \<Rightarrow>
          (case checked_add n (ucast (b - 0x30)) of
             None \<Rightarrow> None
           | Some n' \<Rightarrow> u64_digits_loop n' bs))"

definition parse_u64_digits :: "bytes \<Rightarrow> u64 option" where
  "parse_u64_digits raw = (if raw = [] then None else u64_digits_loop 0 raw)"

text \<open>The loop over the entries of the object; the state is the two readings found.\<close>

function delay_loop ::
  "u64 option \<Rightarrow> u64 option \<Rightarrow> object_cursor \<Rightarrow> parser \<Rightarrow>
   runtime_error + (u64 option \<times> u64 option \<times> parser)" where
  "delay_loop waited uptime c p =
     and_then (map_err (\<lambda>_. RE_JournalCorrupt) (next_entry c p)) (\<lambda>(entry, c', p').
       case entry of
         None \<Rightarrow> Inr (waited, uptime, p')
       | Some (key, v) \<Rightarrow>
           (case v of
              J_Number raw \<Rightarrow>
                and_then (ok_or RE_JournalCorrupt (parse_u64_digits raw)) (\<lambda>number.
                  if key = str_bytes ''waited_ms'' then delay_loop (Some number) uptime c' p'
                  else if key = str_bytes ''uptime_ms'' then delay_loop waited (Some number) c' p'
                  else Inl RE_JournalCorrupt)
            | _ \<Rightarrow> Inl RE_JournalCorrupt))"
  by pat_completeness auto

termination
  by (relation "measure (\<lambda>(waited, uptime, c, p). length (oc_keys c) - oc_len c)")
    (auto simp: result_simps dest: next_entry_keys)

declare delay_loop.simps [simp del]

definition parse_delay_outcome :: "bytes \<Rightarrow> runtime_error + (u64 \<times> u64)" where
  "parse_delay_outcome out =
     and_then (map_err (\<lambda>_. RE_JournalCorrupt) (parse_value (parser_new out))) (\<lambda>(v, p).
       if v \<noteq> J_Object then Inl RE_JournalCorrupt
       else and_then (delay_loop None None object_cursor_new p) (\<lambda>(waited, uptime, p').
         and_then (map_err (\<lambda>_. RE_JournalCorrupt) (parser_finish p')) (\<lambda>_.
           case (waited, uptime) of
             (Some waited, Some uptime) \<Rightarrow>
               and_then (ok_or RE_JournalCorrupt (checked_sub uptime waited)) (\<lambda>t0. Inr (t0, uptime))
           | _ \<Rightarrow> Inl RE_JournalCorrupt)))"

section \<open>Lemmas\<close>

definition blank :: "u8 \<Rightarrow> bool" where
  "blank b \<longleftrightarrow> b = 0x20 \<or> b = 0x09 \<or> b = 0x0a \<or> b = 0x0d"

lemma skip_blanks_dropWhile: "skip_blanks bs = dropWhile blank bs"
  by (induction bs) (auto simp: blank_def)

lemma strip_after_blanks:
  "p \<noteq> [] \<Longrightarrow> \<not> blank (hd p) \<Longrightarrow>
   strip_prefix p (skip_blanks bs) = Some rest \<longleftrightarrow> (\<exists>w. list_all blank w \<and> bs = w @ p @ rest)"
proof
  assume "strip_prefix p (skip_blanks bs) = Some rest"
  then have "dropWhile blank bs = p @ rest"
    by (auto simp: strip_prefix_def skip_blanks_dropWhile prefix_def split: if_splits)
  then have "bs = takeWhile blank bs @ p @ rest" by (metis takeWhile_dropWhile_id)
  moreover have "list_all blank (takeWhile blank bs)" by (auto simp: list_all_iff dest: set_takeWhileD)
  ultimately show "\<exists>w. list_all blank w \<and> bs = w @ p @ rest" by blast
next
  assume "p \<noteq> []" "\<not> blank (hd p)" "\<exists>w. list_all blank w \<and> bs = w @ p @ rest"
  then obtain w c q where w: "list_all blank w" "bs = w @ (c # q) @ rest" "p = c # q" "\<not> blank c"
    by (cases p) auto
  then have "dropWhile blank bs = (c # q) @ rest"
    by (simp add: dropWhile_append list_all_iff dropWhile_eq_Nil_conv)
  then show "strip_prefix p (skip_blanks bs) = Some rest"
    by (simp add: strip_prefix_def skip_blanks_dropWhile w(3))
qed

lemma skip_blanks_Nil: "skip_blanks bs = [] \<longleftrightarrow> list_all blank bs"
  by (simp add: skip_blanks_dropWhile dropWhile_eq_Nil_conv list_all_iff)

lemma case_Inr: "(case xs of [] \<Rightarrow> Inl e | d # ds \<Rightarrow> f d ds) = Inr y \<longleftrightarrow> (\<exists>d ds. xs = d # ds \<and> f d ds = Inr y)"
  by (cases xs) auto

text \<open>The answers accepted: \<open>{"pin": N}\<close>, one digit of a pin, blanks anywhere between the tokens.\<close>

lemma validate_ask_input_iff:
  "validate_ask_input inp schema = Inr () \<longleftrightarrow>
     schema = 1 \<and>
     (\<exists>w0 w1 w2 w3 w4 w5 digit. list_all (list_all blank) [w0, w1, w2, w3, w4, w5] \<and>
        0x30 \<le> digit \<and> digit \<le> 0x37 \<and>
        inp = w0 @ [0x7b] @ w1 @ [0x22, 0x70, 0x69, 0x6e, 0x22] @ w2 @ [0x3a] @ w3 @ [digit] @ w4 @ [0x7d] @ w5)"
  (is "?l \<longleftrightarrow> ?r")
proof
  have nb: "\<not> blank 0x7b" "\<not> blank 0x22" "\<not> blank 0x3a" "\<not> blank 0x7d" by (simp_all add: blank_def)
  note strips = strip_after_blanks [of "[0x7b]"] strip_after_blanks [of "[0x22, 0x70, 0x69, 0x6e, 0x22]"]
    strip_after_blanks [of "[0x3a]"] strip_after_blanks [of "[0x7d]"]
  show ?r if ?l
  proof -
    from that obtain r1 r2 r3 digit tl r4 where s: "schema = 1"
      "strip_prefix [0x7b] (skip_blanks inp) = Some r1"
      "strip_prefix [0x22, 0x70, 0x69, 0x6e, 0x22] (skip_blanks r1) = Some r2"
      "strip_prefix [0x3a] (skip_blanks r2) = Some r3" "skip_blanks r3 = digit # tl"
      "0x30 \<le> digit" "digit \<le> 0x37" "strip_prefix [0x7d] (skip_blanks tl) = Some r4" "skip_blanks r4 = []"
      by (auto simp: validate_ask_input_def result_simps case_Inr split: if_splits)
    define w3 where "w3 = takeWhile blank r3"
    have r3: "r3 = w3 @ digit # tl" "list_all blank w3"
      using s(5) takeWhile_dropWhile_id [of blank r3]
      by (auto simp: w3_def skip_blanks_dropWhile list_all_iff dest: set_takeWhileD)
    obtain w0 where w0: "list_all blank w0" "inp = w0 @ [0x7b] @ r1" using s(2) nb by (auto simp: strips)
    obtain w1 where w1: "list_all blank w1" "r1 = w1 @ [0x22, 0x70, 0x69, 0x6e, 0x22] @ r2"
      using s(3) nb by (auto simp: strips)
    obtain w2 where w2: "list_all blank w2" "r2 = w2 @ [0x3a] @ r3" using s(4) nb by (auto simp: strips)
    obtain w4 where w4: "list_all blank w4" "tl = w4 @ [0x7d] @ r4" using s(8) nb by (auto simp: strips)
    have "inp = w0 @ [0x7b] @ w1 @ [0x22, 0x70, 0x69, 0x6e, 0x22] @ w2 @ [0x3a] @ w3 @ [digit] @ w4 @ [0x7d] @ r4"
      by (simp add: w0(2) w1(2) w2(2) w4(2) r3(1))
    moreover have "list_all (list_all blank) [w0, w1, w2, w3, w4, r4]"
      using w0(1) w1(1) w2(1) r3(2) w4(1) s(9) by (simp add: skip_blanks_Nil)
    ultimately show ?thesis using s(1,6,7) by blast
  qed
  show ?l if ?r
  proof -
    from that obtain w0 w1 w2 w3 w4 w5 digit where s: "schema = 1"
      "list_all blank w0" "list_all blank w1" "list_all blank w2" "list_all blank w3" "list_all blank w4" "list_all blank w5"
      "0x30 \<le> digit" "digit \<le> 0x37"
      and inp: "inp = w0 @ [0x7b] @ w1 @ [0x22, 0x70, 0x69, 0x6e, 0x22] @ w2 @ [0x3a] @ w3 @ [digit] @ w4 @ [0x7d] @ w5"
      by auto
    have "\<not> blank digit" using s(8,9) by (auto simp: blank_def word_le_nat_alt)
    then have d: "skip_blanks (w3 @ [digit] @ w4 @ [0x7d] @ w5) = digit # w4 @ [0x7d] @ w5"
      using s(5) by (simp add: skip_blanks_dropWhile list_all_iff dropWhile_append)
    have h: "\<not> is_ascii_digit (hd (w4 @ [0x7d] @ w5))"
      using s(6) by (cases w4) (auto simp: is_ascii_digit_def blank_def)
    have e: "strip_prefix [0x7b] (skip_blanks inp) = Some (w1 @ [0x22, 0x70, 0x69, 0x6e, 0x22] @ w2 @ [0x3a] @ w3 @ [digit] @ w4 @ [0x7d] @ w5)"
      "strip_prefix [0x22, 0x70, 0x69, 0x6e, 0x22] (skip_blanks (w1 @ [0x22, 0x70, 0x69, 0x6e, 0x22] @ w2 @ [0x3a] @ w3 @ [digit] @ w4 @ [0x7d] @ w5)) = Some (w2 @ [0x3a] @ w3 @ [digit] @ w4 @ [0x7d] @ w5)"
      "strip_prefix [0x3a] (skip_blanks (w2 @ [0x3a] @ w3 @ [digit] @ w4 @ [0x7d] @ w5)) = Some (w3 @ [digit] @ w4 @ [0x7d] @ w5)"
      "strip_prefix [0x7d] (skip_blanks (w4 @ [0x7d] @ w5)) = Some w5"
      unfolding inp using s nb by (subst strips; fastforce)+
    show ?thesis unfolding validate_ask_input_def
      using e d h s by (simp add: skip_blanks_Nil)
  qed
qed

end
