(* ===== verification/Run.thy ===== *)
theory Run
  imports Flow Device Harvest Snapshot Monitor Run_Machine
begin

text \<open>
  The run workflow of \<open>esper-runtime/src/run/mod.rs\<close>: the caller-owned state, one handler per state of the
  machine, the rollover with its stored fold, and the loop that dispatches on the machine's
  position. Every handler is a flow: it asks for its activities, and it ends the run through the
  terminal record, through a continuation or through an error.

  The scratch buffers of the state (\<open>io\<close>, \<open>snapshot\<close>) are not part of the model's state: a payload is
  encoded into a zeroed page of the same size and only the bytes written are used. The allocator
  of effect ids belongs to the kernel the workflow runs on, so it is a parameter.
\<close>

section \<open>State\<close>

definition max_repairs :: u8 where "max_repairs = 3"
definition max_transient_attempts :: u8 where "max_transient_attempts = 3"
definition max_snapshot_bytes :: nat where "max_snapshot_bytes = 6 * snapshot_chunk"

text \<open>The effect allocator: one per run, handing out sequence numbers until it refuses.\<close>

record 'al kernel =
  k_for_run :: "u64 \<Rightarrow> 'al"
  k_allocate :: "'al \<Rightarrow> (u32 \<times> 'al) option"

text \<open>\<open>Buf<N>::of\<close> and \<open>Buf<N>::prefix\<close>.\<close>

definition buf_of :: "nat \<Rightarrow> bytes \<Rightarrow> bytes option" where
  "buf_of n bs = (if length bs \<le> n then Some bs else None)"

definition buf_prefix :: "nat \<Rightarrow> bytes \<Rightarrow> bytes" where
  "buf_prefix n bs = take n bs"

definition run_text :: "bytes \<Rightarrow> runtime_error + bytes" where
  "run_text bs = ok_or RE_BadFrame (buf_of output_cap bs)"

record run_call =
  ca_tool :: u8
  ca_args :: bytes
  ca_digest :: u64
  ca_tool_args :: tool_args

record run_intent =
  it_seq :: u32
  it_tool :: u8
  it_args :: bytes
  it_digest :: u64
  it_tool_args :: tool_args
  it_write :: bool
  it_attempt :: u8
  it_t0 :: "u64 option"

record run_ask =
  ak_prompt :: bytes
  ak_schema :: u8

record 'al run_data =
  rs_seed :: run_seed
  rs_sm :: run_state
  rs_budget :: budget
  rs_monitor :: monitor
  rs_allocator :: 'al
  rs_repair_used :: u8
  rs_turns_used :: u32
  rs_mutations_used :: u32
  rs_last_observation :: "bytes option"
  rs_last_repair_variant :: "string option"
  rs_call :: "run_call option"
  rs_intent :: "run_intent option"
  rs_step :: "step_record option"
  rs_ask :: "run_ask option"
  rs_finish :: "bytes option"
  rs_compact :: "compact_state option"
  rs_fold :: compact_state
  rs_fold_fault :: "error option"
  rs_harvester :: harvester
  rs_frame_seq :: u32
  rs_prompt_bytes :: u64

type_synonym ('al, 'a) run_flow = "('al run_data ending, 'a) flow"

definition no_provenance :: provenance where
  "no_provenance = \<lparr>pv_goal = None, pv_run = None, pv_beat = Beat 0\<rparr>"

definition version_set_of :: "run_seed \<Rightarrow> version_set" where
  "version_set_of s =
     \<lparr>v_workflow = ucast (sd_workflow_version s), v_model = Digest (sd_model_bundle s),
      v_catalog = Digest 0, v_policy = Digest 0\<rparr>"

text \<open>The state of a seed, \<open>RunState::new\<close> being that of the default seed under run 0.\<close>

definition run_data_of :: "'al kernel \<Rightarrow> run_seed \<Rightarrow> 'al run_data" where
  "run_data_of k s =
     \<lparr>rs_seed = s, rs_sm = S_Recover, rs_budget = starting_budget s, rs_monitor = monitor_new,
      rs_allocator = k_for_run k (run_id_get (sd_id s)), rs_repair_used = 0, rs_turns_used = 0,
      rs_mutations_used = 0, rs_last_observation = None, rs_last_repair_variant = None,
      rs_call = None, rs_intent = None, rs_step = None, rs_ask = None, rs_finish = None,
      rs_compact = None,
      rs_fold = compact_state_new (Digest (run_id_get (sd_id s))) (starting_budget s) (version_set_of s),
      rs_fold_fault = None, rs_harvester = harvester_new no_provenance, rs_frame_seq = 0,
      rs_prompt_bytes = 0\<rparr>"

definition run_data_new :: "'al kernel \<Rightarrow> 'al run_data" where
  "run_data_new k = run_data_of k default_slice"

definition fold_frame :: "frame_summary \<Rightarrow> 'al run_data \<Rightarrow> 'al run_data" where
  "fold_frame f st =
     (let st' =
        (if sd_context_budget_bytes (rs_seed st) \<noteq> None \<and> rs_fold_fault st = None
         then (case compact [f] default_policy (rs_fold st) of
                 (folded, Inl e) \<Rightarrow> st\<lparr>rs_fold := folded, rs_fold_fault := Some e\<rparr>
               | (folded, Inr _) \<Rightarrow> st\<lparr>rs_fold := folded\<rparr>)
         else st)
      in st'\<lparr>rs_frame_seq := saturating_add (rs_frame_seq st') 1\<rparr>)"

definition simple_frame ::
  "u32 \<Rightarrow> record_kind \<Rightarrow> u8 \<Rightarrow> digest \<Rightarrow> step_outcome \<Rightarrow> progress_delta \<Rightarrow> bytes \<Rightarrow> frame_summary" where
  "simple_frame seq kind tool d outc progress body =
     \<lparr>fr_seq = seq, fr_kind = kind, fr_tool = ToolId tool, fr_args_digest = d, fr_outcome = outc,
      fr_progress = progress, fr_payload = body, fr_pending_approval = False,
      fr_pending_verification = False\<rparr>"

definition fold_simple ::
  "record_kind \<Rightarrow> u8 \<Rightarrow> digest \<Rightarrow> step_outcome \<Rightarrow> progress_delta \<Rightarrow> bytes \<Rightarrow> 'al run_data \<Rightarrow> 'al run_data" where
  "fold_simple kind tool d outc progress body st =
     fold_frame (simple_frame (rs_frame_seq st) kind tool d outc progress body) st"

definition run_reset :: "'al kernel \<Rightarrow> run_seed \<Rightarrow> 'al run_data" where
  "run_reset k s = fold_frame (simple_frame 0 K_RunSeed 0 (Digest 0) O_Ok P_NoProgress []) (run_data_of k s)"

definition run_harvest ::
  "'al run_data \<Rightarrow> goal_id \<Rightarrow> terminal_status \<Rightarrow> bytes \<Rightarrow> runtime_error + memory_entry option list" where
  "run_harvest st goal status summary =
     map_err RE_Core (harvester_finish (rs_harvester st) goal status summary)"

definition run_advance :: "run_event \<Rightarrow> 'al run_data \<Rightarrow> runtime_error + 'al run_data" where
  "run_advance e st =
     and_then (map_err (\<lambda>_. RE_IllegalTransition) (run_transition (rs_sm st) e)) (\<lambda>s. Inr (st\<lparr>rs_sm := s\<rparr>))"

definition run_repair_hint :: "'al run_data \<Rightarrow> prompt_repair option" where
  "run_repair_hint st =
     (case checked_sub (rs_repair_used st) 1 of
        None \<Rightarrow> None
      | Some _ \<Rightarrow>
          map_option (\<lambda>v. \<lparr>pr_attempt = rs_repair_used st, pr_variant = v\<rparr>) (rs_last_repair_variant st))"

definition run_prior_ctx :: "'al run_data \<Rightarrow> prior_ctx option" where
  "run_prior_ctx st =
     (case (sd_parent (rs_seed st), rs_compact st) of
        (Some l, Some c) \<Rightarrow>
          Some \<lparr>pc_epoch = li_continued_at_frame l,
                pc_failed_paths = u8_or_max (length (items (cs_failed c))),
                pc_pending = u8_or_max (length (items (cs_pending c))),
                pc_facts = u8_or_max (length (items (cs_facts c)))\<rparr>
      | _ \<Rightarrow> None)"

definition budget_exhausted_summary :: "'al run_data \<Rightarrow> string \<Rightarrow> runtime_error + bytes" where
  "budget_exhausted_summary st u =
     (if u = ''model_turns''
      then run_text (str_bytes ''budget exhausted after '' @ decimal (unat (rs_turns_used st)) @ str_bytes '' model turns'')
      else if u = ''mutations''
      then run_text (str_bytes ''budget exhausted after '' @ decimal (unat (rs_mutations_used st)) @ str_bytes '' mutations'')
      else run_text (str_bytes ''budget exhausted: '' @ str_bytes u))"

section \<open>Activities and endings\<close>

text \<open>One activity of the workflow: a recorded failure surfaces as the error of its fault, an answer
  that does not decode as a wire error.\<close>

definition activity :: "u16 \<Rightarrow> bytes \<Rightarrow> (bytes \<Rightarrow> wire_error + 'a) \<Rightarrow> ('s ending, 'a) flow" where
  "activity k i dec =
     Act k i (\<lambda>a. case a of
       Ans_Completed p \<Rightarrow> attempt (map_err RE_Wire (dec p))
     | Ans_Failed p \<Rightarrow> Stop (Faulted (fault_error p)))"

text \<open>Encoding into the page: the bytes written.\<close>

definition encoded :: "(bytes \<Rightarrow> wire_error + writer) \<Rightarrow> runtime_error + bytes" where
  "encoded enc =
     and_then (map_err RE_Wire (enc (replicate page_record_max 0)))
       (\<lambda>(out, n). ok_or RE_BadFrame (slice out 0 n))"

definition terminate ::
  "terminal_status \<Rightarrow> bytes \<Rightarrow> bytes \<Rightarrow> 'al run_data \<Rightarrow> ('al, 'a) run_flow" where
  "terminate status reason summary st =
     flow_bind (attempt (encoded (terminal_encode
         \<lparr>tr_status = status, tr_reason = take max_reason reason, tr_summary = summary\<rparr>)))
       (\<lambda>record. Stop (if status = T_Completed then Completed record st else Failed record st))"

definition degrade ::
  "terminal_status \<Rightarrow> bytes \<Rightarrow> bytes \<Rightarrow> 'al run_data \<Rightarrow> ('al, 'a) run_flow" where
  "degrade status reason summary st =
     flow_bind (attempt (run_advance Ev_DegradedCommitted st)) (terminate status reason summary)"

section \<open>The parent's fold\<close>

fun load_chunks :: "u64 \<Rightarrow> nat \<Rightarrow> nat list \<Rightarrow> bytes \<Rightarrow> ('s ending, bytes) flow" where
  "load_chunks d len [] buf = Ret buf"
| "load_chunks d len (index # rest) buf =
     flow_bind (attempt (ok_or RE_JournalCorrupt (try_from index))) (\<lambda>i.
     flow_bind (activity snap_load_kind (snapshot_key d i) chunk_decode) (\<lambda>bytes.
       let at = index * snapshot_chunk; expected = min (len - at) snapshot_chunk in
       if length bytes \<noteq> expected then Stop (Faulted RE_JournalCorrupt)
       else flow_bind (attempt (ok_or RE_JournalCorrupt (splice buf at bytes))) (load_chunks d len rest)))"

fun load_items :: "u64 \<Rightarrow> nat list \<Rightarrow> ('s ending, memory_entry list) flow" where
  "load_items d [] = Ret []"
| "load_items d (index # rest) =
     flow_bind (attempt (ok_or RE_JournalCorrupt (checked_add harvest_item_base (of_nat index)))) (\<lambda>i.
     flow_bind (activity snap_load_kind (snapshot_key d i) chunk_decode) (\<lambda>bytes.
     flow_bind (attempt (map_err RE_Core (decode_entry bytes))) (\<lambda>e.
     flow_bind (load_items d rest) (\<lambda>es. Ret (e # es)))))"

definition load_snapshot :: "snapshot_ref \<Rightarrow> 'al run_data \<Rightarrow> ('al, 'al run_data) run_flow" where
  "load_snapshot snap st =
     (let len = unat (sr_len snap); count = unat (sr_harvest snap) in
      if max_snapshot_bytes < len then Stop (Faulted RE_JournalCorrupt)
      else flow_bind (load_chunks (sr_digest snap) len [0..<ref_chunks snap] (replicate max_snapshot_bytes 0)) (\<lambda>buf.
           flow_bind (attempt (ok_or RE_JournalCorrupt (slice buf 0 len))) (\<lambda>bytes.
           if fnv1a64 bytes \<noteq> sr_digest snap then Stop (Faulted RE_JournalCorrupt)
           else flow_bind (attempt (map_err RE_Core (snapshot_decode bytes))) (\<lambda>folded.
             if max_harvest < count then Stop (Faulted RE_JournalCorrupt)
             else flow_bind (load_items (sr_digest snap) [0..<count]) (\<lambda>carried.
               flow_bind (if carried = [] then Ret (rs_harvester st)
                          else attempt (map_err RE_Core (harvester_resume no_provenance carried))) (\<lambda>hv.
               Ret (st\<lparr>rs_harvester := hv, rs_compact := Some folded, rs_fold := folded\<rparr>)))))))"

section \<open>Rollover\<close>

text \<open>A key and its value in one page.\<close>

definition keyed :: "bytes \<Rightarrow> bytes \<Rightarrow> runtime_error + bytes" where
  "keyed key chunk =
     (if length chunk \<le> page_record_max - snapshot_key_bytes then Inr (key @ chunk) else Inl RE_BadFrame)"

fun store_chunks :: "u64 \<Rightarrow> bytes \<Rightarrow> nat list \<Rightarrow> ('s ending, unit) flow" where
  "store_chunks d bytes [] = Ret ()"
| "store_chunks d bytes (index # rest) =
     (let at = index * snapshot_chunk; end_at = min (at + snapshot_chunk) (length bytes) in
      flow_bind (attempt (ok_or RE_BadFrame (try_from index))) (\<lambda>i.
      flow_bind (attempt (ok_or RE_BadFrame (slice bytes at end_at))) (\<lambda>chunk.
      flow_bind (attempt (keyed (snapshot_key d i) chunk)) (\<lambda>inp.
      flow_bind (activity snap_store_kind inp stored_decode) (\<lambda>_.
        store_chunks d bytes rest)))))"

fun store_items :: "u64 \<Rightarrow> u8 \<Rightarrow> memory_entry list \<Rightarrow> ('s ending, u8) flow" where
  "store_items d harvest [] = Ret harvest"
| "store_items d harvest (e # rest) =
     flow_bind (attempt (ok_or RE_BadFrame (checked_add harvest_item_base harvest))) (\<lambda>i.
     flow_bind (attempt (and_then (map_err RE_Core (encode_entry e (replicate max_entry_bytes 0)))
                          (\<lambda>(out, n). ok_or RE_BadFrame (slice out 0 n)))) (\<lambda>item.
     flow_bind (attempt (keyed (snapshot_key d i) item)) (\<lambda>inp.
     flow_bind (activity snap_store_kind inp stored_decode) (\<lambda>_.
       store_items d (harvest + 1) rest))))"

definition rollover_lineage :: "'al run_data \<Rightarrow> lineage" where
  "rollover_lineage st =
     \<lparr>li_parent_run = sd_id (rs_seed st), li_continued_at_frame = saturating_sub (rs_frame_seq st) 1,
      li_budgets_remaining = rs_budget st, li_versions = version_set_of (rs_seed st)\<rparr>"

definition rollover :: "'al run_data \<Rightarrow> ('al, 'a) run_flow" where
  "rollover st0 =
     (case rs_fold_fault st0 of
        Some e \<Rightarrow> Stop (Faulted (RE_Core e))
      | None \<Rightarrow>
          let st1 = (if rs_compact st0 = None
                     then st0\<lparr>rs_fold := (rs_fold st0)\<lparr>cs_budgets := rs_budget st0\<rparr>\<rparr> else st0) in
          flow_bind (attempt (map_err RE_Core (snapshot_encode (rs_fold st1) (replicate max_snapshot_bytes 0)))) (\<lambda>(out, len).
          flow_bind (attempt (ok_or RE_BadFrame (slice out 0 len))) (\<lambda>bytes.
          flow_bind (attempt (map_err RE_Core (snapshot_verify bytes))) (\<lambda>_.
          let d = fnv1a64 bytes in
          flow_bind (attempt (map_err RE_Core (continue_as_new (rs_fold st1) (rollover_lineage st1)))) (\<lambda>continued.
          flow_bind (store_chunks d bytes [0..<(len + (snapshot_chunk - 1)) div snapshot_chunk]) (\<lambda>_.
          let st2 = st1\<lparr>rs_harvester := harvester_seal (rs_harvester st1)\<rparr> in
          flow_bind (store_items d 0 (harvester_kept (rs_harvester st2))) (\<lambda>harvest.
          flow_bind (attempt (ok_or RE_BadFrame (try_from len))) (\<lambda>len16.
          flow_bind (attempt (encoded (run_start_encode
              \<lparr>st_seed = seed_child (rs_seed st2) (ct_lineage continued),
               st_snapshot = Some \<lparr>sr_digest = d, sr_len = len16, sr_harvest = harvest\<rparr>\<rparr>))) (\<lambda>inp.
          Stop (Continued inp st2))))))))))"

section \<open>The handlers\<close>

definition gather :: "'al run_data \<Rightarrow> ('al, 'al run_data) run_flow" where
  "gather st =
     (if sd_context_budget_bytes (rs_seed st) = Some 0
      then flow_bind (attempt (run_advance Ev_BudgetExhausted st))
             (degrade T_BudgetExhausted (str_bytes ''context_budget_exhausted'')
                (str_bytes ''context budget exhausted; no rollover possible''))
      else case exhausted_unit (rs_budget st) of
        Some u \<Rightarrow>
          flow_bind (attempt (run_advance Ev_BudgetExhausted st)) (\<lambda>st1.
          flow_bind (attempt (ok_or RE_BadFrame
              (buf_of max_reason (str_bytes (budget_unit_name u @ ''_exhausted''))))) (\<lambda>reason.
          flow_bind (attempt (budget_exhausted_summary st1 (budget_unit_name u))) (\<lambda>summary.
            degrade T_BudgetExhausted reason summary st1)))
      | None \<Rightarrow>
          flow_bind (attempt (run_advance Ev_BudgetsClear st)) (\<lambda>st1.
            case sd_context_budget_bytes (rs_seed st1) of
              Some budget \<Rightarrow>
                if should_compact (rs_prompt_bytes st1) budget default_policy then rollover st1 else Ret st1
            | None \<Rightarrow> Ret st1))"

datatype classified =
    Cl_Call run_call
  | Cl_Ask run_ask
  | Cl_Finish bytes
  | Cl_Invalid repair_variant

definition classify :: "bytes \<Rightarrow> classified" where
  "classify line =
     (case decode_line line of
        Inr (Dec_Call call) \<Rightarrow>
          (case buf_of output_cap (tl_args_bytes call) of
             None \<Rightarrow> Cl_Invalid RV_InvalidArgs
           | Some args \<Rightarrow>
               Cl_Call \<lparr>ca_tool = tool_id_get (tl_tool call), ca_args = args,
                        ca_digest = digest_get (tl_args_digest call), ca_tool_args = tl_args call\<rparr>)
      | Inr (Dec_Ask ask) \<Rightarrow>
          (case buf_of output_cap (ir_prompt ask) of
             None \<Rightarrow> Cl_Invalid RV_Malformed
           | Some prompt \<Rightarrow> Cl_Ask \<lparr>ak_prompt = prompt, ak_schema = ir_response_schema_id ask\<rparr>)
      | Inr (Dec_Finish answer) \<Rightarrow>
          (case buf_of output_cap (fa_summary answer) of
             None \<Rightarrow> Cl_Invalid RV_Malformed
           | Some summary \<Rightarrow> Cl_Finish summary)
      | Inl e \<Rightarrow>
          Cl_Invalid (case error_repair_variant e of Some v \<Rightarrow> v | None \<Rightarrow> RV_Malformed))"

definition infer_request_of :: "'al run_data \<Rightarrow> infer_request" where
  "infer_request_of st =
     \<lparr>iq_settings = sd_inference (rs_seed st), iq_turns_left = b_model_turns (rs_budget st),
      iq_mutations_left = b_mutations (rs_budget st), iq_last_observation = rs_last_observation st,
      iq_repair = run_repair_hint st, iq_prior = run_prior_ctx st,
      iq_brief = map_option brief_as_bytes (sd_brief (rs_seed st))\<rparr>"

text \<open>What the decision does to the state, and the event it fires.\<close>

definition decided :: "classified \<Rightarrow> 'al run_data \<Rightarrow> runtime_error + 'al run_data" where
  "decided c st =
     (case c of
        Cl_Call call \<Rightarrow> run_advance Ev_DecodeCall (st\<lparr>rs_call := Some call\<rparr>)
      | Cl_Ask ask \<Rightarrow> run_advance Ev_DecodeAsk (st\<lparr>rs_ask := Some ask\<rparr>)
      | Cl_Finish summary \<Rightarrow> run_advance Ev_DecodeFinish (st\<lparr>rs_finish := Some summary\<rparr>)
      | Cl_Invalid variant \<Rightarrow>
          run_advance Ev_DecodeMalformed
            (st\<lparr>rs_repair_used := rs_repair_used st + 1,
                rs_last_repair_variant := Some (case variant of
                  RV_Malformed \<Rightarrow> ''malformed'' | RV_InvalidArgs \<Rightarrow> ''invalid_args'')\<rparr>))"

definition infer_turn :: "'al run_data \<Rightarrow> ('al, 'al run_data) run_flow" where
  "infer_turn st =
     flow_bind (attempt (encoded (infer_request_encode (infer_request_of st)))) (\<lambda>inp.
     flow_bind (activity infer_kind inp inferred_decode) (\<lambda>answer.
     let st1 = st\<lparr>rs_prompt_bytes := saturating_add (rs_prompt_bytes st) (ucast (in_prompt_bytes answer))\<rparr>;
         line = in_line answer in
     flow_bind (attempt (map_err (\<lambda>_. RE_JournalCorrupt) (consume_turn (rs_budget st1)))) (\<lambda>b.
     let st2 = st1\<lparr>rs_budget := b, rs_turns_used := rs_turns_used st1 + 1\<rparr> in
     attempt (decided (classify line)
       (fold_simple K_ModelDecision 0 (digest_of_bytes line) O_Ok P_NoProgress [] st2)))))"

definition repair_turn :: "'al run_data \<Rightarrow> ('al, 'al run_data) run_flow" where
  "repair_turn st =
     (if rs_repair_used st < max_repairs \<and> 0 < b_model_turns (rs_budget st)
      then attempt (run_advance Ev_RepairAvailable st)
      else flow_bind (attempt (run_advance Ev_RepairExhausted st)) (\<lambda>st1.
        if b_model_turns (rs_budget st1) = 0
        then flow_bind (attempt (budget_exhausted_summary st1 ''model_turns'')) (\<lambda>summary.
               degrade T_BudgetExhausted (str_bytes ''model_turns_exhausted'') summary st1)
        else flow_bind (attempt (run_text (str_bytes ''model output invalid after '' @
                 decimal (unat (saturating_sub (rs_repair_used st1) 1)) @ str_bytes '' repair turns''))) (\<lambda>summary.
               degrade T_ModelInvalid (str_bytes ''repair_budget_exhausted'') summary st1)))"

fun denial_reason :: "tool_args \<Rightarrow> string" where
  "denial_reason (GpioPinRead _) = ''pin_not_in_read_capabilities''"
| "denial_reason (GpioPinWrite _ _) = ''pin_not_in_write_capabilities''"
| "denial_reason (SensorSampleRead _) = ''sensor_not_in_capabilities''"
| "denial_reason TimerUptimeRead = ''timer_not_permitted''"
| "denial_reason (TimerDelayWait _) = ''timer_not_permitted''"
| "denial_reason (DeviceStatusReport _) = ''status_not_permitted''"

fun denial_summary :: "tool_args \<Rightarrow> runtime_error + bytes" where
  "denial_summary (GpioPinRead p) =
     run_text (str_bytes ''read of pin '' @ decimal (unat (pin_get p)) @ str_bytes '' denied by policy'')"
| "denial_summary (GpioPinWrite p _) =
     run_text (str_bytes ''write to pin '' @ decimal (unat (pin_get p)) @ str_bytes '' denied by policy'')"
| "denial_summary (SensorSampleRead v) =
     run_text (str_bytes ''read of sensor '' @ decimal (unat v) @ str_bytes '' denied by policy'')"
| "denial_summary TimerUptimeRead = run_text (str_bytes ''uptime read denied by policy'')"
| "denial_summary (TimerDelayWait _) = run_text (str_bytes ''delay wait denied by policy'')"
| "denial_summary (DeviceStatusReport _) = run_text (str_bytes ''status report denied by policy'')"

text \<open>Lower-case hexadecimal without leading zeros, as \<open>{:x}\<close> prints it.\<close>

definition hex_digit :: "nat \<Rightarrow> u8" where
  "hex_digit n = (if n < 10 then 0x30 + of_nat n else 0x57 + of_nat n)"

fun hexadecimal :: "nat \<Rightarrow> bytes" where
  "hexadecimal n = (if n < 16 then [hex_digit n] else hexadecimal (n div 16) @ [hex_digit (n mod 16)])"

declare hexadecimal.simps [simp del]

definition path_ruled_out :: "'al run_data \<Rightarrow> run_call \<Rightarrow> bool" where
  "path_ruled_out st call \<longleftrightarrow>
     (case rs_compact st of
        None \<Rightarrow> False
      | Some c \<Rightarrow> list_ex (\<lambda>path. fp_tool path = ToolId (ca_tool call) \<and>
                                  fp_args_digest path = Digest (ca_digest call)) (items (cs_failed c)))"

text \<open>The refusals of \<open>Authorize\<close> after the event \<open>Denied\<close>.\<close>

definition deny ::
  "terminal_status \<Rightarrow> string \<Rightarrow> runtime_error + bytes \<Rightarrow> 'al run_data \<Rightarrow> ('al, 'a) run_flow" where
  "deny status reason summary st =
     flow_bind (attempt (run_advance Ev_Denied st)) (\<lambda>st1.
     flow_bind (attempt summary) (\<lambda>summary. degrade status (str_bytes reason) summary st1))"

definition probe_write :: "tool_args \<Rightarrow> 'al run_data \<Rightarrow> ('al, unit) run_flow" where
  "probe_write args st =
     (case args of
        GpioPinWrite p _ \<Rightarrow>
          flow_bind (activity probe_kind [pin_get p] probed_decode) (\<lambda>output.
            if \<not> output
            then deny T_Denied ''pin_direction_denied''
                   (run_text (str_bytes ''write to pin '' @ decimal (unat (pin_get p)) @
                      str_bytes '' denied by device direction'')) st
            else Ret ())
      | _ \<Rightarrow> Ret ())"

text \<open>The intent of an authorized call.\<close>

definition commit_intent :: "run_call \<Rightarrow> bool \<Rightarrow> u32 \<Rightarrow> 'al run_data \<Rightarrow> 'al run_data" where
  "commit_intent call write_call seq st =
     (let st1 = fold_simple K_ToolRequest (ca_tool call) (Digest (ca_digest call)) O_Ok P_NoProgress [] st in
      st1\<lparr>rs_harvester := harvester_request (rs_harvester st1) seq (ToolId (ca_tool call)) (ca_args call),
          rs_intent := Some \<lparr>it_seq = seq, it_tool = ca_tool call, it_args = ca_args call,
            it_digest = ca_digest call, it_tool_args = ca_tool_args call, it_write = write_call,
            it_attempt = 0, it_t0 = None\<rparr>\<rparr>)"

definition spend_mutation :: "bool \<Rightarrow> 'al run_data \<Rightarrow> runtime_error + 'al run_data" where
  "spend_mutation write_call st =
     (if write_call
      then and_then (map_err (\<lambda>_. RE_JournalCorrupt) (consume_mutation (rs_budget st))) (\<lambda>b.
             Inr (st\<lparr>rs_budget := b, rs_mutations_used := rs_mutations_used st + 1\<rparr>))
      else Inr st)"

definition authorize_call :: "'al kernel \<Rightarrow> 'al run_data \<Rightarrow> ('al, 'al run_data) run_flow" where
  "authorize_call k st0 =
     flow_bind (attempt (ok_or RE_IllegalTransition (rs_call st0))) (\<lambda>call.
     let st = st0\<lparr>rs_call := None\<rparr> in
     flow_bind (attempt (ok_or RE_IllegalTransition (lookup_by_id (ToolId (ca_tool call))))) (\<lambda>entry.
     let write_call = (tc_permission entry = Perm_IdempotentWrite) in
     case authorize (sd_capabilities (rs_seed st)) entry (ca_tool_args call) of
       Inl e \<Rightarrow>
         (case e of
            E_PermissionDenied _ _ \<Rightarrow>
              deny T_Denied (denial_reason (ca_tool_args call)) (denial_summary (ca_tool_args call)) st
          | _ \<Rightarrow> Stop (Faulted RE_IllegalTransition))
     | Inr _ \<Rightarrow>
         flow_bind (probe_write (ca_tool_args call) st) (\<lambda>_.
         if write_call \<and> b_mutations (rs_budget st) = 0
         then deny T_BudgetExhausted ''mutations_exhausted'' (Inr (str_bytes ''mutation budget exhausted'')) st
         else if path_ruled_out st call
         then deny T_Stuck ''failed_path_ruled_out''
                (run_text (str_bytes ''parent fold ruled out tool '' @ decimal (unat (ca_tool call)) @
                   str_bytes '' with args digest '' @ hexadecimal (unat (ca_digest call)))) st
         else flow_bind (attempt (ok_or RE_Waymaker (k_allocate k (rs_allocator st)))) (\<lambda>(seq, al).
              flow_bind (attempt (spend_mutation write_call (st\<lparr>rs_allocator := al\<rparr>))) (\<lambda>st1.
              attempt (run_advance Ev_Authorized (commit_intent call write_call seq st1)))))))"

definition await_input :: "'al run_data \<Rightarrow> ('al, 'al run_data) run_flow" where
  "await_input st0 =
     flow_bind (attempt (ok_or RE_IllegalTransition (rs_ask st0))) (\<lambda>ask.
     let st = fold_simple K_ApprovalRequest 0 (digest_of_bytes (ak_prompt ask)) O_Ok P_NoProgress (ak_prompt ask) st0 in
     flow_bind (attempt (encoded (ask_request_encode \<lparr>aq_schema = ak_schema ask, aq_prompt = ak_prompt ask\<rparr>))) (\<lambda>inp.
     flow_bind (activity ask_kind inp ask_input_decode) (\<lambda>bytes.
     flow_bind (attempt (map_err RE_World (validate_ask_input bytes (ak_schema ask)))) (\<lambda>_.
     let d = digest_of_bytes bytes;
         st1 = fold_simple K_ApprovalDecision 0 d O_Ok P_InputReceived [] st in
     attempt (run_advance Ev_InputArrived
       (st1\<lparr>rs_step := Some (step_record_ok (ToolId 0) d P_InputReceived), rs_ask := None\<rparr>))))))"

definition tool_request_of :: "run_intent \<Rightarrow> tool_request" where
  "tool_request_of i =
     \<lparr>tq_seq = it_seq i, tq_attempt = it_attempt i, tq_tool = it_tool i, tq_write = it_write i,
      tq_digest = it_digest i, tq_args = it_args i\<rparr>"

text \<open>What every attempt commits, transient or not.\<close>

definition commit_attempt :: "run_intent \<Rightarrow> observed \<Rightarrow> 'al run_data \<Rightarrow> 'al run_data" where
  "commit_attempt i obs st =
     (let st1 = fold_simple K_ToolObservation (it_tool i) (Digest (it_digest i)) O_Ok
                  (if ob_transient obs \<or> it_write i then P_NoProgress else P_NewEvidence) (ob_outcome obs) st in
      st1\<lparr>rs_harvester := harvester_observation (rs_harvester st1) (it_seq i) (\<not> ob_transient obs) (ob_outcome obs)\<rparr>)"

text \<open>After a transient attempt: the retry under the same effect, or the end of the retries.\<close>

definition retry_attempt :: "run_intent \<Rightarrow> 'al run_data \<Rightarrow> ('al, 'al run_data) run_flow" where
  "retry_attempt i st =
     (if max_transient_attempts \<le> it_attempt i
      then flow_bind (attempt (run_advance Ev_TransientExhausted st)) (\<lambda>st1.
           flow_bind (attempt (run_text (str_bytes ''transient faults exhausted after '' @
               decimal (unat (it_attempt i)) @ str_bytes '' attempts''))) (\<lambda>summary.
           degrade T_Stuck (str_bytes ''transient_attempts_exhausted'') summary st1))
      else attempt (run_advance Ev_TransientRetry (st\<lparr>rs_intent := Some i\<rparr>)))"

definition is_delay :: "tool_args \<Rightarrow> bool" where
  "is_delay a = (case a of TimerDelayWait _ \<Rightarrow> True | _ \<Rightarrow> False)"

definition observe_done :: "run_intent \<Rightarrow> bytes \<Rightarrow> 'al run_data \<Rightarrow> runtime_error + 'al run_data" where
  "observe_done i outc st =
     (if it_write i
      then and_then (if is_delay (it_tool_args i)
                     then and_then (parse_delay_outcome outc) (\<lambda>(t0, _). Inr (i\<lparr>it_t0 := Some t0\<rparr>))
                     else Inr i) (\<lambda>i'.
             run_advance Ev_ObserveOkMutating (st\<lparr>rs_intent := Some i'\<rparr>))
      else run_advance Ev_ObserveDone
             (st\<lparr>rs_step := Some (step_record_ok (ToolId (it_tool i)) (Digest (it_digest i)) P_NewEvidence)\<rparr>))"

definition observe_attempt :: "'al run_data \<Rightarrow> ('al, 'al run_data) run_flow" where
  "observe_attempt st0 =
     flow_bind (attempt (ok_or RE_IllegalTransition (rs_intent st0))) (\<lambda>i0.
     let st = st0\<lparr>rs_intent := None\<rparr>;
         i = i0\<lparr>it_attempt := saturating_add (it_attempt i0) 1\<rparr> in
     flow_bind (attempt (encoded (tool_request_encode (tool_request_of i)))) (\<lambda>inp.
     flow_bind (activity tool_kind inp observed_decode) (\<lambda>obs.
     let st1 = commit_attempt i obs st in
     if ob_transient obs then retry_attempt i st1
     else attempt (observe_done i (ob_outcome obs)
            (st1\<lparr>rs_last_observation := Some (buf_prefix last_observation_cap (ob_outcome obs))\<rparr>)))))"

definition intent_check :: "run_intent \<Rightarrow> runtime_error + check" where
  "intent_check i =
     (case it_tool_args i of
        GpioPinWrite p l \<Rightarrow> Inr (Check_Pin (pin_get p) (l = L_High))
      | TimerDelayWait ms \<Rightarrow>
          and_then (ok_or RE_IllegalTransition (it_t0 i)) (\<lambda>t0. Inr (Check_Clock (saturating_add t0 (ucast ms))))
      | _ \<Rightarrow> Inl RE_IllegalTransition)"

text \<open>What a verification commits.\<close>

definition commit_verification :: "run_intent \<Rightarrow> bool \<Rightarrow> 'al run_data \<Rightarrow> 'al run_data" where
  "commit_verification i passed st =
     (let st1 = st\<lparr>rs_harvester := harvester_verification (rs_harvester st) (it_seq i) passed\<rparr>;
          st2 = fold_simple K_VerificationResult (it_tool i) (Digest (it_digest i))
                  (if passed then O_Ok else O_Failed C_VerificationFailed)
                  (if passed then P_StateChanged else P_NoProgress) [] st1 in
      st2\<lparr>rs_step := Some (if passed
            then step_record_ok (ToolId (it_tool i)) (Digest (it_digest i)) P_StateChanged
            else step_record_failed (ToolId (it_tool i)) (Digest (it_digest i)) C_VerificationFailed P_NoProgress)\<rparr>)"

definition verify_intent :: "'al run_data \<Rightarrow> ('al, 'al run_data) run_flow" where
  "verify_intent st =
     flow_bind (attempt (ok_or RE_IllegalTransition (rs_intent st))) (\<lambda>i.
     flow_bind (attempt (intent_check i)) (\<lambda>c.
     flow_bind (attempt (encoded (verify_request_encode \<lparr>vq_seq = it_seq i, vq_check = c\<rparr>))) (\<lambda>inp.
     flow_bind (activity verify_kind inp verified_decode) (\<lambda>seen.
     let passed = check_passes c seen in
     attempt (run_advance (if passed then Ev_VerifyPass else Ev_VerifyFail) (commit_verification i passed st))))))"

text \<open>\<open>str::contains\<close> and the space-to-underscore copy of a monitor reason.\<close>

fun contains_text :: "string \<Rightarrow> string \<Rightarrow> bool" where
  "contains_text p [] \<longleftrightarrow> p = []"
| "contains_text p (c # cs) \<longleftrightarrow> prefix p (c # cs) \<or> contains_text p cs"

definition underscored :: "string \<Rightarrow> bytes" where
  "underscored s = str_bytes (map (\<lambda>c. if c = CHR '' '' then CHR ''_'' else c) s)"

definition degrade_text ::
  "'al run_data \<Rightarrow> terminal_status \<Rightarrow> string \<Rightarrow> run_intent option \<Rightarrow> runtime_error + (bytes \<times> bytes)" where
  "degrade_text st status why i =
     (if status = T_BudgetExhausted
      then and_then (ok_or RE_BadFrame (buf_of max_reason (str_bytes (why @ ''_exhausted'')))) (\<lambda>reason.
           and_then (budget_exhausted_summary st why) (\<lambda>summary. Inr (reason, summary)))
      else if status = T_Stuck \<and> contains_text ''three identical'' why
      then and_then
             (case map_option it_tool_args i of
                Some (GpioPinWrite p l) \<Rightarrow>
                  run_text (str_bytes ''pin '' @ decimal (unat (pin_get p)) @ str_bytes '' did not reach '' @
                    str_bytes (level_name l) @ str_bytes '' after 3 attempts'')
              | Some (TimerDelayWait ms) \<Rightarrow>
                  run_text (str_bytes ''clock did not advance by '' @ decimal (unat ms) @
                    str_bytes ''ms after 3 attempts'')
              | _ \<Rightarrow> ok_or RE_BadFrame (buf_of output_cap
                       (str_bytes ''verified mutation did not take effect after 3 attempts''))) (\<lambda>summary.
           and_then (ok_or RE_BadFrame (buf_of max_reason
               (str_bytes ''three_identical_verification_failures''))) (\<lambda>reason. Inr (reason, summary)))
      else and_then (ok_or RE_BadFrame (buf_of max_reason (underscored why))) (\<lambda>reason.
           and_then (ok_or RE_BadFrame (buf_of output_cap (underscored why))) (\<lambda>summary.
             Inr (reason, summary))))"

definition account_step :: "'al run_data \<Rightarrow> ('al, 'al run_data) run_flow" where
  "account_step st0 =
     flow_bind (attempt (ok_or RE_IllegalTransition (rs_step st0))) (\<lambda>step.
     let i = rs_intent st0;
         st1 = st0\<lparr>rs_step := None, rs_intent := None\<rparr> in
     case monitor_observe (rs_monitor st1) step (rs_budget st1) of
       (m, verdict) \<Rightarrow>
         let st = st1\<lparr>rs_monitor := m\<rparr> in
         (case verdict of
            monitor_verdict.Continue \<Rightarrow> attempt (run_advance Ev_GuardsClear st)
          | Degrade status why \<Rightarrow>
              flow_bind (attempt (run_advance Ev_GuardFired st)) (\<lambda>st2.
              flow_bind (attempt (degrade_text st2 status why i)) (\<lambda>(reason, summary).
              degrade status reason summary st2))))"

definition finalize_run :: "'al run_data \<Rightarrow> ('al, 'al run_data) run_flow" where
  "finalize_run st =
     flow_bind (attempt (ok_or RE_IllegalTransition (rs_finish st))) (\<lambda>summary.
     flow_bind (attempt (run_advance Ev_FinalizeCommitted (st\<lparr>rs_finish := None\<rparr>)))
       (terminate T_Completed (str_bytes ''model_finished'') summary))"

section \<open>The loop\<close>

definition run_dispatch :: "'al kernel \<Rightarrow> 'al run_data \<Rightarrow> ('al, 'al run_data) run_flow" where
  "run_dispatch k st =
     (case rs_sm st of
        S_Gather \<Rightarrow> gather st
      | S_Infer \<Rightarrow> infer_turn st
      | S_Repair \<Rightarrow> repair_turn st
      | S_Authorize \<Rightarrow> authorize_call k st
      | S_AwaitInput \<Rightarrow> await_input st
      | S_Observe \<Rightarrow> observe_attempt st
      | S_Verify \<Rightarrow> verify_intent st
      | S_Account \<Rightarrow> account_step st
      | S_Finalize \<Rightarrow> finalize_run st
      | _ \<Rightarrow> Stop (Faulted RE_IllegalTransition))"

text \<open>Every handler that returns moves the machine on, and only an inference takes a turn: the loop ends
  because a round trip to \<open>Gather\<close> or \<open>Infer\<close> has spent one.\<close>

lemma fold_frame_keeps [simp]:
  "rs_seed (fold_frame f st) = rs_seed st" "rs_sm (fold_frame f st) = rs_sm st"
  "rs_budget (fold_frame f st) = rs_budget st" "rs_monitor (fold_frame f st) = rs_monitor st"
  "rs_allocator (fold_frame f st) = rs_allocator st" "rs_repair_used (fold_frame f st) = rs_repair_used st"
  "rs_turns_used (fold_frame f st) = rs_turns_used st"
  "rs_mutations_used (fold_frame f st) = rs_mutations_used st"
  "rs_last_observation (fold_frame f st) = rs_last_observation st"
  "rs_last_repair_variant (fold_frame f st) = rs_last_repair_variant st"
  "rs_call (fold_frame f st) = rs_call st" "rs_intent (fold_frame f st) = rs_intent st"
  "rs_step (fold_frame f st) = rs_step st" "rs_ask (fold_frame f st) = rs_ask st"
  "rs_finish (fold_frame f st) = rs_finish st" "rs_compact (fold_frame f st) = rs_compact st"
  "rs_harvester (fold_frame f st) = rs_harvester st" "rs_prompt_bytes (fold_frame f st) = rs_prompt_bytes st"
  "rs_frame_seq (fold_frame f st) = saturating_add (rs_frame_seq st) 1"
  by (simp_all add: fold_frame_def Let_def split: prod.splits sum.splits)

lemma fold_simple_keeps [simp]:
  "rs_seed (fold_simple a b c d e f st) = rs_seed st" "rs_sm (fold_simple a b c d e f st) = rs_sm st"
  "rs_budget (fold_simple a b c d e f st) = rs_budget st" "rs_monitor (fold_simple a b c d e f st) = rs_monitor st"
  "rs_allocator (fold_simple a b c d e f st) = rs_allocator st"
  "rs_repair_used (fold_simple a b c d e f st) = rs_repair_used st"
  "rs_turns_used (fold_simple a b c d e f st) = rs_turns_used st"
  "rs_mutations_used (fold_simple a b c d e f st) = rs_mutations_used st"
  "rs_last_observation (fold_simple a b c d e f st) = rs_last_observation st"
  "rs_last_repair_variant (fold_simple a b c d e f st) = rs_last_repair_variant st"
  "rs_call (fold_simple a b c d e f st) = rs_call st" "rs_intent (fold_simple a b c d e f st) = rs_intent st"
  "rs_step (fold_simple a b c d e f st) = rs_step st" "rs_ask (fold_simple a b c d e f st) = rs_ask st"
  "rs_finish (fold_simple a b c d e f st) = rs_finish st" "rs_compact (fold_simple a b c d e f st) = rs_compact st"
  "rs_harvester (fold_simple a b c d e f st) = rs_harvester st"
  "rs_prompt_bytes (fold_simple a b c d e f st) = rs_prompt_bytes st"
  "rs_frame_seq (fold_simple a b c d e f st) = saturating_add (rs_frame_seq st) 1"
  by (simp_all add: fold_simple_def)

text \<open>The edges the workflow takes.\<close>

lemma run_edges [simp]:
  "run_transition S_Recover Ev_JournalValid = Inr S_Gather"
  "run_transition S_Gather Ev_BudgetsClear = Inr S_Infer"
  "run_transition S_Gather Ev_BudgetExhausted = Inr S_Degraded"
  "run_transition S_Infer Ev_DecodeCall = Inr S_Authorize"
  "run_transition S_Infer Ev_DecodeAsk = Inr S_AwaitInput"
  "run_transition S_Infer Ev_DecodeFinish = Inr S_Finalize"
  "run_transition S_Infer Ev_DecodeMalformed = Inr S_Repair"
  "run_transition S_Repair Ev_RepairAvailable = Inr S_Infer"
  "run_transition S_Repair Ev_RepairExhausted = Inr S_Degraded"
  "run_transition S_Authorize Ev_Authorized = Inr S_Observe"
  "run_transition S_Authorize Ev_Denied = Inr S_Degraded"
  "run_transition S_AwaitInput Ev_InputArrived = Inr S_Account"
  "run_transition S_Observe Ev_ObserveOkMutating = Inr S_Verify"
  "run_transition S_Observe Ev_ObserveDone = Inr S_Account"
  "run_transition S_Observe Ev_TransientRetry = Inr S_Observe"
  "run_transition S_Observe Ev_TransientExhausted = Inr S_Degraded"
  "run_transition S_Verify Ev_VerifyPass = Inr S_Account"
  "run_transition S_Verify Ev_VerifyFail = Inr S_Account"
  "run_transition S_Account Ev_GuardsClear = Inr S_Gather"
  "run_transition S_Account Ev_GuardFired = Inr S_Degraded"
  "run_transition S_Finalize Ev_FinalizeCommitted = Inr S_End"
  "run_transition S_Degraded Ev_DegradedCommitted = Inr S_End"
  by (simp_all add: run_transition_Inr_iff run_transitions_def)

lemma run_advance_simps:
  "run_transition (rs_sm st) e = Inr s \<Longrightarrow> run_advance e st = Inr (st\<lparr>rs_sm := s\<rparr>)"
  by (simp add: run_advance_def)

lemma returned_activity [simp]: "x \<in> returned (activity k i dec) \<longleftrightarrow> (\<exists>p. dec p = Inr x)"
proof -
  have "x \<in> returned (case a of Ans_Completed p \<Rightarrow> attempt (map_err RE_Wire (dec p)) | Ans_Failed p \<Rightarrow> Stop (Faulted (fault_error p))) \<longleftrightarrow>
    (\<exists>p. a = Ans_Completed p \<and> dec p = Inr x)" for a
    by (cases a) (auto simp: result_simps)
  then show ?thesis by (auto simp: activity_def)
qed

lemma returned_ends [simp]:
  "returned (terminate status reason summary st) = {}"
  "returned (degrade status reason summary st) = {}"
  "returned (deny status why text st) = {}"
  "returned (rollover st) = {}"
  by (auto simp: terminate_def degrade_def deny_def rollover_def returned_bind Let_def split: option.splits)

definition run_rank :: "run_state \<Rightarrow> nat" where
  "run_rank s =
     (case s of S_Infer \<Rightarrow> 1 | S_Gather \<Rightarrow> 2 | S_Repair \<Rightarrow> 2 | S_Account \<Rightarrow> 3 | S_AwaitInput \<Rightarrow> 4
      | S_Verify \<Rightarrow> 4 | S_Observe \<Rightarrow> 5 | S_Authorize \<Rightarrow> 6 | _ \<Rightarrow> 7)"

definition attempts_left :: "'al run_data \<Rightarrow> nat" where
  "attempts_left st = (case rs_intent st of None \<Rightarrow> 0 | Some i \<Rightarrow> 3 - unat (it_attempt i))"

definition run_order :: "('al run_data \<times> 'al run_data) set" where
  "run_order = inv_image (less_than <*lex*> less_than <*lex*> less_than)
     (\<lambda>st. (unat (b_model_turns (rs_budget st)), run_rank (rs_sm st), attempts_left st))"

lemma wf_run_order: "wf run_order"
  by (auto simp: run_order_def)

lemma turn_taken:
  "consume_turn b = Inr b' \<Longrightarrow> Suc (unat (b_model_turns b')) = unat (b_model_turns b) \<and> b' = b\<lparr>b_model_turns := b_model_turns b - 1\<rparr>"
  by (auto simp: consume_turn_def checked_sub_def unat_sub word_le_nat_alt split: option.splits if_splits)

lemma gather_moves: "st' \<in> returned (gather st) \<Longrightarrow> rs_sm st = S_Gather \<Longrightarrow> st' = st\<lparr>rs_sm := S_Infer\<rparr>"
  by (auto simp: gather_def returned_bind run_advance_simps split: if_splits option.splits)

lemma repair_moves: "st' \<in> returned (repair_turn st) \<Longrightarrow> rs_sm st = S_Repair \<Longrightarrow> st' = st\<lparr>rs_sm := S_Infer\<rparr>"
  by (auto simp: repair_turn_def returned_bind run_advance_simps split: if_splits)

lemma decided_moves:
  "decided c st = Inr st' \<Longrightarrow> rs_sm st = S_Infer \<Longrightarrow> rs_budget st' = rs_budget st"
  by (cases c) (auto simp: decided_def run_advance_simps)

lemma infer_moves:
  "st' \<in> returned (infer_turn st) \<Longrightarrow> rs_sm st = S_Infer \<Longrightarrow>
   Suc (unat (b_model_turns (rs_budget st'))) = unat (b_model_turns (rs_budget st))"
  by (auto simp: infer_turn_def returned_bind Let_def result_simps dest!: decided_moves turn_taken)

lemma gate_cases:
  "authorize c e a = Inr () \<or> authorize c e a = Inl (E_PermissionDenied (ToolId (tc_id e)) (resource_of a))"
  by (simp add: authorize_def)

lemma spend_mutation_keeps:
  assumes "spend_mutation w st = Inr st'"
  shows "rs_sm st' = rs_sm st" "b_model_turns (rs_budget st') = b_model_turns (rs_budget st)"
    "rs_seed st' = rs_seed st"
  using assms by (auto simp: spend_mutation_def consume_mutation_def result_simps split: if_splits option.splits)

lemma commit_intent_keeps [simp]:
  "rs_sm (commit_intent c w q st) = rs_sm st" "rs_budget (commit_intent c w q st) = rs_budget st"
  "rs_seed (commit_intent c w q st) = rs_seed st"
  by (simp_all add: commit_intent_def Let_def)

lemma commit_verification_keeps [simp]:
  "rs_sm (commit_verification i p st) = rs_sm st" "rs_budget (commit_verification i p st) = rs_budget st"
  "rs_seed (commit_verification i p st) = rs_seed st"
  by (simp_all add: commit_verification_def Let_def)

lemma authorize_moves:
  "st' \<in> returned (authorize_call k st) \<Longrightarrow> rs_sm st = S_Authorize \<Longrightarrow>
   rs_sm st' = S_Observe \<and> b_model_turns (rs_budget st') = b_model_turns (rs_budget st)"
proof -
  assume ret: "st' \<in> returned (authorize_call k st)" and sm: "rs_sm st = S_Authorize"
  obtain call entry where c: "rs_call st = Some call" "lookup_by_id (ToolId (ca_tool call)) = Some entry"
    using ret by (auto simp: authorize_call_def returned_bind Let_def result_simps)
  have a: "authorize (sd_capabilities (rs_seed st)) entry (ca_tool_args call) = Inr ()"
    using ret gate_cases [of "sd_capabilities (rs_seed st)" entry "ca_tool_args call"]
    by (auto simp: authorize_call_def c)
  obtain seq al st1 where st1: "spend_mutation (tc_permission entry = Perm_IdempotentWrite)
      (st\<lparr>rs_call := None, rs_allocator := al\<rparr>) = Inr st1"
    "run_advance Ev_Authorized (commit_intent call (tc_permission entry = Perm_IdempotentWrite) seq st1) = Inr st'"
    using ret by (auto simp: authorize_call_def c a returned_bind Let_def result_simps split: if_splits)
  note moved = spend_mutation_keeps [OF st1(1)]
  show ?thesis using st1(2) moved sm by (auto simp: run_advance_simps)
qed

lemma await_moves:
  "st' \<in> returned (await_input st) \<Longrightarrow> rs_sm st = S_AwaitInput \<Longrightarrow>
   rs_sm st' = S_Account \<and> rs_budget st' = rs_budget st"
  by (auto simp: await_input_def returned_bind Let_def result_simps run_advance_simps)

lemma commit_attempt_keeps [simp]:
  "rs_sm (commit_attempt i obs st) = rs_sm st" "rs_budget (commit_attempt i obs st) = rs_budget st"
  "rs_seed (commit_attempt i obs st) = rs_seed st"
  by (simp_all add: commit_attempt_def Let_def)

lemma saturating_succ: "saturating_add (a :: u8) 1 < b \<Longrightarrow> unat (saturating_add a 1) = Suc (unat a)"
  using unsigned_less [of b, where ?'a = nat] by (auto simp: word_less_nat_alt unat_saturating_add)

lemma observe_moves:
  assumes "st' \<in> returned (observe_attempt st)" "rs_sm st = S_Observe"
  shows "rs_budget st' = rs_budget st \<and>
    (rs_sm st' = S_Verify \<or> rs_sm st' = S_Account \<or> rs_sm st' = S_Observe \<and> attempts_left st' < attempts_left st)"
proof -
  obtain i0 obs where i0: "rs_intent st = Some i0"
    and obs: "st' \<in> returned (let i = i0\<lparr>it_attempt := saturating_add (it_attempt i0) 1\<rparr>;
           st1 = commit_attempt i obs (st\<lparr>rs_intent := None\<rparr>) in
       if ob_transient obs then retry_attempt i st1
       else attempt (observe_done i (ob_outcome obs)
            (st1\<lparr>rs_last_observation := Some (buf_prefix last_observation_cap (ob_outcome obs))\<rparr>)))"
    using assms(1) by (auto simp: observe_attempt_def returned_bind Let_def result_simps)
  show ?thesis
  proof (cases "ob_transient obs")
    case True
    have less: "saturating_add (it_attempt i0) 1 < max_transient_attempts"
      and st': "st' = (commit_attempt (i0\<lparr>it_attempt := saturating_add (it_attempt i0) 1\<rparr>) obs (st\<lparr>rs_intent := None\<rparr>))
        \<lparr>rs_intent := Some (i0\<lparr>it_attempt := saturating_add (it_attempt i0) 1\<rparr>), rs_sm := S_Observe\<rparr>"
      using obs True assms(2)
      by (auto simp: retry_attempt_def returned_bind Let_def run_advance_simps split: if_splits)
    have "unat (saturating_add (it_attempt i0) 1) = Suc (unat (it_attempt i0))" using less by (rule saturating_succ)
    moreover have "unat (saturating_add (it_attempt i0) 1) < 3"
      using less by (simp add: word_less_nat_alt max_transient_attempts_def)
    ultimately show ?thesis using st' i0 by (simp add: attempts_left_def)
  next
    case False
    then show ?thesis using obs assms(2)
      by (auto simp: observe_done_def result_simps run_advance_simps Let_def split: if_splits)
  qed
qed

lemma verify_moves:
  "st' \<in> returned (verify_intent st) \<Longrightarrow> rs_sm st = S_Verify \<Longrightarrow>
   rs_sm st' = S_Account \<and> rs_budget st' = rs_budget st"
proof -
  assume ret: "st' \<in> returned (verify_intent st)" and sm: "rs_sm st = S_Verify"
  obtain i c seen where
    "run_advance (if check_passes c seen then Ev_VerifyPass else Ev_VerifyFail)
       (commit_verification i (check_passes c seen) st) = Inr st'"
    using ret by (auto simp: verify_intent_def returned_bind Let_def)
  then show ?thesis using sm by (cases "check_passes c seen") (auto simp: run_advance_simps)
qed

lemma account_moves:
  "st' \<in> returned (account_step st) \<Longrightarrow> rs_sm st = S_Account \<Longrightarrow>
   rs_sm st' = S_Gather \<and> rs_budget st' = rs_budget st"
proof -
  assume ret: "st' \<in> returned (account_step st)" and sm: "rs_sm st = S_Account"
  obtain step where step: "rs_step st = Some step"
    using ret by (auto simp: account_step_def returned_bind result_simps)
  obtain m v where mv: "monitor_observe (rs_monitor st) step (rs_budget st) = (m, v)" by fastforce
  show ?thesis using ret sm by (cases v) (auto simp: account_step_def step mv returned_bind Let_def run_advance_simps)
qed

lemma finalize_moves: "returned (finalize_run st) = {}"
  by (auto simp: finalize_run_def returned_bind)

lemma dispatch_moves: "st' \<in> returned (run_dispatch k st) \<Longrightarrow> (st', st) \<in> run_order"
  by (cases "rs_sm st")
    (auto simp: run_dispatch_def run_order_def run_rank_def finalize_moves attempts_left_def
      dest: gather_moves infer_moves repair_moves authorize_moves await_moves observe_moves verify_moves account_moves)

function run_loop :: "'al kernel \<Rightarrow> 'al run_data \<Rightarrow> ('al, 'a) run_flow" where
  "run_loop k st = flow_bind (run_dispatch k st) (run_loop k)"
  by pat_completeness auto

termination
  by (relation "inv_image run_order snd") (auto simp: wf_run_order intro: dispatch_moves)

declare run_loop.simps [simp del]

definition run_workflow :: "'al kernel \<Rightarrow> bytes \<Rightarrow> ('al, 'a) run_flow" where
  "run_workflow k inp =
     flow_bind (attempt (map_err RE_Wire (run_start_decode inp))) (\<lambda>start.
     let seed = st_seed start in
     flow_bind (attempt (map_err RE_SeedInvalid (seed_validate seed))) (\<lambda>_.
     if (sd_parent seed \<noteq> None) \<noteq> (st_snapshot start \<noteq> None) then Stop (Faulted RE_JournalCorrupt)
     else let st = run_reset k seed in
       flow_bind (case st_snapshot start of None \<Rightarrow> Ret st | Some snap \<Rightarrow> load_snapshot snap st) (\<lambda>st1.
       flow_bind (attempt (run_advance Ev_JournalValid st1)) (run_loop k))))"

end
