(* ===== verification/Run_Safety.thy ===== *)
theory Run_Safety
  imports Run
begin

text \<open>
  What a run does to the world, whatever it is answered. The predicates here speak of histories: the
  activities requested so far, each with its recorded answer. One invariant ties the state of the
  workflow to the history, every handler keeps it, and the loop lifts it to whole runs; the
  properties are what the invariant says of every request and of every ending.
\<close>

section \<open>Histories\<close>

text \<open>The model line an event records, and the last one of a history.\<close>

definition answered_line :: "u16 \<times> bytes \<times> answer \<Rightarrow> bytes option" where
  "answered_line e =
     (case e of (k, _, Ans_Completed p) \<Rightarrow>
        if k = infer_kind
        then (case inferred_decode p of Inl _ \<Rightarrow> None | Inr a \<Rightarrow> Some (in_line a)) else None
      | _ \<Rightarrow> None)"

primrec last_line_rev :: "history \<Rightarrow> bytes option" where
  "last_line_rev [] = None"
| "last_line_rev (e # h) = (case answered_line e of Some l \<Rightarrow> Some l | None \<Rightarrow> last_line_rev h)"

definition last_line :: "history \<Rightarrow> bytes option" where
  "last_line h = last_line_rev (rev h)"

lemma last_line_snoc [simp]:
  "last_line [] = None"
  "last_line (h @ [e]) = (case answered_line e of Some l \<Rightarrow> Some l | None \<Rightarrow> last_line h)"
  by (simp_all add: last_line_def split: option.split)

text \<open>The tool attempt an event records, and the attempt a history ends with.\<close>

definition tool_event :: "u16 \<times> bytes \<times> answer \<Rightarrow> (tool_request \<times> observed) option" where
  "tool_event e =
     (case e of (k, i, Ans_Completed p) \<Rightarrow>
        if k = tool_kind
        then (case (tool_request_decode i, observed_decode p) of
                (Inr q, Inr ob) \<Rightarrow> Some (q, ob) | _ \<Rightarrow> None) else None
      | _ \<Rightarrow> None)"

definition last_tool :: "history \<Rightarrow> (tool_request \<times> observed) option" where
  "last_tool h = (if h = [] then None else tool_event (last h))"

lemma last_tool_snoc [simp]: "last_tool [] = None" "last_tool (h @ [e]) = tool_event e"
  by (simp_all add: last_tool_def)

lemma kinds_differ [simp]:
  "infer_kind \<noteq> tool_kind" "tool_kind \<noteq> infer_kind" "infer_kind \<noteq> probe_kind" "probe_kind \<noteq> infer_kind"
  "infer_kind \<noteq> verify_kind" "verify_kind \<noteq> infer_kind" "infer_kind \<noteq> ask_kind" "ask_kind \<noteq> infer_kind"
  "infer_kind \<noteq> snap_store_kind" "snap_store_kind \<noteq> infer_kind" "infer_kind \<noteq> snap_load_kind"
  "snap_load_kind \<noteq> infer_kind" "tool_kind \<noteq> probe_kind" "probe_kind \<noteq> tool_kind"
  "tool_kind \<noteq> verify_kind" "verify_kind \<noteq> tool_kind" "tool_kind \<noteq> ask_kind" "ask_kind \<noteq> tool_kind"
  "tool_kind \<noteq> snap_store_kind" "snap_store_kind \<noteq> tool_kind" "tool_kind \<noteq> snap_load_kind"
  "snap_load_kind \<noteq> tool_kind" "verify_kind \<noteq> probe_kind" "probe_kind \<noteq> verify_kind"
  "verify_kind \<noteq> ask_kind" "ask_kind \<noteq> verify_kind" "verify_kind \<noteq> snap_store_kind"
  "snap_store_kind \<noteq> verify_kind" "verify_kind \<noteq> snap_load_kind" "snap_load_kind \<noteq> verify_kind"
  "ask_kind \<noteq> probe_kind" "probe_kind \<noteq> ask_kind"
  by (simp_all add: kind_defs)

text \<open>Events that record neither a line nor a tool attempt.\<close>

lemma quiet_events [simp]:
  "k \<noteq> infer_kind \<Longrightarrow> answered_line (k, i, a) = None" "answered_line (k, i, Ans_Failed p) = None"
  "k \<noteq> tool_kind \<Longrightarrow> tool_event (k, i, a) = None" "tool_event (k, i, Ans_Failed p) = None"
  by (simp_all add: answered_line_def tool_event_def split: answer.split)

section \<open>Requests and endings\<close>

text \<open>The call the last model line spells, and what a tool request takes from it.\<close>

definition called :: "history \<Rightarrow> tool_call \<Rightarrow> bool" where
  "called h c \<longleftrightarrow> (\<exists>l. last_line h = Some l \<and> decode_line l = Inr (Dec_Call c))"

definition mutates :: "tool_args \<Rightarrow> bool" where
  "mutates a = (case a of GpioPinWrite _ _ \<Rightarrow> True | TimerDelayWait _ \<Rightarrow> True | _ \<Rightarrow> False)"

definition carries :: "tool_call \<Rightarrow> tool_request \<Rightarrow> bool" where
  "carries c q \<longleftrightarrow> tq_tool q = tool_id_get (tl_tool c) \<and> tq_args q = tl_args_bytes c \<and>
     tq_digest q = digest_get (tl_args_digest c) \<and> (tq_write q \<longleftrightarrow> mutates (tl_args c))"

text \<open>The probe a pin write needs: the last event is the device's answer that the pin is an output.\<close>

definition probed_ok :: "history \<Rightarrow> tool_args \<Rightarrow> bool" where
  "probed_ok h a =
     (case a of
        GpioPinWrite p _ \<Rightarrow>
          (\<exists>h' ans. h = h' @ [(probe_kind, [pin_get p], Ans_Completed ans)] \<and> probed_decode ans = Inr True)
      | _ \<Rightarrow> True)"

text \<open>A first attempt follows the line (and its probe), a retry directly the transient attempt of the
  same request.\<close>

definition attempt_in_order :: "history \<Rightarrow> tool_call \<Rightarrow> tool_request \<Rightarrow> bool" where
  "attempt_in_order h c q \<longleftrightarrow>
     tq_attempt q = 1 \<and> last_tool h = None \<and> probed_ok h (tl_args c) \<or>
     (\<exists>q' ob. last_tool h = Some (q', ob) \<and> ob_transient ob \<and> tq_attempt q' < 3 \<and>
        q = q'\<lparr>tq_attempt := tq_attempt q' + 1\<rparr>)"

definition tool_request_allowed :: "capabilities \<Rightarrow> history \<Rightarrow> bytes \<Rightarrow> bool" where
  "tool_request_allowed caps h i \<longleftrightarrow>
     (\<exists>q c. tool_request_decode i = Inr q \<and> called h c \<and> carries c q \<and>
        granted caps (tq_tool q) (tl_args c) \<and> 1 \<le> tq_attempt q \<and> tq_attempt q \<le> 3 \<and> attempt_in_order h c q)"

text \<open>The read-back a completed mutation calls for.\<close>

definition read_back_of :: "tool_args \<Rightarrow> bytes \<Rightarrow> check option" where
  "read_back_of a outc =
     (case a of
        GpioPinWrite p l \<Rightarrow> Some (Check_Pin (pin_get p) (l = L_High))
      | TimerDelayWait ms \<Rightarrow>
          (case parse_delay_outcome outc of
             Inr (t0, _) \<Rightarrow> Some (Check_Clock (saturating_add t0 (ucast ms))) | Inl _ \<Rightarrow> None)
      | _ \<Rightarrow> None)"

definition unverified :: "history \<Rightarrow> bool" where
  "unverified h \<longleftrightarrow> (\<exists>q ob. last_tool h = Some (q, ob) \<and> tq_write q \<and> \<not> ob_transient ob)"

definition retrying :: "history \<Rightarrow> bool" where
  "retrying h \<longleftrightarrow> (\<exists>q ob. last_tool h = Some (q, ob) \<and> ob_transient ob)"

definition verify_request_due :: "history \<Rightarrow> bytes \<Rightarrow> bool" where
  "verify_request_due h i \<longleftrightarrow>
     (\<exists>q ob c v. last_tool h = Some (q, ob) \<and> tq_write q \<and> \<not> ob_transient ob \<and> called h c \<and> carries c q \<and>
        verify_request_decode i = Inr v \<and> vq_seq v = tq_seq q \<and>
        read_back_of (tl_args c) (ob_outcome ob) = Some (vq_check v))"

definition run_request :: "capabilities \<Rightarrow> history \<Rightarrow> u16 \<Rightarrow> bytes \<Rightarrow> bool" where
  "run_request caps h k i \<longleftrightarrow>
     (if k = tool_kind then tool_request_allowed caps h i
      else if k = verify_kind then verify_request_due h i
      else \<not> unverified h \<and> \<not> retrying h)"

definition decodes_terminal :: "bytes \<Rightarrow> terminal_status set \<Rightarrow> bool" where
  "decodes_terminal p S \<longleftrightarrow> (\<exists>t. terminal_decode p = Inr t \<and> tr_status t \<in> S)"

definition answers_finish :: "history \<Rightarrow> bytes \<Rightarrow> bool" where
  "answers_finish h p \<longleftrightarrow>
     (\<exists>l a. last_line h = Some l \<and> decode_line l = Inr (Dec_Finish a) \<and>
        terminal_decode p = Inr \<lparr>tr_status = T_Completed, tr_reason = str_bytes ''model_finished'',
                                tr_summary = fa_summary a\<rparr>)"

text \<open>The error \<open>IllegalTransition\<close> is the recorded fault of an unknown resource, never the engine's.\<close>

definition fault_explained :: "history \<Rightarrow> runtime_error \<Rightarrow> bool" where
  "fault_explained h e \<longleftrightarrow>
     (e = RE_IllegalTransition \<longrightarrow> (\<exists>k i p h'. h = h' @ [(k, i, Ans_Failed p)] \<and> fault_error p = e))"

definition run_ending :: "history \<Rightarrow> 's ending \<Rightarrow> bool" where
  "run_ending h z =
     (case z of
        Completed p _ \<Rightarrow> \<not> unverified h \<and> answers_finish h p
      | Failed p _ \<Rightarrow> \<not> unverified h \<and>
          decodes_terminal p {T_Denied, T_BudgetExhausted, T_Stuck, T_ModelInvalid}
      | Continued _ _ \<Rightarrow> \<not> unverified h \<and> \<not> retrying h
      | Faulted e \<Rightarrow> fault_explained h e)"

section \<open>The invariant\<close>

definition intent_from :: "tool_call \<Rightarrow> run_intent \<Rightarrow> bool" where
  "intent_from c i \<longleftrightarrow>
     it_tool i = tool_id_get (tl_tool c) \<and> it_args i = tl_args_bytes c \<and>
     it_digest i = digest_get (tl_args_digest c) \<and> it_tool_args i = tl_args c \<and>
     (it_write i \<longleftrightarrow> mutates (tl_args c)) \<and> length (it_args i) \<le> output_cap"

definition dispatchable :: "capabilities \<Rightarrow> history \<Rightarrow> run_intent \<Rightarrow> bool" where
  "dispatchable caps h i \<longleftrightarrow>
     (\<exists>c. called h c \<and> decision_typed (Dec_Call c) \<and> intent_from c i \<and> granted caps (it_tool i) (tl_args c))"

definition at_observe :: "capabilities \<Rightarrow> history \<Rightarrow> 'al run_data \<Rightarrow> bool" where
  "at_observe caps h st \<longleftrightarrow>
     (\<exists>i. rs_intent st = Some i \<and> dispatchable caps h i \<and>
        (it_attempt i = 0 \<and> last_tool h = None \<and> probed_ok h (it_tool_args i) \<or>
         (\<exists>ob. last_tool h = Some (tool_request_of i, ob) \<and> ob_transient ob \<and> 0 < it_attempt i \<and> it_attempt i < 3)))"

definition at_verify :: "capabilities \<Rightarrow> history \<Rightarrow> 'al run_data \<Rightarrow> bool" where
  "at_verify caps h st \<longleftrightarrow>
     (\<exists>i ob. rs_intent st = Some i \<and> dispatchable caps h i \<and> it_write i \<and>
        last_tool h = Some (tool_request_of i, ob) \<and> \<not> ob_transient ob \<and>
        (case it_tool_args i of
           TimerDelayWait _ \<Rightarrow> (\<exists>t0 t. it_t0 i = Some t0 \<and> parse_delay_outcome (ob_outcome ob) = Inr (t0, t))
         | _ \<Rightarrow> True))"

definition quiet :: "history \<Rightarrow> bool" where
  "quiet h \<longleftrightarrow> \<not> unverified h \<and> \<not> retrying h"

definition at_authorize :: "history \<Rightarrow> 'al run_data \<Rightarrow> bool" where
  "at_authorize h st \<longleftrightarrow>
     last_tool h = None \<and> (\<exists>call l. rs_call st = Some call \<and> last_line h = Some l \<and> classify l = Cl_Call call)"

definition at_finalize :: "history \<Rightarrow> 'al run_data \<Rightarrow> bool" where
  "at_finalize h st \<longleftrightarrow>
     quiet h \<and> (\<exists>s l. rs_finish st = Some s \<and> last_line h = Some l \<and> classify l = Cl_Finish s)"

definition run_inv :: "capabilities \<Rightarrow> history \<Rightarrow> 'al run_data \<Rightarrow> bool" where
  "run_inv caps h st \<longleftrightarrow> sd_capabilities (rs_seed st) = caps \<and>
     (case rs_sm st of
        S_Authorize \<Rightarrow> at_authorize h st
      | S_Observe \<Rightarrow> at_observe caps h st
      | S_Verify \<Rightarrow> at_verify caps h st
      | S_Finalize \<Rightarrow> at_finalize h st
      | S_Account \<Rightarrow> quiet h \<and> rs_step st \<noteq> None
      | S_AwaitInput \<Rightarrow> quiet h \<and> (\<exists>a. rs_ask st = Some a \<and> length (ak_prompt a) \<le> output_cap)
      | S_Gather \<Rightarrow> quiet h
      | S_Infer \<Rightarrow> quiet h
      | S_Repair \<Rightarrow> quiet h
      | _ \<Rightarrow> False)"

section \<open>Encoders and errors\<close>

lemma encoded_written:
  "f (replicate page_record_max 0) = Wire.written bs (replicate page_record_max 0) \<Longrightarrow>
   length bs \<le> page_record_max \<Longrightarrow> encoded f = Inr bs"
  by (simp add: encoded_def Wire.written_def slice_def)

lemma encoded_terminal: "encoded (terminal_encode t) = Inr p \<longleftrightarrow> terminal_ok t \<and> p = terminal_enc t"
proof (cases "terminal_ok t")
  case True
  then have "encoded (terminal_encode t) = Inr (terminal_enc t)"
    by (intro encoded_written emits_terminal payload_lengths(5))
  then show ?thesis using True by auto
next
  case False
  then show ?thesis by (auto simp: terminal_ok_def encoded_def terminal_encode_def)
qed

lemma encoded_tool:
  "tool_request_ok q \<Longrightarrow> encoded (tool_request_encode q) = Inr (tool_request_enc q)"
  by (rule encoded_written) (auto intro: payload_lengths emits_tool_request simp: tool_request_ok_def)

lemma encoded_verify: "encoded (verify_request_encode q) = Inr (verify_request_enc q)"
  by (rule encoded_written) (rule emits_verify_request payload_lengths)+

lemma encoded_ask:
  "length (aq_prompt q) \<le> output_cap \<Longrightarrow> encoded (ask_request_encode q) = Inr (ask_request_enc q)"
  by (rule encoded_written) (auto intro: payload_lengths emits_ask_request)

named_theorems no_fault \<open>errors that are not an illegal transition\<close>

lemma encoded_error [no_fault]: "encoded f = Inl e \<Longrightarrow> e \<noteq> RE_IllegalTransition"
  by (auto simp: encoded_def result_simps split: prod.splits elim!: map_err.elims)

lemma text_errors [no_fault]:
  "run_text bs = Inl e \<Longrightarrow> e \<noteq> RE_IllegalTransition"
  "budget_exhausted_summary st u = Inl e \<Longrightarrow> e \<noteq> RE_IllegalTransition"
  "denial_summary args = Inl e \<Longrightarrow> e \<noteq> RE_IllegalTransition"
  by (auto simp: run_text_def budget_exhausted_summary_def result_simps split: if_splits)
    (cases args; simp add: run_text_def result_simps)

lemma map_err_Inl: "map_err g m = Inl e \<longleftrightarrow> (\<exists>e'. m = Inl e' \<and> e = g e')"
  by (cases m) auto

lemma delay_error [no_fault]: "parse_delay_outcome out = Inl e \<Longrightarrow> e \<noteq> RE_IllegalTransition"
proof -
  have loop: "delay_loop w u c p = Inl e \<Longrightarrow> e = RE_JournalCorrupt" for w u c p e
  proof (induction w u c p rule: delay_loop.induct)
    case (1 w u c p)
    show ?case
    proof (cases "next_entry c p")
      case (Inr r)
      obtain entry c' p' where r: "r = (entry, c', p')" by (cases r)
      have m: "map_err (\<lambda>_. RE_JournalCorrupt) (next_entry c p) = Inr (entry, c', p')" by (simp add: Inr r)
      show ?thesis
      proof (cases "\<exists>key raw n. entry = Some (key, J_Number raw) \<and> parse_u64_digits raw = Some n")
        case True
        then obtain key raw n where e: "entry = Some (key, J_Number raw)" and n: "parse_u64_digits raw = Some n" by blast
        have "delay_loop (Some n) u c' p' = Inl e \<Longrightarrow> key = str_bytes ''waited_ms'' \<Longrightarrow> ?thesis"
          by (rule "1.IH"(1) [OF m refl refl e refl refl]) (simp_all add: n)
        moreover have "delay_loop w (Some n) c' p' = Inl e \<Longrightarrow> key \<noteq> str_bytes ''waited_ms'' \<Longrightarrow>
            key = str_bytes ''uptime_ms'' \<Longrightarrow> ?thesis"
          by (rule "1.IH"(2) [OF m refl refl e refl refl]) (simp_all add: n)
        ultimately show ?thesis using "1.prems"
          by (auto simp: delay_loop.simps [of w u c p] Inr r e n split: if_splits)
      next
        case False
        then show ?thesis using "1.prems"
          by (auto simp: delay_loop.simps [of w u c p] Inr r result_simps split: option.splits json_value.splits if_splits)
      qed
    qed (use "1.prems" in \<open>simp add: delay_loop.simps [of w u c p]\<close>)
  qed
  assume "parse_delay_outcome out = Inl e"
  then have "e = RE_JournalCorrupt"
    by (auto simp: parse_delay_outcome_def result_simps map_err_Inl dest: loop split: if_splits option.splits)
  then show ?thesis by simp
qed

lemma degrade_text_error [no_fault]: "degrade_text st status why i = Inl e \<Longrightarrow> e \<noteq> RE_IllegalTransition"
  by (auto simp: degrade_text_def result_simps dest: text_errors split: if_splits option.splits tool_args.splits)

section \<open>The logic on the workflow's pieces\<close>

lemma case_map_err: "(case map_err g m of Inl e \<Rightarrow> A e | Inr x \<Rightarrow> B x) = (case m of Inl e \<Rightarrow> A (g e) | Inr x \<Rightarrow> B x)"
  by (cases m) simp_all

lemma holds_activity [simp]:
  "holds R Z Q (activity k i dec) h \<longleftrightarrow> R h k i \<and>
     (\<forall>p. Z (h @ [(k, i, Ans_Failed p)]) (Faulted (fault_error p))) \<and>
     (\<forall>p. case dec p of
        Inl e \<Rightarrow> Z (h @ [(k, i, Ans_Completed p)]) (Faulted (RE_Wire e))
      | Inr x \<Rightarrow> Q (h @ [(k, i, Ans_Completed p)]) x)"
proof -
  have "(\<forall>a. P a) \<longleftrightarrow> (\<forall>p. P (Ans_Failed p)) \<and> (\<forall>p. P (Ans_Completed p))" for P :: "answer \<Rightarrow> bool"
    by (metis answer.exhaust)
  then show ?thesis by (simp add: activity_def case_map_err)
qed

lemma holds_returned: "holds R Z Q m h \<Longrightarrow> holds R Z (\<lambda>h x. Q h x \<and> x \<in> returned m) m h"
proof (induction m arbitrary: h)
  case (Act k i f)
  have "holds R Z (\<lambda>h x. Q h x \<and> x \<in> returned (Act k i f)) (f a) (h @ [(k, i, a)])" for a
  proof -
    have "holds R Z (\<lambda>h x. Q h x \<and> x \<in> returned (f a)) (f a) (h @ [(k, i, a)])"
      by (rule Act.IH) (use Act.prems in auto)
    then show ?thesis by (rule holds_mono) auto
  qed
  then show ?case using Act.prems by simp
qed simp_all

lemma ending_simps [simp]:
  "run_ending h (Faulted e) \<longleftrightarrow> fault_explained h e"
  "fault_explained (h @ [(k, i, Ans_Failed p)]) (fault_error p)"
  "e \<noteq> RE_IllegalTransition \<Longrightarrow> fault_explained h e"
  by (auto simp: run_ending_def fault_explained_def)

lemma terminal_written:
  assumes "\<not> unverified h" "status = T_Completed \<Longrightarrow> reason = str_bytes ''model_finished'' \<and>
      (\<exists>l a. last_line h = Some l \<and> decode_line l = Inr (Dec_Finish a) \<and> summary = fa_summary a)"
    "status \<in> {T_Completed, T_Denied, T_BudgetExhausted, T_Stuck, T_ModelInvalid}"
  shows "holds R run_ending Q (terminate status reason summary st) h"
proof -
  let ?t = "\<lparr>tr_status = status, tr_reason = take max_reason reason, tr_summary = summary\<rparr>"
  show ?thesis
  proof (cases "encoded (terminal_encode ?t)")
    case (Inl e)
    then show ?thesis using encoded_error [OF Inl] by (simp add: terminate_def)
  next
    case (Inr p)
    then have p: "terminal_decode p = Inr ?t" by (simp add: encoded_terminal payload_exact)
    have short: "take max_reason (str_bytes ''model_finished'') = str_bytes ''model_finished''"
      by (simp add: max_reason_def str_bytes_def)
    have "holds R run_ending Q (terminate status reason summary st) h \<longleftrightarrow>
        run_ending h (if status = T_Completed then Completed p st else Failed p st)"
      by (simp add: terminate_def Inr)
    then show ?thesis using assms p
      by (cases "status = T_Completed") (auto simp: run_ending_def answers_finish_def decodes_terminal_def short)
  qed
qed

lemma degraded_written:
  "rs_sm st = S_Degraded \<Longrightarrow> \<not> unverified h \<Longrightarrow> status \<in> {T_Denied, T_BudgetExhausted, T_Stuck, T_ModelInvalid} \<Longrightarrow>
   holds R run_ending Q (degrade status reason summary st) h"
  by (auto simp: degrade_def run_advance_simps intro!: terminal_written)

lemma denied_written:
  assumes "rs_sm st = S_Authorize" "\<not> unverified h" "status \<in> {T_Denied, T_BudgetExhausted, T_Stuck, T_ModelInvalid}"
    "\<And>e. summary = Inl e \<Longrightarrow> e \<noteq> RE_IllegalTransition"
  shows "holds R run_ending Q (deny status reason summary st) h"
  using assms(4) by (cases summary) (simp_all add: deny_def run_advance_simps assms(1) degraded_written [OF _ assms(2,3)])

section \<open>Every handler keeps the invariant\<close>

lemma quiet_snoc [simp]: "tool_event e = None \<Longrightarrow> quiet (h @ [e])" "last_tool h = None \<Longrightarrow> quiet h"
  by (simp_all add: quiet_def unverified_def retrying_def)

lemma quiet_verified: "quiet h \<Longrightarrow> \<not> unverified h"
  by (simp add: quiet_def)

lemma quiet_request [simp]: "quiet h \<Longrightarrow> k \<noteq> tool_kind \<Longrightarrow> k \<noteq> verify_kind \<Longrightarrow> run_request caps h k i"
  by (simp add: run_request_def quiet_def)

lemma error_split: "(case m of Inl e \<Rightarrow> A e | Inr x \<Rightarrow> B x) \<longleftrightarrow> (\<forall>e. m = Inl e \<longrightarrow> A e) \<and> (\<forall>x. m = Inr x \<longrightarrow> B x)"
  by (cases m) simp_all

lemma store_chunks_inv: "quiet h \<Longrightarrow> holds (run_request caps) run_ending (\<lambda>h _. quiet h) (store_chunks d bs xs) h"
  by (induction xs arbitrary: h) (simp_all add: Let_def error_split result_simps keyed_def)

lemma store_items_inv: "quiet h \<Longrightarrow> holds (run_request caps) run_ending (\<lambda>h _. quiet h) (store_items d n es) h"
  by (induction es arbitrary: h n)
    (auto simp: error_split result_simps keyed_def map_err_Inl split: prod.split)

lemma load_chunks_inv: "quiet h \<Longrightarrow> holds (run_request caps) run_ending (\<lambda>h _. quiet h) (load_chunks d len xs buf) h"
  by (induction xs arbitrary: h buf) (simp_all add: Let_def error_split result_simps)

lemma load_items_inv: "quiet h \<Longrightarrow> holds (run_request caps) run_ending (\<lambda>h _. quiet h) (load_items d xs) h"
proof (induction xs arbitrary: h)
  case (Cons x xs)
  show ?case
    by (auto simp: error_split result_simps map_err_Inl Cons.prems intro!: holds_mono [OF Cons.IH])
qed simp

lemma continued_quiet: "quiet h \<Longrightarrow> run_ending h (Continued p st)"
  by (simp add: run_ending_def quiet_def)

lemma rollover_inv: "quiet h \<Longrightarrow> holds (run_request caps) run_ending Q (rollover st) h"
  by (auto simp: rollover_def Let_def error_split result_simps map_err_Inl continued_quiet split: option.splits
      dest: encoded_error intro!: holds_mono [OF store_chunks_inv] holds_mono [OF store_items_inv])

lemma gather_inv:
  assumes "run_inv caps h st" "rs_sm st = S_Gather"
  shows "holds (run_request caps) run_ending (run_inv caps) (gather st) h"
proof -
  have q: "quiet h" and c: "sd_capabilities (rs_seed st) = caps" using assms by (simp_all add: run_inv_def)
  have next_ok: "run_inv caps h (st\<lparr>rs_sm := S_Infer\<rparr>)" using q c by (simp add: run_inv_def)
  show ?thesis using q next_ok
    by (auto simp: gather_def run_advance_simps assms(2) error_split result_simps quiet_verified
        dest: text_errors intro!: degraded_written rollover_inv split: option.split)
qed

lemma repair_inv:
  assumes "run_inv caps h st" "rs_sm st = S_Repair"
  shows "holds (run_request caps) run_ending (run_inv caps) (repair_turn st) h"
proof -
  have q: "quiet h" and c: "sd_capabilities (rs_seed st) = caps" using assms by (simp_all add: run_inv_def)
  have next_ok: "run_inv caps h (st\<lparr>rs_sm := S_Infer\<rparr>)" using q c by (simp add: run_inv_def)
  show ?thesis using q next_ok
    by (auto simp: repair_turn_def run_advance_simps assms(2) error_split quiet_verified
        dest: text_errors intro!: degraded_written)
qed

lemma decided_total: "rs_sm st = S_Infer \<Longrightarrow> decided c st \<noteq> Inl e"
  by (cases c) (simp_all add: decided_def run_advance_simps)

lemma decided_inv:
  assumes "decided (classify l) st = Inr st'" "rs_sm st = S_Infer" "sd_capabilities (rs_seed st) = caps"
    "last_line h = Some l" "last_tool h = None"
  shows "run_inv caps h st'"
proof (cases "classify l")
  case (Cl_Ask a)
  then have "length (ak_prompt a) \<le> output_cap"
    by (auto simp: classify_def buf_of_def split: sum.splits decision.splits option.splits if_splits)
  then show ?thesis using assms Cl_Ask by (auto simp: decided_def run_advance_simps run_inv_def)
qed (use assms in \<open>auto simp: decided_def run_advance_simps run_inv_def at_authorize_def at_finalize_def\<close>)

lemma infer_inv:
  assumes "run_inv caps h st" "rs_sm st = S_Infer"
  shows "holds (run_request caps) run_ending (run_inv caps) (infer_turn st) h"
proof -
  have q: "quiet h" and c: "sd_capabilities (rs_seed st) = caps" using assms by (simp_all add: run_inv_def)
  have line: "inferred_decode p = Inr a \<Longrightarrow> answered_line (infer_kind, i, Ans_Completed p) = Some (in_line a)" for p a i
    by (simp add: answered_line_def)
  show ?thesis unfolding infer_turn_def
    using q by (auto simp: Let_def error_split map_err_Inl result_simps line assms(2) decided_total
        dest: encoded_error elim!: decided_inv intro: c)
qed

lemma decode_line_typed: "decode_line l = Inr d \<Longrightarrow> decision_typed d"
  using decode_line_parts [of l d] decode_call_typed decode_ask_typed decode_finish_typed by blast

lemma catalog_writes: "e \<in> set catalog \<Longrightarrow> tc_permission e = Perm_IdempotentWrite \<longleftrightarrow> tc_id e = 2 \<or> tc_id e = 5"
  by (auto simp: catalog_def)

lemma call_entry:
  assumes "decode_line l = Inr (Dec_Call c)"
  obtains e where "lookup_by_id (tl_tool c) = Some e" "tc_id e = tool_id_get (tl_tool c)"
    "tc_permission e = Perm_IdempotentWrite \<longleftrightarrow> mutates (tl_args c)"
proof -
  obtain rest where "decode_call rest = Inr (Dec_Call c)" using assms by (auto simp: decode_line_call_iff)
  then obtain e where e: "e \<in> set catalog" "tl_tool c = ToolId (tc_id e)" by (auto simp: decode_call_iff)
  moreover have "tool_id_get (tl_tool c) = tool_of (tl_args c)" using decode_line_typed [OF assms] by simp
  then have "tc_permission e = Perm_IdempotentWrite \<longleftrightarrow> mutates (tl_args c)"
    using catalog_writes [OF e(1)] e(2) by (cases "tl_args c") (simp_all add: mutates_def tool_id_defs)
  moreover have "lookup_by_id (tl_tool c) = Some e" using e by (simp add: lookup_by_id_def contract_by_id_iff)
  ultimately show ?thesis using that by simp
qed

lemma classify_call:
  "classify l = Cl_Call call \<Longrightarrow>
   \<exists>c. decode_line l = Inr (Dec_Call c) \<and> length (tl_args_bytes c) \<le> output_cap \<and>
     call = \<lparr>ca_tool = tool_id_get (tl_tool c), ca_args = tl_args_bytes c,
             ca_digest = digest_get (tl_args_digest c), ca_tool_args = tl_args c\<rparr>"
  by (auto simp: classify_def buf_of_def split: sum.splits decision.splits option.splits if_splits)

lemma spend_mutation_error [no_fault]: "spend_mutation w st = Inl e \<Longrightarrow> e \<noteq> RE_IllegalTransition"
  by (auto simp: spend_mutation_def result_simps map_err_Inl split: if_splits)

lemma probe_write_inv:
  assumes "rs_sm st = S_Authorize" "last_tool h = None"
    "\<And>h'. last_tool h' = None \<Longrightarrow> last_line h' = last_line h \<Longrightarrow> probed_ok h' args \<Longrightarrow> Q h' ()"
  shows "holds (run_request caps) run_ending Q (probe_write args st) h"
proof (cases "\<exists>p l. args = GpioPinWrite p l")
  case True
  then obtain p l where args: "args = GpioPinWrite p l" by blast
  have probed: "probed_decode ans = Inr True \<Longrightarrow> probed_ok (h @ [(probe_kind, [pin_get p], Ans_Completed ans)]) args" for ans
    by (auto simp: probed_ok_def args)
  show ?thesis
    by (auto simp: probe_write_def args error_split assms(1,2) unverified_def result_simps probed [unfolded args]
        dest: text_errors intro!: denied_written assms(3) [unfolded args])
next
  case False
  then have "probe_write args st = Ret ()" "probed_ok h args"
    by (auto simp: probe_write_def probed_ok_def split: tool_args.splits)
  then show ?thesis using assms by simp
qed

lemma authorize_inv:
  assumes "run_inv caps h st" "rs_sm st = S_Authorize"
  shows "holds (run_request caps) run_ending (run_inv caps) (authorize_call k st) h"
proof -
  obtain call l where call: "rs_call st = Some call" "last_line h = Some l" "classify l = Cl_Call call"
    and lt: "last_tool h = None" and caps: "sd_capabilities (rs_seed st) = caps"
    using assms by (auto simp: run_inv_def at_authorize_def)
  obtain c where c: "decode_line l = Inr (Dec_Call c)" "length (tl_args_bytes c) \<le> output_cap"
    "call = \<lparr>ca_tool = tool_id_get (tl_tool c), ca_args = tl_args_bytes c,
             ca_digest = digest_get (tl_args_digest c), ca_tool_args = tl_args c\<rparr>"
    using classify_call [OF call(3)] by blast
  obtain e where e: "lookup_by_id (tl_tool c) = Some e" "tc_id e = tool_id_get (tl_tool c)"
    "tc_permission e = Perm_IdempotentWrite \<longleftrightarrow> mutates (tl_args c)"
    by (rule call_entry [OF c(1)])
  have denied: "holds (run_request caps) run_ending Q (deny status reason summary (st\<lparr>rs_call := None\<rparr>)) h'"
    if "last_tool h' = None" "status \<in> {T_Denied, T_BudgetExhausted, T_Stuck, T_ModelInvalid}"
      "\<And>er. summary = Inl er \<Longrightarrow> er \<noteq> RE_IllegalTransition" for Q status reason summary h'
    by (rule denied_written) (use that assms(2) in \<open>auto simp: unverified_def\<close>)
  show ?thesis
  proof (cases "authorize caps e (tl_args c) = Inr ()")
    case False
    then have "authorize caps e (tl_args c) = Inl (E_PermissionDenied (ToolId (tc_id e)) (resource_of (tl_args c)))"
      using gate_cases by blast
    then show ?thesis using lt
      by (auto simp: authorize_call_def call(1) c(3) e(1) caps Let_def dest: text_errors intro!: denied)
  next
    case True
    then have granted: "granted caps (tool_id_get (tl_tool c)) (tl_args c)"
      by (auto simp: authorize_def e(2) split: if_splits)
    have sm1: "rs_sm st1 = S_Authorize" "sd_capabilities (rs_seed st1) = caps"
      if "spend_mutation m (st\<lparr>rs_call := None, rs_allocator := al\<rparr>) = Inr st1" for m al st1
      using spend_mutation_keeps [OF that] assms(2) caps by simp_all
    have total: P if "run_advance Ev_Authorized (commit_intent call m seq st1) = Inl er"
      "spend_mutation m (st\<lparr>rs_call := None, rs_allocator := al\<rparr>) = Inr st1" for P m seq st1 al er
      using that sm1 [OF that(2)] by (simp add: run_advance_simps)
    have moved: "run_inv caps h' st'"
      if "run_advance Ev_Authorized (commit_intent call m seq st1) = Inr st'"
        and st1: "spend_mutation m (st\<lparr>rs_call := None, rs_allocator := al\<rparr>) = Inr st1"
        and h': "last_tool h' = None" "last_line h' = last_line h" "probed_ok h' (tl_args c)" and m: "m \<longleftrightarrow> mutates (tl_args c)"
      for h' m al st1 seq st'
    proof -
      have "at_observe caps h' ((commit_intent call m seq st1)\<lparr>rs_sm := S_Observe\<rparr>)"
        unfolding at_observe_def dispatchable_def called_def using h' call(2) c granted decode_line_typed [OF c(1)]
        by (auto simp: commit_intent_def Let_def intent_from_def m)
      then show ?thesis using that(1) sm1 [OF st1] by (auto simp: run_advance_simps run_inv_def)
    qed
    have sel: "ca_tool call = tool_id_get (tl_tool c)" "ca_tool_args call = tl_args c" by (simp_all add: c(3))
    show ?thesis
      unfolding authorize_call_def
      using lt True
      by (auto simp: call(1) sel e(1,3) caps Let_def error_split result_simps assms(2)
          dest: text_errors spend_mutation_error intro!: probe_write_inv denied
          elim!: total elim: moved split: prod.split)
  qed
qed

lemma await_inv:
  assumes "run_inv caps h st" "rs_sm st = S_AwaitInput"
  shows "holds (run_request caps) run_ending (run_inv caps) (await_input st) h"
proof -
  obtain ask where ask: "rs_ask st = Some ask" and q: "quiet h" and c: "sd_capabilities (rs_seed st) = caps"
    using assms by (auto simp: run_inv_def)
  show ?thesis using q c
    by (auto simp: await_input_def ask Let_def error_split result_simps map_err_Inl run_advance_simps assms(2)
        run_inv_def dest: encoded_error)
qed

lemma tool_request_fields [simp]:
  "tq_seq (tool_request_of i) = it_seq i" "tq_attempt (tool_request_of i) = it_attempt i"
  "tq_tool (tool_request_of i) = it_tool i" "tq_write (tool_request_of i) = it_write i"
  "tq_digest (tool_request_of i) = it_digest i" "tq_args (tool_request_of i) = it_args i"
  by (simp_all add: tool_request_of_def)

lemma carries_intent: "intent_from c i \<Longrightarrow> carries c (tool_request_of i)"
  by (simp add: carries_def intent_from_def)

lemma called_quiet: "answered_line e = None \<Longrightarrow> called (h @ [e]) c \<longleftrightarrow> called h c"
  by (simp add: called_def)

lemma dispatchable_quiet: "answered_line e = None \<Longrightarrow> dispatchable caps (h @ [e]) i \<longleftrightarrow> dispatchable caps h i"
  by (simp add: dispatchable_def called_quiet)

lemma dispatchable_attempt [simp]:
  "dispatchable caps h (i\<lparr>it_attempt := n\<rparr>) \<longleftrightarrow> dispatchable caps h i"
  "dispatchable caps h (i\<lparr>it_t0 := t\<rparr>) \<longleftrightarrow> dispatchable caps h i"
  by (simp_all add: dispatchable_def intent_from_def)

lemma at_observe_request:
  assumes "at_observe caps h st"
  obtains i0 where "rs_intent st = Some i0" "dispatchable caps h i0"
    "encoded (tool_request_encode (tool_request_of (i0\<lparr>it_attempt := saturating_add (it_attempt i0) 1\<rparr>))) =
       Inr (tool_request_enc (tool_request_of (i0\<lparr>it_attempt := saturating_add (it_attempt i0) 1\<rparr>)))"
    "tool_request_decode (tool_request_enc (tool_request_of (i0\<lparr>it_attempt := saturating_add (it_attempt i0) 1\<rparr>))) =
       Inr (tool_request_of (i0\<lparr>it_attempt := saturating_add (it_attempt i0) 1\<rparr>))"
    "tool_request_allowed caps h (tool_request_enc (tool_request_of (i0\<lparr>it_attempt := saturating_add (it_attempt i0) 1\<rparr>)))"
    "saturating_add (it_attempt i0) 1 = it_attempt i0 + 1" "it_attempt i0 < 3"
proof -
  obtain i0 where i0: "rs_intent st = Some i0" "dispatchable caps h i0"
    and order: "it_attempt i0 = 0 \<and> last_tool h = None \<and> probed_ok h (it_tool_args i0) \<or>
      (\<exists>ob. last_tool h = Some (tool_request_of i0, ob) \<and> ob_transient ob \<and> 0 < it_attempt i0 \<and> it_attempt i0 < 3)"
    using assms by (auto simp: at_observe_def)
  have a: "it_attempt i0 < 3" using order by auto
  then have "unat (it_attempt i0) < 3" by (simp add: word_less_nat_alt)
  then have sat: "saturating_add (it_attempt i0) 1 = it_attempt i0 + 1"
    by (simp add: saturating_add_def)
  let ?i = "i0\<lparr>it_attempt := it_attempt i0 + 1\<rparr>"
  have n: "unat (it_attempt i0 + 1) = Suc (unat (it_attempt i0))"
    using \<open>unat (it_attempt i0) < 3\<close> by (simp add: unat_word_ariths)
  have att: "1 \<le> it_attempt i0 + 1" "it_attempt i0 + 1 \<le> 3" "it_attempt i0 + 1 \<noteq> 0"
    using n \<open>unat (it_attempt i0) < 3\<close> by (auto simp: word_le_nat_alt unat_eq_zero [symmetric] simp del: unat_eq_zero)
  obtain c where c: "called h c" "intent_from c i0" "granted caps (it_tool i0) (tl_args c)"
    using i0(2) by (auto simp: dispatchable_def)
  have len: "length (it_args i0) \<le> output_cap" using c(2) by (auto simp: intent_from_def)
  then have ok: "tool_request_ok (tool_request_of ?i)" using att by (simp add: tool_request_ok_def)
  have dec: "tool_request_decode (tool_request_enc (tool_request_of ?i)) = Inr (tool_request_of ?i)"
    using ok by (simp add: payload_exact)
  have car: "carries c (tool_request_of ?i)"
    using c(2) by (simp add: carries_def intent_from_def)
  have ord: "attempt_in_order h c (tool_request_of ?i)"
    using order
  proof
    assume "it_attempt i0 = 0 \<and> last_tool h = None \<and> probed_ok h (it_tool_args i0)"
    then show ?thesis using c(2) by (simp add: attempt_in_order_def intent_from_def)
  next
    assume "\<exists>ob. last_tool h = Some (tool_request_of i0, ob) \<and> ob_transient ob \<and> 0 < it_attempt i0 \<and> it_attempt i0 < 3"
    then show ?thesis by (auto simp: attempt_in_order_def tool_request_of_def)
  qed
  have "tool_request_allowed caps h (tool_request_enc (tool_request_of ?i))"
    unfolding tool_request_allowed_def using dec c car ord att
    by (intro exI [of _ "tool_request_of ?i"] exI [of _ c]) simp
  then show ?thesis
    using that [OF i0, unfolded sat, OF encoded_tool [OF ok] dec _ refl a] by blast
qed

lemma observe_inv:
  assumes "run_inv caps h st" "rs_sm st = S_Observe"
  shows "holds (run_request caps) run_ending (run_inv caps) (observe_attempt st) h"
proof -
  have at: "at_observe caps h st" and c: "sd_capabilities (rs_seed st) = caps" using assms by (simp_all add: run_inv_def)
  obtain i0 where i0: "rs_intent st = Some i0" "dispatchable caps h i0"
    and enc: "encoded (tool_request_encode (tool_request_of (i0\<lparr>it_attempt := saturating_add (it_attempt i0) 1\<rparr>))) =
       Inr (tool_request_enc (tool_request_of (i0\<lparr>it_attempt := saturating_add (it_attempt i0) 1\<rparr>)))"
    and dec: "tool_request_decode (tool_request_enc (tool_request_of (i0\<lparr>it_attempt := saturating_add (it_attempt i0) 1\<rparr>))) =
       Inr (tool_request_of (i0\<lparr>it_attempt := saturating_add (it_attempt i0) 1\<rparr>))"
    and allowed: "tool_request_allowed caps h (tool_request_enc (tool_request_of (i0\<lparr>it_attempt := saturating_add (it_attempt i0) 1\<rparr>)))"
    and att: "saturating_add (it_attempt i0) 1 = it_attempt i0 + 1" "it_attempt i0 < 3"
    by (rule at_observe_request [OF at])
  define i where "i = i0\<lparr>it_attempt := saturating_add (it_attempt i0) 1\<rparr>"
  note enc = enc [folded i_def] and dec = dec [folded i_def] and allowed = allowed [folded i_def]
  have i: "dispatchable caps h i" using i0(2) by (simp add: i_def)
  have pos: "0 < it_attempt i"
    using att by (simp add: i_def word_less_nat_alt unat_word_ariths)
  let ?e = "\<lambda>p. (tool_kind, tool_request_enc (tool_request_of i), Ans_Completed p)"
  have ev: "observed_decode p = Inr ob \<Longrightarrow> tool_event (?e p) = Some (tool_request_of i, ob)" for p ob
    by (simp add: tool_event_def dec)
  have retry: "holds (run_request caps) run_ending (run_inv caps) (retry_attempt i st') (h @ [?e p])"
    if "observed_decode p = Inr ob" "ob_transient ob" "rs_sm st' = S_Observe" "sd_capabilities (rs_seed st') = caps"
    for p ob and st' :: "'a run_data"
  proof (cases "max_transient_attempts \<le> it_attempt i")
    case True
    then show ?thesis using that
      by (auto simp: retry_attempt_def run_advance_simps error_split unverified_def ev dest: text_errors
          intro!: degraded_written)
  next
    case False
    then have "it_attempt i < 3" by (simp add: max_transient_attempts_def)
    then have "at_observe caps (h @ [?e p]) (st'\<lparr>rs_intent := Some i, rs_sm := S_Observe\<rparr>)"
      using i pos that(1,2) by (simp add: at_observe_def dispatchable_quiet ev [OF that(1)])
    then show ?thesis using False that by (simp add: retry_attempt_def run_advance_simps run_inv_def)
  qed
  have finished: "case observe_done i (ob_outcome ob) st' of Inl er \<Rightarrow> run_ending (h @ [?e p]) (Faulted er)
      | Inr st'' \<Rightarrow> run_inv caps (h @ [?e p]) st''"
    if ob: "observed_decode p = Inr ob" "\<not> ob_transient ob" and st': "rs_sm st' = S_Observe" "sd_capabilities (rs_seed st') = caps"
    for p ob and st' :: "'a run_data"
  proof (cases "it_write i")
    case False
    then have "quiet (h @ [?e p])" using ob by (simp add: quiet_def unverified_def retrying_def ev)
    then show ?thesis using False st' by (simp add: observe_done_def run_advance_simps run_inv_def)
  next
    case True
    have v: "run_inv caps (h @ [?e p]) (st'\<lparr>rs_intent := Some i', rs_sm := S_Verify\<rparr>)"
      if "i' = i \<and> \<not> is_delay (it_tool_args i) \<or>
        (\<exists>t0 t. i' = i\<lparr>it_t0 := Some t0\<rparr> \<and> parse_delay_outcome (ob_outcome ob) = Inr (t0, t))" for i'
    proof -
      have "tool_request_of i' = tool_request_of i" "dispatchable caps (h @ [?e p]) i'" "it_write i'"
        using that i True by (auto simp: dispatchable_quiet tool_request_of_def)
      then show ?thesis using that ob st'
        by (auto simp: run_inv_def at_verify_def ev is_delay_def split: tool_args.splits)
    qed
    show ?thesis
      using v st' True
      by (auto simp: observe_done_def error_split result_simps run_advance_simps dest: delay_error split: if_splits prod.splits)
  qed
  show ?thesis
    unfolding observe_attempt_def
    using allowed
    by (auto simp: i0(1) Let_def error_split enc i_def [symmetric] run_request_def assms(2) c
        intro!: retry elim!: finished [unfolded error_split ending_simps(1), THEN conjunct1, rule_format, rotated 4]
          finished [unfolded error_split, THEN conjunct2, rule_format, rotated 4])
qed

lemma verify_inv:
  assumes "run_inv caps h st" "rs_sm st = S_Verify"
  shows "holds (run_request caps) run_ending (run_inv caps) (verify_intent st) h"
proof -
  obtain i ob c where i: "rs_intent st = Some i" and lt: "last_tool h = Some (tool_request_of i, ob)"
    and w: "it_write i" "\<not> ob_transient ob" and c: "called h c" "decision_typed (Dec_Call c)" "intent_from c i"
    and t0: "case it_tool_args i of
        TimerDelayWait _ \<Rightarrow> (\<exists>t0 t. it_t0 i = Some t0 \<and> parse_delay_outcome (ob_outcome ob) = Inr (t0, t)) | _ \<Rightarrow> True"
    and caps: "sd_capabilities (rs_seed st) = caps"
    using assms by (auto simp: run_inv_def at_verify_def dispatchable_def)
  have args: "it_tool_args i = tl_args c" "mutates (tl_args c)" using c(3) w(1) by (auto simp: intent_from_def)
  obtain ck where ck: "intent_check i = Inr ck" "read_back_of (tl_args c) (ob_outcome ob) = Some ck" "check_ok ck"
    using args t0 c(2)
    by (cases "tl_args c") (auto simp: mutates_def intent_check_def read_back_of_def check_ok_def pin_count_def)
  have "verify_request_decode (verify_request_enc \<lparr>vq_seq = it_seq i, vq_check = ck\<rparr>) = Inr \<lparr>vq_seq = it_seq i, vq_check = ck\<rparr>"
    using ck(3) by (simp add: payload_exact)
  then have due: "verify_request_due h (verify_request_enc \<lparr>vq_seq = it_seq i, vq_check = ck\<rparr>)"
    unfolding verify_request_due_def using lt w c(1,3) ck(2)
    by (intro exI [of _ "tool_request_of i"] exI [of _ ob] exI [of _ c]) (simp add: carries_intent)
  have step: "rs_step (commit_verification i p st) \<noteq> None" for p
    by (simp add: commit_verification_def Let_def)
  show ?thesis
    by (auto simp: verify_intent_def i ck(1) encoded_verify Let_def error_split run_request_def due
        run_advance_simps assms(2) run_inv_def caps step [simplified])
qed

lemma monitor_statuses:
  "monitor_observe m r b = (m', Degrade status why) \<Longrightarrow> status = T_BudgetExhausted \<or> status = T_Stuck"
  by (auto simp: monitor_observe_def Let_def split: option.splits if_splits)

lemma account_inv:
  assumes "run_inv caps h st" "rs_sm st = S_Account"
  shows "holds (run_request caps) run_ending (run_inv caps) (account_step st) h"
proof -
  obtain step where step: "rs_step st = Some step" and q: "quiet h" and c: "sd_capabilities (rs_seed st) = caps"
    using assms by (auto simp: run_inv_def)
  obtain m v where mv: "monitor_observe (rs_monitor st) step (rs_budget st) = (m, v)" by fastforce
  show ?thesis
  proof (cases v)
    case Continue
    then show ?thesis using q c
      by (auto simp: account_step_def step mv Let_def run_advance_simps assms(2) run_inv_def)
  next
    case (Degrade status why)
    then have "status \<in> {T_Denied, T_BudgetExhausted, T_Stuck, T_ModelInvalid}" using monitor_statuses mv by blast
    then show ?thesis using q
      by (auto simp: account_step_def step mv Degrade Let_def run_advance_simps assms(2) error_split quiet_verified
          dest: degrade_text_error intro!: degraded_written)
  qed
qed

lemma classify_finish: "classify l = Cl_Finish s \<Longrightarrow> \<exists>a. decode_line l = Inr (Dec_Finish a) \<and> s = fa_summary a"
  by (auto simp: classify_def buf_of_def split: sum.splits decision.splits option.splits if_splits)

lemma finalize_inv:
  assumes "run_inv caps h st" "rs_sm st = S_Finalize"
  shows "holds (run_request caps) run_ending (run_inv caps) (finalize_run st) h"
proof -
  obtain s l where s: "rs_finish st = Some s" "last_line h = Some l" "classify l = Cl_Finish s" and q: "quiet h"
    using assms by (auto simp: run_inv_def at_finalize_def)
  show ?thesis using s(2) classify_finish [OF s(3)]
    by (auto simp: finalize_run_def s(1) run_advance_simps assms(2) quiet_verified [OF q] intro!: terminal_written)
qed

lemma dispatch_inv:
  assumes "run_inv caps h st"
  shows "holds (run_request caps) run_ending (run_inv caps) (run_dispatch k st) h"
  using assms
  by (cases "rs_sm st")
    (auto simp: run_dispatch_def intro: gather_inv infer_inv repair_inv authorize_inv await_inv observe_inv
      verify_inv account_inv finalize_inv, simp_all add: run_inv_def)

section \<open>Whole runs\<close>

text \<open>Any invariant of the handlers is one of the loop.\<close>

lemma loop_holds:
  assumes "\<And>k h st. I h st \<Longrightarrow> holds R Z I (run_dispatch k st) h"
  shows "I h st \<Longrightarrow> holds R Z Q (run_loop k st) h"
proof (induction k st arbitrary: h rule: run_loop.induct)
  case (1 k' st)
  have "holds R Z (\<lambda>h x. I h x \<and> x \<in> returned (run_dispatch k' st)) (run_dispatch k' st) h"
    using holds_returned assms "1.prems" by blast
  then have "holds R Z (\<lambda>h x. holds R Z Q (run_loop k' x) h) (run_dispatch k' st) h"
    by (rule holds_mono) (use "1.IH" in auto)
  then show ?case by (simp add: run_loop.simps [of k' st])
qed

lemma load_snapshot_inv:
  assumes "quiet h"
  shows "holds (run_request caps) run_ending
     (\<lambda>h st'. quiet h \<and> rs_compact st' = Some (rs_fold st') \<and>
        rs_seed st' = rs_seed st \<and> rs_sm st' = rs_sm st \<and> rs_budget st' = rs_budget st \<and> rs_intent st' = rs_intent st)
     (load_snapshot snap st) h"
  unfolding load_snapshot_def
  by (auto simp: Let_def error_split result_simps map_err_Inl assms intro!: holds_mono [OF load_chunks_inv]
      holds_mono [OF load_items_inv])

lemma reset_keeps [simp]:
  "rs_seed (run_reset k seed) = seed" "rs_sm (run_reset k seed) = S_Recover"
  "rs_budget (run_reset k seed) = starting_budget seed" "rs_intent (run_reset k seed) = None"
  "rs_compact (run_reset k seed) = None" "rs_harvester (run_reset k seed) = harvester_new no_provenance"
  by (simp_all add: run_reset_def run_data_of_def)

text \<open>The capabilities of the run an input starts.\<close>

definition input_capabilities :: "bytes \<Rightarrow> capabilities option" where
  "input_capabilities inp =
     (case run_start_decode inp of Inl _ \<Rightarrow> None | Inr s \<Rightarrow> Some (sd_capabilities (st_seed s)))"

lemma workflow_holds:
  "holds (\<lambda>h k i. \<exists>caps. input_capabilities inp = Some caps \<and> run_request caps h k i) run_ending (\<lambda>_ _. False)
     (run_workflow k inp) []"
proof (cases "run_start_decode inp")
  case (Inr start)
  let ?caps = "sd_capabilities (st_seed start)" and ?st = "run_reset k (st_seed start)"
  have run: "holds (run_request ?caps) run_ending Q (run_loop k st) h"
    if "quiet h" "rs_sm st = S_Gather" "rs_seed st = st_seed start" for Q st h
    by (rule loop_holds [where I = "run_inv ?caps"], rule dispatch_inv) (use that in \<open>simp_all add: run_inv_def\<close>)
  have "holds (run_request ?caps) run_ending (\<lambda>_ _. False) (run_workflow k inp) []"
    unfolding run_workflow_def
    by (auto simp: Inr Let_def error_split map_err_Inl run_advance_simps
        intro!: run holds_mono [OF load_snapshot_inv] split: option.split)
  then show ?thesis by (rule holds_mono) (simp_all add: input_capabilities_def Inr)
qed (simp add: run_workflow_def)

lemma workflow_played:
  assumes "play (run_workflow k inp) as = (h, out)"
  shows "n < length h \<Longrightarrow> h ! n = (kd, i, a) \<Longrightarrow> \<exists>caps. input_capabilities inp = Some caps \<and> run_request caps (take n h) kd i"
    "out = Outstanding kd i \<Longrightarrow> \<exists>caps. input_capabilities inp = Some caps \<and> run_request caps h kd i"
    "out = Ended z \<Longrightarrow> run_ending h z" "out \<noteq> Returned x"
  using holds_play [OF workflow_holds assms] by (auto split: playing.splits)

end
