(* ===== verification/Run_Demo.thy ===== *)
theory Run_Demo
  imports Run_Safety
begin

text \<open>
  One run of the workflow evaluated to its end: a pin write that needs a probe, a transient attempt, a
  second attempt and its verification, then a final answer. It exercises the definitions on recorded
  answers, and the properties of whole runs are applied to it.
\<close>

section \<open>Evaluating a play\<close>


lemma play_bind:
  "play (flow_bind m g) as =
     (case play m as of
        (h, Returned x) \<Rightarrow> (case play (g x) (drop (length h) as) of (h', out) \<Rightarrow> (h @ h', out))
      | (h, Ended z) \<Rightarrow> (h, Ended z)
      | (h, Outstanding k i) \<Rightarrow> (h, Outstanding k i))"
proof (induction m arbitrary: as)
  case (Act k i f)
  then show ?case by (cases as) (auto split: prod.splits playing.splits)
qed (auto split: prod.splits)

lemma play_attempt: "play (attempt m) as = ([], case m of Inl e \<Rightarrow> Ended (Faulted e) | Inr x \<Rightarrow> Returned x)"
  by (cases m) simp_all

lemma play_activity:
  "play (activity k i dec) as =
     (case as of
        [] \<Rightarrow> ([], Outstanding k i)
      | Ans_Completed p # _ \<Rightarrow>
          ([(k, i, Ans_Completed p)], case dec p of Inl e \<Rightarrow> Ended (Faulted (RE_Wire e)) | Inr x \<Rightarrow> Returned x)
      | Ans_Failed p # _ \<Rightarrow> ([(k, i, Ans_Failed p)], Ended (Faulted (fault_error p))))"
  by (auto simp: activity_def play_attempt case_map_err split: list.split answer.split sum.split)

lemma encoded_infer:
  "infer_request_ok q \<Longrightarrow> encoded (infer_request_encode q) = Inr (infer_request_enc q)"
  by (rule encoded_written) (auto intro: payload_lengths emits_infer_request)

section \<open>The run\<close>

definition demo_kernel :: "u32 kernel" where
  "demo_kernel = \<lparr>k_for_run = (\<lambda>_. 0), k_allocate = (\<lambda>n. Some (n, n + 1))\<rparr>"
definition demo_input :: bytes where
  "demo_input = run_start_enc \<lparr>st_seed = default_slice, st_snapshot = None\<rparr>"
definition demo_args :: bytes where "demo_args = str_bytes ''{\"pin\":3,\"level\":\"high\"}''"
definition demo_lines :: "bytes list" where
  "demo_lines = [str_bytes ''CALL gpio_pin_write '' @ demo_args, str_bytes ''FINISH {\"status\":\"completed\",\"summary\":\"ok\"}'']"
definition demo_inferred :: "bytes \<Rightarrow> inferred" where
  "demo_inferred l = \<lparr>in_line = l, in_input_tokens = 0, in_output_tokens = 0, in_prompt_bytes = 0\<rparr>"
definition demo_call :: run_call where
  "demo_call = \<lparr>ca_tool = 2, ca_args = demo_args, ca_digest = fnv1a64 demo_args, ca_tool_args = GpioPinWrite (Pin 3) L_High\<rparr>"

lemma demo_call_line: "classify (demo_lines ! 0) = Cl_Call demo_call"
  by code_simp
lemma demo_finish_line: "classify (demo_lines ! 1) = Cl_Finish (str_bytes ''ok'')"
  by code_simp
lemma demo_valid: "seed_validate default_slice = Inr ()" by code_simp
lemma demo_input_decode: "run_start_decode demo_input = Inr \<lparr>st_seed = default_slice, st_snapshot = None\<rparr>"
proof -
  have "run_start_ok \<lparr>st_seed = default_slice, st_snapshot = None\<rparr>"
    by (simp add: run_start_ok_def seed_arrays_def default_slice_def snapshot_arrays_def snapshot_of_seed_def)
  then show ?thesis by (simp add: demo_input_def payload_exact)
qed

lemma decode_enc:
  "inferred_ok a \<Longrightarrow> inferred_decode (inferred_enc a) = Inr a"
  "observed_ok ob \<Longrightarrow> observed_decode (observed_enc ob) = Inr ob"
  by (simp_all add: payload_exact)

lemma play_loop:
  "play (run_dispatch k st) as = (h, Returned st') \<Longrightarrow> play (run_loop k st') (drop (length h) as) = (h', out) \<Longrightarrow>
   play (run_loop k st) as = (h @ h', out)"
  by (simp add: run_loop.simps [of k st] play_bind)

lemma play_loop_end: "play (run_dispatch k st) as = (h, Ended z) \<Longrightarrow> play (run_loop k st) as = (h, Ended z)"
  by (simp add: run_loop.simps [of k st] play_bind)

lemma play_loop_skip:
  "play (run_dispatch k st) as = ([], Returned st') \<Longrightarrow> play (run_loop k st') as = (h, out) \<Longrightarrow>
   play (run_loop k st) as = (h, out)"
  using play_loop [of k st as "[]" st' h out] by simp

lemma play_loop_step:
  "play (run_dispatch k st) (a # as) = ([x], Returned st') \<Longrightarrow> play (run_loop k st') as = (h, out) \<Longrightarrow>
   play (run_loop k st) (a # as) = (x # h, out)"
  using play_loop [of k st "a # as" "[x]" st' h out] by simp

text \<open>The answers, in order.\<close>

definition demo_attempts :: "observed list" where
  "demo_attempts = [observed_TRANSIENT, \<lparr>ob_transient = False, ob_secret_digest = 0, ob_outcome = str_bytes ''ok''\<rparr>]"

definition demo_answers :: "answer list" where
  "demo_answers = map Ans_Completed
     [inferred_enc (demo_inferred (demo_lines ! 0)), flag_enc True, observed_enc (demo_attempts ! 0),
      observed_enc (demo_attempts ! 1), to_le_bytes (1 :: u64), inferred_enc (demo_inferred (demo_lines ! 1))]"

lemma demo_seed:
  "sd_context_budget_bytes default_slice = None" "sd_brief default_slice = None" "sd_parent default_slice = None"
  by code_simp+

lemma demo_request:
  assumes "rs_seed st = default_slice" "rs_repair_used st = 0" "rs_last_observation st \<in> {None, Some (str_bytes ''ok'')}"
  shows "infer_request_ok (infer_request_of st)"
  using assms
  by (auto simp: infer_request_ok_def infer_request_of_def run_repair_hint_def demo_seed checked_sub_def
      last_observation_cap_def str_bytes_def)

text \<open>A gather, an inference, the call's way to its verification.\<close>

lemma demo_gather:
  assumes "rs_sm st = S_Gather" "rs_seed st = default_slice" "exhausted_unit (rs_budget st) = None"
  shows "play (run_dispatch k st) as = ([], Returned (st\<lparr>rs_sm := S_Infer\<rparr>))"
  using assms by (simp add: run_dispatch_def gather_def demo_seed run_advance_simps)

lemma demo_infer:
  assumes "rs_sm st = S_Infer" "infer_request_ok (infer_request_of st)" "consume_turn (rs_budget st) = Inr b"
    "length l \<le> output_cap"
  shows "\<exists>i st1. (\<forall>as. play (run_dispatch k st) (Ans_Completed (inferred_enc (demo_inferred l)) # as) =
      ([(infer_kind, i, Ans_Completed (inferred_enc (demo_inferred l)))],
        case decided (classify l) st1 of Inl e \<Rightarrow> Ended (Faulted e) | Inr st' \<Rightarrow> Returned st')) \<and>
    rs_sm st1 = S_Infer \<and> rs_seed st1 = rs_seed st \<and> rs_budget st1 = b \<and> rs_monitor st1 = rs_monitor st \<and>
    rs_allocator st1 = rs_allocator st \<and> rs_repair_used st1 = rs_repair_used st \<and> rs_compact st1 = rs_compact st"
  using assms
  by (intro exI [of _ "infer_request_enc (infer_request_of st)"]
      exI [of _ "fold_simple K_ModelDecision 0 (digest_of_bytes l) O_Ok P_NoProgress []
        (st\<lparr>rs_prompt_bytes := saturating_add (rs_prompt_bytes st) 0, rs_budget := b, rs_turns_used := rs_turns_used st + 1\<rparr>)"])
    (simp add: run_dispatch_def infer_turn_def play_bind play_attempt play_activity encoded_infer decode_enc
      demo_inferred_def inferred_ok_def Let_def split: sum.split)

lemma demo_authorize:
  assumes "rs_sm st = S_Authorize" "rs_call st = Some demo_call" "rs_seed st = default_slice"
    "b_mutations (rs_budget st) = 4" "rs_compact st = None"
  shows "\<exists>st'. (\<forall>as. play (run_dispatch demo_kernel st) (Ans_Completed (flag_enc True) # as) =
      ([(probe_kind, [3], Ans_Completed (flag_enc True))], Returned st')) \<and>
    rs_sm st' = S_Observe \<and> rs_seed st' = default_slice \<and> rs_monitor st' = rs_monitor st \<and>
    rs_budget st' = (rs_budget st)\<lparr>b_mutations := 3\<rparr> \<and> rs_repair_used st' = rs_repair_used st \<and> rs_compact st' = None \<and>
    rs_last_observation st' = rs_last_observation st \<and>
    rs_intent st' = Some \<lparr>it_seq = rs_allocator st, it_tool = 2, it_args = demo_args, it_digest = fnv1a64 demo_args,
      it_tool_args = GpioPinWrite (Pin 3) L_High, it_write = True, it_attempt = 0, it_t0 = None\<rparr>"
proof -
  have "lookup_by_id (ToolId 2) = Some (catalog ! 1)" "tc_permission (catalog ! 1) = Perm_IdempotentWrite"
    "authorize (sd_capabilities default_slice) (catalog ! 1) (GpioPinWrite (Pin 3) L_High) = Inr ()"
    by code_simp+
  then obtain e where e: "lookup_by_id (ToolId 2) = Some e" "tc_permission e = Perm_IdempotentWrite"
    "authorize (sd_capabilities default_slice) e (GpioPinWrite (Pin 3) L_High) = Inr ()" by blast
  have p: "probed_decode (flag_enc True) = Inr True" by code_simp
  show ?thesis using assms
    by (auto simp: run_dispatch_def authorize_call_def play_bind play_attempt play_activity e p demo_call_def probe_write_def
        Let_def path_ruled_out_def demo_kernel_def spend_mutation_def consume_mutation_def checked_sub_def run_advance_simps
        commit_intent_def)
qed

lemma demo_attempt_request:
  "tool_request_ok (tool_request_of i) \<longleftrightarrow> it_attempt i \<noteq> 0 \<and> length (it_args i) \<le> output_cap"
  by (simp add: tool_request_ok_def)

lemma demo_outcomes: "observed_ok (demo_attempts ! 0)" "observed_ok (demo_attempts ! 1)"
  by code_simp+

lemma demo_transient:
  assumes "rs_sm st = S_Observe" "rs_intent st = Some i" "it_attempt i = 0" "it_args i = demo_args"
  shows "\<exists>st' q. (\<forall>as. play (run_dispatch k st) (Ans_Completed (observed_enc (demo_attempts ! 0)) # as) =
      ([(tool_kind, q, Ans_Completed (observed_enc (demo_attempts ! 0)))], Returned st')) \<and>
    rs_sm st' = S_Observe \<and> rs_seed st' = rs_seed st \<and> rs_monitor st' = rs_monitor st \<and> rs_budget st' = rs_budget st \<and>
    rs_repair_used st' = rs_repair_used st \<and> rs_compact st' = rs_compact st \<and> rs_intent st' = Some (i\<lparr>it_attempt := 1\<rparr>)"
proof -
  have "length demo_args \<le> output_cap" "\<not> max_transient_attempts \<le> 1" by code_simp+
  then show ?thesis using assms decode_enc(2) [OF demo_outcomes(1)]
    by (auto simp: run_dispatch_def observe_attempt_def play_bind play_attempt play_activity saturating_add_def encoded_tool
        demo_attempt_request Let_def retry_attempt_def commit_attempt_def demo_attempts_def observed_TRANSIENT_def
        run_advance_simps)
qed

lemma demo_observe:
  assumes "rs_sm st = S_Observe" "rs_intent st = Some i" "it_attempt i = 1" "it_args i = demo_args" "it_write i"
    "it_tool_args i = GpioPinWrite (Pin 3) L_High"
  shows "\<exists>st' q. (\<forall>as. play (run_dispatch k st) (Ans_Completed (observed_enc (demo_attempts ! 1)) # as) =
      ([(tool_kind, q, Ans_Completed (observed_enc (demo_attempts ! 1)))], Returned st')) \<and>
    rs_sm st' = S_Verify \<and> rs_seed st' = rs_seed st \<and> rs_monitor st' = rs_monitor st \<and> rs_budget st' = rs_budget st \<and>
    rs_repair_used st' = rs_repair_used st \<and> rs_compact st' = rs_compact st \<and>
    rs_last_observation st' = Some (str_bytes ''ok'') \<and> rs_intent st' = Some (i\<lparr>it_attempt := 2\<rparr>)"
proof -
  have "length demo_args \<le> output_cap" by code_simp
  moreover have "buf_prefix last_observation_cap (str_bytes ''ok'') = str_bytes ''ok''" by code_simp
  ultimately show ?thesis using assms decode_enc(2) [OF demo_outcomes(2)]
    by (auto simp: run_dispatch_def observe_attempt_def play_bind play_attempt play_activity saturating_add_def encoded_tool
        demo_attempt_request Let_def observe_done_def commit_attempt_def demo_attempts_def is_delay_def run_advance_simps)
qed

lemma demo_verify:
  assumes "rs_sm st = S_Verify" "rs_intent st = Some i" "it_tool_args i = GpioPinWrite (Pin 3) L_High"
  shows "\<exists>st' q. (\<forall>as. play (run_dispatch k st) (Ans_Completed (to_le_bytes (1 :: u64)) # as) =
      ([(verify_kind, q, Ans_Completed (to_le_bytes (1 :: u64)))], Returned st')) \<and>
    rs_sm st' = S_Account \<and> rs_seed st' = rs_seed st \<and> rs_monitor st' = rs_monitor st \<and> rs_budget st' = rs_budget st \<and>
    rs_repair_used st' = rs_repair_used st \<and> rs_compact st' = rs_compact st \<and>
    rs_last_observation st' = rs_last_observation st \<and>
    rs_step st' = Some (step_record_ok (ToolId (it_tool i)) (Digest (it_digest i)) P_StateChanged)"
proof -
  have "verified_decode (to_le_bytes (1 :: u64)) = Inr 1" by (simp add: payload_exact)
  then show ?thesis using assms
    by (auto simp: run_dispatch_def verify_intent_def play_bind play_attempt play_activity encoded_verify intent_check_def
        Let_def commit_verification_def run_advance_simps)
qed

lemma demo_account:
  assumes "rs_sm st = S_Account" "rs_step st = Some r" "monitor_observe (rs_monitor st) r (rs_budget st) = (m, monitor_verdict.Continue)"
  shows "play (run_dispatch k st) as = ([], Returned (st\<lparr>rs_step := None, rs_intent := None, rs_monitor := m, rs_sm := S_Gather\<rparr>))"
  using assms by (simp add: run_dispatch_def account_step_def run_advance_simps)

lemma demo_finalize:
  assumes "rs_sm st = S_Finalize" "rs_finish st = Some s" "length s \<le> output_cap"
  shows "\<exists>p st'. play (run_dispatch k st) as = ([], Ended (Completed p st'))"
proof -
  let ?t = "\<lparr>tr_status = T_Completed, tr_reason = take max_reason (str_bytes ''model_finished''), tr_summary = s\<rparr>"
  have "encoded (terminal_encode ?t) = Inr (terminal_enc ?t)" using assms(3) by (simp add: encoded_terminal terminal_ok_def)
  then show ?thesis using assms(1,2)
    by (simp add: run_dispatch_def finalize_run_def terminate_def play_bind play_attempt run_advance_simps)
qed

definition demo_events :: "(bytes \<times> bytes \<times> bytes \<times> bytes \<times> bytes) \<Rightarrow> history" where
  "demo_events = (\<lambda>(i, q, q', v, i').
     [(infer_kind, i, demo_answers ! 0), (probe_kind, [3], demo_answers ! 1), (tool_kind, q, demo_answers ! 2),
      (tool_kind, q', demo_answers ! 3), (verify_kind, v, demo_answers ! 4), (infer_kind, i', demo_answers ! 5)])"

lemma demo_start:
  "play (run_workflow demo_kernel demo_input) as =
   play (run_loop demo_kernel ((run_reset demo_kernel default_slice)\<lparr>rs_sm := S_Gather\<rparr>)) as"
  by (simp add: run_workflow_def demo_input_decode demo_valid demo_seed run_advance_simps)

lemma demo_monitor:
  "\<exists>m. monitor_observe monitor_new (step_record_ok (ToolId 2) (Digest (fnv1a64 demo_args)) P_StateChanged)
     ((starting_budget default_slice)\<lparr>b_model_turns := 9, b_mutations := 3\<rparr>) = (m, monitor_verdict.Continue)"
proof -
  have "snd (monitor_observe monitor_new (step_record_ok (ToolId 2) (Digest (fnv1a64 demo_args)) P_StateChanged)
     ((starting_budget default_slice)\<lparr>b_model_turns := 9, b_mutations := 3\<rparr>)) = monitor_verdict.Continue"
    by code_simp
  then show ?thesis by (metis prod.collapse)
qed

lemma demo_budgets:
  "exhausted_unit (starting_budget default_slice) = None"
  "consume_turn (starting_budget default_slice) = Inr ((starting_budget default_slice)\<lparr>b_model_turns := 9\<rparr>)"
  "b_mutations ((starting_budget default_slice)\<lparr>b_model_turns := 9\<rparr>) = 4"
  "exhausted_unit ((starting_budget default_slice)\<lparr>b_model_turns := 9, b_mutations := 3\<rparr>) = None"
  "consume_turn ((starting_budget default_slice)\<lparr>b_model_turns := 9, b_mutations := 3\<rparr>) =
     Inr ((starting_budget default_slice)\<lparr>b_model_turns := 8, b_mutations := 3\<rparr>)"
  "length (demo_lines ! 0) \<le> output_cap" "length (demo_lines ! 1) \<le> output_cap" "length (str_bytes ''ok'') \<le> output_cap"
  by code_simp+

lemma demo_reset:
  "rs_monitor (run_reset demo_kernel default_slice) = monitor_new" "rs_repair_used (run_reset demo_kernel default_slice) = 0"
  "rs_last_observation (run_reset demo_kernel default_slice) = None"
  by (simp_all add: run_reset_def run_data_of_def)

lemma demo_run:
  "\<exists>x p st. play (run_workflow demo_kernel demo_input :: (u32, 'r) run_flow) demo_answers = (demo_events x, Ended (Completed p st))"
proof -
  define s0 where "s0 = (run_reset demo_kernel default_slice)\<lparr>rs_sm := S_Gather\<rparr>"
  define s1 where "s1 = s0\<lparr>rs_sm := S_Infer\<rparr>"
  let ?b = "(starting_budget default_slice)\<lparr>b_model_turns := 9\<rparr>"
  have g: "play (run_dispatch demo_kernel s0) as = ([], Returned s1)" for as
    unfolding s1_def by (rule demo_gather) (simp_all add: s0_def demo_budgets)
  have f1: "rs_sm s1 = S_Infer" "rs_seed s1 = default_slice" "rs_budget s1 = starting_budget default_slice"
    "rs_monitor s1 = monitor_new" "rs_repair_used s1 = 0" "rs_last_observation s1 = None" "rs_compact s1 = None"
    by (simp_all add: s1_def s0_def demo_reset)
  have r1: "infer_request_ok (infer_request_of s1)" by (rule demo_request) (simp_all add: f1)
  obtain i t1 where t1: "\<And>as. play (run_dispatch demo_kernel s1) (demo_answers ! 0 # as) = ([(infer_kind, i, demo_answers ! 0)],
        case decided (classify (demo_lines ! 0)) t1 of Inl e \<Rightarrow> Ended (Faulted e) | Inr st' \<Rightarrow> Returned st')"
    "rs_sm t1 = S_Infer" "rs_seed t1 = default_slice" "rs_budget t1 = ?b" "rs_monitor t1 = monitor_new"
    "rs_repair_used t1 = 0" "rs_compact t1 = None"
    using demo_infer [OF f1(1) r1, of ?b "demo_lines ! 0" demo_kernel] f1 demo_budgets
    by (auto simp: demo_answers_def)
  define s2 where "s2 = t1\<lparr>rs_call := Some demo_call, rs_sm := S_Authorize\<rparr>"
  have d2: "play (run_dispatch demo_kernel s1) (demo_answers ! 0 # as) = ([(infer_kind, i, demo_answers ! 0)], Returned s2)" for as
    using t1(1,2) by (simp add: demo_call_line decided_def run_advance_simps s2_def)
  obtain s3 where s3: "\<And>as. play (run_dispatch demo_kernel s2) (demo_answers ! 1 # as) =
      ([(probe_kind, [3], demo_answers ! 1)], Returned s3)" "rs_sm s3 = S_Observe" "rs_seed s3 = default_slice"
    "rs_monitor s3 = monitor_new" "rs_budget s3 = ?b\<lparr>b_mutations := 3\<rparr>" "rs_repair_used s3 = 0" "rs_compact s3 = None"
    and i3: "\<exists>q. rs_intent s3 = Some \<lparr>it_seq = q, it_tool = 2, it_args = demo_args, it_digest = fnv1a64 demo_args,
      it_tool_args = GpioPinWrite (Pin 3) L_High, it_write = True, it_attempt = 0, it_t0 = None\<rparr>"
    using demo_authorize [of s2] t1 demo_budgets by (auto simp: s2_def demo_answers_def)
  obtain n where n: "rs_intent s3 = Some \<lparr>it_seq = n, it_tool = 2, it_args = demo_args, it_digest = fnv1a64 demo_args,
      it_tool_args = GpioPinWrite (Pin 3) L_High, it_write = True, it_attempt = 0, it_t0 = None\<rparr>" using i3 by blast
  obtain s4 q where s4: "\<And>as. play (run_dispatch demo_kernel s3) (demo_answers ! 2 # as) =
      ([(tool_kind, q, demo_answers ! 2)], Returned s4)" "rs_sm s4 = S_Observe" "rs_seed s4 = default_slice"
    "rs_monitor s4 = monitor_new" "rs_budget s4 = ?b\<lparr>b_mutations := 3\<rparr>" "rs_repair_used s4 = 0" "rs_compact s4 = None"
    "rs_intent s4 = Some \<lparr>it_seq = n, it_tool = 2, it_args = demo_args, it_digest = fnv1a64 demo_args,
      it_tool_args = GpioPinWrite (Pin 3) L_High, it_write = True, it_attempt = 1, it_t0 = None\<rparr>"
    using demo_transient [OF s3(2) n, of demo_kernel] s3 by (auto simp: demo_answers_def)
  obtain s5 q' where s5: "\<And>as. play (run_dispatch demo_kernel s4) (demo_answers ! 3 # as) =
      ([(tool_kind, q', demo_answers ! 3)], Returned s5)" "rs_sm s5 = S_Verify" "rs_seed s5 = default_slice"
    "rs_monitor s5 = monitor_new" "rs_budget s5 = ?b\<lparr>b_mutations := 3\<rparr>" "rs_repair_used s5 = 0" "rs_compact s5 = None"
    "rs_last_observation s5 = Some (str_bytes ''ok'')"
    "rs_intent s5 = Some \<lparr>it_seq = n, it_tool = 2, it_args = demo_args, it_digest = fnv1a64 demo_args,
      it_tool_args = GpioPinWrite (Pin 3) L_High, it_write = True, it_attempt = 2, it_t0 = None\<rparr>"
    using demo_observe [OF s4(2,8), of demo_kernel] s4 by (auto simp: demo_answers_def)
  obtain s6 v where s6: "\<And>as. play (run_dispatch demo_kernel s5) (demo_answers ! 4 # as) =
      ([(verify_kind, v, demo_answers ! 4)], Returned s6)" "rs_sm s6 = S_Account" "rs_seed s6 = default_slice"
    "rs_monitor s6 = monitor_new" "rs_budget s6 = ?b\<lparr>b_mutations := 3\<rparr>" "rs_repair_used s6 = 0" "rs_compact s6 = None"
    "rs_last_observation s6 = Some (str_bytes ''ok'')"
    "rs_step s6 = Some (step_record_ok (ToolId 2) (Digest (fnv1a64 demo_args)) P_StateChanged)"
    using demo_verify [OF s5(2,9), of demo_kernel] s5 by (auto simp: demo_answers_def)
  obtain m where m: "monitor_observe (rs_monitor s6) (step_record_ok (ToolId 2) (Digest (fnv1a64 demo_args)) P_StateChanged)
      (rs_budget s6) = (m, monitor_verdict.Continue)"
    using demo_monitor s6(4,5) by auto
  define s7 where "s7 = s6\<lparr>rs_step := None, rs_intent := None, rs_monitor := m, rs_sm := S_Gather\<rparr>"
  have d7: "play (run_dispatch demo_kernel s6) as = ([], Returned s7)" for as
    unfolding s7_def by (rule demo_account [OF s6(2,9) m])
  define s8 where "s8 = s7\<lparr>rs_sm := S_Infer\<rparr>"
  have d8: "play (run_dispatch demo_kernel s7) as = ([], Returned s8)" for as
    unfolding s8_def by (rule demo_gather) (simp_all add: s7_def s6 demo_budgets)
  have f8: "rs_sm s8 = S_Infer" "rs_budget s8 = ?b\<lparr>b_mutations := 3\<rparr>" by (simp_all add: s8_def s7_def s6)
  have r8: "infer_request_ok (infer_request_of s8)" by (rule demo_request) (simp_all add: s8_def s7_def s6)
  obtain i' t8 where t8: "\<And>as. play (run_dispatch demo_kernel s8) (demo_answers ! 5 # as) = ([(infer_kind, i', demo_answers ! 5)],
        case decided (classify (demo_lines ! 1)) t8 of Inl e \<Rightarrow> Ended (Faulted e) | Inr st' \<Rightarrow> Returned st')"
    "rs_sm t8 = S_Infer"
    using demo_infer [OF f8(1) r8, of _ "demo_lines ! 1" demo_kernel] f8(2) demo_budgets by (auto simp: demo_answers_def)
  define s9 where "s9 = t8\<lparr>rs_finish := Some (str_bytes ''ok''), rs_sm := S_Finalize\<rparr>"
  have d9: "play (run_dispatch demo_kernel s8) (demo_answers ! 5 # as) = ([(infer_kind, i', demo_answers ! 5)], Returned s9)" for as
    using t8 by (simp add: demo_finish_line [unfolded One_nat_def] decided_def run_advance_simps s9_def)
  obtain p st where e: "play (run_dispatch demo_kernel s9) [] = ([], Ended (Completed p st))"
    using demo_finalize [of s9 "str_bytes ''ok''" demo_kernel "[]"] demo_budgets by (auto simp: s9_def)
  have as: "demo_answers = [demo_answers ! 0, demo_answers ! 1, demo_answers ! 2, demo_answers ! 3, demo_answers ! 4, demo_answers ! 5]"
    by (simp add: demo_answers_def)
  have "play (run_loop demo_kernel s0 :: (u32, 'r) run_flow) demo_answers = (demo_events (i, q, q', v, i'), Ended (Completed p st))"
    unfolding demo_events_def
    by (subst as, simp only: prod.case)
      (rule play_loop_skip [OF g] play_loop_step [OF d2] play_loop_step [OF s3(1)] play_loop_step [OF s4(1)]
        play_loop_step [OF s5(1)] play_loop_step [OF s6(1)] play_loop_skip [OF d7] play_loop_skip [OF d8]
        play_loop_step [OF d9] play_loop_end [OF e])+
  then show ?thesis unfolding demo_start s0_def by blast
qed

end
