(* ===== verification/Run_Bounds.thy ===== *)
theory Run_Bounds
  imports Run_Demo
begin

text \<open>
  What a run may spend. The stores the workflow keeps stay well formed, so a rollover always fits
  its pages, and a potential on the state bounds the activities still to come: a turn is worth at
  most one inference, one probe, three attempts and one verification.
\<close>

section \<open>The stores\<close>

definition open_sound :: "open_effect \<Rightarrow> bool" where
  "open_sound op \<longleftrightarrow> key_wire (oe_key op) \<and> pred_option note_ok (oe_label op) \<and> pred_option note_ok (oe_value op)"

definition harvester_sound :: "harvester \<Rightarrow> bool" where
  "harvester_sound h \<longleftrightarrow> hv_provenance h = no_provenance \<and> length (hv_kept h) = max_observations \<and>
     list_all entry_wire (harvester_kept h) \<and> pred_option open_sound (hv_open h)"

lemma length_fill_free: "fill_free x s = Some s' \<Longrightarrow> length s' = length s"
  by (induction s arbitrary: s' rule: fill_free.induct) auto

lemma set_fill_free: "fill_free x s = Some s' \<Longrightarrow> set (flatten s') \<subseteq> insert x (set (flatten s))"
  by (induction s arbitrary: s' rule: fill_free.induct) auto

lemma set_flatten_iff: "x \<in> set (flatten s) \<longleftrightarrow> Some x \<in> set s"
  by (induction s rule: flatten.induct) auto

lemma remove_slot_facts: "length (remove_slot i s) = length s" "set (flatten (remove_slot i s)) \<subseteq> set (flatten s)"
  by (auto simp: remove_slot_def set_flatten_iff dest: in_set_takeD in_set_dropD)

lemma keep_entry_facts:
  "length (keep_entry s e) = length s" "set (flatten (keep_entry s e)) \<subseteq> insert e (set (flatten s))"
proof -
  define s1 where "s1 = (case position (\<lambda>slot. case slot of None \<Rightarrow> False | Some k \<Rightarrow> me_key k = me_key e) s of
      Some i \<Rightarrow> remove_slot i s | None \<Rightarrow> s)"
  define s2 where "s2 = (if list_all (\<lambda>slot. slot \<noteq> None) s1 then remove_slot 0 s1 else s1)"
  have s1: "length s1 = length s" "set (flatten s1) \<subseteq> set (flatten s)"
    using remove_slot_facts(1) by (auto simp: s1_def dest: subsetD [OF remove_slot_facts(2)] split: option.splits)
  have s2: "length s2 = length s" "set (flatten s2) \<subseteq> set (flatten s)"
    using remove_slot_facts [of 0 s1] s1 by (auto simp: s2_def)
  have k: "keep_entry s e = (case fill_free e s2 of Some s3 \<Rightarrow> s3 | None \<Rightarrow> s2)"
    by (simp only: keep_entry_def s2_def s1_def Let_def)
  show "length (keep_entry s e) = length s" using s2(1) by (auto simp: k dest: length_fill_free split: option.split)
  show "set (flatten (keep_entry s e)) \<subseteq> insert e (set (flatten s))"
    using s2(2) by (auto simp: k dest: subsetD [OF set_fill_free] split: option.split)
qed

lemma no_provenance_wire: "provenance_wire no_provenance"
  by (simp add: no_provenance_def provenance_wire_def)

lemma close_sound: "harvester_sound h \<Longrightarrow> harvester_sound (harvester_close h) \<and> hv_open (harvester_close h) = None"
proof (cases "hv_open h")
  case (Some op)
  assume h: "harvester_sound h"
  then have wire: "entry_wire \<lparr>me_key = oe_key op, me_label = l, me_value = v, me_provenance = no_provenance, me_stamp = 0\<rparr>"
    if "oe_label op = Some l" "oe_value op = Some v" for l v
    using that Some by (simp add: harvester_sound_def open_sound_def entry_wire_def no_provenance_wire)
  show ?thesis
  proof (cases "oe_label op = None \<or> oe_value op = None \<or> oe_mutating op \<and> \<not> oe_verified op")
    case True
    then have "harvester_close h = h\<lparr>hv_open := None\<rparr>"
      by (auto simp: harvester_close_def Some Let_def split: option.splits)
    then show ?thesis using h by (simp add: harvester_sound_def harvester_kept_def)
  next
    case False
    then obtain l v where lv: "oe_label op = Some l" "oe_value op = Some v" "\<not> (oe_mutating op \<and> \<not> oe_verified op)" by auto
    let ?e = "\<lparr>me_key = oe_key op, me_label = l, me_value = v, me_provenance = no_provenance, me_stamp = 0\<rparr>"
    have c: "harvester_close h = h\<lparr>hv_open := None, hv_kept := keep_entry (hv_kept h) ?e\<rparr>"
      using h lv by (auto simp: harvester_close_def Some harvester_sound_def Let_def)
    show ?thesis using h wire [OF lv(1,2)] keep_entry_facts [of "hv_kept h" ?e]
      by (auto simp: c harvester_sound_def harvester_kept_def list_all_iff)
  qed
qed (simp add: harvester_close_def)

lemma seal_sound: "harvester_sound h \<Longrightarrow> harvester_sound (harvester_seal h)"
  by (simp add: harvester_seal_def close_sound)

lemma ingest_sound: "pred_option note_ok (ok_of (ingest bs))"
  by (auto simp: ok_of_def note_clean_def dest: masked_ingest.ing_clean split: sum.split)

lemma request_sound: "harvester_sound h \<Longrightarrow> harvester_sound (harvester_request h q t args)"
  using close_sound [of h] ingest_sound
  by (auto simp: harvester_request_def harvester_sound_def open_sound_def harvester_kept_def request_label_def key_wire_def Let_def)

lemma observation_sound: "harvester_sound h \<Longrightarrow> harvester_sound (harvester_observation h q ok bs)"
  by (auto simp: harvester_observation_def harvester_sound_def open_sound_def harvester_kept_def ingest_sound split: option.split)

lemma verification_sound: "harvester_sound h \<Longrightarrow> harvester_sound (harvester_verification h q passed)"
  by (auto simp: harvester_verification_def harvester_sound_def open_sound_def harvester_kept_def split: option.split)

lemma new_sound: "harvester_sound (harvester_new no_provenance)"
  by (simp add: harvester_new_def harvester_sound_def harvester_kept_def)

lemma resume_sound:
  "harvester_resume no_provenance es = Inr h \<Longrightarrow> list_all entry_wire es \<Longrightarrow> harvester_sound h \<and> harvester_kept h = es \<and> hv_open h = None"
  by (auto simp: harvester_resume_def harvester_sound_def harvester_kept_def harvester_new_def flatten_append
      flatten_map_Some drop_replicate split: if_splits)

lemma sound_few: "harvester_sound h \<Longrightarrow> length (harvester_kept h) \<le> 5"
  using length_flatten [of "hv_kept h"]
  by (simp add: harvester_sound_def harvester_kept_def max_observations_def max_harvest_def)

definition stores_ok :: "'al run_data \<Rightarrow> bool" where
  "stores_ok st \<longleftrightarrow> cs_ok (rs_fold st) \<and> harvester_sound (rs_harvester st)"

lemma fold_frame_ok: "cs_ok (rs_fold st) \<Longrightarrow> cs_ok (rs_fold (fold_frame f st))"
proof -
  assume ok: "cs_ok (rs_fold st)"
  obtain s' r where c: "compact [f] default_policy (rs_fold st) = (s', r)" by fastforce
  have "cs_ok s'" using compact_effect [OF ok c] by (simp add: extends_def)
  then show ?thesis using ok by (cases r) (simp_all add: fold_frame_def c Let_def)
qed

lemma fold_simple_ok: "stores_ok st \<Longrightarrow> stores_ok (fold_simple a b c d e f st)"
  by (simp add: stores_ok_def fold_simple_def fold_frame_ok)

lemma reset_stores: "stores_ok (run_reset k seed)"
  unfolding run_reset_def stores_ok_def
  by (auto intro!: fold_frame_ok simp: run_data_of_def cs_ok_new new_sound)

section \<open>The potential\<close>

definition infers :: "history \<Rightarrow> nat" where
  "infers h = length (filter (\<lambda>(k, i, a). k = infer_kind) h)"

definition first_write :: "u16 \<times> bytes \<times> answer \<Rightarrow> bool" where
  "first_write e = (case e of (k, i, a) \<Rightarrow> k = tool_kind \<and>
     (case tool_request_decode i of Inl _ \<Rightarrow> False | Inr q \<Rightarrow> tq_write q \<and> tq_attempt q = 1))"

definition first_writes :: "history \<Rightarrow> nat" where
  "first_writes h = length (filter first_write h)"

lemma counts_snoc [simp]:
  "infers [] = 0" "infers (h @ [(k, i, a)]) = infers h + (if k = infer_kind then 1 else 0)"
  "first_writes [] = 0" "first_writes (h @ [e]) = first_writes h + (if first_write e then 1 else 0)"
  by (simp_all add: infers_def first_writes_def)

lemma first_write_tool [simp]: "k \<noteq> tool_kind \<Longrightarrow> \<not> first_write (k, i, a)"
  by (simp add: first_write_def)

text \<open>The activities the current turn may still ask for, and the write a granted intent still owes.\<close>

definition turn_cost :: "'al run_data \<Rightarrow> nat" where
  "turn_cost st =
     (case rs_sm st of
        S_Authorize \<Rightarrow> 5
      | S_Observe \<Rightarrow> (case rs_intent st of None \<Rightarrow> 0 | Some i \<Rightarrow> 4 - unat (it_attempt i))
      | S_Verify \<Rightarrow> 1
      | S_AwaitInput \<Rightarrow> 1
      | _ \<Rightarrow> 0)"

definition owed_write :: "'al run_data \<Rightarrow> nat" where
  "owed_write st =
     (if rs_sm st = S_Observe \<and> (\<exists>i. rs_intent st = Some i \<and> it_write i \<and> it_attempt i = 0) then 1 else 0)"

definition turns_left :: "'al run_data \<Rightarrow> nat" where "turns_left st = unat (b_model_turns (rs_budget st))"
definition writes_left :: "'al run_data \<Rightarrow> nat" where "writes_left st = unat (b_mutations (rs_budget st))"

text \<open>A rollover stores at most six chunks and five entries.\<close>

definition rollover_cost :: nat where "rollover_cost = 11"

definition affords :: "nat \<Rightarrow> nat \<Rightarrow> nat \<Rightarrow> history \<Rightarrow> 'al run_data \<Rightarrow> bool" where
  "affords B T M h st \<longleftrightarrow> stores_ok st \<and>
     length h + turn_cost st + 6 * turns_left st + rollover_cost \<le> B \<and>
     infers h + turns_left st \<le> T \<and> first_writes h + owed_write st + writes_left st \<le> M \<and>
     (rs_sm st = S_Infer \<longrightarrow> 0 < turns_left st)"

definition spent :: "nat \<Rightarrow> nat \<Rightarrow> nat \<Rightarrow> history \<Rightarrow> 'z \<Rightarrow> bool" where
  "spent B T M h z \<longleftrightarrow> length h \<le> B \<and> infers h \<le> T \<and> first_writes h \<le> M"

definition room :: "nat \<Rightarrow> nat \<Rightarrow> nat \<Rightarrow> history \<Rightarrow> u16 \<Rightarrow> bytes \<Rightarrow> bool" where
  "room B T M h k i \<longleftrightarrow> length h < B \<and> infers h \<le> T \<and> first_writes h \<le> M"

lemma affords_within: "affords B T M h st \<Longrightarrow> length h \<le> B \<and> infers h \<le> T \<and> first_writes h \<le> M"
  by (simp add: affords_def)

text \<open>The storing and loading loops ask for one activity per element.\<close>

lemma store_chunks_room:
  "length h + length xs \<le> B \<Longrightarrow> infers h \<le> T \<Longrightarrow> first_writes h \<le> M \<Longrightarrow>
   holds (room B T M) (spent B T M) (\<lambda>h' _. length h' \<le> length h + length xs \<and> infers h' = infers h \<and> first_writes h' = first_writes h)
     (store_chunks d bs xs) h"
proof (induction xs arbitrary: h)
  case (Cons x xs)
  show ?case using Cons.prems
    by (auto simp: Let_def error_split room_def spent_def intro!: holds_mono [OF Cons.IH])
qed simp

lemma store_items_room:
  "length h + length es \<le> B \<Longrightarrow> infers h \<le> T \<Longrightarrow> first_writes h \<le> M \<Longrightarrow>
   holds (room B T M) (spent B T M) (\<lambda>h' _. length h' \<le> length h + length es \<and> infers h' = infers h \<and> first_writes h' = first_writes h)
     (store_items d n es) h"
proof (induction es arbitrary: h n)
  case (Cons e es)
  show ?case using Cons.prems
    by (auto simp: error_split room_def spent_def split: prod.split intro!: holds_mono [OF Cons.IH])
qed simp

lemma load_chunks_room:
  "length h + length xs \<le> B \<Longrightarrow> infers h \<le> T \<Longrightarrow> first_writes h \<le> M \<Longrightarrow>
   holds (room B T M) (spent B T M) (\<lambda>h' _. length h' \<le> length h + length xs \<and> infers h' = infers h \<and> first_writes h' = first_writes h)
     (load_chunks d len xs buf) h"
proof (induction xs arbitrary: h buf)
  case (Cons x xs)
  show ?case using Cons.prems
    by (auto simp: Let_def error_split room_def spent_def intro!: holds_mono [OF Cons.IH])
qed simp

lemma decode_entry_wire: "decode_entry bs = Inr e \<Longrightarrow> entry_wire e"
  by (auto simp: decode_entry_def result_simps entry_c.get_iff split: if_splits)

lemma load_items_room:
  "length h + length xs \<le> B \<Longrightarrow> infers h \<le> T \<Longrightarrow> first_writes h \<le> M \<Longrightarrow>
   holds (room B T M) (spent B T M) (\<lambda>h' es. length h' \<le> length h + length xs \<and> infers h' = infers h \<and> first_writes h' = first_writes h \<and>
        list_all entry_wire es)
     (load_items d xs) h"
proof (induction xs arbitrary: h)
  case (Cons x xs)
  show ?case using Cons.prems
    by (auto simp: error_split result_simps room_def spent_def intro!: holds_mono [OF Cons.IH] dest: decode_entry_wire)
qed simp

lemma snapshot_written:
  assumes "cs_ok s" "snapshot_encode s (replicate max_snapshot_bytes 0) = Inr (out, len)"
  shows "len \<le> max_snapshot_bytes" "slice out 0 len = Some (sealed (snapshot_enc (snapshot_of s)))"
    "len = length (sealed (snapshot_enc (snapshot_of s)))"
proof -
  have "snapshot_encoded_len s \<le> max_snapshot_bytes"
    using assms(2) by (auto simp: snapshot_encode_def split: if_splits)
  then have e: "out = sealed (snapshot_enc (snapshot_of s)) @
      drop (length (sealed (snapshot_enc (snapshot_of s)))) (replicate max_snapshot_bytes 0)"
    "len = length (sealed (snapshot_enc (snapshot_of s)))"
    using snapshot_encode_result [OF assms(1), of "replicate max_snapshot_bytes 0"] assms(2) by (auto simp: Let_def)
  show "slice out 0 len = Some (sealed (snapshot_enc (snapshot_of s)))" using e by (simp add: slice_def)
  show "len = length (sealed (snapshot_enc (snapshot_of s)))" by (fact e(2))
  show "len \<le> max_snapshot_bytes"
    using \<open>snapshot_encoded_len s \<le> max_snapshot_bytes\<close> e(2) by (simp add: snapshot_len)
qed

lemma rollover_room:
  assumes "stores_ok st" "length h + rollover_cost \<le> B" "infers h \<le> T" "first_writes h \<le> M"
  shows "holds (room B T M) (spent B T M) Q (rollover st) h"
proof -
  define st1 where "st1 = (if rs_compact st = None then st\<lparr>rs_fold := (rs_fold st)\<lparr>cs_budgets := rs_budget st\<rparr>\<rparr> else st)"
  have ok: "cs_ok (rs_fold st1)" "harvester_sound (rs_harvester st1)"
    using assms(1) by (auto simp: st1_def stores_ok_def cs_ok_def)
  have kept: "length (harvester_kept (harvester_seal (rs_harvester st1))) \<le> 5"
    using ok(2) seal_sound sound_few by blast
  have cost: "length h + ((len + (snapshot_chunk - 1)) div snapshot_chunk + 5) \<le> B" if "len \<le> max_snapshot_bytes" for len
  proof -
    have "(len + (snapshot_chunk - 1)) div snapshot_chunk \<le> (max_snapshot_bytes + (snapshot_chunk - 1)) div snapshot_chunk"
      using that by (intro div_le_mono) simp
    also have "\<dots> = 6" by (simp add: max_snapshot_bytes_def snapshot_chunk_def)
    finally show ?thesis using assms(2) by (simp add: rollover_cost_def)
  qed
  have items: "holds (room B T M) (spent B T M) P (store_items d 0 (harvester_kept (harvester_seal (rs_harvester st1)))) h1"
    if "length h1 + 5 \<le> B" "infers h1 \<le> T" "first_writes h1 \<le> M"
      "\<And>h' n. length h' \<le> B \<Longrightarrow> infers h' \<le> T \<Longrightarrow> first_writes h' \<le> M \<Longrightarrow> P h' n" for h1 P d
    by (rule holds_mono [OF store_items_room]) (use that kept in auto)
  have chunks: "length h + ((b + (snapshot_chunk - Suc 0)) div snapshot_chunk + 5) \<le> B"
    if "map_err RE_Core (snapshot_encode (rs_fold st1) (replicate max_snapshot_bytes 0)) = Inr (a, b)" for a b
    using cost snapshot_written(1) [OF ok(1)] that by (simp add: result_simps)
  show ?thesis
    unfolding rollover_def st1_def [symmetric]
    using assms
    by (auto simp: Let_def error_split spent_def rollover_cost_def split: option.split prod.split dest!: chunks
        intro!: holds_mono [OF store_chunks_room [where B = B and T = T and M = M]] items)
qed

lemma terminate_room:
  "length h \<le> B \<Longrightarrow> infers h \<le> T \<Longrightarrow> first_writes h \<le> M \<Longrightarrow>
   holds (room B T M) (spent B T M) Q (terminate status reason summary st) h"
  by (auto simp: terminate_def error_split spent_def)

lemma degrade_room:
  "length h \<le> B \<Longrightarrow> infers h \<le> T \<Longrightarrow> first_writes h \<le> M \<Longrightarrow>
   holds (room B T M) (spent B T M) Q (degrade status reason summary st) h"
  by (auto simp: degrade_def error_split spent_def intro: terminate_room)

lemma deny_room:
  "length h \<le> B \<Longrightarrow> infers h \<le> T \<Longrightarrow> first_writes h \<le> M \<Longrightarrow>
   holds (room B T M) (spent B T M) Q (deny status reason summary st) h"
  by (auto simp: deny_def error_split spent_def intro: degrade_room)

section \<open>Every handler pays from the potential\<close>

lemma exhausted_turns: "exhausted_unit b = None \<Longrightarrow> 0 < unat (b_model_turns b)"
  by (auto simp: exhausted_unit_def unat_gt_0 split: if_splits)

lemma gather_affords:
  assumes "affords B T M h st" "rs_sm st = S_Gather"
  shows "holds (room B T M) (spent B T M) (affords B T M) (gather st) h"
proof -
  note s = affords_within [OF assms(1)]
  have next_ok: "exhausted_unit (rs_budget st) = None \<Longrightarrow> affords B T M h (st\<lparr>rs_sm := S_Infer\<rparr>)"
    using assms exhausted_turns [of "rs_budget st"]
    by (simp add: affords_def turn_cost_def owed_write_def turns_left_def writes_left_def stores_ok_def)
  have roll: "holds (room B T M) (spent B T M) Q (rollover (st\<lparr>rs_sm := S_Infer\<rparr>)) h" for Q
    using assms by (intro rollover_room) (auto simp: affords_def stores_ok_def)
  show ?thesis using next_ok roll s
    by (auto simp: gather_def run_advance_simps assms(2) error_split spent_def intro!: degrade_room split: option.split)
qed

lemma repair_affords:
  assumes "affords B T M h st" "rs_sm st = S_Repair"
  shows "holds (room B T M) (spent B T M) (affords B T M) (repair_turn st) h"
proof -
  note s = affords_within [OF assms(1)]
  have next_ok: "0 < b_model_turns (rs_budget st) \<Longrightarrow> affords B T M h (st\<lparr>rs_sm := S_Infer\<rparr>)"
    using assms by (simp add: affords_def turn_cost_def owed_write_def turns_left_def writes_left_def stores_ok_def
        word_less_nat_alt)
  show ?thesis using next_ok s
    by (auto simp: repair_turn_def run_advance_simps assms(2) error_split spent_def intro!: degrade_room)
qed

lemma decided_keeps:
  assumes "decided c st = Inr st'" "rs_sm st = S_Infer"
  shows "rs_sm st' \<in> {S_Authorize, S_AwaitInput, S_Finalize, S_Repair}" "rs_budget st' = rs_budget st"
    "rs_fold st' = rs_fold st" "rs_harvester st' = rs_harvester st"
  using assms by (cases c; auto simp: decided_def run_advance_simps)+

lemma turn_cost_decided: "rs_sm st \<in> {S_Authorize, S_AwaitInput, S_Finalize, S_Repair} \<Longrightarrow> turn_cost st \<le> 5"
  by (auto simp: turn_cost_def)

lemma infer_affords:
  assumes "affords B T M h st" "rs_sm st = S_Infer"
  shows "holds (room B T M) (spent B T M) (affords B T M) (infer_turn st) h"
proof -
  have pos: "0 < turns_left st" and len: "length h + 6 * turns_left st + 11 \<le> B" and inf: "infers h + turns_left st \<le> T"
    and w: "first_writes h + writes_left st \<le> M" and ok: "stores_ok st"
    using assms by (auto simp: affords_def turn_cost_def owed_write_def rollover_cost_def)
  have step: "affords B T M (h @ [(infer_kind, i, a)]) st'"
    if "decided c (fold_simple kd t d oc pr pl (st\<lparr>rs_prompt_bytes := n, rs_budget := b, rs_turns_used := u\<rparr>)) = Inr st'"
      "consume_turn (rs_budget st) = Inr b" for c kd t d oc pr pl n b u st' i a
  proof -
    note k = decided_keeps [OF that(1)]
    have "stores_ok (fold_simple kd t d oc pr pl (st\<lparr>rs_prompt_bytes := n, rs_budget := b, rs_turns_used := u\<rparr>))"
      using ok by (intro fold_simple_ok) (simp add: stores_ok_def)
    then have ok': "stores_ok st'" using k(3,4) assms(2) by (simp add: stores_ok_def)
    have sm: "rs_sm st' \<in> {S_Authorize, S_AwaitInput, S_Finalize, S_Repair}" using k(1) assms(2) by simp
    have b: "rs_budget st' = b" using k(2) assms(2) by simp
    have t: "Suc (turns_left st') = turns_left st" "writes_left st' = writes_left st"
      using turn_taken [OF that(2)] b by (auto simp: turns_left_def writes_left_def)
    have "owed_write st' = 0" "rs_sm st' \<noteq> S_Infer" using sm by (auto simp: owed_write_def)
    then show ?thesis using ok' t turn_cost_decided [OF sm] len inf w by (simp add: affords_def rollover_cost_def)
  qed
  have r: "room B T M h k i" for k i using len inf w by (simp add: room_def)
  show ?thesis unfolding infer_turn_def using pos len inf w
    by (auto simp: Let_def error_split result_simps r spent_def elim: step)
qed

lemma mutation_taken:
  "spend_mutation w st = Inr st' \<Longrightarrow>
   (if w then Suc (writes_left st') else writes_left st') = writes_left st \<and> turns_left st' = turns_left st \<and>
   rs_fold st' = rs_fold st \<and> rs_harvester st' = rs_harvester st \<and> rs_sm st' = rs_sm st"
  by (auto simp: spend_mutation_def consume_mutation_def checked_sub_def writes_left_def turns_left_def result_simps
      unat_sub word_le_nat_alt split: if_splits option.splits)

lemma probe_write_room:
  assumes "length h + 2 \<le> B" "infers h \<le> T" "first_writes h \<le> M"
    "\<And>h'. length h' \<le> Suc (length h) \<Longrightarrow> infers h' = infers h \<Longrightarrow> first_writes h' = first_writes h \<Longrightarrow> Q h' ()"
  shows "holds (room B T M) (spent B T M) Q (probe_write args st) h"
  using assms
  by (cases args) (auto simp: probe_write_def error_split room_def spent_def intro!: deny_room)

lemma authorize_affords:
  assumes "affords B T M h st" "rs_sm st = S_Authorize"
  shows "holds (room B T M) (spent B T M) (affords B T M) (authorize_call k st) h"
proof -
  have len: "length h + 5 + 6 * turns_left st + 11 \<le> B" and inf: "infers h + turns_left st \<le> T"
    and w: "first_writes h + writes_left st \<le> M" and ok: "stores_ok st"
    using assms by (auto simp: affords_def turn_cost_def owed_write_def rollover_cost_def)
  have step: "affords B T M h' st'"
    if "run_advance Ev_Authorized (commit_intent call m seq st1) = Inr st'"
      "spend_mutation m (st\<lparr>rs_call := None, rs_allocator := al\<rparr>) = Inr st1"
      "length h' \<le> Suc (length h)" "infers h' = infers h" "first_writes h' = first_writes h"
    for call m seq st1 st' al h'
  proof -
    let ?c = "commit_intent call m seq st1"
    note t = mutation_taken [OF that(2)]
    have keep: "writes_left (st\<lparr>rs_call := None, rs_allocator := al\<rparr>) = writes_left st"
      "turns_left (st\<lparr>rs_call := None, rs_allocator := al\<rparr>) = turns_left st" by (simp_all add: writes_left_def turns_left_def)
    have sm: "rs_sm ?c = S_Authorize" using t assms(2) by simp
    then have st': "st' = ?c\<lparr>rs_sm := S_Observe\<rparr>" using that(1) by (auto simp: run_advance_simps)
    have "stores_ok st1" using t ok by (simp add: stores_ok_def)
    then have "stores_ok ?c" using fold_simple_ok [OF \<open>stores_ok st1\<close>]
      by (auto simp: commit_intent_def Let_def stores_ok_def request_sound)
    then have ok': "stores_ok st'" by (simp add: st' stores_ok_def)
    have "turn_cost st' = 4" "owed_write st' = (if m then 1 else 0)" "turns_left st' = turns_left st"
      "writes_left st' = writes_left st1"
      using t keep by (simp_all add: st' turn_cost_def owed_write_def turns_left_def writes_left_def commit_intent_def Let_def)
    then show ?thesis using ok' t keep that(3-5) len inf w
      by (auto simp: affords_def st' rollover_cost_def split: if_splits)
  qed
  have gate: "holds (room B T M) (spent B T M) (affords B T M)
      (case authorize c e a of Inl er \<Rightarrow> (case er of E_PermissionDenied _ _ \<Rightarrow> deny T_Denied r t st0 | _ \<Rightarrow> Stop (Faulted x))
        | Inr _ \<Rightarrow> f) h"
    if "holds (room B T M) (spent B T M) (affords B T M) f h" for c e a r t x f and st0 :: "'a run_data"
    using gate_cases [of c e a] that len inf w by (auto intro!: deny_room)
  show ?thesis
    unfolding authorize_call_def
    using len inf w
    by (auto simp: Let_def error_split result_simps spent_def split: prod.split
        intro!: gate probe_write_room deny_room elim: step)
qed

lemma await_affords:
  assumes "affords B T M h st" "rs_sm st = S_AwaitInput"
  shows "holds (room B T M) (spent B T M) (affords B T M) (await_input st) h"
proof -
  have len: "length h + 1 + 6 * turns_left st + 11 \<le> B" and inf: "infers h + turns_left st \<le> T"
    and w: "first_writes h + writes_left st \<le> M" and ok: "stores_ok st"
    using assms by (auto simp: affords_def turn_cost_def owed_write_def rollover_cost_def)
  have step: "affords B T M (h @ [(ask_kind, i, a)]) st'"
    if "run_advance Ev_InputArrived ((fold_simple K_ApprovalDecision 0 d O_Ok P_InputReceived []
          (fold_simple K_ApprovalRequest 0 d' O_Ok P_NoProgress bs st))\<lparr>rs_step := s, rs_ask := None\<rparr>) = Inr st'"
    for d d' bs s st' i a
    using that len inf w fold_simple_ok [OF fold_simple_ok [OF ok]]
    by (auto simp: run_advance_simps assms(2) affords_def turn_cost_def owed_write_def turns_left_def writes_left_def
        stores_ok_def rollover_cost_def)
  show ?thesis unfolding await_input_def using len inf w
    by (auto simp: Let_def error_split result_simps spent_def room_def elim: step)
qed

lemma commit_attempt_ok: "stores_ok st \<Longrightarrow> stores_ok (commit_attempt i obs st)"
  using fold_simple_ok [of st] by (auto simp: commit_attempt_def Let_def stores_ok_def observation_sound)

lemma observe_affords:
  assumes "affords B T M h st" "run_inv caps h st" "rs_sm st = S_Observe"
  shows "holds (room B T M) (spent B T M) (affords B T M) (observe_attempt st) h"
proof -
  have at: "at_observe caps h st" using assms(2,3) by (simp add: run_inv_def)
  obtain i0 where i0: "rs_intent st = Some i0"
    and enc: "encoded (tool_request_encode (tool_request_of (i0\<lparr>it_attempt := saturating_add (it_attempt i0) 1\<rparr>))) =
       Inr (tool_request_enc (tool_request_of (i0\<lparr>it_attempt := saturating_add (it_attempt i0) 1\<rparr>)))"
    and dec: "tool_request_decode (tool_request_enc (tool_request_of (i0\<lparr>it_attempt := saturating_add (it_attempt i0) 1\<rparr>))) =
       Inr (tool_request_of (i0\<lparr>it_attempt := saturating_add (it_attempt i0) 1\<rparr>))"
    and att: "saturating_add (it_attempt i0) 1 = it_attempt i0 + 1" "it_attempt i0 < 3"
    by (rule at_observe_request [OF at])
  define i where "i = i0\<lparr>it_attempt := saturating_add (it_attempt i0) 1\<rparr>"
  note enc = enc [folded i_def] and dec = dec [folded i_def]
  have n: "unat (it_attempt i0) < 3" "unat (it_attempt i) = Suc (unat (it_attempt i0))"
    using att by (simp_all add: i_def word_less_nat_alt unat_word_ariths)
  have len: "length h + (4 - unat (it_attempt i0)) + 6 * turns_left st + 11 \<le> B" and inf: "infers h + turns_left st \<le> T"
    and ok: "stores_ok st" and w: "first_writes h + owed_write st + writes_left st \<le> M"
    using assms(1,3) i0 by (auto simp: affords_def turn_cost_def rollover_cost_def)
  let ?h = "\<lambda>a. h @ [(tool_kind, tool_request_enc (tool_request_of i), a)]"
  have fw: "first_write (tool_kind, tool_request_enc (tool_request_of i), a) \<longleftrightarrow> it_write i0 \<and> it_attempt i0 = 0" for a
  proof -
    have "first_write (tool_kind, tool_request_enc (tool_request_of i), a) \<longleftrightarrow> it_write i \<and> it_attempt i = 1"
      by (simp only: first_write_def dec prod.case sum.case) (simp add: tool_request_of_def)
    then show ?thesis using att(1) by (simp add: i_def)
  qed
  have writes: "first_writes (?h a) + writes_left st \<le> M" for a
    using w i0 assms(3) by (auto simp: fw owed_write_def)
  have base: "length (?h a) + 6 * turns_left st + 11 + (4 - unat (it_attempt i)) \<le> B" "infers (?h a) + turns_left st \<le> T" for a
    using len inf n by auto
  have pays: "affords B T M (?h a) st'"
    if "stores_ok st'" "turns_left st' = turns_left st" "writes_left st' = writes_left st" "owed_write st' = 0"
      "turn_cost st' \<le> 4 - unat (it_attempt i)" "rs_sm st' \<noteq> S_Infer" for a and st' :: "'a run_data"
    using that base [of a] writes [of a] by (simp add: affords_def rollover_cost_def)
  have lim: "length (?h a) \<le> B \<and> infers (?h a) \<le> T \<and> first_writes (?h a) \<le> M" for a
    using base [of a] writes [of a] by linarith
  let ?c = "\<lambda>ob. commit_attempt i ob (st\<lparr>rs_intent := None\<rparr>)"
  have c: "stores_ok (?c ob)" "turns_left (?c ob) = turns_left st" "writes_left (?c ob) = writes_left st" "rs_sm (?c ob) = S_Observe" for ob
  proof -
    show "stores_ok (?c ob)" using ok by (intro commit_attempt_ok) (simp add: stores_ok_def)
  qed (simp_all add: turns_left_def writes_left_def assms(3))
  have retry: "holds (room B T M) (spent B T M) (affords B T M) (retry_attempt i (?c ob)) (?h a)" for ob a
  proof (cases "max_transient_attempts \<le> it_attempt i")
    case True
    then show ?thesis using lim [of a]
      by (auto simp: retry_attempt_def error_split run_advance_simps c spent_def simp del: length_append intro!: degrade_room)
  next
    case False
    have "it_attempt i \<noteq> 0" using n by auto
    then show ?thesis using False c [of ob]
      by (auto simp: retry_attempt_def run_advance_simps stores_ok_def turns_left_def writes_left_def
          owed_write_def turn_cost_def intro!: pays)
  qed
  have finished: "affords B T M (?h a) st'"
    if "observe_done i outc ((?c ob)\<lparr>rs_last_observation := lo\<rparr>) = Inr st'" for a outc ob lo st'
  proof (rule pays)
    have "rs_sm st' \<in> {S_Verify, S_Account}" and st': "rs_budget st' = rs_budget (?c ob)" "rs_fold st' = rs_fold (?c ob)"
      "rs_harvester st' = rs_harvester (?c ob)"
      using that c(4) [of ob] by (auto simp: observe_done_def result_simps run_advance_simps split: if_splits)
    then show "owed_write st' = 0" "rs_sm st' \<noteq> S_Infer" "turn_cost st' \<le> 4 - unat (it_attempt i)"
      using n by (auto simp: owed_write_def turn_cost_def)
    show "stores_ok st'" "turns_left st' = turns_left st" "writes_left st' = writes_left st"
      using c [of ob] st' by (auto simp: stores_ok_def turns_left_def writes_left_def)
  qed
  show ?thesis
    unfolding observe_attempt_def using len lim inf w
    by (auto simp: i0 Let_def error_split enc i_def [symmetric] room_def spent_def fw simp del: length_append counts_snoc
        intro!: retry elim!: finished)
qed

lemma verify_affords:
  assumes "affords B T M h st" "rs_sm st = S_Verify"
  shows "holds (room B T M) (spent B T M) (affords B T M) (verify_intent st) h"
proof -
  have len: "length h + 1 + 6 * turns_left st + 11 \<le> B" and inf: "infers h + turns_left st \<le> T"
    and w: "first_writes h + writes_left st \<le> M" and ok: "stores_ok st"
    using assms by (auto simp: affords_def turn_cost_def owed_write_def rollover_cost_def)
  have c: "stores_ok (commit_verification i p st)" for i p
    using ok fold_simple_ok [of "st\<lparr>rs_harvester := harvester_verification (rs_harvester st) (it_seq i) p\<rparr>"]
    by (auto simp: commit_verification_def Let_def stores_ok_def verification_sound)
  have step: "affords B T M (h @ [(verify_kind, i, a)]) st'"
    if "run_advance (if p then Ev_VerifyPass else Ev_VerifyFail) (commit_verification it p st) = Inr st'" for p it st' i a
    using that len inf w c [of it p]
    by (auto simp: run_advance_simps assms(2) affords_def turn_cost_def owed_write_def turns_left_def writes_left_def
        stores_ok_def rollover_cost_def)
  show ?thesis unfolding verify_intent_def using len inf w
    by (auto simp: Let_def error_split result_simps spent_def room_def elim: step [where p = True, simplified] step [where p = False, simplified])
qed

lemma account_affords:
  assumes "affords B T M h st" "rs_sm st = S_Account"
  shows "holds (room B T M) (spent B T M) (affords B T M) (account_step st) h"
proof -
  note lim = affords_within [OF assms(1)]
  obtain m v where mv: "\<And>step. rs_step st = Some step \<Longrightarrow> monitor_observe (rs_monitor st) step (rs_budget st) = (m, v)"
    by (cases "rs_step st"; cases "monitor_observe (rs_monitor st) (the (rs_step st)) (rs_budget st)") auto
  show ?thesis unfolding account_step_def using assms lim
    by (auto simp: Let_def error_split mv run_advance_simps spent_def affords_def turn_cost_def owed_write_def
        turns_left_def writes_left_def stores_ok_def intro!: degrade_room split: monitor_verdict.split prod.split)
qed

lemma finalize_affords:
  assumes "affords B T M h st"
  shows "holds (room B T M) (spent B T M) Q (finalize_run st) h"
  using affords_within [OF assms] by (auto simp: finalize_run_def error_split spent_def intro!: terminate_room)

lemma dispatch_affords:
  assumes "affords B T M h st" "run_inv caps h st"
  shows "holds (room B T M) (spent B T M) (affords B T M) (run_dispatch k st) h"
  using assms(1) affords_within [OF assms(1)]
  by (cases "rs_sm st")
    (auto simp: run_dispatch_def spent_def intro: gather_affords infer_affords repair_affords authorize_affords await_affords
      observe_affords [OF _ assms(2)] verify_affords account_affords finalize_affords)

section \<open>Whole runs\<close>

lemma load_snapshot_room:
  assumes "length h + 12 \<le> B" "infers h \<le> T" "first_writes h \<le> M" "stores_ok st"
  shows "holds (room B T M) (spent B T M)
     (\<lambda>h' st'. length h' \<le> length h + 12 \<and> infers h' = infers h \<and> first_writes h' = first_writes h \<and>
        stores_ok st' \<and> rs_sm st' = rs_sm st \<and> rs_budget st' = rs_budget st)
     (load_snapshot snap st) h"
proof -
  have chunks: "ref_chunks snap \<le> 6" if "\<not> max_snapshot_bytes < unat (sr_len snap)"
  proof -
    have "ref_chunks snap \<le> (max_snapshot_bytes + (snapshot_chunk - 1)) div snapshot_chunk"
      unfolding ref_chunks_def using that by (intro div_le_mono) simp
    also have "\<dots> = 6" by (simp add: max_snapshot_bytes_def snapshot_chunk_def)
    finally show ?thesis .
  qed
  have folded: "cs_ok s" if "snapshot_decode bs = Inr s" for bs s
    using that by (auto simp: snapshot_decode_iff intro: state_of_ok)
  have items: "holds (room B T M) (spent B T M)
      (\<lambda>h' es. length h' \<le> length h + 12 \<and> infers h' = infers h \<and> first_writes h' = first_writes h \<and> list_all entry_wire es)
      (load_items d [0..<n]) h1"
    if "length h1 \<le> length h + 6" "infers h1 = infers h" "first_writes h1 = first_writes h" "n \<le> 6" for h1 n d
    by (rule holds_mono [OF load_items_room]) (use that assms in auto)
  have hv: "harvester_sound h'" if "harvester_resume no_provenance es = Inr h'" "list_all entry_wire es" for es h'
    using resume_sound that by blast
  show ?thesis unfolding load_snapshot_def using assms chunks
    by (auto simp: Let_def error_split result_simps spent_def max_harvest_def stores_ok_def dest: folded hv
        intro!: holds_mono [OF load_chunks_room [where B = B and T = T and M = M]] holds_mono [OF items])
qed

lemma workflow_room:
  assumes "run_start_decode inp = Inr start"
  shows "holds (room (6 * unat (sd_model_turns (st_seed start)) + 23) (unat (sd_model_turns (st_seed start)))
       (unat (sd_mutations (st_seed start))))
    (spent (6 * unat (sd_model_turns (st_seed start)) + 23) (unat (sd_model_turns (st_seed start)))
       (unat (sd_mutations (st_seed start))))
    (\<lambda>_ _. False) (run_workflow k inp) []"
proof -
  let ?seed = "st_seed start"
  let ?caps = "sd_capabilities ?seed" and ?T = "unat (sd_model_turns ?seed)" and ?M = "unat (sd_mutations ?seed)"
  let ?B = "6 * ?T + 23"
  have disp: "holds (room ?B ?T ?M) (spent ?B ?T ?M) (\<lambda>h st. run_inv ?caps h st \<and> affords ?B ?T ?M h st) (run_dispatch k st) h"
    if "run_inv ?caps h st \<and> affords ?B ?T ?M h st" for k h and st :: "'a run_data"
    by (rule holds_mono [OF holds_conj [OF dispatch_inv dispatch_affords]]) (use that in auto)
  have run: "holds (room ?B ?T ?M) (spent ?B ?T ?M) Q (run_loop k st) h"
    if "quiet h" "rs_sm st = S_Gather" "rs_seed st = ?seed" "stores_ok st" "rs_budget st = starting_budget ?seed"
      "length h \<le> 12" "infers h = 0" "first_writes h = 0" for Q st h
    by (rule loop_holds [OF disp])
      (use that in \<open>simp_all add: run_inv_def affords_def turn_cost_def owed_write_def turns_left_def writes_left_def
          rollover_cost_def starting_budget_def\<close>)
  let ?st = "run_reset k ?seed"
  have load: "holds (room ?B ?T ?M) (spent ?B ?T ?M)
     (\<lambda>h st. quiet h \<and> rs_seed st = ?seed \<and> rs_sm st = S_Recover \<and> rs_budget st = starting_budget ?seed \<and> stores_ok st \<and>
        length h \<le> 12 \<and> infers h = 0 \<and> first_writes h = 0) (load_snapshot snap ?st) []" for snap
    by (rule holds_mono [OF holds_conj [OF load_snapshot_inv [where caps = ?caps]
          load_snapshot_room [where B = ?B and T = ?T and M = ?M]]])
      (auto simp: reset_stores)
  show ?thesis
    unfolding run_workflow_def
    using reset_stores [of k ?seed]
    by (auto simp: assms Let_def error_split run_advance_simps spent_def stores_ok_def
        intro!: run holds_mono [OF load] split: option.split)
qed

lemma play_outstanding: "play m as = (h, Outstanding k i) \<Longrightarrow> length h = length as"
  by (induction m arbitrary: as h) (fastforce split: list.splits prod.splits)+

end
