(* ===== verification/Run_Properties.thy ===== *)
theory Run_Properties
  imports Run_Bounds
begin

text \<open>
  The properties of whole runs: for every input, every kernel and every list of recorded answers, what
  \<open>run_workflow\<close> asks the world for and how it ends. Each is applied to the run of \<open>Run_Demo\<close>.
\<close>

section \<open>Properties\<close>

text \<open>C1: the world is only touched under authority. Whatever the answers, every \<open>TOOL\<close> request of a run
  carries the tool, the argument bytes and the digest of the call the model's last line spells, the
  capabilities of the run's input grant that call, a pin write was answered an output pin by the probe
  right before its first attempt, the write flag is set exactly for mutations, and an attempt after the
  first directly follows a transient attempt of the same request, never a fourth.\<close>

theorem tool_requests_authorized:
  assumes "play (run_workflow k inp) as = (h, out)" "n < length h" "h ! n = (tool_kind, i, a)"
  shows "\<exists>caps. input_capabilities inp = Some caps \<and> tool_request_allowed caps (take n h) i"
  using workflow_played(1) [OF assms] by (auto simp: run_request_def)

theorem tool_requests_authorized_witness:
  "\<exists>h out i. play (run_workflow demo_kernel demo_input :: (u32, unit) run_flow) demo_answers = (h, out) \<and>
     tool_request_allowed (sd_capabilities default_slice) (take 2 h) i"
proof -
  obtain x p st where run: "play (run_workflow demo_kernel demo_input :: (u32, unit) run_flow) demo_answers =
      (demo_events x, Ended (Completed p st))"
    using demo_run by blast
  have two: "2 < length (demo_events x)" "\<exists>i a. demo_events x ! 2 = (tool_kind, i, a)"
    by (cases x; simp add: demo_events_def)+
  then obtain i a where e: "demo_events x ! 2 = (tool_kind, i, a)" by blast
  have "input_capabilities demo_input = Some (sd_capabilities default_slice)"
    by (simp add: input_capabilities_def demo_input_decode)
  then show ?thesis using run tool_requests_authorized [OF run two(1) e] by auto
qed

text \<open>C2: no mutation goes unverified. When a completed, non-transient attempt of a mutating tool is
  recorded, the next thing the run asks for is the verification of the same effect, with the read-back
  its arguments call for (the pin's level, or the clock past the delay), and the run neither completes,
  nor fails, nor continues before it.\<close>

theorem mutations_verified:
  assumes "play (run_workflow k inp) as = (h, out)" "n < length h" "unverified (take (Suc n) h)"
  shows "(Suc n < length h \<longrightarrow> (\<exists>i a. h ! Suc n = (verify_kind, i, a) \<and> verify_request_due (take (Suc n) h) i)) \<and>
    (Suc n = length h \<longrightarrow>
       (\<exists>i. out = Outstanding verify_kind i \<and> verify_request_due h i) \<or> (\<exists>e. out = Ended (Faulted e)))"
proof (intro conjI impI)
  have due: "run_request caps g kd i \<Longrightarrow> unverified g \<Longrightarrow> kd = verify_kind \<and> verify_request_due g i" for caps g kd i
    by (auto simp: run_request_def tool_request_allowed_def attempt_in_order_def unverified_def split: if_splits)
  show "\<exists>i a. h ! Suc n = (verify_kind, i, a) \<and> verify_request_due (take (Suc n) h) i" if "Suc n < length h"
  proof -
    obtain kd i a where e: "h ! Suc n = (kd, i, a)" by (cases "h ! Suc n")
    then show ?thesis using workflow_played(1) [OF assms(1) that e] due assms(3) by blast
  qed
  show "(\<exists>i. out = Outstanding verify_kind i \<and> verify_request_due h i) \<or> (\<exists>e. out = Ended (Faulted e))"
    if "Suc n = length h"
  proof (cases out)
    case (Ended z)
    have "unverified h" using assms(3) that by simp
    then show ?thesis using workflow_played(3) [OF assms(1) Ended] Ended
      by (cases z) (auto simp: run_ending_def)
  next
    case (Outstanding kd i)
    have "unverified h" using assms(3) that by simp
    then show ?thesis using workflow_played(2) [OF assms(1) Outstanding] due Outstanding by blast
  qed (use workflow_played(4) [OF assms(1)] in simp)
qed

theorem mutations_verified_witness:
  "\<exists>h out i a. play (run_workflow demo_kernel demo_input :: (u32, unit) run_flow) demo_answers = (h, out) \<and>
     h ! 4 = (verify_kind, i, a) \<and> verify_request_due (take 4 h) i"
proof -
  obtain x p st where run: "play (run_workflow demo_kernel demo_input :: (u32, unit) run_flow) demo_answers =
      (demo_events x, Ended (Completed p st))"
    using demo_run by blast
  have len: "length (demo_events x) = 6" by (cases x) (simp add: demo_events_def)
  obtain i a where e: "demo_events x ! 4 = (verify_kind, i, a)" by (cases x) (simp add: demo_events_def)
  obtain i' where e': "demo_events x ! 3 = (tool_kind, i', Ans_Completed (observed_enc (demo_attempts ! 1)))"
    by (cases x) (simp add: demo_events_def demo_answers_def)
  have "observed_decode (observed_enc (demo_attempts ! 1)) = Inr (demo_attempts ! 1)" using decode_enc(2) demo_outcomes(2) by blast
  have "\<exists>caps. input_capabilities demo_input = Some caps \<and> run_request caps (take 4 (demo_events x)) verify_kind i"
    by (rule workflow_played(1) [OF run _ e]) (simp add: len)
  then have "unverified (take 4 (demo_events x))" by (auto simp: run_request_def verify_request_due_def unverified_def)
  then show ?thesis using mutations_verified [OF run, of 3] len e run by auto
qed


text \<open>C3: a run is bounded and cannot hang. Whatever it is answered, a run asks for at most six activities per
  model turn of its seed and twenty-three more (the parent's fold and its own rollover), of which at most
  one inference per turn and at most one first attempt of a mutation per unit of the mutation budget; so
  a record with that many answers always carries it to an ending, and a shorter record either does or
  leaves it waiting for one more answer. The loop never runs dry and the stored fold never overflows its
  page count.\<close>

theorem run_bounded:
  assumes "run_start_decode inp = Inr start" "play (run_workflow k inp) as = (h, out)"
  shows "length h \<le> 6 * unat (sd_model_turns (st_seed start)) + 23 \<and>
    infers h \<le> unat (sd_model_turns (st_seed start)) \<and>
    first_writes h \<le> unat (sd_mutations (st_seed start)) \<and>
    (case out of
       Ended z \<Rightarrow> True
     | Outstanding kd i \<Rightarrow> length h = length as \<and> length as < 6 * unat (sd_model_turns (st_seed start)) + 23
     | Returned x \<Rightarrow> False)"
  using holds_play [OF workflow_room [OF assms(1)] assms(2)] play_outstanding [of _ _ h] assms(2)
  by (cases out) (auto simp: spent_def room_def)

theorem run_bounded_witness:
  "\<exists>h out. play (run_workflow demo_kernel demo_input :: (u32, unit) run_flow) demo_answers = (h, out) \<and>
     length h \<le> 83 \<and> infers h \<le> 10 \<and> first_writes h \<le> 4"
proof -
  obtain x p st where run: "play (run_workflow demo_kernel demo_input :: (u32, unit) run_flow) demo_answers =
      (demo_events x, Ended (Completed p st))"
    using demo_run by blast
  show ?thesis using run_bounded [OF demo_input_decode run] run
    by (simp add: default_slice_def)
qed

end
