(* ===== verification/Agent_Wire.thy ===== *)
theory Agent_Wire
  imports Run_Wire Checkpoint
begin

text \<open>
  The supervisor's payloads (\<open>esper-runtime/src/agent/wire.rs\<close>): what is sensed at a beat, the
  operator's commands, the request that drives a run and its report, and the keys of stored items.
  Every decoder accepts exactly the encodings of well-formed values, except that a sense answer may
  list a ready goal twice.
\<close>

section \<open>Commands\<close>

definition sense_kind :: u16 where "sense_kind = 0x0100"
definition run_kind :: u16 where "run_kind = 0x0101"
definition harvest_kind :: u16 where "harvest_kind = 0x0102"
definition store_kind :: u16 where "store_kind = 0x0103"
definition load_kind :: u16 where "load_kind = 0x0104"

lemmas agent_kind_defs = sense_kind_def run_kind_def harvest_kind_def store_kind_def load_kind_def

definition max_commands :: nat where "max_commands = 3"

datatype command =
    Cmd_AddGoal note_t u8 cadence envelope capabilities
  | Cmd_Control goal_id goal_event
  | Cmd_Remember digest note_t note_t
  | Cmd_Forget digest

text \<open>The constructors from raw operator text mask it first.\<close>

definition command_add_goal ::
  "bytes \<Rightarrow> u8 \<Rightarrow> cadence \<Rightarrow> envelope \<Rightarrow> capabilities \<Rightarrow> wire_error + command" where
  "command_add_goal objective priority cadence envelope caps =
     and_then (map_err W_Core (ingest objective)) (\<lambda>obj. Inr (Cmd_AddGoal obj priority cadence envelope caps))"

definition command_remember :: "bytes \<Rightarrow> bytes \<Rightarrow> wire_error + command" where
  "command_remember name v =
     and_then (map_err W_Core (ingest name)) (\<lambda>label.
     and_then (map_err W_Core (ingest v)) (\<lambda>val. Inr (Cmd_Remember (digest_of_bytes name) label val)))"

definition command_forget :: "bytes \<Rightarrow> command" where
  "command_forget name = Cmd_Forget (digest_of_bytes name)"

definition note_key :: "digest \<Rightarrow> memory_key" where
  "note_key d = MK_Note d"

definition w_cadence :: "cadence \<Rightarrow> writer \<Rightarrow> wire_error + writer" where
  "w_cadence c =
     (case c of
        Once \<Rightarrow> w_all [w_u8 0, w_u32 0]
      | Every span \<Rightarrow> w_all [w_u8 1, w_u32 (span_get span)])"

definition w_envelope :: "envelope \<Rightarrow> writer \<Rightarrow> wire_error + writer" where
  "w_envelope v = w_all
     [w_u16 (en_per_run_turns v), w_u16 (en_per_run_mutations v), w_u32 (en_turns v), w_u32 (en_mutations v),
      w_u16 (en_runs v)]"

definition command_put :: "command \<Rightarrow> writer \<Rightarrow> wire_error + writer" where
  "command_put c =
     (case c of
        Cmd_AddGoal objective priority cadence envelope caps \<Rightarrow> w_all
          [w_u8 0, w_note objective, w_u8 priority, w_cadence cadence, w_envelope envelope, w_capabilities caps]
      | Cmd_Control g event \<Rightarrow> w_all [w_u8 1, w_u16 (goal_id_get g), w_u8 (goal_event_code event)]
      | Cmd_Remember d label val \<Rightarrow> w_all [w_u8 2, w_u64 (digest_get d), w_note label, w_note val]
      | Cmd_Forget d \<Rightarrow> w_all [w_u8 3, w_u64 (digest_get d)])"

definition wr_cadence :: "reader \<Rightarrow> wire_error + (cadence \<times> reader)" where
  "wr_cadence = rd_bind wr_u8 (\<lambda>tag. rd_bind wr_u32 (\<lambda>span.
     if tag = 0 \<and> span = 0 then rd_return Once
     else if tag = 1 then rd_check (map_sum id Every (ok_or W_Invalid (span_new span)))
     else rd_fail W_Invalid))"

definition wr_envelope :: "reader \<Rightarrow> wire_error + (envelope \<times> reader)" where
  "wr_envelope =
     rd_bind wr_u16 (\<lambda>a. rd_bind wr_u16 (\<lambda>b. rd_bind wr_u32 (\<lambda>c. rd_bind wr_u32 (\<lambda>d. rd_bind wr_u16 (\<lambda>e.
       rd_return \<lparr>en_per_run_turns = a, en_per_run_mutations = b, en_turns = c, en_mutations = d, en_runs = e\<rparr>)))))"

definition operator_event :: "u8 \<Rightarrow> goal_event option" where
  "operator_event code =
     Option.bind (goal_event_from_code code) (\<lambda>e. if goal_event_is_operator e then Some e else None)"

definition command_take :: "reader \<Rightarrow> wire_error + (command \<times> reader)" where
  "command_take = rd_bind wr_u8 (\<lambda>tag.
     if tag = 0 then
       rd_bind wr_note (\<lambda>objective. rd_bind wr_u8 (\<lambda>priority. rd_bind wr_cadence (\<lambda>cadence.
       rd_bind wr_envelope (\<lambda>envelope. rd_bind wr_capabilities (\<lambda>caps.
         rd_return (Cmd_AddGoal objective priority cadence envelope caps))))))
     else if tag = 1 then
       rd_bind wr_goal (\<lambda>g. rd_bind wr_u8 (\<lambda>code.
         rd_check (map_sum id (Cmd_Control g) (ok_or W_Invalid (operator_event code)))))
     else if tag = 2 then
       rd_bind wr_u64 (\<lambda>d. rd_bind wr_note (\<lambda>label. rd_bind wr_note (\<lambda>val.
         rd_return (Cmd_Remember (Digest d) label val))))
     else if tag = 3 then rd_bind wr_u64 (\<lambda>d. rd_return (Cmd_Forget (Digest d)))
     else rd_fail W_Invalid)"

section \<open>Sense\<close>

record sense =
  se_now :: u64
  se_ready :: "goal_id option list"
  se_commands :: "command option list"

definition sense_at :: "u64 \<Rightarrow> sense" where
  "sense_at now = \<lparr>se_now = now, se_ready = replicate max_goals None, se_commands = replicate max_commands None\<rparr>"

definition sense_EMPTY :: sense where
  "sense_EMPTY = sense_at 0"

definition is_ready :: "sense \<Rightarrow> goal_id \<Rightarrow> bool" where
  "is_ready s g \<longleftrightarrow> Some g \<in> set (se_ready s)"

definition sense_ready :: "sense \<Rightarrow> goal_id \<Rightarrow> wire_error + sense" where
  "sense_ready s g =
     (if is_ready s g then Inr s
      else and_then (ok_or W_Invalid (fill_free g (se_ready s))) (\<lambda>slots. Inr (s\<lparr>se_ready := slots\<rparr>)))"

definition sense_command :: "sense \<Rightarrow> command \<Rightarrow> wire_error + sense" where
  "sense_command s c =
     and_then (ok_or W_Invalid (fill_free c (se_commands s))) (\<lambda>slots. Inr (s\<lparr>se_commands := slots\<rparr>))"

definition sense_commands :: "sense \<Rightarrow> command list" where
  "sense_commands s = flatten (se_commands s)"

definition w_count :: "nat \<Rightarrow> writer \<Rightarrow> wire_error + writer" where
  "w_count n = w_check (map_sum id w_u8 (ok_or W_Invalid (try_from n)))"

definition sense_encode :: "sense \<Rightarrow> bytes \<Rightarrow> wire_error + writer" where
  "sense_encode s out =
     (let ready = flatten (se_ready s); cs = sense_commands s in
      w_all ([w_u64 (se_now s), w_count (length ready)] @ map (\<lambda>g. w_u16 (goal_id_get g)) ready @
             [w_count (length cs)] @ map command_put cs) (writer_new out))"

primrec wr_ready :: "nat \<Rightarrow> sense \<Rightarrow> reader \<Rightarrow> wire_error + (sense \<times> reader)" where
  "wr_ready 0 s = rd_return s"
| "wr_ready (Suc n) s = rd_bind wr_goal (\<lambda>g. rd_bind (rd_check (sense_ready s g)) (wr_ready n))"

primrec wr_commands :: "nat \<Rightarrow> sense \<Rightarrow> reader \<Rightarrow> wire_error + (sense \<times> reader)" where
  "wr_commands 0 s = rd_return s"
| "wr_commands (Suc n) s = rd_bind command_take (\<lambda>c. rd_bind (rd_check (sense_command s c)) (wr_commands n))"

definition wr_sense :: "reader \<Rightarrow> wire_error + (sense \<times> reader)" where
  "wr_sense = rd_bind wr_u64 (\<lambda>now. rd_bind wr_u8 (\<lambda>ready.
     if max_goals < unat ready then rd_fail W_Invalid
     else rd_bind (wr_ready (unat ready) (sense_at now)) (\<lambda>s. rd_bind wr_u8 (\<lambda>commands.
       if max_commands < unat commands then rd_fail W_Invalid
       else wr_commands (unat commands) s))))"

definition sense_decode :: "bytes \<Rightarrow> wire_error + sense" where
  "sense_decode = wr_whole wr_sense"

section \<open>Runs\<close>

datatype run_request =
    Req_Spawn goal_id run_seed
  | Req_Resume goal_id run_id

definition request_goal :: "run_request \<Rightarrow> goal_id" where
  "request_goal q = (case q of Req_Spawn g _ \<Rightarrow> g | Req_Resume g _ \<Rightarrow> g)"

definition request_run :: "run_request \<Rightarrow> run_id" where
  "request_run q = (case q of Req_Spawn _ s \<Rightarrow> sd_id s | Req_Resume _ r \<Rightarrow> r)"

definition max_run_request_bytes :: nat where
  "max_run_request_bytes = 1 + 2 + 8 + 2 + 2 + 4 + 4 + 8 + 25 + 2 + 8 + 4 + 9 + 2 + brief_cap"

definition run_request_encode :: "run_request \<Rightarrow> bytes \<Rightarrow> wire_error + writer" where
  "run_request_encode q out =
     (case q of
        Req_Spawn g s \<Rightarrow>
          (case (sd_brief s, sd_parent s) of
             (Some b, None) \<Rightarrow> w_all
               [w_u8 0, w_u16 (goal_id_get g), w_u64 (run_id_get (sd_id s)), w_u16 (sd_model_turns s),
                w_u16 (sd_mutations s), w_u32 (sd_input_tokens s), w_u32 (sd_output_tokens s),
                w_u64 (sd_elapsed_ms s), w_capabilities (sd_capabilities s), w_u16 (sd_workflow_version s),
                w_u64 (sd_model_bundle s), w_bytes (settings_bytes (sd_inference s)),
                w_flag (sd_context_budget_bytes s \<noteq> None),
                w_u64 (case sd_context_budget_bytes s of None \<Rightarrow> 0 | Some v \<Rightarrow> v),
                w_sized (brief_as_bytes b)] (writer_new out)
           | _ \<Rightarrow> Inl W_Invalid)
      | Req_Resume g r \<Rightarrow> w_all [w_u8 1, w_u16 (goal_id_get g), w_u64 (run_id_get r)] (writer_new out))"

definition wr_context_budget :: "reader \<Rightarrow> wire_error + (u64 option \<times> reader)" where
  "wr_context_budget = rd_bind wr_flag (\<lambda>present. rd_bind wr_u64 (\<lambda>v.
     if present then rd_return (Some v) else if v = 0 then rd_return None else rd_fail W_Invalid))"

definition wr_spawn :: "reader \<Rightarrow> wire_error + (run_request \<times> reader)" where
  "wr_spawn =
     rd_bind wr_goal (\<lambda>g. rd_bind wr_u64 (\<lambda>i. rd_bind wr_u16 (\<lambda>turns. rd_bind wr_u16 (\<lambda>mutations.
     rd_bind wr_u32 (\<lambda>input. rd_bind wr_u32 (\<lambda>output. rd_bind wr_u64 (\<lambda>elapsed.
     rd_bind wr_capabilities (\<lambda>caps. rd_bind wr_u16 (\<lambda>version. rd_bind wr_u64 (\<lambda>bundle.
     rd_bind wr_settings (\<lambda>inference. rd_bind wr_context_budget (\<lambda>budget. rd_bind wr_brief (\<lambda>brief.
       let seed = \<lparr>sd_id = RunId i, sd_model_turns = turns, sd_mutations = mutations, sd_input_tokens = input,
                   sd_output_tokens = output, sd_elapsed_ms = elapsed, sd_capabilities = caps,
                   sd_workflow_version = version, sd_model_bundle = bundle, sd_inference = inference,
                   sd_context_budget_bytes = budget, sd_parent = None, sd_brief = Some brief\<rparr>
       in rd_check (map_sum id (\<lambda>_. Req_Spawn g seed) (map_err (\<lambda>_. W_Invalid) (seed_validate seed))))))))))))))))"

definition wr_run_request :: "reader \<Rightarrow> wire_error + (run_request \<times> reader)" where
  "wr_run_request = rd_bind wr_u8 (\<lambda>tag.
     if tag = 0 then wr_spawn
     else if tag = 1 then rd_bind wr_goal (\<lambda>g. rd_bind wr_u64 (\<lambda>r. rd_return (Req_Resume g (RunId r))))
     else rd_fail W_Invalid)"

definition run_request_decode :: "bytes \<Rightarrow> wire_error + run_request" where
  "run_request_decode = wr_whole wr_run_request"

datatype run_report =
    Rep_Parked
  | Rep_Settled terminal_status u16 u16 u8

definition run_report_encode :: "run_report \<Rightarrow> bytes \<Rightarrow> wire_error + writer" where
  "run_report_encode r out =
     (case r of
        Rep_Parked \<Rightarrow> w_all [w_u8 0] (writer_new out)
      | Rep_Settled status turns mutations harvest \<Rightarrow>
          w_all [w_u8 1, w_u8 (terminal_status_code status), w_u16 turns, w_u16 mutations, w_u8 harvest] (writer_new out))"

definition wr_run_report :: "reader \<Rightarrow> wire_error + (run_report \<times> reader)" where
  "wr_run_report = rd_bind wr_u8 (\<lambda>tag.
     if tag = 0 then rd_return Rep_Parked
     else if tag = 1 then
       rd_bind wr_terminal_status (\<lambda>status. rd_bind wr_u16 (\<lambda>turns. rd_bind wr_u16 (\<lambda>mutations. rd_bind wr_u8 (\<lambda>harvest.
         rd_return (Rep_Settled status turns mutations harvest)))))
     else rd_fail W_Invalid)"

definition run_report_decode :: "bytes \<Rightarrow> wire_error + run_report" where
  "run_report_decode = wr_whole wr_run_report"

section \<open>Harvest and items\<close>

definition harvest_query :: "run_id \<Rightarrow> u8 \<Rightarrow> bytes" where
  "harvest_query r i = to_le_bytes (run_id_get r) @ [i]"

definition read_harvest_query :: "bytes \<Rightarrow> wire_error + (run_id \<times> u8)" where
  "read_harvest_query = wr_whole (rd_bind wr_u64 (\<lambda>r. rd_bind wr_u8 (\<lambda>i. rd_return (RunId r, i))))"

definition harvest_entry_encode :: "memory_entry \<Rightarrow> bytes \<Rightarrow> wire_error + (bytes \<times> nat)" where
  "harvest_entry_encode e out = map_err W_Core (encode_entry e out)"

definition harvest_entry_decode :: "bytes \<Rightarrow> wire_error + memory_entry" where
  "harvest_entry_decode bs =
     and_then (map_err W_Core (decode_entry bs)) (\<lambda>e.
       if pinned e \<or> me_stamp e \<noteq> 0 then Inl W_Invalid else Inr e)"

definition item_key_bytes :: nat where "item_key_bytes = 8 + 2"

definition item_key :: "u64 \<Rightarrow> u16 \<Rightarrow> bytes" where
  "item_key d i = to_le_bytes d @ to_le_bytes i"

definition read_item_key :: "bytes \<Rightarrow> wire_error + (u64 \<times> u16 \<times> bytes)" where
  "read_item_key bs =
     and_then (wr_u64 (reader_of bs)) (\<lambda>(d, r).
     and_then (wr_u16 r) (\<lambda>(i, r).
       let item = (case slice bs item_key_bytes (length bs) of Some xs \<Rightarrow> xs | None \<Rightarrow> []) in
       if max_item_bytes < length item then Inl W_Invalid else Inr (d, i, item)))"

definition ack_decode :: "bytes \<Rightarrow> wire_error + unit" where
  "ack_decode bs = (if bs = [] then Inr () else Inl W_Trailing)"

text \<open>An item in its buffer: the bytes and how many count.\<close>

record item =
  im_bytes :: bytes
  im_len :: nat

definition item_as_bytes :: "item \<Rightarrow> bytes" where
  "item_as_bytes i = (case slice (im_bytes i) 0 (im_len i) of Some bs \<Rightarrow> bs | None \<Rightarrow> [])"

definition item_decode :: "bytes \<Rightarrow> wire_error + item" where
  "item_decode bs =
     and_then (ok_or W_Invalid (splice (replicate max_item_bytes 0) 0 bs)) (\<lambda>buf.
       Inr \<lparr>im_bytes = buf, im_len = length bs\<rparr>)"

section \<open>Layouts\<close>

definition command_enc :: "command \<Rightarrow> bytes" where
  "command_enc c =
     (case c of
        Cmd_AddGoal objective priority cadence envelope caps \<Rightarrow>
          u8_enc 0 @ note_enc objective @ u8_enc priority @ cadence_enc cadence @ envelope_enc envelope @
          capabilities_enc caps
      | Cmd_Control g event \<Rightarrow> u8_enc 1 @ goal_id_enc g @ u8_enc (goal_event_code event)
      | Cmd_Remember d label val \<Rightarrow> u8_enc 2 @ to_le_bytes (digest_get d) @ note_enc label @ note_enc val
      | Cmd_Forget d \<Rightarrow> u8_enc 3 @ to_le_bytes (digest_get d))"

definition command_ok :: "command \<Rightarrow> bool" where
  "command_ok c \<longleftrightarrow>
     (case c of
        Cmd_AddGoal objective _ cadence _ caps \<Rightarrow> note_ok objective \<and> cadence_wire cadence \<and> capabilities_wire caps
      | Cmd_Control g event \<Rightarrow> goal_id_wire g \<and> goal_event_is_operator event
      | Cmd_Remember _ label val \<Rightarrow> note_ok label \<and> note_ok val
      | Cmd_Forget _ \<Rightarrow> True)"

definition sense_enc :: "sense \<Rightarrow> bytes" where
  "sense_enc s =
     to_le_bytes (se_now s) @ u8_enc (of_nat (length (flatten (se_ready s)))) @
     concat (map goal_id_enc (flatten (se_ready s))) @
     u8_enc (of_nat (length (sense_commands s))) @ concat (map command_enc (sense_commands s))"

definition sense_ok :: "sense \<Rightarrow> bool" where
  "sense_ok s \<longleftrightarrow>
     se_ready s = pack max_goals (flatten (se_ready s)) \<and> length (flatten (se_ready s)) \<le> max_goals \<and>
     distinct (flatten (se_ready s)) \<and> list_all goal_id_wire (flatten (se_ready s)) \<and>
     se_commands s = pack max_commands (sense_commands s) \<and> length (sense_commands s) \<le> max_commands \<and>
     list_all command_ok (sense_commands s)"

definition context_budget_enc :: "u64 option \<Rightarrow> bytes" where
  "context_budget_enc x = flag_enc (x \<noteq> None) @ to_le_bytes (case x of None \<Rightarrow> 0 | Some v \<Rightarrow> v)"

definition spawn_enc :: "goal_id \<Rightarrow> run_seed \<Rightarrow> bytes" where
  "spawn_enc g s =
     goal_id_enc g @ to_le_bytes (run_id_get (sd_id s)) @ to_le_bytes (sd_model_turns s) @
     to_le_bytes (sd_mutations s) @ to_le_bytes (sd_input_tokens s) @ to_le_bytes (sd_output_tokens s) @
     to_le_bytes (sd_elapsed_ms s) @ capabilities_enc (sd_capabilities s) @
     to_le_bytes (sd_workflow_version s) @ to_le_bytes (sd_model_bundle s) @
     settings_bytes (sd_inference s) @ context_budget_enc (sd_context_budget_bytes s) @
     sized_enc (case sd_brief s of None \<Rightarrow> [] | Some b \<Rightarrow> brief_as_bytes b)"

definition run_request_enc :: "run_request \<Rightarrow> bytes" where
  "run_request_enc q =
     (case q of
        Req_Spawn g s \<Rightarrow> u8_enc 0 @ spawn_enc g s
      | Req_Resume g r \<Rightarrow> u8_enc 1 @ goal_id_enc g @ to_le_bytes (run_id_get r))"

definition run_request_ok :: "run_request \<Rightarrow> bool" where
  "run_request_ok q \<longleftrightarrow> goal_id_wire (request_goal q) \<and>
     (case q of
        Req_Spawn _ s \<Rightarrow> sd_parent s = None \<and> (\<exists>b. sd_brief s = Some b \<and> brief_ok b) \<and>
          capabilities_wire (sd_capabilities s) \<and> seed_validate s = Inr ()
      | Req_Resume _ _ \<Rightarrow> True)"

definition run_report_enc :: "run_report \<Rightarrow> bytes" where
  "run_report_enc r =
     (case r of
        Rep_Parked \<Rightarrow> u8_enc 0
      | Rep_Settled status turns mutations harvest \<Rightarrow>
          u8_enc 1 @ u8_enc (terminal_status_code status) @ to_le_bytes turns @ to_le_bytes mutations @ u8_enc harvest)"

section \<open>Writers\<close>

lemma emits_Nil: "w_all [] (writer_new out) = Wire.written [] out"
  by (simp add: writer_new_def Wire.written_def)

lemma emits_append:
  "emits (w_all fs) as \<Longrightarrow> emits (w_all gs) bs \<Longrightarrow> emits (w_all (fs @ gs)) (as @ bs)"
proof -
  assume a: "emits (w_all fs) as" and b: "emits (w_all gs) bs"
  have "w_all (fs @ gs) = (\<lambda>w. and_then (w_all fs w) (w_all gs))"
  proof (induction fs)
    case (Cons f fs)
    show ?case by (rule ext) (simp add: Cons.IH and_then_assoc)
  qed (simp add: fun_eq_iff)
  then have "w_all (fs @ gs) = (\<lambda>w. and_then (w_bytes as w) (w_bytes bs))"
    using a b unfolding emits_def by simp
  then show ?thesis by (simp add: emits_def w_bytes_append fun_eq_iff)
qed

lemma emits_map:
  "xs \<noteq> [] \<Longrightarrow> (\<And>x. x \<in> set xs \<Longrightarrow> emits (f x) (enc x)) \<Longrightarrow> emits (w_all (map f xs)) (concat (map enc xs))"
proof (induction xs)
  case (Cons x xs)
  show ?case
  proof (cases "xs = []")
    case True
    have "emits (w_all [f x]) (enc x @ [])" using Cons.prems by (simp add: emits_one del: w_all_single)
    then show ?thesis by (simp only: True list.map concat.simps)
  next
    case False
    have "emits (w_all ([f x] @ map f xs)) (enc x @ concat (map enc xs))"
      using Cons.prems False by (intro emits_append emits_one Cons.IH) auto
    then show ?thesis by (simp del: w_all.simps)
  qed
qed simp

text \<open>A loop of writes in the middle of a record, which may be empty.\<close>

lemma emits_then_map:
  assumes "emits (w_all fs) as" "\<And>x. x \<in> set xs \<Longrightarrow> emits (f x) (enc x)"
  shows "emits (w_all (fs @ map f xs)) (as @ concat (map enc xs))"
proof (cases "xs = []")
  case False
  then show ?thesis using assms by (intro emits_append emits_map) auto
qed (use assms in simp)

lemma emits_cadence: "emits (w_cadence c) (cadence_enc c)"
  by (cases c; simp only: w_cadence_def cadence_enc_def cadence.case; intro emits_cons emits_one emits_words)

lemma emits_envelope: "emits (w_envelope v) (envelope_enc v)"
  unfolding w_envelope_def envelope_enc_def by (intro emits_cons emits_one emits_words)

lemma emits_goal_id: "emits (w_u16 (goal_id_get g)) (goal_id_enc g)"
  by (simp add: goal_id_enc_def)

lemma emits_command: "command_ok c \<Longrightarrow> emits (command_put c) (command_enc c)"
  by (cases c; simp only: command_put_def command_enc_def command.case;
      intro emits_cons emits_one emits_words emits_cadence emits_envelope emits_capabilities emits_goal_id emits_note;
      simp add: command_ok_def)

lemma emits_count: "n < 256 \<Longrightarrow> emits (w_count n) (u8_enc (of_nat n))"
  unfolding w_count_def by (rule emits_check [OF _ emits_words(1)]) (simp add: try_from_def)

lemma emits_sense:
  assumes "sense_ok s"
  shows "sense_encode s out = Wire.written (sense_enc s) out"
proof -
  let ?r = "flatten (se_ready s)" and ?c = "sense_commands s"
  have n: "length ?r < 256" "length ?c < 256"
    using assms by (simp_all add: sense_ok_def max_goals_def max_commands_def)
  have "emits (w_all ([w_u64 (se_now s), w_count (length ?r)] @ map (\<lambda>g. w_u16 (goal_id_get g)) ?r))
      ((to_le_bytes (se_now s) @ u8_enc (of_nat (length ?r))) @ concat (map goal_id_enc ?r))"
    by (intro emits_then_map emits_cons emits_one emits_words emits_count n emits_goal_id)
  moreover have "emits (w_all ([w_count (length ?c)] @ map command_put ?c))
      (u8_enc (of_nat (length ?c)) @ concat (map command_enc ?c))"
    by (intro emits_then_map emits_one emits_count n emits_command) (use assms in \<open>simp add: sense_ok_def list_all_iff\<close>)
  ultimately show ?thesis
    unfolding sense_encode_def Let_def
    by (intro emits_result) (drule (1) emits_append, simp add: sense_enc_def del: w_all.simps)
qed

lemma emits_run_request:
  assumes "case q of Req_Spawn _ s \<Rightarrow> sd_parent s = None \<and> (\<exists>b. sd_brief s = Some b \<and> brief_ok b) | _ \<Rightarrow> True"
  shows "run_request_encode q out = Wire.written (run_request_enc q) out"
proof (cases q)
  case (Req_Spawn g s)
  then obtain b where b: "sd_brief s = Some b" "brief_ok b" "sd_parent s = None" using assms by auto
  then have "length (brief_as_bytes b) < 65536" using brief_ok_length by fastforce
  then have "emits (w_all [w_u8 0, w_u16 (goal_id_get g), w_u64 (run_id_get (sd_id s)), w_u16 (sd_model_turns s),
      w_u16 (sd_mutations s), w_u32 (sd_input_tokens s), w_u32 (sd_output_tokens s),
      w_u64 (sd_elapsed_ms s), w_capabilities (sd_capabilities s), w_u16 (sd_workflow_version s),
      w_u64 (sd_model_bundle s), w_bytes (settings_bytes (sd_inference s)),
      w_flag (sd_context_budget_bytes s \<noteq> None),
      w_u64 (case sd_context_budget_bytes s of None \<Rightarrow> 0 | Some v \<Rightarrow> v),
      w_sized (brief_as_bytes b)]) (run_request_enc q)"
    unfolding Req_Spawn run_request_enc_def spawn_enc_def run_request.case b option.case context_budget_enc_def append_assoc
    by (intro emits_cons emits_one emits_words emits_bytes emits_sized emits_capabilities emits_goal_id)
  then show ?thesis
    unfolding run_request_encode_def Req_Spawn run_request.case b option.case prod.case by (rule emits_result)
next
  case (Req_Resume g r)
  have "emits (w_all [w_u8 1, w_u16 (goal_id_get g), w_u64 (run_id_get r)]) (run_request_enc q)"
    unfolding Req_Resume run_request_enc_def run_request.case
    by (intro emits_cons emits_one emits_words emits_goal_id)
  then show ?thesis
    unfolding run_request_encode_def Req_Resume run_request.case by (rule emits_result)
qed

lemma emits_run_report: "run_report_encode r out = Wire.written (run_report_enc r) out"
  by (cases r; simp only: run_report_encode_def run_report_enc_def run_report.case;
      intro emits_result emits_cons emits_one emits_words)

section \<open>Readers\<close>

interpretation cadence_r: wire_reader wr_cadence cadence_enc cadence_wire
proof
  fix r c r'
  have "wr_cadence r = Inr (c, r') \<longleftrightarrow> take_cadence r = Inr (c, r')"
    by (auto simp: wr_cadence_def take_cadence_def rd_bind_Inr wire_reads_alike wire_u32.get_iff u32.get_iff
        rd_check_Inr rd_fail_Inr rd_return_Inr ok_or_eq_Inr result_simps split: if_splits)
  then show "wr_cadence r = Inr (c, r') \<longleftrightarrow> cadence_wire c \<and> reads r (cadence_enc c) \<and> r' = skip r (cadence_enc c)"
    by (simp add: cadence_c.get_iff)
qed

interpretation envelope_r: wire_reader wr_envelope envelope_enc any
proof
  fix r v r'
  show "wr_envelope r = Inr (v, r') \<longleftrightarrow> any v \<and> reads r (envelope_enc v) \<and> r' = skip r (envelope_enc v)"
    by (cases v) (auto simp: wr_envelope_def wire_bind_iff read_chain envelope_enc_def)
qed

lemma operator_event_iff: "operator_event c = Some e \<longleftrightarrow> goal_event_is_operator e \<and> c = goal_event_code e"
proof -
  have "goal_event_from_code c = Some e \<longleftrightarrow> goal_event_code e = c" for e
    using goal_event_roundtrip [of c e] by blast
  then show ?thesis by (cases "goal_event_from_code c") (auto simp: operator_event_def)
qed

lemma digest_eq_iff: "Digest a = d \<longleftrightarrow> a = digest_get d"
  by (cases d) auto

lemma run_id_eq_iff: "RunId a = d \<longleftrightarrow> a = run_id_get d"
  by (cases d) auto

interpretation command_r: wire_reader command_take command_enc command_ok
proof
  fix r c r'
  show "command_take r = Inr (c, r') \<longleftrightarrow> command_ok c \<and> reads r (command_enc c) \<and> r' = skip r (command_enc c)"
  proof
    assume "command_take r = Inr (c, r')"
    then show "command_ok c \<and> reads r (command_enc c) \<and> r' = skip r (command_enc c)"
      unfolding command_take_def wire_u8.bind_iff
      by (auto simp: wire_note.bind_iff wire_u8.bind_iff wire_u64.bind_iff cadence_r.bind_iff envelope_r.bind_iff
          wire_capabilities.bind_iff wire_goal.bind_iff read_chain result_simps operator_event_iff
          command_enc_def command_ok_def split: if_splits)
  next
    assume "command_ok c \<and> reads r (command_enc c) \<and> r' = skip r (command_enc c)"
    then show "command_take r = Inr (c, r')"
      by (cases c) (auto simp: command_take_def command_enc_def command_ok_def reads_append skip_append
          wire_u8.bind_enc wire_u64.bind_enc wire_note.bind_enc cadence_r.bind_enc envelope_r.bind_enc
          wire_capabilities.bind_enc wire_goal.bind_enc rd_return_Inr rd_check_Inr result_simps operator_event_iff
          reads_Nil_skip split: if_splits)
  qed
qed

interpretation context_budget_r: wire_reader wr_context_budget context_budget_enc any
proof
  fix r v r'
  show "wr_context_budget r = Inr (v, r') \<longleftrightarrow> any v \<and> reads r (context_budget_enc v) \<and> r' = skip r (context_budget_enc v)"
  proof
    assume "wr_context_budget r = Inr (v, r')"
    then show "any v \<and> reads r (context_budget_enc v) \<and> r' = skip r (context_budget_enc v)"
      unfolding wr_context_budget_def wire_bind_iff
      by (auto simp: read_chain context_budget_enc_def split: if_splits)
  next
    assume "any v \<and> reads r (context_budget_enc v) \<and> r' = skip r (context_budget_enc v)"
    then show "wr_context_budget r = Inr (v, r')"
      by (cases v) (auto simp: wr_context_budget_def context_budget_enc_def reads_append skip_append wire_bind_enc
          rd_return_Inr reads_Nil_skip)
  qed
qed

lemma spawn_iff:
  "wr_spawn r = Inr (v, r') \<longleftrightarrow>
     (\<exists>g s. v = Req_Spawn g s \<and> run_request_ok v \<and> reads r (spawn_enc g s) \<and> r' = skip r (spawn_enc g s))"
proof
  assume "wr_spawn r = Inr (v, r')"
  then show "\<exists>g s. v = Req_Spawn g s \<and> run_request_ok v \<and> reads r (spawn_enc g s) \<and> r' = skip r (spawn_enc g s)"
    unfolding wr_spawn_def Let_def wire_goal.bind_iff wire_bind_iff wire_capabilities.bind_iff settings_r.bind_iff
      context_budget_r.bind_iff brief_r.bind_iff
    by (auto simp: read_chain result_simps spawn_enc_def run_request_ok_def request_goal_def)
next
  assume "\<exists>g s. v = Req_Spawn g s \<and> run_request_ok v \<and> reads r (spawn_enc g s) \<and> r' = skip r (spawn_enc g s)"
  then obtain g s b where v: "v = Req_Spawn g s" and s: "sd_parent s = None" "sd_brief s = Some b" "brief_ok b"
    "capabilities_wire (sd_capabilities s)" "seed_validate s = Inr ()" "goal_id_wire g"
    and rd: "reads r (spawn_enc g s)" "r' = skip r (spawn_enc g s)"
    by (auto simp: run_request_ok_def request_goal_def)
  have seed: "\<lparr>sd_id = sd_id s, sd_model_turns = sd_model_turns s, sd_mutations = sd_mutations s,
      sd_input_tokens = sd_input_tokens s, sd_output_tokens = sd_output_tokens s, sd_elapsed_ms = sd_elapsed_ms s,
      sd_capabilities = sd_capabilities s, sd_workflow_version = sd_workflow_version s,
      sd_model_bundle = sd_model_bundle s, sd_inference = sd_inference s,
      sd_context_budget_bytes = sd_context_budget_bytes s, sd_parent = None, sd_brief = Some b\<rparr> = s"
    using s by (cases s) simp
  note chain = rd(1) [unfolded spawn_enc_def s(2) option.case reads_append]
  show "wr_spawn r = Inr (v, r')"
    unfolding wr_spawn_def v rd(2) spawn_enc_def s(2) option.case skip_append
    using chain s
    by (auto simp: wire_goal.bind_enc wire_bind_enc wire_capabilities.bind_enc settings_r.bind_enc
        context_budget_r.bind_enc brief_r.bind_enc Let_def seed rd_check_Inr result_simps)
qed

interpretation run_request_r: wire_reader wr_run_request run_request_enc run_request_ok
proof
  fix r v r'
  show "wr_run_request r = Inr (v, r') \<longleftrightarrow>
      run_request_ok v \<and> reads r (run_request_enc v) \<and> r' = skip r (run_request_enc v)"
  proof
    assume "wr_run_request r = Inr (v, r')"
    then show "run_request_ok v \<and> reads r (run_request_enc v) \<and> r' = skip r (run_request_enc v)"
      unfolding wr_run_request_def wire_u8.bind_iff
      by (auto simp: spawn_iff wire_goal.bind_iff wire_u64.bind_iff rd_return_Inr rd_fail_Inr run_request_ok_def
          request_goal_def run_request_enc_def reads_append skip_append reads_Nil_skip split: if_splits)
  next
    assume a: "run_request_ok v \<and> reads r (run_request_enc v) \<and> r' = skip r (run_request_enc v)"
    then show "wr_run_request r = Inr (v, r')"
      by (cases v) (auto simp: wr_run_request_def run_request_enc_def run_request_ok_def request_goal_def reads_append
            skip_append wire_u8.bind_enc wire_goal.bind_enc wire_u64.bind_enc spawn_iff rd_return_Inr reads_Nil_skip)
  qed
qed

interpretation run_report_r: wire_reader wr_run_report run_report_enc any
proof
  fix r v r'
  show "wr_run_report r = Inr (v, r') \<longleftrightarrow> any v \<and> reads r (run_report_enc v) \<and> r' = skip r (run_report_enc v)"
  proof
    assume "wr_run_report r = Inr (v, r')"
    then show "any v \<and> reads r (run_report_enc v) \<and> r' = skip r (run_report_enc v)"
      unfolding wr_run_report_def wire_u8.bind_iff
      by (auto simp: status_r.bind_iff wire_bind_iff read_chain run_report_enc_def split: if_splits)
  next
    assume "any v \<and> reads r (run_report_enc v) \<and> r' = skip r (run_report_enc v)"
    then show "wr_run_report r = Inr (v, r')"
      by (cases v) (auto simp: wr_run_report_def run_report_enc_def reads_append skip_append wire_bind_enc
          status_r.bind_enc rd_return_Inr reads_Nil_skip)
  qed
qed

section \<open>Payloads are exact\<close>

lemmas agent_payload_exact =
  run_request_r.whole_iff [folded run_request_decode_def]
  run_report_r.whole_iff [folded run_report_decode_def]

text \<open>Goals and commands are added to the first free slot.\<close>

lemma sense_ready_pack:
  assumes "se_ready s = pack max_goals rs" "length rs \<le> max_goals"
  shows "sense_ready s g =
    (if g \<in> set rs then Inr s
     else if length rs = max_goals then Inl W_Invalid
     else Inr (s\<lparr>se_ready := pack max_goals (rs @ [g])\<rparr>))"
proof -
  have "is_ready s g \<longleftrightarrow> g \<in> set rs" by (auto simp: is_ready_def assms(1) pack_def)
  then show ?thesis using assms by (auto simp: sense_ready_def fill_free_pack)
qed

lemma sense_command_pack:
  assumes "se_commands s = pack max_commands cs" "length cs \<le> max_commands"
  shows "sense_command s c =
    (if length cs = max_commands then Inl W_Invalid else Inr (s\<lparr>se_commands := pack max_commands (cs @ [c])\<rparr>))"
  using assms by (auto simp: sense_command_def fill_free_pack)

lemma wr_ready_enc:
  "list_all goal_id_wire gs \<Longrightarrow> distinct (rs @ gs) \<Longrightarrow> length (rs @ gs) \<le> max_goals \<Longrightarrow>
   se_ready s = pack max_goals rs \<Longrightarrow> reads r (concat (map goal_id_enc gs)) \<Longrightarrow>
   wr_ready (length gs) s r = Inr (s\<lparr>se_ready := pack max_goals (rs @ gs)\<rparr>, skip r (concat (map goal_id_enc gs)))"
proof (induction gs arbitrary: rs s r)
  case (Cons g gs)
  have len: "length rs < max_goals" and g: "g \<notin> set rs" "goal_id_wire g" using Cons.prems by auto
  have rd: "reads r (goal_id_enc g)" "reads (skip r (goal_id_enc g)) (concat (map goal_id_enc gs))"
    using Cons.prems(5) by (simp_all add: reads_append)
  have step: "sense_ready s g = Inr (s\<lparr>se_ready := pack max_goals (rs @ [g])\<rparr>)"
    using sense_ready_pack [OF Cons.prems(4)] len g by simp
  show ?case
    using Cons.IH [of "rs @ [g]" "s\<lparr>se_ready := pack max_goals (rs @ [g])\<rparr>" "skip r (goal_id_enc g)"] Cons.prems rd
    by (simp add: rd_bind_def rd_check_def wire_goal.get_enc [OF g(2) rd(1)] step skip_append)
qed (simp add: rd_return_def reads_Nil_skip)

lemma wr_commands_enc:
  "list_all command_ok xs \<Longrightarrow> length (cs @ xs) \<le> max_commands \<Longrightarrow>
   se_commands s = pack max_commands cs \<Longrightarrow> reads r (concat (map command_enc xs)) \<Longrightarrow>
   wr_commands (length xs) s r = Inr (s\<lparr>se_commands := pack max_commands (cs @ xs)\<rparr>, skip r (concat (map command_enc xs)))"
proof (induction xs arbitrary: cs s r)
  case (Cons x xs)
  have rd: "reads r (command_enc x)" "reads (skip r (command_enc x)) (concat (map command_enc xs))"
    using Cons.prems(4) by (simp_all add: reads_append)
  have step: "sense_command s x = Inr (s\<lparr>se_commands := pack max_commands (cs @ [x])\<rparr>)"
    using sense_command_pack [OF Cons.prems(3)] Cons.prems(2) by simp
  show ?case
    using Cons.IH [of "cs @ [x]" "s\<lparr>se_commands := pack max_commands (cs @ [x])\<rparr>" "skip r (command_enc x)"] Cons.prems rd
    by (simp add: rd_bind_def rd_check_def command_r.get_enc [OF _ rd(1)] step skip_append)
qed (simp add: rd_return_def reads_Nil_skip)

text \<open>What a decoded sense answer holds.\<close>

lemma wr_ready_ok:
  "wr_ready n s r = Inr (s', r') \<Longrightarrow> se_ready s = pack max_goals rs \<Longrightarrow> distinct rs \<Longrightarrow> length rs \<le> max_goals \<Longrightarrow>
   list_all goal_id_wire rs \<Longrightarrow>
   \<exists>rs'. s' = s\<lparr>se_ready := pack max_goals rs'\<rparr> \<and> distinct rs' \<and> length rs' \<le> max_goals \<and> list_all goal_id_wire rs'"
proof (induction n arbitrary: s r rs)
  case (Suc n)
  obtain g s1 r1 where g: "goal_id_wire g" "sense_ready s g = Inr s1" "wr_ready n s1 r1 = Inr (s', r')"
    using Suc.prems(1) by (auto simp: rd_bind_Inr wire_goal.get_iff rd_check_Inr)
  show ?case
  proof (cases "g \<in> set rs")
    case True
    then show ?thesis using g sense_ready_pack [OF Suc.prems(2,4), of g] Suc by fastforce
  next
    case False
    then have room: "length rs < max_goals" and s1: "s1 = s\<lparr>se_ready := pack max_goals (rs @ [g])\<rparr>"
      using g sense_ready_pack [OF Suc.prems(2,4), of g] Suc.prems(4) by (auto split: if_splits)
    show ?thesis
      using Suc.IH [OF g(3), of "rs @ [g]"] False room g(1) Suc.prems by (auto simp: s1)
  qed
next
  case 0
  then show ?case by (intro exI [of _ rs]) (cases s, simp add: rd_return_Inr)
qed

lemma wr_commands_ok:
  "wr_commands n s r = Inr (s', r') \<Longrightarrow> se_commands s = pack max_commands cs \<Longrightarrow> length cs \<le> max_commands \<Longrightarrow>
   list_all command_ok cs \<Longrightarrow>
   \<exists>cs'. s' = s\<lparr>se_commands := pack max_commands cs'\<rparr> \<and> length cs' \<le> max_commands \<and> list_all command_ok cs'"
proof (induction n arbitrary: s r cs)
  case (Suc n)
  obtain c s1 r1 where c: "command_ok c" "sense_command s c = Inr s1" "wr_commands n s1 r1 = Inr (s', r')"
    using Suc.prems(1) by (auto simp: rd_bind_Inr command_r.get_iff rd_check_Inr)
  then have room: "length cs < max_commands" and s1: "s1 = s\<lparr>se_commands := pack max_commands (cs @ [c])\<rparr>"
    using sense_command_pack [OF Suc.prems(2,3), of c] Suc.prems(3) by (auto split: if_splits)
  show ?case
    using Suc.IH [OF c(3), of "cs @ [c]"] room c(1) Suc.prems by (auto simp: s1)
next
  case 0
  then show ?case by (intro exI [of _ cs]) (cases s, simp add: rd_return_Inr)
qed

lemma flatten_packed [simp]: "flatten (pack n xs) = xs"
  by (simp add: flatten_pack)

lemma sense_roundtrip: "sense_ok s \<Longrightarrow> sense_decode (sense_enc s) = Inr s"
proof -
  assume ok: "sense_ok s"
  let ?rs = "flatten (se_ready s)" and ?cs = "sense_commands s" and ?r = "reader_of (sense_enc s)"
  have n: "unat (of_nat (length ?rs) :: u8) = length ?rs" "unat (of_nat (length ?cs) :: u8) = length ?cs"
    using ok by (simp_all add: sense_ok_def max_goals_def max_commands_def unat_of_nat take_bit_nat_eq_self)
  have rd: "reads ?r (sense_enc s)" by (simp add: reader_of_def reads_def slice_def)
  have whole: "rd_pos (skip ?r (sense_enc s)) = length (sense_enc s)" by (simp add: reader_of_def skip_def)
  have eq: "s\<lparr>se_ready := pack max_goals ?rs, se_commands := pack max_commands ?cs\<rparr> = s"
    using ok by (cases s) (simp add: sense_ok_def)
  have "wr_sense ?r = Inr (s, skip ?r (sense_enc s))"
    using rd ok eq
    by (auto simp: wr_sense_def sense_enc_def reads_append skip_append wire_u64.bind_enc wire_u8.bind_enc n sense_ok_def
        rd_bind_def [of "wr_ready _ _"] wr_ready_enc [where rs = "[]"] wr_commands_enc [where cs = "[]"] sense_at_def pack_def
        split: if_splits)
  then show ?thesis
    by (simp add: sense_decode_def wr_whole_def wr_end_def whole) (simp add: skip_def reader_of_def)
qed

lemma sense_decode_ok: "sense_decode bs = Inr s \<Longrightarrow> sense_ok s"
proof -
  assume "sense_decode bs = Inr s"
  then obtain now n1 n2 s1 r0 r1 r2 r3 where
    s1: "wr_ready n1 (sense_at now) r0 = Inr (s1, r1)" and s2: "wr_commands n2 s1 r2 = Inr (s, r3)"
    by (auto simp: sense_decode_def wr_whole_def wr_sense_def result_simps rd_bind_Inr rd_fail_Inr split: if_splits)
  have new: "se_ready (sense_at now) = pack max_goals []" "se_commands (sense_at now) = pack max_commands []"
    by (simp_all add: sense_at_def pack_def)
  obtain rs where rs: "s1 = (sense_at now)\<lparr>se_ready := pack max_goals rs\<rparr>" "distinct rs" "length rs \<le> max_goals"
    "list_all goal_id_wire rs"
    using wr_ready_ok [OF s1 new(1)] by auto
  obtain cs where cs: "s = s1\<lparr>se_commands := pack max_commands cs\<rparr>" "length cs \<le> max_commands" "list_all command_ok cs"
    using wr_commands_ok [OF s2, of "[]"] new(2) rs(1) by auto
  show ?thesis using rs cs by (simp add: sense_ok_def sense_commands_def)
qed

interpretation harvest_query_r: wire_reader "rd_bind wr_u64 (\<lambda>r. rd_bind wr_u8 (\<lambda>i. rd_return (RunId r, i)))"
    "\<lambda>q. harvest_query (fst q) (snd q)" any
proof
  fix r v r'
  show "rd_bind wr_u64 (\<lambda>r. rd_bind wr_u8 (\<lambda>i. rd_return (RunId r, i))) r = Inr (v, r') \<longleftrightarrow>
      any v \<and> reads r (harvest_query (fst v) (snd v)) \<and> r' = skip r (harvest_query (fst v) (snd v))"
    by (cases v) (auto simp: wire_bind_iff read_chain harvest_query_def u8_enc_def run_id_eq_iff)
qed

lemma harvest_query_exact: "read_harvest_query bs = Inr (r, i) \<longleftrightarrow> bs = harvest_query r i"
  using harvest_query_r.whole_iff [of bs "(r, i)"] by (simp add: read_harvest_query_def)

lemma harvest_entry_exact:
  "harvest_entry_decode bs = Inr e \<longleftrightarrow> entry_wire e \<and> \<not> pinned e \<and> me_stamp e = 0 \<and> bs = entry_enc e"
proof -
  have "decode_entry bs = Inr e \<longleftrightarrow> entry_wire e \<and> entry_enc e = bs"
    using reader_of_iff [of bs "entry_enc e"]
    by (auto simp: decode_entry_def result_simps entry_c.get_iff split: if_splits)
  then show ?thesis by (auto simp: harvest_entry_decode_def result_simps split: if_splits)
qed

lemma item_key_exact:
  "read_item_key bs = Inr (d, i, item) \<longleftrightarrow> bs = item_key d i @ item \<and> length item \<le> max_item_bytes"
proof
  assume "read_item_key bs = Inr (d, i, item)"
  then have rd: "reads (reader_of bs) (to_le_bytes d)" "reads (skip (reader_of bs) (to_le_bytes d)) (to_le_bytes i)"
    and item: "item = (case slice bs item_key_bytes (length bs) of Some xs \<Rightarrow> xs | None \<Rightarrow> [])" "length item \<le> max_item_bytes"
    by (auto simp: read_item_key_def result_simps wire_u64.get_iff wire_u16.get_iff Let_def split: if_splits)
  have "reads (reader_of bs) (item_key d i)" using rd by (simp add: item_key_def reads_append)
  then have "take 10 bs = item_key d i" "10 \<le> length bs"
    by (auto simp: reads_def slice_def reader_of_def item_key_def split: if_splits)
  moreover from this have "item = drop 10 bs" using item by (simp add: slice_def item_key_bytes_def)
  ultimately show "bs = item_key d i @ item \<and> length item \<le> max_item_bytes"
    using item append_take_drop_id [of 10 bs] by simp
next
  assume a: "bs = item_key d i @ item \<and> length item \<le> max_item_bytes"
  then have "reads (reader_of bs) (item_key d i)" by (simp add: reads_def slice_def reader_of_def)
  then have "reads (reader_of bs) (to_le_bytes d)" "reads (skip (reader_of bs) (to_le_bytes d)) (to_le_bytes i)"
    by (simp_all add: item_key_def reads_append)
  moreover have "slice bs item_key_bytes (length bs) = Some item"
    using a by (simp add: slice_def item_key_bytes_def item_key_def)
  ultimately show "read_item_key bs = Inr (d, i, item)"
    using a by (simp add: read_item_key_def wire_u64.get_enc wire_u16.get_enc Let_def)
qed

lemma item_bytes_exact: "(\<exists>x. item_decode bs = Inr x \<and> item_as_bytes x = bs') \<longleftrightarrow> bs' = bs \<and> length bs \<le> max_item_bytes"
  by (auto simp: item_decode_def item_as_bytes_def splice_def slice_def result_simps split: if_splits)

text \<open>Every payload fits the page a record is staged through.\<close>

lemma length_command_enc: "command_ok c \<Longrightarrow> length (command_enc c) \<le> 1 + 8 + 2 * (1 + note_max)"
proof (cases c)
  case (Cmd_AddGoal objective priority cadence envelope caps)
  moreover assume "command_ok c"
  ultimately show ?thesis using length_note_enc [of objective] length_capabilities_enc [of caps]
    by (simp add: command_enc_def command_ok_def u8_enc_def cadence_enc_def envelope_enc_def note_max_def
        split: cadence.split)
next
  case (Cmd_Remember d label val)
  moreover assume "command_ok c"
  ultimately show ?thesis using length_note_enc [of label] length_note_enc [of val]
    by (simp add: command_enc_def command_ok_def u8_enc_def)
qed (simp_all add: command_enc_def u8_enc_def goal_id_enc_def)

lemma sum_length_le: "(\<And>x. x \<in> set xs \<Longrightarrow> length (f x) \<le> n) \<Longrightarrow> length (concat (map f xs)) \<le> length xs * n"
  by (induction xs) (auto simp: add_le_mono)

lemma agent_payload_lengths:
  "sense_ok s \<Longrightarrow> length (sense_enc s) \<le> page_record_max"
  "run_request_ok q \<Longrightarrow> length (run_request_enc q) \<le> page_record_max"
  "length (run_report_enc p) \<le> 7"
  "length (harvest_query r i) \<le> page_record_max"
proof -
  show "length (sense_enc s) \<le> page_record_max" if ok: "sense_ok s"
  proof -
    have "length (concat (map goal_id_enc (flatten (se_ready s)))) \<le> length (flatten (se_ready s)) * 2"
      by (rule sum_length_le) (simp add: goal_id_enc_def)
    moreover have "length (concat (map command_enc (sense_commands s))) \<le> length (sense_commands s) * (1 + 8 + 2 * (1 + note_max))"
      by (rule sum_length_le) (use ok length_command_enc in \<open>simp add: sense_ok_def list_all_iff\<close>)
    moreover have "length (sense_commands s) * (1 + 8 + 2 * (1 + note_max)) \<le> 3 * (1 + 8 + 2 * (1 + note_max))"
      using ok by (intro mult_right_mono) (simp_all add: sense_ok_def max_commands_def)
    moreover have "length (flatten (se_ready s)) \<le> 8" using ok by (simp add: sense_ok_def max_goals_def)
    ultimately show ?thesis by (simp add: sense_enc_def u8_enc_def note_max_def page_record_max_def)
  qed
  show "length (run_request_enc q) \<le> page_record_max" if ok: "run_request_ok q"
  proof (cases q)
    case (Req_Spawn g s)
    then obtain b where b: "sd_brief s = Some b" "brief_ok b" "capabilities_wire (sd_capabilities s)"
      using ok by (auto simp: run_request_ok_def)
    then show ?thesis using Req_Spawn brief_ok_length [of b] length_capabilities_enc [of "sd_capabilities s"]
      by (simp add: run_request_enc_def spawn_enc_def u8_enc_def goal_id_enc_def settings_bytes_def context_budget_enc_def
          flag_enc_def page_record_max_def)
  qed (simp add: run_request_enc_def u8_enc_def goal_id_enc_def page_record_max_def)
  show "length (run_report_enc p) \<le> 7"
    by (cases p) (simp_all add: run_report_enc_def u8_enc_def)
  show "length (harvest_query r i) \<le> page_record_max"
    by (simp add: harvest_query_def page_record_max_def)
qed

end
