(* ===== verification/Agent.thy ===== *)
theory Agent
  imports Agent_Wire Flow Harvest
begin

text \<open>
  The always-on supervisor (\<open>esper-runtime/src/agent/mod.rs\<close>): the agent's seed, the start of a
  supervisor run, one heartbeat with its sensing, commands, run and harvest, the checkpoint that is
  stored item by item, and the loop that beats until it continues as new. A wait is recorded in the
  journal as a boundary of its own; here it is a request under a kind no activity has, whose recorded
  answer only says that the wait ended.
\<close>

section \<open>The seed\<close>

datatype heartbeat = Hb_Boot u64 | Hb_Persistent u64

record agent_seed =
  as_id :: u64
  as_template :: run_seed
  as_policy :: schedule_policy
  as_heartbeat :: heartbeat
  as_checkpoint_every :: beat_span

definition agent_default_slice :: agent_seed where
  "agent_default_slice =
     \<lparr>as_id = 1, as_template = default_slice\<lparr>sd_inference := briefed_settings\<rparr>,
      as_policy = schedule_policy_DEFAULT, as_heartbeat = Hb_Boot 1,
      as_checkpoint_every = (case span_new 64 of Some s \<Rightarrow> s | None \<Rightarrow> span_ONE)\<rparr>"

datatype agent_error =
    AE_Core error
  | AE_Wire wire_error
  | AE_SeedInvalid string
  | AE_SeedMismatch
  | AE_CheckpointMissing

definition agent_validate :: "agent_seed \<Rightarrow> agent_error + unit" where
  "agent_validate s =
     (if sd_parent (as_template s) \<noteq> None then Inl (AE_SeedInvalid ''template must not carry a lineage'')
      else if sd_brief (as_template s) \<noteq> None then Inl (AE_SeedInvalid ''template must not carry a brief'')
      else and_then (map_err AE_SeedInvalid (settings_validate_briefed (sd_inference (as_template s)))) (\<lambda>_.
           and_then (map_err AE_SeedInvalid (seed_validate
             ((as_template s)\<lparr>sd_model_turns := 1, sd_inference := default_settings\<rparr>))) (\<lambda>_.
           and_then (map_err (\<lambda>_. AE_SeedInvalid ''schedule policy is malformed'')
             (schedule_policy_validate (as_policy s))) (\<lambda>_.
           if as_heartbeat s = Hb_Boot 0 \<or> as_heartbeat s = Hb_Persistent 0
           then Inl (AE_SeedInvalid ''heartbeat interval must be at least 1'') else Inr ()))))"

text \<open>A write whose result is dropped (\<open>let _ = w.bytes(..)\<close>).\<close>

definition w_try :: "(writer \<Rightarrow> wire_error + writer) \<Rightarrow> writer \<Rightarrow> writer" where
  "w_try f w = (case f w of Inl _ \<Rightarrow> w | Inr w' \<Rightarrow> w')"

definition agent_digest :: "agent_seed \<Rightarrow> u64" where
  "agent_digest s =
     (let (tag, v) = (case as_heartbeat s of Hb_Boot ticks \<Rightarrow> (0 :: u8, ticks) | Hb_Persistent period \<Rightarrow> (1, period));
          w = fold w_try
            [w_bytes (to_le_bytes (as_id s)), w_bytes (input_bytes (snapshot_of_seed (as_template s))),
             w_bytes [sp_max_consecutive_failures (as_policy s)],
             w_bytes (to_le_bytes (span_get (sp_backoff_base (as_policy s)))),
             w_bytes (to_le_bytes (span_get (sp_backoff_cap (as_policy s)))),
             w_bytes (to_le_bytes (span_get (sp_overdue_after (as_policy s)))),
             w_bytes [tag], w_bytes (to_le_bytes v),
             w_bytes (to_le_bytes (span_get (as_checkpoint_every s)))]
            (writer_new (replicate (8 + 151 + 13 + 9 + 4) 0))
      in fnv1a64 (fst w))"

section \<open>The start of a supervisor run\<close>

record agent_start =
  st_seed_digest :: u64
  st_header :: "header option"

definition agent_start_of :: "agent_seed \<Rightarrow> agent_start" where
  "agent_start_of s = \<lparr>st_seed_digest = agent_digest s, st_header = None\<rparr>"

definition max_start_bytes :: nat where "max_start_bytes = 1 + 8 + header_bytes"

definition start_encode :: "agent_start \<Rightarrow> bytes \<Rightarrow> agent_error + (bytes \<times> nat)" where
  "start_encode s out =
     (if length out < 9 then Inl (AE_Wire W_BufferTooSmall)
      else let out1 = (if st_header s = None then 0 else 1) # to_le_bytes (st_seed_digest s) @ drop 9 out in
        case st_header s of
          None \<Rightarrow> Inr (out1, 9)
        | Some h \<Rightarrow>
            and_then (map_err (\<lambda>e. AE_Wire (W_Core e)) (header_encode h (drop 9 out1)))
              (\<lambda>(rest, n). Inr (take 9 out1 @ rest, 9 + n)))"

definition start_decode :: "bytes \<Rightarrow> agent_error + agent_start" where
  "start_decode bs =
     and_then (ok_or (AE_Wire W_Truncated) (nth_of bs 0)) (\<lambda>tag.
     and_then (ok_or (AE_Wire W_Truncated) (slice bs 1 9)) (\<lambda>d.
     let rest = (case slice bs 9 (length bs) of Some xs \<Rightarrow> xs | None \<Rightarrow> []) in
     and_then
       (if tag = 0 \<and> rest = [] then Inr None
        else if tag = 1 then map_sum (\<lambda>e. AE_Wire (W_Core e)) Some (header_decode rest)
        else Inl (AE_Wire W_Invalid)) (\<lambda>h.
     Inr \<lparr>st_seed_digest = from_le_bytes d, st_header = h\<rparr>)))"

section \<open>State\<close>

datatype beat_action =
    Did_Nothing
  | Did_Spawn goal_id run_id
  | Did_Resume goal_id run_id

record settlement =
  sl_goal :: goal_id
  sl_run :: run_id
  sl_status :: terminal_status
  sl_event :: goal_event
  sl_harvested :: u8

record pulse =
  pu_beat :: beat
  pu_action :: beat_action
  pu_parked :: bool
  pu_settled :: "settlement option"
  pu_rejected :: u8
  pu_counts :: goal_counts

definition pulse_new :: "beat \<Rightarrow> pulse" where
  "pulse_new b =
     \<lparr>pu_beat = b, pu_action = Did_Nothing, pu_parked = False, pu_settled = None, pu_rejected = 0,
      pu_counts = \<lparr>gc_active = 0, gc_waiting = 0, gc_overdue = 0, gc_paused = 0, gc_done = 0\<rparr>\<rparr>"

text \<open>The state, with the pulses this boot gave to the sink.\<close>

record agent_state =
  ag_checkpoint :: agent_checkpoint
  ag_pulse :: "pulse option"
  ag_sink :: "pulse list"

definition agent_state_new :: agent_state where
  "agent_state_new = \<lparr>ag_checkpoint = checkpoint_new, ag_pulse = None, ag_sink = []\<rparr>"

text \<open>A supervisor ends by continuing as new or by a fault.\<close>

datatype agent_ending =
    A_Continued bytes agent_state
  | A_Faulted agent_error

type_synonym 'a agent_flow = "(agent_ending, 'a) flow"

definition agent_try :: "agent_error + 'a \<Rightarrow> 'a agent_flow" where
  "agent_try m = (case m of Inl e \<Rightarrow> Stop (A_Faulted e) | Inr x \<Rightarrow> Ret x)"

text \<open>An activity whose failure the caller handles; an answer that does not decode is a fault.\<close>

definition asked :: "u16 \<Rightarrow> bytes \<Rightarrow> (bytes \<Rightarrow> wire_error + 'a) \<Rightarrow> 'a option agent_flow" where
  "asked k i dec =
     Act k i (\<lambda>a. case a of
       Ans_Completed p \<Rightarrow>
         (case dec p of Inl e \<Rightarrow> Stop (A_Faulted (AE_Wire e)) | Inr x \<Rightarrow> Ret (Some x))
     | Ans_Failed p \<Rightarrow> Ret None)"

text \<open>\<open>Ctx::timer\<close>.\<close>

datatype timer_spec = After_Boot u64 | At_Persistent_Time u64

definition timer_boundary :: u16 where "timer_boundary = 0xffff"

definition timer_wait :: "timer_spec \<Rightarrow> unit agent_flow" where
  "timer_wait s =
     Act timer_boundary
       (case s of After_Boot ticks \<Rightarrow> 0 # to_le_bytes ticks | At_Persistent_Time t \<Rightarrow> 1 # to_le_bytes t)
       (\<lambda>_. Ret ())"

section \<open>Checkpoints\<close>

lemma restore_push_progress:
  "restore_push st i = (st', Inr u) \<Longrightarrow> restore_remaining (fst st') < restore_remaining (fst st)"
  by (cases st) (auto simp: restore_push_def take_into_def Let_def result_simps restore_remaining_def
      split: sum.splits if_splits)

function restore_items ::
  "u64 \<Rightarrow> u16 \<Rightarrow> Checkpoint.restore \<times> agent_checkpoint \<Rightarrow> (Checkpoint.restore \<times> agent_checkpoint) agent_flow" where
  "restore_items d index st =
     (if restore_remaining (fst st) = 0 then Ret st
      else flow_bind (asked load_kind (item_key d index) item_decode) (\<lambda>x.
        case x of
          None \<Rightarrow> Stop (A_Faulted AE_CheckpointMissing)
        | Some i \<Rightarrow>
            (case restore_push st (item_as_bytes i) of
               (st', Inl e) \<Rightarrow> Stop (A_Faulted (AE_Core e))
             | (st', Inr u) \<Rightarrow> restore_items d (saturating_add index 1) st')))"
  by pat_completeness auto

termination
  by (relation "measure (\<lambda>(d, i, st). restore_remaining (fst st))") (auto dest!: restore_push_progress [OF sym])

declare restore_items.simps [simp del]

definition agent_restore :: "header \<Rightarrow> agent_state \<Rightarrow> agent_state agent_flow" where
  "agent_restore h st =
     flow_bind (restore_items (hd_digest h) 0 (restore_begin h)) (\<lambda>(rs, cp).
     flow_bind (agent_try (map_err AE_Core (restore_finish rs))) (\<lambda>_.
     Ret (st\<lparr>ag_checkpoint := cp\<rparr>)))"

fun store_all :: "agent_checkpoint \<Rightarrow> u64 \<Rightarrow> nat list \<Rightarrow> bool agent_flow" where
  "store_all cp d [] = Ret True"
| "store_all cp d (index # rest) =
     flow_bind (agent_try (map_err AE_Wire (ok_or W_Invalid (try_from index)))) (\<lambda>i.
     flow_bind (agent_try (map_err AE_Core (encode_item cp index (replicate max_item_bytes 0)))) (\<lambda>(out, n).
     flow_bind (agent_try (ok_or (AE_Wire W_BufferTooSmall)
         (slice (item_key d i @ out) 0 (item_key_bytes + n)))) (\<lambda>inp.
     flow_bind (asked store_kind inp ack_decode) (\<lambda>x.
       case x of None \<Rightarrow> Ret False | Some _ \<Rightarrow> store_all cp d rest))))"

definition store_checkpoint :: "agent_state \<Rightarrow> header option agent_flow" where
  "store_checkpoint st =
     (let cp = ag_checkpoint st; h = checkpoint_header cp in
      flow_bind (store_all cp (hd_digest h) [0..<item_count cp]) (\<lambda>stored.
        Ret (if stored then Some h else None)))"

section \<open>One beat\<close>

definition goal_spec_of :: "note_t \<Rightarrow> u8 \<Rightarrow> cadence \<Rightarrow> envelope \<Rightarrow> capabilities \<Rightarrow> goal_spec" where
  "goal_spec_of objective priority cadence envelope caps =
     \<lparr>gs_objective = note_as_bytes objective, gs_priority = priority, gs_cadence = cadence,
      gs_envelope = envelope, gs_capabilities = caps\<rparr>"

definition apply_command ::
  "agent_seed \<Rightarrow> beat \<Rightarrow> command \<Rightarrow> agent_checkpoint \<Rightarrow> agent_checkpoint \<times> (agent_error + unit)" where
  "apply_command seed b c cp =
     (case c of
        Cmd_AddGoal objective priority cadence envelope caps \<Rightarrow>
          (case and_then (ledger_admit (cp_ledger cp) (goal_spec_of objective priority cadence envelope caps)
                  (sd_capabilities (as_template seed)) b) (ledger_insert (cp_ledger cp)) of
             Inl e \<Rightarrow> (cp, Inl (AE_Core e))
           | Inr l \<Rightarrow> (cp\<lparr>cp_ledger := l\<rparr>, Inr ()))
      | Cmd_Control g event \<Rightarrow>
          (case ledger_control (cp_ledger cp) g event b of
             (l, m) \<Rightarrow> (cp\<lparr>cp_ledger := l\<rparr>, map_err AE_Core m))
      | Cmd_Remember d label val \<Rightarrow>
          (case memory_write (cp_memory cp)
                  \<lparr>me_key = MK_Note d, me_label = label, me_value = val,
                   me_provenance = \<lparr>pv_goal = None, pv_run = None, pv_beat = b\<rparr>, me_stamp = 0\<rparr> of
             Inl e \<Rightarrow> (cp, Inl (AE_Core e))
           | Inr m \<Rightarrow> (cp\<lparr>cp_memory := m\<rparr>, Inr ()))
      | Cmd_Forget d \<Rightarrow>
          (case memory_forget (cp_memory cp) (MK_Note d) of
             (m, found) \<Rightarrow> (cp\<lparr>cp_memory := m\<rparr>, if found then Inr () else Inl (AE_Wire W_Invalid))))"

text \<open>The commands in order, and how many were refused.\<close>

fun apply_commands :: "agent_seed \<Rightarrow> beat \<Rightarrow> command list \<Rightarrow> agent_checkpoint \<times> u8 \<Rightarrow> agent_checkpoint \<times> u8" where
  "apply_commands seed b [] st = st"
| "apply_commands seed b (c # cs) (cp, rejected) =
     (case apply_command seed b c cp of
        (cp', Inl _) \<Rightarrow> apply_commands seed b cs (cp', saturating_add rejected 1)
      | (cp', Inr _) \<Rightarrow> apply_commands seed b cs (cp', rejected))"

definition run_id_of :: "goal_id \<Rightarrow> u32 \<Rightarrow> run_id" where
  "run_id_of g seq = RunId (push_bit 48 (ucast (goal_id_get g)) OR push_bit 16 (ucast seq))"

definition goal_of :: "run_id \<Rightarrow> goal_id option" where
  "goal_of r = goal_id_new (ucast (drop_bit 48 (run_id_get r)))"

definition spawn_seed ::
  "agent_seed \<Rightarrow> agent_checkpoint \<Rightarrow> goal_id \<Rightarrow> grant \<Rightarrow> run_id \<Rightarrow> agent_error + run_seed" where
  "spawn_seed seed cp g reservation run =
     and_then (ok_or (AE_Core (E_GoalUnknown (goal_id_get g))) (ledger_get (cp_ledger cp) g)) (\<lambda>entry.
     let brief = compose (g_objective entry) (recall (cp_memory cp) g);
         run_seed = (as_template seed)\<lparr>sd_id := run, sd_model_turns := gr_turns reservation,
           sd_mutations := gr_mutations reservation, sd_capabilities := g_capabilities entry,
           sd_brief := Some brief, sd_parent := None\<rparr>
     in and_then (map_err AE_SeedInvalid (seed_validate run_seed)) (\<lambda>_. Inr run_seed))"

text \<open>Reading the harvest, entry by entry; the supervisor states the provenance.\<close>

fun harvest_loop ::
  "goal_id \<Rightarrow> run_id \<Rightarrow> beat \<Rightarrow> u8 list \<Rightarrow> agent_checkpoint \<times> u8 \<Rightarrow> (agent_checkpoint \<times> u8) agent_flow" where
  "harvest_loop g run b [] st = Ret st"
| "harvest_loop g run b (index # rest) (cp, count) =
     flow_bind (asked harvest_kind (harvest_query run index) harvest_entry_decode) (\<lambda>x.
       case x of
         None \<Rightarrow> harvest_loop g run b rest (cp, count)
       | Some e \<Rightarrow>
           flow_bind (agent_try (map_err AE_Core (memory_write (cp_memory cp)
               (e\<lparr>me_provenance := \<lparr>pv_goal = Some g, pv_run = Some run, pv_beat = b\<rparr>\<rparr>)))) (\<lambda>m.
           harvest_loop g run b rest (cp\<lparr>cp_memory := m\<rparr>, saturating_add count 1)))"

definition storage_fault_report :: run_report where
  "storage_fault_report = Rep_Settled T_StorageFault 0 0 0"

definition harvest_indexes :: "u8 \<Rightarrow> u8 list" where
  "harvest_indexes harvest =
     map of_nat [0..<unat (min harvest (case try_from max_harvest of Some n \<Rightarrow> n | None \<Rightarrow> - 1))]"

definition drive_run ::
  "run_request \<Rightarrow> beat \<Rightarrow> schedule_policy \<Rightarrow> agent_checkpoint \<times> pulse \<Rightarrow> (agent_checkpoint \<times> pulse) agent_flow" where
  "drive_run request b policy st =
     (case st of (cp, p) \<Rightarrow>
      let g = request_goal request; run = request_run request in
      flow_bind (agent_try (map_err AE_Wire (run_request_encode request (replicate max_run_request_bytes 0)))) (\<lambda>(out, n).
      flow_bind (agent_try (ok_or (AE_Wire W_BufferTooSmall) (slice out 0 n))) (\<lambda>inp.
      flow_bind (asked run_kind inp run_report_decode) (\<lambda>x.
      case (case x of Some r \<Rightarrow> r | None \<Rightarrow> storage_fault_report) of
        Rep_Parked \<Rightarrow>
          (case ledger_park (cp_ledger cp) g b of
             (l, m) \<Rightarrow>
               flow_bind (agent_try (map_err AE_Core m)) (\<lambda>_.
               Ret (cp\<lparr>cp_ledger := l\<rparr>, p\<lparr>pu_parked := True\<rparr>)))
      | Rep_Settled status turns mutations harvest \<Rightarrow>
          (case ledger_settle (cp_ledger cp) g status \<lparr>gr_turns = turns, gr_mutations = mutations\<rparr> b policy of
             (l, m) \<Rightarrow>
               flow_bind (agent_try (map_err AE_Core m)) (\<lambda>event.
               flow_bind (harvest_loop g run b (harvest_indexes harvest) (cp\<lparr>cp_ledger := l\<rparr>, 0)) (\<lambda>(cp', count).
               Ret (cp', p\<lparr>pu_settled := Some \<lparr>sl_goal = g, sl_run = run, sl_status = status, sl_event = event,
                                              sl_harvested = count\<rparr>\<rparr>))))))))"

text \<open>What the beat serves: nothing, a new run, or a run whose input arrived.\<close>

definition spawn_run ::
  "agent_seed \<Rightarrow> beat \<Rightarrow> goal_id \<Rightarrow> agent_checkpoint \<times> pulse \<Rightarrow> (agent_checkpoint \<times> pulse) agent_flow" where
  "spawn_run seed b g st =
     (case st of (cp, p) \<Rightarrow>
      flow_bind (agent_try (map_err AE_Core (ledger_reservation (cp_ledger cp) g))) (\<lambda>reservation.
      let run = run_id_of g (cp_spawn_seq cp) in
      flow_bind (agent_try (spawn_seed seed cp g reservation run)) (\<lambda>run_seed.
      case ledger_spawn (cp_ledger cp) g run reservation of
        (l, m) \<Rightarrow>
          flow_bind (agent_try (map_err AE_Core m)) (\<lambda>_.
          flow_bind (agent_try (ok_or (AE_Core E_BeatOverflow) (checked_add (cp_spawn_seq cp) 1))) (\<lambda>seq.
          drive_run (Req_Spawn g run_seed) b (as_policy seed)
            (cp\<lparr>cp_ledger := l, cp_spawn_seq := seq\<rparr>, p\<lparr>pu_action := Did_Spawn g run\<rparr>))))))"

definition resume_run ::
  "agent_seed \<Rightarrow> beat \<Rightarrow> goal_id \<Rightarrow> agent_checkpoint \<times> pulse \<Rightarrow> (agent_checkpoint \<times> pulse) agent_flow" where
  "resume_run seed b g st =
     (case st of (cp, p) \<Rightarrow>
      flow_bind (agent_try (ok_or (AE_Core (E_GoalUnknown (goal_id_get g)))
          (Option.bind (ledger_get (cp_ledger cp) g) g_run))) (\<lambda>run.
      case ledger_resume (cp_ledger cp) g of
        (l, m) \<Rightarrow>
          flow_bind (agent_try (map_err AE_Core m)) (\<lambda>_.
          drive_run (Req_Resume g run) b (as_policy seed)
            (cp\<lparr>cp_ledger := l\<rparr>, p\<lparr>pu_action := Did_Resume g run\<rparr>))))"

text \<open>The next deadline of a persistent heartbeat: missed beats are not owed.\<close>

definition next_deadline :: "agent_seed \<Rightarrow> sense \<Rightarrow> agent_checkpoint \<Rightarrow> agent_error + agent_checkpoint" where
  "next_deadline seed s cp =
     (case as_heartbeat seed of
        Hb_Boot _ \<Rightarrow> Inr cp
      | Hb_Persistent period \<Rightarrow>
          and_then (ok_or (AE_Core E_BeatOverflow) (checked_add (max (cp_next_deadline cp) (se_now s)) period)) (\<lambda>t.
            Inr (cp\<lparr>cp_next_deadline := t\<rparr>)))"

definition serve :: "agent_seed \<Rightarrow> beat \<Rightarrow> sense \<Rightarrow> agent_checkpoint \<times> pulse \<Rightarrow> (agent_checkpoint \<times> pulse) agent_flow" where
  "serve seed b s st =
     (case ledger_pick (cp_ledger (fst st)) b (is_ready s) of
        Pick_Idle \<Rightarrow> Ret st
      | Pick_Spawn g \<Rightarrow> spawn_run seed b g st
      | Pick_Resume g \<Rightarrow> resume_run seed b g st)"

definition agent_beat :: "agent_seed \<Rightarrow> agent_state \<Rightarrow> agent_state agent_flow" where
  "agent_beat seed st =
     (let cp = ag_checkpoint st in
      flow_bind (timer_wait (case as_heartbeat seed of
          Hb_Boot ticks \<Rightarrow> After_Boot ticks | Hb_Persistent _ \<Rightarrow> At_Persistent_Time (cp_next_deadline cp))) (\<lambda>_.
      flow_bind (agent_try (map_err AE_Core (beat_next (cp_last_beat cp)))) (\<lambda>b.
      flow_bind (asked sense_kind (to_le_bytes (beat_get b)) sense_decode) (\<lambda>x.
      let s = (case x of Some s \<Rightarrow> s | None \<Rightarrow> sense_EMPTY) in
      flow_bind (agent_try (next_deadline seed s cp)) (\<lambda>cp1.
      case apply_commands seed b (sense_commands s) (cp1, 0) of
        (cp2, rejected) \<Rightarrow>
          flow_bind (serve seed b s (cp2, (pulse_new b)\<lparr>pu_rejected := rejected\<rparr>)) (\<lambda>(cp3, p).
          let p' = p\<lparr>pu_counts := ledger_counts (cp_ledger cp3) b (as_policy seed)\<rparr> in
          Ret (st\<lparr>ag_checkpoint := cp3\<lparr>cp_last_beat := b\<rparr>, ag_pulse := Some p', ag_sink := ag_sink st @ [p']\<rparr>)))))))"

section \<open>The supervisor\<close>

text \<open>The supervisor beats forever unless it continues as new or faults, so the model is given the number
  of beats to take; it returns its state when that many went by.\<close>

fun supervise_beats :: "nat \<Rightarrow> agent_seed \<Rightarrow> u64 \<Rightarrow> agent_state \<Rightarrow> agent_state agent_flow" where
  "supervise_beats 0 seed d st = Ret st"
| "supervise_beats (Suc n) seed d st =
     flow_bind (agent_beat seed st) (\<lambda>st1.
     flow_bind (if beat_get (cp_last_beat (ag_checkpoint st1)) mod ucast (span_get (as_checkpoint_every seed)) = 0
                then store_checkpoint st1 else Ret None) (\<lambda>stored.
     case stored of
       None \<Rightarrow> supervise_beats n seed d st1
     | Some h \<Rightarrow>
         flow_bind (agent_try (start_encode \<lparr>st_seed_digest = d, st_header = Some h\<rparr> (replicate max_start_bytes 0)))
           (\<lambda>(out, len). Stop (A_Continued (case slice out 0 len of Some bs \<Rightarrow> bs | None \<Rightarrow> []) st1))))"

definition supervise :: "nat \<Rightarrow> agent_seed \<Rightarrow> bytes \<Rightarrow> agent_state agent_flow" where
  "supervise n seed inp =
     flow_bind (agent_try (agent_validate seed)) (\<lambda>_.
     flow_bind (agent_try (start_decode inp)) (\<lambda>start.
     if st_seed_digest start \<noteq> agent_digest seed then Stop (A_Faulted AE_SeedMismatch)
     else flow_bind (case st_header start of
         None \<Rightarrow> Ret agent_state_new | Some h \<Rightarrow> agent_restore h agent_state_new) (\<lambda>st.
       supervise_beats n seed (st_seed_digest start) st)))"

end
