(* ===== verification/Agent_Invariant.thy ===== *)
theory Agent_Invariant
  imports Agent
begin

text \<open>
  What holds of the supervisor's state between its activities: the ledger and the memory satisfy their
  invariants, every goal and entry can be stored as a checkpoint item, and no goal is running except
  the one whose run is being driven. Every step of the beat keeps it.
\<close>

section \<open>The invariant\<close>

definition running_only :: "goal_id option \<Rightarrow> goal_ledger \<Rightarrow> bool" where
  "running_only x l \<longleftrightarrow> (\<forall>g \<in> set (ledger_goals l). g_status g = G_Running \<longrightarrow> Some (g_id g) = x)"

definition agent_wf :: "goal_id option \<Rightarrow> agent_checkpoint \<Rightarrow> bool" where
  "agent_wf x cp \<longleftrightarrow> ledger_ok (cp_ledger cp) \<and> running_only x (cp_ledger cp) \<and> memory_ok (cp_memory cp) \<and> items_wire cp"

lemma agent_wf_checkpoint: "agent_wf None cp \<longleftrightarrow> checkpoint_ok cp \<and> mem_next_stamp (cp_memory cp) \<noteq> 0"
proof -
  have "running_only None l \<longleftrightarrow> \<not> has_running l" for l
    by (auto simp: running_only_def has_running_def list_ex_iff)
  moreover have "memory_ok m \<longleftrightarrow> m = with_entries (memory_entries m) (mem_next_stamp m) \<and>
      entries_ok (memory_entries m) (mem_next_stamp m) \<and> mem_next_stamp m \<noteq> 0" for m
    using memory_ok_with_entries [of m] memory_ok_with [of "memory_entries m" "mem_next_stamp m"] by (metis memory_ok_def)
  ultimately show ?thesis unfolding agent_wf_def checkpoint_ok_def by blast
qed

lemma agent_wf_new: "agent_wf None checkpoint_new"
  using ledger_new_live memory_new_ok
  by (simp add: agent_wf_def checkpoint_new_def running_only_def items_wire_def ledger_live_def)

section \<open>One goal changes\<close>

text \<open>An operation on one goal, seen on the list of goals.\<close>

definition replaced :: "goal_id \<Rightarrow> goal \<Rightarrow> goal_ledger \<Rightarrow> goal_ledger \<Rightarrow> bool" where
  "replaced i g' l l' \<longleftrightarrow> ledger_ok l' \<and> gl_next_id l' = gl_next_id l \<and>
     ledger_goals l' = map (\<lambda>h. if g_id h = i then g' else h) (ledger_goals l)"

lemma on_goal_replaced:
  assumes ok: "ledger_ok l" and get: "ledger_get l i = Some g" and f: "f g = (g', r)" and step: "goal_step c g g'"
  shows "snd (on_goal l i f) = r \<and> replaced i g' l (fst (on_goal l i f))"
  using on_goal_effect [where f = f, OF ok get] step f by (simp add: replaced_def)

lemma replaced_wf:
  assumes wf: "agent_wf x cp" and x: "x = None \<or> x = Some i" and rep: "replaced i g' (cp_ledger cp) l'"
    and wire: "goal_wire g'" and i: "g_id g' = i"
  shows "agent_wf (if g_status g' = G_Running then Some i else None) (cp\<lparr>cp_ledger := l'\<rparr>)"
  using assms by (auto simp: agent_wf_def replaced_def running_only_def items_wire_def split: if_splits)

lemma wf_goal:
  assumes "agent_wf x cp" "ledger_get (cp_ledger cp) i = Some g"
  shows "g \<in> set (ledger_goals (cp_ledger cp)) \<and> g_id g = i \<and> goal_ok g \<and> goal_wire g"
  using assms ledger_get_iff [of "cp_ledger cp" i g] by (auto simp: agent_wf_def ledger_ok_def items_wire_def)

lemma goal_wire_kept:
  "goal_wire g \<Longrightarrow> g_id g' = g_id g \<Longrightarrow> g_objective g' = g_objective g \<Longrightarrow> g_cadence g' = g_cadence g \<Longrightarrow>
   g_envelope g' = g_envelope g \<Longrightarrow> g_capabilities g' = g_capabilities g \<Longrightarrow>
   (goal_status_is_busy (g_status g') \<longleftrightarrow> g_run g' \<noteq> None) \<Longrightarrow> goal_wire g'"
  by (simp add: goal_wire_def)

lemma step_keeps:
  "goal_step c g g' \<Longrightarrow> g_id g' = g_id g \<and> g_envelope g' = g_envelope g \<and> g_objective g' = g_objective g \<and>
     g_capabilities g' = g_capabilities g \<and> goal_ok g'"
  unfolding goal_step_def by blast

lemma idle_goal_no_run: "goal_wire g \<Longrightarrow> \<not> goal_status_is_busy (g_status g) \<Longrightarrow> g_run g = None"
  by (simp add: goal_wire_def)

section \<open>Memory\<close>

lemma memory_write_entries:
  assumes "memory_ok m" "memory_write m e = Inr m'"
  shows "set (memory_entries m') \<subseteq> insert (stamped e (mem_next_stamp m)) (set (memory_entries m))"
proof -
  obtain i n where "m' = with_entries (put_at (memory_entries m) (stamped e (mem_next_stamp m)) i) n"
    using memory_write_cases [OF assms(1), of e] assms(2) by auto
  then show ?thesis using set_update_subset_insert [of "memory_entries m" i] by (auto simp: put_at_def)
qed

lemma memory_write_wf:
  assumes wf: "agent_wf x cp" and wr: "memory_write (cp_memory cp) e = Inr m'" and wire: "entry_wire e"
  shows "agent_wf x (cp\<lparr>cp_memory := m'\<rparr>)"
proof -
  have ok: "memory_ok (cp_memory cp)" using wf by (simp add: agent_wf_def)
  have "entry_wire (stamped e n)" for n using wire by (simp add: entry_wire_def stamped_def)
  then show ?thesis
    using wf memory_write_ok [OF ok wr] memory_write_entries [OF ok wr] by (auto simp: agent_wf_def items_wire_def)
qed

lemma memory_forget_wf: "agent_wf x cp \<Longrightarrow> agent_wf x (cp\<lparr>cp_memory := fst (memory_forget (cp_memory cp) k)\<rparr>)"
  using memory_forget_effect [of "cp_memory cp" k] by (auto simp: agent_wf_def items_wire_def)

section \<open>Commands\<close>

lemma admitted_wire:
  assumes "ledger_admit l (goal_spec_of objective priority cadence envelope caps) ceiling now = Inr g"
    "command_ok (Cmd_AddGoal objective priority cadence envelope caps)"
  shows "goal_wire g \<and> g_status g = G_Active \<and> g_run g = None"
  using assms
  by (auto simp: ledger_admit_def goal_spec_of_def result_simps goal_wire_def goal_id_wire_def goal_id_new_def
      command_ok_def envelope_wire_def note_clean_def dest!: masked_ingest.ing_clean split: if_splits)

lemma control_goal_idle:
  assumes "control_goal event b g = (g', r)"
  shows "g_cadence g' = g_cadence g \<and> g_run g' = g_run g \<and>
    (g' = g \<or> \<not> goal_status_is_busy (g_status g) \<and> \<not> goal_status_is_busy (g_status g'))"
proof (cases "goal_status_is_busy (g_status g) \<or> \<not> goal_event_is_operator event")
  case False
  show ?thesis
  proof (cases "goal_transition (g_status g) event")
    case (Inr s)
    then have "\<not> goal_status_is_busy s"
      using False by (auto simp: goal_transition_Inr_iff goal_transitions_def)
    then show ?thesis using assms False Inr by (auto simp: control_goal_def Let_def split: if_splits)
  qed (use assms False in \<open>simp add: control_goal_def\<close>)
qed (use assms in \<open>auto simp: control_goal_def split: if_splits\<close>)

text \<open>What one command does to the ledger: nothing, a goal appended, or an idle goal changed.\<close>

lemma apply_command_wf:
  assumes wf: "agent_wf None cp" and ok: "command_ok c" and run: "apply_command seed b c cp = (cp', r)"
  shows "agent_wf None cp'"
proof (cases c)
  case (Cmd_AddGoal objective priority cadence envelope caps)
  let ?spec = "goal_spec_of objective priority cadence envelope caps"
  show ?thesis
  proof (cases "and_then (ledger_admit (cp_ledger cp) ?spec (sd_capabilities (as_template seed)) b)
      (ledger_insert (cp_ledger cp))")
    case (Inr l)
    then obtain g where adm: "ledger_admit (cp_ledger cp) ?spec (sd_capabilities (as_template seed)) b = Inr g"
      and ins: "ledger_insert (cp_ledger cp) g = Inr l" by (auto simp: result_simps)
    have lok: "ledger_ok (cp_ledger cp)" using wf by (simp add: agent_wf_def)
    have "goal_id_get (g_id g) \<noteq> 0" using ledger_admit_Inr [OF adm] by (simp add: goal_ok_def)
    note l = ledger_insert_Inr [OF lok ins this]
    have "cp' = cp\<lparr>cp_ledger := l\<rparr>" using run Inr Cmd_AddGoal by (simp add: apply_command_def)
    then show ?thesis using wf l admitted_wire [OF adm] ok Cmd_AddGoal
      by (auto simp: agent_wf_def running_only_def items_wire_def)
  qed (use run wf Cmd_AddGoal in \<open>simp add: apply_command_def\<close>)
next
  case (Cmd_Control i event)
  let ?l = "fst (ledger_control (cp_ledger cp) i event b)"
  have cp': "cp' = cp\<lparr>cp_ledger := ?l\<rparr>"
    using run Cmd_Control by (auto simp: apply_command_def case_prod_beta)
  show ?thesis
  proof (cases "ledger_get (cp_ledger cp) i")
    case None
    then show ?thesis using cp' wf by (simp add: ledger_control_def on_goal_unknown)
  next
    case (Some g)
    obtain g' r' where g': "control_goal event b g = (g', r')" by fastforce
    note g = wf_goal [OF wf Some]
    note eff = control_goal_effect [OF _ g', OF g [THEN conjunct2, THEN conjunct2, THEN conjunct1]]
    have rep: "replaced i g' (cp_ledger cp) ?l"
      using on_goal_replaced [where f = "control_goal event b", OF _ Some g' conjunct1 [OF eff]] wf
      by (simp add: ledger_control_def agent_wf_def)
    note run' = control_goal_idle [OF g']
    have wire: "goal_wire g'"
    proof (cases "g' = g")
      case False
      then have "goal_status_is_busy (g_status g') \<longleftrightarrow> g_run g' \<noteq> None" using g run' idle_goal_no_run [of g] by auto
      then show ?thesis
        using g run' step_keeps [OF conjunct1 [OF eff]] goal_wire_kept [of g g'] by blast
    qed (use g in simp)
    have "g_status g' \<noteq> G_Running"
    proof (cases "g' = g")
      case True
      have "running_only None (cp_ledger cp)" using wf by (simp add: agent_wf_def)
      then show ?thesis using True g by (auto simp: running_only_def)
    next
      case False
      then have "\<not> goal_status_is_busy (g_status g')" using run' by simp
      then show ?thesis by auto
    qed
    moreover have "g_id g' = i" using step_keeps [OF conjunct1 [OF eff]] g by simp
    ultimately show ?thesis using replaced_wf [OF wf _ rep wire] cp' by simp
  qed
next
  case (Cmd_Remember d label val)
  then show ?thesis using run wf ok
    by (auto simp: apply_command_def command_ok_def entry_wire_def key_wire_def provenance_wire_def
        split: sum.splits intro!: memory_write_wf)
next
  case (Cmd_Forget d)
  then show ?thesis using run memory_forget_wf [OF wf, of "MK_Note d"] by (auto simp: apply_command_def case_prod_beta)
qed

lemma apply_commands_wf:
  "agent_wf None cp \<Longrightarrow> list_all command_ok cs \<Longrightarrow> apply_commands seed b cs (cp, n) = (cp', n') \<Longrightarrow> agent_wf None cp'"
proof (induction cs arbitrary: cp n)
  case (Cons c cs)
  obtain cp1 r where c: "apply_command seed b c cp = (cp1, r)" by fastforce
  then have "agent_wf None cp1" using apply_command_wf Cons.prems by auto
  then show ?case using Cons c by (auto split: sum.splits)
qed simp

end
