(* ===== verification/Agent_Log.thy ===== *)
theory Agent_Log
  imports Agent_Invariant
begin

text \<open>
  The runs a supervisor drove, read off its history: which were spawned and with what, how each drive
  was reported, which run of a goal is still open. The books tie the ledger to that log: what a goal
  has left is its envelope, less what its spawns took, plus what their settlements gave back.
\<close>

section \<open>The log\<close>

text \<open>How the supervisor reads the answer to a drive: a failed activity is a storage fault.\<close>

definition report_of :: "answer \<Rightarrow> run_report" where
  "report_of a =
     (case a of
        Ans_Completed p \<Rightarrow> (case run_report_decode p of Inl e \<Rightarrow> storage_fault_report | Inr r \<Rightarrow> r)
      | Ans_Failed p \<Rightarrow> storage_fault_report)"

type_synonym run_log = "(run_request \<times> run_report) list"

definition run_event :: "u16 \<times> bytes \<times> answer \<Rightarrow> run_log" where
  "run_event e =
     (case e of (k, i, a) \<Rightarrow>
        if k = run_kind then (case run_request_decode i of Inl x \<Rightarrow> [] | Inr q \<Rightarrow> [(q, report_of a)]) else [])"

definition run_log :: "history \<Rightarrow> run_log" where
  "run_log h = concat (map run_event h)"

lemma run_log_simps [simp]:
  "run_log [] = []" "run_log (h @ [e]) = run_log h @ run_event e"
  by (simp_all add: run_log_def)

lemma run_event_other [simp]: "k \<noteq> run_kind \<Longrightarrow> run_event (k, i, a) = []"
  by (simp add: run_event_def)

definition request_spawn :: "run_request \<Rightarrow> (goal_id \<times> run_seed) list" where
  "request_spawn q = (case q of Req_Spawn g s \<Rightarrow> [(g, s)] | Req_Resume g r \<Rightarrow> [])"

definition spawned :: "run_log \<Rightarrow> (goal_id \<times> run_seed) list" where
  "spawned l = concat (map (\<lambda>e. request_spawn (fst e)) l)"

fun seed_amount :: "grant_unit \<Rightarrow> run_seed \<Rightarrow> nat" where
  "seed_amount GU_Turns s = unat (sd_model_turns s)"
| "seed_amount GU_Mutations s = unat (sd_mutations s)"

definition report_refund :: "grant_unit \<Rightarrow> run_report \<Rightarrow> nat" where
  "report_refund k r =
     (case r of Rep_Parked \<Rightarrow> 0
      | Rep_Settled status turns mutations n \<Rightarrow> grant_of k \<lparr>gr_turns = turns, gr_mutations = mutations\<rparr>)"

definition spent_on :: "grant_unit \<Rightarrow> goal_id \<Rightarrow> run_log \<Rightarrow> nat" where
  "spent_on k g l = sum_list (map (\<lambda>(h, s). if h = g then seed_amount k s else 0) (spawned l))"

definition spawn_count :: "goal_id \<Rightarrow> run_log \<Rightarrow> nat" where
  "spawn_count g l = length (filter (\<lambda>(h, s). h = g) (spawned l))"

definition given_back :: "grant_unit \<Rightarrow> goal_id \<Rightarrow> run_log \<Rightarrow> nat" where
  "given_back k g l = sum_list (map (\<lambda>(q, r). if request_goal q = g then report_refund k r else 0) l)"

text \<open>The run of a goal that was parked and not driven since.\<close>

definition open_run :: "goal_id \<Rightarrow> run_log \<Rightarrow> run_id option" where
  "open_run g l =
     foldl (\<lambda>x (q, r). if request_goal q = g then (if r = Rep_Parked then Some (request_run q) else None) else x) None l"

lemma log_nil [simp]:
  "spawned [] = []" "spent_on k g [] = 0" "spawn_count g [] = 0" "given_back k g [] = 0" "open_run g [] = None"
  by (simp_all add: spawned_def spent_on_def spawn_count_def given_back_def open_run_def)

lemma log_snoc [simp]:
  "spawned (l @ [(q, r)]) = spawned l @ request_spawn q"
  "given_back k g (l @ [(q, r)]) = given_back k g l + (if request_goal q = g then report_refund k r else 0)"
  "open_run g (l @ [(q, r)]) =
     (if request_goal q = g then (if r = Rep_Parked then Some (request_run q) else None) else open_run g l)"
  by (simp_all add: spawned_def given_back_def open_run_def)

lemma log_snoc_request [simp]:
  "spent_on k g (l @ [(Req_Spawn h s, r)]) = spent_on k g l + (if h = g then seed_amount k s else 0)"
  "spent_on k g (l @ [(Req_Resume h i, r)]) = spent_on k g l"
  "spawn_count g (l @ [(Req_Spawn h s, r)]) = spawn_count g l + (if h = g then 1 else 0)"
  "spawn_count g (l @ [(Req_Resume h i, r)]) = spawn_count g l"
  "request_spawn (Req_Spawn h s) = [(h, s)]" "request_spawn (Req_Resume h i) = []"
  by (simp_all add: spent_on_def spawn_count_def request_spawn_def)

lemma request_simps [simp]:
  "request_goal (Req_Spawn g s) = g" "request_goal (Req_Resume g r) = g"
  "request_run (Req_Spawn g s) = sd_id s" "request_run (Req_Resume g r) = r"
  "report_refund k Rep_Parked = 0"
  by (simp_all add: request_goal_def request_run_def report_refund_def)

lemma spent_on_report: "spent_on k g (l @ [(q, r)]) = spent_on k g (l @ [(q, r')])"
  "spawn_count g (l @ [(q, r)]) = spawn_count g (l @ [(q, r')])"
  by (cases q; simp)+

text \<open>A goal the log never mentions.\<close>

lemma fresh_goal:
  "\<forall>e \<in> set l. request_goal (fst e) \<noteq> g \<Longrightarrow>
   spent_on k g l = 0 \<and> spawn_count g l = 0 \<and> given_back k g l = 0 \<and> open_run g l = None"
proof (induction l rule: rev_induct)
  case (snoc e l)
  then show ?case by (cases e; cases "fst e") auto
qed simp

section \<open>The books\<close>

definition booked :: "capabilities \<Rightarrow> run_log \<Rightarrow> goal \<Rightarrow> bool" where
  "booked ceiling l g \<longleftrightarrow>
     (\<forall>k. spent_on k (g_id g) l + remaining_of k g = granted_of k g + given_back k (g_id g) l) \<and>
     spawn_count (g_id g) l + unat (rm_runs (g_remaining g)) = unat (en_runs (g_envelope g)) \<and>
     open_run (g_id g) l = g_run g \<and> \<not> widens (g_capabilities g) ceiling \<and> clean_note (g_objective g)"

definition ids_fresh :: "run_log \<Rightarrow> u32 \<Rightarrow> bool" where
  "ids_fresh l n \<longleftrightarrow> distinct (map (\<lambda>e. sd_id (snd e)) (spawned l)) \<and>
     (\<forall>(g, s) \<in> set (spawned l). \<exists>q < n. sd_id s = run_id_of g q)"

definition clean_memory :: "memory \<Rightarrow> bool" where
  "clean_memory m \<longleftrightarrow> (\<forall>e \<in> set (memory_entries m). clean_note (me_label e) \<and> clean_note (me_value e))"

definition agent_books :: "capabilities \<Rightarrow> run_log \<Rightarrow> agent_checkpoint \<Rightarrow> bool" where
  "agent_books ceiling l cp \<longleftrightarrow>
     (\<forall>g \<in> set (ledger_goals (cp_ledger cp)). booked ceiling l g) \<and>
     (\<forall>e \<in> set l. unat (goal_id_get (request_goal (fst e))) < allocated (cp_ledger cp)) \<and>
     ids_fresh l (cp_spawn_seq cp) \<and> clean_memory (cp_memory cp)"

lemma books_new: "agent_books ceiling [] checkpoint_new"
  using ledger_new_live memory_new_ok
  by (simp add: agent_books_def checkpoint_new_def ids_fresh_def clean_memory_def)

lemma booked_same:
  "booked ceiling l g \<Longrightarrow> g_id g' = g_id g \<Longrightarrow> g_remaining g' = g_remaining g \<Longrightarrow> g_envelope g' = g_envelope g \<Longrightarrow>
   g_run g' = g_run g \<Longrightarrow> g_capabilities g' = g_capabilities g \<Longrightarrow> g_objective g' = g_objective g \<Longrightarrow>
   booked ceiling l g'"
proof -
  assume a: "booked ceiling l g" "g_id g' = g_id g" "g_remaining g' = g_remaining g" "g_envelope g' = g_envelope g"
    "g_run g' = g_run g" "g_capabilities g' = g_capabilities g" "g_objective g' = g_objective g"
  have "remaining_of k g' = remaining_of k g \<and> granted_of k g' = granted_of k g" for k
    using a by (cases k) simp_all
  then show ?thesis using a by (simp add: booked_def)
qed

text \<open>One goal changes and one entry about it is logged.\<close>

lemma books_replaced:
  assumes bk: "agent_books ceiling l cp" and rep: "replaced i g' (cp_ledger cp) l'" and l2: "l2 = l \<or> (\<exists>q r. l2 = l @ [(q, r)] \<and> request_goal q = i)"
    and g: "g \<in> set (ledger_goals (cp_ledger cp))" "g_id g = i" and lok: "ledger_ok (cp_ledger cp)"
    and g': "booked ceiling l2 g'" "g_id g' = i" and ids: "ids_fresh l2 n"
  shows "agent_books ceiling l2 (cp\<lparr>cp_ledger := l', cp_spawn_seq := n\<rparr>)"
proof -
  have alloc: "allocated l' = allocated (cp_ledger cp)" using rep by (simp add: replaced_def allocated_def)
  have small: "unat (goal_id_get i) < allocated (cp_ledger cp)" using lok g by (auto simp: ledger_ok_def)
  have other: "booked ceiling l2 h" if "h \<in> set (ledger_goals (cp_ledger cp))" "g_id h \<noteq> i" for h
  proof -
    have "booked ceiling l h" using bk that by (simp add: agent_books_def)
    moreover have "spent_on k (g_id h) l2 = spent_on k (g_id h) l \<and> spawn_count (g_id h) l2 = spawn_count (g_id h) l \<and>
        given_back k (g_id h) l2 = given_back k (g_id h) l \<and> open_run (g_id h) l2 = open_run (g_id h) l" for k
      using l2
    proof
      assume "\<exists>q r. l2 = l @ [(q, r)] \<and> request_goal q = i"
      then obtain q r where "l2 = l @ [(q, r)]" "request_goal q = i" by blast
      then show ?thesis using that by (cases q) auto
    qed simp
    ultimately show ?thesis by (simp add: booked_def)
  qed
  show ?thesis
    unfolding agent_books_def using bk rep alloc small other g' ids l2
    by (auto simp: agent_books_def replaced_def)
qed

section \<open>The steps of a goal\<close>

lemma spawn_booked:
  assumes "booked ceiling l g" "goal_wire g" "goal_ok g" "g_status g = G_Active" "fundable (g_remaining g)"
    and run: "spawn_goal run (reservation_of g) g = (g', r)"
    and s: "sd_id s = run" "sd_model_turns s = gr_turns (reservation_of g)" "sd_mutations s = gr_mutations (reservation_of g)"
  shows "r = Inr () \<and> goal_step (\<lambda>_. 0) g g' \<and> goal_wire g' \<and> g_status g' = G_Running \<and> g_run g' = Some run \<and>
    booked ceiling (l @ [(Req_Spawn (g_id g) s, Rep_Parked)]) g'"
proof -
  note eff = spawn_goal_effect [OF assms(3-5) run]
  have g': "g' = g\<lparr>g_status := G_Running,
      g_remaining := \<lparr>rm_turns = rm_turns (g_remaining g) - ucast (gr_turns (reservation_of g)),
        rm_mutations = rm_mutations (g_remaining g) - ucast (gr_mutations (reservation_of g)),
        rm_runs = rm_runs (g_remaining g) - 1\<rparr>,
      g_reserved := reservation_of g, g_runs_started := saturating_add (g_runs_started g) 1, g_run := Some run\<rparr>"
    using run assms(4) by (auto simp: spawn_goal_def goal_transition_def goal_transitions_def Let_def)
  have "g_reserved g = grant_ZERO" using assms(3,4) unfolding goal_ok_def check_envelope_iff by simp
  then have "outstanding k g = remaining_of k g" "outstanding k g' = remaining_of k g' + grant_of k (reservation_of g)" for k
    by (cases k; simp add: outstanding_def grant_ZERO_def) (simp add: outstanding_def g')
  then have rem: "remaining_of k g' + grant_of k (reservation_of g) = remaining_of k g" for k using eff by metis
  have amount: "seed_amount k s = grant_of k (reservation_of g)" for k by (cases k) (simp_all add: s)
  have same: "granted_of k g' = granted_of k g" for k using eff by (cases k) simp_all
  have run: "unat (rm_runs (g_remaining g)) = Suc (unat (rm_runs (g_remaining g')))" using eff by simp
  have "booked ceiling (l @ [(Req_Spawn (g_id g) s, Rep_Parked)]) g'"
    unfolding booked_def
  proof (intro conjI allI)
    fix k
    have "spent_on k (g_id g) l + remaining_of k g = granted_of k g + given_back k (g_id g) l"
      using assms(1) by (simp add: booked_def)
    then show "spent_on k (g_id g') (l @ [(Req_Spawn (g_id g) s, Rep_Parked)]) + remaining_of k g' =
        granted_of k g' + given_back k (g_id g') (l @ [(Req_Spawn (g_id g) s, Rep_Parked)])"
      using rem [of k] eff by (simp add: amount same)
    have id: "g_id g' = g_id g" "g_envelope g' = g_envelope g" "g_capabilities g' = g_capabilities g"
      "g_objective g' = g_objective g" "g_run g' = Some run" by (simp_all add: g')
    have old: "spawn_count (g_id g) l + unat (rm_runs (g_remaining g)) = unat (en_runs (g_envelope g))"
      "\<not> widens (g_capabilities g) ceiling" "clean_note (g_objective g)" using assms(1) by (simp_all add: booked_def)
    show "spawn_count (g_id g') (l @ [(Req_Spawn (g_id g) s, Rep_Parked)]) + unat (rm_runs (g_remaining g')) =
        unat (en_runs (g_envelope g'))" using old(1) run by (simp add: id)
    show "open_run (g_id g') (l @ [(Req_Spawn (g_id g) s, Rep_Parked)]) = g_run g'" by (simp add: id s)
    show "\<not> widens (g_capabilities g') ceiling" "clean_note (g_objective g')" by (simp_all add: id old)
  qed
  moreover have "goal_wire g'" using assms(2) by (simp add: goal_wire_def g')
  ultimately show ?thesis using eff by (simp add: goal_step_def)
qed

lemma resume_booked:
  assumes "booked ceiling l g" "goal_wire g" "goal_ok g" "resume_goal g = (g', Inr u)" "g_run g = Some run"
  shows "goal_step (\<lambda>_. 0) g g' \<and> goal_wire g' \<and> g_status g = G_Waiting \<and> g_status g' = G_Running \<and> g_run g' = Some run \<and>
    booked ceiling (l @ [(Req_Resume (g_id g) run, Rep_Parked)]) g'"
proof -
  note eff = resume_goal_effect [OF assms(3,4)]
  then have w: "g_status g = G_Waiting" and g': "g' = g\<lparr>g_status := G_Running, g_waiting_since := beat_ZERO\<rparr>"
    by (auto split: if_splits)
  have "booked ceiling (l @ [(Req_Resume (g_id g) run, Rep_Parked)]) g"
    using assms(1,5) by (simp add: booked_def)
  then have "booked ceiling (l @ [(Req_Resume (g_id g) run, Rep_Parked)]) g'"
    by (rule booked_same) (simp_all add: g')
  then show ?thesis using eff w assms(2,5) by (auto simp: g' goal_wire_def)
qed

lemma park_booked:
  assumes "booked ceiling l g" "goal_wire g" "goal_ok g" "g_status g = G_Running" "park_goal b g = (g', r)"
  shows "r = Inr () \<and> goal_step (\<lambda>_. 0) g g' \<and> goal_wire g' \<and> g_status g' = G_Waiting \<and> g_run g' = g_run g \<and> booked ceiling l g'"
proof -
  note eff = park_goal_effect [OF assms(3,5)]
  then have g': "g' = g\<lparr>g_status := G_Waiting, g_waiting_since := b\<rparr>" and r: "r = Inr ()"
    using assms(4) by auto
  have "booked ceiling l g'" by (rule booked_same [OF assms(1)]) (simp_all add: g')
  then show ?thesis using eff assms(2,4) r by (auto simp: g' goal_wire_def)
qed

lemma settle_booked:
  assumes bk: "booked ceiling (l @ [(q, Rep_Parked)]) g" and wire: "goal_wire g" and ok: "goal_ok g"
    and q: "request_goal q = g_id g"
    and run: "settle_goal status \<lparr>gr_turns = t, gr_mutations = m\<rparr> b policy g = (g', Inr ev)"
  shows "(\<exists>c. goal_step c g g') \<and> goal_wire g' \<and> \<not> goal_status_is_busy (g_status g') \<and>
    booked ceiling (l @ [(q, Rep_Settled status t m n)]) g'"
proof -
  let ?v = "\<lparr>gr_turns = t, gr_mutations = m\<rparr>"
  note eff = settle_goal_effect [OF ok run]
  obtain due streak s where acc: "settle_accepted ?v g"
    and dec: "settle_decision (refunded ?v g) status b policy = Inr (ev, due, streak)"
    and s: "goal_transition G_Running ev = Inr s"
    and g': "g' = (refunded ?v g)\<lparr>g_status := s, g_next_due := due, g_failures := streak,
                 g_last_status := Some status, g_run := None\<rparr>"
    using conjunct2 [OF eff] by blast
  have idle: "\<not> goal_status_is_busy s" 
    using settle_edge [OF conjunct1 [OF settle_decision_cases [OF dec]]] s by (elim exE conjE) simp
  have rem: "remaining_of k g' = remaining_of k g + grant_of k ?v" and same: "granted_of k g' = granted_of k g" for k
    using refunded_books [OF ok acc, of k] by (cases k; simp add: g' refunded_def)+
  have runs: "rm_runs (g_remaining g') = rm_runs (g_remaining g)" "g_envelope g' = g_envelope g"
    "g_capabilities g' = g_capabilities g" "g_objective g' = g_objective g" "g_run g' = None" "g_id g' = g_id g" "g_cadence g' = g_cadence g"
    by (simp_all add: g' refunded_def)
  have "booked ceiling (l @ [(q, Rep_Settled status t m n)]) g'"
    unfolding booked_def
  proof (intro conjI allI)
    fix k
    have "spent_on k (g_id g) (l @ [(q, Rep_Parked)]) + remaining_of k g = granted_of k g + given_back k (g_id g) l"
      using bk q by (simp add: booked_def)
    then show "spent_on k (g_id g') (l @ [(q, Rep_Settled status t m n)]) + remaining_of k g' =
        granted_of k g' + given_back k (g_id g') (l @ [(q, Rep_Settled status t m n)])"
      using spent_on_report(1) [of k "g_id g" l q Rep_Parked "Rep_Settled status t m n"] q runs
      by (simp add: rem same report_refund_def)
    show "spawn_count (g_id g') (l @ [(q, Rep_Settled status t m n)]) + unat (rm_runs (g_remaining g')) = unat (en_runs (g_envelope g'))"
      using bk spent_on_report(2) [of "g_id g" l q Rep_Parked "Rep_Settled status t m n"] runs
      by (simp add: booked_def)
    show "open_run (g_id g') (l @ [(q, Rep_Settled status t m n)]) = g_run g'" using q runs by simp
    show "\<not> widens (g_capabilities g') ceiling" "clean_note (g_objective g')" using bk runs by (simp_all add: booked_def)
  qed
  moreover have "goal_wire g'" using wire runs idle by (simp add: goal_wire_def) (simp add: g')
  ultimately show ?thesis using eff idle by (auto simp: g')
qed

section \<open>Commands\<close>

lemma note_clean_note: "note_clean n \<Longrightarrow> clean_note n"
  by (simp add: note_clean_def clean_note_def note_as_bytes_length list_all_iff list_ex_iff)

text \<open>The dispatcher hands over single-line notes, as \<open>Command::remember\<close> and the harvester make them.\<close>

definition command_clean :: "command \<Rightarrow> bool" where
  "command_clean c = (case c of Cmd_Remember d label val \<Rightarrow> clean_note label \<and> clean_note val | _ \<Rightarrow> True)"

lemma clean_memory_write:
  assumes "memory_ok m" "memory_write m e = Inr m'" "clean_memory m" "clean_note (me_label e)" "clean_note (me_value e)"
  shows "clean_memory m'"
  using memory_write_entries [OF assms(1,2)] assms(3-5) by (auto simp: clean_memory_def)

lemma clean_memory_forget: "memory_ok m \<Longrightarrow> clean_memory m \<Longrightarrow> clean_memory (fst (memory_forget m k))"
  using memory_forget_effect [of m k] by (auto simp: clean_memory_def)

lemma apply_command_books:
  assumes wf: "agent_wf None cp" and ok: "command_ok c" and clean: "command_clean c"
    and run: "apply_command seed b c cp = (cp', r)" and bk: "agent_books (sd_capabilities (as_template seed)) l cp"
  shows "agent_books (sd_capabilities (as_template seed)) l cp'"
proof (cases c)
  case (Cmd_AddGoal objective priority cadence envelope caps)
  let ?spec = "goal_spec_of objective priority cadence envelope caps"
  show ?thesis
  proof (cases "and_then (ledger_admit (cp_ledger cp) ?spec (sd_capabilities (as_template seed)) b)
      (ledger_insert (cp_ledger cp))")
    case (Inr l')
    then obtain g where adm: "ledger_admit (cp_ledger cp) ?spec (sd_capabilities (as_template seed)) b = Inr g"
      and ins: "ledger_insert (cp_ledger cp) g = Inr l'" by (auto simp: result_simps)
    have lok: "ledger_ok (cp_ledger cp)" using wf by (simp add: agent_wf_def)
    note a = ledger_admit_Inr [OF adm]
    have "goal_id_get (g_id g) \<noteq> 0" using a by (simp add: goal_ok_def)
    note l' = ledger_insert_Inr [OF lok ins this]
    have fresh: "\<forall>e \<in> set l. request_goal (fst e) \<noteq> g_id g" using bk l' by (auto simp: agent_books_def)
    have "g_reserved g = grant_ZERO" using a unfolding goal_ok_def check_envelope_iff by auto
    then have "remaining_of k g = granted_of k g" for k
      using a by (cases k) (auto simp: outstanding_def grant_ZERO_def elim!: allE [of _ k])
    moreover have "rm_runs (g_remaining g) = en_runs (g_envelope g)" "g_run g = None" "clean_note (g_objective g)"
      using adm by (auto simp: ledger_admit_def result_simps goal_spec_of_def dest!: masked_ingest.ing_clean
          intro: note_clean_note split: if_splits)
    ultimately have "booked (sd_capabilities (as_template seed)) l g"
      using fresh_goal [OF fresh] a by (simp add: booked_def goal_spec_of_def)
    moreover have "cp' = cp\<lparr>cp_ledger := l'\<rparr>" using run Inr Cmd_AddGoal by (simp add: apply_command_def)
    ultimately show ?thesis using bk l' by (auto simp: agent_books_def)
  qed (use run bk Cmd_AddGoal in \<open>simp add: apply_command_def\<close>)
next
  case (Cmd_Control i event)
  let ?l = "fst (ledger_control (cp_ledger cp) i event b)"
  have cp': "cp' = cp\<lparr>cp_ledger := ?l\<rparr>"
    using run Cmd_Control by (auto simp: apply_command_def case_prod_beta)
  show ?thesis
  proof (cases "ledger_get (cp_ledger cp) i")
    case None
    then show ?thesis using cp' bk by (simp add: ledger_control_def on_goal_unknown)
  next
    case (Some g)
    obtain g' r' where g': "control_goal event b g = (g', r')" by fastforce
    have lok: "ledger_ok (cp_ledger cp)" using wf by (simp add: agent_wf_def)
    note g = wf_goal [OF wf Some]
    note eff = control_goal_effect [OF _ g', OF g [THEN conjunct2, THEN conjunct2, THEN conjunct1]]
    have rep: "replaced i g' (cp_ledger cp) ?l"
      using on_goal_replaced [where f = "control_goal event b", OF lok Some g' conjunct1 [OF eff]]
      by (simp add: ledger_control_def)
    have "booked (sd_capabilities (as_template seed)) l g" using bk g by (simp add: agent_books_def)
    moreover have "g_remaining g' = g_remaining g"
      using g' by (auto simp: control_goal_def Let_def split: if_splits sum.splits)
    ultimately have "booked (sd_capabilities (as_template seed)) l g'"
      using step_keeps [OF conjunct1 [OF eff]] control_goal_idle [OF g'] booked_same by blast
    from books_replaced [OF bk rep _ _ _ lok this, of g "cp_spawn_seq cp"]
    show ?thesis using g step_keeps [OF conjunct1 [OF eff]] bk by (auto simp: cp' agent_books_def)
  qed
next
  case (Cmd_Remember d label val)
  then show ?thesis using run wf bk clean
    by (auto simp: apply_command_def command_clean_def agent_books_def agent_wf_def split: sum.splits
        elim!: clean_memory_write)
next
  case (Cmd_Forget d)
  then show ?thesis using run bk wf clean_memory_forget [of "cp_memory cp" "MK_Note d"]
    by (auto simp: apply_command_def case_prod_beta agent_books_def agent_wf_def)
qed

lemma apply_commands_books:
  "agent_wf None cp \<Longrightarrow> list_all command_ok cs \<Longrightarrow> list_all command_clean cs \<Longrightarrow>
   apply_commands seed b cs (cp, n) = (cp', n') \<Longrightarrow> agent_books (sd_capabilities (as_template seed)) l cp \<Longrightarrow>
   agent_books (sd_capabilities (as_template seed)) l cp'"
proof (induction cs arbitrary: cp n)
  case (Cons c cs)
  obtain cp1 r where c: "apply_command seed b c cp = (cp1, r)" by fastforce
  then have "agent_wf None cp1" "agent_books (sd_capabilities (as_template seed)) l cp1"
    using apply_command_wf apply_command_books Cons.prems by auto
  then show ?case using Cons c by (auto split: sum.splits)
qed simp

end
