(* ===== verification/Agent_Safety.thy ===== *)
theory Agent_Safety
  imports Agent_Log
begin

text \<open>
  What a supervisor asks of the world, whatever it is answered. The program logic of \<open>Flow\<close> carries
  two things through every beat: the state stays well formed, so it can always be checkpointed, and,
  as long as the notes the dispatcher handed over are single lines, the agent_books balance with the runs
  the history shows.
\<close>

section \<open>Flows of the supervisor\<close>

lemma holds_agent_try [simp]:
  "holds R Z Q (agent_try m) h \<longleftrightarrow> (case m of Inl e \<Rightarrow> Z h (A_Faulted e) | Inr x \<Rightarrow> Q h x)"
  by (simp add: agent_try_def split: sum.splits)

lemma holds_asked [simp]:
  "holds R Z Q (asked k i dec) h \<longleftrightarrow> R h k i \<and>
     (\<forall>p. case dec p of
        Inl e \<Rightarrow> Z (h @ [(k, i, Ans_Completed p)]) (A_Faulted (AE_Wire e))
      | Inr x \<Rightarrow> Q (h @ [(k, i, Ans_Completed p)]) (Some x)) \<and>
     (\<forall>p. Q (h @ [(k, i, Ans_Failed p)]) None)"
proof -
  have "(\<forall>a. P a) \<longleftrightarrow> (\<forall>p. P (Ans_Completed p)) \<and> (\<forall>p. P (Ans_Failed p))" for P by (metis answer.exhaust)
  moreover have "holds R Z Q (case dec p of Inl e \<Rightarrow> Stop (A_Faulted (AE_Wire e)) | Inr x \<Rightarrow> Ret (Some x)) h' \<longleftrightarrow>
      (case dec p of Inl e \<Rightarrow> Z h' (A_Faulted (AE_Wire e)) | Inr x \<Rightarrow> Q h' (Some x))" for p h'
    by (cases "dec p") simp_all
  ultimately show ?thesis by (simp add: asked_def)
qed

text \<open>What the dispatcher promises of its answers: the notes it hands over are single lines.\<close>

definition trusted_event :: "u16 \<times> bytes \<times> answer \<Rightarrow> bool" where
  "trusted_event e =
     (case e of
        (k, i, Ans_Completed p) \<Rightarrow>
          if k = sense_kind then
            (case sense_decode p of Inl e \<Rightarrow> True | Inr s \<Rightarrow> list_all command_clean (sense_commands s))
          else if k = harvest_kind then
            (case harvest_entry_decode p of Inl e \<Rightarrow> True | Inr e \<Rightarrow> clean_note (me_label e) \<and> clean_note (me_value e))
          else True
      | (k, i, Ans_Failed p) \<Rightarrow> True)"

definition trusted :: "history \<Rightarrow> bool" where
  "trusted h = list_all trusted_event h"

lemma trusted_simps [simp]: "trusted []" "trusted (h @ [e]) \<longleftrightarrow> trusted h \<and> trusted_event e"
  by (simp_all add: trusted_def)

section \<open>Run identifiers\<close>

lemma run_id_bit:
  "bit (run_id_get (run_id_of g q)) n \<longleftrightarrow>
     n < 64 \<and> (48 \<le> n \<and> bit (goal_id_get g) (n - 48) \<or> 16 \<le> n \<and> n < 48 \<and> bit q (n - 16))"
proof -
  have "n < 48" if "bit q (n - 16)" using bit_imp_le_length [OF that] by simp
  then show ?thesis
    by (simp add: run_id_of_def bit_or_iff bit_push_bit_iff bit_ucast_iff) linarith
qed

lemma goal_of_run_id: "goal_id_get g \<noteq> 0 \<Longrightarrow> goal_of (run_id_of g q) = Some g"
proof -
  have "ucast (drop_bit 48 (run_id_get (run_id_of g q))) = goal_id_get g"
    by (rule bit_word_eqI) (simp add: bit_ucast_iff bit_drop_bit_eq run_id_bit)
  moreover assume "goal_id_get g \<noteq> 0"
  ultimately show ?thesis by (simp add: goal_of_def goal_id_new_def)
qed

lemma run_id_seq: "run_id_of g q = run_id_of g' q' \<Longrightarrow> q = q'"
proof (rule bit_word_eqI)
  fix n assume eq: "run_id_of g q = run_id_of g' q'" and n: "n < LENGTH(32)"
  have "bit (run_id_get (run_id_of g q)) (n + 16) = bit (run_id_get (run_id_of g' q')) (n + 16)" using eq by simp
  then show "bit q n = bit q' n" using n by (simp add: run_id_bit)
qed

section \<open>Driving a run\<close>

text \<open>The state between activities: well formed with at most the goal \<open>x\<close> running, and agent_books that balance
  with the log \<open>l\<close> when the history is tracked (\<open>t\<close>) and trusted.\<close>

definition balanced :: "agent_seed \<Rightarrow> bool \<Rightarrow> goal_id option \<Rightarrow> run_log \<Rightarrow> history \<Rightarrow> agent_checkpoint \<Rightarrow> bool" where
  "balanced seed t x l h cp \<longleftrightarrow>
     agent_wf x cp \<and> (t \<and> trusted h \<longrightarrow> agent_books (sd_capabilities (as_template seed)) l cp)"

definition spawn_allowed :: "agent_seed \<Rightarrow> run_log \<Rightarrow> goal_id \<Rightarrow> run_seed \<Rightarrow> bool" where
  "spawn_allowed seed l g s \<longleftrightarrow>
     open_run g l = None \<and> goal_of (sd_id s) = Some g \<and> sd_id s \<notin> (\<lambda>e. sd_id (snd e)) ` set (spawned l) \<and>
     \<not> widens (sd_capabilities s) (sd_capabilities (as_template seed)) \<and>
     1 \<le> sd_model_turns s \<and> 1 \<le> sd_mutations s \<and>
     s = (as_template seed)\<lparr>sd_id := sd_id s, sd_model_turns := sd_model_turns s, sd_mutations := sd_mutations s,
           sd_capabilities := sd_capabilities s, sd_brief := sd_brief s, sd_parent := None\<rparr>"

definition drive_allowed :: "agent_seed \<Rightarrow> run_log \<Rightarrow> run_request \<Rightarrow> bool" where
  "drive_allowed seed l q \<longleftrightarrow>
     run_request_ok q \<and>
     (case q of Req_Spawn g s \<Rightarrow> spawn_allowed seed l g s | Req_Resume g r \<Rightarrow> open_run g l = Some r)"

definition agent_request :: "agent_seed \<Rightarrow> bool \<Rightarrow> history \<Rightarrow> u16 \<Rightarrow> bytes \<Rightarrow> bool" where
  "agent_request seed t h k i \<longleftrightarrow>
     (k = run_kind \<and> t \<and> trusted h \<longrightarrow>
        (\<exists>q. run_request_decode i = Inr q \<and> drive_allowed seed (run_log h) q))"

lemma agent_request_other [simp]: "k \<noteq> run_kind \<Longrightarrow> agent_request seed t h k i"
  by (simp add: agent_request_def)

lemma agent_kinds_differ [simp]:
  "sense_kind \<noteq> run_kind" "harvest_kind \<noteq> run_kind" "store_kind \<noteq> run_kind" "load_kind \<noteq> run_kind"
  "timer_boundary \<noteq> run_kind" "run_kind \<noteq> sense_kind" "run_kind \<noteq> harvest_kind" "harvest_kind \<noteq> sense_kind"
  "store_kind \<noteq> sense_kind" "store_kind \<noteq> harvest_kind" "load_kind \<noteq> sense_kind" "load_kind \<noteq> harvest_kind"
  "timer_boundary \<noteq> sense_kind" "timer_boundary \<noteq> harvest_kind" "sense_kind \<noteq> harvest_kind"
  by (simp_all add: agent_kind_defs timer_boundary_def)

lemma trusted_other [simp]:
  "k \<noteq> sense_kind \<Longrightarrow> k \<noteq> harvest_kind \<Longrightarrow> trusted_event (k, i, a)" "trusted_event (k, i, Ans_Failed p)"
  by (simp_all add: trusted_event_def split: answer.split)

lemma balanced_quiet:
  "balanced seed t x l h cp \<Longrightarrow> balanced seed t x l (h @ [e]) cp"
  by (simp add: balanced_def)

lemma harvest_holds:
  assumes Z: "\<And>h e. Z h (A_Faulted e)" and g: "goal_id_wire g"
  shows "balanced seed t None (run_log h) h cp \<Longrightarrow>
    holds (agent_request seed t) Z (\<lambda>h' (cp', n). balanced seed t None (run_log h') h' cp')
      (harvest_loop g run b idx (cp, n)) h"
proof (induction idx arbitrary: cp n h)
  case (Cons i idx)
  let ?h = "\<lambda>a. h @ [(harvest_kind, harvest_query run i, a)]"
  have failed: "holds (agent_request seed t) Z (\<lambda>h' (cp', n). balanced seed t None (run_log h') h' cp')
      (harvest_loop g run b idx (cp, n)) (?h (Ans_Failed p))" for p
    by (rule Cons.IH) (use Cons.prems in \<open>simp add: balanced_quiet\<close>)
  have entry: "holds (agent_request seed t) Z (\<lambda>h' (cp', n). balanced seed t None (run_log h') h' cp')
      (harvest_loop g run b idx (cp\<lparr>cp_memory := m\<rparr>, k)) (?h (Ans_Completed p))"
    if e: "harvest_entry_decode p = Inr e"
      and m: "memory_write (cp_memory cp) (e\<lparr>me_provenance := \<lparr>pv_goal = Some g, pv_run = Some run, pv_beat = b\<rparr>\<rparr>) = Inr m"
    for p e m k
  proof (rule Cons.IH)
    have wf: "agent_wf None cp" and mok: "memory_ok (cp_memory cp)" using Cons.prems by (simp_all add: balanced_def agent_wf_def)
    have "entry_wire e" using e by (simp add: harvest_entry_exact)
    then have "entry_wire (e\<lparr>me_provenance := \<lparr>pv_goal = Some g, pv_run = Some run, pv_beat = b\<rparr>\<rparr>)"
      using g by (simp add: entry_wire_def provenance_wire_def)
    note wf' = memory_write_wf [OF wf m this]
    have "clean_memory m"
      if "trusted_event (harvest_kind, harvest_query run i, Ans_Completed p)" "clean_memory (cp_memory cp)"
      using clean_memory_write [OF mok m that(2)] that(1) e by (simp add: trusted_event_def)
    then show "balanced seed t None (run_log (?h (Ans_Completed p))) (?h (Ans_Completed p)) (cp\<lparr>cp_memory := m\<rparr>)"
      using Cons.prems wf' by (simp add: balanced_def agent_books_def)
  qed
  show ?case using failed entry by (auto simp: Z result_simps split: sum.splits)
qed simp

text \<open>The request of a drive is in the log with its report, once the answer is there.\<close>

lemma run_event_request: "run_request_ok q \<Longrightarrow> run_event (run_kind, run_request_enc q, a) = [(q, report_of a)]"
proof -
  assume "run_request_ok q"
  then have "run_request_decode (run_request_enc q) = Inr q" by (simp add: agent_payload_exact)
  then show ?thesis by (simp add: run_event_def)
qed

lemma on_goal_running:
  assumes wf: "agent_wf x cp" and get: "ledger_get (cp_ledger cp) i = Some g" and f: "f g = (g', r)"
    and step: "goal_step c g g'"
  shows "on_goal (cp_ledger cp) i f = (fst (on_goal (cp_ledger cp) i f), r) \<and>
    replaced i g' (cp_ledger cp) (fst (on_goal (cp_ledger cp) i f))"
  using on_goal_replaced [where f = f, OF _ get f step] wf by (simp add: agent_wf_def prod_eq_iff)

lemma same_ids: "request_spawn q = request_spawn q' \<Longrightarrow> ids_fresh (l @ [(q, r)]) n \<longleftrightarrow> ids_fresh (l @ [(q', r')]) n"
  by (simp add: ids_fresh_def)

text \<open>Parking and settling bring the running goal back, with the report in the log.\<close>

lemma park_balanced:
  assumes wf: "agent_wf (Some (request_goal q)) cp" and get: "ledger_get (cp_ledger cp) (request_goal q) = Some g"
    and run: "g_status g = G_Running" and park: "ledger_park (cp_ledger cp) (request_goal q) b = (l', m)"
  shows "m = Inr () \<and> agent_wf None (cp\<lparr>cp_ledger := l'\<rparr>) \<and>
    (agent_books ceiling (l @ [(q, Rep_Parked)]) cp \<longrightarrow> agent_books ceiling (l @ [(q, Rep_Parked)]) (cp\<lparr>cp_ledger := l'\<rparr>))"
proof -
  note g = wf_goal [OF wf get]
  obtain g' r where f: "park_goal b g = (g', r)" by fastforce
  have eff: "r = Inr () \<and> goal_step (\<lambda>_. 0) g g' \<and> g' = g\<lparr>g_status := G_Waiting, g_waiting_since := b\<rparr>"
    using park_goal_effect [OF _ f] g run by auto
  note rep = on_goal_running [where f = "park_goal b", OF wf get f conjunct1 [OF conjunct2 [OF eff]]]
  have l': "l' = fst (on_goal (cp_ledger cp) (request_goal q) (park_goal b))" "m = r"
    using rep eff park by (auto simp: ledger_park_def)
  have rep': "replaced (request_goal q) g' (cp_ledger cp) l'" using rep eff l' by simp
  have "goal_wire g'" using g run eff by (auto simp: goal_wire_def)
  then have "agent_wf None (cp\<lparr>cp_ledger := l'\<rparr>)"
    using replaced_wf [OF wf _ rep'] eff g by simp
  moreover have "agent_books ceiling (l @ [(q, Rep_Parked)]) (cp\<lparr>cp_ledger := l'\<rparr>)" if bk: "agent_books ceiling (l @ [(q, Rep_Parked)]) cp"
  proof -
    have "booked ceiling (l @ [(q, Rep_Parked)]) g" using bk g by (simp add: agent_books_def)
    then have "booked ceiling (l @ [(q, Rep_Parked)]) g'" using park_booked [OF _ _ _ run f] g by simp
    from books_replaced [OF bk rep' _ _ _ _ this, of g "cp_spawn_seq cp"]
    show ?thesis using g eff bk wf by (simp add: agent_books_def agent_wf_def)
  qed
  ultimately show ?thesis using eff l' by simp
qed

lemma settle_balanced:
  assumes wf: "agent_wf (Some (request_goal q)) cp" and get: "ledger_get (cp_ledger cp) (request_goal q) = Some g"
    and settle: "ledger_settle (cp_ledger cp) (request_goal q) status \<lparr>gr_turns = t, gr_mutations = m\<rparr> b policy = (l', Inr ev)"
  shows "agent_wf None (cp\<lparr>cp_ledger := l'\<rparr>) \<and>
    (agent_books ceiling (l @ [(q, Rep_Parked)]) cp \<longrightarrow>
       agent_books ceiling (l @ [(q, Rep_Settled status t m n)]) (cp\<lparr>cp_ledger := l'\<rparr>))"
proof -
  let ?f = "settle_goal status \<lparr>gr_turns = t, gr_mutations = m\<rparr> b policy"
  note g = wf_goal [OF wf get]
  obtain g' r where f: "?f g = (g', r)" by fastforce
  note eff = settle_goal_effect [OF _ f]
  have step: "goal_step (settle_consumed \<lparr>gr_turns = t, gr_mutations = m\<rparr> g) g g'" using eff g by blast
  note rep = on_goal_running [where f = ?f, OF wf get f step]
  have l': "l' = fst (on_goal (cp_ledger cp) (request_goal q) ?f)" "r = Inr ev"
    using rep settle by (auto simp: ledger_settle_def)
  have rep': "replaced (request_goal q) g' (cp_ledger cp) l'" using rep l' by simp
  have wire: "goal_wire g'" and idle: "\<not> goal_status_is_busy (g_status g')"
  proof -
    obtain due streak s where dec: "settle_decision (refunded \<lparr>gr_turns = t, gr_mutations = m\<rparr> g) status b policy = Inr (ev, due, streak)"
      and s: "goal_transition G_Running ev = Inr s"
      and g': "g' = (refunded \<lparr>gr_turns = t, gr_mutations = m\<rparr> g)\<lparr>g_status := s, g_next_due := due, g_failures := streak,
                 g_last_status := Some status, g_run := None\<rparr>"
      using eff g l'(2) by blast
    show "\<not> goal_status_is_busy (g_status g')"
      using settle_edge [OF conjunct1 [OF settle_decision_cases [OF dec]]] s by (elim exE conjE) (simp add: g')
    then show "goal_wire g'" using g by (auto simp: goal_wire_def g' refunded_def)
  qed
  have id: "g_id g' = request_goal q" using step_keeps [OF step] g by simp
  have "agent_wf None (cp\<lparr>cp_ledger := l'\<rparr>)"
    using replaced_wf [OF wf _ rep' wire] id idle by (cases "g_status g' = G_Running") auto
  moreover have "agent_books ceiling (l @ [(q, Rep_Settled status t m n)]) (cp\<lparr>cp_ledger := l'\<rparr>)"
    if bk: "agent_books ceiling (l @ [(q, Rep_Parked)]) cp"
  proof -
    have lok: "ledger_ok (cp_ledger cp)" using wf by (simp add: agent_wf_def)
    have "booked ceiling (l @ [(q, Rep_Parked)]) g" using bk g by (simp add: agent_books_def)
    then have b': "booked ceiling (l @ [(q, Rep_Settled status t m n)]) g'"
      using settle_booked [OF _ _ _ _ f [unfolded l'(2)]] g by simp
    have "ids_fresh (l @ [(q, Rep_Parked)]) (cp_spawn_seq cp)" using bk by (simp add: agent_books_def)
    then have ids: "ids_fresh (l @ [(q, Rep_Settled status t m n)]) (cp_spawn_seq cp)"
      by (rule iffD1 [OF same_ids [OF refl]])
    have "booked ceiling (l @ [(q, Rep_Settled status t m n)]) h"
      if h: "h \<in> set (ledger_goals (cp_ledger cp))" "g_id h \<noteq> request_goal q" for h
    proof -
      have "booked ceiling (l @ [(q, Rep_Parked)]) h" using bk h by (simp add: agent_books_def)
      then show ?thesis using h(2) not_sym [OF h(2)] by (cases q) (simp_all add: booked_def)
    qed
    moreover have "allocated l' = allocated (cp_ledger cp)" using rep' by (simp add: replaced_def allocated_def)
    ultimately show ?thesis
      unfolding agent_books_def using bk rep' b' ids by (auto simp: agent_books_def replaced_def)
  qed
  ultimately show ?thesis by simp
qed

lemma encoded_request:
  assumes "run_request_ok q" "run_request_encode q (replicate n 0) = Inr (out, len)" "slice out 0 len = Some inp"
  shows "inp = run_request_enc q"
proof -
  have "run_request_encode q (replicate n 0) = Wire.written (run_request_enc q) (replicate n 0)"
    using assms(1) by (intro emits_run_request) (auto simp: run_request_ok_def split: run_request.splits)
  then show ?thesis using assms(2,3) by (auto simp: Wire.written_def slice_def split: if_splits)
qed

text \<open>What the supervisor does with a report.\<close>

definition fold_report ::
  "run_request \<Rightarrow> beat \<Rightarrow> schedule_policy \<Rightarrow> agent_checkpoint \<Rightarrow> pulse \<Rightarrow> run_report \<Rightarrow> (agent_checkpoint \<times> pulse) agent_flow" where
  "fold_report q b policy cp p rep =
     (case rep of
        Rep_Parked \<Rightarrow>
          (case ledger_park (cp_ledger cp) (request_goal q) b of
             (l, m) \<Rightarrow>
               flow_bind (agent_try (map_err AE_Core m)) (\<lambda>_.
               Ret (cp\<lparr>cp_ledger := l\<rparr>, p\<lparr>pu_parked := True\<rparr>)))
      | Rep_Settled status turns mutations harvest \<Rightarrow>
          (case ledger_settle (cp_ledger cp) (request_goal q) status \<lparr>gr_turns = turns, gr_mutations = mutations\<rparr> b policy of
             (l, m) \<Rightarrow>
               flow_bind (agent_try (map_err AE_Core m)) (\<lambda>event.
               flow_bind (harvest_loop (request_goal q) (request_run q) b (harvest_indexes harvest) (cp\<lparr>cp_ledger := l\<rparr>, 0))
                 (\<lambda>(cp', count).
               Ret (cp', p\<lparr>pu_settled := Some \<lparr>sl_goal = request_goal q, sl_run = request_run q, sl_status = status,
                                              sl_event = event, sl_harvested = count\<rparr>\<rparr>)))))"

lemma drive_run_fold:
  "drive_run q b policy (cp, p) =
     flow_bind (agent_try (map_err AE_Wire (run_request_encode q (replicate max_run_request_bytes 0)))) (\<lambda>(out, n).
     flow_bind (agent_try (ok_or (AE_Wire W_BufferTooSmall) (slice out 0 n))) (\<lambda>inp.
     flow_bind (asked run_kind inp run_report_decode) (\<lambda>x.
     fold_report q b policy cp p (case x of Some r \<Rightarrow> r | None \<Rightarrow> storage_fault_report))))"
  by (simp add: drive_run_def fold_report_def Let_def)

definition beat_kept :: "agent_seed \<Rightarrow> bool \<Rightarrow> history \<Rightarrow> agent_checkpoint \<times> pulse \<Rightarrow> bool" where
  "beat_kept seed t h x = balanced seed t None (run_log h) h (fst x)"

lemma fold_report_holds:
  assumes Z: "\<And>h e. Z h (A_Faulted e)" and wf: "agent_wf (Some (request_goal q)) cp"
    and get: "ledger_get (cp_ledger cp) (request_goal q) = Some g" and run: "g_status g = G_Running"
    and bk: "t \<and> trusted h \<longrightarrow>
      run_log h = l @ [(q, rep)] \<and> agent_books (sd_capabilities (as_template seed)) (l @ [(q, Rep_Parked)]) cp"
  shows "holds (agent_request seed t) Z (beat_kept seed t) (fold_report q b policy cp p rep) h"
proof (cases rep)
  case Rep_Parked
  obtain l' m where park: "ledger_park (cp_ledger cp) (request_goal q) b = (l', m)" by fastforce
  note eff = park_balanced [OF wf get run park]
  have "balanced seed t None (run_log h) h (cp\<lparr>cp_ledger := l'\<rparr>)"
    using eff bk Rep_Parked by (auto simp: balanced_def)
  then show ?thesis using eff by (simp add: fold_report_def Rep_Parked park beat_kept_def)
next
  case (Rep_Settled status turns mutations n)
  obtain l' m where settle: "ledger_settle (cp_ledger cp) (request_goal q) status
      \<lparr>gr_turns = turns, gr_mutations = mutations\<rparr> b policy = (l', m)" by fastforce
  show ?thesis
  proof (cases m)
    case (Inr ev)
    note eff = settle_balanced [OF wf get settle [unfolded Inr]]
    have "balanced seed t None (run_log h) h (cp\<lparr>cp_ledger := l'\<rparr>)"
      using eff bk Rep_Settled by (auto simp: balanced_def)
    moreover have "goal_id_wire (request_goal q)" using wf_goal [OF wf get] by (auto simp: goal_wire_def)
    ultimately have "holds (agent_request seed t) Z (\<lambda>h' (cp', n). balanced seed t None (run_log h') h' cp')
        (harvest_loop (request_goal q) (request_run q) b (harvest_indexes n) (cp\<lparr>cp_ledger := l'\<rparr>, 0)) h"
      using harvest_holds [where Z = Z, OF Z] by blast
    then have "holds (agent_request seed t) Z
        (\<lambda>h' x. holds (agent_request seed t) Z (beat_kept seed t) (case x of (cp', c) \<Rightarrow>
          Ret (cp', p\<lparr>pu_settled := Some \<lparr>sl_goal = request_goal q, sl_run = request_run q, sl_status = status,
            sl_event = ev, sl_harvested = c\<rparr>\<rparr>)) h')
        (harvest_loop (request_goal q) (request_run q) b (harvest_indexes n) (cp\<lparr>cp_ledger := l'\<rparr>, 0)) h"
      by (rule holds_mono) (auto simp: beat_kept_def)
    then show ?thesis by (simp add: fold_report_def Rep_Settled settle Inr)
  qed (simp add: fold_report_def Rep_Settled settle Z)
qed

lemma drive_holds:
  assumes Z: "\<And>h e. Z h (A_Faulted e)" and wf: "agent_wf (Some (request_goal q)) cp"
    and get: "ledger_get (cp_ledger cp) (request_goal q) = Some g" and run: "g_status g = G_Running"
    and bk: "t \<and> trusted h \<longrightarrow> drive_allowed seed (run_log h) q \<and>
      agent_books (sd_capabilities (as_template seed)) (run_log h @ [(q, Rep_Parked)]) cp"
  shows "holds (agent_request seed t) Z (beat_kept seed t) (drive_run q b policy (cp, p)) h"
proof -
  have ans: "holds (agent_request seed t) Z (beat_kept seed t) (fold_report q b policy cp p rep) (h @ [(run_kind, inp, a)])"
    if "run_request_encode q (replicate max_run_request_bytes 0) = Inr (out, n)" "slice out 0 n = Some inp"
      "rep = report_of a" for out n inp a rep
  proof (rule fold_report_holds [where Z = Z, OF Z wf get run], intro impI)
    assume t: "t \<and> trusted (h @ [(run_kind, inp, a)])"
    then have ok: "run_request_ok q" using bk by (simp add: drive_allowed_def)
    then have "inp = run_request_enc q" using encoded_request that by blast
    then show "run_log (h @ [(run_kind, inp, a)]) = run_log h @ [(q, rep)] \<and>
        agent_books (sd_capabilities (as_template seed)) (run_log h @ [(q, Rep_Parked)]) cp"
      using run_event_request [OF ok] that bk t by simp
  qed
  have req: "agent_request seed t h run_kind inp"
    if "run_request_encode q (replicate max_run_request_bytes 0) = Inr (out, n)" "slice out 0 n = Some inp" for out n inp
    unfolding agent_request_def
  proof (intro impI)
    assume t: "run_kind = run_kind \<and> t \<and> trusted h"
    then have ok: "run_request_ok q" using bk by (simp add: drive_allowed_def)
    then have "inp = run_request_enc q" using encoded_request that by blast
    then show "\<exists>q. run_request_decode inp = Inr q \<and> drive_allowed seed (run_log h) q"
      using ok bk t by (intro exI [of _ q]) (simp add: agent_payload_exact)
  qed
  show ?thesis
    unfolding drive_run_fold
    by (auto simp: Z result_simps split: sum.splits intro!: ans req) (simp_all add: report_of_def)
qed

section \<open>Serving a goal\<close>

lemma recall_from: "memory_ok m \<Longrightarrow> set (recall m g) \<subseteq> set (memory_entries m)"
  unfolding recall_newest by (auto simp: newest_first_def dest!: in_set_takeD)

lemma brief_composed:
  assumes "agent_wf x cp" "clean_memory (cp_memory cp)" "clean_note objective"
  shows "brief_ok (compose objective (recall (cp_memory cp) g))"
  using compose_accepted [OF assms(3)] recall_from [of "cp_memory cp" g] assms(1,2)
  by (auto simp: agent_wf_def clean_memory_def list_all_iff)

lemma reservation_funds:
  assumes "goal_wire g" "fundable (g_remaining g)"
  shows "1 \<le> gr_turns (reservation_of g) \<and> 1 \<le> gr_mutations (reservation_of g)"
proof -
  have "en_per_run_turns (g_envelope g) \<noteq> 0 \<and> en_per_run_mutations (g_envelope g) \<noteq> 0"
    using assms(1) by (auto simp: goal_wire_def envelope_wire_def envelope_validate_def split: if_splits)
  moreover have one: "1 \<le> w \<longleftrightarrow> 0 < unat w" for w :: "'a::len word" by (metis Suc_leI unat_0_iff bot_nat_0.not_eq_extremum word_le_nat_alt unat_1 One_nat_def not_one_le_zero unsigned_1 linorder_not_le unat_gt_0 word_gt_0 word_less_1)
  ultimately show ?thesis
    using assms(2) by (simp add: fundable_def reservation_of_def unat_clamp_u16 one unat_gt_0)
qed

lemma fresh_id:
  assumes "ids_fresh l n" "checked_add n 1 = Some n'"
  shows "run_id_of g n \<notin> (\<lambda>e. sd_id (snd e)) ` set (spawned l)"
    "sd_id s = run_id_of g n \<Longrightarrow> ids_fresh (l @ [(Req_Spawn g s, r)]) n'"
proof -
  show fresh: "run_id_of g n \<notin> (\<lambda>e. sd_id (snd e)) ` set (spawned l)"
    using assms(1) run_id_seq [of g n] by (fastforce simp: ids_fresh_def)
  have less: "n < n'" using checked_add_one [OF assms(2)] by simp
  then have "q < n \<Longrightarrow> q < n'" for q using less_trans by blast
  then show "ids_fresh (l @ [(Req_Spawn g s, r)]) n'" if "sd_id s = run_id_of g n"
    using assms(1) fresh that less by (fastforce simp: ids_fresh_def)
qed

lemma spawn_run_holds:
  assumes Z: "\<And>h e. Z h (A_Faulted e)" and bal: "balanced seed t None (run_log h) h cp"
  shows "holds (agent_request seed t) Z (beat_kept seed t) (spawn_run seed b i (cp, p)) h"
proof -
  have wf: "agent_wf None cp" using bal by (simp add: balanced_def)
  then have lok: "ledger_ok (cp_ledger cp)" by (simp add: agent_wf_def)
  let ?c = "sd_capabilities (as_template seed)" and ?n = "cp_spawn_seq cp"
  have drive: "holds (agent_request seed t) Z (beat_kept seed t)
      (drive_run (Req_Spawn i s) b (as_policy seed) (cp\<lparr>cp_ledger := l', cp_spawn_seq := n'\<rparr>, p')) h"
    if res: "ledger_reservation (cp_ledger cp) i = Inr res" and sd: "spawn_seed seed cp i res (run_id_of i ?n) = Inr s"
      and spawn: "ledger_spawn (cp_ledger cp) i (run_id_of i ?n) res = (l', Inr u)" and seq: "checked_add ?n 1 = Some n'"
    for res s l' u n' p'
  proof -
    obtain g where g: "g \<in> set (ledger_goals (cp_ledger cp))" "g_id g = i" "g_status g = G_Active" "fundable (g_remaining g)"
      and r: "res = reservation_of g" using res ledger_reservation_Inr [OF lok] by blast
    have get: "ledger_get (cp_ledger cp) i = Some g" using g ledger_get_iff [OF lok] by blast
    note gw = wf_goal [OF wf get]
    obtain g' r' where f: "spawn_goal (run_id_of i ?n) res g = (g', r')" by fastforce
    have s: "s = (as_template seed)\<lparr>sd_id := run_id_of i ?n, sd_model_turns := gr_turns res, sd_mutations := gr_mutations res,
        sd_capabilities := g_capabilities g, sd_brief := Some (compose (g_objective g) (recall (cp_memory cp) i)), sd_parent := None\<rparr>"
      and valid: "seed_validate s = Inr ()"
      using sd get by (auto simp: spawn_seed_def result_simps Let_def)
    note eff = spawn_goal_effect [OF _ g(3,4) f [unfolded r]]
    have step: "goal_step (\<lambda>_. 0) g g'" using eff gw by (simp add: goal_step_def)
    note rep = on_goal_running [where f = "spawn_goal (run_id_of i ?n) res", OF wf get f step]
    have l': "l' = fst (on_goal (cp_ledger cp) i (spawn_goal (run_id_of i ?n) res))"
      using spawn res by (simp add: ledger_spawn_def prod_eq_iff)
    have rep': "replaced i g' (cp_ledger cp) l'" using rep l' by simp
    have g': "g_id g' = i" "g_status g' = G_Running" "g_run g' = Some (run_id_of i ?n)" using eff gw by simp_all
    have cad: "g_cadence g' = g_cadence g"
      using f by (auto simp: spawn_goal_def Let_def split: sum.splits)
    have wire: "goal_wire g'"
      using gw step_keeps [OF step] g' cad goal_wire_kept [of g g'] by simp
    have wf1: "agent_wf (Some i) (cp\<lparr>cp_ledger := l'\<rparr>)"
      using replaced_wf [OF wf _ rep' wire g'(1)] g'(2) by simp
    let ?cp = "cp\<lparr>cp_ledger := l', cp_spawn_seq := n'\<rparr>"
    have wf': "agent_wf (Some (request_goal (Req_Spawn i s))) ?cp" using wf1 by (simp add: agent_wf_def items_wire_def)
    have get': "ledger_get (cp_ledger ?cp) (request_goal (Req_Spawn i s)) = Some g'"
    proof -
      have "ledger_ok l'" "g' \<in> set (ledger_goals l')" using rep' g by (auto simp: replaced_def)
      then show ?thesis using ledger_get_iff [of l' i g'] g'(1) by simp
    qed
    show ?thesis
    proof (rule drive_holds [where Z = Z, OF Z wf' get' g'(2)], intro impI)
      assume tr: "t \<and> trusted h"
      then have bk: "agent_books ?c (run_log h) cp" using bal by (simp add: balanced_def)
      then have bg: "booked ?c (run_log h) g" and ids: "ids_fresh (run_log h) ?n" and cm: "clean_memory (cp_memory cp)"
        using g by (simp_all add: agent_books_def)
      have idle: "g_run g = None" using idle_goal_no_run [of g] gw g(3) by simp
      have funds: "1 \<le> gr_turns res \<and> 1 \<le> gr_mutations res" using reservation_funds [of g] gw g(4) r by simp
      have ok: "run_request_ok (Req_Spawn i s)"
        using valid brief_composed [OF wf cm, of "g_objective g" i] bg gw
        by (auto simp: run_request_ok_def s goal_wire_def booked_def)
      have "spawn_allowed seed (run_log h) i s"
        using bg idle g(2) fresh_id(1) [OF ids seq, of i] funds goal_of_run_id [of i] gw
        by (auto simp: spawn_allowed_def s booked_def goal_wire_def goal_id_wire_def)
      then have "drive_allowed seed (run_log h) (Req_Spawn i s)" using ok by (simp add: drive_allowed_def)
      moreover have "booked ?c (run_log h @ [(Req_Spawn i s, Rep_Parked)]) g'"
        using spawn_booked [OF bg _ _ g(3,4) f [unfolded r], of s] gw by (simp add: s r)
      moreover have "ids_fresh (run_log h @ [(Req_Spawn i s, Rep_Parked)]) n'"
        by (rule fresh_id(2) [OF ids seq]) (simp add: s)
      ultimately show "drive_allowed seed (run_log h) (Req_Spawn i s) \<and> agent_books ?c (run_log h @ [(Req_Spawn i s, Rep_Parked)]) ?cp"
        using books_replaced [OF bk rep' _ g(1,2) lok, of "run_log h @ [(Req_Spawn i s, Rep_Parked)]" n'] g'(1) by simp
    qed
  qed
  show ?thesis
    unfolding spawn_run_def Let_def
    by (auto simp: Z result_simps split: sum.splits prod.splits intro!: drive)
qed

lemma resume_run_holds:
  assumes Z: "\<And>h e. Z h (A_Faulted e)" and bal: "balanced seed t None (run_log h) h cp"
  shows "holds (agent_request seed t) Z (beat_kept seed t) (resume_run seed b i (cp, p)) h"
proof -
  have wf: "agent_wf None cp" using bal by (simp add: balanced_def)
  then have lok: "ledger_ok (cp_ledger cp)" by (simp add: agent_wf_def)
  let ?c = "sd_capabilities (as_template seed)"
  have drive: "holds (agent_request seed t) Z (beat_kept seed t)
      (drive_run (Req_Resume i run) b (as_policy seed) (cp\<lparr>cp_ledger := l'\<rparr>, p')) h"
    if run: "Option.bind (ledger_get (cp_ledger cp) i) g_run = Some run" and res: "ledger_resume (cp_ledger cp) i = (l', Inr u)"
    for run l' u p'
  proof -
    obtain g where get: "ledger_get (cp_ledger cp) i = Some g" and gr: "g_run g = Some run"
      using run by (auto simp: bind_eq_Some_conv)
    note gw = wf_goal [OF wf get]
    obtain g' r' where f: "resume_goal g = (g', r')" by fastforce
    note eff = resume_goal_effect [OF _ f]
    have step: "goal_step (\<lambda>_. 0) g g'" using eff gw by blast
    note rep = on_goal_running [where f = resume_goal, OF wf get f step]
    have l': "l' = fst (on_goal (cp_ledger cp) i resume_goal)" and r': "r' = Inr u"
      using res rep by (auto simp: ledger_resume_def)
    have rep': "replaced i g' (cp_ledger cp) l'" using rep l' by simp
    have g': "g' = g\<lparr>g_status := G_Running, g_waiting_since := beat_ZERO\<rparr>"
      using eff gw r' by (auto split: if_splits)
    have wire: "goal_wire g'" using gw gr by (auto simp: g' goal_wire_def)
    have id: "g_id g' = i" "g_status g' = G_Running" using gw by (simp_all add: g')
    have wf': "agent_wf (Some (request_goal (Req_Resume i run))) (cp\<lparr>cp_ledger := l'\<rparr>)"
      using replaced_wf [OF wf _ rep' wire id(1)] id(2) by simp
    have get': "ledger_get (cp_ledger (cp\<lparr>cp_ledger := l'\<rparr>)) (request_goal (Req_Resume i run)) = Some g'"
    proof -
      have "ledger_ok l'" "g' \<in> set (ledger_goals l')" using rep' gw by (auto simp: replaced_def)
      then show ?thesis using ledger_get_iff [of l' i g'] id(1) by simp
    qed
    show ?thesis
    proof (rule drive_holds [where Z = Z, OF Z wf' get' id(2)], intro impI)
      assume tr: "t \<and> trusted h"
      then have bk: "agent_books ?c (run_log h) cp" using bal by (simp add: balanced_def)
      then have bg: "booked ?c (run_log h) g" and ids: "ids_fresh (run_log h) (cp_spawn_seq cp)"
        using gw by (simp_all add: agent_books_def)
      have "run_request_ok (Req_Resume i run)" using gw by (auto simp: run_request_ok_def goal_wire_def)
      then have "drive_allowed seed (run_log h) (Req_Resume i run)"
        using bg gw gr by (simp add: drive_allowed_def booked_def)
      moreover have "booked ?c (run_log h @ [(Req_Resume i run, Rep_Parked)]) g'"
        using resume_booked [OF bg _ _ f [unfolded r'] gr] gw by simp
      moreover have "ids_fresh (run_log h @ [(Req_Resume i run, Rep_Parked)]) (cp_spawn_seq cp)"
        using ids by (simp add: ids_fresh_def)
      ultimately show "drive_allowed seed (run_log h) (Req_Resume i run) \<and>
          agent_books ?c (run_log h @ [(Req_Resume i run, Rep_Parked)]) (cp\<lparr>cp_ledger := l'\<rparr>)"
        using books_replaced [OF bk rep' _ _ _ lok, of "run_log h @ [(Req_Resume i run, Rep_Parked)]" g "cp_spawn_seq cp"]
          gw id(1) by (simp add: agent_books_def)
    qed
  qed
  show ?thesis
    unfolding resume_run_def Let_def
    by (auto simp: Z result_simps split: sum.splits prod.splits intro!: drive)
qed

end
