(* ===== verification/Agent_Continue.thy ===== *)
theory Agent_Continue
  imports Agent_Safety
begin

text \<open>
  Beats, checkpoints and segments: every beat keeps the state well formed and the books balanced, a
  supervisor continues as new only after each item of its checkpoint was stored, and the next segment
  loads those items back into the state the last one left.
\<close>

section \<open>The start of a continued segment\<close>

definition start_enc :: "u64 \<Rightarrow> header \<Rightarrow> bytes" where
  "start_enc d h = 1 # to_le_bytes d @ checkpoint_version # header_enc h"

lemma header_encode_enc:
  "header_wire h \<Longrightarrow> header_encode h out =
     (if 37 \<le> length out then Inr ((checkpoint_version # header_enc h) @ drop 37 out, 37) else Inl E_SnapshotBufferTooSmall)"
proof -
  assume w: "header_wire h"
  have "header_put s h = put_bytes s (u8_enc checkpoint_version @ header_enc h)" for s
    by (simp add: header_put_def u8.put_enc put_chain header_c.put_enc [OF w])
  then show ?thesis
    by (simp add: header_encode_def put_result Checkpoint.written_def length_header_enc u8_enc_def)
qed

lemma header_decode_enc: "header_wire h \<Longrightarrow> header_decode (checkpoint_version # header_enc h) = Inr h"
proof -
  assume w: "header_wire h"
  let ?r = "\<lparr>rd_bytes = checkpoint_version # header_enc h, rd_pos = 1, rd_end = length (checkpoint_version # header_enc h)\<rparr>"
  have "reads ?r (header_enc h)" by (simp add: reads_def slice_def)
  then have "header_take ?r = Inr (h, skip ?r (header_enc h))" using header_c.get_enc [OF w] by blast
  moreover have "nth_of (checkpoint_version # header_enc h) 0 = Some checkpoint_version" by (simp add: nth_of_def)
  ultimately show ?thesis unfolding header_decode_def by (simp add: skip_def)
qed

lemma start_encoded:
  assumes "header_wire h" "start_encode \<lparr>st_seed_digest = d, st_header = Some h\<rparr> (replicate max_start_bytes 0) = Inr (out, len)"
    "slice out 0 len = Some p"
  shows "p = start_enc d h"
  using assms by (auto simp: start_encode_def max_start_bytes_def header_bytes_def header_encode_enc start_enc_def
      slice_def length_header_enc result_simps split: if_splits)

lemma start_decode_enc:
  "header_wire h \<Longrightarrow> start_decode (start_enc d h) = Inr \<lparr>st_seed_digest = d, st_header = Some h\<rparr>"
proof -
  assume w: "header_wire h"
  have "nth_of (start_enc d h) 0 = Some 1" "slice (start_enc d h) 1 9 = Some (to_le_bytes d)"
    "slice (start_enc d h) 9 (length (start_enc d h)) = Some (checkpoint_version # header_enc h)"
    by (simp_all add: start_enc_def nth_of_def slice_def)
  then show ?thesis by (simp add: start_decode_def header_decode_enc [OF w] Let_def)
qed

section \<open>Beats\<close>

lemma timer_holds [simp]:
  "holds R Z Q (timer_wait s) h \<longleftrightarrow>
     R h timer_boundary (case s of After_Boot t \<Rightarrow> 0 # to_le_bytes t | At_Persistent_Time t \<Rightarrow> 1 # to_le_bytes t) \<and>
     (\<forall>a. Q (h @ [(timer_boundary,
        case s of After_Boot t \<Rightarrow> 0 # to_le_bytes t | At_Persistent_Time t \<Rightarrow> 1 # to_le_bytes t, a)]) ())"
  by (simp add: timer_wait_def)

lemma serve_holds:
  assumes Z: "\<And>h e. Z h (A_Faulted e)" and bal: "balanced seed t None (run_log h) h cp"
  shows "holds (agent_request seed t) Z (beat_kept seed t) (serve seed b s (cp, p)) h"
  using spawn_run_holds [where Z = Z, OF Z bal] resume_run_holds [where Z = Z, OF Z bal] bal
  by (auto simp: serve_def beat_kept_def split: pick.split)

lemma next_deadline_Inr:
  "next_deadline seed s cp = Inr cp' \<Longrightarrow> \<exists>v. cp' = cp\<lparr>cp_next_deadline := v\<rparr>"
  by (auto simp: next_deadline_def result_simps split: heartbeat.splits) (rule exI [of _ "cp_next_deadline cp"], simp)

lemma balanced_unchanged:
  "balanced seed t x l h cp \<Longrightarrow> cp_ledger cp' = cp_ledger cp \<Longrightarrow> cp_memory cp' = cp_memory cp \<Longrightarrow>
   cp_spawn_seq cp' = cp_spawn_seq cp \<Longrightarrow> balanced seed t x l h cp'"
  by (simp add: balanced_def agent_wf_def items_wire_def agent_books_def)

lemma balanced_last_beat [simp]:
  "balanced seed t x l h (cp\<lparr>cp_last_beat := b\<rparr>) \<longleftrightarrow> balanced seed t x l h cp"
  by (simp add: balanced_def agent_wf_def items_wire_def agent_books_def)

lemma sensed_balanced:
  assumes bal: "balanced seed t None (run_log h) h cp" and dl: "next_deadline seed s cp = Inr cp1"
    and ok: "list_all command_ok (sense_commands s)" and clean: "trusted h \<Longrightarrow> list_all command_clean (sense_commands s)"
    and run: "apply_commands seed b (sense_commands s) (cp1, 0) = (cp2, n)"
  shows "balanced seed t None (run_log h) h cp2"
proof -
  obtain v where v: "cp1 = cp\<lparr>cp_next_deadline := v\<rparr>" using next_deadline_Inr [OF dl] by blast
  have "balanced seed t None (run_log h) h cp1" by (rule balanced_unchanged [OF bal]) (simp_all add: v)
  then have wf: "agent_wf None cp1"
    and bk: "t \<and> trusted h \<longrightarrow> agent_books (sd_capabilities (as_template seed)) (run_log h) cp1"
    by (simp_all add: balanced_def)
  show ?thesis
    using apply_commands_wf [OF wf ok run] apply_commands_books [OF wf ok _ run] clean bk by (auto simp: balanced_def)
qed

lemma beat_holds:
  assumes Z: "\<And>h e. Z h (A_Faulted e)" and bal: "balanced seed t None (run_log h) h (ag_checkpoint st)"
  shows "holds (agent_request seed t) Z (\<lambda>h' st'. balanced seed t None (run_log h') h' (ag_checkpoint st')) (agent_beat seed st) h"
proof -
  have tail: "holds (agent_request seed t) Z (\<lambda>h' st'. balanced seed t None (run_log h') h' (ag_checkpoint st'))
      (flow_bind (serve seed b s (cp, p)) (\<lambda>(cp3, p).
        let p' = p\<lparr>pu_counts := ledger_counts (cp_ledger cp3) b (as_policy seed)\<rparr> in
        Ret (st\<lparr>ag_checkpoint := cp3\<lparr>cp_last_beat := b\<rparr>, ag_pulse := Some p', ag_sink := ag_sink st @ [p']\<rparr>))) h'"
    if "balanced seed t None (run_log h') h' cp" for b s cp p h'
    unfolding holds_bind
    by (rule holds_mono [OF serve_holds [where Z = Z, OF Z that]])
      (auto simp: beat_kept_def Let_def)
  let ?i = "case (case as_heartbeat seed of Hb_Boot ticks \<Rightarrow> After_Boot ticks
      | Hb_Persistent x \<Rightarrow> At_Persistent_Time (cp_next_deadline (ag_checkpoint st))) of
      After_Boot t \<Rightarrow> 0 # to_le_bytes t | At_Persistent_Time t \<Rightarrow> 1 # to_le_bytes t"
  have sensed: "balanced seed t None (run_log h') h' cp2"
    if h': "h' = h @ [(timer_boundary, ?i, a), (sense_kind, i, Ans_Completed x)]" and s: "sense_decode x = Inr s"
      and dl: "next_deadline seed s (ag_checkpoint st) = Inr cp1"
      and run: "apply_commands seed b (sense_commands s) (cp1, 0) = (cp2, n)" for h' a i x s cp1 cp2 n b
  proof (rule sensed_balanced [OF _ dl _ _ run])
    have log: "run_log h' = run_log h" using h' by (simp add: run_log_def)
    have "trusted h' \<longleftrightarrow> trusted h \<and> trusted_event (sense_kind, i, Ans_Completed x)"
      using h' by (simp add: trusted_def)
    then show "trusted h' \<Longrightarrow> list_all command_clean (sense_commands s)" "balanced seed t None (run_log h') h' (ag_checkpoint st)"
      using s bal log by (auto simp: trusted_event_def balanced_def)
    show "list_all command_ok (sense_commands s)" using sense_decode_ok [OF s] by (simp add: sense_ok_def)
  qed
  have blind: "balanced seed t None (run_log h') h' cp2"
    if h': "h' = h @ [(timer_boundary, ?i, a), (sense_kind, i, Ans_Failed x)]"
      and dl: "next_deadline seed sense_EMPTY (ag_checkpoint st) = Inr cp1"
      and run: "apply_commands seed b (sense_commands sense_EMPTY) (cp1, 0) = (cp2, n)" for h' a i x cp1 cp2 n b
  proof (rule sensed_balanced [OF _ dl _ _ run])
    have "run_log h' = run_log h" "trusted h' \<longleftrightarrow> trusted h" using h' by (simp_all add: run_log_def trusted_def)
    then show "balanced seed t None (run_log h') h' (ag_checkpoint st)" using bal by (simp add: balanced_def)
  qed (simp_all add: sense_EMPTY_def sense_at_def sense_commands_def max_commands_def numeral_eq_Suc)
  show ?thesis
    unfolding agent_beat_def Let_def holds_bind
    by (auto simp: Z result_simps simp del: holds_bind split: sum.splits prod.splits intro!: tail [unfolded Let_def] sensed [OF refl] blind [OF refl])
qed

section \<open>Storing a checkpoint\<close>

definition store_event :: "agent_checkpoint \<Rightarrow> nat \<Rightarrow> u16 \<times> bytes \<times> answer" where
  "store_event cp i = (store_kind, item_key (hd_digest (checkpoint_header cp)) (of_nat i) @ item_list cp ! i, Ans_Completed [])"

definition stored :: "agent_checkpoint \<Rightarrow> history \<Rightarrow> bool" where
  "stored cp h \<longleftrightarrow> (\<forall>i < item_count cp. store_event cp i \<in> set h)"

lemma ack_decode_Inr [simp]: "ack_decode p = Inr u \<longleftrightarrow> p = []"
  by (simp add: ack_decode_def)

lemma store_all_holds:
  assumes Z: "\<And>h e. Z h (A_Faulted e)" and wire: "items_wire cp"
  shows "\<forall>i \<in> set is. i < item_count cp \<Longrightarrow> balanced seed t None (run_log h) h cp \<Longrightarrow>
    holds (agent_request seed t) Z
      (\<lambda>h' ok. balanced seed t None (run_log h') h' cp \<and> set h \<subseteq> set h' \<and>
         (ok \<longrightarrow> (\<forall>i \<in> set is. store_event cp i \<in> set h')))
      (store_all cp (hd_digest (checkpoint_header cp)) is) h"
proof (induction "is" arbitrary: h)
  case (Cons i "is")
  let ?d = "hd_digest (checkpoint_header cp)"
  have i: "i < item_count cp" using Cons.prems(1) by simp
  have bal: "balanced seed t None (run_log (h @ [(store_kind, inp, a)])) (h @ [(store_kind, inp, a)]) cp" for inp a
    using Cons.prems(2) by (simp add: balanced_def)
  have next_: "holds (agent_request seed t) Z
      (\<lambda>h' ok. balanced seed t None (run_log h') h' cp \<and> set h \<subseteq> set h' \<and>
         (ok \<longrightarrow> store_event cp i \<in> set h' \<and> (\<forall>i \<in> set is. store_event cp i \<in> set h')))
      (store_all cp ?d is) (h @ [(store_kind, inp, Ans_Completed [])])"
    if w: "try_from i = Some w" and enc: "encode_item cp i (replicate max_item_bytes 0) = Inr (out, n)"
      and inp: "slice (item_key ?d w @ out) 0 (item_key_bytes + n) = Some inp" for w :: u16 and out n inp
  proof -
    have "unat w = i" using w by (simp add: try_from_Some_iff)
    then have w': "w = of_nat i" by (metis of_nat_unat ucast_id)
    have "n = length (item_list cp ! i) \<and> take n out = item_list cp ! i"
      using enc encode_item_enc [OF wire i] by (auto split: if_splits)
    then have "(store_kind, inp, Ans_Completed []) = store_event cp i"
      using inp w' by (auto simp: store_event_def slice_def item_key_bytes_def item_key_def split: if_splits)
    then have ev: "h @ [(store_kind, inp, Ans_Completed [])] = h @ [store_event cp i]" by simp
    have "holds (agent_request seed t) Z
        (\<lambda>h' ok. balanced seed t None (run_log h') h' cp \<and> set (h @ [store_event cp i]) \<subseteq> set h' \<and>
           (ok \<longrightarrow> (\<forall>i \<in> set is. store_event cp i \<in> set h')))
        (store_all cp ?d is) (h @ [store_event cp i])"
      by (rule Cons.IH) (use Cons.prems bal [of inp "Ans_Completed []"] ev in auto)
    then show ?thesis unfolding ev by (rule holds_mono) auto
  qed
  show ?case
    using Cons.prems bal by (auto simp: Z result_simps simp del: try_from_Some_iff split: sum.splits intro!: next_)
qed simp

lemma store_checkpoint_holds:
  assumes Z: "\<And>h e. Z h (A_Faulted e)" and bal: "balanced seed t None (run_log h) h (ag_checkpoint st)"
  shows "holds (agent_request seed t) Z
    (\<lambda>h' x. balanced seed t None (run_log h') h' (ag_checkpoint st) \<and>
       (\<forall>v. x = Some v \<longrightarrow> v = checkpoint_header (ag_checkpoint st) \<and> stored (ag_checkpoint st) h'))
    (store_checkpoint st) h"
proof -
  have "items_wire (ag_checkpoint st)" using bal by (simp add: balanced_def agent_wf_def)
  from store_all_holds [where Z = Z, OF Z this _ bal, of "[0..<item_count (ag_checkpoint st)]"]
  show ?thesis unfolding store_checkpoint_def Let_def holds_bind
    by (rule holds_mono) (auto simp: stored_def)
qed

section \<open>The loop\<close>

definition agent_ended :: "agent_seed \<Rightarrow> bool \<Rightarrow> u64 \<Rightarrow> history \<Rightarrow> agent_ending \<Rightarrow> bool" where
  "agent_ended seed t d h z \<longleftrightarrow>
     (case z of
        A_Faulted e \<Rightarrow> True
      | A_Continued p st \<Rightarrow>
          balanced seed t None (run_log h) h (ag_checkpoint st) \<and> stored (ag_checkpoint st) h \<and>
          p = start_enc d (checkpoint_header (ag_checkpoint st)))"

lemma agent_ended_fault [simp]: "agent_ended seed t d h (A_Faulted e)"
  by (simp add: agent_ended_def)

lemma continue_ended:
  assumes "balanced seed t None (run_log h) h (ag_checkpoint st)" "stored (ag_checkpoint st) h"
    and "start_encode \<lparr>st_seed_digest = d, st_header = Some (checkpoint_header (ag_checkpoint st))\<rparr> (replicate max_start_bytes 0)
      = Inr (out, len)"
  shows "agent_ended seed t d h (A_Continued (case slice out 0 len of Some bs \<Rightarrow> bs | None \<Rightarrow> []) st)"
proof -
  have w: "header_wire (checkpoint_header (ag_checkpoint st))"
    using assms(1) header_wire_self agent_wf_checkpoint by (auto simp: balanced_def)
  have "slice out 0 len \<noteq> None"
    using assms(3) w
    by (auto simp: start_encode_def max_start_bytes_def header_bytes_def header_encode_enc slice_def
        length_header_enc result_simps split: if_splits)
  then show ?thesis using start_encoded [OF w assms(3)] assms(1,2) by (auto simp: agent_ended_def)
qed

lemma beats_holds:
  "balanced seed t None (run_log h) h (ag_checkpoint st) \<Longrightarrow>
   holds (agent_request seed t) (agent_ended seed t d)
     (\<lambda>h' st'. balanced seed t None (run_log h') h' (ag_checkpoint st')) (supervise_beats n seed d st) h"
proof (induction n arbitrary: h st)
  case (Suc n)
  let ?H = "holds (agent_request seed t) (agent_ended seed t d)"
  let ?Q = "\<lambda>h' st'. balanced seed t None (run_log h') h' (ag_checkpoint st')"
  have rest: "?H ?Q (case x of None \<Rightarrow> supervise_beats n seed d st1
       | Some v \<Rightarrow> flow_bind (agent_try (start_encode \<lparr>st_seed_digest = d, st_header = Some v\<rparr> (replicate max_start_bytes 0)))
           (\<lambda>(out, len). Stop (A_Continued (case slice out 0 len of Some bs \<Rightarrow> bs | None \<Rightarrow> []) st1))) h1"
    if "balanced seed t None (run_log h1) h1 (ag_checkpoint st1)"
      "\<forall>v. x = Some v \<longrightarrow> v = checkpoint_header (ag_checkpoint st1) \<and> stored (ag_checkpoint st1) h1" for x st1 h1
    using that Suc.IH by (auto simp: continue_ended split: option.split sum.split)
  have store: "?H (\<lambda>h1 x. balanced seed t None (run_log h1) h1 (ag_checkpoint st1) \<and>
        (\<forall>v. x = Some v \<longrightarrow> v = checkpoint_header (ag_checkpoint st1) \<and> stored (ag_checkpoint st1) h1))
      (if c then store_checkpoint st1 else Ret None) h1"
    if "balanced seed t None (run_log h1) h1 (ag_checkpoint st1)" for c st1 h1
    using store_checkpoint_holds [where Z = "agent_ended seed t d", OF agent_ended_fault that] that by simp
  show ?case
    unfolding supervise_beats.simps(2) holds_bind
    by (rule holds_mono [OF beat_holds [where Z = "agent_ended seed t d", OF agent_ended_fault Suc.prems]])
      (assumption, assumption, rule holds_mono [OF store], assumption, assumption, assumption, blast intro: rest)
qed simp

section \<open>Loading it back\<close>

fun load_events :: "u64 \<Rightarrow> u16 \<Rightarrow> bytes list \<Rightarrow> history" where
  "load_events d k [] = []"
| "load_events d k (i # is) = (load_kind, item_key d k, Ans_Completed i) # load_events d (saturating_add k 1) is"

lemma load_events_quiet: "run_log (load_events d k is) = [] \<and> trusted (load_events d k is)"
proof (induction "is" arbitrary: k)
  case (Cons i "is")
  have "run_log (load_events d k (i # is)) = run_log (load_events d (saturating_add k 1) is)"
    by (simp add: run_log_def)
  then show ?case using Cons by (simp add: trusted_def)
qed simp

lemma play_bind_Ret [simp]: "play (flow_bind (Ret x) f) as = play (f x) as" by simp

lemma play_asked:
  "dec p = Inr x \<Longrightarrow> play (flow_bind (asked k i dec) f) (Ans_Completed p # as) =
     (case play (f (Some x)) as of (h, out) \<Rightarrow> ((k, i, Ans_Completed p) # h, out))"
  by (simp add: asked_def)

lemma restore_items_play:
  "push_all st is = (st', Inr ()) \<Longrightarrow> restore_remaining (fst st) = length is \<Longrightarrow>
   \<forall>i \<in> set is. length i \<le> max_item_bytes \<Longrightarrow>
   play (flow_bind (restore_items d k st) f) (map Ans_Completed is @ as) =
     (case play (f st') as of (h, out) \<Rightarrow> (load_events d k is @ h, out))"
proof (induction "is" arbitrary: st k)
  case Nil
  then show ?case using restore_items.simps [of d k st'] by simp
next
  case (Cons i "is")
  obtain st1 where one: "restore_push st i = (st1, Inr ())" and rest: "push_all st1 is = (st', Inr ())"
    using Cons.prems(1) by (auto simp: push_all_Cons simp del: push_all.simps(2))
  obtain rs t rs1 t1 where st: "st = (rs, t)" "st1 = (rs1, t1)" by fastforce
  from restore_push_count [OF one [unfolded st]] Cons.prems(2) have left: "restore_remaining (fst st1) = length is"
    by (simp add: st restore_remaining_def)
  obtain x where x: "item_decode i = Inr x" "item_as_bytes x = i"
    using item_bytes_exact [of i i] Cons.prems(3) by auto
  show ?case
    unfolding restore_items.simps [of d k st] using Cons.prems(2) Cons.prems(3) Cons.IH [OF rest left]
    by (simp add: flow_bind_assoc play_asked [where dec = item_decode, OF x(1)] x(2) one case_prod_beta)
qed

lemma agent_restore_play:
  assumes "checkpoint_ok cp"
  shows "play (flow_bind (agent_restore (checkpoint_header cp) st) f) (map Ans_Completed (item_list cp) @ as) =
    (case play (f (st\<lparr>ag_checkpoint := cp\<rparr>)) as of
       (h, out) \<Rightarrow> (load_events (hd_digest (checkpoint_header cp)) 0 (item_list cp) @ h, out))"
proof -
  obtain rs where push: "push_all (restore_begin (checkpoint_header cp)) (item_list cp) = ((rs, cp), Inr ())"
    and fin: "restore_finish rs = Inr ()"
    using push_all_state [of "checkpoint_header cp" "item_list cp" cp] assms by blast
  obtain rs0 t0 where begin0: "restore_begin (checkpoint_header cp) = (rs0, t0)" by fastforce
  have "restore_remaining (fst (restore_begin (checkpoint_header cp))) = length (item_list cp)"
    using restore_begin_empty [OF begin0] header_counts_self [OF assms] begin0
    by (simp add: restore_remaining_def header_items_def header_counts_def length_item_list item_count_def)
  moreover have "\<forall>i \<in> set (item_list cp). length i \<le> max_item_bytes"
    using items_length assms by (auto simp: checkpoint_ok_def)
  ultimately show ?thesis
    unfolding agent_restore_def flow_bind_assoc
    by (subst restore_items_play [OF push]) (simp_all add: agent_try_def fin)
qed

end
