(* ===== verification/Agent_Life.thy ===== *)
theory Agent_Life
  imports Agent_Continue Run_Safety
begin

text \<open>
  The supervisor's whole life: one segment after another, each started with what the last one passed
  to \<open>continue_as_new\<close>, its loads answered with what was stored. A segment beats exactly as the last
  one would have gone on.
\<close>

section \<open>A supervisor's life\<close>

definition first_input :: "agent_seed \<Rightarrow> bytes" where
  "first_input seed = 0 # to_le_bytes (agent_digest seed)"

lemma first_input_encoded:
  "start_encode (agent_start_of seed) (replicate max_start_bytes 0) =
     Inr (first_input seed @ replicate (max_start_bytes - 9) 0, 9)"
  by (simp add: start_encode_def agent_start_of_def first_input_def max_start_bytes_def header_bytes_def)

lemma first_input_decode: "start_decode (first_input seed) = Inr (agent_start_of seed)"
proof -
  have "nth_of (first_input seed) 0 = Some 0" "slice (first_input seed) 1 9 = Some (to_le_bytes (agent_digest seed))"
    "slice (first_input seed) 9 (length (first_input seed)) = Some []"
    by (simp_all add: first_input_def nth_of_def slice_def)
  then show ?thesis by (simp add: start_decode_def Let_def agent_start_of_def)
qed

text \<open>\<open>agent_life seed h inp loads cp\<close>: the segments so far left the history \<open>h\<close> and the checkpoint \<open>cp\<close>;
  the next segment is started with \<open>inp\<close>, and its loads are answered with what was stored.\<close>

inductive agent_life :: "agent_seed \<Rightarrow> history \<Rightarrow> bytes \<Rightarrow> answer list \<Rightarrow> agent_checkpoint \<Rightarrow> bool" where
  life_first: "agent_life seed [] (first_input seed) [] checkpoint_new"
| life_next: "agent_life seed h inp loads cp \<Longrightarrow>
    play (supervise n seed inp) (loads @ as) = (g, Ended (A_Continued p st)) \<Longrightarrow>
    agent_life seed (h @ g) p (map Ans_Completed (item_list (ag_checkpoint st))) (ag_checkpoint st)"

definition resumed :: "agent_checkpoint \<Rightarrow> agent_state" where
  "resumed cp = agent_state_new\<lparr>ag_checkpoint := cp\<rparr>"

text \<open>The start of a segment: its input names the checkpoint, its loads are the items.\<close>

definition segment_start :: "agent_seed \<Rightarrow> bytes \<Rightarrow> answer list \<Rightarrow> agent_checkpoint \<Rightarrow> history \<Rightarrow> bool" where
  "segment_start seed inp loads cp ls \<longleftrightarrow>
     inp = first_input seed \<and> loads = [] \<and> cp = checkpoint_new \<and> ls = [] \<or>
     inp = start_enc (agent_digest seed) (checkpoint_header cp) \<and> checkpoint_ok cp \<and>
       loads = map Ans_Completed (item_list cp) \<and> ls = load_events (hd_digest (checkpoint_header cp)) 0 (item_list cp)"

lemma supervise_play:
  assumes "segment_start seed inp loads cp ls"
  shows "play (supervise n seed inp) (loads @ as) =
    (case agent_validate seed of
       Inl e \<Rightarrow> ([], Ended (A_Faulted e))
     | Inr u \<Rightarrow> (case play (supervise_beats n seed (agent_digest seed) (resumed cp)) as of (g, out) \<Rightarrow> (ls @ g, out)))"
proof (cases "agent_validate seed")
  case (Inr u)
  from assms show ?thesis
    unfolding segment_start_def
  proof
    assume a: "inp = first_input seed \<and> loads = [] \<and> cp = checkpoint_new \<and> ls = []"
    have "agent_state_new = resumed checkpoint_new" by (simp add: resumed_def agent_state_new_def)
    then show ?thesis
      using a Inr by (simp add: supervise_def agent_try_def first_input_decode agent_start_of_def case_prod_beta)
  next
    assume a: "inp = start_enc (agent_digest seed) (checkpoint_header cp) \<and> checkpoint_ok cp \<and>
      loads = map Ans_Completed (item_list cp) \<and> ls = load_events (hd_digest (checkpoint_header cp)) 0 (item_list cp)"
    then have "start_decode inp = Inr \<lparr>st_seed_digest = agent_digest seed, st_header = Some (checkpoint_header cp)\<rparr>"
      using start_decode_enc [OF header_wire_self] by simp
    then show ?thesis
      using a Inr agent_restore_play [of cp agent_state_new "supervise_beats n seed (agent_digest seed)" as]
      by (simp add: supervise_def agent_try_def resumed_def case_prod_beta)
  qed
qed (simp add: supervise_def agent_try_def)

lemma played_beats:
  assumes "balanced seed t None (run_log h) h (ag_checkpoint st)"
    and "play (supervise_beats n seed d st) as = (g, out)"
  shows "(case out of
      Returned st' \<Rightarrow> balanced seed t None (run_log (h @ g)) (h @ g) (ag_checkpoint st')
    | Ended z \<Rightarrow> agent_ended seed t d (h @ g) z
    | Outstanding k i \<Rightarrow> agent_request seed t (h @ g) k i) \<and>
    (\<forall>j k i a. j < length g \<longrightarrow> g ! j = (k, i, a) \<longrightarrow> agent_request seed t (h @ take j g) k i)"
  using holds_play [OF beats_holds [OF assms(1)] assms(2)] by blast

lemma resumed_checkpoint [simp]: "ag_checkpoint (resumed cp) = cp"
  by (simp add: resumed_def)

lemma run_log_append: "run_log (h @ g) = run_log h @ run_log g"
  by (simp add: run_log_def)

lemma trusted_append [simp]: "trusted (h @ g) \<longleftrightarrow> trusted h \<and> trusted g"
  by (simp add: trusted_def)

lemma balanced_loads:
  assumes "balanced seed t None (run_log h) h cp" "segment_start seed inp loads cp ls"
  shows "balanced seed t None (run_log (h @ ls)) (h @ ls) cp \<and> (\<forall>e \<in> set ls. fst e = load_kind)"
proof -
  have "\<forall>e \<in> set (load_events d k is). fst e = load_kind" for d k "is"
    by (induction "is" arbitrary: k) auto
  then show ?thesis
    using assms load_events_quiet by (auto simp: segment_start_def balanced_def run_log_append)
qed

lemma life_started:
  "agent_life seed h inp loads cp \<Longrightarrow>
   balanced seed True None (run_log h) h cp \<and> (\<exists>ls. segment_start seed inp loads cp ls)"
proof (induction rule: agent_life.induct)
  case (life_first seed)
  show ?case using agent_wf_new books_new by (auto simp: balanced_def segment_start_def)
next
  case (life_next seed h inp loads cp n as g p st)
  then obtain ls where bal: "balanced seed True None (run_log h) h cp" and start: "segment_start seed inp loads cp ls"
    by blast
  obtain u g' where g: "g = ls @ g'"
    and play: "play (supervise_beats n seed (agent_digest seed) (resumed cp)) as = (g', Ended (A_Continued p st))"
    using life_next.hyps(2) unfolding supervise_play [OF start] by (auto split: sum.splits prod.splits)
  from played_beats [OF _ play, of True "h @ ls"] balanced_loads [OF bal start]
  have "agent_ended seed True (agent_digest seed) (h @ g) (A_Continued p st)" by (simp add: g)
  then show ?case using agent_wf_checkpoint by (auto simp: agent_ended_def balanced_def segment_start_def)
qed

text \<open>What a segment of a life plays: it faults on its seed, or it is loaded and beats.\<close>

lemma life_segment:
  assumes life: "agent_life seed h inp loads cp" and play: "play (supervise n seed inp) (loads @ as) = (g, out)"
  obtains (faulted) e where "g = []" "out = Ended (A_Faulted e)"
  | (beats) ls g' where "g = ls @ g'" "balanced seed True None (run_log (h @ ls)) (h @ ls) cp" "\<forall>e \<in> set ls. fst e = load_kind"
      "play (supervise_beats n seed (agent_digest seed) (resumed cp)) as = (g', out)" "agent_validate seed = Inr ()"
proof -
  obtain ls where bal: "balanced seed True None (run_log h) h cp" and start: "segment_start seed inp loads cp ls"
    using life_started [OF life] by blast
  show ?thesis
  proof (cases "agent_validate seed")
    case (Inl e)
    then show ?thesis using play faulted unfolding supervise_play [OF start] by auto
  next
    case (Inr u)
    then show ?thesis
      using play beats balanced_loads [OF bal start] unfolding supervise_play [OF start]
      by (auto split: prod.splits)
  qed
qed

section \<open>The same beats from the same checkpoint\<close>

definition ending_view :: "agent_ending \<Rightarrow> agent_error + (bytes \<times> agent_checkpoint)" where
  "ending_view z = (case z of A_Faulted e \<Rightarrow> Inl e | A_Continued p st \<Rightarrow> Inr (p, ag_checkpoint st))"

definition agent_view :: "(agent_ending, agent_state) playing \<Rightarrow> (agent_error + (bytes \<times> agent_checkpoint), agent_checkpoint) playing" where
  "agent_view = map_playing ending_view ag_checkpoint"

lemma map_flow_bind: "map_flow f g (flow_bind m k) = flow_bind (map_flow f id m) (\<lambda>x. map_flow f g (k x))"
  by (induction m) auto

lemma play_map_flow:
  "play (map_flow f g m) as = (fst (play m as), map_playing f g (snd (play m as)))"
  by (induction m arbitrary: as) (auto split: list.splits simp: case_prod_beta)

lemma map_flow_view:
  fixes k :: "agent_state \<Rightarrow> ('z, 'b) flow"
  assumes "map_flow f ag_checkpoint m = map_flow f ag_checkpoint m'" "\<And>x y. ag_checkpoint x = ag_checkpoint y \<Longrightarrow> k x = k y"
  shows "flow_bind (map_flow f id m) k = flow_bind (map_flow f id m') k"
proof -
  have "flow_bind (map_flow f id n) k = flow_bind (map_flow f ag_checkpoint n) (\<lambda>c. k (resumed c))" for n
  proof (induction n)
    case (Ret x)
    show ?case using assms(2) [of x "resumed (ag_checkpoint x)"] by simp
  qed auto
  then show ?thesis using assms(1) by simp
qed

lemma beat_view:
  "ag_checkpoint st = ag_checkpoint st' \<Longrightarrow>
   map_flow f ag_checkpoint (agent_beat seed st) = map_flow f ag_checkpoint (agent_beat seed st')"
  by (simp add: agent_beat_def Let_def map_flow_bind case_prod_beta)

lemma beats_view:
  "ag_checkpoint st = ag_checkpoint st' \<Longrightarrow>
   map_flow ending_view ag_checkpoint (supervise_beats n seed d st) =
   map_flow ending_view ag_checkpoint (supervise_beats n seed d st')"
proof (induction n arbitrary: st st')
  case (Suc n)
  define K where "K x =
    flow_bind (if beat_get (cp_last_beat (ag_checkpoint x)) mod ucast (span_get (as_checkpoint_every seed)) = 0
               then store_checkpoint x else Ret None)
      (\<lambda>stored. case stored of None \<Rightarrow> supervise_beats n seed d x
         | Some h \<Rightarrow> flow_bind (agent_try (start_encode \<lparr>st_seed_digest = d, st_header = Some h\<rparr> (replicate max_start_bytes 0)))
             (\<lambda>(out, len). Stop (A_Continued (case slice out 0 len of Some bs \<Rightarrow> bs | None \<Rightarrow> []) x)))" for x :: agent_state
  have step: "supervise_beats (Suc n) seed d x = flow_bind (agent_beat seed x) K" for x
    unfolding supervise_beats.simps(2) K_def ..
  have "map_flow ending_view ag_checkpoint (K x) = map_flow ending_view ag_checkpoint (K y)"
    if xy: "ag_checkpoint x = ag_checkpoint y" for x y
  proof -
    have store: "store_checkpoint x = store_checkpoint y" using xy by (simp add: store_checkpoint_def)
    have ih: "map_flow ending_view ag_checkpoint (supervise_beats n seed d x) =
        map_flow ending_view ag_checkpoint (supervise_beats n seed d y)" by (rule Suc.IH [OF xy])
    show ?thesis
      unfolding K_def xy store map_flow_bind
      by (rule flow_bind_cong [OF refl])
        (auto simp: ih map_flow_bind ending_view_def xy agent_try_def split: option.split sum.split)
  qed
  from map_flow_view [OF beat_view [OF Suc.prems] this] show ?case
    by (simp only: step map_flow_bind)
qed simp

end
