(* ===== verification/Agent_Demo.thy ===== *)
theory Agent_Demo
  imports Agent_Life
begin

text \<open>
  One life in full, to apply the properties to: a supervisor that checkpoints every beat is given a goal
  by the operator, spawns a run for it, is told the run parked, stores its one item and continues.
\<close>

definition demo_agent :: agent_seed where
  "demo_agent = agent_default_slice\<lparr>as_checkpoint_every := span_ONE\<rparr>"

text \<open>The goal gets what the template has.\<close>

definition demo_capabilities :: capabilities where
  "demo_capabilities = sd_capabilities default_slice"

definition demo_command :: command where
  "demo_command = Cmd_AddGoal (note_fill [0x61]) 1 Once (gs_envelope sample_spec) demo_capabilities"

definition demo_sense :: sense where
  "demo_sense = \<lparr>se_now = 0, se_ready = replicate max_goals None, se_commands = [Some demo_command, None, None]\<rparr>"

definition demo_record :: "answer list" where
  "demo_record =
     [Ans_Completed [], Ans_Completed (sense_enc demo_sense), Ans_Completed (run_report_enc Rep_Parked), Ans_Completed []]"

lemma demo_agent_valid: "agent_validate demo_agent = Inr ()"
  by code_simp

lemma demo_sense_ok: "sense_ok demo_sense"
proof -
  have "note_ok (note_fill [0x61])" by (rule note_ok_fill) (simp add: note_max_def)
  moreover have "cadence_wire Once" "capabilities_wire demo_capabilities"
    by (simp add: cadence_wire_def) code_simp
  ultimately have "command_ok demo_command" by (simp add: demo_command_def command_ok_def)
  then show ?thesis
    by (simp add: sense_ok_def demo_sense_def sense_commands_def pack_def max_goals_def max_commands_def numeral_eq_Suc)
qed

lemma demo_sense_read: "sense_decode (sense_enc demo_sense) = Inr demo_sense" "sense_commands demo_sense = [demo_command]"
  "is_ready demo_sense g = False"
  using sense_roundtrip [OF demo_sense_ok]
  by (simp_all add: demo_sense_def sense_commands_def is_ready_def max_goals_def numeral_eq_Suc)

text \<open>The goal as it is admitted, spawned and parked; its objective is what the mask makes of one letter.\<close>

definition demo_goal :: "note_t \<Rightarrow> goal" where
  "demo_goal n =
     \<lparr>g_id = GoalId 1, g_objective = n, g_priority = 1, g_cadence = Once, g_envelope = gs_envelope sample_spec,
      g_remaining = \<lparr>rm_turns = 6, rm_mutations = 3, rm_runs = 3\<rparr>, g_reserved = grant_ZERO,
      g_capabilities = demo_capabilities, g_status = G_Active, g_next_due = Beat 1, g_failures = 0,
      g_runs_started = 0, g_last_status = None, g_waiting_since = beat_ZERO, g_run = None\<rparr>"

definition demo_spawned :: "note_t \<Rightarrow> goal" where
  "demo_spawned n = (demo_goal n)\<lparr>g_remaining := \<lparr>rm_turns = 4, rm_mutations = 2, rm_runs = 2\<rparr>,
     g_reserved := \<lparr>gr_turns = 2, gr_mutations = 1\<rparr>, g_status := G_Running, g_runs_started := 1,
     g_run := Some (run_id_of (GoalId 1) 0)\<rparr>"

definition demo_parked :: "note_t \<Rightarrow> goal" where
  "demo_parked n = (demo_spawned n)\<lparr>g_status := G_Waiting, g_waiting_since := Beat 1\<rparr>"

definition demo_ledger :: "goal \<Rightarrow> goal_ledger" where
  "demo_ledger g = \<lparr>gl_slots = [Some g, None, None, None, None, None, None, None], gl_next_id = 2\<rparr>"

definition demo_checkpoint :: "goal \<Rightarrow> u32 \<Rightarrow> agent_checkpoint" where
  "demo_checkpoint g seq = checkpoint_new\<lparr>cp_ledger := demo_ledger g, cp_spawn_seq := seq\<rparr>"

lemma demo_objective: "note_as_bytes (note_fill [0x61]) = [0x61]"
  by code_simp

lemma demo_command_applied:
  assumes "ingest [0x61] = Inr n"
  shows "apply_command demo_agent (Beat 1) demo_command checkpoint_new = (demo_checkpoint (demo_goal n) 0, Inr ())"
proof -
  have w: "\<not> widens demo_capabilities (sd_capabilities (as_template demo_agent))" by code_simp
  have adm: "ledger_admit ledger_new (goal_spec_of (note_fill [0x61]) 1 Once (gs_envelope sample_spec) demo_capabilities)
      (sd_capabilities (as_template demo_agent)) (Beat 1) = Inr (demo_goal n)"
    using w assms by (simp add: ledger_admit_def goal_spec_of_def demo_objective envelope_validate_def sample_spec_def
        goal_id_new_def ledger_new_def empty_slots demo_goal_def)
  have ins: "ledger_insert ledger_new (demo_goal n) = Inr (demo_ledger (demo_goal n))"
    by (simp add: ledger_insert_def ledger_new_def demo_goal_def check_envelope_def sample_spec_def grant_ZERO_def
        empty_slots demo_ledger_def checked_add_def)
  show ?thesis
    by (simp add: apply_command_def demo_command_def checkpoint_new_def adm ins demo_checkpoint_def)
qed

lemma demo_goals [simp]: "ledger_goals (demo_ledger g) = [g]"
  by (simp add: ledger_goals_def demo_ledger_def)

lemma demo_pick: "ledger_pick (demo_ledger (demo_goal n)) (Beat 1) (\<lambda>_. False) = Pick_Spawn (GoalId 1)"
  by (simp add: ledger_pick_def demo_goal_def)

lemma demo_reserved:
  "ledger_reservation (demo_ledger (demo_goal n)) (GoalId 1) = Inr \<lparr>gr_turns = 2, gr_mutations = 1\<rparr>"
  by (simp add: ledger_reservation_def ledger_get_def demo_goal_def goal_transition_def goal_transitions_def fundable_def
      clamp_u16_def try_from_def sample_spec_def)

lemma demo_on_goal: "g_id g = i \<Longrightarrow> on_goal (demo_ledger g) i f = (demo_ledger (fst (f g)), snd (f g))"
proof -
  assume "g_id g = i"
  then have "ledger_get (demo_ledger g) i = Some g" by (simp add: ledger_get_def)
  then show ?thesis using \<open>g_id g = i\<close> by (simp add: on_goal_def) (simp add: demo_ledger_def)
qed

lemma demo_spawn:
  "ledger_spawn (demo_ledger (demo_goal n)) (GoalId 1) (run_id_of (GoalId 1) 0) \<lparr>gr_turns = 2, gr_mutations = 1\<rparr> =
     (demo_ledger (demo_spawned n), Inr ())"
proof -
  have id: "g_id (demo_goal n) = GoalId 1" by (simp add: demo_goal_def)
  have one: "saturating_add 0 (1 :: u32) = 1" by (simp add: word_unat_eq_iff unat_saturating_add)
  have "spawn_goal (run_id_of (GoalId 1) 0) \<lparr>gr_turns = 2, gr_mutations = 1\<rparr> (demo_goal n) = (demo_spawned n, Inr ())"
    by (simp add: spawn_goal_def demo_goal_def goal_transition_def goal_transitions_def demo_spawned_def
        check_envelope_def sample_spec_def grant_ZERO_def one)
  then show ?thesis unfolding ledger_spawn_def demo_reserved by (simp add: demo_on_goal [OF id])
qed

lemma demo_park:
  "ledger_park (demo_ledger (demo_spawned n)) (GoalId 1) (Beat 1) = (demo_ledger (demo_parked n), Inr ())"
proof -
  have id: "g_id (demo_spawned n) = GoalId 1" by (simp add: demo_spawned_def demo_goal_def)
  have "park_goal (Beat 1) (demo_spawned n) = (demo_parked n, Inr ())"
    by (simp add: park_goal_def demo_goal_def goal_transition_def goal_transitions_def demo_spawned_def demo_parked_def
        check_envelope_def sample_spec_def grant_ZERO_def)
  then show ?thesis unfolding ledger_park_def by (simp add: demo_on_goal [OF id])
qed

text \<open>The beat, up to the state it leaves.\<close>

definition spawned_seed :: "note_t \<Rightarrow> run_seed" where
  "spawned_seed n = (as_template demo_agent)\<lparr>sd_id := run_id_of (GoalId 1) 0, sd_model_turns := 2, sd_mutations := 1,
     sd_capabilities := demo_capabilities, sd_brief := Some (compose n []), sd_parent := None\<rparr>"

lemma demo_recall: "recall memory_new g = []"
  using recall_from [of memory_new g] memory_new_ok by simp

lemma demo_seed_valid: "seed_validate (spawned_seed n) = Inr ()"
proof -
  have "seed_validate (spawned_seed n) = seed_validate ((spawned_seed n)\<lparr>sd_brief := Some brief_empty\<rparr>)"
    by (simp add: seed_validate_def spawned_seed_def Let_def)
  also have "(spawned_seed n)\<lparr>sd_brief := Some brief_empty\<rparr> = (as_template demo_agent)\<lparr>sd_id := run_id_of (GoalId 1) 0,
      sd_model_turns := 2, sd_mutations := 1, sd_capabilities := demo_capabilities, sd_brief := Some brief_empty,
      sd_parent := None\<rparr>"
    by (simp add: spawned_seed_def)
  also have "seed_validate \<dots> = Inr ()" by code_simp
  finally show ?thesis .
qed

lemma demo_spawn_seed:
  "spawn_seed demo_agent (demo_checkpoint (demo_goal n) 0) (GoalId 1) \<lparr>gr_turns = 2, gr_mutations = 1\<rparr> (run_id_of (GoalId 1) 0)
     = Inr (spawned_seed n)"
proof -
  have "seed_validate (spawned_seed n) = Inr ()" by (rule demo_seed_valid)
  moreover have "ledger_get (demo_ledger (demo_goal n)) (GoalId 1) = Some (demo_goal n)"
    by (simp add: ledger_get_def demo_goal_def)
  ultimately show ?thesis
    by (simp add: spawn_seed_def demo_checkpoint_def checkpoint_new_def demo_recall Let_def spawned_seed_def demo_goal_def)
qed

lemma demo_encoded:
  assumes "ingest [0x61] = Inr n"
  shows "run_request_decode (run_request_enc (Req_Spawn (GoalId 1) (spawned_seed n))) = Inr (Req_Spawn (GoalId 1) (spawned_seed n))"
    "\<exists>out len. run_request_encode (Req_Spawn (GoalId 1) (spawned_seed n)) (replicate max_run_request_bytes 0) = Inr (out, len) \<and>
    slice out 0 len = Some (run_request_enc (Req_Spawn (GoalId 1) (spawned_seed n)))"
proof -
  have "clean_note n" using masked_ingest.ing_clean [OF assms] note_clean_note by simp
  then have b: "brief_ok (compose n [])" using compose_accepted [of n "[]"] by simp
  have enc: "run_request_encode (Req_Spawn (GoalId 1) (spawned_seed n)) out =
      Wire.written (run_request_enc (Req_Spawn (GoalId 1) (spawned_seed n))) out" for out
    by (rule emits_run_request) (use b in \<open>simp add: spawned_seed_def\<close>)
  have "length (capabilities_enc demo_capabilities) = 25" by code_simp
  then have "length (run_request_enc (Req_Spawn (GoalId 1) (spawned_seed n))) \<le> max_run_request_bytes"
    using brief_ok_length [OF b]
    by (simp add: run_request_enc_def spawn_enc_def spawned_seed_def u8_enc_def goal_id_enc_def settings_bytes_def
        context_budget_enc_def flag_enc_def sized_enc_def max_run_request_bytes_def brief_cap_def)
  then show "\<exists>out len. run_request_encode (Req_Spawn (GoalId 1) (spawned_seed n)) (replicate max_run_request_bytes 0) = Inr (out, len) \<and>
    slice out 0 len = Some (run_request_enc (Req_Spawn (GoalId 1) (spawned_seed n)))"
    by (simp add: enc Wire.written_def slice_def)
  show "run_request_decode (run_request_enc (Req_Spawn (GoalId 1) (spawned_seed n))) = Inr (Req_Spawn (GoalId 1) (spawned_seed n))"
  proof -
    have "capabilities_wire demo_capabilities" by code_simp
    then have "run_request_ok (Req_Spawn (GoalId 1) (spawned_seed n))"
      using b demo_seed_valid [of n]
      by (simp add: run_request_ok_def request_goal_def goal_id_wire_def) (simp add: spawned_seed_def)
    then show ?thesis by (simp add: agent_payload_exact)
  qed
qed

lemma demo_agent_simps [simp]:
  "as_heartbeat demo_agent = Hb_Boot 1" "as_checkpoint_every demo_agent = span_ONE"
  by (simp_all add: demo_agent_def agent_default_slice_def)

definition demo_pulse :: "note_t \<Rightarrow> pulse" where
  "demo_pulse n = (pulse_new (Beat 1))\<lparr>pu_action := Did_Spawn (GoalId 1) (run_id_of (GoalId 1) 0), pu_parked := True\<rparr>"

lemma demo_drive:
  assumes n: "ingest [0x61] = Inr n"
  shows "play (flow_bind (serve demo_agent (Beat 1) demo_sense (demo_checkpoint (demo_goal n) 0, pulse_new (Beat 1))) f)
      (Ans_Completed (run_report_enc Rep_Parked) # as) =
    (case play (f (demo_checkpoint (demo_parked n) 1, demo_pulse n)) as of
       (h, out) \<Rightarrow> ((run_kind, run_request_enc (Req_Spawn (GoalId 1) (spawned_seed n)), Ans_Completed (run_report_enc Rep_Parked)) # h, out))"
proof -
  obtain out len where enc: "run_request_encode (Req_Spawn (GoalId 1) (spawned_seed n)) (replicate max_run_request_bytes 0) = Inr (out, len)"
    "slice out 0 len = Some (run_request_enc (Req_Spawn (GoalId 1) (spawned_seed n)))"
    using demo_encoded [OF n] by blast
  have rep: "run_report_decode (run_report_enc Rep_Parked) = Inr Rep_Parked" by (simp add: agent_payload_exact)
  have ready: "is_ready demo_sense = (\<lambda>_. False)" using demo_sense_read(3) by blast
  have seq: "checked_add (0 :: u32) 1 = Some 1" by (simp add: checked_add_def)
  have cp [simp]: "cp_ledger (demo_checkpoint g q) = demo_ledger g" "cp_spawn_seq (demo_checkpoint g q) = q" for g q
    by (simp_all add: demo_checkpoint_def)
  have upd: "demo_checkpoint g q\<lparr>cp_ledger := demo_ledger g', cp_spawn_seq := q'\<rparr> = demo_checkpoint g' q'"
    "demo_checkpoint g q\<lparr>cp_ledger := demo_ledger g'\<rparr> = demo_checkpoint g' q"
    "demo_checkpoint g q\<lparr>cp_spawn_seq := q'\<rparr> = demo_checkpoint g q'" for g g' q q'
    by (simp_all add: demo_checkpoint_def)
  have drive: "play (flow_bind (drive_run (Req_Spawn (GoalId 1) (spawned_seed n)) (Beat 1) policy (demo_checkpoint (demo_spawned n) 1, p)) f)
      (Ans_Completed (run_report_enc Rep_Parked) # as) =
    (case play (f (demo_checkpoint (demo_parked n) 1, p\<lparr>pu_parked := True\<rparr>)) as of
       (h, out) \<Rightarrow> ((run_kind, run_request_enc (Req_Spawn (GoalId 1) (spawned_seed n)), Ans_Completed (run_report_enc Rep_Parked)) # h, out))"
    for policy p
    unfolding drive_run_fold
    by (simp add: enc agent_try_def flow_bind_assoc play_asked [where dec = run_report_decode, OF rep] fold_report_def demo_park upd)
  show ?thesis
    unfolding serve_def fst_conv ready cp demo_pick pick.case spawn_run_def Let_def
    by (simp add: agent_try_def demo_reserved demo_spawn_seed demo_spawn seq upd drive demo_pulse_def)
qed

lemma demo_event_trusted: "trusted_event (sense_kind, i, Ans_Completed (sense_enc demo_sense))"
  by (simp add: trusted_event_def demo_sense_read command_clean_def demo_command_def)

lemma demo_stored:
  assumes "ingest [0x61] = Inr n"
    and st: "ag_checkpoint st = (demo_checkpoint (demo_parked n) 1)\<lparr>cp_last_beat := Beat 1\<rparr>"
  shows "\<exists>e. \<forall>f as. play (flow_bind (store_checkpoint st) f) (Ans_Completed [] # as) =
    (case play (f (Some (checkpoint_header ((demo_checkpoint (demo_parked n) 1)\<lparr>cp_last_beat := Beat 1\<rparr>)))) as of
       (h, out) \<Rightarrow> ((store_kind, e, Ans_Completed []) # h, out))"
proof -
  let ?cp = "(demo_checkpoint (demo_parked n) 1)\<lparr>cp_last_beat := Beat 1\<rparr>"
  have one: "item_count ?cp = 1"
    using memory_new_ok by (simp add: item_count_def demo_checkpoint_def checkpoint_new_def)
  have "capabilities_wire demo_capabilities" by code_simp
  moreover have "note_ok n" using masked_ingest.ing_clean [OF assms(1)] by (simp add: note_clean_def)
  ultimately have "goal_wire (demo_parked n)"
    by (simp add: goal_wire_def demo_parked_def demo_spawned_def demo_goal_def goal_id_wire_def cadence_wire_def
        envelope_wire_def envelope_validate_def sample_spec_def)
  then have wire: "items_wire ?cp"
    using memory_new_ok by (simp add: items_wire_def demo_checkpoint_def checkpoint_new_def)
  have i: "0 < item_count ?cp" by (simp add: one)
  have len: "length (item_list ?cp ! 0) \<le> max_item_bytes"
    using items_length [OF wire nth_mem] by (simp add: length_item_list one)
  obtain out where enc: "encode_item ?cp 0 (replicate max_item_bytes 0) = Inr (out, length (item_list ?cp ! 0))"
    and out: "length out = max_item_bytes"
    using encode_item_enc [OF wire i] len by simp
  have w: "try_from 0 = Some (0 :: u16)" by (simp add: try_from_def)
  have "slice (item_key d 0 @ out) 0 (item_key_bytes + length (item_list ?cp ! 0)) \<noteq> None" for d
    using out len by (simp add: slice_def item_key_def item_key_bytes_def)
  then obtain inp where inp: "slice (item_key (hd_digest (checkpoint_header ?cp)) 0 @ out) 0
      (item_key_bytes + length (item_list ?cp ! 0)) = Some inp" by blast
  have "store_all ?cp (hd_digest (checkpoint_header ?cp)) [0..<1] =
      flow_bind (asked store_kind inp ack_decode) (\<lambda>x. case x of None \<Rightarrow> Ret False | Some u \<Rightarrow> Ret True)"
    by (simp add: w enc inp agent_try_def cong: option.case_cong)
  then show ?thesis
    by (intro exI [of _ inp])
      (simp add: store_checkpoint_def st one Let_def flow_bind_assoc play_asked [where dec = ack_decode and x = "()"])
qed

lemma demo_life:
  obtains e1 i2 n e4 p st where
    "play (supervise 1 demo_agent (first_input demo_agent)) ([] @ demo_record) =
       ([(timer_boundary, e1, Ans_Completed []), (sense_kind, i2, Ans_Completed (sense_enc demo_sense)),
         (run_kind, run_request_enc (Req_Spawn (GoalId 1) (spawned_seed n)), Ans_Completed (run_report_enc Rep_Parked)),
         (store_kind, e4, Ans_Completed [])], Ended (A_Continued p st))"
    "ag_checkpoint st = (demo_checkpoint (demo_parked n) 1)\<lparr>cp_last_beat := Beat 1\<rparr>" "ingest [0x61] = Inr n"
proof -
  obtain n where n: "ingest [0x61] = Inr n" using masked_ingest.ing_total [of "[0x61]"] by (auto simp: memory_input_max_def)
  let ?cp = "(demo_checkpoint (demo_parked n) 1)\<lparr>cp_last_beat := Beat 1\<rparr>"
  define st where "st = (resumed checkpoint_new)\<lparr>ag_checkpoint := ?cp,
    ag_pulse := Some ((demo_pulse n)\<lparr>pu_counts := ledger_counts (demo_ledger (demo_parked n)) (Beat 1) (as_policy demo_agent)\<rparr>),
    ag_sink := [(demo_pulse n)\<lparr>pu_counts := ledger_counts (demo_ledger (demo_parked n)) (Beat 1) (as_policy demo_agent)\<rparr>]\<rparr>"
  have cp: "ag_checkpoint st = ?cp" by (simp add: st_def)
  obtain e4 where e4: "play (flow_bind (store_checkpoint st) f) (Ans_Completed [] # as) =
    (case play (f (Some (checkpoint_header ?cp))) as of (h, out) \<Rightarrow> ((store_kind, e4, Ans_Completed []) # h, out))"
    for f :: "header option \<Rightarrow> (agent_ending, agent_state) flow" and as
    using demo_stored [OF n cp] by blast
  have "header_wire (checkpoint_header ?cp)"
    using memory_new_ok
    by (simp add: header_wire_def checkpoint_header_def demo_checkpoint_def checkpoint_new_def try_from_def max_goals_def max_memory_def)
  then obtain out len where start: "start_encode \<lparr>st_seed_digest = agent_digest demo_agent, st_header = Some (checkpoint_header ?cp)\<rparr>
      (replicate max_start_bytes 0) = Inr (out, len)"
    by (auto simp: start_encode_def max_start_bytes_def header_bytes_def header_encode_enc)
  have first: "segment_start demo_agent (first_input demo_agent) [] checkpoint_new []" by (simp add: segment_start_def)
  have b: "beat_next (cp_last_beat checkpoint_new) = Inr (Beat 1)"
    by (simp add: beat_next_def checkpoint_new_def beat_ZERO_def checked_add_def)
  have app: "apply_commands demo_agent (Beat 1) [demo_command] (checkpoint_new, 0) = (demo_checkpoint (demo_goal n) 0, 0)"
    by (simp add: demo_command_applied [OF n])
  have pulse: "(pulse_new (Beat 1))\<lparr>pu_rejected := 0\<rparr> = pulse_new (Beat 1)" by (simp add: pulse_new_def)
  have dl: "next_deadline demo_agent demo_sense checkpoint_new = Inr checkpoint_new" by (simp add: next_deadline_def)
  have beat: "play (flow_bind (agent_beat demo_agent (resumed checkpoint_new)) f) demo_record =
    (case play (f st) [Ans_Completed []] of (h, out) \<Rightarrow>
       ([(timer_boundary, 0 # to_le_bytes (1 :: u64), Ans_Completed []),
         (sense_kind, to_le_bytes (1 :: u64), Ans_Completed (sense_enc demo_sense)),
         (run_kind, run_request_enc (Req_Spawn (GoalId 1) (spawned_seed n)), Ans_Completed (run_report_enc Rep_Parked))] @ h, out))"
    for f :: "agent_state \<Rightarrow> (agent_ending, agent_state) flow"
    unfolding agent_beat_def Let_def demo_record_def
    by (simp add: timer_wait_def flow_bind_assoc b agent_try_def play_asked [where dec = sense_decode, OF demo_sense_read(1)]
        demo_sense_read(2) dl app pulse demo_drive [OF n] case_prod_beta st_def del: apply_commands.simps) (simp add: resumed_def agent_state_new_def demo_checkpoint_def)
  have every: "beat_get (cp_last_beat (ag_checkpoint st)) mod ucast (span_get span_ONE) = 0"
    by (simp add: cp span_ONE_def)
  have "play (supervise 1 demo_agent (first_input demo_agent)) ([] @ demo_record) =
       ([(timer_boundary, 0 # to_le_bytes (1 :: u64), Ans_Completed []),
         (sense_kind, to_le_bytes (1 :: u64), Ans_Completed (sense_enc demo_sense)),
         (run_kind, run_request_enc (Req_Spawn (GoalId 1) (spawned_seed n)), Ans_Completed (run_report_enc Rep_Parked)),
         (store_kind, e4, Ans_Completed [])],
        Ended (A_Continued (case slice out 0 len of Some bs \<Rightarrow> bs | None \<Rightarrow> []) st))"
    unfolding supervise_play [OF first] demo_agent_valid One_nat_def supervise_beats.simps(2)
    by (simp add: beat every e4 start agent_try_def del: append_Nil) 
  then show ?thesis using that cp n by blast
qed

end
