(* ===== verification/Agent_Bounds.thy ===== *)
theory Agent_Bounds
  imports Agent_Life
begin

text \<open>
  How many activities a supervisor asks for: a beat waits, senses, drives at most one run and reads at
  most six harvested entries; a checkpoint stores at most forty items. So a segment with enough recorded
  answers always reaches the end of its beats.
\<close>

section \<open>Short flows\<close>

primrec short :: "('z, 'a) flow \<Rightarrow> nat \<Rightarrow> bool" where
  "short (Ret x) = (\<lambda>n. True)"
| "short (Stop z) = (\<lambda>n. True)"
| "short (Act k i f) = (\<lambda>n. 0 < n \<and> (\<forall>a. short (f a) (n - 1)))"

lemma short_mono: "short m n \<Longrightarrow> n \<le> n' \<Longrightarrow> short m n'"
proof (induction m arbitrary: n n')
  case (Act k i f)
  then have "short (f a) (n' - 1)" for a using diff_le_mono [OF Act.prems(2), of 1] by fastforce
  then show ?case using Act.prems by simp
qed simp_all

lemma short_bind: "short m n \<Longrightarrow> (\<And>x. x \<in> returned m \<Longrightarrow> short (f x) n') \<Longrightarrow> short (flow_bind m f) (n + n')"
proof (induction m arbitrary: n)
  case (Ret x)
  then show ?case using short_mono [of "f x" n' "n + n'"] by simp
next
  case (Act k i g)
  have "short (flow_bind (g a) f) ((n - 1) + n')" for a
    by (rule Act.IH) (use Act.prems in fastforce)+
  then show ?case using Act.prems(1) by (simp add: Nat.add_diff_assoc2)
qed simp

lemma short_bind_le:
  "short m n \<Longrightarrow> (\<And>x. x \<in> returned m \<Longrightarrow> short (f x) n') \<Longrightarrow> n + n' \<le> b \<Longrightarrow> short (flow_bind m f) b"
  using short_bind short_mono by blast

lemma short_play:
  "short m n \<Longrightarrow> play m as = (h, out) \<Longrightarrow> length h \<le> n \<and> (n \<le> length as \<longrightarrow> (\<forall>k i. out \<noteq> Outstanding k i))"
proof (induction m arbitrary: n as h out)
  case (Act k i f)
  show ?case
  proof (cases as)
    case (Cons a rest)
    obtain h' where h': "play (f a) rest = (h', out)" "h = (k, i, a) # h'"
      using Act.prems(2) Cons by (auto split: prod.splits)
    then show ?thesis using Act.IH [of "f a" "n - 1" rest h' out] Act.prems(1) Cons by fastforce
  qed (use Act.prems in auto)
qed auto

lemma short_try [simp]: "short (agent_try m) n"
  by (simp add: agent_try_def split: sum.split)

lemma short_asked: "short (asked k i dec) 1"
  by (simp add: asked_def split: answer.split sum.split)

lemma short_then: "(\<And>x. short (f x) n) \<Longrightarrow> short (flow_bind (agent_try m) f) n"
  by (simp add: agent_try_def split: sum.split)

lemma returned_holds: "holds R Z Q m h \<Longrightarrow> x \<in> returned m \<Longrightarrow> \<exists>h'. Q h' x"
proof (induction m arbitrary: h)
  case (Act k i f)
  then obtain a where "x \<in> returned (f a)" "holds R Z Q (f a) (h @ [(k, i, a)])" by auto
  then show ?case using Act.IH by blast
qed auto

section \<open>Activities of a beat\<close>

lemma short_harvest: "short (harvest_loop g run b is (cp, n)) (length is)"
proof (induction "is" arbitrary: cp n)
  case (Cons i "is")
  show ?case
    unfolding harvest_loop.simps
    by (rule short_bind_le [where n = 1 and n' = "length is"])
      (auto simp: short_asked [unfolded One_nat_def] Cons.IH intro!: short_then split: option.split)
qed simp

lemma length_harvest_indexes: "length (harvest_indexes n) \<le> 6"
proof -
  have "try_from max_harvest = Some (6 :: u8)" by (simp add: try_from_def max_harvest_def)
  moreover have "unat (min n 6) \<le> 6" using word_le_nat_alt [of "min n 6" 6] by simp
  ultimately show ?thesis by (simp add: harvest_indexes_def)
qed

lemma short_drive: "short (drive_run q b policy (cp, p)) 7"
proof -
  have "short (fold_report q b policy cp p rep) 6" for rep
    unfolding fold_report_def
    by (auto split: run_report.split prod.split intro!: short_then
        short_bind_le [OF short_harvest, where n' = 0] length_harvest_indexes)
  then show ?thesis
    unfolding drive_run_fold
    by (auto intro!: short_then short_bind_le [OF short_asked, where n' = 6] split: prod.split)
qed

lemma short_serve: "short (serve seed b s st) 7"
  by (cases st) (auto simp: serve_def spawn_run_def resume_run_def Let_def intro!: short_then short_drive
      split: pick.split prod.split)

lemma short_beat: "short (agent_beat seed st) 9"
proof -
  have timer: "short (timer_wait s) 1" for s by (simp add: timer_wait_def)
  show ?thesis
    unfolding agent_beat_def Let_def
    by (rule short_bind_le [OF timer, where n' = 8])
      (auto intro!: short_then short_bind_le [OF short_asked, where n' = 7] short_bind_le [OF short_serve, where n' = 0]
        split: prod.split)
qed

lemma short_store_all: "short (store_all cp d is) (length is)"
proof (induction "is")
  case (Cons i "is")
  show ?case
    unfolding store_all.simps
    by (auto intro!: short_then short_bind_le [OF short_asked, where n' = "length is"] Cons.IH split: option.split prod.split)
qed simp

lemma short_store: "checkpoint_ok (ag_checkpoint st) \<Longrightarrow> short (store_checkpoint st) 40"
  unfolding store_checkpoint_def Let_def
  by (rule short_bind_le [OF short_store_all, where n' = 0])
    (use checkpoint_lengths [of "ag_checkpoint st"] in \<open>auto simp: item_count_def\<close>)

lemma short_beats:
  "agent_wf None (ag_checkpoint st) \<Longrightarrow> short (supervise_beats n seed d st) (49 * n)"
proof (induction n arbitrary: st)
  case (Suc n)
  have kept: "agent_wf None (ag_checkpoint st1)" if "st1 \<in> returned (agent_beat seed st)" for st1
  proof -
    have "balanced seed False None (run_log []) [] (ag_checkpoint st)" using Suc.prems by (simp add: balanced_def)
    from returned_holds [OF beat_holds [where Z = "\<lambda>_ _. True", OF TrueI this] that] show ?thesis
      by (auto simp: balanced_def)
  qed
  have rest: "short (case x of None \<Rightarrow> supervise_beats n seed d st1
         | Some h \<Rightarrow> flow_bind (agent_try (start_encode \<lparr>st_seed_digest = d, st_header = Some h\<rparr> (replicate max_start_bytes 0)))
             (\<lambda>(out, len). Stop (A_Continued (case slice out 0 len of Some bs \<Rightarrow> bs | None \<Rightarrow> []) st1))) (49 * n)"
    if "agent_wf None (ag_checkpoint st1)" for x st1
    using Suc.IH [OF that] by (auto split: option.split prod.split intro!: short_then)
  have "short (flow_bind (if c then store_checkpoint st1 else Ret None) (\<lambda>x. case x of None \<Rightarrow> supervise_beats n seed d st1
         | Some h \<Rightarrow> flow_bind (agent_try (start_encode \<lparr>st_seed_digest = d, st_header = Some h\<rparr> (replicate max_start_bytes 0)))
             (\<lambda>(out, len). Stop (A_Continued (case slice out 0 len of Some bs \<Rightarrow> bs | None \<Rightarrow> []) st1)))) (40 + 49 * n)"
    if "agent_wf None (ag_checkpoint st1)" for c st1
    using short_store [of st1] that agent_wf_checkpoint by (intro short_bind rest) auto
  then show ?case
    unfolding supervise_beats.simps(2) by (rule short_bind_le [OF short_beat, where n' = "40 + 49 * n"]) (use kept in auto)
qed simp

end
