(* ===== verification/Agent_Properties.thy ===== *)
theory Agent_Properties
  imports Agent_Demo Agent_Bounds Run_Demo
begin

text \<open>
  The properties of the always-on supervisor over its whole life, applied to the life of \<open>Agent_Demo\<close>.
\<close>

section \<open>Shared steps\<close>

text \<open>What a segment asks for, against everything that happened before.\<close>

lemma life_request:
  assumes life: "agent_life seed h inp loads cp" and play: "play (supervise n seed inp) (loads @ as) = (g, out)"
    and j: "j < length g" and e: "g ! j = (run_kind, i, a)"
  shows "agent_request seed True (h @ take j g) run_kind i"
proof (cases rule: life_segment [OF life play])
  case (2 ls g')
  have "\<not> j < length ls"
  proof
    assume "j < length ls"
    then have "g ! j \<in> set ls" using 2(1) by (simp add: nth_append)
    then show False using 2(3) e agent_kinds_differ by (metis fst_conv)
  qed
  then have "j - length ls < length g'" "g' ! (j - length ls) = (run_kind, i, a)" "take j g = ls @ take (j - length ls) g'"
    using 2(1) j e by (auto simp: nth_append)
  then show ?thesis using played_beats [OF _ 2(4), of True "h @ ls"] 2(2) by auto
qed (use j in simp)

lemma life_state:
  assumes life: "agent_life seed h inp loads cp" and play: "play (supervise n seed inp) (loads @ as) = (g, out)"
    and out: "out = Returned st \<or> out = Ended (A_Continued p st)"
  shows "balanced seed True None (run_log (h @ g)) (h @ g) (ag_checkpoint st)"
proof (cases rule: life_segment [OF life play])
  case (2 ls g')
  then show ?thesis using played_beats [OF _ 2(4), of True "h @ ls"] out by (auto simp: agent_ended_def)
qed (use out in auto)

lemma granted_within:
  "\<not> widens c ceiling \<Longrightarrow> granted c i args \<Longrightarrow> granted ceiling i args"
  unfolding widens_set_iff
  by (auto simp: granted_def set_of_def can_read_def can_write_def can_sample_def split: tool_args.splits)

lemma demo_supervised:
  obtains g p st n where "play (supervise 1 demo_agent (first_input demo_agent)) ([] @ demo_record) = (g, Ended (A_Continued p st))"
    "g ! 2 = (run_kind, run_request_enc (Req_Spawn (GoalId 1) (spawned_seed n)), Ans_Completed (run_report_enc Rep_Parked))"
    "length g = 4" "trusted g" "ledger_goals (cp_ledger (ag_checkpoint st)) = [demo_parked n]"
    "run_request_decode (run_request_enc (Req_Spawn (GoalId 1) (spawned_seed n))) = Inr (Req_Spawn (GoalId 1) (spawned_seed n))"
proof (rule demo_life)
  fix e1 i2 n e4 p st
  assume run: "play (supervise 1 demo_agent (first_input demo_agent)) ([] @ demo_record) =
       ([(timer_boundary, e1, Ans_Completed []), (sense_kind, i2, Ans_Completed (sense_enc demo_sense)),
         (run_kind, run_request_enc (Req_Spawn (GoalId 1) (spawned_seed n)), Ans_Completed (run_report_enc Rep_Parked)),
         (store_kind, e4, Ans_Completed [])], Ended (A_Continued p st))"
    and cp: "ag_checkpoint st = (demo_checkpoint (demo_parked n) 1)\<lparr>cp_last_beat := Beat 1\<rparr>"
    and n: "ingest [0x61] = Inr n"
  show ?thesis
    by (rule that [OF run]) (use demo_encoded(1) [OF n] in \<open>simp_all add: trusted_def demo_event_trusted cp demo_checkpoint_def\<close>)
qed

section \<open>Properties\<close>

text \<open>C5: every run is spawned or resumed under authority. Whatever a supervisor is answered, over any number
  of segments, as long as the notes its dispatcher handed it are single lines (\<open>trusted\<close>): every \<open>RUN\<close> request it makes decodes
  for the dispatcher. A spawn is for a goal without an open run; its seed is the agent's template with an
  identifier no earlier spawn had, whose top bits name the goal, at least one turn and one mutation, and
  capabilities that do not widen the template's; a resume names exactly the run of the goal that was
  reported parked and not driven since.\<close>

theorem spawns_authorized:
  assumes "agent_life seed h inp loads cp" "play (supervise n seed inp) (loads @ as) = (g, out)"
    and "j < length g" "g ! j = (run_kind, i, a)" "trusted (h @ take j g)"
  shows "\<exists>q. run_request_decode i = Inr q \<and> drive_allowed seed (run_log (h @ take j g)) q"
  using life_request [OF assms(1-4)] assms(5) by (simp add: agent_request_def)

theorem spawns_authorized_witness:
  "\<exists>g i a q. g ! 2 = (run_kind, i, a) \<and> run_request_decode i = Inr q \<and> drive_allowed demo_agent (run_log ([] @ take 2 g)) q"
proof (rule demo_supervised)
  fix g p st n
  assume run: "play (supervise 1 demo_agent (first_input demo_agent)) ([] @ demo_record) = (g, Ended (A_Continued p st))"
    and e: "g ! 2 = (run_kind, run_request_enc (Req_Spawn (GoalId 1) (spawned_seed n)), Ans_Completed (run_report_enc Rep_Parked))"
    and len: "length g = 4" and tr: "trusted g"
  have "trusted (take 2 g)" using tr by (auto simp: trusted_def list_all_iff dest: in_set_takeD)
  then show ?thesis using spawns_authorized [OF life_first run _ e] len e by auto
qed

text \<open>C6: the ceiling holds end to end. As long as the notes the dispatcher has handed the supervisor up to a
  \<open>RUN\<close> request are single lines (\<open>trusted\<close>, the dispatcher's contract that C5 rests on too): a run started
  with the seed of the spawn requested, whatever that run is answered, only ever asks for tool calls that the
  capabilities of the agent's own template grant. On the run's own answers there is no condition.\<close>

theorem tools_within_ceiling:
  assumes "agent_life seed h inp loads cp" "play (supervise n seed inp) (loads @ as) = (g, out)"
    and "j < length g" "g ! j = (run_kind, i, a)" "trusted (h @ take j g)"
    and "run_request_decode i = Inr (Req_Spawn goal s)" "input_capabilities rinp = Some (sd_capabilities s)"
    and "play (run_workflow k rinp :: ('al, 'r) run_flow) ras = (rh, rout)" "m < length rh" "rh ! m = (tool_kind, ti, ta)"
  shows "\<exists>tq c. tool_request_decode ti = Inr tq \<and> carries c tq \<and>
    granted (sd_capabilities (as_template seed)) (tq_tool tq) (tl_args c)"
proof -
  have "drive_allowed seed (run_log (h @ take j g)) (Req_Spawn goal s)"
    using life_request [OF assms(1-4)] assms(5,6) by (simp add: agent_request_def)
  then have "\<not> widens (sd_capabilities s) (sd_capabilities (as_template seed))"
    by (simp add: drive_allowed_def spawn_allowed_def)
  moreover obtain tq c where "tool_request_decode ti = Inr tq" "carries c tq" "granted (sd_capabilities s) (tq_tool tq) (tl_args c)"
    using workflow_played(1) [OF assms(8-10)] assms(7) by (auto simp: run_request_def tool_request_allowed_def)
  ultimately show ?thesis using granted_within by blast
qed

theorem tools_within_ceiling_witness:
  "\<exists>g out goal s i a rh rout ti tq c.
    play (supervise 1 demo_agent (first_input demo_agent)) ([] @ demo_record) = (g, out) \<and> trusted ([] @ take 2 g) \<and>
    g ! 2 = (run_kind, i, a) \<and> run_request_decode i = Inr (Req_Spawn goal s) \<and>
    input_capabilities demo_input = Some (sd_capabilities s) \<and>
    play (run_workflow demo_kernel demo_input :: (u32, unit) run_flow) demo_answers = (rh, rout) \<and>
    rh ! 2 = (tool_kind, ti, demo_answers ! 2) \<and> tool_request_decode ti = Inr tq \<and> carries c tq \<and>
    granted (sd_capabilities (as_template demo_agent)) (tq_tool tq) (tl_args c)"
proof (rule demo_supervised)
  fix g p st n
  assume run: "play (supervise 1 demo_agent (first_input demo_agent)) ([] @ demo_record) = (g, Ended (A_Continued p st))"
    and e: "g ! 2 = (run_kind, run_request_enc (Req_Spawn (GoalId 1) (spawned_seed n)), Ans_Completed (run_report_enc Rep_Parked))"
    and len: "length g = 4" and tr: "trusted g" and dec: "run_request_decode (run_request_enc (Req_Spawn (GoalId 1) (spawned_seed n))) =
      Inr (Req_Spawn (GoalId 1) (spawned_seed n))"
  obtain x p' st' where rrun: "play (run_workflow demo_kernel demo_input :: (u32, unit) run_flow) demo_answers =
      (demo_events x, Ended (Completed p' st'))"
    using demo_run by blast
  have two: "2 < length (demo_events x)" "\<exists>i. demo_events x ! 2 = (tool_kind, i, demo_answers ! 2)"
    by (cases x; simp add: demo_events_def)+
  then obtain i where re: "demo_events x ! 2 = (tool_kind, i, demo_answers ! 2)" by blast
  have caps: "input_capabilities demo_input = Some (sd_capabilities (spawned_seed n))"
    by (simp add: input_capabilities_def demo_input_decode spawned_seed_def demo_capabilities_def)
  have tr2: "trusted ([] @ take 2 g)" using tr by (auto simp: trusted_def list_all_iff dest: in_set_takeD)
  have "2 < length g" using len by simp
  from tools_within_ceiling [OF life_first run this e tr2 dec caps rrun two(1) re]
  show ?thesis using run tr2 e dec caps rrun re by blast
qed

text \<open>C7: goals live within their envelopes. As long as the notes the dispatcher has handed the supervisor are
  single lines (\<open>trusted\<close>, the dispatcher's contract: a note with a line break would make a \<open>RUN\<close> request the
  dispatcher cannot read), and whatever else it is answered: in the state its beats leave, for every goal and both metered units, what its spawned runs were granted and what remains make exactly the
  envelope and what settled runs gave back; no goal got back more than its runs were granted, and the
  runs spawned for it came out of its run count one by one.\<close>

theorem goals_within_envelopes:
  assumes "agent_life seed h inp loads cp" "play (supervise n seed inp) (loads @ as) = (g, out)"
    and "out = Returned st \<or> out = Ended (A_Continued p st)" "trusted (h @ g)"
    and "goal \<in> set (ledger_goals (cp_ledger (ag_checkpoint st)))"
  shows "spent_on k (g_id goal) (run_log (h @ g)) + remaining_of k goal =
      granted_of k goal + given_back k (g_id goal) (run_log (h @ g)) \<and>
    given_back k (g_id goal) (run_log (h @ g)) \<le> spent_on k (g_id goal) (run_log (h @ g)) \<and>
    spawn_count (g_id goal) (run_log (h @ g)) + unat (rm_runs (g_remaining goal)) = unat (en_runs (g_envelope goal))"
proof -
  have bal: "agent_wf None (ag_checkpoint st)" "agent_books (sd_capabilities (as_template seed)) (run_log (h @ g)) (ag_checkpoint st)"
    using life_state [OF assms(1-3)] assms(4) by (simp_all add: balanced_def)
  then have bk: "booked (sd_capabilities (as_template seed)) (run_log (h @ g)) goal" and "goal_ok goal"
    using assms(5) by (auto simp: agent_books_def agent_wf_def ledger_ok_def)
  then have "remaining_of k goal \<le> granted_of k goal"
    unfolding goal_ok_def check_envelope_iff outstanding_def by (meson add_leE)
  moreover have "spent_on k (g_id goal) (run_log (h @ g)) + remaining_of k goal =
      granted_of k goal + given_back k (g_id goal) (run_log (h @ g))" using bk by (simp add: booked_def)
  moreover have "spawn_count (g_id goal) (run_log (h @ g)) + unat (rm_runs (g_remaining goal)) = unat (en_runs (g_envelope goal))"
    using bk by (simp add: booked_def)
  ultimately show ?thesis by linarith
qed

theorem goals_within_envelopes_witness:
  "\<exists>g out p st goal. play (supervise 1 demo_agent (first_input demo_agent)) ([] @ demo_record) = (g, out) \<and>
     out = Ended (A_Continued p st) \<and> trusted ([] @ g) \<and> goal \<in> set (ledger_goals (cp_ledger (ag_checkpoint st))) \<and>
     spent_on GU_Turns (g_id goal) (run_log ([] @ g)) + remaining_of GU_Turns goal =
     granted_of GU_Turns goal + given_back GU_Turns (g_id goal) (run_log ([] @ g))"
proof (rule demo_supervised)
  fix g p st n
  assume run: "play (supervise 1 demo_agent (first_input demo_agent)) ([] @ demo_record) = (g, Ended (A_Continued p st))"
    and tr: "trusted g" and goals: "ledger_goals (cp_ledger (ag_checkpoint st)) = [demo_parked n]"
  have "demo_parked n \<in> set (ledger_goals (cp_ledger (ag_checkpoint st)))" by (simp add: goals)
  moreover have "trusted ([] @ g)" using tr by simp
  ultimately show ?thesis using goals_within_envelopes [OF life_first run disjI2 [OF refl], where k = GU_Turns] run by blast
qed

text \<open>C8: continuing as new is invisible. A supervisor continues only after every item of its checkpoint was
  stored under its digest and acknowledged, and the next segment, whose loads return what was stored,
  loads exactly those items and then asks, waits, faults and continues exactly as the state it left
  would have gone on, for any further answers.\<close>

theorem continuation_is_invisible:
  assumes "agent_life seed h inp loads cp" "play (supervise n seed inp) (loads @ as) = (g, Ended (A_Continued p st))"
  shows "stored (ag_checkpoint st) g \<and>
    (case play (supervise_beats m seed (agent_digest seed) st) bs of (g1, out1) \<Rightarrow>
       \<exists>out2. play (supervise m seed p) (map Ans_Completed (item_list (ag_checkpoint st)) @ bs) =
           (load_events (hd_digest (checkpoint_header (ag_checkpoint st))) 0 (item_list (ag_checkpoint st)) @ g1, out2) \<and>
         agent_view out2 = agent_view out1)"
proof (cases rule: life_segment [OF assms])
  case (2 ls g')
  have "balanced seed False None (run_log []) [] cp" using 2(2) by (simp add: balanced_def)
  from played_beats [OF _ 2(4), of False "[]"] this
  have "agent_ended seed False (agent_digest seed) g' (A_Continued p st)" by simp
  then have st: "stored (ag_checkpoint st) g'" "checkpoint_ok (ag_checkpoint st)"
    and p: "p = start_enc (agent_digest seed) (checkpoint_header (ag_checkpoint st))"
    using agent_wf_checkpoint by (auto simp: agent_ended_def balanced_def)
  then have start: "segment_start seed p (map Ans_Completed (item_list (ag_checkpoint st))) (ag_checkpoint st)
      (load_events (hd_digest (checkpoint_header (ag_checkpoint st))) 0 (item_list (ag_checkpoint st)))"
    by (simp add: segment_start_def)
  obtain g1 out1 where play1: "play (supervise_beats m seed (agent_digest seed) st) bs = (g1, out1)" by fastforce
  have "map_flow ending_view ag_checkpoint (supervise_beats m seed (agent_digest seed) (resumed (ag_checkpoint st))) =
      map_flow ending_view ag_checkpoint (supervise_beats m seed (agent_digest seed) st)"
    by (rule beats_view) simp
  from arg_cong [where f = "\<lambda>m. play m bs", OF this]
  obtain out2 where "play (supervise_beats m seed (agent_digest seed) (resumed (ag_checkpoint st))) bs = (g1, out2)"
    "agent_view out2 = agent_view out1"
    by (cases "play (supervise_beats m seed (agent_digest seed) (resumed (ag_checkpoint st))) bs")
      (simp add: play_map_flow play1 agent_view_def)
  then have "\<exists>out2. play (supervise m seed p) (map Ans_Completed (item_list (ag_checkpoint st)) @ bs) =
      (load_events (hd_digest (checkpoint_header (ag_checkpoint st))) 0 (item_list (ag_checkpoint st)) @ g1, out2) \<and>
      agent_view out2 = agent_view out1"
    unfolding supervise_play [OF start] 2(5) by simp
  moreover have "stored (ag_checkpoint st) g" using st(1) 2(1) by (simp add: stored_def)
  ultimately show ?thesis using play1 by simp
qed simp

theorem continuation_is_invisible_witness:
  "\<exists>p st g. play (supervise 1 demo_agent (first_input demo_agent)) ([] @ demo_record) = (g, Ended (A_Continued p st)) \<and>
     stored (ag_checkpoint st) g \<and> item_count (ag_checkpoint st) \<ge> 1"
proof (rule demo_supervised)
  fix g p st n
  assume run: "play (supervise 1 demo_agent (first_input demo_agent)) ([] @ demo_record) = (g, Ended (A_Continued p st))"
    and goals: "ledger_goals (cp_ledger (ag_checkpoint st)) = [demo_parked n]"
  from continuation_is_invisible [OF life_first run, of 0 "[]"] run goals show ?thesis
    by (auto simp: item_count_def)
qed

text \<open>C9: beats always come to an end. A segment of a supervisor's life asks for at most forty loads and
  forty-nine activities a beat (the wait, the sense, one run, six harvested entries, forty stores), so a
  record with that many answers is never left waiting: the beats went by, the supervisor continued as
  new, or it stopped on a fault.\<close>

theorem beats_come_to_an_end:
  assumes "agent_life seed h inp loads cp" "play (supervise n seed inp) (loads @ as) = (g, out)"
  shows "length g \<le> 40 + 49 * n \<and> (49 * n \<le> length as \<longrightarrow> (\<forall>k i. out \<noteq> Outstanding k i))"
proof (cases rule: life_segment [OF assms])
  case (2 ls g')
  have wf: "agent_wf None cp" using 2(2) by (simp add: balanced_def)
  have loads: "length ls \<le> 40"
  proof -
    obtain ls' where start: "segment_start seed inp loads cp ls'" using life_started [OF assms(1)] by blast
    have "length (load_events d k is) = length is" for d k "is" by (induction "is" arbitrary: k) auto
    moreover have "checkpoint_ok cp" using wf agent_wf_checkpoint by blast
    ultimately have "length ls' \<le> 40"
      using start checkpoint_lengths [of cp] by (auto simp: segment_start_def length_item_list item_count_def)
    moreover have "length ls = length ls'"
      using assms(2) 2(1,4,5) unfolding supervise_play [OF start] by simp
    ultimately show ?thesis by simp
  qed
  then show ?thesis using short_play [OF short_beats [of "resumed cp"] 2(4)] wf 2(1) by simp
qed auto

theorem beats_come_to_an_end_witness:
  "\<exists>g p st. play (supervise 1 demo_agent (first_input demo_agent)) ([] @ demo_record) = (g, Ended (A_Continued p st)) \<and>
     length g \<le> 89"
proof (rule demo_supervised)
  fix g p st n
  assume run: "play (supervise 1 demo_agent (first_input demo_agent)) ([] @ demo_record) = (g, Ended (A_Continued p st))"
  from beats_come_to_an_end [OF life_first run] run show ?thesis by auto
qed

text \<open>C22: a refused command changes nothing. When applying an operator command to a well-formed state fails,
  for whatever reason, the state is the one before it.\<close>

theorem refused_commands_change_nothing:
  assumes "agent_wf None cp" "apply_command seed b c cp = (cp', Inl e)"
  shows "cp' = cp"
proof (cases c)
  case (Cmd_Control i event)
  let ?l = "cp_ledger cp"
  have lok: "ledger_ok ?l" using assms(1) by (simp add: agent_wf_def)
  obtain l' e' where run: "ledger_control ?l i event b = (l', Inl e')" and cp': "cp' = cp\<lparr>cp_ledger := l'\<rparr>"
    using assms(2) Cmd_Control by (cases "ledger_control ?l i event b"; cases "snd (ledger_control ?l i event b)")
      (auto simp: apply_command_def)
  show ?thesis
  proof (cases "ledger_get ?l i")
    case None
    then show ?thesis using run cp' by (simp add: ledger_control_def on_goal_unknown)
  next
    case (Some g)
    obtain g' r where f: "control_goal event b g = (g', r)" by fastforce
    note g = wf_goal [OF assms(1) Some]
    note eff = control_goal_effect [OF _ f, OF g [THEN conjunct2, THEN conjunct2, THEN conjunct1]]
    note rep = on_goal_replaced [where f = "control_goal event b", OF lok Some f conjunct1 [OF eff]]
    have "g' = g" using f rep run
      by (auto simp: ledger_control_def control_goal_def Let_def split: if_splits sum.splits)
    moreover have "map (\<lambda>h. if g_id h = i then g else h) (ledger_goals ?l) = ledger_goals ?l"
      using Some ledger_get_iff [OF lok] g by (intro map_idI) (metis option.inject)
    ultimately have "ledger_goals l' = ledger_goals ?l" "gl_next_id l' = gl_next_id ?l" "ledger_ok l'"
      using rep run by (auto simp: replaced_def ledger_control_def)
    then have "l' = ?l" using lok by (cases l'; cases ?l) (simp add: ledger_ok_def ledger_goals_def)
    then show ?thesis using cp' by simp
  qed
next
  case (Cmd_Forget d)
  then show ?thesis using assms(2)
    by (auto simp: apply_command_def memory_forget_def split: if_splits prod.splits)
qed (use assms(2) in \<open>auto simp: apply_command_def split: sum.splits\<close>)

theorem refused_commands_change_nothing_witness:
  "\<exists>e. apply_command demo_agent (Beat 1) (Cmd_Control (GoalId 1) GE_Pause) checkpoint_new = (checkpoint_new, Inl e)"
proof -
  have get: "ledger_get ledger_new (GoalId 1) = None" using ledger_new_live by (simp add: ledger_get_None)
  then obtain e cp' where run: "apply_command demo_agent (Beat 1) (Cmd_Control (GoalId 1) GE_Pause) checkpoint_new = (cp', Inl e)"
    by (simp add: apply_command_def ledger_control_def on_goal_unknown checkpoint_new_def)
  then show ?thesis using refused_commands_change_nothing [OF agent_wf_new run] by simp
qed

end
