(* ===== verification/Operator.thy ===== *)
theory Operator
  imports Agent_Safety
begin

text \<open>
  The operator channel of the board (\<open>esper-board/src/operator.rs\<close>): a line protocol over the UART. A
  finished line becomes a supervisor command, delivered by the next \<open>SENSE\<close>, or typed input for a goal's
  parked run, delivered by that run's \<open>ASK\<close>. The theory models the channel as it stands, gives the exact
  grammar of a line, an abstract channel (a queue of commands and a map of typed inputs) that it
  implements, and shows that every \<open>SENSE\<close> answer it produces is one the supervisor's guarantees rely on.
\<close>

section \<open>The channel\<close>

definition line_max :: nat where "line_max = 160"
definition input_slots :: nat where "input_slots = 4"

datatype too_long = TooLong

datatype reply = Queued | Held goal_id | Refused string

record operator =
  op_line :: bytes
  op_len :: nat
  op_overrun :: bool
  op_commands :: "command option list"
  op_inputs :: "(goal_id \<times> bytes \<times> nat) option list"
  op_selected :: "goal_id option"
  op_envelope :: envelope
  op_capabilities :: capabilities

definition operator_new :: "envelope \<Rightarrow> capabilities \<Rightarrow> operator" where
  "operator_new envelope caps =
     \<lparr>op_line = replicate line_max 0, op_len = 0, op_overrun = False, op_commands = replicate max_commands None,
      op_inputs = replicate input_slots None, op_selected = None, op_envelope = envelope, op_capabilities = caps\<rparr>"

subsection \<open>Words of a line\<close>

text \<open>\<open>iter().rposition(p)\<close>.\<close>

definition rposition :: "('a \<Rightarrow> bool) \<Rightarrow> 'a list \<Rightarrow> nat option" where
  "rposition p xs = map_option (\<lambda>i. length xs - 1 - i) (position p (rev xs))"

definition space :: u8 where "space = 0x20"

definition trim :: "bytes \<Rightarrow> bytes" where
  "trim bs =
     (let first = (case position (\<lambda>b. b \<noteq> space) bs of Some i \<Rightarrow> i | None \<Rightarrow> length bs);
          last = (case rposition (\<lambda>b. b \<noteq> space) bs of Some i \<Rightarrow> i + 1 | None \<Rightarrow> first)
      in case slice bs first last of Some t \<Rightarrow> t | None \<Rightarrow> [])"

definition split_word :: "bytes \<Rightarrow> bytes \<times> bytes" where
  "split_word bs0 =
     (let bs = trim bs0 in
      case position (\<lambda>b. b = space) bs of
        None \<Rightarrow> (bs, [])
      | Some at \<Rightarrow>
          (case slice bs 0 at of Some w \<Rightarrow> w | None \<Rightarrow> [],
           trim (case slice bs at (length bs) of Some r \<Rightarrow> r | None \<Rightarrow> [])))"

definition digit :: "bytes \<Rightarrow> u8 option" where
  "digit bs = (case bs of [d] \<Rightarrow> if 0x30 \<le> d \<and> d \<le> 0x39 then Some (d - 0x30) else None | _ \<Rightarrow> None)"

fun goal_id_value :: "u32 \<Rightarrow> bytes \<Rightarrow> u32 option" where
  "goal_id_value v [] = Some v"
| "goal_id_value v (b # bs) =
     (case checked_sub b 0x30 of
        Some d \<Rightarrow> if d \<le> 9 then goal_id_value (v * 10 + ucast d) bs else None
      | None \<Rightarrow> None)"

definition parse_goal_id :: "bytes \<Rightarrow> goal_id option" where
  "parse_goal_id bs =
     (if bs = [] \<or> 5 < length bs then None
      else Option.bind (goal_id_value 0 bs) (\<lambda>v. Option.bind (try_from (unat v)) goal_id_new))"

subsection \<open>Lines\<close>

definition queue_command :: "wire_error + command \<Rightarrow> operator \<Rightarrow> operator \<times> reply" where
  "queue_command m op =
     (case m of
        Inl _ \<Rightarrow> (op, Refused ''the command does not fit'')
      | Inr c \<Rightarrow>
          (case fill_free c (op_commands op) of
             None \<Rightarrow> (op, Refused ''commands are full until the next beat'')
           | Some cs \<Rightarrow> (op\<lparr>op_commands := cs\<rparr>, Queued)))"

definition waiting :: "goal_id \<Rightarrow> (goal_id \<times> bytes \<times> nat) option \<Rightarrow> bool" where
  "waiting g slot = (case slot of Some (w, _) \<Rightarrow> w = g | None \<Rightarrow> False)"

text \<open>A newer line for the same goal replaces the older one.\<close>

definition hold :: "goal_id \<Rightarrow> bytes \<Rightarrow> operator \<Rightarrow> operator \<times> reply" where
  "hold g words op =
     (case splice (replicate line_max 0) 0 words of
        None \<Rightarrow> (op, Refused ''input too long'')
      | Some held \<Rightarrow>
          (let slots = op_inputs op in
           case (case position (waiting g) slots of
                   Some i \<Rightarrow> Some i
                 | None \<Rightarrow> position (\<lambda>s. s = None) slots) of
             None \<Rightarrow> (op, Refused ''inputs are full'')
           | Some i \<Rightarrow> (op\<lparr>op_inputs := slots[i := Some (g, held, length words)]\<rparr>, Held g)))"

definition control_event :: "bytes \<Rightarrow> goal_event option" where
  "control_event verb =
     (if verb = str_bytes ''pause'' then Some GE_Pause
      else if verb = str_bytes ''unpause'' then Some GE_Unpause
      else if verb = str_bytes ''retire'' then Some GE_Retire
      else None)"

text \<open>What a line of words does.\<close>

definition obey :: "bytes \<Rightarrow> bytes \<Rightarrow> operator \<Rightarrow> operator \<times> reply" where
  "obey verb rest op =
     (if verb = [] then (op, Refused ''empty line'')
      else if verb = str_bytes ''goal'' then
        (case split_word rest of (priority, objective) \<Rightarrow>
           case digit priority of
             Some p \<Rightarrow>
               if objective \<noteq> []
               then queue_command (command_add_goal objective p Once (op_envelope op) (op_capabilities op)) op
               else (op, Refused ''usage: goal <0-9> <objective>'')
           | None \<Rightarrow> (op, Refused ''usage: goal <0-9> <objective>''))
      else if verb = str_bytes ''say'' then
        (case split_word rest of (goal, words) \<Rightarrow>
           case parse_goal_id goal of
             Some g \<Rightarrow> if words \<noteq> [] then hold g words op else (op, Refused ''usage: say <goal> <text>'')
           | None \<Rightarrow> (op, Refused ''usage: say <goal> <text>''))
      else case control_event verb of
        Some event \<Rightarrow>
          (case parse_goal_id (trim rest) of
             Some g \<Rightarrow> queue_command (Inr (Cmd_Control g event)) op
           | None \<Rightarrow> (op, Refused ''usage: pause|unpause|retire <goal>''))
      | None \<Rightarrow>
          if verb = str_bytes ''remember'' then
            (case split_word rest of (name, v) \<Rightarrow>
               if name = [] \<or> v = [] then (op, Refused ''usage: remember <name> <value>'')
               else queue_command (command_remember name v) op)
          else if verb = str_bytes ''forget'' then
            (if trim rest = [] then (op, Refused ''usage: forget <name>'')
             else queue_command (Inr (command_forget (trim rest))) op)
          else (op, Refused ''unknown command''))"

definition finish_line :: "operator \<Rightarrow> operator \<times> reply" where
  "finish_line op =
     (case slice (op_line op) 0 (op_len op) of
        None \<Rightarrow> (op, Refused ''line too long'')
      | Some line \<Rightarrow> (case split_word (trim line) of (verb, rest) \<Rightarrow> obey verb rest op))"

definition feed :: "u8 \<Rightarrow> operator \<Rightarrow> operator \<times> reply option" where
  "feed byte op =
     (if byte = 0x0d then (op, None)
      else if byte = 0x0a then
        (case (if op_overrun op then (op, Refused ''line too long'') else finish_line op) of
           (op', r) \<Rightarrow> (op'\<lparr>op_len := 0, op_overrun := False\<rparr>, Some r))
      else if op_len op < length (op_line op) \<and> \<not> op_overrun op then
        (op\<lparr>op_line := (op_line op)[op_len op := byte], op_len := op_len op + 1\<rparr>, None)
      else (op\<lparr>op_overrun := True\<rparr>, None))"

subsection \<open>Sensing and asking\<close>

fun sense_inputs :: "(goal_id \<times> bytes \<times> nat) list \<Rightarrow> sense \<Rightarrow> wire_error + sense" where
  "sense_inputs [] s = Inr s"
| "sense_inputs ((g, _) # rest) s = and_then (sense_ready s g) (sense_inputs rest)"

text \<open>Each command is taken from its slot before it is added; the first that does not fit ends the loop.\<close>

fun hand_over :: "command option list \<Rightarrow> sense \<Rightarrow> command option list \<times> (wire_error + sense)" where
  "hand_over [] s = ([], Inr s)"
| "hand_over (None # cs) s = (case hand_over cs s of (cs', r) \<Rightarrow> (None # cs', r))"
| "hand_over (Some c # cs) s =
     (case sense_command s c of
        Inl e \<Rightarrow> (None # cs, Inl e)
      | Inr s' \<Rightarrow> (case hand_over cs s' of (cs', r) \<Rightarrow> (None # cs', r)))"

definition operator_sense :: "u64 \<Rightarrow> operator \<Rightarrow> operator \<times> (wire_error + sense)" where
  "operator_sense now op =
     (case sense_inputs (flatten (op_inputs op)) (sense_at now) of
        Inl e \<Rightarrow> (op, Inl e)
      | Inr s \<Rightarrow> (case hand_over (op_commands op) s of (cs, r) \<Rightarrow> (op\<lparr>op_commands := cs\<rparr>, r)))"

definition operator_select :: "goal_id \<Rightarrow> operator \<Rightarrow> operator" where
  "operator_select g op = op\<lparr>op_selected := Some g\<rparr>"

definition take_input :: "bytes \<Rightarrow> operator \<Rightarrow> operator \<times> (too_long + (bytes \<times> nat) option)" where
  "take_input out op =
     (case op_selected op of
        None \<Rightarrow> (op, Inr None)
      | Some g \<Rightarrow>
          (case position (waiting g) (op_inputs op) of
             None \<Rightarrow> (op, Inr None)
           | Some i \<Rightarrow>
               (case op_inputs op ! i of
                  None \<Rightarrow> (op, Inr None)
                | Some (_, held, len) \<Rightarrow>
                    (case slice held 0 len of
                       None \<Rightarrow> (op, Inl TooLong)
                     | Some words \<Rightarrow>
                         (case splice out 0 words of
                            None \<Rightarrow> (op, Inl TooLong)
                          | Some out' \<Rightarrow> (op\<lparr>op_inputs := (op_inputs op)[i := None]\<rparr>, Inr (Some (out', length words))))))))"

section \<open>Words\<close>

lemma first_position:
  "position p bs = Some i \<longleftrightarrow> i < length bs \<and> p (bs ! i) \<and> (\<forall>x \<in> set (take i bs). \<not> p x)"
  by (auto simp: position_Some_iff all_set_conv_all_nth)

text \<open>A line without a space at either end.\<close>

definition trimmed :: "bytes \<Rightarrow> bool" where
  "trimmed bs \<longleftrightarrow> bs = [] \<or> hd bs \<noteq> space \<and> last bs \<noteq> space"

lemma trim_spec: "trim (replicate i space @ t @ replicate k space) = t" if "trimmed t"
proof (cases "t = []")
  case True
  have "position (\<lambda>b. b \<noteq> space) (replicate n space) = None" for n by (simp add: position_None_iff)
  then show ?thesis by (simp add: True trim_def rposition_def slice_def flip: replicate_add)
next
  case False
  let ?l = "replicate i space @ t @ replicate k space"
  have "position (\<lambda>b. b \<noteq> space) ?l = Some i"
    using that False by (auto simp: first_position nth_append trimmed_def hd_conv_nth)
  moreover have "position (\<lambda>b. b \<noteq> space) (rev ?l) = Some k"
    using that False by (auto simp: first_position nth_append trimmed_def rev_nth last_conv_nth)
  ultimately show ?thesis using False
    by (cases "length t") (auto simp: trim_def rposition_def slice_def Let_def)
qed

lemma trim_form: "\<exists>i k. bs = replicate i space @ trim bs @ replicate k space \<and> trimmed (trim bs)"
proof -
  define a where "a = takeWhile ((=) space) bs"
  define m where "m = dropWhile ((=) space) bs"
  define k where "k = takeWhile ((=) space) (rev m)"
  define t where "t = rev (dropWhile ((=) space) (rev m))"
  have reps: "a = replicate (length a) space" "rev k = replicate (length k) space"
    by (auto simp: a_def k_def intro!: replicate_eqI dest: set_takeWhileD)
  have "bs = a @ m" "m = t @ rev k"
    unfolding a_def m_def t_def k_def by (simp_all flip: rev_append)
  then have eq: "bs = replicate (length a) space @ t @ replicate (length k) space"
    using reps by metis
  have "t = [] \<or> last t \<noteq> space"
    unfolding t_def using hd_dropWhile [of "(=) space" "rev m"] by (metis last_rev rev_is_Nil_conv)
  moreover have "t = [] \<or> hd t \<noteq> space"
  proof (cases "t = []")
    case False
    then have "hd m = hd t" "m \<noteq> []" using \<open>m = t @ rev k\<close> by auto
    then show ?thesis using hd_dropWhile [of "(=) space" bs] unfolding m_def by auto
  qed simp
  ultimately have "trimmed t" by (auto simp: trimmed_def)
  then show ?thesis using trim_spec [of t "length a" "length k"] eq by metis
qed

lemma trim_trimmed [simp]: "trimmed (trim bs)"
  using trim_form by blast

lemma trim_id [simp]: "trimmed t \<Longrightarrow> trim t = t"
  using trim_spec [of t 0 0] by simp

text \<open>A line of a word and the rest of the line.\<close>

definition line_of :: "bytes \<Rightarrow> bytes \<Rightarrow> bytes \<Rightarrow> bool" where
  "line_of w r bs \<longleftrightarrow> space \<notin> set w \<and> trimmed r \<and> (w = [] \<longrightarrow> r = []) \<and>
     (\<exists>i j k. bs = replicate i space @ w @ (if r = [] then [] else replicate (Suc j) space @ r) @ replicate k space)"

lemma line_of_split: "line_of w r bs \<Longrightarrow> split_word bs = (w, r)"
proof -
  assume l: "line_of w r bs"
  then obtain i j k where bs: "bs = replicate i space @ w @ (if r = [] then [] else replicate (Suc j) space @ r) @ replicate k space"
    and w: "space \<notin> set w" and r: "trimmed r" "w = [] \<longrightarrow> r = []" by (auto simp: line_of_def)
  show ?thesis
  proof (cases "r = []")
    case True
    have "trimmed w" using w by (auto simp: trimmed_def dest: hd_in_set last_in_set)
    then have "trim bs = w" using bs True trim_spec [of w i k] by simp
    moreover have "position (\<lambda>b. b = space) w = None" using w by (auto simp: position_None_iff)
    ultimately show ?thesis by (simp add: split_word_def True)
  next
    case False
    let ?t = "w @ replicate (Suc j) space @ r"
    have "trimmed ?t" using w r False by (auto simp: trimmed_def dest: hd_in_set)
    then have "trim bs = ?t" using bs False trim_spec [of ?t i k] by simp
    moreover have "position (\<lambda>b. b = space) ?t = Some (length w)" using w by (auto simp: first_position)
    moreover have "trim (replicate (Suc j) space @ r) = r" using trim_spec [OF r(1), of "Suc j" 0] by simp
    ultimately show ?thesis by (simp add: split_word_def slice_def)
  qed
qed

lemma split_line_of: "split_word bs = (w, r) \<Longrightarrow> line_of w r bs"
proof -
  assume s: "split_word bs = (w, r)"
  obtain i k where bs: "bs = replicate i space @ trim bs @ replicate k space" using trim_form by blast
  have t: "trimmed (trim bs)" by simp
  show "line_of w r bs"
  proof (cases "position (\<lambda>b. b = space) (trim bs)")
    case None
    then have r: "r = []" and w: "trim bs = w" using s by (auto simp: split_word_def)
    have "\<exists>i j k. bs = replicate i space @ w @ (if r = [] then [] else replicate (Suc j) space @ r) @ replicate k space"
      by (rule exI [of _ i], rule exI [of _ 0], rule exI [of _ k]) (use bs [unfolded w] r in simp)
    moreover have "space \<notin> set w" using None by (auto simp: w position_None_iff)
    ultimately show ?thesis by (simp only: line_of_def) (simp add: r trimmed_def)
  next
    case (Some at)
    let ?a = "take at (trim bs)" and ?b = "drop at (trim bs)"
    have at: "at < length (trim bs)" "trim bs ! at = space" "space \<notin> set ?a" using Some by (auto simp: first_position)
    have wr: "w = ?a" "r = trim ?b" using s Some at by (auto simp: split_word_def slice_def Let_def)
    have b: "hd ?b = space" "?b \<noteq> []" "last ?b = last (trim bs)" using at by (auto simp: hd_drop_conv_nth)
    have ne: "at \<noteq> 0" using at(1,2) t by (intro notI) (cases "trim bs", auto simp: trimmed_def)
    obtain j k' where j: "?b = replicate j space @ r @ replicate k' space" "trimmed r" using trim_form wr(2) by blast
    have "last ?b \<noteq> space" using b t at by (auto simp: trimmed_def)
    then have "k' = 0" using j(1) by (cases k') (auto simp: replicate_append_same [symmetric] simp del: replicate_Suc)
    moreover have "r \<noteq> []"
      using j \<open>last ?b \<noteq> space\<close> b(2) calculation by (cases j) (auto simp: replicate_append_same [symmetric] simp del: replicate_Suc)
    moreover from this have "j \<noteq> 0" using j b(1) by (cases j) (auto simp: trimmed_def)
    then obtain j' where "j = Suc j'" using not0_implies_Suc by blast
    ultimately have eq: "trim bs = w @ replicate (Suc j') space @ r"
      using j(1) wr(1) append_take_drop_id [of at "trim bs"] by simp
    have "w \<noteq> []" using ne at(1) wr(1) by (cases "trim bs") auto
    have "\<exists>i j k. bs = replicate i space @ w @ (if r = [] then [] else replicate (Suc j) space @ r) @ replicate k space"
      by (rule exI [of _ i], rule exI [of _ j'], rule exI [of _ k]) (use bs [unfolded eq] \<open>r \<noteq> []\<close> in simp)
    then show ?thesis using at(3) [folded wr(1)] j(2) \<open>w \<noteq> []\<close> by (simp only: line_of_def) simp
  qed
qed

lemma split_word_iff: "split_word bs = (w, r) \<longleftrightarrow> line_of w r bs"
  using line_of_split split_line_of by blast

lemma split_trim: "split_word (trim bs) = split_word bs"
  by (simp add: split_word_def)

section \<open>What a line means\<close>

text \<open>A decimal number, most significant digit first.\<close>

definition decimal :: "bytes \<Rightarrow> nat" where
  "decimal bs = foldl (\<lambda>n b. n * 10 + unat (b - 0x30)) 0 bs"

lemma digit_value: "is_ascii_digit b \<longleftrightarrow> (\<exists>d. checked_sub b 0x30 = Some d \<and> d \<le> 9)"
proof -
  have "b - 0x30 \<le> 9 \<longleftrightarrow> b \<le> 0x39" if "0x30 \<le> b"
    using that unat_sub_exact [OF that] by (simp add: word_le_nat_alt) arith
  then show ?thesis by (auto simp: is_ascii_digit_def checked_sub_def)
qed

lemma goal_id_value_eq:
  "goal_id_value (of_nat n) bs =
     (if list_all is_ascii_digit bs then Some (of_nat (foldl (\<lambda>n b. n * 10 + unat (b - 0x30)) n bs)) else None)"
proof (induction bs arbitrary: n)
  case (Cons b bs)
  show ?case
  proof (cases "is_ascii_digit b")
    case True
    then obtain d where d: "checked_sub b 0x30 = Some d" "d \<le> 9" using digit_value by blast
    then have "d = b - 0x30" by (auto simp: checked_sub_def split: if_splits)
    then show ?thesis using True d Cons.IH [of "n * 10 + unat (b - 0x30)"] by simp
  next
    case False
    then show ?thesis using digit_value [of b] by (auto split: option.split)
  qed
qed simp

lemma decimal_bound: "list_all is_ascii_digit bs \<Longrightarrow> decimal bs < 10 ^ length bs"
proof -
  have "foldl (\<lambda>n b. n * 10 + unat (b - 0x30)) n bs < Suc n * 10 ^ length bs" if "list_all is_ascii_digit bs" for n
    using that
  proof (induction bs arbitrary: n)
    case (Cons b bs)
    have "unat (b - 0x30) \<le> 9" using Cons.prems digit_value [of b] by (auto simp: checked_sub_def word_le_nat_alt split: if_splits)
    then have le: "Suc (n * 10 + unat (b - 0x30)) * 10 ^ length bs \<le> (Suc n * 10) * 10 ^ length bs" by (intro mult_right_mono) auto
    have "foldl (\<lambda>n b. n * 10 + unat (b - 0x30)) (n * 10 + unat (b - 0x30)) bs < Suc (n * 10 + unat (b - 0x30)) * 10 ^ length bs"
      by (rule Cons.IH) (use Cons.prems in simp)
    from less_le_trans [OF this le] show ?case by (simp add: distrib_right mult.assoc)
  qed simp
  from this [of 0] show "list_all is_ascii_digit bs \<Longrightarrow> decimal bs < 10 ^ length bs" by (simp add: decimal_def)
qed

lemma parse_goal_id_iff:
  "parse_goal_id bs = Some g \<longleftrightarrow>
     bs \<noteq> [] \<and> length bs \<le> 5 \<and> list_all is_ascii_digit bs \<and> decimal bs = unat (goal_id_get g) \<and> goal_id_wire g"
proof (cases "bs \<noteq> [] \<and> length bs \<le> 5 \<and> list_all is_ascii_digit bs")
  case True
  then have "decimal bs < 10 ^ length bs" using decimal_bound by blast
  also have "(10 :: nat) ^ length bs \<le> 10 ^ 5" using True by (intro power_increasing) auto
  finally have "decimal bs < 2 ^ 32" by simp
  then have "unat (of_nat (decimal bs) :: u32) = decimal bs" by (simp add: unat_of_nat)
  moreover have "goal_id_value 0 bs = Some (of_nat (decimal bs))"
    using goal_id_value_eq [of 0 bs] True by (simp add: decimal_def)
  ultimately have "parse_goal_id bs = Option.bind (try_from (decimal bs)) goal_id_new"
    using True by (simp add: parse_goal_id_def)
  moreover have "Option.bind (try_from k) goal_id_new = Some g \<longleftrightarrow> k = unat (goal_id_get g) \<and> goal_id_wire g" for k
    unfolding bind_eq_Some_conv result_simps
    by (cases g) (auto simp: goal_id_new_def goal_id_wire_def split: if_splits)
  ultimately show ?thesis using True by simp
next
  case False
  then show ?thesis using goal_id_value_eq [of 0 bs] by (auto simp: parse_goal_id_def)
qed

text \<open>The grammar of the channel: the three control words, and the number that names a goal.\<close>

definition controls :: "bytes \<Rightarrow> goal_event \<Rightarrow> bool" where
  "controls verb event \<longleftrightarrow>
     (verb, event) \<in> {(str_bytes ''pause'', GE_Pause), (str_bytes ''unpause'', GE_Unpause), (str_bytes ''retire'', GE_Retire)}"

definition names_goal :: "bytes \<Rightarrow> goal_id \<Rightarrow> bool" where
  "names_goal number g \<longleftrightarrow>
     number \<noteq> [] \<and> length number \<le> 5 \<and> list_all is_ascii_digit number \<and>
     decimal number = unat (goal_id_get g) \<and> decimal number \<noteq> 0"

lemma names_goal_iff: "parse_goal_id bs = Some g \<longleftrightarrow> names_goal bs g"
  by (cases g) (auto simp: parse_goal_id_iff names_goal_def goal_id_wire_def unat_gt_0)

lemma controls_iff: "control_event verb = Some event \<longleftrightarrow> controls verb event"
proof -
  have "str_bytes ''pause'' \<noteq> str_bytes ''unpause''" "str_bytes ''pause'' \<noteq> str_bytes ''retire''"
    "str_bytes ''unpause'' \<noteq> str_bytes ''retire''"
    by code_simp+
  then show ?thesis by (auto simp: control_event_def controls_def)
qed

text \<open>The meaning of a line on a channel that gives its goals \<open>env\<close> and \<open>caps\<close>.\<close>

datatype line_meaning = Means_Command command | Means_Input goal_id bytes | Means_Nothing string

definition line_means :: "envelope \<Rightarrow> capabilities \<Rightarrow> bytes \<Rightarrow> line_meaning \<Rightarrow> bool" where
  "line_means env caps l m \<longleftrightarrow>
     (case m of
        Means_Command (Cmd_AddGoal obj p cadence env' caps') \<Rightarrow>
          (\<exists>rest b objective. line_of (str_bytes ''goal'') rest l \<and> line_of [b] objective rest \<and> is_ascii_digit b \<and>
             p = b - 0x30 \<and> objective \<noteq> [] \<and> ingest objective = Inr obj) \<and> cadence = Once \<and> env' = env \<and> caps' = caps
      | Means_Command (Cmd_Control g event) \<Rightarrow>
          (\<exists>verb number. line_of verb number l \<and> controls verb event \<and> names_goal number g)
      | Means_Command (Cmd_Remember d label val) \<Rightarrow>
          (\<exists>rest name v. line_of (str_bytes ''remember'') rest l \<and> line_of name v rest \<and> name \<noteq> [] \<and> v \<noteq> [] \<and>
             d = digest_of_bytes name \<and> ingest name = Inr label \<and> ingest v = Inr val)
      | Means_Command (Cmd_Forget d) \<Rightarrow>
          (\<exists>name. line_of (str_bytes ''forget'') name l \<and> name \<noteq> [] \<and> d = digest_of_bytes name)
      | Means_Input g words \<Rightarrow>
          (\<exists>rest number. line_of (str_bytes ''say'') rest l \<and> line_of number words rest \<and> names_goal number g \<and> words \<noteq> [])
      | Means_Nothing _ \<Rightarrow> True)"

lemmas line_means_spelt = line_means_def [unfolded controls_iff [symmetric] names_goal_iff [symmetric]]

lemma verbs:
  "control_event (str_bytes ''goal'') = None" "control_event (str_bytes ''say'') = None" "control_event [] = None"
  "control_event (str_bytes ''remember'') = None" "control_event (str_bytes ''forget'') = None"
  "str_bytes ''goal'' \<noteq> []" "str_bytes ''say'' \<noteq> []" "str_bytes ''remember'' \<noteq> []" "str_bytes ''forget'' \<noteq> []"
  "str_bytes ''say'' \<noteq> str_bytes ''goal''" "str_bytes ''remember'' \<noteq> str_bytes ''goal''"
  "str_bytes ''forget'' \<noteq> str_bytes ''goal''" "str_bytes ''remember'' \<noteq> str_bytes ''say''"
  "str_bytes ''forget'' \<noteq> str_bytes ''say''" "str_bytes ''forget'' \<noteq> str_bytes ''remember''"
  by code_simp+

lemmas verbs_apart = verbs verbs(10-15) [symmetric]

lemma line_of_unique: "line_of w r l \<Longrightarrow> line_of w' r' l \<Longrightarrow> w' = w \<and> r' = r"
  using line_of_split by (metis prod.inject)

lemma line_of_length: "line_of w r l \<Longrightarrow> length w + length r \<le> length l"
  by (auto simp: line_of_def)

lemma digit_iff: "digit w = Some p \<longleftrightarrow> (\<exists>b. w = [b] \<and> is_ascii_digit b \<and> p = b - 0x30)"
  by (auto simp: digit_def is_ascii_digit_def split: list.splits if_splits)

text \<open>The meaning as a function, and what obeying a line does.\<close>

definition command_meaning :: "wire_error + command \<Rightarrow> line_meaning" where
  "command_meaning m = (case m of Inl _ \<Rightarrow> Means_Nothing ''the command does not fit'' | Inr c \<Rightarrow> Means_Command c)"

definition line_meaning :: "envelope \<Rightarrow> capabilities \<Rightarrow> bytes \<Rightarrow> bytes \<Rightarrow> line_meaning" where
  "line_meaning env caps verb rest =
     (if verb = [] then Means_Nothing ''empty line''
      else if verb = str_bytes ''goal'' then
        (case digit (fst (split_word rest)) of
           Some p \<Rightarrow>
             if snd (split_word rest) \<noteq> [] then command_meaning (command_add_goal (snd (split_word rest)) p Once env caps)
             else Means_Nothing ''usage: goal <0-9> <objective>''
         | None \<Rightarrow> Means_Nothing ''usage: goal <0-9> <objective>'')
      else if verb = str_bytes ''say'' then
        (case parse_goal_id (fst (split_word rest)) of
           Some g \<Rightarrow> if snd (split_word rest) \<noteq> [] then Means_Input g (snd (split_word rest)) else Means_Nothing ''usage: say <goal> <text>''
         | None \<Rightarrow> Means_Nothing ''usage: say <goal> <text>'')
      else case control_event verb of
        Some event \<Rightarrow>
          (case parse_goal_id (trim rest) of
             Some g \<Rightarrow> Means_Command (Cmd_Control g event)
           | None \<Rightarrow> Means_Nothing ''usage: pause|unpause|retire <goal>'')
      | None \<Rightarrow>
          if verb = str_bytes ''remember'' then
            (if fst (split_word rest) = [] \<or> snd (split_word rest) = [] then Means_Nothing ''usage: remember <name> <value>''
             else command_meaning (command_remember (fst (split_word rest)) (snd (split_word rest))))
          else if verb = str_bytes ''forget'' then
            (if trim rest = [] then Means_Nothing ''usage: forget <name>''
             else Means_Command (command_forget (trim rest)))
          else Means_Nothing ''unknown command'')"

lemma obey_meaning:
  "obey verb rest op =
     (case line_meaning (op_envelope op) (op_capabilities op) verb rest of
        Means_Command c \<Rightarrow> queue_command (Inr c) op
      | Means_Input g words \<Rightarrow> hold g words op
      | Means_Nothing s \<Rightarrow> (op, Refused s))"
proof -
  have cm: "(case command_meaning m of Means_Command c \<Rightarrow> queue_command (Inr c) op | Means_Input g words \<Rightarrow> hold g words op
      | Means_Nothing s \<Rightarrow> (op, Refused s)) = queue_command m op" for m
    by (simp add: command_meaning_def queue_command_def split: sum.split)
  show ?thesis
    unfolding obey_def line_meaning_def case_prod_beta
    by (simp only: if_distrib [of "case_line_meaning _ _ _"] option.case_distrib [of "case_line_meaning _ _ _"] cm
        line_meaning.case)
qed

lemma command_meaning_iff: "command_meaning m = Means_Command c \<longleftrightarrow> m = Inr c" "command_meaning m \<noteq> Means_Input g words"
  by (simp_all add: command_meaning_def split: sum.split)

lemma line_meaning_input:
  assumes "line_of verb rest l"
  shows "line_meaning env caps verb rest = Means_Input g words \<longleftrightarrow> line_means env caps l (Means_Input g words)"
proof -
  have "line_means env caps l (Means_Input g words) \<longleftrightarrow> verb = str_bytes ''say'' \<and>
      parse_goal_id (fst (split_word rest)) = Some g \<and> snd (split_word rest) = words \<and> words \<noteq> []"
    using assms line_of_unique [OF assms]
    by (auto simp: line_means_spelt split_word_iff [symmetric]) (metis prod.collapse)
  then show ?thesis
    by (auto simp: line_meaning_def verbs command_meaning_iff split: option.split)
qed

lemma line_meaning_command:
  assumes l: "line_of verb rest l"
  shows "line_meaning env caps verb rest = Means_Command c \<longleftrightarrow> line_means env caps l (Means_Command c)"
proof -
  let ?w = "fst (split_word rest)" and ?r = "snd (split_word rest)"
  have sp: "line_of w r rest \<longleftrightarrow> ?w = w \<and> ?r = r" for w r
    using split_word_iff [of rest w r] by (metis prod.collapse fst_conv snd_conv)
  have verb: "line_of v r l \<longleftrightarrow> v = verb \<and> r = rest" for v r using l line_of_unique [OF l] by blast
  have trim: "trim rest = rest" using l by (simp add: line_of_def)
  have "verb = str_bytes ''goal'' \<longrightarrow> control_event verb = None" "verb = str_bytes ''say'' \<longrightarrow> control_event verb = None"
    "verb = str_bytes ''remember'' \<longrightarrow> control_event verb = None" "verb = str_bytes ''forget'' \<longrightarrow> control_event verb = None"
    "verb = [] \<longrightarrow> control_event verb = None"
    by (auto simp: verbs)
  then consider "verb = []" | "verb = str_bytes ''goal''" | "verb = str_bytes ''say''"
    | e where "control_event verb = Some e" "verb \<notin> {[], str_bytes ''goal'', str_bytes ''say'', str_bytes ''remember'', str_bytes ''forget''}"
    | "verb = str_bytes ''remember''" | "verb = str_bytes ''forget''"
    | "verb \<notin> {[], str_bytes ''goal'', str_bytes ''say'', str_bytes ''remember'', str_bytes ''forget''}" "control_event verb = None"
    by (cases "control_event verb") auto
  then show ?thesis
  proof cases
    case 2
    have "line_meaning env caps verb rest = Means_Command c \<longleftrightarrow> (\<exists>b n. ?w = [b] \<and> is_ascii_digit b \<and> ?r \<noteq> [] \<and>
        ingest ?r = Inr n \<and> c = Cmd_AddGoal n (b - 0x30) Once env caps)"
    proof (cases "digit ?w")
      case None
      then have "\<not> (\<exists>b. ?w = [b] \<and> is_ascii_digit b)" using digit_iff [of ?w] by (metis option.distinct(1))
      then show ?thesis using 2 None by (auto simp: line_meaning_def verbs)
    next
      case (Some p)
      then obtain b where b: "?w = [b]" "is_ascii_digit b" "p = b - 0x30" using digit_iff by blast
      show ?thesis
        by (simp add: 2 line_meaning_def verbs Some Some [unfolded b(1)] command_meaning_iff command_add_goal_def result_simps b eq_commute [of c])
    qed
    then show ?thesis
      by (cases c) (auto simp: line_means_spelt verb sp 2 verbs)
  next
    case 4
    then show ?thesis
      by (cases c) (auto simp: line_meaning_def line_means_spelt verb trim eq_commute [of verb] split: option.split)
  next
    case 5
    then show ?thesis
      by (cases c) (auto simp: line_meaning_def line_means_spelt verb sp verbs_apart command_meaning_iff command_remember_def result_simps)
  next
    case 6
    then show ?thesis
      by (cases c) (auto simp: line_meaning_def line_means_spelt verb trim verbs_apart command_forget_def)
  qed (cases c; auto simp: line_meaning_def line_means_spelt verb verbs command_meaning_iff eq_commute [of verb] split: option.split)+
qed

section \<open>The abstract channel\<close>

text \<open>The invariant of a channel, and the channel it stands for: the queue and the typed inputs.\<close>

definition input_ok :: "goal_id \<times> bytes \<times> nat \<Rightarrow> bool" where
  "input_ok x \<longleftrightarrow> (case x of (g, held, len) \<Rightarrow> goal_id_wire g \<and> length held = line_max \<and> len \<le> line_max)"

definition operator_ok :: "operator \<Rightarrow> bool" where
  "operator_ok op \<longleftrightarrow>
     length (op_line op) = line_max \<and>
     op_commands op = pack max_commands (flatten (op_commands op)) \<and> length (flatten (op_commands op)) \<le> max_commands \<and>
     list_all (\<lambda>c. command_ok c \<and> command_clean c) (flatten (op_commands op)) \<and>
     length (op_inputs op) = input_slots \<and> distinct (map fst (flatten (op_inputs op))) \<and>
     list_all input_ok (flatten (op_inputs op)) \<and> capabilities_wire (op_capabilities op)"

record channel =
  ch_queue :: "command list"
  ch_inputs :: "goal_id \<Rightarrow> bytes option"
  ch_selected :: "goal_id option"

definition typed_inputs :: "(goal_id \<times> bytes \<times> nat) option list \<Rightarrow> goal_id \<Rightarrow> bytes option" where
  "typed_inputs slots = map_of (map (\<lambda>(g, held, len). (g, take len held)) (flatten slots))"

definition channel_of :: "operator \<Rightarrow> channel" where
  "channel_of op =
     \<lparr>ch_queue = flatten (op_commands op), ch_inputs = typed_inputs (op_inputs op), ch_selected = op_selected op\<rparr>"

text \<open>What the operator and the supervisor do with it, and what they see.\<close>

datatype channel_event = Type_Line bytes | Sense_At u64 | Select_Goal goal_id | Ask_Input nat

datatype seen = Saw_Reply reply | Saw_Sense sense | Saw_Input "bytes option" | Saw_Too_Long | Saw_Nothing

definition typed_line :: "bytes \<Rightarrow> bytes" where
  "typed_line bs = filter (\<lambda>b. b \<noteq> 0x0d) bs"

inductive channel_step :: "envelope \<Rightarrow> capabilities \<Rightarrow> channel \<Rightarrow> channel_event \<Rightarrow> seen \<Rightarrow> channel \<Rightarrow> bool"
  for env caps where
  Queue_Command: "length (typed_line bs) \<le> line_max \<Longrightarrow> line_means env caps (typed_line bs) (Means_Command c) \<Longrightarrow>
    length (ch_queue ch) < max_commands \<Longrightarrow>
    channel_step env caps ch (Type_Line bs) (Saw_Reply Queued) (ch\<lparr>ch_queue := ch_queue ch @ [c]\<rparr>)"
| Queue_Full: "length (typed_line bs) \<le> line_max \<Longrightarrow> line_means env caps (typed_line bs) (Means_Command c) \<Longrightarrow>
    length (ch_queue ch) = max_commands \<Longrightarrow>
    channel_step env caps ch (Type_Line bs) (Saw_Reply (Refused ''commands are full until the next beat'')) ch"
| Hold_Input: "length (typed_line bs) \<le> line_max \<Longrightarrow> line_means env caps (typed_line bs) (Means_Input g words) \<Longrightarrow>
    ch_inputs ch g \<noteq> None \<or> card (dom (ch_inputs ch)) < input_slots \<Longrightarrow>
    channel_step env caps ch (Type_Line bs) (Saw_Reply (Held g)) (ch\<lparr>ch_inputs := (ch_inputs ch)(g \<mapsto> words)\<rparr>)"
| Inputs_Full: "length (typed_line bs) \<le> line_max \<Longrightarrow> line_means env caps (typed_line bs) (Means_Input g words) \<Longrightarrow>
    ch_inputs ch g = None \<Longrightarrow> card (dom (ch_inputs ch)) = input_slots \<Longrightarrow>
    channel_step env caps ch (Type_Line bs) (Saw_Reply (Refused ''inputs are full'')) ch"
| Refuse_Line: "line_max < length (typed_line bs) \<or>
    (\<forall>c. \<not> line_means env caps (typed_line bs) (Means_Command c)) \<and> (\<forall>g words. \<not> line_means env caps (typed_line bs) (Means_Input g words)) \<Longrightarrow>
    channel_step env caps ch (Type_Line bs) (Saw_Reply (Refused r)) ch"
| Sense_Channel: "se_now s = now \<Longrightarrow> sense_ok s \<Longrightarrow> sense_commands s = ch_queue ch \<Longrightarrow>
    list_all command_clean (ch_queue ch) \<Longrightarrow> (\<And>g. is_ready s g \<longleftrightarrow> ch_inputs ch g \<noteq> None) \<Longrightarrow>
    channel_step env caps ch (Sense_At now) (Saw_Sense s) (ch\<lparr>ch_queue := []\<rparr>)"
| Select_Channel: "channel_step env caps ch (Select_Goal g) Saw_Nothing (ch\<lparr>ch_selected := Some g\<rparr>)"
| Take_Input: "ch_selected ch = Some g \<Longrightarrow> ch_inputs ch g = Some words \<Longrightarrow> length words \<le> n \<Longrightarrow>
    channel_step env caps ch (Ask_Input n) (Saw_Input (Some words)) (ch\<lparr>ch_inputs := (ch_inputs ch)(g := None)\<rparr>)"
| Keep_Input: "ch_selected ch = Some g \<Longrightarrow> ch_inputs ch g = Some words \<Longrightarrow> n < length words \<Longrightarrow>
    channel_step env caps ch (Ask_Input n) Saw_Too_Long ch"
| No_Input: "Option.bind (ch_selected ch) (ch_inputs ch) = None \<Longrightarrow>
    channel_step env caps ch (Ask_Input n) (Saw_Input None) ch"

inductive channel_trace :: "envelope \<Rightarrow> capabilities \<Rightarrow> channel \<Rightarrow> channel_event list \<Rightarrow> seen list \<Rightarrow> channel \<Rightarrow> bool"
  for env caps where
  Trace_Nil: "channel_trace env caps ch [] [] ch"
| Trace_Cons: "channel_step env caps ch e o1 ch1 \<Longrightarrow> channel_trace env caps ch1 es os ch2 \<Longrightarrow>
    channel_trace env caps ch (e # es) (o1 # os) ch2"

text \<open>The same events on the channel of the code.\<close>

fun feed_all :: "bytes \<Rightarrow> operator \<Rightarrow> operator \<times> reply option" where
  "feed_all [] op = (op, None)"
| "feed_all [b] op = feed b op"
| "feed_all (b # bs) op = feed_all bs (fst (feed b op))"

definition operate :: "channel_event \<Rightarrow> operator \<Rightarrow> operator \<times> seen" where
  "operate e op =
     (case e of
        Type_Line bs \<Rightarrow> (case feed_all (bs @ [0x0a]) op of (op', r) \<Rightarrow> (op', case r of Some x \<Rightarrow> Saw_Reply x | None \<Rightarrow> Saw_Nothing))
      | Sense_At now \<Rightarrow> (case operator_sense now op of (op', r) \<Rightarrow> (op', case r of Inr s \<Rightarrow> Saw_Sense s | Inl _ \<Rightarrow> Saw_Nothing))
      | Select_Goal g \<Rightarrow> (operator_select g op, Saw_Nothing)
      | Ask_Input n \<Rightarrow>
          (case take_input (replicate n 0) op of
             (op', Inl TooLong) \<Rightarrow> (op', Saw_Too_Long)
           | (op', Inr None) \<Rightarrow> (op', Saw_Input None)
           | (op', Inr (Some (out, len))) \<Rightarrow> (op', Saw_Input (slice out 0 len))))"

fun operate_all :: "channel_event list \<Rightarrow> operator \<Rightarrow> operator \<times> seen list" where
  "operate_all [] op = (op, [])"
| "operate_all (e # es) op =
     (case operate e op of (op', x) \<Rightarrow> (case operate_all es op' of (op'', xs) \<Rightarrow> (op'', x # xs)))"

section \<open>Typing\<close>

lemma feed_all_fold: "bs \<noteq> [] \<Longrightarrow> feed_all bs op = feed (last bs) (fold (\<lambda>b op. fst (feed b op)) (butlast bs) op)"
  by (induction bs op rule: feed_all.induct) auto

lemma feed_cr: "feed 0x0d op = (op, None)"
  by (simp add: feed_def)

lemma typed:
  assumes "length (op_line op) = line_max" "op_len op = 0" "\<not> op_overrun op" "0x0a \<notin> set bs"
  shows "\<exists>line. fold (\<lambda>b op. fst (feed b op)) bs op =
      op\<lparr>op_line := line, op_len := min line_max (length (typed_line bs)), op_overrun := line_max < length (typed_line bs)\<rparr> \<and>
    length line = line_max \<and> take (min line_max (length (typed_line bs))) line = take line_max (typed_line bs)"
  using assms(4)
proof (induction bs rule: rev_induct)
  case Nil
  show ?case using assms(1-3) by (intro exI [of _ "op_line op"]) (simp add: typed_line_def)
next
  case (snoc b bs)
  let ?l = "typed_line bs"
  obtain line where IH: "fold (\<lambda>b op. fst (feed b op)) bs op =
      op\<lparr>op_line := line, op_len := min line_max (length ?l), op_overrun := line_max < length ?l\<rparr>"
    and line: "length line = line_max" "take (min line_max (length ?l)) line = take line_max ?l"
    using snoc by auto
  consider "b = 0x0d" | "b \<noteq> 0x0d" "length ?l < line_max" | "b \<noteq> 0x0d" "line_max \<le> length ?l" by linarith
  then show ?case
  proof cases
    case 1
    then show ?thesis using IH line by (intro exI [of _ line]) (simp add: feed_cr typed_line_def)
  next
    case 2
    have "take (Suc (length ?l)) (line[length ?l := b]) = ?l @ [b]"
      using line 2 by (simp add: take_Suc_conv_app_nth)
    moreover have "typed_line (bs @ [b]) = ?l @ [b]" "min line_max (Suc (length ?l)) = Suc (length ?l)"
      using 2 by (simp_all add: typed_line_def)
    ultimately show ?thesis using IH line 2 snoc.prems
      by (intro exI [of _ "line[length ?l := b]"]) (simp add: feed_def [of b])
  next
    case 3
    then have "typed_line (bs @ [b]) = ?l @ [b]" by (simp add: typed_line_def)
    then show ?thesis using IH line 3 snoc.prems by (intro exI [of _ line]) (simp add: feed_def [of b] min_def)
  qed
qed

section \<open>Slots of typed inputs\<close>

lemma flatten_slot: "i < length s \<Longrightarrow> flatten (s[i := x]) = flatten (take i s) @ flatten [x] @ flatten (drop (Suc i) s)"
proof -
  assume "i < length s"
  then have "s[i := x] = take i s @ [x] @ drop (Suc i) s" by (simp add: upd_conv_take_nth_drop)
  then show ?thesis by (simp only: flatten_append)
qed

lemma flatten_at: "i < length s \<Longrightarrow> flatten s = flatten (take i s) @ flatten [s ! i] @ flatten (drop (Suc i) s)"
  using flatten_slot [of i s "s ! i"] by simp

lemma typed_keys: "dom (map_of (map (\<lambda>(g, held, len). (g, take len held)) xs)) = fst ` set xs"
  by (simp add: dom_map_of_conv_image_fst image_image case_prod_beta)

lemma typed_slot:
  assumes "i < length s" "g \<notin> fst ` set (flatten (s[i := None]))"
  shows "typed_inputs (s[i := Some (g, held, n)]) = (typed_inputs (s[i := None]))(g \<mapsto> take n held)"
    "typed_inputs (s[i := None]) g = None"
proof -
  let ?f = "\<lambda>(g, held, len). (g, take len held)"
  have out: "g \<notin> dom (map_of (map ?f (flatten (take i s))))" "g \<notin> dom (map_of (map ?f (flatten (drop (Suc i) s))))"
    using assms by (simp_all add: typed_keys flatten_slot image_Un)
  then show "typed_inputs (s[i := Some (g, held, n)]) = (typed_inputs (s[i := None]))(g \<mapsto> take n held)"
    by (simp add: typed_inputs_def flatten_slot assms(1) map_add_upd_left)
  show "typed_inputs (s[i := None]) g = None"
    using out by (auto simp: typed_inputs_def flatten_slot assms(1) map_add_None)
qed

lemma dom_typed: "dom (typed_inputs s) = fst ` set (flatten s)"
  by (simp add: typed_inputs_def typed_keys)

lemma card_typed: "distinct (map fst (flatten s)) \<Longrightarrow> card (dom (typed_inputs s)) = length (flatten s)"
  unfolding dom_typed using distinct_card [of "map fst (flatten s)"] by simp

lemma free_slot: "position (\<lambda>x. x = None) s = None \<longleftrightarrow> length (flatten s) = length s"
proof -
  have "length (flatten s) = length s \<longleftrightarrow> None \<notin> set s"
  proof (induction s rule: flatten.induct)
    case (2 s)
    then show ?case using length_flatten [of s] by simp
  qed auto
  moreover have "position (\<lambda>x. x = None) s = None \<longleftrightarrow> None \<notin> set s" unfolding position_None_iff by metis
  ultimately show ?thesis by simp
qed

lemma waiting_slot:
  assumes "distinct (map fst (flatten s))" "position (waiting g) s = Some i"
  obtains held n where "i < length s" "s ! i = Some (g, held, n)" "g \<notin> fst ` set (flatten (s[i := None]))"
proof -
  have i: "i < length s" "waiting g (s ! i)" using assms(2) by (auto simp: position_Some_iff)
  then obtain held n where e: "s ! i = Some (g, held, n)" by (auto simp: waiting_def split: option.splits)
  have "g \<notin> fst ` set (flatten (s[i := None]))"
    using assms(1) i(1) by (auto simp: flatten_slot flatten_at [OF i(1)] e)
  then show ?thesis using that i e by blast
qed

lemma none_waiting: "position (waiting g) s = None \<longleftrightarrow> g \<notin> fst ` set (flatten s)"
proof -
  have "(\<forall>x \<in> set s. \<not> waiting g x) \<longleftrightarrow> g \<notin> fst ` set (flatten s)"
    by (induction s rule: flatten.induct) (auto simp: waiting_def)
  then show ?thesis by (simp add: position_None_iff)
qed

text \<open>A slot is filled for a goal no other slot is for, and freed.\<close>

lemma slot_filled:
  assumes "list_all input_ok (flatten s)" "distinct (map fst (flatten s))" "i < length s" "g \<notin> fst ` set (flatten (s[i := None]))"
    "input_ok (g, held, n)"
  shows "list_all input_ok (flatten (s[i := Some (g, held, n)]))" "distinct (map fst (flatten (s[i := Some (g, held, n)])))"
    "list_all input_ok (flatten (s[i := None]))" "distinct (map fst (flatten (s[i := None])))"
  using assms by (auto simp: flatten_slot flatten_at [of i s])

section \<open>The channel refines the abstract one\<close>

definition between_lines :: "operator \<Rightarrow> bool" where
  "between_lines op \<longleftrightarrow> op_len op = 0 \<and> \<not> op_overrun op"

definition refines :: "operator \<Rightarrow> channel_event \<Rightarrow> seen \<Rightarrow> operator \<Rightarrow> bool" where
  "refines op e x op' \<longleftrightarrow>
     operator_ok op' \<and> op_envelope op' = op_envelope op \<and> op_capabilities op' = op_capabilities op \<and>
     channel_step (op_envelope op) (op_capabilities op) (channel_of op) e x (channel_of op')"

lemma means_ok:
  assumes "line_means env caps l (Means_Command c)" "capabilities_wire caps"
  shows "command_ok c \<and> command_clean c"
proof -
  have "note_ok n \<and> clean_note n" if "ingest t = Inr n" for t n
    using masked_ingest.ing_clean [OF that] note_clean_note by (auto simp: note_clean_def)
  moreover have "goal_event_is_operator e" if "control_event v = Some e" for v e
    using that by (auto simp: control_event_def split: if_splits)
  ultimately show ?thesis using assms
    by (cases c) (auto simp: line_means_spelt command_ok_def command_clean_def cadence_wire_def parse_goal_id_iff)
qed

lemma queue_refines:
  assumes ok: "operator_ok op" and bs: "length (typed_line bs) \<le> line_max"
    and c: "line_means (op_envelope op) (op_capabilities op) (typed_line bs) (Means_Command c)"
    and q: "queue_command (Inr c) op = (op', r)"
  shows "refines op (Type_Line bs) (Saw_Reply r) op'"
proof -
  let ?cs = "flatten (op_commands op)"
  have pack: "op_commands op = pack max_commands ?cs" "length ?cs \<le> max_commands" using ok by (simp_all add: operator_ok_def)
  have cok: "command_ok c \<and> command_clean c" using means_ok [OF c] ok by (simp add: operator_ok_def)
  have fill: "fill_free c (op_commands op) = (if length ?cs < max_commands then Some (pack max_commands (?cs @ [c])) else None)"
    using fill_free_pack [of c max_commands ?cs] pack(1) by simp
  show ?thesis
  proof (cases "length ?cs < max_commands")
    case True
    then have q': "op' = op\<lparr>op_commands := pack max_commands (?cs @ [c])\<rparr>" "r = Queued"
      using q fill by (simp_all add: queue_command_def)
    then show ?thesis using ok cok True Queue_Command [OF bs c, of "channel_of op"]
      by (simp add: refines_def operator_ok_def channel_of_def flatten_pack)
  next
    case False
    then show ?thesis using q fill ok pack Queue_Full [OF bs c, of "channel_of op"]
      by (auto simp: queue_command_def refines_def channel_of_def)
  qed
qed

lemma hold_refines:
  assumes ok: "operator_ok op" and bs: "length (typed_line bs) \<le> line_max"
    and c: "line_means (op_envelope op) (op_capabilities op) (typed_line bs) (Means_Input g words)"
    and q: "hold g words op = (op', r)"
  shows "refines op (Type_Line bs) (Saw_Reply r) op'"
proof -
  let ?s = "op_inputs op"
  have inv: "list_all input_ok (flatten ?s)" "distinct (map fst (flatten ?s))" "length ?s = input_slots"
    using ok by (simp_all add: operator_ok_def)
  obtain rest number where m: "line_of (str_bytes ''say'') rest (typed_line bs)" "line_of number words rest" "parse_goal_id number = Some g"
    using c by (auto simp: line_means_spelt)
  then have len: "length words \<le> line_max" and g: "goal_id_wire g"
    using line_of_length [OF m(1)] line_of_length [OF m(2)] bs by (auto simp: parse_goal_id_iff)
  define held where "held = words @ replicate (line_max - length words) (0 :: u8)"
  have held: "splice (replicate line_max 0) 0 words = Some held" using len by (simp add: splice_def held_def)
  have e: "input_ok (g, held, length words)" "take (length words) held = words" using len g by (simp_all add: input_ok_def held_def)
  have fill: "refines op (Type_Line bs) (Saw_Reply (Held g)) (op\<lparr>op_inputs := ?s[i := Some (g, held, length words)]\<rparr>)"
    if i: "i < length ?s" "g \<notin> fst ` set (flatten (?s[i := None]))"
      and before: "typed_inputs ?s = (typed_inputs (?s[i := None]))(g := typed_inputs ?s g)"
      and room: "typed_inputs ?s g \<noteq> None \<or> length (flatten ?s) < input_slots" for i
  proof -
    have "typed_inputs (?s[i := Some (g, held, length words)]) = (typed_inputs ?s)(g \<mapsto> words)"
      using typed_slot(1) [OF i, of held "length words"] e(2) by (subst before) simp
    moreover note slot_filled [OF inv(1,2) i e(1)]
    ultimately show ?thesis
      using ok Hold_Input [OF bs c, of "channel_of op"] room
      by (simp add: refines_def operator_ok_def channel_of_def card_typed [OF inv(2)])
  qed
  show ?thesis
  proof (cases "position (waiting g) ?s")
    case (Some i)
    then obtain h n where i: "i < length ?s" "?s ! i = Some (g, h, n)" "g \<notin> fst ` set (flatten (?s[i := None]))"
      by (rule waiting_slot [OF inv(2)])
    have eq: "?s[i := Some (g, h, n)] = ?s" using i(1,2) by (metis list_update_id)
    have "typed_inputs ?s = (typed_inputs (?s[i := None]))(g \<mapsto> take n h)"
      using typed_slot(1) [OF i(1,3), of h n] by (simp add: eq)
    then have "typed_inputs ?s = (typed_inputs (?s[i := None]))(g := typed_inputs ?s g)" "typed_inputs ?s g \<noteq> None" by auto
    then show ?thesis using fill [OF i(1,3)] q held Some by (auto simp: hold_def)
  next
    case None
    then have new: "g \<notin> fst ` set (flatten ?s)" "typed_inputs ?s g = None"
      using none_waiting [of g ?s] dom_typed [of ?s] by (auto simp: domIff)
    show ?thesis
    proof (cases "position (\<lambda>x. x = None) ?s")
      case None
      then have "length (flatten ?s) = input_slots" using free_slot [of ?s] inv(3) by simp
      then show ?thesis using \<open>position (waiting g) ?s = None\<close> None q held ok new Inputs_Full [OF bs c, of "channel_of op"] inv(2)
        by (auto simp: hold_def refines_def channel_of_def card_typed)
    next
      case (Some i)
      then have i: "i < length ?s" "?s ! i = None" by (auto simp: position_Some_iff)
      then have eq: "?s[i := None] = ?s" by (metis list_update_id)
      have "length (flatten ?s) < input_slots"
        using Some free_slot [of ?s] length_flatten [of ?s] inv(3) by simp
      moreover have "(typed_inputs ?s)(g := None) = typed_inputs ?s" using new(2) by (metis fun_upd_triv)
      ultimately show ?thesis using fill [OF i(1)] new eq q held Some \<open>position (waiting g) ?s = None\<close>
        by (auto simp: hold_def)
    qed
  qed
qed

lemma obey_refines:
  assumes ok: "operator_ok op" and l: "line_of verb rest (typed_line bs)" "length (typed_line bs) \<le> line_max"
    and q: "obey verb rest op = (op', r)"
  shows "refines op (Type_Line bs) (Saw_Reply r) op'"
proof (cases "line_meaning (op_envelope op) (op_capabilities op) verb rest")
  case (Means_Command c)
  moreover from this have "queue_command (Inr c) op = (op', r)" using q by (simp add: obey_meaning)
  ultimately show ?thesis using queue_refines [OF ok l(2)] line_meaning_command [OF l(1)] by blast
next
  case (Means_Input g words)
  moreover from this have "hold g words op = (op', r)" using q by (simp add: obey_meaning)
  ultimately show ?thesis using hold_refines [OF ok l(2)] line_meaning_input [OF l(1)] by blast
next
  case (Means_Nothing s)
  let ?env = "op_envelope op" and ?caps = "op_capabilities op"
  have "\<not> line_means ?env ?caps (typed_line bs) (Means_Command c)" "\<not> line_means ?env ?caps (typed_line bs) (Means_Input g words)" for c g words
    using Means_Nothing line_meaning_command [OF l(1), of ?env ?caps c] line_meaning_input [OF l(1), of ?env ?caps g words] by auto
  then show ?thesis
    using Means_Nothing q ok Refuse_Line [of bs ?env ?caps "channel_of op"] by (auto simp: obey_meaning refines_def)
qed

lemma sense_inputs_ready:
  "se_ready s = pack max_goals rs \<Longrightarrow> distinct (rs @ map fst xs) \<Longrightarrow> length rs + length xs \<le> max_goals \<Longrightarrow>
   sense_inputs xs s = Inr (s\<lparr>se_ready := pack max_goals (rs @ map fst xs)\<rparr>)"
proof (induction xs arbitrary: s rs)
  case (Cons x xs)
  obtain g y where x: "x = (g, y)" by (cases x) (rule that)
  have "sense_ready s g = Inr (s\<lparr>se_ready := pack max_goals (rs @ [g])\<rparr>)"
    using sense_ready_pack [OF Cons.prems(1), of g] Cons.prems x by simp
  then show ?case
    using Cons.IH [of "s\<lparr>se_ready := pack max_goals (rs @ [g])\<rparr>" "rs @ [g]"] Cons.prems x by simp
qed simp

lemma hand_over_all:
  "se_commands s = pack max_commands cs \<Longrightarrow> length (cs @ flatten slots) \<le> max_commands \<Longrightarrow>
   hand_over slots s = (replicate (length slots) None, Inr (s\<lparr>se_commands := pack max_commands (cs @ flatten slots)\<rparr>))"
proof (induction slots s arbitrary: cs rule: hand_over.induct)
  case (3 c slots s)
  have "sense_command s c = Inr (s\<lparr>se_commands := pack max_commands (cs @ [c])\<rparr>)"
    using sense_command_pack [OF 3(2), of c] 3(3) by simp
  then show ?case using 3(1) [of _ "cs @ [c]"] 3(3) by simp
qed simp_all

lemma sense_refines:
  assumes ok: "operator_ok op"
  shows "\<exists>s. operator_sense now op = (op\<lparr>op_commands := replicate max_commands None\<rparr>, Inr s) \<and>
    refines op (Sense_At now) (Saw_Sense s) (op\<lparr>op_commands := replicate max_commands None\<rparr>)"
proof -
  let ?cs = "flatten (op_commands op)" and ?gs = "map fst (flatten (op_inputs op))"
  have pack: "op_commands op = pack max_commands ?cs" "length ?cs \<le> max_commands" "length (op_commands op) = max_commands"
    using ok length_pack [of ?cs max_commands] by (auto simp: operator_ok_def)
  have new: "se_ready (sense_at now) = pack max_goals []" "se_commands (sense_at now) = pack max_commands []"
    by (simp_all add: sense_at_def pack_def)
  define s where "s = (sense_at now)\<lparr>se_ready := pack max_goals ?gs, se_commands := pack max_commands ?cs\<rparr>"
  have gs: "distinct ?gs" "length ?gs \<le> max_goals" "list_all goal_id_wire ?gs"
    using ok length_flatten [of "op_inputs op"]
    by (auto simp: operator_ok_def input_slots_def max_goals_def list_all_iff input_ok_def)
  have "sense_inputs (flatten (op_inputs op)) (sense_at now) = Inr ((sense_at now)\<lparr>se_ready := pack max_goals ?gs\<rparr>)"
    using sense_inputs_ready [OF new(1)] gs by simp
  moreover have "hand_over (op_commands op) ((sense_at now)\<lparr>se_ready := pack max_goals ?gs\<rparr>) = (replicate max_commands None, Inr s)"
    using hand_over_all [of "(sense_at now)\<lparr>se_ready := pack max_goals ?gs\<rparr>" "[]" "op_commands op"] new(2) pack by (simp add: s_def)
  ultimately have run: "operator_sense now op = (op\<lparr>op_commands := replicate max_commands None\<rparr>, Inr s)"
    by (simp add: operator_sense_def)
  have sok: "sense_ok s" "sense_commands s = ?cs" "se_now s = now"
    using gs pack ok by (auto simp: sense_ok_def s_def sense_commands_def operator_ok_def list_all_iff sense_at_def)
  have "is_ready s g \<longleftrightarrow> typed_inputs (op_inputs op) g \<noteq> None" for g
  proof -
    have "is_ready s g \<longleftrightarrow> g \<in> set ?gs" by (auto simp: is_ready_def s_def pack_def)
    then show ?thesis using dom_typed [of "op_inputs op"] by (auto simp: domIff)
  qed
  moreover have "list_all command_clean ?cs" using ok by (simp add: operator_ok_def list_all_iff)
  ultimately have "channel_step (op_envelope op) (op_capabilities op) (channel_of op) (Sense_At now) (Saw_Sense s)
      ((channel_of op)\<lparr>ch_queue := []\<rparr>)"
    by (intro Sense_Channel) (simp_all add: sok channel_of_def)
  moreover have "op_commands op \<noteq> [] \<longrightarrow> pack max_commands [] = replicate max_commands None" by (simp add: pack_def)
  ultimately have "refines op (Sense_At now) (Saw_Sense s) (op\<lparr>op_commands := replicate max_commands None\<rparr>)"
    using ok by (simp add: refines_def operator_ok_def channel_of_def pack_def)
  then show ?thesis using run by blast
qed

lemma take_refines:
  assumes ok: "operator_ok op"
  shows "\<exists>op' x. operate (Ask_Input n) op = (op', x) \<and> refines op (Ask_Input n) x op' \<and> (between_lines op \<longrightarrow> between_lines op')"
proof -
  let ?s = "op_inputs op" and ?step = "channel_step (op_envelope op) (op_capabilities op) (channel_of op) (Ask_Input n)"
  have inv: "list_all input_ok (flatten ?s)" "distinct (map fst (flatten ?s))" using ok by (simp_all add: operator_ok_def)
  consider "op_selected op = None" | g where "op_selected op = Some g" "position (waiting g) ?s = None"
    | g i where "op_selected op = Some g" "position (waiting g) ?s = Some i"
    by (cases "op_selected op"; cases "position (waiting (the (op_selected op))) ?s") auto
  then show ?thesis
  proof cases
    case 1
    then show ?thesis using ok No_Input [of "channel_of op"]
      by (auto simp: operate_def take_input_def refines_def channel_of_def)
  next
    case (2 g)
    then have "typed_inputs ?s g = None" using none_waiting [of g ?s] dom_typed [of ?s] by (auto simp: domIff)
    then have "?step (Saw_Input None) (channel_of op)" using 2 by (intro No_Input) (simp add: channel_of_def)
    then show ?thesis using ok 2 by (auto simp: operate_def take_input_def refines_def)
  next
    case (3 g i)
    obtain h len where i: "i < length ?s" "?s ! i = Some (g, h, len)" "g \<notin> fst ` set (flatten (?s[i := None]))"
      using 3(2) by (rule waiting_slot [OF inv(2)])
    have e: "input_ok (g, h, len)" using inv(1) flatten_at [OF i(1)] i(2) by (simp add: list_all_iff)
    then have h: "slice h 0 len = Some (take len h)" "length (take len h) = len" by (auto simp: input_ok_def slice_def)
    have eq: "?s[i := Some (g, h, len)] = ?s" using i(1,2) by (metis list_update_id)
    have typed: "typed_inputs ?s = (typed_inputs (?s[i := None]))(g \<mapsto> take len h)" "typed_inputs (?s[i := None]) g = None"
      using typed_slot(1) [OF i(1,3), of h len] typed_slot(2) [OF i(1,3)] by (simp_all add: eq)
    show ?thesis
    proof (cases "len \<le> n")
      case True
      have "(typed_inputs ?s)(g := None) = typed_inputs (?s[i := None])" using typed by (simp add: fun_upd_idem)
      then have "?step (Saw_Input (Some (take len h))) (channel_of (op\<lparr>op_inputs := ?s[i := None]\<rparr>))"
        using Take_Input [of "channel_of op" g "take len h" n] 3(1) typed True h by (simp add: channel_of_def)
      then show ?thesis using ok 3 i True h slot_filled [OF inv i(1,3) e]
        by (auto simp: operate_def take_input_def refines_def splice_def slice_def operator_ok_def between_lines_def)
    next
      case False
      then have "?step Saw_Too_Long (channel_of op)"
        using Keep_Input [of "channel_of op" g "take len h" n] 3(1) typed h by (simp add: channel_of_def)
      then show ?thesis using ok 3 i False h by (auto simp: operate_def take_input_def refines_def splice_def)
    qed
  qed
qed

lemma line_refines:
  assumes ok: "operator_ok op" "between_lines op" and bs: "0x0a \<notin> set bs"
  shows "\<exists>op' x. operate (Type_Line bs) op = (op', x) \<and> refines op (Type_Line bs) x op' \<and> between_lines op'"
proof -
  let ?l = "typed_line bs"
  obtain line where run: "fold (\<lambda>b op. fst (feed b op)) bs op =
      op\<lparr>op_line := line, op_len := min line_max (length ?l), op_overrun := line_max < length ?l\<rparr>" (is "_ = ?op1")
    and line: "length line = line_max" "take (min line_max (length ?l)) line = take line_max ?l"
    using typed [of op bs] ok bs by (auto simp: operator_ok_def between_lines_def)
  have feed: "feed_all (bs @ [0x0a]) op = feed 0x0a ?op1" using feed_all_fold [of "bs @ [0x0a]" op] run by simp
  have ok1: "operator_ok ?op1" using ok line by (simp add: operator_ok_def)
  show ?thesis
  proof (cases "line_max < length ?l")
    case True
    then have "operate (Type_Line bs) op = (op\<lparr>op_line := line, op_len := 0, op_overrun := False\<rparr>, Saw_Reply (Refused ''line too long''))"
      by (simp add: operate_def feed feed_def)
    moreover have "refines op (Type_Line bs) (Saw_Reply (Refused ''line too long'')) (op\<lparr>op_line := line, op_len := 0, op_overrun := False\<rparr>)"
      using ok line Refuse_Line [of bs "op_envelope op" "op_capabilities op" "channel_of op"] True
      by (simp add: refines_def operator_ok_def channel_of_def)
    ultimately show ?thesis by (auto simp: between_lines_def)
  next
    case False
    obtain verb rest where sp: "split_word ?l = (verb, rest)" by fastforce
    obtain op2 r where q: "obey verb rest ?op1 = (op2, r)" by fastforce
    have m: "min line_max (length ?l) = length ?l" using False by simp
    have "slice line 0 (length ?l) = Some ?l" using False line by (simp add: slice_def m)
    then have run: "operate (Type_Line bs) op = (op2\<lparr>op_len := 0, op_overrun := False\<rparr>, Saw_Reply r)"
      using False q by (simp add: operate_def feed feed_def finish_line_def split_trim sp m)
    have "refines ?op1 (Type_Line bs) (Saw_Reply r) op2"
      by (rule obey_refines [OF ok1 split_line_of [OF sp] _ q]) (use False in simp)
    then have "refines op (Type_Line bs) (Saw_Reply r) (op2\<lparr>op_len := 0, op_overrun := False\<rparr>)"
      using ok(1) by (simp add: refines_def operator_ok_def channel_of_def)
    then show ?thesis using run by (auto simp: between_lines_def)
  qed
qed

text \<open>A line is typed without its newline.\<close>

definition event_ok :: "channel_event \<Rightarrow> bool" where
  "event_ok e = (case e of Type_Line bs \<Rightarrow> 0x0a \<notin> set bs | _ \<Rightarrow> True)"

lemma operate_refines:
  assumes "operator_ok op" "between_lines op" "event_ok e"
  shows "\<exists>op' x. operate e op = (op', x) \<and> refines op e x op' \<and> between_lines op'"
proof (cases e)
  case (Type_Line bs)
  then show ?thesis using line_refines assms by (simp add: event_ok_def)
next
  case (Sense_At now)
  then show ?thesis using sense_refines [OF assms(1), of now] assms(2) by (auto simp: operate_def between_lines_def)
next
  case (Select_Goal g)
  have "channel_step (op_envelope op) (op_capabilities op) (channel_of op) (Select_Goal g) Saw_Nothing
      ((channel_of op)\<lparr>ch_selected := Some g\<rparr>)"
    by (rule Select_Channel)
  then show ?thesis using assms Select_Goal
    by (auto simp: operate_def operator_select_def refines_def operator_ok_def channel_of_def between_lines_def)
next
  case (Ask_Input n)
  then show ?thesis using take_refines [OF assms(1)] assms(2) by blast
qed

lemma operate_all_refines:
  "operator_ok op \<Longrightarrow> between_lines op \<Longrightarrow> list_all event_ok es \<Longrightarrow> operate_all es op = (op', xs) \<Longrightarrow>
   channel_trace (op_envelope op) (op_capabilities op) (channel_of op) es xs (channel_of op')"
proof (induction es arbitrary: op xs)
  case (Cons e es)
  obtain op1 x where step: "operate e op = (op1, x)" "refines op e x op1" "between_lines op1"
    using operate_refines [of op e] Cons.prems by auto
  obtain xs' where rest: "operate_all es op1 = (op', xs')" "xs = x # xs'"
    using Cons.prems(4) step(1) by (auto split: prod.splits)
  have "channel_trace (op_envelope op) (op_capabilities op) (channel_of op1) es xs' (channel_of op')"
    using Cons.IH [OF _ step(3) _ rest(1)] step(2) Cons.prems(3) by (simp add: refines_def)
  then show ?case using step(2) rest(2) by (auto simp: refines_def intro: Trace_Cons)
qed (simp add: Trace_Nil)

lemma operator_new_ok:
  "capabilities_wire caps \<Longrightarrow> operator_ok (operator_new env caps) \<and> between_lines (operator_new env caps)"
  by (simp add: operator_ok_def operator_new_def between_lines_def pack_def)

definition channel_new :: channel where
  "channel_new = \<lparr>ch_queue = [], ch_inputs = Map.empty, ch_selected = None\<rparr>"

lemma channel_of_new: "channel_of (operator_new env caps) = channel_new"
  by (simp add: channel_of_def operator_new_def channel_new_def typed_inputs_def)

section \<open>Traces of the channel\<close>

text \<open>The lines that were answered \<open>Queued\<close>, and the commands handed over.\<close>

fun queued_lines :: "channel_event list \<Rightarrow> seen list \<Rightarrow> bytes list" where
  "queued_lines (Type_Line bs # es) (Saw_Reply Queued # xs) = typed_line bs # queued_lines es xs"
| "queued_lines (_ # es) (_ # xs) = queued_lines es xs"
| "queued_lines _ _ = []"

fun handed_over :: "seen list \<Rightarrow> command list" where
  "handed_over [] = []"
| "handed_over (Saw_Sense s # xs) = sense_commands s @ handed_over xs"
| "handed_over (_ # xs) = handed_over xs"

lemma trace_queue:
  "channel_trace env caps ch es xs ch' \<Longrightarrow>
   \<exists>cs. list_all2 (\<lambda>l c. line_means env caps l (Means_Command c)) (queued_lines es xs) cs \<and>
     ch_queue ch @ cs = handed_over xs @ ch_queue ch'"
proof (induction rule: channel_trace.induct)
  case (Trace_Cons ch e x ch1 es xs ch2)
  then obtain cs where cs: "list_all2 (\<lambda>l c. line_means env caps l (Means_Command c)) (queued_lines es xs) cs"
    "ch_queue ch1 @ cs = handed_over xs @ ch_queue ch2" by blast
  from Trace_Cons.hyps(1) show ?case
  proof cases
    case (Queue_Command bs c)
    then show ?thesis using cs by (intro exI [of _ "c # cs"]) simp
  qed (use cs in \<open>auto intro!: exI [of _ cs]\<close>)
qed simp

lemma trace_sense:
  "channel_trace env caps ch es xs ch' \<Longrightarrow> Saw_Sense s \<in> set xs \<Longrightarrow>
   sense_ok s \<and> list_all command_clean (sense_commands s)"
proof (induction rule: channel_trace.induct)
  case (Trace_Cons ch e x ch1 es xs ch2)
  then show ?case by (auto elim: channel_step.cases)
qed simp

section \<open>Properties\<close>

text \<open>A short session at the console, to apply the properties to.\<close>

definition console :: operator where
  "console = operator_new \<lparr>en_per_run_turns = 6, en_per_run_mutations = 2, en_turns = 40, en_mutations = 10, en_runs = 1\<rparr>
     capabilities_empty"

definition session :: "channel_event list" where
  "session = [Type_Line (str_bytes '' retire  7 ''), Type_Line (str_bytes ''say 7 yes''), Sense_At 1, Select_Goal (GoalId 7), Ask_Input 8]"

lemma session_ok: "capabilities_wire capabilities_empty" "list_all event_ok session"
  by code_simp+

lemma session_words:
  "split_word (str_bytes '' retire  7 '') = (str_bytes ''retire'', str_bytes ''7'')"
  "typed_line (str_bytes '' retire  7 '') = str_bytes '' retire  7 ''" "trim (str_bytes ''7'') = str_bytes ''7''"
  by code_simp+

lemma session_goal: "parse_goal_id (str_bytes ''7'') = Some (GoalId 7)"
  by (simp add: parse_goal_id_iff str_bytes_def decimal_def is_ascii_digit_def goal_id_wire_def)

lemma session_means:
  "line_meaning env caps (str_bytes ''retire'') (str_bytes ''7'') = Means_Command (Cmd_Control (GoalId 7) GE_Retire)"
proof -
  have "control_event (str_bytes ''retire'') = Some GE_Retire" "str_bytes ''retire'' \<noteq> []"
    "str_bytes ''retire'' \<noteq> str_bytes ''goal''" "str_bytes ''retire'' \<noteq> str_bytes ''say''"
    by code_simp+
  then show ?thesis by (simp add: line_meaning_def session_goal session_words)
qed

lemma session_starts:
  assumes "operate_all session console = (op, xs)"
  shows "hd xs = Saw_Reply Queued \<and> xs \<noteq> []"
proof -
  let ?l = "str_bytes '' retire  7 ''"
  have ok: "operator_ok console" "between_lines console" "event_ok (Type_Line ?l)"
    using operator_new_ok session_ok by (simp_all add: console_def session_def)
  obtain op1 x where x: "operate (Type_Line ?l) console = (op1, x)" "refines console (Type_Line ?l) x op1"
    using operate_refines [OF ok] by blast
  have "line_of (str_bytes ''retire'') (str_bytes ''7'') ?l" using session_words(1) by (rule split_line_of)
  note means = line_meaning_command [OF this, unfolded session_means] line_meaning_input [OF this, unfolded session_means]
  have "channel_step (op_envelope console) (op_capabilities console) (channel_of console) (Type_Line ?l) x (channel_of op1)"
    using x(2) by (simp add: refines_def)
  then have "x = Saw_Reply Queued"
    by cases (use means in \<open>auto simp: session_words line_max_def max_commands_def channel_of_def console_def operator_new_def\<close>)
  then show ?thesis using assms x(1) by (auto simp: session_def split: prod.splits)
qed

text \<open>C12: what a line means. The line a channel has collected is a command exactly when it is spelt as the
  channel's grammar says: \<open>goal\<close>, one digit and an objective; \<open>pause\<close>, \<open>unpause\<close> or \<open>retire\<close> and the
  decimal number of a goal, of at most five digits and from 1 to 65535; \<open>remember\<close>, a name and a value; or \<open>forget\<close> and a name, with any
  number of spaces around the words, and it is one command only. It is typed input for a goal exactly
  when it is \<open>say\<close>, a goal's number and some text. Every other line is refused and changes nothing.\<close>

theorem lines_mean_their_words:
  assumes "slice (op_line op) 0 (op_len op) = Some l"
  shows "(\<exists>c. line_means (op_envelope op) (op_capabilities op) l (Means_Command c) \<and>
        finish_line op = queue_command (Inr c) op \<and>
        (\<forall>c'. line_means (op_envelope op) (op_capabilities op) l (Means_Command c') \<longrightarrow> c' = c)) \<or>
    (\<exists>g words. line_means (op_envelope op) (op_capabilities op) l (Means_Input g words) \<and> finish_line op = hold g words op) \<or>
    (\<forall>c. \<not> line_means (op_envelope op) (op_capabilities op) l (Means_Command c)) \<and>
      (\<forall>g words. \<not> line_means (op_envelope op) (op_capabilities op) l (Means_Input g words)) \<and>
      (\<exists>s. finish_line op = (op, Refused s))"
proof -
  obtain verb rest where split: "split_word l = (verb, rest)" by fastforce
  have finish: "finish_line op = obey verb rest op" by (simp add: finish_line_def assms split_trim split)
  note l = split_line_of [OF split]
  note iff = line_meaning_command [OF l, of "op_envelope op" "op_capabilities op"]
    line_meaning_input [OF l, of "op_envelope op" "op_capabilities op"]
  show ?thesis unfolding iff [symmetric] finish obey_meaning
    by (cases "line_meaning (op_envelope op) (op_capabilities op) verb rest") auto
qed

theorem lines_mean_their_words_witness:
  "line_means (op_envelope console) (op_capabilities console) (str_bytes '' retire  7 '') (Means_Command (Cmd_Control (GoalId 7) GE_Retire)) \<and>
   (\<exists>op. finish_line op = queue_command (Inr (Cmd_Control (GoalId 7) GE_Retire)) op \<and> op_line op \<noteq> [])"
proof -
  let ?l = "str_bytes '' retire  7 ''" and ?c = "Cmd_Control (GoalId 7) GE_Retire"
  define op where "op = console\<lparr>op_line := ?l, op_len := length ?l\<rparr>"
  have held: "slice (op_line op) 0 (op_len op) = Some ?l" by (simp add: op_def slice_def)
  have env: "op_envelope op = op_envelope console" "op_capabilities op = op_capabilities console" by (simp_all add: op_def)
  have means: "line_means (op_envelope console) (op_capabilities console) ?l (Means_Command ?c)"
    using line_meaning_command [OF split_line_of [OF session_words(1)], of "op_envelope console" "op_capabilities console" ?c]
    by (simp add: session_means)
  moreover have "(\<forall>g words. \<not> line_means (op_envelope console) (op_capabilities console) ?l (Means_Input g words))"
    using line_meaning_input [OF split_line_of [OF session_words(1)], of "op_envelope console" "op_capabilities console"]
    by (simp add: session_means)
  ultimately have "finish_line op = queue_command (Inr ?c) op"
    using lines_mean_their_words [OF held] unfolding env by blast
  moreover have "op_line op \<noteq> []" by (simp add: op_def str_bytes_def)
  ultimately show ?thesis using means by blast
qed

text \<open>C10: the channel implements the abstract one. Whatever lines are typed, whenever the supervisor
  senses, selects a goal and asks for its input, the slots of the channel behave as a queue of at most
  three commands and a map from goals to their latest typed input, at most four of them: every reply,
  \<open>SENSE\<close> answer and input is the one the abstract channel gives, and an input too long for the buffer
  stays waiting.\<close>

theorem channel_refines_queue_and_map:
  assumes "capabilities_wire caps" "list_all event_ok es" "operate_all es (operator_new env caps) = (op, xs)"
  shows "channel_trace env caps channel_new es xs (channel_of op)"
  using operate_all_refines [OF _ _ assms(2,3)] operator_new_ok [OF assms(1), of env]
  by (simp add: channel_of_new [of env caps, symmetric]) (simp add: operator_new_def)

theorem channel_refines_queue_and_map_witness:
  "\<exists>op xs. operate_all session console = (op, xs) \<and> hd xs = Saw_Reply Queued \<and>
     channel_trace (op_envelope console) capabilities_empty channel_new session xs (channel_of op)"
proof -
  obtain op xs where run: "operate_all session console = (op, xs)" by fastforce
  then show ?thesis
    using channel_refines_queue_and_map [OF session_ok run [unfolded console_def]] session_starts [OF run]
    by (auto simp: console_def operator_new_def)
qed

text \<open>C11: the supervisor can rely on the channel. Every line answered \<open>Queued\<close> is one command, the commands
  of the \<open>SENSE\<close> answers and those still queued are exactly these, in the order they were typed and each
  once, and every \<open>SENSE\<close> answer decodes to what was handed over and is one the guarantees of the
  supervisor's whole life rely on: its notes are single lines.\<close>

theorem commands_delivered_once_in_order:
  assumes "capabilities_wire caps" "list_all event_ok es" "operate_all es (operator_new env caps) = (op, xs)"
  shows "(\<exists>cs. list_all2 (\<lambda>l c. line_means env caps l (Means_Command c)) (queued_lines es xs) cs \<and>
        cs = handed_over xs @ flatten (op_commands op)) \<and>
    (\<forall>s. Saw_Sense s \<in> set xs \<longrightarrow> sense_decode (sense_enc s) = Inr s \<and> trusted_event (sense_kind, i, Ans_Completed (sense_enc s)))"
proof -
  have "channel_trace env caps channel_new es xs (channel_of op)"
    using operate_all_refines [OF _ _ assms(2,3)] operator_new_ok [OF assms(1), of env]
    by (simp add: channel_of_new [of env caps, symmetric]) (simp add: operator_new_def)
  from trace_queue [OF this] trace_sense [OF this] show ?thesis
    by (auto simp: channel_new_def channel_of_def trusted_event_def sense_roundtrip)
qed

theorem commands_delivered_once_in_order_witness:
  "\<exists>op xs cs. operate_all session console = (op, xs) \<and>
     list_all2 (\<lambda>l c. line_means (op_envelope console) capabilities_empty l (Means_Command c)) (queued_lines session xs) cs \<and>
     cs = handed_over xs @ flatten (op_commands op) \<and> queued_lines session xs \<noteq> []"
proof -
  obtain op xs where run: "operate_all session console = (op, xs)" by fastforce
  then have "queued_lines session xs \<noteq> []"
    using session_starts by (cases xs) (auto simp: session_def)
  then show ?thesis
    using commands_delivered_once_in_order [OF session_ok run [unfolded console_def]] run
    by (auto simp: console_def operator_new_def)
qed

end
