(* ===== verification/Spec2Isabelle.thy ===== *)
theory Spec2Isabelle
  imports Run_Machine Budget Monitor Mask Compact Compact_Fold Contract Registry Beat Ingest Goal Memory
    Codec Items Checkpoint Harvest Snapshot Json Validate Decision Brief Wire Seed Run_Wire Flow Device Run Run_Safety
    Run_Demo Run_Bounds Run_Properties Agent_Wire Agent Agent_Invariant Agent_Log Agent_Safety Agent_Continue Agent_Life Agent_Demo Agent_Bounds Agent_Properties Operator
begin

text \<open>
  Verification library of the Esper core.

  Esper is a small agent runtime. A run asks a model for one line, decodes the line into a typed
  decision, passes a call through the capability gate, performs it, verifies it and journals every
  step; a supervisor keeps goals, spawns runs for them under reserved envelopes, harvests what a run
  learned into a memory, and writes its own state to flash as a checkpoint. The crates
  \<open>esper-core\<close> and \<open>esper-protocol\<close> hold the data and the rules without allocation or input and output;
  \<open>esper-runtime\<close> holds the two workflows, the run and the supervisor, which ask for recorded
  activities (inference, tools, probes, storage, timers); \<open>esper-board\<close> holds the operator's channel.

  \<^bold>\<open>Theories and sources\<close> (below \<open>src/crates\<close>)

    \<^item> \<open>Prelude\<close>: \<open>Result\<close> as a sum with \<open>and_then\<close>, checked and saturating word arithmetic, slices,
      slots (\<open>[Option<T>; N]\<close> as a list of options), little-endian bytes, positions and minima, and the
      interface of a transition table (\<open>edge_table\<close>).
    \<^item> \<open>Ids\<close>: \<open>esper-core/src/ids.rs\<close>, identifiers and the FNV-1a digest.
    \<^item> \<open>Vocabulary\<close>: \<open>error.rs\<close>, \<open>state.rs\<close>, \<open>goal.rs\<close>, \<open>records.rs\<close>: the enums with their numeric codes,
      the errors and their repair hints.
    \<^item> \<open>Run_Machine\<close>: \<open>state.rs\<close>, the transition table of a run.
    \<^item> \<open>Budget\<close>, \<open>Monitor\<close>, \<open>Mask\<close>, \<open>Beat\<close>: the files of the same names.
    \<^item> \<open>Compact\<close>: \<open>compact.rs\<close> and \<open>lineage.rs\<close>: bounded notes, the compact state, the folding of a
      window of frames and the continuation as a new run; \<open>Compact_Fold\<close> says what the folding records.
    \<^item> \<open>Contract\<close>, \<open>Registry\<close>: \<open>esper-protocol/src/contract.rs\<close> and \<open>registry.rs\<close>: the tool catalog and the
      capability gate.
    \<^item> \<open>Ingest\<close>, \<open>Memory\<close>, \<open>Harvest\<close>: \<open>memory.rs\<close> and \<open>harvest.rs\<close>: masked notes, the store with its
      eviction and recall, and the harvest of a settled run.
    \<^item> \<open>Goal\<close>: \<open>goal.rs\<close>: the ledger of goals, their envelopes and schedules.
    \<^item> \<open>Codec\<close>, \<open>Items\<close>, \<open>Checkpoint\<close>, \<open>Snapshot\<close>: \<open>checkpoint.rs\<close> and \<open>snapshot.rs\<close>: writer and reader
      primitives, the item records, the supervisor's checkpoint and the run's snapshot.
    \<^item> \<open>Json\<close>, \<open>Validate\<close>, \<open>Decision\<close>: \<open>esper-protocol/src/json.rs\<close>, \<open>validate.rs\<close> and \<open>decision.rs\<close>: from
      the bytes of a model line to a typed decision. \<open>Brief\<close>: \<open>brief.rs\<close>, what a spawned run is told.
    \<^item> \<open>Wire\<close>, \<open>Seed\<close>, \<open>Run_Wire\<close>, \<open>Agent_Wire\<close>: \<open>esper-runtime/src/agent/wire.rs\<close>, \<open>seed.rs\<close>,
      \<open>run/wire.rs\<close>: the payloads of the activities of both workflows.
    \<^item> \<open>Flow\<close>: the shape of a workflow, a computation whose continuation takes the recorded answer of the
      activity it asked for, \<open>play\<close>ed against a list of answers, and its program logic \<open>holds\<close>.
    \<^item> \<open>Device\<close>, \<open>Run\<close>: \<open>run/device.rs\<close> (operator input, delay outcomes) and \<open>run/mod.rs\<close>, the run workflow
      with one definition per handler. \<open>Run_Safety\<close>, \<open>Run_Bounds\<close>: its invariants; \<open>Run_Demo\<close>: one run in
      full; \<open>Run_Properties\<close>: what holds of every run.
    \<^item> \<open>Agent\<close>: \<open>agent/mod.rs\<close>, the supervisor. \<open>Agent_Invariant\<close>, \<open>Agent_Log\<close>, \<open>Agent_Safety\<close>,
      \<open>Agent_Continue\<close>, \<open>Agent_Life\<close>, \<open>Agent_Bounds\<close>: its invariants, from one step to a whole life of
      segments; \<open>Agent_Demo\<close>: one life in full; \<open>Agent_Properties\<close>: what holds of every life.
    \<^item> \<open>Operator\<close>: \<open>esper-board/src/operator.rs\<close>, the operator's line protocol.

  \<^bold>\<open>How the model reads the code.\<close> A struct is a record, an enum a datatype, an integer a word of its
  width with the arithmetic of the source (checked, saturating or wrapping) written out; \<open>usize\<close> is
  \<open>nat\<close> where the values are lengths and positions of slices. \<open>Result<T, E>\<close> is \<open>error + 'a\<close>, and a
  method that takes \<open>&mut self\<close> returns the new state; where it fails its state is not returned,
  except where the caller can go on with it. A cursor that borrows the parser is the parser passed
  along. A loop is a structural recursion or a function with a measure; the two workflow loops are
  \<open>run_loop\<close>, which recurses through the answers it waits for and takes one measure between two of
  them, and \<open>supervise_beats\<close>, which counts the beats. None of them can diverge, and the termination
  properties bound how much they ask for.

  \<^bold>\<open>Interfaces.\<close> \<open>edge_table\<close> (transition tables), \<open>exact_reader\<close>, \<open>reading\<close>, \<open>codec\<close> and
  \<open>wire_reader\<close> (a reader that accepts exactly the images of an encoder, with or without a writer that
  emits them), \<open>recent_window\<close> (bounded lists), \<open>never_widens\<close> (steps that only narrow a budget) and
  \<open>text_ingest\<close> (bounded, clean notes from any text) are locales, each interpreted on the code's own
  definitions; the exactness of the checkpoint, of the snapshot and of every payload is put together from
  the interpretations for their parts.

  \<^bold>\<open>What is shown.\<close> For runs, whatever they are answered: the world is touched only under authority, a
  mutation is verified, the activities are bounded, and every ending says why. For the supervisor, over its
  whole life: runs are spawned under fresh identifiers within the template, goals stay within their
  envelopes, continuing as new is invisible, and beats end. For the ledger: books that add up under every
  sequence of operations, the settlement table, what the pick returns. For the memory: pinned entries stay,
  what a write does, what recall returns. For the stores on flash: the decoders accept exactly the images of
  well-formed states, and one corrupted byte is detected. For the data of a run: the verdicts of the
  monitor over the whole history, budgets that never widen, ruled-out paths that are never dropped, exactly
  what a compaction folds, masked output segment by segment. For the model's lines: the exact language of
  calls and of the argument validator, typed decisions. For the harvest: the latest entry earned per key, and
  that sealing and resuming lose nothing. For the operator: a queue and a map behind the slots, and what each
  line means.

  \<^bold>\<open>Assumptions.\<close> The workflow kernel is a parameter (the allocator of effect ids) and its recorded answers
  are arbitrary lists. The supervisor's properties assume, where they say so, that the notes its dispatcher
  hands over are single lines (\<open>trusted\<close>), which the board's own channel guarantees
  (\<open>commands_delivered_once_in_order\<close>).

  \<^bold>\<open>Not modelled.\<close> \<open>Display\<close> and \<open>Debug\<close> implementations; the bytes a failed writer leaves in its
  buffer; \<open>render.rs\<close> and the prompts of \<open>backend.rs\<close>; the dispatchers over the board's ports
  (\<open>run/device.rs\<close> beyond the two decoders above, \<open>agent/device.rs\<close>) and the flash windows of
  \<open>esper-board\<close>, which rest on the Waymaker kernel and its banks, third-party code outside the repository;
  the host harnesses and the simulated world, which are test doubles; the remote inference service;
  \<open>esper-emu\<close>, \<open>esper-eval\<close>, \<open>xtask\<close> and the board image, which are tools and glue around them.
\<close>

end
